(* ===== verification/Prelude.thy ===== *)
theory Prelude
  imports Main "HOL-Library.Word" "HOL-Library.Monad_Syntax"
begin

text \<open>
  Shared vocabulary of the development: addresses and machine integers of the C sources, the
  collections of simplification rules that the component proofs use, and generic lemmas on
  option-valued computations and lists.

  A C function that reads or writes memory is a HOL function into \<open>option\<close>: \<open>None\<close> stands for
  undefined behaviour (a dereference of NULL or of a freed object, a double free) or for a loop
  that does not return. A theorem that such a function yields \<open>Some r\<close> therefore includes memory
  safety and termination.
\<close>

unbundle bit_operations_syntax

section \<open>Machine types\<close>

text \<open>Pointers are natural numbers, the null pointer is 0. The integer widths are those of an LP64
  platform: \<open>unsigned int\<close> has 32 bits, \<open>unsigned long\<close> and \<open>size_t\<close> have 64.\<close>

type_synonym addr = nat
type_synonym uint = "32 word"
type_synonym ulong = "64 word"

abbreviation (input) NULL :: addr where
  "NULL \<equiv> 0"

section \<open>Collections of facts\<close>

named_theorems mem_simps \<open>definitions of single memory accesses\<close>
named_theorems mem_eval \<open>evaluation of a memory access whose cell is known\<close>
named_theorems word_rules \<open>rank and balance fields of a packed word\<close>

section \<open>Option-valued computations\<close>

text \<open>Congruence for symbolic execution: the continuation is left alone until its argument is known.\<close>

lemma bind_weak: "x = y \<Longrightarrow> Option.bind x f = Option.bind y f"
  by simp

lemma bind_eq_SomeI: "f = Some x \<Longrightarrow> g x = Some y \<Longrightarrow> Option.bind f g = Some y"
  by simp

lemma bind_SomeE:
  assumes "Option.bind f g = Some y"
  obtains x where "f = Some x" "g x = Some y"
  using assms by (cases f) auto

end
