(* ===== verification/Locks.thy ===== *)
theory Locks
  imports Prelude
begin

text \<open>
  The locks of \<^verbatim>\<open>src/thread/thread.c\<close> (mutexes, read-write locks, spin locks, conditions) and of \<^verbatim>\<open>src/avl/avl.c\<close>: thin
  functions around the pthread library. What they rely on is written out as functions on the state of an object: who holds it.
  A call returns with the new state, makes its caller wait, aborts the program, or is undefined. The functions of the library
  ignore the error numbers of pthread; the only one that a correct program can see is \<open>EDEADLK\<close>, which an implementation may
  return to a thread that asks again for a lock that it holds for writing (\<open>detects\<close>).
\<close>

section \<open>The objects of the pthread library\<close>

datatype 'o outcome = Go 'o | Wait | Abort | Undef

text \<open>An object that is not initialised or has been destroyed is \<open>Dead\<close>.\<close>

datatype 'o sync = Dead | Live 'o

type_synonym pmutex = "nat option sync"

record rwstate =
  rw_readers :: "nat list"
  rw_writer :: "nat option"

type_synonym prwlock = "rwstate sync"

definition EDEADLK :: int where "EDEADLK = 35"

definition pthread_init :: "'o \<Rightarrow> 'o sync \<Rightarrow> 'o sync outcome" where
  "pthread_init x s = (case s of Dead \<Rightarrow> Go (Live x) | Live _ \<Rightarrow> Undef)"

definition pthread_destroy :: "'o \<Rightarrow> 'o sync \<Rightarrow> 'o sync outcome" where
  "pthread_destroy x s = (if s = Live x then Go Dead else Undef)"

definition pthread_mutex_lock :: "nat \<Rightarrow> pmutex \<Rightarrow> pmutex outcome" where
  "pthread_mutex_lock t s = (case s of Dead \<Rightarrow> Undef | Live None \<Rightarrow> Go (Live (Some t)) | Live (Some u) \<Rightarrow> Wait)"

definition pthread_mutex_unlock :: "nat \<Rightarrow> pmutex \<Rightarrow> pmutex outcome" where
  "pthread_mutex_unlock t s = (if s = Live (Some t) then Go (Live None) else Undef)"

definition rw_free :: rwstate where "rw_free = \<lparr>rw_readers = [], rw_writer = None\<rparr>"

text \<open>Locking yields an error number and the object.\<close>

definition pthread_rwlock_rdlock :: "bool \<Rightarrow> nat \<Rightarrow> prwlock \<Rightarrow> (int \<times> prwlock) outcome" where
  "pthread_rwlock_rdlock detects t s =
     (case s of Dead \<Rightarrow> Undef
      | Live r \<Rightarrow>
         (case rw_writer r of
            None \<Rightarrow> Go (0, Live (r\<lparr>rw_readers := t # rw_readers r\<rparr>))
          | Some u \<Rightarrow> if u = t \<and> detects then Go (EDEADLK, s) else Wait))"

definition pthread_rwlock_wrlock :: "bool \<Rightarrow> nat \<Rightarrow> prwlock \<Rightarrow> (int \<times> prwlock) outcome" where
  "pthread_rwlock_wrlock detects t s =
     (case s of Dead \<Rightarrow> Undef
      | Live r \<Rightarrow>
         if rw_writer r = Some t \<and> detects then Go (EDEADLK, s)
         else if rw_writer r = None \<and> rw_readers r = [] then Go (0, Live (r\<lparr>rw_writer := Some t\<rparr>))
         else Wait)"

definition pthread_rwlock_unlock :: "nat \<Rightarrow> prwlock \<Rightarrow> prwlock outcome" where
  "pthread_rwlock_unlock t s =
     (case s of Dead \<Rightarrow> Undef
      | Live r \<Rightarrow>
         if rw_writer r = Some t then Go (Live (r\<lparr>rw_writer := None\<rparr>))
         else if t \<in> set (rw_readers r) then Go (Live (r\<lparr>rw_readers := remove1 t (rw_readers r)\<rparr>))
         else Undef)"

section \<open>The functions of the library\<close>

text \<open>The variants without \<open>DEBUG_MUTEXES\<close>.\<close>

definition mutex_create :: "pmutex \<Rightarrow> pmutex outcome" where
  "mutex_create s = pthread_init None s"

definition mutex_lock :: "nat \<Rightarrow> pmutex \<Rightarrow> pmutex outcome" where
  "mutex_lock t s = pthread_mutex_lock t s"

definition mutex_unlock :: "nat \<Rightarrow> pmutex \<Rightarrow> pmutex outcome" where
  "mutex_unlock t s = pthread_mutex_unlock t s"

definition thread_mutex_create_c :: "pmutex \<Rightarrow> pmutex outcome" where
  "thread_mutex_create_c s = mutex_create s"

definition thread_mutex_destroy :: "pmutex \<Rightarrow> pmutex outcome" where
  "thread_mutex_destroy s = pthread_destroy None s"

definition thread_mutex_lock_c :: "nat \<Rightarrow> pmutex \<Rightarrow> pmutex outcome" where
  "thread_mutex_lock_c t s = mutex_lock t s"

definition thread_mutex_unlock_c :: "nat \<Rightarrow> pmutex \<Rightarrow> pmutex outcome" where
  "thread_mutex_unlock_c t s = mutex_unlock t s"

text \<open>On \<open>_library_mutex\<close>.\<close>

definition thread_library_lock :: "nat \<Rightarrow> pmutex \<Rightarrow> pmutex outcome" where
  "thread_library_lock t s = mutex_lock t s"

definition thread_library_unlock :: "nat \<Rightarrow> pmutex \<Rightarrow> pmutex outcome" where
  "thread_library_unlock t s = mutex_unlock t s"

definition thread_rwlock_create_c :: "prwlock \<Rightarrow> prwlock outcome" where
  "thread_rwlock_create_c s = pthread_init rw_free s"

definition thread_rwlock_destroy :: "prwlock \<Rightarrow> prwlock outcome" where
  "thread_rwlock_destroy s = pthread_destroy rw_free s"

text \<open>The error number is dropped.\<close>

definition thread_rwlock_rlock_c :: "bool \<Rightarrow> nat \<Rightarrow> prwlock \<Rightarrow> prwlock outcome" where
  "thread_rwlock_rlock_c detects t s = map_outcome snd (pthread_rwlock_rdlock detects t s)"

definition thread_rwlock_wlock_c :: "bool \<Rightarrow> nat \<Rightarrow> prwlock \<Rightarrow> prwlock outcome" where
  "thread_rwlock_wlock_c detects t s = map_outcome snd (pthread_rwlock_wrlock detects t s)"

definition thread_rwlock_unlock_c :: "nat \<Rightarrow> prwlock \<Rightarrow> prwlock outcome" where
  "thread_rwlock_unlock_c t s = pthread_rwlock_unlock t s"

text \<open>\<open>pthread_spin_init\<close> and \<open>pthread_spin_lock\<close> return an error number, \<open>rc\<close> or \<open>EDEADLK\<close>, that the library tests.\<close>

definition thread_spin_create :: "int \<Rightarrow> pmutex \<Rightarrow> pmutex outcome" where
  "thread_spin_create rc s = (if rc \<noteq> 0 then Abort else pthread_init None s)"

definition thread_spin_destroy :: "pmutex \<Rightarrow> pmutex outcome" where
  "thread_spin_destroy s = pthread_destroy None s"

definition thread_spin_lock :: "bool \<Rightarrow> nat \<Rightarrow> pmutex \<Rightarrow> pmutex outcome" where
  "thread_spin_lock detects t s = (if s = Live (Some t) \<and> detects then Abort else pthread_mutex_lock t s)"

definition thread_spin_unlock :: "nat \<Rightarrow> pmutex \<Rightarrow> pmutex outcome" where
  "thread_spin_unlock t s = pthread_mutex_unlock t s"

text \<open>\<open>avl_tree_rlock\<close> and the five functions like it, on the lock of a tree or, with \<open>HAVE_AVL_NODE_LOCK\<close>, of a node.\<close>

definition avl_tree_rlock :: "bool \<Rightarrow> nat \<Rightarrow> prwlock \<Rightarrow> prwlock outcome" where
  "avl_tree_rlock detects t s = thread_rwlock_rlock_c detects t s"

definition avl_tree_wlock :: "bool \<Rightarrow> nat \<Rightarrow> prwlock \<Rightarrow> prwlock outcome" where
  "avl_tree_wlock detects t s = thread_rwlock_wlock_c detects t s"

definition avl_tree_unlock :: "nat \<Rightarrow> prwlock \<Rightarrow> prwlock outcome" where
  "avl_tree_unlock t s = thread_rwlock_unlock_c t s"

definition avl_node_rlock :: "bool \<Rightarrow> nat \<Rightarrow> prwlock \<Rightarrow> prwlock outcome" where
  "avl_node_rlock detects t s = thread_rwlock_rlock_c detects t s"

definition avl_node_wlock :: "bool \<Rightarrow> nat \<Rightarrow> prwlock \<Rightarrow> prwlock outcome" where
  "avl_node_wlock detects t s = thread_rwlock_wlock_c detects t s"

definition avl_node_unlock :: "nat \<Rightarrow> prwlock \<Rightarrow> prwlock outcome" where
  "avl_node_unlock t s = thread_rwlock_unlock_c t s"

section \<open>Who holds a read-write lock\<close>

definition rw_holds :: "nat \<Rightarrow> prwlock \<Rightarrow> bool" where
  "rw_holds t s \<longleftrightarrow> (\<exists>r. s = Live r \<and> (rw_writer r = Some t \<or> t \<in> set (rw_readers r)))"

text \<open>A thread that locks a tree for writing twice - with an implementation that detects it - has one lock, and gives it away with
  its first unlock.\<close>

lemma relock_lost:
  assumes "rw_writer r = Some t" "rw_readers r = []"
  shows "avl_tree_wlock True t (Live r) = Go (Live r)"
    "avl_tree_unlock t (Live r) = Go (Live (r\<lparr>rw_writer := None\<rparr>))" "\<not> rw_holds t (Live (r\<lparr>rw_writer := None\<rparr>))"
    "avl_tree_wlock detects u (Live (r\<lparr>rw_writer := None\<rparr>)) = Go (Live (r\<lparr>rw_writer := Some u\<rparr>))"
  using assms by (simp_all add: avl_tree_wlock_def thread_rwlock_wlock_c_def pthread_rwlock_wrlock_def avl_tree_unlock_def
      thread_rwlock_unlock_c_def pthread_rwlock_unlock_def rw_holds_def)

text \<open>The library initialises \<open>_threadtree_mutex\<close> and \<open>_library_mutex\<close> a second time: both have a static initialiser.\<close>

lemma static_mutex_init: "thread_mutex_create_c (Live None) = Undef"
  by (simp add: thread_mutex_create_c_def mutex_create_def pthread_init_def)

section \<open>Conditions\<close>

text \<open>\<open>cond_t\<close> has a mutex of its own. Where a thread is: in client code, at the first lock of \<open>thread_cond_wait_c\<close> or
  \<open>thread_cond_timedwait_c\<close> (\<open>timed\<close>), at \<open>pthread_cond_wait\<close>, asleep in it, awake but without the mutex, at the unlock.\<close>

datatype cond_pc = C_client | C_lock bool | C_wait bool | C_asleep bool | C_awake | C_unlock

record cond_t =
  cond_mutex :: pmutex
  cond_pcs :: "nat \<Rightarrow> cond_pc"

text \<open>What happens next: a step of a thread in a call, a call, a signal (which wakes one of the threads that are asleep, if there are any), a
  broadcast, the end of the time of a waiting thread, or a wakeup without reason, which pthread allows.\<close>

datatype cond_act = A_call bool nat | A_step nat | A_signal nat | A_broadcast | A_timeout nat | A_spurious nat

definition cond_goto :: "nat \<Rightarrow> cond_pc \<Rightarrow> pmutex \<Rightarrow> cond_t \<Rightarrow> cond_t" where
  "cond_goto t c m s = s\<lparr>cond_mutex := m, cond_pcs := (cond_pcs s)(t := c)\<rparr>"

definition thread_cond_create_c :: "cond_t \<Rightarrow> cond_t outcome" where
  "thread_cond_create_c s = map_outcome (\<lambda>m. s\<lparr>cond_mutex := m, cond_pcs := (\<lambda>_. C_client)\<rparr>) (pthread_init None (cond_mutex s))"

text \<open>Destroying a condition on which a thread waits is undefined.\<close>

definition thread_cond_destroy :: "cond_t \<Rightarrow> cond_t outcome" where
  "thread_cond_destroy s =
     (if \<exists>t b. cond_pcs s t = C_asleep b then Undef else map_outcome (\<lambda>m. s\<lparr>cond_mutex := m\<rparr>) (pthread_destroy None (cond_mutex s)))"

definition wake :: "cond_pc \<Rightarrow> cond_pc" where
  "wake c = (case c of C_asleep b \<Rightarrow> C_awake | _ \<Rightarrow> c)"

definition thread_cond_signal_c :: "nat \<Rightarrow> cond_t \<Rightarrow> cond_t" where
  "thread_cond_signal_c u s = s\<lparr>cond_pcs := (cond_pcs s)(u := wake (cond_pcs s u))\<rparr>"

definition thread_cond_broadcast_c :: "cond_t \<Rightarrow> cond_t" where
  "thread_cond_broadcast_c s = s\<lparr>cond_pcs := wake \<circ> cond_pcs s\<rparr>"

text \<open>\<open>thread_cond_wait_c\<close> and the end of \<open>thread_cond_timedwait_c\<close>, step by step. \<open>pthread_cond_wait\<close> gives back the mutex and
  sleeps in one step, and takes the mutex again when it has been woken.\<close>

definition cond_wait_step :: "nat \<Rightarrow> cond_t \<Rightarrow> cond_t outcome" where
  "cond_wait_step t s =
     (case cond_pcs s t of
        C_client \<Rightarrow> Wait
      | C_lock b \<Rightarrow> map_outcome (\<lambda>m. cond_goto t (C_wait b) m s) (pthread_mutex_lock t (cond_mutex s))
      | C_wait b \<Rightarrow> map_outcome (\<lambda>m. cond_goto t (C_asleep b) m s) (pthread_mutex_unlock t (cond_mutex s))
      | C_asleep b \<Rightarrow> Wait
      | C_awake \<Rightarrow> map_outcome (\<lambda>m. cond_goto t C_unlock m s) (pthread_mutex_lock t (cond_mutex s))
      | C_unlock \<Rightarrow> map_outcome (\<lambda>m. cond_goto t C_client m s) (pthread_mutex_unlock t (cond_mutex s)))"

fun cond_do :: "cond_act \<Rightarrow> cond_t \<Rightarrow> cond_t outcome" where
  "cond_do (A_call b t) s = (if cond_pcs s t = C_client then Go (cond_goto t (C_lock b) (cond_mutex s) s) else Wait)"
| "cond_do (A_step t) s = cond_wait_step t s"
| "cond_do (A_signal u) s =
     (if (\<exists>b. cond_pcs s u = C_asleep b) \<or> \<not> (\<exists>t b. cond_pcs s t = C_asleep b) then Go (thread_cond_signal_c u s) else Wait)"
| "cond_do A_broadcast s = Go (thread_cond_broadcast_c s)"
| "cond_do (A_timeout t) s = (if cond_pcs s t = C_asleep True then Go (cond_goto t C_awake (cond_mutex s) s) else Wait)"
| "cond_do (A_spurious t) s = (if \<exists>b. cond_pcs s t = C_asleep b then Go (cond_goto t C_awake (cond_mutex s) s) else Wait)"

text \<open>The states that a list of actions can lead to; an action that has to wait does not happen.\<close>

inductive cond_runs :: "cond_t \<Rightarrow> cond_act list \<Rightarrow> cond_t \<Rightarrow> bool" where
  nil: "cond_runs s [] s"
| cons: "cond_do a s = Go s1 \<Longrightarrow> cond_runs s1 as s2 \<Longrightarrow> cond_runs s (a # as) s2"

inductive_cases cond_runs_ConsE: "cond_runs s (a # as) s2"
inductive_cases cond_runs_NilE: "cond_runs s [] s2"

text \<open>The mutex is held by the one thread that is at \<open>pthread_cond_wait\<close> or at the unlock.\<close>

definition cond_inv :: "cond_t \<Rightarrow> bool" where
  "cond_inv s \<longleftrightarrow> (\<exists>m. cond_mutex s = Live m \<and> (\<forall>t. m = Some t \<longleftrightarrow> (\<exists>b. cond_pcs s t = C_wait b) \<or> cond_pcs s t = C_unlock))"

definition cond_start :: cond_t where
  "cond_start = \<lparr>cond_mutex = Live None, cond_pcs = (\<lambda>_. C_client)\<rparr>"

lemma wake_iff [simp]: "wake c = C_wait b \<longleftrightarrow> c = C_wait b" "wake c = C_unlock \<longleftrightarrow> c = C_unlock"
  by (cases c; simp add: wake_def)+

lemma cond_inv_start: "cond_inv cond_start"
  by (simp add: cond_inv_def cond_start_def)

lemma cond_step_ok:
  assumes "cond_inv s"
  shows "cond_do a s = Go s' \<Longrightarrow> cond_inv s'" "cond_do a s \<noteq> Undef" "cond_do a s \<noteq> Abort"
proof -
  obtain m where m: "cond_mutex s = Live m" "\<And>t. m = Some t \<longleftrightarrow> (\<exists>b. cond_pcs s t = C_wait b) \<or> cond_pcs s t = C_unlock"
    using assms by (auto simp: cond_inv_def)
  have own: "m = Some t" if "cond_pcs s t = C_wait b \<or> cond_pcs s t = C_unlock" for t b using m(2) that by blast
  have one: "u = t" if "m = Some t" "cond_pcs s u = C_wait b \<or> cond_pcs s u = C_unlock" for t u b
    using own [OF that(2)] that(1) by simp
  show "cond_do a s \<noteq> Undef" "cond_do a s \<noteq> Abort"
    using m(1) own
    by (cases a; auto simp: cond_wait_step_def pthread_mutex_lock_def pthread_mutex_unlock_def split: cond_pc.splits option.splits)+
  assume r: "cond_do a s = Go s'"
  show "cond_inv s'"
  proof (cases a)
    case (A_step t)
    then have r: "cond_wait_step t s = Go s'" using r by simp
    show ?thesis
    proof (cases "cond_pcs s t")
      case (C_lock b)
      then have "m = None" "s' = cond_goto t (C_wait b) (Live (Some t)) s"
        using r m(1) by (auto simp: cond_wait_step_def pthread_mutex_lock_def split: option.splits)
      then show ?thesis using m(2) by (auto simp: cond_inv_def cond_goto_def)
    next
      case C_awake
      then have "m = None" "s' = cond_goto t C_unlock (Live (Some t)) s"
        using r m(1) by (auto simp: cond_wait_step_def pthread_mutex_lock_def split: option.splits)
      then show ?thesis using m(2) by (auto simp: cond_inv_def cond_goto_def)
    next
      case (C_wait b)
      then have "s' = cond_goto t (C_asleep b) (Live None) s"
        using r m(1) own [of t] by (auto simp: cond_wait_step_def pthread_mutex_unlock_def)
      then show ?thesis using own [of t b] one C_wait by (auto simp: cond_inv_def cond_goto_def)
    next
      case C_unlock
      then have "s' = cond_goto t C_client (Live None) s"
        using r m(1) own [of t] by (auto simp: cond_wait_step_def pthread_mutex_unlock_def)
      then show ?thesis using own [of t] one C_unlock by (auto simp: cond_inv_def cond_goto_def)
    qed (use r in \<open>simp_all add: cond_wait_step_def\<close>)
  qed (use r m in \<open>auto simp: cond_inv_def cond_goto_def thread_cond_signal_c_def thread_cond_broadcast_c_def split: if_splits\<close>)
qed

lemma cond_runs_inv: "cond_runs s as s' \<Longrightarrow> cond_inv s \<Longrightarrow> cond_inv s'"
  by (induction rule: cond_runs.induct) (auto dest: cond_step_ok(1))

section \<open>Properties\<close>

definition wakes :: "cond_act \<Rightarrow> nat \<Rightarrow> bool" where
  "wakes a t \<longleftrightarrow> a = A_broadcast \<or> a = A_signal t \<or> a = A_timeout t \<or> a = A_spurious t"

definition going_to_sleep :: "cond_pc \<Rightarrow> bool" where
  "going_to_sleep c \<longleftrightarrow> (\<exists>b. c = C_lock b \<or> c = C_wait b \<or> c = C_asleep b)"

lemma stays_asleep:
  assumes "cond_do a s = Go s'" "going_to_sleep (cond_pcs s t)" "\<not> wakes a t"
  shows "going_to_sleep (cond_pcs s' t)"
proof (cases a)
  case (A_step u)
  then have r: "cond_wait_step u s = Go s'" using assms(1) by simp
  have other: "cond_pcs s' t = cond_pcs s t" if "u \<noteq> t"
    using r that by (auto simp: cond_wait_step_def cond_goto_def pthread_mutex_lock_def pthread_mutex_unlock_def
      split: cond_pc.splits sync.splits option.splits if_splits)
  show ?thesis
  proof (cases "u = t")
    case True
    then show ?thesis using r assms(2)
      by (auto simp: going_to_sleep_def cond_wait_step_def cond_goto_def pthread_mutex_lock_def pthread_mutex_unlock_def
        split: sync.splits option.splits if_splits)
  qed (use other assms(2) in simp)
qed (use assms in \<open>auto simp: wakes_def cond_goto_def thread_cond_signal_c_def going_to_sleep_def split: if_splits\<close>)

text \<open>An awake thread that finds the mutex free is back in its client after two steps, and the thread that holds it gives it
  back in one.\<close>

lemma awake_returns:
  assumes "cond_mutex r = Live None" "cond_pcs r t = C_awake"
  obtains s' where "cond_runs r [A_step t, A_step t] s'" "cond_pcs s' t = C_client"
proof -
  let ?m = "cond_goto t C_unlock (Live (Some t)) r"
  have "cond_do (A_step t) r = Go ?m" using assms by (simp add: cond_wait_step_def pthread_mutex_lock_def)
  moreover have "cond_do (A_step t) ?m = Go (cond_goto t C_client (Live None) ?m)"
    by (simp add: cond_wait_step_def pthread_mutex_unlock_def cond_goto_def)
  ultimately have "cond_runs r [A_step t, A_step t] (cond_goto t C_client (Live None) ?m)"
    by (rule cond_runs.cons [OF _ cond_runs.cons [OF _ cond_runs.nil]])
  then show ?thesis by (rule that) (simp add: cond_goto_def)
qed

lemma holder_gives:
  assumes "cond_inv s" "cond_mutex s = Live (Some u)"
  obtains c where "cond_do (A_step u) s = Go (cond_goto u c (Live None) s)" "cond_pcs s u \<noteq> C_awake"
proof -
  have "(\<exists>b. cond_pcs s u = C_wait b) \<or> cond_pcs s u = C_unlock" using assms by (auto simp: cond_inv_def)
  then show ?thesis using assms(2) that by (auto simp: cond_wait_step_def pthread_mutex_unlock_def)
qed

lemma sleeper_returns:
  assumes "cond_inv s" "cond_pcs s t = C_asleep b"
  shows "\<exists>as' s'. cond_runs s (A_broadcast # as') s' \<and> length as' \<le> 3 \<and> (\<forall>a\<in>set as'. \<exists>u. a = A_step u) \<and> cond_pcs s' t = C_client"
proof -
  define s0 where "s0 = thread_cond_broadcast_c s"
  have b: "cond_do A_broadcast s = Go s0" by (simp add: s0_def)
  have i0: "cond_inv s0" using cond_step_ok(1) [OF assms(1) b] .
  have t0: "cond_pcs s0 t = C_awake" using assms(2) by (simp add: s0_def thread_cond_broadcast_c_def wake_def)
  obtain m where m: "cond_mutex s0 = Live m" using i0 by (auto simp: cond_inv_def)
  show ?thesis
  proof (cases m)
    case None
    then obtain s' where "cond_runs s0 [A_step t, A_step t] s'" "cond_pcs s' t = C_client"
      using awake_returns m t0 by blast
    then show ?thesis using cond_runs.cons [OF b] by (intro exI [of _ "[A_step t, A_step t]"] exI [of _ s']) simp
  next
    case (Some u)
    obtain c where c: "cond_do (A_step u) s0 = Go (cond_goto u c (Live None) s0)" "cond_pcs s0 u \<noteq> C_awake"
      using holder_gives [OF i0] m Some by blast
    then have "cond_mutex (cond_goto u c (Live None) s0) = Live None" "cond_pcs (cond_goto u c (Live None) s0) t = C_awake"
      using t0 by (auto simp: cond_goto_def)
    then obtain s' where "cond_runs (cond_goto u c (Live None) s0) [A_step t, A_step t] s'" "cond_pcs s' t = C_client"
      by (rule awake_returns)
    then show ?thesis using cond_runs.cons [OF b cond_runs.cons [OF c(1)]]
      by (intro exI [of _ "[A_step u, A_step t, A_step t]"] exI [of _ s']) simp
  qed
qed

lemma stays_asleep_runs:
  "cond_runs s as s' \<Longrightarrow> going_to_sleep (cond_pcs s t) \<Longrightarrow> \<forall>a\<in>set as. \<not> wakes a t \<Longrightarrow> going_to_sleep (cond_pcs s' t)"
  by (induction rule: cond_runs.induct) (auto dest: stays_asleep)

lemma signal_keeps:
  assumes "a = A_broadcast \<or> (\<exists>u. a = A_signal u)" "cond_do a s = Go s1" "cond_pcs s t = C_lock b \<or> cond_pcs s t = C_wait b"
  shows "cond_pcs s1 t = cond_pcs s t"
  using assms by (auto simp: thread_cond_broadcast_c_def thread_cond_signal_c_def wake_def split: if_splits)

text \<open>C19: waiting for a condition. Whatever has happened, a broadcast wakes every thread that is asleep, and each of them can
  be back in its client within three steps. But a thread in \<open>thread_cond_wait_c\<close> that is not asleep yet misses every signal
  and broadcast: it goes to sleep afterwards, and never comes back unless another one wakes it.\<close>

theorem cond_wait_wakeups:
  assumes "cond_runs cond_start as s"
  shows "(cond_pcs s t = C_asleep b \<longrightarrow>
      (\<exists>as' s'. cond_runs s (A_broadcast # as') s' \<and> length as' \<le> 3 \<and> (\<forall>a\<in>set as'. \<exists>u. a = A_step u) \<and> cond_pcs s' t = C_client)) \<and>
    (cond_pcs s t = C_lock False \<or> cond_pcs s t = C_wait False \<longrightarrow>
      (\<forall>a s1 as' s'. (a = A_broadcast \<or> (\<exists>u. a = A_signal u)) \<and> cond_do a s = Go s1 \<and> cond_runs s1 as' s' \<and>
        (\<forall>a\<in>set as'. \<not> wakes a t) \<longrightarrow> cond_pcs s' t \<noteq> C_client \<and> cond_pcs s' t \<noteq> C_awake))"
proof -
  have inv: "cond_inv s" using assms cond_runs_inv cond_inv_start by blast
  have "cond_pcs s' t \<noteq> C_client \<and> cond_pcs s' t \<noteq> C_awake"
    if "cond_pcs s t = C_lock False \<or> cond_pcs s t = C_wait False" "a = A_broadcast \<or> (\<exists>u. a = A_signal u)" "cond_do a s = Go s1"
      "cond_runs s1 as' s'" "\<forall>a\<in>set as'. \<not> wakes a t" for a s1 as' s'
  proof -
    have "going_to_sleep (cond_pcs s1 t)" using signal_keeps [OF that(2,3,1)] that(1) by (auto simp: going_to_sleep_def)
    then have "going_to_sleep (cond_pcs s' t)" using stays_asleep_runs that(4,5) by blast
    then show ?thesis by (auto simp: going_to_sleep_def)
  qed
  with sleeper_returns [OF inv] show ?thesis by blast
qed

text \<open>A thread starts to wait, another one signals, and the first one sleeps.\<close>

theorem cond_wait_wakeups_witness:
  "\<exists>s s1. cond_runs cond_start [A_call False 1] s \<and> cond_do (A_signal 1) s = Go s1 \<and>
    (\<forall>as s'. cond_runs s1 as s' \<and> (\<forall>a\<in>set as. \<not> wakes a 1) \<longrightarrow> cond_pcs s' 1 \<noteq> C_client)"
proof -
  let ?s = "cond_goto 1 (C_lock False) (Live None) cond_start"
  have r: "cond_runs cond_start [A_call False 1] ?s"
    by (rule cond_runs.cons [OF _ cond_runs.nil]) (simp add: cond_start_def)
  have c: "cond_pcs ?s 1 = C_lock False" by (simp add: cond_goto_def)
  have "cond_do (A_signal 1) ?s = Go (thread_cond_signal_c 1 ?s)" by (simp add: cond_goto_def cond_start_def)
  then show ?thesis using cond_wait_wakeups [OF r, of 1] c r by blast
qed

end
