(* ===== verification/Avl_Defs.thy ===== *)
theory Avl_Defs
  imports Locks
begin

text \<open>
  The model of \<^verbatim>\<open>src/avl/avl.h\<close> and \<^verbatim>\<open>src/avl/avl.c\<close>: nodes and their packed
  \<open>rank_and_balance\<close> word, the heap of nodes, and one definition per function of the library, in the
  order of the source. Loops over pointers are \<^theory_text>\<open>partial_function (option)\<close>; the result of each
  \<open>malloc\<close> is an argument (0 when the allocation fails).
\<close>

section \<open>Nodes and the packed word\<close>

text \<open>\<open>struct avl_node_tag\<close>: keys are \<open>void *\<close>, so a key is an option (\<open>None\<close> is NULL).\<close>

record 'k avl_node =
  key :: "'k option"
  left :: addr
  right :: addr
  parent :: addr
  rank_and_balance :: uint

text \<open>\<open>struct _avl_tree\<close>. Its lock is kept apart: a \<open>tree_store\<close> maps the address of every allocated structure to the state of
  its \<open>rwlock\<close>.\<close>

type_synonym tree_store = "addr \<rightharpoonup> prwlock"

record ('k, 'a) avl_tree =
  root :: addr
  height :: uint
  len :: uint
  compare_fun :: "'a \<Rightarrow> 'k option \<Rightarrow> 'k option \<Rightarrow> int"
  compare_arg :: 'a

definition AVL_GET_BALANCE :: "uint \<Rightarrow> int" where
  "AVL_GET_BALANCE w = sint ((w AND 3) - 1)"

definition AVL_GET_RANK :: "uint \<Rightarrow> uint" where
  "AVL_GET_RANK w = drop_bit 2 w"

definition AVL_SET_BALANCE :: "uint \<Rightarrow> int \<Rightarrow> uint" where
  "AVL_SET_BALANCE w b = (w AND (NOT 3)) OR word_of_int (b + 1)"

definition AVL_SET_RANK :: "uint \<Rightarrow> uint \<Rightarrow> uint" where
  "AVL_SET_RANK w r = (w AND 3) OR push_bit 2 r"

section \<open>The heap of nodes\<close>

type_synonym 'k heap = "addr \<rightharpoonup> 'k avl_node"

definition rd :: "('k avl_node \<Rightarrow> 'v) \<Rightarrow> 'k heap \<Rightarrow> addr \<Rightarrow> 'v option" where
  [mem_simps]: "rd f h p = map_option f (h p)"

definition wr :: "addr \<Rightarrow> ('k avl_node \<Rightarrow> 'k avl_node) \<Rightarrow> 'k heap \<Rightarrow> 'k heap option" where
  [mem_simps]: "wr p f h = (case h p of None \<Rightarrow> None | Some n \<Rightarrow> Some (h(p \<mapsto> f n)))"

definition set_key :: "addr \<Rightarrow> 'k option \<Rightarrow> 'k heap \<Rightarrow> 'k heap option" where
  [mem_simps]: "set_key p v = wr p (\<lambda>n. n\<lparr>key := v\<rparr>)"

definition set_left :: "addr \<Rightarrow> addr \<Rightarrow> 'k heap \<Rightarrow> 'k heap option" where
  [mem_simps]: "set_left p v = wr p (\<lambda>n. n\<lparr>left := v\<rparr>)"

definition set_right :: "addr \<Rightarrow> addr \<Rightarrow> 'k heap \<Rightarrow> 'k heap option" where
  [mem_simps]: "set_right p v = wr p (\<lambda>n. n\<lparr>right := v\<rparr>)"

definition set_parent :: "addr \<Rightarrow> addr \<Rightarrow> 'k heap \<Rightarrow> 'k heap option" where
  [mem_simps]: "set_parent p v = wr p (\<lambda>n. n\<lparr>parent := v\<rparr>)"

text \<open>The pattern \<open>if (c) c->parent = v;\<close>.\<close>

definition set_parent_if :: "addr \<Rightarrow> addr \<Rightarrow> 'k heap \<Rightarrow> 'k heap option" where
  "set_parent_if c v h = (if c = NULL then Some h else set_parent c v h)"

definition get_balance :: "'k heap \<Rightarrow> addr \<Rightarrow> int option" where
  [mem_simps]: "get_balance h p = rd (\<lambda>n. AVL_GET_BALANCE (rank_and_balance n)) h p"

definition get_rank :: "'k heap \<Rightarrow> addr \<Rightarrow> uint option" where
  [mem_simps]: "get_rank h p = rd (\<lambda>n. AVL_GET_RANK (rank_and_balance n)) h p"

definition set_balance :: "addr \<Rightarrow> int \<Rightarrow> 'k heap \<Rightarrow> 'k heap option" where
  [mem_simps]: "set_balance p b =
     wr p (\<lambda>n. n\<lparr>rank_and_balance := AVL_SET_BALANCE (rank_and_balance n) b\<rparr>)"

definition set_rank :: "addr \<Rightarrow> uint \<Rightarrow> 'k heap \<Rightarrow> 'k heap option" where
  [mem_simps]: "set_rank p r =
     wr p (\<lambda>n. n\<lparr>rank_and_balance := AVL_SET_RANK (rank_and_balance n) r\<rparr>)"

definition free_node :: "addr \<Rightarrow> 'k heap \<Rightarrow> 'k heap option" where
  [mem_simps]: "free_node p h = (case h p of None \<Rightarrow> None | Some _ \<Rightarrow> Some (h(p := None)))"

section \<open>Construction\<close>

text \<open>\<open>m\<close> is what \<open>malloc\<close> returned.\<close>

definition avl_node_new :: "addr \<Rightarrow> 'k option \<Rightarrow> addr \<Rightarrow> 'k heap \<Rightarrow> addr \<times> 'k heap" where
  "avl_node_new m k par h =
     (if m = NULL then (NULL, h)
      else (m, h(m \<mapsto> \<lparr>key = k, left = NULL, right = NULL, parent = par,
                        rank_and_balance = AVL_SET_RANK (AVL_SET_BALANCE 0 0) 1\<rparr>)))"

text \<open>\<open>mt\<close> and \<open>mr\<close> are the results of the two allocations: the tree and its sentinel root.\<close>

definition avl_tree_new ::
  "('a \<Rightarrow> 'k option \<Rightarrow> 'k option \<Rightarrow> int) \<Rightarrow> 'a \<Rightarrow> addr \<Rightarrow> addr \<Rightarrow> 'k heap \<Rightarrow> tree_store \<Rightarrow>
   ('k, 'a) avl_tree option \<times> 'k heap \<times> tree_store" where
  "avl_tree_new cf ca mt mr h T =
     (if mt = NULL then (None, h, T)
      else (let (rt, h) = avl_node_new mr None NULL h in
        if rt = NULL then (None, h, T)
        else (Some \<lparr>root = rt, height = 0, len = 0, compare_fun = cf, compare_arg = ca\<rparr>, h,
          T(mt := (case thread_rwlock_create_c Dead of Go l \<Rightarrow> Some l | _ \<Rightarrow> None)))))"

section \<open>Destruction\<close>

text \<open>\<open>free_key_fun\<close> may be NULL; otherwise it acts on the state \<open>s\<close> of its owner.\<close>

definition free_key :: "('k option \<Rightarrow> 's \<Rightarrow> 's) option \<Rightarrow> 'k option \<Rightarrow> 's \<Rightarrow> 's" where
  "free_key f k s = (case f of None \<Rightarrow> s | Some g \<Rightarrow> g k s)"

partial_function (option) avl_tree_free_helper ::
  "('k option \<Rightarrow> 's \<Rightarrow> 's) option \<Rightarrow> addr \<Rightarrow> 's \<Rightarrow> 'k heap \<Rightarrow> ('s \<times> 'k heap) option" where
  "avl_tree_free_helper f node s h = do {
     l \<leftarrow> rd left h node;
     (s, h) \<leftarrow> (if l \<noteq> NULL then avl_tree_free_helper f l s h else Some (s, h));
     k \<leftarrow> rd key h node;
     let s = free_key f k s;
     r \<leftarrow> rd right h node;
     (s, h) \<leftarrow> (if r \<noteq> NULL then avl_tree_free_helper f r s h else Some (s, h));
     h \<leftarrow> free_node node h;
     Some (s, h) }"

text \<open>\<open>tp\<close> is the address of the tree: its structure goes last, after its lock has been destroyed.\<close>

definition avl_tree_free ::
  "addr \<Rightarrow> ('k, 'a) avl_tree \<Rightarrow> ('k option \<Rightarrow> 's \<Rightarrow> 's) option \<Rightarrow> 's \<Rightarrow> 'k heap \<Rightarrow> tree_store \<Rightarrow>
   ('s \<times> 'k heap \<times> tree_store) option" where
  "avl_tree_free tp tree f s h T = do {
     l \<leftarrow> T tp;
     (s, h) \<leftarrow> (if len tree \<noteq> 0 then do {
                   r \<leftarrow> rd right h (root tree);
                   avl_tree_free_helper f r s h }
                 else Some (s, h));
     h \<leftarrow> (if root tree \<noteq> NULL then free_node (root tree) h else Some h);
     T \<leftarrow> (case thread_rwlock_destroy l of Go l \<Rightarrow> Some (T(tp \<mapsto> l)) | _ \<Rightarrow> None);
     _ \<leftarrow> T tp;
     Some (s, h, T(tp := None)) }"

section \<open>Insertion\<close>

text \<open>The search loop of \<open>avl_insert\<close>. The result carries the heap and, unless the allocation of the
  new node failed, the values of \<open>t\<close>, \<open>s\<close> and \<open>q\<close> when the loop is left.\<close>

partial_function (option) avl_insert_descend ::
  "('k option \<Rightarrow> 'k option \<Rightarrow> int) \<Rightarrow> addr \<Rightarrow> 'k option \<Rightarrow> addr \<Rightarrow> addr \<Rightarrow> addr \<Rightarrow> 'k heap \<Rightarrow>
   ('k heap \<times> (addr \<times> addr \<times> addr) option) option" where
  "avl_insert_descend cmp m k t s p h = do {
     pk \<leftarrow> rd key h p;
     if cmp k pk < 1 then do {
       rk \<leftarrow> get_rank h p;
       h \<leftarrow> set_rank p (rk + 1) h;
       q \<leftarrow> rd left h p;
       if q = NULL then
         (let (q_node, h) = avl_node_new m k p h in
          if q_node = NULL then Some (h, None)
          else do { h \<leftarrow> set_left p q_node h; Some (h, Some (t, s, q_node)) })
       else do {
         b \<leftarrow> get_balance h q;
         if b \<noteq> 0 then avl_insert_descend cmp m k p q q h
         else avl_insert_descend cmp m k t s q h } }
     else do {
       q \<leftarrow> rd right h p;
       if q = NULL then
         (let (q_node, h) = avl_node_new m k p h in
          if q_node = NULL then Some (h, None)
          else do { h \<leftarrow> set_right p q_node h; Some (h, Some (t, s, q_node)) })
       else do {
         b \<leftarrow> get_balance h q;
         if b \<noteq> 0 then avl_insert_descend cmp m k p q q h
         else avl_insert_descend cmp m k t s q h } } }"

text \<open>The loop that adjusts the balance factors between \<open>s\<close> and the new node \<open>q\<close>.\<close>

partial_function (option) avl_insert_adjust ::
  "('k option \<Rightarrow> 'k option \<Rightarrow> int) \<Rightarrow> 'k option \<Rightarrow> addr \<Rightarrow> addr \<Rightarrow> 'k heap \<Rightarrow> 'k heap option" where
  "avl_insert_adjust cmp k q p h =
     (if p = q then Some h
      else do {
        pk \<leftarrow> rd key h p;
        if cmp k pk < 1 then do {
          h \<leftarrow> set_balance p (-1) h;
          p \<leftarrow> rd left h p;
          avl_insert_adjust cmp k q p h }
        else do {
          h \<leftarrow> set_balance p 1 h;
          p \<leftarrow> rd right h p;
          avl_insert_adjust cmp k q p h } })"

definition avl_insert_single :: "int \<Rightarrow> addr \<Rightarrow> addr \<Rightarrow> 'k heap \<Rightarrow> 'k heap option" where
  "avl_insert_single a s r h = do {
     h \<leftarrow> (if a = -1 then do {
        rr \<leftarrow> rd right h r;
        h \<leftarrow> set_left s rr h;
        rr \<leftarrow> rd right h r;
        h \<leftarrow> set_parent_if rr s h;
        h \<leftarrow> set_right r s h;
        h \<leftarrow> set_parent s r h;
        ks \<leftarrow> get_rank h s;
        kr \<leftarrow> get_rank h r;
        set_rank s (ks - kr) h }
      else do {
        rl \<leftarrow> rd left h r;
        h \<leftarrow> set_right s rl h;
        rl \<leftarrow> rd left h r;
        h \<leftarrow> set_parent_if rl s h;
        h \<leftarrow> set_left r s h;
        h \<leftarrow> set_parent s r h;
        kr \<leftarrow> get_rank h r;
        ks \<leftarrow> get_rank h s;
        set_rank r (kr + ks) h });
     h \<leftarrow> set_balance s 0 h;
     set_balance r 0 h }"

text \<open>The double rotation also yields the new top \<open>p\<close>.\<close>

definition avl_insert_double :: "int \<Rightarrow> addr \<Rightarrow> addr \<Rightarrow> 'k heap \<Rightarrow> (addr \<times> 'k heap) option" where
  "avl_insert_double a s r h = do {
     (p, h) \<leftarrow> (if a = -1 then do {
        p \<leftarrow> rd right h r;
        pl \<leftarrow> rd left h p;
        h \<leftarrow> set_right r pl h;
        pl \<leftarrow> rd left h p;
        h \<leftarrow> set_parent_if pl r h;
        h \<leftarrow> set_left p r h;
        h \<leftarrow> set_parent r p h;
        pr \<leftarrow> rd right h p;
        h \<leftarrow> set_left s pr h;
        pr \<leftarrow> rd right h p;
        h \<leftarrow> set_parent_if pr s h;
        h \<leftarrow> set_right p s h;
        h \<leftarrow> set_parent s p h;
        kp \<leftarrow> get_rank h p;
        kr \<leftarrow> get_rank h r;
        h \<leftarrow> set_rank p (kp + kr) h;
        ks \<leftarrow> get_rank h s;
        kp \<leftarrow> get_rank h p;
        h \<leftarrow> set_rank s (ks - kp) h;
        Some (p, h) }
      else do {
        p \<leftarrow> rd left h r;
        pr \<leftarrow> rd right h p;
        h \<leftarrow> set_left r pr h;
        pr \<leftarrow> rd right h p;
        h \<leftarrow> set_parent_if pr r h;
        h \<leftarrow> set_right p r h;
        h \<leftarrow> set_parent r p h;
        pl \<leftarrow> rd left h p;
        h \<leftarrow> set_right s pl h;
        pl \<leftarrow> rd left h p;
        h \<leftarrow> set_parent_if pl s h;
        h \<leftarrow> set_left p s h;
        h \<leftarrow> set_parent s p h;
        kr \<leftarrow> get_rank h r;
        kp \<leftarrow> get_rank h p;
        h \<leftarrow> set_rank r (kr - kp) h;
        kp \<leftarrow> get_rank h p;
        ks \<leftarrow> get_rank h s;
        h \<leftarrow> set_rank p (kp + ks) h;
        Some (p, h) });
     bp \<leftarrow> get_balance h p;
     h \<leftarrow> (if bp = a then do { h \<leftarrow> set_balance s (- a) h; set_balance r 0 h }
           else if bp = - a then do { h \<leftarrow> set_balance s 0 h; set_balance r a h }
           else do { h \<leftarrow> set_balance s 0 h; set_balance r 0 h });
     h \<leftarrow> set_balance p 0 h;
     Some (p, h) }"

text \<open>The balancing act after the search, at the node \<open>s\<close> with parent \<open>t\<close>; \<open>r\<close> is the child of \<open>s\<close> on
  the search path and \<open>q\<close> the new node (the value of \<open>p\<close> when the adjusting loop is left).\<close>

definition avl_insert_balance ::
  "('k option \<Rightarrow> 'k option \<Rightarrow> int) \<Rightarrow> 'k option \<Rightarrow> ('k, 'a) avl_tree \<Rightarrow> addr \<Rightarrow> addr \<Rightarrow> addr \<Rightarrow> addr \<Rightarrow>
   'k heap \<Rightarrow> (int \<times> ('k, 'a) avl_tree \<times> 'k heap) option" where
  "avl_insert_balance cmp k ob t s r q h = do {
     sk \<leftarrow> rd key h s;
     let a = (if cmp k sk < 1 then -1 else 1);
     bs \<leftarrow> get_balance h s;
     if bs = 0 then do {
       h \<leftarrow> set_balance s a h;
       Some (0, ob\<lparr>height := height ob + 1\<rparr>, h) }
     else if bs = - a then do {
       h \<leftarrow> set_balance s 0 h;
       Some (0, ob, h) }
     else if bs = a then do {
       br \<leftarrow> get_balance h r;
       (p, h) \<leftarrow> (if br = a then do { h \<leftarrow> avl_insert_single a s r h; Some (r, h) }
                  else if br = - a then avl_insert_double a s r h
                  else Some (q, h));
       tr \<leftarrow> rd right h t;
       h \<leftarrow> (if s = tr then set_right t p h else set_left t p h);
       h \<leftarrow> set_parent p t h;
       Some (0, ob, h) }
     else Some (0, ob, h) }"

definition avl_insert ::
  "addr \<Rightarrow> ('k, 'a) avl_tree \<Rightarrow> 'k option \<Rightarrow> 'k heap \<Rightarrow> (int \<times> ('k, 'a) avl_tree \<times> 'k heap) option" where
  "avl_insert m ob k h = do {
     let cmp = compare_fun ob (compare_arg ob);
     rt \<leftarrow> rd right h (root ob);
     if rt = NULL then
       (let (node, h) = avl_node_new m k (root ob) h in
        if node = NULL then Some (-1, ob, h)
        else do {
          h \<leftarrow> set_right (root ob) node h;
          Some (0, ob\<lparr>len := len ob + 1\<rparr>, h) })
     else do {
       (h, found) \<leftarrow> avl_insert_descend cmp m k (root ob) rt rt h;
       case found of None \<Rightarrow> Some (-1, ob, h)
       | Some (t, s, q) \<Rightarrow> do {
           let ob = ob\<lparr>len := len ob + 1\<rparr>;
           sk \<leftarrow> rd key h s;
           r \<leftarrow> (if cmp k sk < 1 then rd left h s else rd right h s);
           h \<leftarrow> avl_insert_adjust cmp k q r h;
           avl_insert_balance cmp k ob t s r q h } } }"

section \<open>Lookup\<close>

text \<open>The lookups return the C result and the value stored through \<open>value_address\<close>, if any.\<close>

partial_function (option) avl_get_by_index_loop ::
  "ulong \<Rightarrow> addr \<Rightarrow> 'k heap \<Rightarrow> (int \<times> 'k option option) option" where
  "avl_get_by_index_loop m p h =
     (if p = NULL then Some (-1, None)
      else do {
        rk \<leftarrow> get_rank h p;
        if m < ucast rk then do {
          l \<leftarrow> rd left h p;
          avl_get_by_index_loop m l h }
        else if m > ucast rk then do {
          r \<leftarrow> rd right h p;
          avl_get_by_index_loop (m - ucast rk) r h }
        else do {
          k \<leftarrow> rd key h p;
          Some (0, Some k) } })"

definition avl_get_by_index ::
  "('k, 'a) avl_tree \<Rightarrow> ulong \<Rightarrow> 'k heap \<Rightarrow> (int \<times> 'k option option) option" where
  "avl_get_by_index tree index h = do {
     p \<leftarrow> rd right h (root tree);
     avl_get_by_index_loop (index + 1) p h }"

partial_function (option) avl_get_by_key_loop ::
  "('k option \<Rightarrow> 'k option \<Rightarrow> int) \<Rightarrow> 'k option \<Rightarrow> addr \<Rightarrow> 'k heap \<Rightarrow> (int \<times> 'k option option) option" where
  "avl_get_by_key_loop cmp k x h = do {
     xk \<leftarrow> rd key h x;
     let compare_result = cmp k xk;
     if compare_result < 0 then do {
       l \<leftarrow> rd left h x;
       if l \<noteq> NULL then avl_get_by_key_loop cmp k l h else Some (-1, None) }
     else if compare_result > 0 then do {
       r \<leftarrow> rd right h x;
       if r \<noteq> NULL then avl_get_by_key_loop cmp k r h else Some (-1, None) }
     else Some (0, Some xk) }"

definition avl_get_by_key ::
  "('k, 'a) avl_tree \<Rightarrow> 'k option \<Rightarrow> 'k heap \<Rightarrow> (int \<times> 'k option option) option" where
  "avl_get_by_key tree k h = do {
     x \<leftarrow> rd right h (root tree);
     if x = NULL then Some (-1, None)
     else avl_get_by_key_loop (compare_fun tree (compare_arg tree)) k x h }"

section \<open>Deletion\<close>

text \<open>Undoing the rank changes on the way up, from \<open>x\<close> to the top node \<open>tree->root->right\<close>.\<close>

partial_function (option) avl_delete_undo :: "addr \<Rightarrow> addr \<Rightarrow> 'k heap \<Rightarrow> 'k heap option" where
  "avl_delete_undo rt x h = do {
     rr \<leftarrow> rd right h rt;
     if x = rr then Some h
     else do {
       par \<leftarrow> rd parent h x;
       pl \<leftarrow> rd left h par;
       h \<leftarrow> (if pl = x then do { rk \<leftarrow> get_rank h par; set_rank par (rk + 1) h } else Some h);
       x \<leftarrow> rd parent h x;
       avl_delete_undo rt x h } }"

text \<open>The search loop: the node with the key, or \<open>None\<close> when it is not in the tree.\<close>

partial_function (option) avl_delete_find ::
  "('k option \<Rightarrow> 'k option \<Rightarrow> int) \<Rightarrow> addr \<Rightarrow> 'k option \<Rightarrow> addr \<Rightarrow> 'k heap \<Rightarrow> ('k heap \<times> addr option) option"
  where
  "avl_delete_find cmp rt k x h = do {
     xk \<leftarrow> rd key h x;
     let compare_result = cmp k xk;
     if compare_result < 0 then do {
       rk \<leftarrow> get_rank h x;
       h \<leftarrow> set_rank x (rk - 1) h;
       l \<leftarrow> rd left h x;
       if l \<noteq> NULL then avl_delete_find cmp rt k l h
       else do {
         rk \<leftarrow> get_rank h x;
         h \<leftarrow> set_rank x (rk + 1) h;
         h \<leftarrow> avl_delete_undo rt x h;
         Some (h, None) } }
     else if compare_result > 0 then do {
       r \<leftarrow> rd right h x;
       if r \<noteq> NULL then avl_delete_find cmp rt k r h
       else do {
         rk \<leftarrow> get_rank h x;
         h \<leftarrow> set_rank x (rk + 1) h;
         h \<leftarrow> avl_delete_undo rt x h;
         Some (h, None) } }
     else Some (h, Some x) }"

text \<open>\<open>while (y->right) y = y->right;\<close> and its mirror image.\<close>

partial_function (option) avl_rightmost :: "addr \<Rightarrow> 'k heap \<Rightarrow> addr option" where
  "avl_rightmost y h = do {
     r \<leftarrow> rd right h y;
     if r \<noteq> NULL then avl_rightmost r h else Some y }"

partial_function (option) avl_leftmost :: "addr \<Rightarrow> 'k heap \<Rightarrow> addr option" where
  "avl_leftmost y h = do {
     l \<leftarrow> rd left h y;
     if l \<noteq> NULL then avl_leftmost l h else Some y }"

text \<open>Reduction to a node with at most one child: swap the key with the immediate predecessor.\<close>

definition avl_delete_swap :: "addr \<Rightarrow> 'k heap \<Rightarrow> (addr \<times> 'k heap) option" where
  "avl_delete_swap x h = do {
     l \<leftarrow> rd left h x;
     r \<leftarrow> rd right h x;
     if l \<noteq> NULL \<and> r \<noteq> NULL then do {
       y \<leftarrow> rd left h x;
       y \<leftarrow> avl_rightmost y h;
       temp_key \<leftarrow> rd key h x;
       yk \<leftarrow> rd key h y;
       h \<leftarrow> set_key x yk h;
       h \<leftarrow> set_key y temp_key h;
       rk \<leftarrow> get_rank h x;
       h \<leftarrow> set_rank x (rk - 1) h;
       Some (y, h) }
     else Some (x, h) }"

text \<open>The child of \<open>x\<close> takes its place; the result is \<open>shortened_side\<close>.\<close>

definition avl_delete_unlink :: "addr \<Rightarrow> 'k heap \<Rightarrow> (int \<times> 'k heap) option" where
  "avl_delete_unlink x h = do {
     l \<leftarrow> rd left h x;
     r \<leftarrow> rd right h x;
     (x_child, h) \<leftarrow>
       (if l \<noteq> NULL then do { par \<leftarrow> rd parent h x; h \<leftarrow> set_parent l par h; Some (l, h) }
        else if r \<noteq> NULL then do { par \<leftarrow> rd parent h x; h \<leftarrow> set_parent r par h; Some (r, h) }
        else Some (NULL, h));
     par \<leftarrow> rd parent h x;
     pl \<leftarrow> rd left h par;
     if x = pl then do { h \<leftarrow> set_left par x_child h; Some (-1, h) }
     else do { h \<leftarrow> set_right par x_child h; Some (1, h) } }"

text \<open>The single rotation of cases 3a and 3b (the same text twice in the source).\<close>

definition avl_delete_single :: "int \<Rightarrow> addr \<Rightarrow> addr \<Rightarrow> 'k heap \<Rightarrow> 'k heap option" where
  "avl_delete_single shortened_side p q h =
     (if shortened_side = -1 then do {
        pp \<leftarrow> rd parent h p;
        h \<leftarrow> set_parent q pp h;
        ql \<leftarrow> rd left h q;
        h \<leftarrow> set_right p ql h;
        ql \<leftarrow> rd left h q;
        h \<leftarrow> set_parent_if ql p h;
        h \<leftarrow> set_left q p h;
        h \<leftarrow> set_parent p q h;
        kq \<leftarrow> get_rank h q;
        kp \<leftarrow> get_rank h p;
        set_rank q (kq + kp) h }
      else do {
        pp \<leftarrow> rd parent h p;
        h \<leftarrow> set_parent q pp h;
        qr \<leftarrow> rd right h q;
        h \<leftarrow> set_left p qr h;
        qr \<leftarrow> rd right h q;
        h \<leftarrow> set_parent_if qr p h;
        h \<leftarrow> set_right q p h;
        h \<leftarrow> set_parent p q h;
        kp \<leftarrow> get_rank h p;
        kq \<leftarrow> get_rank h q;
        set_rank p (kp - kq) h })"

text \<open>Case 3c: the double rotation, with the new top \<open>r\<close> as its result.\<close>

definition avl_delete_double :: "int \<Rightarrow> addr \<Rightarrow> addr \<Rightarrow> 'k heap \<Rightarrow> (addr \<times> 'k heap) option" where
  "avl_delete_double shortened_side p q h = do {
     (r, h) \<leftarrow> (if shortened_side = 1 then do {
        r \<leftarrow> rd right h q;
        pp \<leftarrow> rd parent h p;
        h \<leftarrow> set_parent r pp h;
        rl \<leftarrow> rd left h r;
        h \<leftarrow> set_right q rl h;
        rl \<leftarrow> rd left h r;
        h \<leftarrow> set_parent_if rl q h;
        h \<leftarrow> set_left r q h;
        h \<leftarrow> set_parent q r h;
        rr \<leftarrow> rd right h r;
        h \<leftarrow> set_left p rr h;
        rr \<leftarrow> rd right h r;
        h \<leftarrow> set_parent_if rr p h;
        h \<leftarrow> set_right r p h;
        h \<leftarrow> set_parent p r h;
        kr \<leftarrow> get_rank h r;
        kq \<leftarrow> get_rank h q;
        h \<leftarrow> set_rank r (kr + kq) h;
        kp \<leftarrow> get_rank h p;
        kr \<leftarrow> get_rank h r;
        h \<leftarrow> set_rank p (kp - kr) h;
        Some (r, h) }
      else do {
        r \<leftarrow> rd left h q;
        pp \<leftarrow> rd parent h p;
        h \<leftarrow> set_parent r pp h;
        rr \<leftarrow> rd right h r;
        h \<leftarrow> set_left q rr h;
        rr \<leftarrow> rd right h r;
        h \<leftarrow> set_parent_if rr q h;
        h \<leftarrow> set_right r q h;
        h \<leftarrow> set_parent q r h;
        rl \<leftarrow> rd left h r;
        h \<leftarrow> set_right p rl h;
        rl \<leftarrow> rd left h r;
        h \<leftarrow> set_parent_if rl p h;
        h \<leftarrow> set_left r p h;
        h \<leftarrow> set_parent p r h;
        kq \<leftarrow> get_rank h q;
        kr \<leftarrow> get_rank h r;
        h \<leftarrow> set_rank q (kq - kr) h;
        kr \<leftarrow> get_rank h r;
        kp \<leftarrow> get_rank h p;
        h \<leftarrow> set_rank r (kr + kp) h;
        Some (r, h) });
     br \<leftarrow> get_balance h r;
     h \<leftarrow> (if br = shortened_side then do {
             h \<leftarrow> set_balance q (- shortened_side) h; set_balance p 0 h }
           else if br = - shortened_side then do {
             h \<leftarrow> set_balance q 0 h; set_balance p shortened_side h }
           else do { h \<leftarrow> set_balance q 0 h; set_balance p 0 h });
     h \<leftarrow> set_balance r 0 h;
     Some (r, h) }"

text \<open>One round of the loop that climbs back: the new top of the subtree at \<open>p\<close> and \<open>shorter\<close>.\<close>

definition avl_delete_step :: "int \<Rightarrow> addr \<Rightarrow> 'k heap \<Rightarrow> (addr \<times> bool \<times> 'k heap) option" where
  "avl_delete_step shortened_side p h = do {
     bp \<leftarrow> get_balance h p;
     if bp = 0 then do {
       h \<leftarrow> (if shortened_side = -1 then set_balance p 1 h else set_balance p (-1) h);
       Some (p, False, h) }
     else if bp = shortened_side then do {
       h \<leftarrow> set_balance p 0 h;
       Some (p, True, h) }
     else do {
       top \<leftarrow> rd parent h p;
       q \<leftarrow> (if shortened_side = 1 then rd left h p else rd right h p);
       bq \<leftarrow> get_balance h q;
       (q, shorter, h) \<leftarrow>
         (if bq = 0 then do {
            h \<leftarrow> avl_delete_single shortened_side p q h;
            h \<leftarrow> set_balance q shortened_side h;
            h \<leftarrow> set_balance p (- shortened_side) h;
            Some (q, False, h) }
          else if bq = bp then do {
            h \<leftarrow> avl_delete_single shortened_side p q h;
            h \<leftarrow> set_balance q 0 h;
            h \<leftarrow> set_balance p 0 h;
            Some (q, True, h) }
          else do {
            (r, h) \<leftarrow> avl_delete_double shortened_side p q h;
            Some (r, True, h) });
       tl \<leftarrow> rd left h top;
       h \<leftarrow> (if tl = p then set_left top q h else set_right top q h);
       Some (q, shorter, h) } }"

partial_function (option) avl_delete_climb :: "int \<Rightarrow> addr \<Rightarrow> 'k heap \<Rightarrow> 'k heap option" where
  "avl_delete_climb shortened_side p h = do {
     pp \<leftarrow> rd parent h p;
     if pp = NULL then Some h
     else do {
       (x, shorter, h) \<leftarrow> avl_delete_step shortened_side p h;
       p \<leftarrow> rd parent h x;
       pl \<leftarrow> rd left h p;
       let shortened_side = (if x = pl then -1 else 1);
       if shorter then avl_delete_climb shortened_side p h else Some h } }"

definition avl_delete ::
  "('k, 'a) avl_tree \<Rightarrow> 'k option \<Rightarrow> ('k option \<Rightarrow> 's \<Rightarrow> 's) option \<Rightarrow> 's \<Rightarrow> 'k heap \<Rightarrow>
   (int \<times> ('k, 'a) avl_tree \<times> 's \<times> 'k heap) option" where
  "avl_delete tree k f s h = do {
     x \<leftarrow> rd right h (root tree);
     if x = NULL then Some (-1, tree, s, h)
     else do {
       (h, found) \<leftarrow> avl_delete_find (compare_fun tree (compare_arg tree)) (root tree) k x h;
       case found of None \<Rightarrow> Some (-1, tree, s, h)
       | Some x \<Rightarrow> do {
           (x, h) \<leftarrow> avl_delete_swap x h;
           (shortened_side, h) \<leftarrow> avl_delete_unlink x h;
           p \<leftarrow> rd parent h x;
           xk \<leftarrow> rd key h x;
           let s = free_key f xk s;
           h \<leftarrow> free_node x h;
           h \<leftarrow> avl_delete_climb shortened_side p h;
           Some (0, tree\<lparr>len := len tree - 1\<rparr>, s, h) } } }"

section \<open>Iteration\<close>

text \<open>An iteration function acts on the state \<open>s\<close> behind its \<open>iter_arg\<close>.\<close>

partial_function (option) avl_iterate_inorder_helper ::
  "('k option \<Rightarrow> 's \<Rightarrow> int \<times> 's) \<Rightarrow> addr \<Rightarrow> 's \<Rightarrow> 'k heap \<Rightarrow> (int \<times> 's) option" where
  "avl_iterate_inorder_helper f node s h = do {
     l \<leftarrow> rd left h node;
     (res, s) \<leftarrow> (if l \<noteq> NULL then avl_iterate_inorder_helper f l s h else Some (0, s));
     if res \<noteq> 0 then Some (res, s)
     else do {
       k \<leftarrow> rd key h node;
       let (res, s) = f k s;
       if res \<noteq> 0 then Some (res, s)
       else do {
         r \<leftarrow> rd right h node;
         if r \<noteq> NULL then avl_iterate_inorder_helper f r s h else Some (0, s) } } }"

definition avl_iterate_inorder ::
  "('k, 'a) avl_tree \<Rightarrow> ('k option \<Rightarrow> 's \<Rightarrow> int \<times> 's) \<Rightarrow> 's \<Rightarrow> 'k heap \<Rightarrow> (int \<times> 's) option" where
  "avl_iterate_inorder tree f s h =
     (if len tree \<noteq> 0 then do {
        r \<leftarrow> rd right h (root tree);
        avl_iterate_inorder_helper f r s h }
      else Some (0, s))"

definition avl_get_first :: "('k, 'a) avl_tree \<Rightarrow> 'k heap \<Rightarrow> addr option" where
  "avl_get_first tree h = do {
     node \<leftarrow> rd right h (root tree);
     if node = NULL then Some NULL
     else do {
       k \<leftarrow> rd key h node;
       if Option.is_none k then Some NULL else avl_leftmost node h } }"

partial_function (option) avl_prev_up :: "addr \<Rightarrow> addr \<Rightarrow> 'k heap \<Rightarrow> addr option" where
  "avl_prev_up child node h = do {
     par \<leftarrow> rd parent h node;
     if par = NULL then Some NULL
     else do {
       pk \<leftarrow> rd key h par;
       if Option.is_none pk then Some NULL
       else do {
         r \<leftarrow> rd right h par;
         if child = r then Some par else avl_prev_up par par h } } }"

definition avl_get_prev :: "addr \<Rightarrow> 'k heap \<Rightarrow> addr option" where
  "avl_get_prev node h = do {
     l \<leftarrow> rd left h node;
     if l \<noteq> NULL then avl_rightmost l h else avl_prev_up node node h }"

partial_function (option) avl_next_up :: "addr \<Rightarrow> addr \<Rightarrow> 'k heap \<Rightarrow> addr option" where
  "avl_next_up child node h = do {
     par \<leftarrow> rd parent h node;
     if par = NULL then Some NULL
     else do {
       pk \<leftarrow> rd key h par;
       if Option.is_none pk then Some NULL
       else do {
         l \<leftarrow> rd left h par;
         if child = l then Some par else avl_next_up par par h } } }"

definition avl_get_next :: "addr \<Rightarrow> 'k heap \<Rightarrow> addr option" where
  "avl_get_next node h = do {
     r \<leftarrow> rd right h node;
     if r \<noteq> NULL then avl_leftmost r h else avl_next_up node node h }"

partial_function (option) avl_find_rank :: "ulong \<Rightarrow> addr \<Rightarrow> 'k heap \<Rightarrow> addr option" where
  "avl_find_rank m node h = do {
     rk \<leftarrow> get_rank h node;
     if m < ucast rk then do { l \<leftarrow> rd left h node; avl_find_rank m l h }
     else if m > ucast rk then do { r \<leftarrow> rd right h node; avl_find_rank (m - ucast rk) r h }
     else Some node }"

partial_function (option) avl_range_loop ::
  "(ulong \<Rightarrow> 'k option \<Rightarrow> 's \<Rightarrow> int \<times> 's) \<Rightarrow> ulong \<Rightarrow> addr \<Rightarrow> 's \<Rightarrow> 'k heap \<Rightarrow> (int \<times> 's) option" where
  "avl_range_loop f num_left node s h =
     (if num_left = 0 then Some (0, s)
      else do {
        k \<leftarrow> rd key h node;
        let (res, s) = f (num_left - 1) k s;
        if res \<noteq> 0 then Some (-1, s)
        else do {
          node \<leftarrow> avl_get_prev node h;
          avl_range_loop f (num_left - 1) node s h } })"

definition avl_iterate_index_range ::
  "('k, 'a) avl_tree \<Rightarrow> (ulong \<Rightarrow> 'k option \<Rightarrow> 's \<Rightarrow> int \<times> 's) \<Rightarrow> ulong \<Rightarrow> ulong \<Rightarrow> 's \<Rightarrow> 'k heap \<Rightarrow>
   (int \<times> 's) option" where
  "avl_iterate_index_range tree f low high s h =
     (if high > ucast (len tree) then Some (-1, s)
      else do {
        node \<leftarrow> rd right h (root tree);
        node \<leftarrow> avl_find_rank high node h;
        avl_range_loop f (high - low) node s h })"

section \<open>Positions and spans\<close>

text \<open>The node and what was stored through \<open>index\<close>; \<open>None\<close> when nothing was stored.\<close>

partial_function (option) avl_index_loop ::
  "('k option \<Rightarrow> 'k option \<Rightarrow> int) \<Rightarrow> 'k option \<Rightarrow> ulong \<Rightarrow> addr \<Rightarrow> 'k heap \<Rightarrow> (addr \<times> ulong option) option"
  where
  "avl_index_loop cmp k m x h = do {
     xk \<leftarrow> rd key h x;
     let compare_result = cmp k xk;
     if compare_result < 0 then do {
       l \<leftarrow> rd left h x;
       if l \<noteq> NULL then do {
         rx \<leftarrow> get_rank h x;
         rl \<leftarrow> get_rank h l;
         avl_index_loop cmp k (m - ucast rx + ucast rl) l h }
       else Some (NULL, Some (m - 2)) }
     else if compare_result > 0 then do {
       r \<leftarrow> rd right h x;
       if r \<noteq> NULL then do {
         rr \<leftarrow> get_rank h r;
         avl_index_loop cmp k (m + ucast rr) r h }
       else Some (NULL, Some (m - 1)) }
     else Some (x, Some (m - 1)) }"

definition avl_get_index_by_key ::
  "('k, 'a) avl_tree \<Rightarrow> 'k option \<Rightarrow> 'k heap \<Rightarrow> (addr \<times> ulong option) option" where
  "avl_get_index_by_key tree k h = do {
     x \<leftarrow> rd right h (root tree);
     if x = NULL then Some (NULL, None)
     else do {
       rk \<leftarrow> get_rank h x;
       avl_index_loop (compare_fun tree (compare_arg tree)) k (ucast rk) x h } }"

partial_function (option) avl_span_left ::
  "('k option \<Rightarrow> 'k option \<Rightarrow> int) \<Rightarrow> 'k option \<Rightarrow> addr \<Rightarrow> ulong \<Rightarrow> 'k heap \<Rightarrow> ulong option" where
  "avl_span_left cmp k lft i h =
     (if lft \<noteq> NULL \<and> i > 0 then do {
        lk \<leftarrow> rd key h lft;
        if cmp k lk = 0 then do {
          lft \<leftarrow> avl_get_prev lft h;
          avl_span_left cmp k lft (i - 1) h }
        else Some i }
      else Some i)"

partial_function (option) avl_span_right ::
  "('k option \<Rightarrow> 'k option \<Rightarrow> int) \<Rightarrow> 'k option \<Rightarrow> uint \<Rightarrow> addr \<Rightarrow> ulong \<Rightarrow> 'k heap \<Rightarrow> ulong option" where
  "avl_span_right cmp k n rgt j h =
     (if rgt \<noteq> NULL \<and> j \<le> ucast n then do {
        rk \<leftarrow> rd key h rgt;
        if cmp k rk = 0 then do {
          rgt \<leftarrow> avl_get_next rgt h;
          avl_span_right cmp k n rgt (j + 1) h }
        else Some j }
      else Some j)"

text \<open>The pair (\<open>low\<close>, \<open>high\<close>); reading an index that was never stored is undefined (\<open>None\<close>).\<close>

definition avl_get_span_by_key ::
  "('k, 'a) avl_tree \<Rightarrow> 'k option \<Rightarrow> 'k heap \<Rightarrow> (ulong \<times> ulong) option" where
  "avl_get_span_by_key tree k h = do {
     let cmp = compare_fun tree (compare_arg tree);
     (node, idx) \<leftarrow> avl_get_index_by_key tree k h;
     m \<leftarrow> idx;
     if node \<noteq> NULL then do {
       lft \<leftarrow> avl_get_prev node h;
       i \<leftarrow> avl_span_left cmp k lft m h;
       rgt \<leftarrow> avl_get_next node h;
       j \<leftarrow> avl_span_right cmp k (len tree) rgt m h;
       Some (i, j + 1) }
     else Some (m, m) }"

definition avl_get_span_by_two_keys ::
  "('k, 'a) avl_tree \<Rightarrow> 'k option \<Rightarrow> 'k option \<Rightarrow> 'k heap \<Rightarrow> (ulong \<times> ulong) option" where
  "avl_get_span_by_two_keys tree low_key high_key h = do {
     let cmp = compare_fun tree (compare_arg tree);
     let (low_key, high_key) = (if cmp low_key high_key > 0 then (high_key, low_key)
                                else (low_key, high_key));
     (low_node, idx_i) \<leftarrow> avl_get_index_by_key tree low_key h;
     (high_node, idx_j) \<leftarrow> avl_get_index_by_key tree high_key h;
     i \<leftarrow> idx_i;
     j \<leftarrow> idx_j;
     i \<leftarrow> (if low_node \<noteq> NULL then do {
             lft \<leftarrow> avl_get_prev low_node h;
             avl_span_left cmp low_key lft i h }
           else Some (i + 1));
     j \<leftarrow> (if high_node \<noteq> NULL then do {
             rgt \<leftarrow> avl_get_next high_node h;
             avl_span_right cmp high_key (len tree) rgt j h }
           else Some (j + 1));
     Some (i, j) }"

text \<open>The C result and the final value of \<open>*value_address\<close>.\<close>

partial_function (option) avl_item_most_loop ::
  "('k option \<Rightarrow> 'k option \<Rightarrow> int) \<Rightarrow> 'k option \<Rightarrow> 'k option \<Rightarrow> addr \<Rightarrow> 'k heap \<Rightarrow> (int \<times> 'k option) option"
  where
  "avl_item_most_loop cmp k v x h = do {
     xk \<leftarrow> rd key h x;
     let compare_result = cmp k xk;
     if compare_result = 0 then Some (0, xk)
     else if compare_result < 0 then do {
       l \<leftarrow> rd left h x;
       if l \<noteq> NULL then avl_item_most_loop cmp k v l h
       else Some (if Option.is_none v then -1 else 0, v) }
     else do {
       r \<leftarrow> rd right h x;
       if r \<noteq> NULL then avl_item_most_loop cmp k xk r h
       else Some (if Option.is_none xk then -1 else 0, xk) } }"

definition avl_get_item_by_key_most ::
  "('k, 'a) avl_tree \<Rightarrow> 'k option \<Rightarrow> 'k heap \<Rightarrow> (int \<times> 'k option) option" where
  "avl_get_item_by_key_most tree k h = do {
     x \<leftarrow> rd right h (root tree);
     if x = NULL then Some (-1, None)
     else avl_item_most_loop (compare_fun tree (compare_arg tree)) k None x h }"

partial_function (option) avl_item_least_loop ::
  "('k option \<Rightarrow> 'k option \<Rightarrow> int) \<Rightarrow> 'k option \<Rightarrow> 'k option \<Rightarrow> addr \<Rightarrow> 'k heap \<Rightarrow> (int \<times> 'k option) option"
  where
  "avl_item_least_loop cmp k v x h = do {
     xk \<leftarrow> rd key h x;
     let compare_result = cmp k xk;
     if compare_result = 0 then Some (0, xk)
     else if compare_result < 0 then do {
       l \<leftarrow> rd left h x;
       if l \<noteq> NULL then avl_item_least_loop cmp k xk l h
       else Some (if Option.is_none xk then -1 else 0, xk) }
     else do {
       r \<leftarrow> rd right h x;
       if r \<noteq> NULL then avl_item_least_loop cmp k v r h
       else Some (if Option.is_none v then -1 else 0, v) } }"

definition avl_get_item_by_key_least ::
  "('k, 'a) avl_tree \<Rightarrow> 'k option \<Rightarrow> 'k heap \<Rightarrow> (int \<times> 'k option) option" where
  "avl_get_item_by_key_least tree k h = do {
     x \<leftarrow> rd right h (root tree);
     if x = NULL then Some (-1, None)
     else avl_item_least_loop (compare_fun tree (compare_arg tree)) k None x h }"

section \<open>Self checks\<close>

partial_function (option) avl_verify_balance :: "addr \<Rightarrow> 'k heap \<Rightarrow> int option" where
  "avl_verify_balance node h =
     (if node = NULL then Some 0
      else do {
        l \<leftarrow> rd left h node;
        lh \<leftarrow> avl_verify_balance l h;
        r \<leftarrow> rd right h node;
        rh \<leftarrow> avl_verify_balance r h;
        b \<leftarrow> get_balance h node;
        if rh - lh \<noteq> b then Some 0
        else if lh - rh > 1 \<or> lh - rh < -1 then Some 0
        else Some (1 + (if lh > rh then lh else rh)) })"

partial_function (option) avl_verify_parent :: "addr \<Rightarrow> addr \<Rightarrow> 'k heap \<Rightarrow> unit option" where
  "avl_verify_parent node par h = do {
     np \<leftarrow> rd parent h node;
     if np \<noteq> par then Some ()
     else do {
       l \<leftarrow> rd left h node;
       _ \<leftarrow> (if l \<noteq> NULL then avl_verify_parent l node h else Some ());
       r \<leftarrow> rd right h node;
       if r \<noteq> NULL then avl_verify_parent r node h else Some () } }"

text \<open>A wrong rank ends the process: \<open>Inl 1\<close> is \<open>exit (1)\<close>.\<close>

partial_function (option) avl_verify_rank :: "addr \<Rightarrow> 'k heap \<Rightarrow> (int + ulong) option" where
  "avl_verify_rank node h =
     (if node = NULL then Some (Inr 0)
      else do {
        l \<leftarrow> rd left h node;
        nl \<leftarrow> (if l \<noteq> NULL then avl_verify_rank l h else Some (Inr 0));
        case nl of Inl e \<Rightarrow> Some (Inl e)
        | Inr num_left \<Rightarrow> do {
            r \<leftarrow> rd right h node;
            nr \<leftarrow> (if r \<noteq> NULL then avl_verify_rank r h else Some (Inr 0));
            case nr of Inl e \<Rightarrow> Some (Inl e)
            | Inr num_right \<Rightarrow> do {
                rk \<leftarrow> get_rank h node;
                if ucast rk \<noteq> num_left + 1 then Some (Inl 1)
                else Some (Inr (num_left + num_right + 1)) } } })"

text \<open>\<open>avl_verify\<close> discards what its helpers return; only the exit of the rank check is seen.\<close>

definition avl_verify :: "('k, 'a) avl_tree \<Rightarrow> 'k heap \<Rightarrow> (int + int) option" where
  "avl_verify tree h =
     (if len tree \<noteq> 0 then do {
        r \<leftarrow> rd right h (root tree);
        _ \<leftarrow> avl_verify_balance r h;
        _ \<leftarrow> avl_verify_parent r (root tree) h;
        v \<leftarrow> avl_verify_rank r h;
        case v of Inl e \<Rightarrow> Some (Inl e) | Inr _ \<Rightarrow> Some (Inr 0) }
      else Some (Inr 0))"

end
