(* ===== verification/Avl_Tree.thy ===== *)
theory Avl_Tree
  imports Avl_Defs
begin

text \<open>
  The abstraction of a heap of AVL nodes: trees whose nodes carry their address, contexts (a tree
  with a hole, innermost frame first), the relations that tie both to a heap, and the invariant of
  the library: balance factors, ranks and order. The locale \<open>key_order\<close> is the contract of a compare
  function.
\<close>

section \<open>The packed word\<close>

definition rk :: "uint \<Rightarrow> nat" where
  "rk w = unat (AVL_GET_RANK w)"

abbreviation bal :: "uint \<Rightarrow> int" where
  "bal \<equiv> AVL_GET_BALANCE"

definition new_word :: uint where
  "new_word = AVL_SET_RANK (AVL_SET_BALANCE 0 0) 1"

lemma three_mask: "(3::uint) = mask 2"
  by (simp add: mask_eq_exp_minus_1)

lemma GET_BALANCE_SET_BALANCE [word_rules]:
  assumes "b = -1 \<or> b = 0 \<or> b = 1"
  shows "AVL_GET_BALANCE (AVL_SET_BALANCE w b) = b"
proof -
  have "((w AND NOT 3) OR x) AND 3 = x AND 3" for x :: uint
    by (rule bit_word_eqI) (auto simp: bit_simps)
  then show ?thesis
    using assms unfolding AVL_GET_BALANCE_def AVL_SET_BALANCE_def by auto
qed

lemma GET_RANK_SET_BALANCE [word_rules]:
  assumes "b = -1 \<or> b = 0 \<or> b = 1"
  shows "AVL_GET_RANK (AVL_SET_BALANCE w b) = AVL_GET_RANK w"
proof -
  have clear: "drop_bit 2 (w AND NOT 3) = drop_bit 2 w"
    unfolding three_mask
    by (rule bit_word_eqI) (auto simp: bit_simps dest: bit_imp_le_length)
  have "drop_bit 2 (word_of_int (b + 1) :: uint) = 0"
    using assms by auto
  then show ?thesis
    unfolding AVL_GET_RANK_def AVL_SET_BALANCE_def drop_bit_or clear by simp
qed

lemma GET_BALANCE_SET_RANK [simp]: "AVL_GET_BALANCE (AVL_SET_RANK w r) = AVL_GET_BALANCE w"
proof -
  have "((w AND 3) OR push_bit 2 r) AND 3 = w AND 3"
    unfolding three_mask by (rule bit_word_eqI) (auto simp: bit_simps)
  then show ?thesis by (simp add: AVL_GET_BALANCE_def AVL_SET_RANK_def)
qed

lemma GET_RANK_SET_RANK: "AVL_GET_RANK (AVL_SET_RANK w r) = take_bit 30 r"
  unfolding AVL_GET_RANK_def AVL_SET_RANK_def three_mask
  by (rule bit_word_eqI) (auto simp: bit_simps)

lemma rk_bound: "rk w < 2 ^ 30"
proof -
  have "unat w < 2 ^ LENGTH(32)"
    by (rule unsigned_less)
  then show ?thesis
    by (simp add: rk_def AVL_GET_RANK_def drop_bit_eq_div unat_div less_mult_imp_div_less)
qed

lemma rk_SET_BALANCE [word_rules]:
  "b = -1 \<or> b = 0 \<or> b = 1 \<Longrightarrow> rk (AVL_SET_BALANCE w b) = rk w"
  by (simp add: rk_def word_rules)

lemma rk_SET_RANK: "unat r < 2 ^ 30 \<Longrightarrow> rk (AVL_SET_RANK w r) = unat r"
  by (simp add: rk_def GET_RANK_SET_RANK unsigned_take_bit_eq take_bit_nat_eq_self)

lemma rk_incr [word_rules]:
  "rk w + 1 < 2 ^ 30 \<Longrightarrow> rk (AVL_SET_RANK v (AVL_GET_RANK w + 1)) = rk w + 1"
  by (subst rk_SET_RANK) (simp_all add: rk_def unat_word_ariths)

lemma rk_add [word_rules]:
  "rk w + rk u < 2 ^ 30 \<Longrightarrow> rk (AVL_SET_RANK v (AVL_GET_RANK w + AVL_GET_RANK u)) = rk w + rk u"
  by (subst rk_SET_RANK) (simp_all add: rk_def unat_word_ariths)

lemma rk_sub [word_rules]:
  "rk u \<le> rk w \<Longrightarrow> rk (AVL_SET_RANK v (AVL_GET_RANK w - AVL_GET_RANK u)) = rk w - rk u"
  using rk_bound [of w] by (subst rk_SET_RANK) (simp_all add: rk_def unat_sub_if')

lemma rk_decr [word_rules]:
  "0 < rk w \<Longrightarrow> rk (AVL_SET_RANK v (AVL_GET_RANK w - 1)) = rk w - 1"
  using rk_bound [of w] by (subst rk_SET_RANK) (simp_all add: rk_def unat_sub_if')

lemma bal_new_word [simp]: "bal new_word = 0"
  by (simp add: new_word_def word_rules)

lemma rk_new_word [simp]: "rk new_word = 1"
  by (simp add: new_word_def rk_SET_RANK)

section \<open>Symbolic execution\<close>

lemma mem_evals [mem_eval]:
  assumes "h p = Some n"
  shows "rd f h p = Some (f n)"
    and "get_balance h p = Some (AVL_GET_BALANCE (rank_and_balance n))"
    and "get_rank h p = Some (AVL_GET_RANK (rank_and_balance n))"
    and "set_key p k h = Some (h(p \<mapsto> n\<lparr>key := k\<rparr>))"
    and "set_left p v h = Some (h(p \<mapsto> n\<lparr>left := v\<rparr>))"
    and "set_right p v h = Some (h(p \<mapsto> n\<lparr>right := v\<rparr>))"
    and "set_parent p v h = Some (h(p \<mapsto> n\<lparr>parent := v\<rparr>))"
    and "set_rank p r h = Some (h(p \<mapsto> n\<lparr>rank_and_balance := AVL_SET_RANK (rank_and_balance n) r\<rparr>))"
    and "set_balance p b h = Some (h(p \<mapsto> n\<lparr>rank_and_balance := AVL_SET_BALANCE (rank_and_balance n) b\<rparr>))"
    and "free_node p h = Some (h(p := None))"
  using assms by (simp_all add: mem_simps)

text \<open>Changing the parent pointer of a subtree's root, as \<open>if (c) c->parent = v\<close> does.\<close>

definition reparent :: "'k heap \<Rightarrow> addr \<Rightarrow> addr \<Rightarrow> 'k heap" where
  "reparent h c v = (if c = NULL then h else h(c := map_option (\<lambda>n. n\<lparr>parent := v\<rparr>) (h c)))"

lemma reparent_other [simp]: "a \<noteq> c \<Longrightarrow> reparent h c v a = h a"
  by (simp add: reparent_def)

lemma dom_reparent [simp]: "dom (reparent h c v) = dom h"
  by (auto simp: reparent_def dom_def)

lemma reparent_upd: "a \<noteq> c \<Longrightarrow> reparent (h(a \<mapsto> n)) c v = (reparent h c v)(a \<mapsto> n)"
  by (auto simp: reparent_def)

lemma set_parent_if_eval [mem_eval]:
  "c = NULL \<or> c \<in> dom h \<Longrightarrow> set_parent_if c v h = Some (reparent h c v)"
  by (auto simp: set_parent_if_def reparent_def mem_simps)

section \<open>Trees and contexts\<close>

datatype 'k ptree = Leaf | Node "'k ptree" addr 'k uint "'k ptree"

fun root_of :: "'k ptree \<Rightarrow> addr" where
  "root_of Leaf = NULL"
| "root_of (Node l a x w r) = a"

text \<open>The nodes in order, each an address with its key.\<close>

fun nodes :: "'k ptree \<Rightarrow> (addr \<times> 'k) list" where
  "nodes Leaf = []"
| "nodes (Node l a x w r) = nodes l @ (a, x) # nodes r"

definition addrs :: "'k ptree \<Rightarrow> addr list" where
  "addrs t = map fst (nodes t)"

definition keys :: "'k ptree \<Rightarrow> 'k list" where
  "keys t = map snd (nodes t)"

lemma addrs_simps [simp]:
  "addrs Leaf = []"
  "addrs (Node l a x w r) = addrs l @ a # addrs r"
  by (simp_all add: addrs_def)

lemma keys_simps [simp]:
  "keys Leaf = []"
  "keys (Node l a x w r) = keys l @ x # keys r"
  by (simp_all add: keys_def)

lemma length_keys: "length (keys t) = length (nodes t)"
  and length_addrs: "length (addrs t) = length (nodes t)"
  by (simp_all add: keys_def addrs_def)

fun root_bal :: "'k ptree \<Rightarrow> int" where
  "root_bal Leaf = 0"
| "root_bal (Node l a x w r) = bal w"

lemma root_of_in_addrs [simp]: "t \<noteq> Leaf \<Longrightarrow> root_of t \<in> set (addrs t)"
  by (cases t) auto

lemma root_of_eq_NULL: "NULL \<notin> set (addrs t) \<Longrightarrow> root_of t = NULL \<longleftrightarrow> t = Leaf"
  by (cases t) auto

fun ht :: "'k ptree \<Rightarrow> nat" where
  "ht Leaf = 0"
| "ht (Node l a x w r) = Suc (max (ht l) (ht r))"

lemma ht_eq_0 [simp]: "ht t = 0 \<longleftrightarrow> t = Leaf"
  by (cases t) auto

datatype 'k frame = LFrame addr 'k uint "'k ptree" | RFrame "'k ptree" addr 'k uint

type_synonym 'k ctx = "'k frame list"

fun plug :: "'k frame \<Rightarrow> 'k ptree \<Rightarrow> 'k ptree" where
  "plug (LFrame a x w r) t = Node t a x w r"
| "plug (RFrame l a x w) t = Node l a x w t"

fun fill :: "'k ctx \<Rightarrow> 'k ptree \<Rightarrow> 'k ptree" where
  "fill [] t = t"
| "fill (f # C) t = fill C (plug f t)"

fun before :: "'k ctx \<Rightarrow> (addr \<times> 'k) list" where
  "before [] = []"
| "before (LFrame a x w r # C) = before C"
| "before (RFrame l a x w # C) = before C @ nodes l @ [(a, x)]"

fun after :: "'k ctx \<Rightarrow> (addr \<times> 'k) list" where
  "after [] = []"
| "after (LFrame a x w r # C) = (a, x) # nodes r @ after C"
| "after (RFrame l a x w # C) = after C"

lemma nodes_fill: "nodes (fill C t) = before C @ nodes t @ after C"
proof (induction C arbitrary: t)
  case Nil
  then show ?case by simp
next
  case (Cons f C)
  then show ?case by (cases f) simp_all
qed

definition caddrs :: "'k ctx \<Rightarrow> addr set" where
  "caddrs C = fst ` set (before C) \<union> fst ` set (after C)"

lemma caddrs_simps [simp]:
  "caddrs [] = {}"
  "caddrs (LFrame a x w r # C) = insert a (set (addrs r) \<union> caddrs C)"
  "caddrs (RFrame l a x w # C) = insert a (set (addrs l) \<union> caddrs C)"
  by (auto simp: caddrs_def addrs_def)

lemma set_addrs_fill: "set (addrs (fill C t)) = caddrs C \<union> set (addrs t)"
  by (auto simp: addrs_def nodes_fill caddrs_def)

section \<open>Trees in the heap\<close>

fun rep :: "'k heap \<Rightarrow> addr \<Rightarrow> 'k ptree \<Rightarrow> bool" where
  "rep h par Leaf \<longleftrightarrow> True"
| "rep h par (Node l a x w r) \<longleftrightarrow>
     h a = Some \<lparr>key = Some x, left = root_of l, right = root_of r, parent = par,
                 rank_and_balance = w\<rparr> \<and> rep h a l \<and> rep h a r"

text \<open>The address of the node above a hole; \<open>rt\<close> is the sentinel \<open>tree->root\<close>.\<close>

fun cpar :: "addr \<Rightarrow> 'k ctx \<Rightarrow> addr" where
  "cpar rt [] = rt"
| "cpar rt (LFrame a x w r # C) = a"
| "cpar rt (RFrame l a x w # C) = a"

text \<open>The context in the heap, with \<open>hole\<close> as the pointer stored where the subtree hangs.\<close>

fun rep_ctx :: "'k heap \<Rightarrow> addr \<Rightarrow> 'k ctx \<Rightarrow> addr \<Rightarrow> bool" where
  "rep_ctx h rt [] hole \<longleftrightarrow>
     (\<exists>w. h rt = Some \<lparr>key = None, left = NULL, right = hole, parent = NULL, rank_and_balance = w\<rparr>)"
| "rep_ctx h rt (LFrame a x w r # C) hole \<longleftrightarrow>
     h a = Some \<lparr>key = Some x, left = hole, right = root_of r, parent = cpar rt C,
                 rank_and_balance = w\<rparr> \<and> rep h a r \<and> rep_ctx h rt C a"
| "rep_ctx h rt (RFrame l a x w # C) hole \<longleftrightarrow>
     h a = Some \<lparr>key = Some x, left = root_of l, right = hole, parent = cpar rt C,
                 rank_and_balance = w\<rparr> \<and> rep h a l \<and> rep_ctx h rt C a"

lemma rep_cong:
  "(\<And>a. a \<in> set (addrs t) \<Longrightarrow> h' a = h a) \<Longrightarrow> rep h' par t = rep h par t"
  by (induction t arbitrary: par) auto

lemma rep_upd [simp]: "a \<notin> set (addrs t) \<Longrightarrow> rep (h(a := n)) par t = rep h par t"
  by (rule rep_cong) auto

lemma rep_ctx_cong:
  "(\<And>a. a \<in> insert rt (caddrs C) \<Longrightarrow> h' a = h a) \<Longrightarrow> rep_ctx h' rt C hole = rep_ctx h rt C hole"
proof (induction C arbitrary: hole)
  case Nil
  then show ?case by simp
next
  case (Cons f C)
  show ?case
  proof (cases f)
    case (LFrame a x w r)
    have "rep h' a r = rep h a r"
      by (rule rep_cong) (simp add: Cons.prems LFrame)
    moreover have "rep_ctx h' rt C a = rep_ctx h rt C a"
      by (rule Cons.IH) (use Cons.prems LFrame in auto)
    ultimately show ?thesis using Cons.prems LFrame by simp
  next
    case (RFrame l a x w)
    have "rep h' a l = rep h a l"
      by (rule rep_cong) (simp add: Cons.prems RFrame)
    moreover have "rep_ctx h' rt C a = rep_ctx h rt C a"
      by (rule Cons.IH) (use Cons.prems RFrame in auto)
    ultimately show ?thesis using Cons.prems RFrame by simp
  qed
qed

lemma rep_ctx_upd [simp]:
  "a \<noteq> rt \<Longrightarrow> a \<notin> caddrs C \<Longrightarrow> rep_ctx (h(a := n)) rt C hole = rep_ctx h rt C hole"
  by (rule rep_ctx_cong) auto

text \<open>A represented tree splits at any hole into a represented context and a represented subtree.\<close>

lemma rep_fill:
  "rep_ctx h rt [] (root_of (fill C t)) \<and> rep h rt (fill C t) \<longleftrightarrow>
   rep_ctx h rt C (root_of t) \<and> rep h (cpar rt C) t"
proof (induction C arbitrary: t)
  case Nil
  then show ?case by simp
next
  case (Cons f C)
  show ?case
    unfolding fill.simps Cons.IH by (cases f) auto
qed

lemma rep_in_dom: "rep h par t \<Longrightarrow> set (addrs t) \<subseteq> dom h"
  by (induction t arbitrary: par) fastforce+

lemma get_balance_rep: "rep h par t \<Longrightarrow> t \<noteq> Leaf \<Longrightarrow> get_balance h (root_of t) = Some (root_bal t)"
  by (cases t) (auto simp: mem_simps)

lemma root_of_notin:
  "set (addrs s) \<inter> set (addrs t) = {} \<Longrightarrow> NULL \<notin> set (addrs t) \<Longrightarrow> root_of s \<notin> set (addrs t)"
  by (cases s) auto

lemma root_of_neq: "a \<notin> set (addrs t) \<Longrightarrow> a \<noteq> NULL \<Longrightarrow> root_of t \<noteq> a"
  by (cases t) auto

lemma root_of_dom: "rep h par t \<Longrightarrow> root_of t = NULL \<or> root_of t \<in> dom h"
  by (cases t) auto

lemma rep_reparent:
  "rep h par t \<Longrightarrow> distinct (addrs t) \<Longrightarrow> NULL \<notin> set (addrs t) \<Longrightarrow> rep (reparent h (root_of t) v) v t"
  by (cases t) (auto simp: reparent_def)

lemma rep_reparent_other:
  "c \<notin> set (addrs t) \<Longrightarrow> rep (reparent h c v) par t = rep h par t"
  by (simp add: reparent_def)

lemma reparent_notin: "b \<notin> set (addrs t) \<Longrightarrow> reparent h (root_of t) v b = h b"
  by (cases t) (auto simp: reparent_def)

lemma rep_ctx_reparent:
  "c \<noteq> rt \<Longrightarrow> c \<notin> caddrs C \<Longrightarrow> rep_ctx (reparent h c v) rt C hole = rep_ctx h rt C hole"
  by (simp add: reparent_def)

section \<open>The invariant\<close>

fun balanced :: "'k ptree \<Rightarrow> bool" where
  "balanced Leaf \<longleftrightarrow> True"
| "balanced (Node l a x w r) \<longleftrightarrow>
     bal w = int (ht r) - int (ht l) \<and> bal w \<in> {-1, 0, 1} \<and> balanced l \<and> balanced r"

fun ranked :: "'k ptree \<Rightarrow> bool" where
  "ranked Leaf \<longleftrightarrow> True"
| "ranked (Node l a x w r) \<longleftrightarrow> rk w = length (nodes l) + 1 \<and> ranked l \<and> ranked r"

text \<open>The contract of a compare function: a total preorder, read through the sign.\<close>

locale key_order =
  fixes cmp :: "'k \<Rightarrow> 'k \<Rightarrow> int"
  assumes cmp_sym: "cmp x y < 0 \<longleftrightarrow> 0 < cmp y x"
    and cmp_trans: "cmp x y \<le> 0 \<Longrightarrow> cmp y z \<le> 0 \<Longrightarrow> cmp x z \<le> 0"
begin

lemma cmp_refl: "cmp x x = 0"
  using cmp_sym [of x x] by linarith

lemma cmp_gt: "0 < cmp x y \<longleftrightarrow> \<not> cmp x y \<le> 0"
  by linarith

lemma cmp_less_trans: "cmp x y \<le> 0 \<Longrightarrow> cmp y z < 0 \<Longrightarrow> cmp x z < 0"
  by (metis cmp_sym cmp_trans linorder_not_le)

lemma cmp_less_trans2: "cmp x y < 0 \<Longrightarrow> cmp y z \<le> 0 \<Longrightarrow> cmp x z < 0"
  by (metis cmp_sym cmp_trans linorder_not_le)

end

text \<open>Where a key goes: before the first key that is not smaller.\<close>

fun ins_key :: "('k \<Rightarrow> 'k \<Rightarrow> int) \<Rightarrow> 'k \<Rightarrow> 'k list \<Rightarrow> 'k list" where
  "ins_key cmp k [] = [k]"
| "ins_key cmp k (x # xs) = (if cmp k x < 1 then k # x # xs else x # ins_key cmp k xs)"

abbreviation key_sorted :: "('k \<Rightarrow> 'k \<Rightarrow> int) \<Rightarrow> 'k list \<Rightarrow> bool" where
  "key_sorted cmp \<equiv> sorted_wrt (\<lambda>x y. cmp x y \<le> 0)"

lemma ins_key_left: "cmp k x < 1 \<Longrightarrow> ins_key cmp k (us @ x # vs) = ins_key cmp k us @ x # vs"
  by (induction us) auto

lemma ins_key_right:
  "\<forall>u\<in>set us. \<not> cmp k u < 1 \<Longrightarrow> \<not> cmp k x < 1 \<Longrightarrow>
   ins_key cmp k (us @ x # vs) = us @ x # ins_key cmp k vs"
  by (induction us) auto

lemma length_ins_key [simp]: "length (ins_key cmp k xs) = Suc (length xs)"
  by (induction xs) auto

lemma set_ins_key [simp]: "set (ins_key cmp k xs) = insert k (set xs)"
  by (induction xs) auto

context key_order
begin

lemma sorted_ins_key: "key_sorted cmp xs \<Longrightarrow> key_sorted cmp (ins_key cmp k xs)"
proof (induction xs)
  case Nil
  then show ?case by simp
next
  case (Cons x xs)
  show ?case
  proof (cases "cmp k x < 1")
    case True
    then have "cmp k x \<le> 0" by simp
    with True Cons.prems show ?thesis by (auto intro: cmp_trans)
  next
    case False
    then have "cmp x k \<le> 0" using cmp_sym [of x k] by linarith
    with False Cons show ?thesis by simp
  qed
qed

lemma ins_key_right_sorted:
  assumes "key_sorted cmp (us @ x # vs)" and "\<not> cmp k x < 1"
  shows "ins_key cmp k (us @ x # vs) = us @ x # ins_key cmp k vs"
proof (rule ins_key_right)
  show "\<forall>u\<in>set us. \<not> cmp k u < 1"
  proof
    fix u
    assume "u \<in> set us"
    with assms(1) have "cmp u x \<le> 0" by (auto simp: sorted_wrt_append)
    moreover have "cmp x k < 0" using assms(2) cmp_sym [of x k] by linarith
    ultimately have "cmp u k < 0" by (rule cmp_less_trans)
    then show "\<not> cmp k u < 1" using cmp_sym [of u k] by linarith
  qed
qed (rule assms(2))

end

text \<open>The compare function of a tree on keys that are not NULL.\<close>

abbreviation tcmp :: "('k, 'a) avl_tree \<Rightarrow> 'k \<Rightarrow> 'k \<Rightarrow> int" where
  "tcmp ob x y \<equiv> compare_fun ob (compare_arg ob) (Some x) (Some y)"

text \<open>\<open>avl_at h ob t\<close>: the heap holds the tree \<open>t\<close> under the sentinel of \<open>ob\<close>.\<close>

definition avl_at :: "'k heap \<Rightarrow> addr \<Rightarrow> 'k ptree \<Rightarrow> bool" where
  "avl_at h rt t \<longleftrightarrow> rt \<noteq> NULL \<and> rt \<notin> set (addrs t) \<and> NULL \<notin> set (addrs t) \<and> distinct (addrs t) \<and>
     rep_ctx h rt [] (root_of t) \<and> rep h rt t"

definition avl_wf :: "('k, 'a) avl_tree \<Rightarrow> 'k ptree \<Rightarrow> bool" where
  "avl_wf ob t \<longleftrightarrow> balanced t \<and> ranked t \<and> key_sorted (tcmp ob) (keys t) \<and>
     unat (len ob) = length (keys t) \<and> length (keys t) < 2 ^ 30"

text \<open>The abstract value of a tree object: the list of its keys in order.\<close>

definition avl_repr :: "'k heap \<Rightarrow> ('k, 'a) avl_tree \<Rightarrow> 'k list \<Rightarrow> bool" where
  "avl_repr h ob xs \<longleftrightarrow> (\<exists>t. avl_at h (root ob) t \<and> avl_wf ob t \<and> keys t = xs)"

lemma avl_at_fill:
  "avl_at h rt (fill C t) \<longleftrightarrow> rt \<noteq> NULL \<and> rt \<notin> caddrs C \<union> set (addrs t) \<and>
     NULL \<notin> caddrs C \<union> set (addrs t) \<and> distinct (map fst (before C @ nodes t @ after C)) \<and>
     rep_ctx h rt C (root_of t) \<and> rep h (cpar rt C) t"
  unfolding avl_at_def set_addrs_fill using rep_fill [of h rt C t]
  by (auto simp: addrs_def nodes_fill simp del: rep_ctx.simps)

section \<open>Hanging a subtree into its context\<close>

definition ctx_ok :: "addr \<Rightarrow> 'k ctx \<Rightarrow> addr set \<Rightarrow> bool" where
  "ctx_ok rt C A \<longleftrightarrow> rt \<noteq> NULL \<and> rt \<notin> caddrs C \<and> rt \<notin> A \<and> NULL \<notin> caddrs C \<and> NULL \<notin> A \<and>
     caddrs C \<inter> A = {} \<and> distinct (map fst (before C @ after C))"

lemma avl_at_split:
  "avl_at h rt (fill C t) \<longleftrightarrow> ctx_ok rt C (set (addrs t)) \<and> distinct (addrs t) \<and>
     rep_ctx h rt C (root_of t) \<and> rep h (cpar rt C) t"
  unfolding avl_at_fill ctx_ok_def caddrs_def addrs_def by auto

lemma rep_ctx_hole_upd:
  assumes "rep_ctx h rt C s" "ctx_ok rt C A" "s \<noteq> NULL" "s \<in> A"
  obtains n where "h (cpar rt C) = Some n"
    and "right n = s \<Longrightarrow> rep_ctx (h(cpar rt C \<mapsto> n\<lparr>right := p\<rparr>)) rt C p"
    and "right n \<noteq> s \<Longrightarrow> rep_ctx (h(cpar rt C \<mapsto> n\<lparr>left := p\<rparr>)) rt C p"
    and "left n = s \<Longrightarrow> rep_ctx (h(cpar rt C \<mapsto> n\<lparr>left := p\<rparr>)) rt C p"
    and "left n \<noteq> s \<Longrightarrow> rep_ctx (h(cpar rt C \<mapsto> n\<lparr>right := p\<rparr>)) rt C p"
proof (cases C)
  case Nil
  with assms show ?thesis by (auto intro!: that)
next
  case (Cons f D)
  show ?thesis
  proof (cases f)
    case (LFrame a x w r)
    have "root_of r \<noteq> s" using assms Cons LFrame by (cases r) (auto simp: ctx_ok_def)
    then show ?thesis
      using assms Cons LFrame by (auto intro!: that simp: ctx_ok_def addrs_def caddrs_def)
  next
    case (RFrame l a x w)
    have "root_of l \<noteq> s" using assms Cons RFrame by (cases l) (auto simp: ctx_ok_def)
    then show ?thesis
      using assms Cons RFrame by (auto intro!: that simp: ctx_ok_def addrs_def caddrs_def)
  qed
qed

lemma cpar_notin: "ctx_ok rt C A \<Longrightarrow> cpar rt C \<notin> A \<and> cpar rt C \<noteq> NULL"
  by (cases "(rt, C)" rule: cpar.cases) (auto simp: ctx_ok_def)

lemma balanced_fill_sub: "balanced (fill C t) \<Longrightarrow> balanced t"
proof (induction C arbitrary: t)
  case (Cons f C)
  then show ?case by (cases f) fastforce+
qed simp

lemma ranked_fill_sub: "ranked (fill C t) \<Longrightarrow> ranked t"
proof (induction C arbitrary: t)
  case (Cons f C)
  then show ?case by (cases f) fastforce+
qed simp

section \<open>A concrete tree\<close>

text \<open>Three integer keys under a sentinel at address 1; the witnesses of the development use it.\<close>

definition ex_cmp :: "unit \<Rightarrow> int option \<Rightarrow> int option \<Rightarrow> int" where
  "ex_cmp u x y = (case (x, y) of (Some a, Some b) \<Rightarrow> a - b | _ \<Rightarrow> 0)"

definition ex_ob :: "(int, unit) avl_tree" where
  "ex_ob = \<lparr>root = 1, height = 0, len = 3, compare_fun = ex_cmp, compare_arg = ()\<rparr>"

definition ex_heap :: "int heap" where
  "ex_heap =
     [1 \<mapsto> \<lparr>key = None, left = 0, right = 3, parent = 0, rank_and_balance = 5\<rparr>,
      2 \<mapsto> \<lparr>key = Some 10, left = 0, right = 0, parent = 3, rank_and_balance = 5\<rparr>,
      3 \<mapsto> \<lparr>key = Some 20, left = 2, right = 4, parent = 1, rank_and_balance = 9\<rparr>,
      4 \<mapsto> \<lparr>key = Some 30, left = 0, right = 0, parent = 3, rank_and_balance = 5\<rparr>]"

definition ex_tree :: "int ptree" where
  "ex_tree = Node (Node Leaf 2 10 5 Leaf) 3 20 9 (Node Leaf 4 30 5 Leaf)"

lemma ex_words [simp]: "bal 5 = 0" "bal 9 = 0" "rk 5 = 1" "rk 9 = 2"
  by (simp_all add: AVL_GET_BALANCE_def rk_def AVL_GET_RANK_def)

lemma ex_order: "key_order (tcmp ex_ob)"
  by unfold_locales (auto simp: ex_ob_def ex_cmp_def)

lemma ex_at: "avl_at ex_heap (root ex_ob) ex_tree"
  by (simp add: avl_at_def ex_heap_def ex_ob_def ex_tree_def)

lemma ex_wf: "avl_wf ex_ob ex_tree"
  by (simp add: avl_wf_def ex_tree_def ex_ob_def ex_cmp_def)

lemma ex_repr: "avl_repr ex_heap ex_ob [10, 20, 30]"
  unfolding avl_repr_def using ex_at ex_wf by (intro exI [of _ ex_tree]) (simp add: ex_tree_def)

end
