(* ===== verification/Avl_Insert.thy ===== *)
theory Avl_Insert
  imports Avl_Tree
begin

text \<open>
  Correctness of \<open>avl_insert\<close>: each phase of the code (search, adjusting loop, rotations) is related to
  a function on trees, and the composition keeps the invariant and inserts the key.
\<close>

section \<open>The phases as functions on trees\<close>

text \<open>After the search: the new leaf is attached and ranks are counted up.\<close>

fun bst_ins :: "('k \<Rightarrow> 'k \<Rightarrow> int) \<Rightarrow> addr \<Rightarrow> 'k \<Rightarrow> 'k ptree \<Rightarrow> 'k ptree" where
  "bst_ins cmp m k Leaf = Node Leaf m k new_word Leaf"
| "bst_ins cmp m k (Node l a x w r) =
     (if cmp k x < 1 then Node (bst_ins cmp m k l) a x (AVL_SET_RANK w (AVL_GET_RANK w + 1)) r
      else Node l a x w (bst_ins cmp m k r))"

text \<open>After the adjusting loop: every node on the path leans towards the new leaf.\<close>

fun grow :: "('k \<Rightarrow> 'k \<Rightarrow> int) \<Rightarrow> addr \<Rightarrow> 'k \<Rightarrow> 'k ptree \<Rightarrow> 'k ptree" where
  "grow cmp m k Leaf = Node Leaf m k new_word Leaf"
| "grow cmp m k (Node l a x w r) =
     (if cmp k x < 1
      then Node (grow cmp m k l) a x (AVL_SET_BALANCE (AVL_SET_RANK w (AVL_GET_RANK w + 1)) (-1)) r
      else Node l a x (AVL_SET_BALANCE w 1) (grow cmp m k r))"

text \<open>Is there a node with a balance factor other than 0 on the search path?\<close>

fun leans :: "('k \<Rightarrow> 'k \<Rightarrow> int) \<Rightarrow> 'k \<Rightarrow> 'k ptree \<Rightarrow> bool" where
  "leans cmp k Leaf \<longleftrightarrow> False"
| "leans cmp k (Node l a x w r) \<longleftrightarrow> bal w \<noteq> 0 \<or> leans cmp k (if cmp k x < 1 then l else r)"

text \<open>The pair (\<open>t\<close>, \<open>s\<close>) that the search loop ends with.\<close>

fun crit :: "('k \<Rightarrow> 'k \<Rightarrow> int) \<Rightarrow> 'k \<Rightarrow> addr \<Rightarrow> addr \<Rightarrow> 'k ptree \<Rightarrow> addr \<times> addr" where
  "crit cmp k t s Leaf = (t, s)"
| "crit cmp k t s (Node l a x w r) =
     (if cmp k x < 1
      then crit cmp k (if root_bal l \<noteq> 0 then a else t) (if root_bal l \<noteq> 0 then root_of l else s) l
      else crit cmp k (if root_bal r \<noteq> 0 then a else t) (if root_bal r \<noteq> 0 then root_of r else s) r)"

text \<open>The same as a context: where the critical subtree hangs.\<close>

fun crit_ctx :: "('k \<Rightarrow> 'k \<Rightarrow> int) \<Rightarrow> 'k \<Rightarrow> 'k ctx \<Rightarrow> 'k ptree \<Rightarrow> 'k ctx \<times> 'k ptree" where
  "crit_ctx cmp k C Leaf = (C, Leaf)"
| "crit_ctx cmp k C (Node l a x w r) =
     (if cmp k x < 1
      then (if leans cmp k l then crit_ctx cmp k (LFrame a x w r # C) l else (C, Node l a x w r))
      else (if leans cmp k r then crit_ctx cmp k (RFrame l a x w # C) r else (C, Node l a x w r)))"

text \<open>What the search does to the ranks of a context.\<close>

fun bump :: "'k frame \<Rightarrow> 'k frame" where
  "bump (LFrame a x w r) = LFrame a x (AVL_SET_RANK w (AVL_GET_RANK w + 1)) r"
| "bump (RFrame l a x w) = RFrame l a x w"

section \<open>The search loop\<close>

lemma bst_ins_not_Leaf [simp]: "bst_ins cmp m k t \<noteq> Leaf" "Leaf \<noteq> bst_ins cmp m k t"
  by (cases t; simp)+

lemma root_of_bst_ins: "root_of (bst_ins cmp m k t) = (if t = Leaf then m else root_of t)"
  by (cases t) auto

lemma set_addrs_bst_ins [simp]: "set (addrs (bst_ins cmp m k t)) = insert m (set (addrs t))"
  by (induction t) auto

text \<open>One round of the loop: at a leaf position the new node is attached, otherwise the loop goes on in
  the child \<open>q\<close>.\<close>

lemma descend_left:
  assumes "h a = Some \<lparr>key = Some x, left = root_of l, right = rr, parent = par, rank_and_balance = w\<rparr>"
    and "cmpo (Some k) (Some x) < 1" and "rep h a l" and "NULL \<notin> set (addrs l)" and "a \<notin> set (addrs l)"
  defines "h1 \<equiv> h(a \<mapsto> \<lparr>key = Some x, left = root_of l, right = rr, parent = par,
                          rank_and_balance = AVL_SET_RANK w (AVL_GET_RANK w + 1)\<rparr>)"
  shows "l \<noteq> Leaf \<Longrightarrow> avl_insert_descend cmpo m (Some k) t s a h =
           avl_insert_descend cmpo m (Some k) (if root_bal l \<noteq> 0 then a else t)
             (if root_bal l \<noteq> 0 then root_of l else s) (root_of l) h1"
    and "l = Leaf \<Longrightarrow> m \<noteq> NULL \<Longrightarrow> m \<noteq> a \<Longrightarrow> avl_insert_descend cmpo m (Some k) t s a h =
           Some (h1(m \<mapsto> \<lparr>key = Some k, left = NULL, right = NULL, parent = a, rank_and_balance = new_word\<rparr>,
                    a \<mapsto> \<lparr>key = Some x, left = m, right = rr, parent = par,
                          rank_and_balance = AVL_SET_RANK w (AVL_GET_RANK w + 1)\<rparr>), Some (t, s, m))"
proof -
  assume "l \<noteq> Leaf"
  then show "avl_insert_descend cmpo m (Some k) t s a h =
           avl_insert_descend cmpo m (Some k) (if root_bal l \<noteq> 0 then a else t)
             (if root_bal l \<noteq> 0 then root_of l else s) (root_of l) h1"
    using assms by (cases l; subst avl_insert_descend.simps) (auto simp: mem_simps)
next
  assume "l = Leaf" "m \<noteq> NULL" "m \<noteq> a"
  then show "avl_insert_descend cmpo m (Some k) t s a h =
           Some (h1(m \<mapsto> \<lparr>key = Some k, left = NULL, right = NULL, parent = a, rank_and_balance = new_word\<rparr>,
                    a \<mapsto> \<lparr>key = Some x, left = m, right = rr, parent = par,
                          rank_and_balance = AVL_SET_RANK w (AVL_GET_RANK w + 1)\<rparr>), Some (t, s, m))"
    using assms by (subst avl_insert_descend.simps)
      (simp add: mem_simps avl_node_new_def new_word_def fun_upd_twist)
qed

lemma descend_right:
  assumes "h a = Some \<lparr>key = Some x, left = ll, right = root_of r, parent = par, rank_and_balance = w\<rparr>"
    and "\<not> cmpo (Some k) (Some x) < 1" and "rep h a r" and "NULL \<notin> set (addrs r)"
  shows "r \<noteq> Leaf \<Longrightarrow> avl_insert_descend cmpo m (Some k) t s a h =
           avl_insert_descend cmpo m (Some k) (if root_bal r \<noteq> 0 then a else t)
             (if root_bal r \<noteq> 0 then root_of r else s) (root_of r) h"
    and "r = Leaf \<Longrightarrow> m \<noteq> NULL \<Longrightarrow> m \<noteq> a \<Longrightarrow> avl_insert_descend cmpo m (Some k) t s a h =
           Some (h(m \<mapsto> \<lparr>key = Some k, left = NULL, right = NULL, parent = a, rank_and_balance = new_word\<rparr>,
                   a \<mapsto> \<lparr>key = Some x, left = ll, right = m, parent = par, rank_and_balance = w\<rparr>),
                 Some (t, s, m))"
proof -
  assume "r \<noteq> Leaf"
  then show "avl_insert_descend cmpo m (Some k) t s a h =
           avl_insert_descend cmpo m (Some k) (if root_bal r \<noteq> 0 then a else t)
             (if root_bal r \<noteq> 0 then root_of r else s) (root_of r) h"
    using assms by (cases r; subst avl_insert_descend.simps) (auto simp: mem_simps)
next
  assume "r = Leaf" "m \<noteq> NULL" "m \<noteq> a"
  then show "avl_insert_descend cmpo m (Some k) t s a h =
           Some (h(m \<mapsto> \<lparr>key = Some k, left = NULL, right = NULL, parent = a, rank_and_balance = new_word\<rparr>,
                   a \<mapsto> \<lparr>key = Some x, left = ll, right = m, parent = par, rank_and_balance = w\<rparr>),
                 Some (t, s, m))"
    using assms by (subst avl_insert_descend.simps)
      (simp add: mem_simps avl_node_new_def new_word_def fun_upd_twist)
qed

lemma descend_rep:
  fixes cmpo :: "'k option \<Rightarrow> 'k option \<Rightarrow> int"
  defines "cmp \<equiv> \<lambda>x y. cmpo (Some x) (Some y)"
  assumes "rep h par t" "t \<noteq> Leaf" "distinct (addrs t)" "NULL \<notin> set (addrs t)"
    "m \<noteq> NULL" "m \<notin> set (addrs t)"
  shows "\<exists>h'. avl_insert_descend cmpo m (Some k) tt ss (root_of t) h =
      Some (h', Some (fst (crit cmp k tt ss t), snd (crit cmp k tt ss t), m)) \<and>
    rep h' par (bst_ins cmp m k t) \<and> (\<forall>a. a \<notin> insert m (set (addrs t)) \<longrightarrow> h' a = h a)"
  using assms(2-)
proof (induction t arbitrary: h par tt ss)
  case Leaf
  then show ?case by simp
next
  case (Node l a x w r)
  have a: "h a = Some \<lparr>key = Some x, left = root_of l, right = root_of r, parent = par, rank_and_balance = w\<rparr>"
    and l: "rep h a l" and r: "rep h a r"
    using Node.prems by auto
  show ?case
  proof (cases "cmp k x < 1")
    case True
    then have c: "cmpo (Some k) (Some x) < 1" by (simp add: cmp_def)
    define h1 where "h1 = h(a \<mapsto> \<lparr>key = Some x, left = root_of l, right = root_of r, parent = par,
                        rank_and_balance = AVL_SET_RANK w (AVL_GET_RANK w + 1)\<rparr>)"
    have dl: "NULL \<notin> set (addrs l)" "a \<notin> set (addrs l)" using Node.prems by auto
    show ?thesis
    proof (cases "l = Leaf")
      case True
      show ?thesis
        using Node.prems r \<open>cmp k x < 1\<close> True
        by (simp add: descend_left(2) [where l = l and cmpo = cmpo and k = k and t = tt, OF a c l dl])
    next
      case False
      have l': "rep h1 a l" using l dl by (simp add: h1_def)
      have IH: "\<exists>h'. avl_insert_descend cmpo m (Some k) tt' ss' (root_of l) h1 =
          Some (h', Some (fst (crit cmp k tt' ss' l), snd (crit cmp k tt' ss' l), m)) \<and>
        rep h' a (bst_ins cmp m k l) \<and> (\<forall>b. b \<notin> insert m (set (addrs l)) \<longrightarrow> h' b = h1 b)"
        for tt' ss'
        using Node.IH(1) [of h1 a tt' ss'] l' False Node.prems by simp
      have up: "rep h' par (bst_ins cmp m k (Node l a x w r)) \<and>
          (\<forall>b. b \<notin> insert m (set (addrs (Node l a x w r))) \<longrightarrow> h' b = h b)"
        if "rep h' a (bst_ins cmp m k l)" "\<forall>b. b \<notin> insert m (set (addrs l)) \<longrightarrow> h' b = h1 b" for h'
      proof -
        have "rep h' a r = rep h a r"
          by (rule rep_cong) (use that(2) Node.prems in \<open>auto simp: h1_def\<close>)
        then show ?thesis
          using that True False Node.prems r by (auto simp: root_of_bst_ins h1_def)
      qed
      define tt' ss' where "tt' = (if root_bal l \<noteq> 0 then a else tt)"
        and "ss' = (if root_bal l \<noteq> 0 then root_of l else ss)"
      have run: "avl_insert_descend cmpo m (Some k) tt ss a h =
          avl_insert_descend cmpo m (Some k) tt' ss' (root_of l) h1"
        unfolding h1_def tt'_def ss'_def by (rule descend_left(1) [where h = h and a = a and l = l and cmpo = cmpo and k = k, OF a c l dl False])
      have cr: "crit cmp k tt ss (Node l a x w r) = crit cmp k tt' ss' l"
        using True by (simp add: tt'_def ss'_def)
      obtain h' where h': "avl_insert_descend cmpo m (Some k) tt' ss' (root_of l) h1 =
          Some (h', Some (fst (crit cmp k tt' ss' l), snd (crit cmp k tt' ss' l), m))"
        "rep h' a (bst_ins cmp m k l)" "\<forall>b. b \<notin> insert m (set (addrs l)) \<longrightarrow> h' b = h1 b"
        using IH by blast
      show ?thesis
        unfolding root_of.simps run cr h'(1) using up [OF h'(2,3)] by blast
    qed
  next
    case False
    then have c: "\<not> cmpo (Some k) (Some x) < 1" by (simp add: cmp_def)
    have dr: "NULL \<notin> set (addrs r)" using Node.prems by auto
    show ?thesis
    proof (cases "r = Leaf")
      case True
      show ?thesis
        using Node.prems l \<open>\<not> cmp k x < 1\<close> True
        by (simp add: descend_right(2) [where r = r and cmpo = cmpo and k = k and t = tt, OF a c r dr])
    next
      case r_Node: False
      have IH: "\<exists>h'. avl_insert_descend cmpo m (Some k) tt' ss' (root_of r) h =
          Some (h', Some (fst (crit cmp k tt' ss' r), snd (crit cmp k tt' ss' r), m)) \<and>
        rep h' a (bst_ins cmp m k r) \<and> (\<forall>b. b \<notin> insert m (set (addrs r)) \<longrightarrow> h' b = h b)"
        for tt' ss'
        by (rule Node.IH(2)) (use r r_Node Node.prems in auto)
      have up: "rep h' par (bst_ins cmp m k (Node l a x w r)) \<and>
          (\<forall>b. b \<notin> insert m (set (addrs (Node l a x w r))) \<longrightarrow> h' b = h b)"
        if "rep h' a (bst_ins cmp m k r)" "\<forall>b. b \<notin> insert m (set (addrs r)) \<longrightarrow> h' b = h b" for h'
      proof -
        have "rep h' a l = rep h a l"
          by (rule rep_cong) (use that(2) Node.prems in auto)
        then show ?thesis
          using that False r_Node Node.prems l by (auto simp: root_of_bst_ins)
      qed
      define tt' ss' where "tt' = (if root_bal r \<noteq> 0 then a else tt)"
        and "ss' = (if root_bal r \<noteq> 0 then root_of r else ss)"
      have run: "avl_insert_descend cmpo m (Some k) tt ss a h =
          avl_insert_descend cmpo m (Some k) tt' ss' (root_of r) h"
        unfolding tt'_def ss'_def by (rule descend_right(1) [where h = h and a = a and r = r and cmpo = cmpo and k = k, OF a c r dr r_Node])
      have cr: "crit cmp k tt ss (Node l a x w r) = crit cmp k tt' ss' r"
        using False by (simp add: tt'_def ss'_def)
      obtain h' where h': "avl_insert_descend cmpo m (Some k) tt' ss' (root_of r) h =
          Some (h', Some (fst (crit cmp k tt' ss' r), snd (crit cmp k tt' ss' r), m))"
        "rep h' a (bst_ins cmp m k r)" "\<forall>b. b \<notin> insert m (set (addrs r)) \<longrightarrow> h' b = h b"
        using IH by blast
      show ?thesis
        unfolding root_of.simps run cr h'(1) using up [OF h'(2,3)] by blast
    qed
  qed
qed


section \<open>The critical node\<close>

fun leans_below :: "('k \<Rightarrow> 'k \<Rightarrow> int) \<Rightarrow> 'k \<Rightarrow> 'k ptree \<Rightarrow> bool" where
  "leans_below cmp k Leaf \<longleftrightarrow> False"
| "leans_below cmp k (Node l a x w r) \<longleftrightarrow> leans cmp k (if cmp k x < 1 then l else r)"

lemma leans_iff: "leans cmp k t \<longleftrightarrow> root_bal t \<noteq> 0 \<or> leans_below cmp k t"
  by (cases t) auto

lemma crit_ctx_below: "\<not> leans_below cmp k t \<Longrightarrow> crit_ctx cmp k C t = (C, t)"
  by (cases t) auto

lemma crit_eq:
  "crit cmp k tt ss t =
     (if leans_below cmp k t then (cpar rt (fst (crit_ctx cmp k C t)), root_of (snd (crit_ctx cmp k C t)))
      else (tt, ss))"
proof (induction t arbitrary: tt ss C)
  case Leaf
  then show ?case by simp
next
  case (Node l a x w r)
  let ?L = "LFrame a x w r # C" and ?R = "RFrame l a x w # C"
  show ?case
    using Node.IH(1) [of a "root_of l" ?L] Node.IH(1) [of tt ss ?L]
      Node.IH(2) [of a "root_of r" ?R] Node.IH(2) [of tt ss ?R]
      crit_ctx_below [of cmp k l ?L] crit_ctx_below [of cmp k r ?R]
    by (auto simp: leans_iff)
qed

lemma crit_ctx_split:
  "\<exists>D S. crit_ctx cmp k C t = (D @ C, S) \<and> fill D S = t \<and> \<not> leans_below cmp k S \<and>
     bst_ins cmp m k t = fill (map bump D) (bst_ins cmp m k S) \<and>
     (D = [] \<or> root_bal S \<noteq> 0) \<and> (t \<noteq> Leaf \<longrightarrow> S \<noteq> Leaf)"
proof (induction t arbitrary: C)
  case Leaf
  then show ?case by simp
next
  case (Node l a x w r)
  have fill_snoc: "fill (D @ [f]) t = plug f (fill D t)" for D :: "'a ctx" and f t
    by (induction D arbitrary: t) auto
  show ?case
  proof (cases "leans_below cmp k (Node l a x w r)")
    case False
    then show ?thesis by (auto simp: crit_ctx_below)
  next
    case True
    show ?thesis
    proof (cases "cmp k x < 1")
      case left: True
      with True have l: "leans cmp k l" by simp
      from Node.IH(1) [of "LFrame a x w r # C"] obtain D S where
        *: "crit_ctx cmp k (LFrame a x w r # C) l = (D @ LFrame a x w r # C, S)" "fill D S = l"
          "\<not> leans_below cmp k S" "bst_ins cmp m k l = fill (map bump D) (bst_ins cmp m k S)"
          "D = [] \<or> root_bal S \<noteq> 0" "l \<noteq> Leaf \<longrightarrow> S \<noteq> Leaf"
        by blast
      have "root_bal S \<noteq> 0" using * l by (auto simp: leans_iff)
      with * left l show ?thesis
        by (intro exI [of _ "D @ [LFrame a x w r]"] exI [of _ S]) (auto simp: fill_snoc)
    next
      case right: False
      with True have r: "leans cmp k r" by simp
      from Node.IH(2) [of "RFrame l a x w # C"] obtain D S where
        *: "crit_ctx cmp k (RFrame l a x w # C) r = (D @ RFrame l a x w # C, S)" "fill D S = r"
          "\<not> leans_below cmp k S" "bst_ins cmp m k r = fill (map bump D) (bst_ins cmp m k S)"
          "D = [] \<or> root_bal S \<noteq> 0" "r \<noteq> Leaf \<longrightarrow> S \<noteq> Leaf"
        by blast
      have "root_bal S \<noteq> 0" using * r by (auto simp: leans_iff)
      with * right r show ?thesis
        by (intro exI [of _ "D @ [RFrame l a x w]"] exI [of _ S]) (auto simp: fill_snoc)
    qed
  qed
qed

section \<open>The adjusting loop\<close>

lemma root_of_grow: "root_of (grow cmp m k t) = (if t = Leaf then m else root_of t)"
  by (cases t) auto

lemma set_addrs_grow [simp]: "set (addrs (grow cmp m k t)) = insert m (set (addrs t))"
  by (induction t) auto

lemma adjust_rep:
  fixes cmpo :: "'k option \<Rightarrow> 'k option \<Rightarrow> int"
  defines "cmp \<equiv> \<lambda>x y. cmpo (Some x) (Some y)"
  assumes "rep h par (bst_ins cmp m k t)" "distinct (addrs t)" "m \<notin> set (addrs t)"
  shows "\<exists>h'. avl_insert_adjust cmpo (Some k) m (root_of (bst_ins cmp m k t)) h = Some h' \<and>
    rep h' par (grow cmp m k t) \<and> (\<forall>a. a \<notin> set (addrs t) \<longrightarrow> h' a = h a)"
  using assms(2-)
proof (induction t arbitrary: h par)
  case Leaf
  then show ?case by (subst avl_insert_adjust.simps) simp
next
  case (Node l a x w r)
  show ?case
  proof (cases "cmp k x < 1")
    case True
    let ?w = "AVL_SET_RANK w (AVL_GET_RANK w + 1)"
    define h1 where "h1 = h(a \<mapsto> \<lparr>key = Some x, left = root_of (bst_ins cmp m k l), right = root_of r, parent = par,
                       rank_and_balance = AVL_SET_BALANCE ?w (-1)\<rparr>)"
    have p: "rep h1 a (bst_ins cmp m k l)"
      using True Node.prems by (simp add: h1_def)
    have "\<exists>h'. avl_insert_adjust cmpo (Some k) m (root_of (bst_ins cmp m k l)) h1 = Some h' \<and>
        rep h' a (grow cmp m k l) \<and> (\<forall>b. b \<notin> set (addrs l) \<longrightarrow> h' b = h1 b)"
      using Node.IH(1) [OF p] Node.prems by simp
    then obtain h' where h': "avl_insert_adjust cmpo (Some k) m (root_of (bst_ins cmp m k l)) h1 = Some h'"
      "rep h' a (grow cmp m k l)" "\<forall>b. b \<notin> set (addrs l) \<longrightarrow> h' b = h1 b"
      by blast
    have "rep h' a r = rep h a r"
      by (rule rep_cong) (use h'(3) Node.prems in \<open>auto simp: h1_def\<close>)
    moreover have "avl_insert_adjust cmpo (Some k) m a h = Some h'"
      using True Node.prems h'(1) by (subst avl_insert_adjust.simps) (auto simp: mem_simps cmp_def h1_def)
    ultimately show ?thesis
      using True Node.prems h' by (intro exI [of _ h']) (auto simp: root_of_grow root_of_bst_ins h1_def)
  next
    case False
    define h1 where "h1 = h(a \<mapsto> \<lparr>key = Some x, left = root_of l, right = root_of (bst_ins cmp m k r), parent = par,
                       rank_and_balance = AVL_SET_BALANCE w 1\<rparr>)"
    have p: "rep h1 a (bst_ins cmp m k r)"
      using False Node.prems by (simp add: h1_def)
    have "\<exists>h'. avl_insert_adjust cmpo (Some k) m (root_of (bst_ins cmp m k r)) h1 = Some h' \<and>
        rep h' a (grow cmp m k r) \<and> (\<forall>b. b \<notin> set (addrs r) \<longrightarrow> h' b = h1 b)"
      using Node.IH(2) [OF p] Node.prems by simp
    then obtain h' where h': "avl_insert_adjust cmpo (Some k) m (root_of (bst_ins cmp m k r)) h1 = Some h'"
      "rep h' a (grow cmp m k r)" "\<forall>b. b \<notin> set (addrs r) \<longrightarrow> h' b = h1 b"
      by blast
    have "rep h' a l = rep h a l"
      by (rule rep_cong) (use h'(3) Node.prems in \<open>auto simp: h1_def\<close>)
    moreover have "avl_insert_adjust cmpo (Some k) m a h = Some h'"
      using False Node.prems h'(1) by (subst avl_insert_adjust.simps) (auto simp: mem_simps cmp_def h1_def)
    ultimately show ?thesis
      using False Node.prems h' by (intro exI [of _ h']) (auto simp: root_of_grow root_of_bst_ins h1_def)
  qed
qed


section \<open>Rotations\<close>

text \<open>The subtree at \<open>s\<close> after the rotation that the code performs when \<open>a = -1\<close> and \<open>s\<close> leans left.\<close>

fun rot_ins_left :: "'k ptree \<Rightarrow> addr \<Rightarrow> 'k \<Rightarrow> uint \<Rightarrow> 'k ptree \<Rightarrow> 'k ptree" where
  "rot_ins_left Leaf s x w r = Leaf"
| "rot_ins_left (Node A ra rx rw B) s x w r =
     (if bal rw = -1 then
        Node A ra rx (AVL_SET_BALANCE rw 0)
          (Node B s x (AVL_SET_BALANCE (AVL_SET_RANK w (AVL_GET_RANK w - AVL_GET_RANK rw)) 0) r)
      else (case B of Leaf \<Rightarrow> Leaf
        | Node B1 p px pw B2 \<Rightarrow>
            (let pw' = AVL_SET_RANK pw (AVL_GET_RANK pw + AVL_GET_RANK rw);
                 w' = AVL_SET_RANK w (AVL_GET_RANK w - AVL_GET_RANK pw')
             in Node (Node A ra rx (AVL_SET_BALANCE rw (if bal pw = 1 then -1 else 0)) B1)
                  p px (AVL_SET_BALANCE pw' 0)
                  (Node B2 s x (AVL_SET_BALANCE w' (if bal pw = -1 then 1 else 0)) r))))"

fun rot_ins_right :: "'k ptree \<Rightarrow> addr \<Rightarrow> 'k \<Rightarrow> uint \<Rightarrow> 'k ptree \<Rightarrow> 'k ptree" where
  "rot_ins_right l s x w Leaf = Leaf"
| "rot_ins_right l s x w (Node A ra rx rw B) =
     (if bal rw = 1 then
        Node (Node l s x (AVL_SET_BALANCE w 0) A) ra rx
          (AVL_SET_BALANCE (AVL_SET_RANK rw (AVL_GET_RANK rw + AVL_GET_RANK w)) 0) B
      else (case A of Leaf \<Rightarrow> Leaf
        | Node A1 p px pw A2 \<Rightarrow>
            (let rw' = AVL_SET_RANK rw (AVL_GET_RANK rw - AVL_GET_RANK pw);
                 pw' = AVL_SET_RANK pw (AVL_GET_RANK pw + AVL_GET_RANK w)
             in Node (Node l s x (AVL_SET_BALANCE w (if bal pw = 1 then -1 else 0)) A1)
                  p px (AVL_SET_BALANCE pw' 0)
                  (Node A2 ra rx (AVL_SET_BALANCE rw' (if bal pw = -1 then 1 else 0)) B))))"

lemma insert_single_left:
  assumes "rep h par (Node (Node A ra rx rw B) s x w r)" "distinct (addrs (Node (Node A ra rx rw B) s x w r))"
    "NULL \<notin> set (addrs (Node (Node A ra rx rw B) s x w r))" "bal rw = -1"
  shows "\<exists>h'. avl_insert_single (-1) s ra h = Some h' \<and>
    rep h' s (rot_ins_left (Node A ra rx rw B) s x w r) \<and>
    (\<forall>b. b \<notin> set (addrs (Node (Node A ra rx rw B) s x w r)) \<longrightarrow> h' b = h b)"
  using assms by (cases B) (auto simp: avl_insert_single_def set_parent_if_def mem_simps)

lemma insert_single_right:
  assumes "rep h par (Node l s x w (Node A ra rx rw B))" "distinct (addrs (Node l s x w (Node A ra rx rw B)))"
    "NULL \<notin> set (addrs (Node l s x w (Node A ra rx rw B)))" "bal rw = 1"
  shows "\<exists>h'. avl_insert_single 1 s ra h = Some h' \<and>
    rep h' s (rot_ins_right l s x w (Node A ra rx rw B)) \<and>
    (\<forall>b. b \<notin> set (addrs (Node l s x w (Node A ra rx rw B))) \<longrightarrow> h' b = h b)"
  using assms by (cases A) (auto simp: avl_insert_single_def set_parent_if_def mem_simps)


lemma insert_double_left_eval:
  assumes hs: "h s = Some \<lparr>key = sk, left = ra, right = sr, parent = par, rank_and_balance = w\<rparr>"
    and hr: "h ra = Some \<lparr>key = rkk, left = rl, right = p, parent = s, rank_and_balance = rw\<rparr>"
    and hp: "h p = Some \<lparr>key = pk, left = c1, right = c2, parent = ra, rank_and_balance = pw\<rparr>"
    and d: "s \<noteq> ra" "s \<noteq> p" "ra \<noteq> p"
    and c: "c1 \<noteq> s" "c1 \<noteq> ra" "c1 \<noteq> p" "c2 \<noteq> s" "c2 \<noteq> ra" "c2 \<noteq> p"
    and dom: "c1 = NULL \<or> c1 \<in> dom h" "c2 = NULL \<or> c2 \<in> dom h"
  shows "avl_insert_double (-1) s ra h = Some (p,
    let pw' = AVL_SET_RANK pw (AVL_GET_RANK pw + AVL_GET_RANK rw);
        w' = AVL_SET_RANK w (AVL_GET_RANK w - AVL_GET_RANK pw')
    in (reparent (reparent h c1 ra) c2 s)
      (s \<mapsto> \<lparr>key = sk, left = c2, right = sr, parent = p,
             rank_and_balance = AVL_SET_BALANCE w' (if bal pw = -1 then 1 else 0)\<rparr>,
       ra \<mapsto> \<lparr>key = rkk, left = rl, right = c1, parent = p,
              rank_and_balance = AVL_SET_BALANCE rw (if bal pw = 1 then -1 else 0)\<rparr>,
       p \<mapsto> \<lparr>key = pk, left = ra, right = s, parent = ra, rank_and_balance = AVL_SET_BALANCE pw' 0\<rparr>))"
  unfolding avl_insert_double_def
  by (simp add: mem_eval reparent_upd hs hr hp dom d c d [symmetric] c [symmetric] Let_def cong: bind_weak)

lemma insert_double_right_eval:
  assumes hs: "h s = Some \<lparr>key = sk, left = sl, right = ra, parent = par, rank_and_balance = w\<rparr>"
    and hr: "h ra = Some \<lparr>key = rkk, left = p, right = rr, parent = s, rank_and_balance = rw\<rparr>"
    and hp: "h p = Some \<lparr>key = pk, left = c1, right = c2, parent = ra, rank_and_balance = pw\<rparr>"
    and d: "s \<noteq> ra" "s \<noteq> p" "ra \<noteq> p"
    and c: "c1 \<noteq> s" "c1 \<noteq> ra" "c1 \<noteq> p" "c2 \<noteq> s" "c2 \<noteq> ra" "c2 \<noteq> p"
    and dom: "c1 = NULL \<or> c1 \<in> dom h" "c2 = NULL \<or> c2 \<in> dom h"
  shows "avl_insert_double 1 s ra h = Some (p,
    let rw' = AVL_SET_RANK rw (AVL_GET_RANK rw - AVL_GET_RANK pw);
        pw' = AVL_SET_RANK pw (AVL_GET_RANK pw + AVL_GET_RANK w)
    in (reparent (reparent h c2 ra) c1 s)
      (s \<mapsto> \<lparr>key = sk, left = sl, right = c1, parent = p,
             rank_and_balance = AVL_SET_BALANCE w (if bal pw = 1 then -1 else 0)\<rparr>,
       ra \<mapsto> \<lparr>key = rkk, left = c2, right = rr, parent = p,
              rank_and_balance = AVL_SET_BALANCE rw' (if bal pw = -1 then 1 else 0)\<rparr>,
       p \<mapsto> \<lparr>key = pk, left = s, right = ra, parent = ra, rank_and_balance = AVL_SET_BALANCE pw' 0\<rparr>))"
  unfolding avl_insert_double_def
  by (simp add: mem_eval reparent_upd hs hr hp dom d c d [symmetric] c [symmetric] Let_def cong: bind_weak)

lemma insert_double_left:
  assumes rep: "rep h par (Node (Node A ra rx rw (Node B1 p px pw B2)) s x w r)"
    and dist: "distinct (addrs (Node (Node A ra rx rw (Node B1 p px pw B2)) s x w r))"
    and null: "NULL \<notin> set (addrs (Node (Node A ra rx rw (Node B1 p px pw B2)) s x w r))"
    and "bal rw = 1"
  shows "\<exists>h'. avl_insert_double (-1) s ra h = Some (p, h') \<and>
    rep h' ra (rot_ins_left (Node A ra rx rw (Node B1 p px pw B2)) s x w r) \<and>
    (\<forall>b. b \<notin> set (addrs (Node (Node A ra rx rw (Node B1 p px pw B2)) s x w r)) \<longrightarrow> h' b = h b)"
proof -
  have n: "root_of B1 \<noteq> s" "root_of B1 \<noteq> ra" "root_of B1 \<noteq> p" "root_of B2 \<noteq> s" "root_of B2 \<noteq> ra" "root_of B2 \<noteq> p"
    using dist null by (simp_all add: root_of_neq)
  have n': "root_of B1 \<notin> set (addrs A)" "root_of B1 \<notin> set (addrs r)" "root_of B1 \<notin> set (addrs B2)"
    "root_of B2 \<notin> set (addrs A)" "root_of B2 \<notin> set (addrs r)" "root_of B2 \<notin> set (addrs B1)"
    using dist null by (simp_all add: root_of_notin Int_Un_distrib Int_Un_distrib2 Int_commute)
  have d: "s \<noteq> ra" "s \<noteq> p" "ra \<noteq> p" "distinct (addrs B1)" "distinct (addrs B2)"
    "NULL \<notin> set (addrs B1)" "NULL \<notin> set (addrs B2)"
    "s \<notin> set (addrs A)" "s \<notin> set (addrs r)" "s \<notin> set (addrs B1)" "s \<notin> set (addrs B2)"
    "ra \<notin> set (addrs A)" "ra \<notin> set (addrs r)" "ra \<notin> set (addrs B1)" "ra \<notin> set (addrs B2)"
    "p \<notin> set (addrs A)" "p \<notin> set (addrs r)" "p \<notin> set (addrs B1)" "p \<notin> set (addrs B2)"
    using dist null by auto
  have dom: "root_of B1 = NULL \<or> root_of B1 \<in> dom h" "root_of B2 = NULL \<or> root_of B2 \<in> dom h"
    using rep by (auto dest: root_of_dom)
  have c: "h s = Some \<lparr>key = Some x, left = ra, right = root_of r, parent = par, rank_and_balance = w\<rparr>"
    "h ra = Some \<lparr>key = Some rx, left = root_of A, right = p, parent = s, rank_and_balance = rw\<rparr>"
    "h p = Some \<lparr>key = Some px, left = root_of B1, right = root_of B2, parent = ra, rank_and_balance = pw\<rparr>"
    and s: "rep h ra A" "rep h s r" "rep h p B1" "rep h p B2"
    using rep by auto
  have s': "rep (reparent h (root_of B1) ra) ra B1" "rep (reparent h (root_of B1) ra) p B2"
    using s d n' by (simp_all add: rep_reparent rep_reparent_other)
  show ?thesis
    unfolding insert_double_left_eval [where h = h, OF c d(1-3) n dom]
    using assms(4) by (simp add: Let_def d d(1-3) [symmetric] s s' rep_reparent [OF s'(2)] rep_reparent_other n' reparent_notin)
qed

lemma insert_double_right:
  assumes rep: "rep h par (Node L s x w (Node (Node B1 p px pw B2) ra rx rw B))"
    and dist: "distinct (addrs (Node L s x w (Node (Node B1 p px pw B2) ra rx rw B)))"
    and null: "NULL \<notin> set (addrs (Node L s x w (Node (Node B1 p px pw B2) ra rx rw B)))"
    and "bal rw = -1"
  shows "\<exists>h'. avl_insert_double 1 s ra h = Some (p, h') \<and>
    rep h' ra (rot_ins_right L s x w (Node (Node B1 p px pw B2) ra rx rw B)) \<and>
    (\<forall>b. b \<notin> set (addrs (Node L s x w (Node (Node B1 p px pw B2) ra rx rw B))) \<longrightarrow> h' b = h b)"
proof -
  have n: "root_of B1 \<noteq> s" "root_of B1 \<noteq> ra" "root_of B1 \<noteq> p" "root_of B2 \<noteq> s" "root_of B2 \<noteq> ra" "root_of B2 \<noteq> p"
    using dist null by (simp_all add: root_of_neq)
  have n': "root_of B1 \<notin> set (addrs L)" "root_of B1 \<notin> set (addrs B)" "root_of B1 \<notin> set (addrs B2)"
    "root_of B2 \<notin> set (addrs L)" "root_of B2 \<notin> set (addrs B)" "root_of B2 \<notin> set (addrs B1)"
    using dist null by (simp_all add: root_of_notin Int_Un_distrib Int_Un_distrib2 Int_commute)
  have d: "s \<noteq> ra" "s \<noteq> p" "ra \<noteq> p" "distinct (addrs B1)" "distinct (addrs B2)"
    "NULL \<notin> set (addrs B1)" "NULL \<notin> set (addrs B2)"
    "s \<notin> set (addrs L)" "s \<notin> set (addrs B)" "s \<notin> set (addrs B1)" "s \<notin> set (addrs B2)"
    "ra \<notin> set (addrs L)" "ra \<notin> set (addrs B)" "ra \<notin> set (addrs B1)" "ra \<notin> set (addrs B2)"
    "p \<notin> set (addrs L)" "p \<notin> set (addrs B)" "p \<notin> set (addrs B1)" "p \<notin> set (addrs B2)"
    using dist null by auto
  have dom: "root_of B1 = NULL \<or> root_of B1 \<in> dom h" "root_of B2 = NULL \<or> root_of B2 \<in> dom h"
    using rep by (auto dest: root_of_dom)
  have c: "h s = Some \<lparr>key = Some x, left = root_of L, right = ra, parent = par, rank_and_balance = w\<rparr>"
    "h ra = Some \<lparr>key = Some rx, left = p, right = root_of B, parent = s, rank_and_balance = rw\<rparr>"
    "h p = Some \<lparr>key = Some px, left = root_of B1, right = root_of B2, parent = ra, rank_and_balance = pw\<rparr>"
    and s: "rep h s L" "rep h ra B" "rep h p B1" "rep h p B2"
    using rep by auto
  have s': "rep (reparent h (root_of B2) ra) ra B2" "rep (reparent h (root_of B2) ra) p B1"
    using s d n' by (simp_all add: rep_reparent rep_reparent_other)
  show ?thesis
    unfolding insert_double_right_eval [where h = h, OF c d(1-3) n dom]
    using assms(4) by (simp add: Let_def d d(1-3) [symmetric] s s' rep_reparent [OF s'(2)] rep_reparent_other n' reparent_notin)
qed


section \<open>What happens at the critical node\<close>

text \<open>The left (right) subtree has already grown and the rank has been counted up.\<close>

definition ins_left :: "'k ptree \<Rightarrow> addr \<Rightarrow> 'k \<Rightarrow> uint \<Rightarrow> 'k ptree \<Rightarrow> 'k ptree" where
  "ins_left l s x w r =
     (if bal w = 0 then Node l s x (AVL_SET_BALANCE w (-1)) r
      else if bal w = 1 then Node l s x (AVL_SET_BALANCE w 0) r
      else rot_ins_left l s x w r)"

definition ins_right :: "'k ptree \<Rightarrow> addr \<Rightarrow> 'k \<Rightarrow> uint \<Rightarrow> 'k ptree \<Rightarrow> 'k ptree" where
  "ins_right l s x w r =
     (if bal w = 0 then Node l s x (AVL_SET_BALANCE w 1) r
      else if bal w = -1 then Node l s x (AVL_SET_BALANCE w 0) r
      else rot_ins_right l s x w r)"

text \<open>A subtree that can be rotated: it leans, and is as high as its balance factors say.\<close>

lemma rotatable_left:
  assumes "balanced t" "root_bal t \<noteq> 0"
  obtains A a y v B where "t = Node A a y v B" "bal v = -1" "balanced A" "balanced B" "ht A = Suc (ht B)"
  | A a y v B1 p py pv B2 where "t = Node A a y v (Node B1 p py pv B2)" "bal v = 1" "balanced A"
      "balanced B1" "balanced B2" "bal pv \<in> {-1, 0, 1}" "bal pv = int (ht B2) - int (ht B1)"
      "max (ht B1) (ht B2) = ht A"
proof (cases t)
  case Leaf
  with assms show ?thesis by simp
next
  case (Node A a y v B)
  show ?thesis
  proof (cases "bal v = -1")
    case True
    with assms Node show ?thesis by (auto intro!: that(1))
  next
    case False
    with assms Node show ?thesis by (cases B) (auto intro!: that(2))
  qed
qed

lemma rotatable_right:
  assumes "balanced t" "root_bal t \<noteq> 0"
  obtains A a y v B where "t = Node A a y v B" "bal v = 1" "balanced A" "balanced B" "ht B = Suc (ht A)"
  | A1 p py pv A2 a y v B where "t = Node (Node A1 p py pv A2) a y v B" "bal v = -1" "balanced B"
      "balanced A1" "balanced A2" "bal pv \<in> {-1, 0, 1}" "bal pv = int (ht A2) - int (ht A1)"
      "max (ht A1) (ht A2) = ht B"
proof (cases t)
  case Leaf
  with assms show ?thesis by simp
next
  case (Node A a y v B)
  show ?thesis
  proof (cases "bal v = 1")
    case True
    with assms Node show ?thesis by (auto intro!: that(1))
  next
    case False
    with assms Node show ?thesis by (cases A) (auto intro!: that(2))
  qed
qed

lemma nodes_rot_ins_left:
  assumes "balanced l" "root_bal l \<noteq> 0"
  shows "nodes (rot_ins_left l s x w r) = nodes l @ (s, x) # nodes r"
  by (rule rotatable_left [OF assms(1,2)]) (use assms in \<open>auto simp: Let_def\<close>)

lemma nodes_rot_ins_right:
  assumes "balanced r" "root_bal r \<noteq> 0"
  shows "nodes (rot_ins_right l s x w r) = nodes l @ (s, x) # nodes r"
  by (rule rotatable_right [OF assms(1,2)]) (use assms in \<open>auto simp: Let_def\<close>)

lemma balanced_rot_ins_left:
  assumes "balanced l" "root_bal l \<noteq> 0" "balanced r" "ht l = ht r + 2"
  shows "balanced (rot_ins_left l s x w r) \<and> ht (rot_ins_left l s x w r) = ht l"
  by (rule rotatable_left [OF assms(1,2)]) (use assms in \<open>auto simp: Let_def word_rules max_def\<close>)

lemma balanced_rot_ins_right:
  assumes "balanced r" "root_bal r \<noteq> 0" "balanced l" "ht r = ht l + 2"
  shows "balanced (rot_ins_right l s x w r) \<and> ht (rot_ins_right l s x w r) = ht r"
  by (rule rotatable_right [OF assms(1,2)]) (use assms in \<open>auto simp: Let_def word_rules max_def\<close>)

lemma ranked_rot_ins_left:
  assumes "balanced l" "root_bal l \<noteq> 0" "ranked l" "ranked r" "rk w = length (nodes l) + 1"
    "length (nodes l) + 1 < 2 ^ 30"
  shows "ranked (rot_ins_left l s x w r)"
  by (rule rotatable_left [OF assms(1,2)]) (use assms in \<open>auto simp: Let_def word_rules\<close>)

lemma ranked_rot_ins_right:
  assumes "balanced r" "root_bal r \<noteq> 0" "ranked l" "ranked r" "rk w = length (nodes l) + 1"
    "length (nodes l) + length (nodes r) + 1 < 2 ^ 30"
  shows "ranked (rot_ins_right l s x w r)"
  by (rule rotatable_right [OF assms(1,2)]) (use assms in \<open>auto simp: Let_def word_rules\<close>)

lemma ins_left_props:
  assumes "balanced l" "root_bal l \<noteq> 0 \<or> bal w \<noteq> -1" "balanced r" "bal w \<in> {-1, 0, 1}"
    "bal w = int (ht r) - int h0" "ht l = Suc h0"
  shows "nodes (ins_left l s x w r) = nodes l @ (s, x) # nodes r"
    and "balanced (ins_left l s x w r)"
    and "ht (ins_left l s x w r) = (if bal w = 0 then Suc (Suc h0) else Suc (max h0 (ht r)))"
    and "\<lbrakk>ranked l; ranked r; rk w = length (nodes l) + 1; length (nodes l) + 1 < 2 ^ 30\<rbrakk> \<Longrightarrow>
         ranked (ins_left l s x w r)"
  using assms balanced_rot_ins_left [of l r s x w]
  by (auto simp: ins_left_def word_rules nodes_rot_ins_left ranked_rot_ins_left)

lemma ins_right_props:
  assumes "balanced r" "root_bal r \<noteq> 0 \<or> bal w \<noteq> 1" "balanced l" "bal w \<in> {-1, 0, 1}"
    "bal w = int h0 - int (ht l)" "ht r = Suc h0"
  shows "nodes (ins_right l s x w r) = nodes l @ (s, x) # nodes r"
    and "balanced (ins_right l s x w r)"
    and "ht (ins_right l s x w r) = (if bal w = 0 then Suc (Suc h0) else Suc (max (ht l) h0))"
    and "\<lbrakk>ranked l; ranked r; rk w = length (nodes l) + 1; length (nodes l) + length (nodes r) + 1 < 2 ^ 30\<rbrakk> \<Longrightarrow>
         ranked (ins_right l s x w r)"
  using assms balanced_rot_ins_right [of r l s x w]
  by (auto simp: ins_right_def word_rules nodes_rot_ins_right ranked_rot_ins_right)

text \<open>The subtree below the critical node.\<close>

lemma grow_not_Leaf [simp]: "grow cmp m k t \<noteq> Leaf"
  by (cases t) auto

lemma nodes_grow: "nodes (grow cmp m k t) = nodes (bst_ins cmp m k t)"
  by (induction t) auto

lemma length_nodes_bst_ins: "length (nodes (bst_ins cmp m k t)) = Suc (length (nodes t))"
  by (induction t) auto

lemma root_bal_grow: "t \<noteq> Leaf \<Longrightarrow> root_bal (grow cmp m k t) \<noteq> 0"
  by (cases t) (auto simp: word_rules)

lemma balanced_grow:
  "balanced t \<Longrightarrow> \<not> leans cmp k t \<Longrightarrow> balanced (grow cmp m k t) \<and> ht (grow cmp m k t) = Suc (ht t)"
  by (induction t) (auto simp: word_rules)

lemma ranked_grow:
  "ranked t \<Longrightarrow> length (nodes t) + 1 < 2 ^ 30 \<Longrightarrow> ranked (grow cmp m k t)"
  by (induction t) (auto simp: word_rules nodes_grow length_nodes_bst_ins)

text \<open>The context above the critical node.\<close>

lemma cpar_bump [simp]: "cpar rt (map bump D) = cpar rt D"
  by (induction D rule: before.induct) auto

lemma before_bump [simp]: "before (map bump D) = before D"
  by (induction D rule: before.induct) auto

lemma after_bump [simp]: "after (map bump D) = after D"
  by (induction D rule: after.induct) auto

lemma caddrs_bump [simp]: "caddrs (map bump D) = caddrs D"
  by (simp add: caddrs_def)

lemma balanced_fill_bump:
  "balanced (fill C t) \<Longrightarrow> balanced u \<Longrightarrow> ht u = ht t \<Longrightarrow> balanced (fill (map bump C) u)"
proof (induction C arbitrary: t u)
  case (Cons f C)
  from Cons.prems have "balanced (plug f t)" by (auto intro: balanced_fill_sub)
  with Cons.prems show ?case by (cases f) (auto intro!: Cons.IH)
qed simp

lemma ranked_fill_bump:
  "ranked (fill C t) \<Longrightarrow> ranked u \<Longrightarrow> length (nodes u) = Suc (length (nodes t)) \<Longrightarrow>
   length (nodes (fill C t)) + 1 < 2 ^ 30 \<Longrightarrow> ranked (fill (map bump C) u)"
proof (induction C arbitrary: t u)
  case (Cons f C)
  from Cons.prems have "ranked (plug f t)" by (auto intro: ranked_fill_sub)
  with Cons.prems show ?case by (cases f) (auto intro!: Cons.IH simp: word_rules nodes_fill)
qed simp

text \<open>The keys.\<close>

context key_order
begin

lemma keys_bst_ins:
  "key_sorted cmp (keys t) \<Longrightarrow> keys (bst_ins cmp m k t) = ins_key cmp k (keys t)"
proof (induction t)
  case (Node l a x w r)
  then show ?case
    using ins_key_right_sorted [of "keys l" x "keys r" k] by (auto simp: ins_key_left sorted_wrt_append)
qed simp

end

section \<open>The balancing act\<close>

text \<open>The rotation step, with its choice between the single and the double rotation.\<close>

lemma rotate_left:
  assumes "rep h par (Node l s x w r)" "distinct (addrs (Node l s x w r))" "NULL \<notin> set (addrs (Node l s x w r))"
    "balanced l" "root_bal l \<noteq> 0"
  defines "R \<equiv> rot_ins_left l s x w r"
  shows "\<exists>par' h'. get_balance h (root_of l) = Some (root_bal l) \<and>
      (if root_bal l = -1 then do { h \<leftarrow> avl_insert_single (-1) s (root_of l) h; Some (root_of l, h) }
       else if root_bal l = - (-1) then avl_insert_double (-1) s (root_of l) h else Some (q, h)) = Some (root_of R, h') \<and>
    rep h' par' R \<and> (\<forall>b. b \<notin> set (addrs (Node l s x w r)) \<longrightarrow> h' b = h b)"
proof -
  have gb: "get_balance h (root_of l) = Some (root_bal l)"
    using assms by (cases l) (auto simp: mem_simps)
  show ?thesis
    using assms(4,5)
  proof (cases rule: rotatable_left)
    case (1 A a y v B)
    then show ?thesis
      using insert_single_left [of h par A a y v B s x w r] assms gb by auto
  next
    case (2 A a y v B1 p py pv B2)
    have R: "root_of R = p" using 2 by (simp add: R_def Let_def)
    obtain h' where h': "avl_insert_double (-1) s a h = Some (p, h')" "rep h' a R"
      "\<forall>b. b \<notin> set (addrs (Node l s x w r)) \<longrightarrow> h' b = h b"
      using insert_double_left [OF assms(1-3) [unfolded 2(1)] 2(2)] unfolding R_def 2(1) by blast
    have "root_bal l = 1" "root_of l = a" using 2 by simp_all
    with h' gb R show ?thesis
      by (intro exI [of _ a] exI [of _ h']) simp
  qed
qed

lemma rotate_right:
  assumes "rep h par (Node l s x w r)" "distinct (addrs (Node l s x w r))" "NULL \<notin> set (addrs (Node l s x w r))"
    "balanced r" "root_bal r \<noteq> 0"
  defines "R \<equiv> rot_ins_right l s x w r"
  shows "\<exists>par' h'. get_balance h (root_of r) = Some (root_bal r) \<and>
      (if root_bal r = 1 then do { h \<leftarrow> avl_insert_single 1 s (root_of r) h; Some (root_of r, h) }
       else if root_bal r = - 1 then avl_insert_double 1 s (root_of r) h else Some (q, h)) = Some (root_of R, h') \<and>
    rep h' par' R \<and> (\<forall>b. b \<notin> set (addrs (Node l s x w r)) \<longrightarrow> h' b = h b)"
proof -
  have gb: "get_balance h (root_of r) = Some (root_bal r)"
    using assms by (cases r) (auto simp: mem_simps)
  show ?thesis
    using assms(4,5)
  proof (cases rule: rotatable_right)
    case (1 A a y v B)
    then show ?thesis
      using insert_single_right [of h par l s x w A a y v B] assms gb by auto
  next
    case (2 A1 p py pv A2 a y v B)
    have R: "root_of R = p" using 2 by (simp add: R_def Let_def)
    obtain h' where h': "avl_insert_double 1 s a h = Some (p, h')" "rep h' a R"
      "\<forall>b. b \<notin> set (addrs (Node l s x w r)) \<longrightarrow> h' b = h b"
      using insert_double_right [OF assms(1-3) [unfolded 2(1)] 2(2)] unfolding R_def 2(1) by blast
    have "root_bal r = -1" "root_of r = a" using 2 by simp_all
    with h' gb R show ?thesis
      by (intro exI [of _ a] exI [of _ h']) simp
  qed
qed

text \<open>The finishing touch: the new top of the subtree is hung below \<open>t\<close>.\<close>

lemma hang:
  assumes "rep_ctx h rt C s" "ctx_ok rt C A" "s \<in> A" "rep h par R" "R \<noteq> Leaf" "set (addrs R) \<subseteq> A"
    "distinct (addrs R)"
  shows "\<exists>h'. (do {
      tr \<leftarrow> rd right h (cpar rt C);
      h \<leftarrow> (if s = tr then set_right (cpar rt C) (root_of R) h else set_left (cpar rt C) (root_of R) h);
      h \<leftarrow> set_parent (root_of R) (cpar rt C) h;
      Some (c, ob, h) }) = Some (c, ob, h') \<and> rep_ctx h' rt C (root_of R) \<and> rep h' (cpar rt C) R \<and>
    (\<forall>b. b \<notin> insert (cpar rt C) A \<longrightarrow> h' b = h b)"
proof -
  have s: "s \<noteq> NULL" using assms by (auto simp: ctx_ok_def)
  obtain n where n: "h (cpar rt C) = Some n"
    "right n = s \<Longrightarrow> rep_ctx (h(cpar rt C \<mapsto> n\<lparr>right := root_of R\<rparr>)) rt C (root_of R)"
    "right n \<noteq> s \<Longrightarrow> rep_ctx (h(cpar rt C \<mapsto> n\<lparr>left := root_of R\<rparr>)) rt C (root_of R)"
    by (rule rep_ctx_hole_upd [OF assms(1,2) s assms(3), of "root_of R"]) blast
  have t: "cpar rt C \<notin> A" using assms(2) by (simp add: cpar_notin)
  obtain l a x w r where R: "R = Node l a x w r" using assms(5) by (cases R) auto
  have a: "a \<noteq> rt" "a \<notin> caddrs C" "a \<noteq> cpar rt C" using assms(2,6) t R by (auto simp: ctx_ok_def)
  have u: "cpar rt C \<notin> set (addrs l)" "cpar rt C \<notin> set (addrs r)" using assms(6) t R by auto
  show ?thesis
    using assms n t R a u by (cases "right n = s") (auto simp: mem_simps)
qed

lemma insert_balance_left:
  assumes at: "rep_ctx h rt C s" "ctx_ok rt C (set (addrs (Node l s x w r)))" "distinct (addrs (Node l s x w r))"
      "rep h (cpar rt C) (Node l s x w r)"
    and bal: "balanced l" "root_bal l \<noteq> 0 \<or> bal w \<noteq> -1" "bal w \<in> {-1, 0, 1}"
    and c: "cmpo (Some k) (Some x) < 1"
  defines "R \<equiv> ins_left l s x w r"
  assumes nodes: "nodes R = nodes (Node l s x w r)"
  shows "\<exists>h'. avl_insert_balance cmpo (Some k) ob (cpar rt C) s (root_of l) q h =
      Some (0, if bal w = 0 then ob\<lparr>height := height ob + 1\<rparr> else ob, h') \<and>
    rep_ctx h' rt C (root_of R) \<and> rep h' (cpar rt C) R \<and>
    (\<forall>b. b \<notin> insert (cpar rt C) (set (addrs (Node l s x w r))) \<longrightarrow> h' b = h b)"
proof (cases "bal w = -1")
  case False
  have "s \<noteq> rt" "s \<notin> caddrs C" "s \<notin> set (addrs l)" "s \<notin> set (addrs r)"
    using at by (auto simp: ctx_ok_def)
  with False at(1,4) bal(3) c show ?thesis
    by (auto simp: avl_insert_balance_def mem_simps R_def ins_left_def)
next
  case True
  with bal have lb: "root_bal l \<noteq> 0" by auto
  have null: "NULL \<notin> set (addrs (Node l s x w r))" using at(2) by (simp add: ctx_ok_def)
  have R: "R = rot_ins_left l s x w r" using True by (simp add: R_def ins_left_def)
  obtain par' h1 where rot: "get_balance h (root_of l) = Some (root_bal l)"
    "(if root_bal l = -1 then do { h \<leftarrow> avl_insert_single (-1) s (root_of l) h; Some (root_of l, h) }
      else if root_bal l = - (-1) then avl_insert_double (-1) s (root_of l) h else Some (q, h)) = Some (root_of R, h1)"
    "rep h1 par' R" "\<forall>b. b \<notin> set (addrs (Node l s x w r)) \<longrightarrow> h1 b = h b"
    using rotate_left [OF at(4,3) null bal(1) lb, of q] unfolding R by blast
  have ad: "addrs R = addrs (Node l s x w r)" by (simp only: addrs_def nodes)
  have ctx: "rep_ctx h1 rt C s = rep_ctx h rt C s"
    by (rule rep_ctx_cong) (use rot(4) at(2) in \<open>auto simp: ctx_ok_def\<close>)
  have pre: "s \<in> set (addrs (Node l s x w r))" "R \<noteq> Leaf" "set (addrs R) \<subseteq> set (addrs (Node l s x w r))"
    "distinct (addrs R)"
    using nodes ad at(3) by auto
  obtain h2 where hang: "(do {
      tr \<leftarrow> rd right h1 (cpar rt C);
      h \<leftarrow> (if s = tr then set_right (cpar rt C) (root_of R) h1 else set_left (cpar rt C) (root_of R) h1);
      h \<leftarrow> set_parent (root_of R) (cpar rt C) h;
      Some (0::int, ob, h) }) = Some (0, ob, h2)" "rep_ctx h2 rt C (root_of R)" "rep h2 (cpar rt C) R"
    "\<forall>b. b \<notin> insert (cpar rt C) (set (addrs (Node l s x w r))) \<longrightarrow> h2 b = h1 b"
    using hang [where c = "0::int" and ob = ob, OF ctx [THEN iffD2, OF at(1)] at(2) pre(1) rot(3) pre(2-4)]
    by (elim exE conjE) (rule that)
  have cell: "rd key h s = Some (Some x)" "get_balance h s = Some (-1)"
    using at(4) True by (auto simp: mem_simps)
  have "avl_insert_balance cmpo (Some k) ob (cpar rt C) s (root_of l) q h = Some (0, ob, h2)"
    unfolding avl_insert_balance_def using hang(1) rot(2)
    by (simp add: cell c rot(1) cong: bind_weak)
  with True hang(2-4) rot(4) show ?thesis by simp
qed

lemma insert_balance_right:
  assumes at: "rep_ctx h rt C s" "ctx_ok rt C (set (addrs (Node l s x w r)))" "distinct (addrs (Node l s x w r))"
      "rep h (cpar rt C) (Node l s x w r)"
    and bal: "balanced r" "root_bal r \<noteq> 0 \<or> bal w \<noteq> 1" "bal w \<in> {-1, 0, 1}"
    and c: "\<not> cmpo (Some k) (Some x) < 1"
  defines "R \<equiv> ins_right l s x w r"
  assumes nodes: "nodes R = nodes (Node l s x w r)"
  shows "\<exists>h'. avl_insert_balance cmpo (Some k) ob (cpar rt C) s (root_of r) q h =
      Some (0, if bal w = 0 then ob\<lparr>height := height ob + 1\<rparr> else ob, h') \<and>
    rep_ctx h' rt C (root_of R) \<and> rep h' (cpar rt C) R \<and>
    (\<forall>b. b \<notin> insert (cpar rt C) (set (addrs (Node l s x w r))) \<longrightarrow> h' b = h b)"
proof (cases "bal w = 1")
  case False
  have "s \<noteq> rt" "s \<notin> caddrs C" "s \<notin> set (addrs l)" "s \<notin> set (addrs r)"
    using at by (auto simp: ctx_ok_def)
  with False at(1,4) bal(3) c show ?thesis
    by (auto simp: avl_insert_balance_def mem_simps R_def ins_right_def)
next
  case True
  with bal have lb: "root_bal r \<noteq> 0" by auto
  have null: "NULL \<notin> set (addrs (Node l s x w r))" using at(2) by (simp add: ctx_ok_def)
  have R: "R = rot_ins_right l s x w r" using True by (simp add: R_def ins_right_def)
  obtain par' h1 where rot: "get_balance h (root_of r) = Some (root_bal r)"
    "(if root_bal r = 1 then do { h \<leftarrow> avl_insert_single 1 s (root_of r) h; Some (root_of r, h) }
      else if root_bal r = - 1 then avl_insert_double 1 s (root_of r) h else Some (q, h)) = Some (root_of R, h1)"
    "rep h1 par' R" "\<forall>b. b \<notin> set (addrs (Node l s x w r)) \<longrightarrow> h1 b = h b"
    using rotate_right [OF at(4,3) null bal(1) lb, of q] unfolding R by blast
  have ad: "addrs R = addrs (Node l s x w r)" by (simp only: addrs_def nodes)
  have ctx: "rep_ctx h1 rt C s = rep_ctx h rt C s"
    by (rule rep_ctx_cong) (use rot(4) at(2) in \<open>auto simp: ctx_ok_def\<close>)
  have pre: "s \<in> set (addrs (Node l s x w r))" "R \<noteq> Leaf" "set (addrs R) \<subseteq> set (addrs (Node l s x w r))"
    "distinct (addrs R)"
    using nodes ad at(3) by auto
  obtain h2 where hang: "(do {
      tr \<leftarrow> rd right h1 (cpar rt C);
      h \<leftarrow> (if s = tr then set_right (cpar rt C) (root_of R) h1 else set_left (cpar rt C) (root_of R) h1);
      h \<leftarrow> set_parent (root_of R) (cpar rt C) h;
      Some (0::int, ob, h) }) = Some (0, ob, h2)" "rep_ctx h2 rt C (root_of R)" "rep h2 (cpar rt C) R"
    "\<forall>b. b \<notin> insert (cpar rt C) (set (addrs (Node l s x w r))) \<longrightarrow> h2 b = h1 b"
    using hang [where c = "0::int" and ob = ob, OF ctx [THEN iffD2, OF at(1)] at(2) pre(1) rot(3) pre(2-4)]
    by (elim exE conjE) (rule that)
  have cell: "rd key h s = Some (Some x)" "get_balance h s = Some 1"
    using at(4) True by (auto simp: mem_simps)
  have "avl_insert_balance cmpo (Some k) ob (cpar rt C) s (root_of r) q h = Some (0, ob, h2)"
    unfolding avl_insert_balance_def using hang(1) rot(2)
    by (simp add: cell c rot(1) cong: bind_weak)
  with True hang(2-4) rot(4) show ?thesis by simp
qed

section \<open>The critical node as a whole\<close>

fun ins_top :: "('k \<Rightarrow> 'k \<Rightarrow> int) \<Rightarrow> addr \<Rightarrow> 'k \<Rightarrow> 'k ptree \<Rightarrow> 'k ptree" where
  "ins_top cmp m k Leaf = Node Leaf m k new_word Leaf"
| "ins_top cmp m k (Node l s x w r) =
     (if cmp k x < 1 then ins_left (grow cmp m k l) s x (AVL_SET_RANK w (AVL_GET_RANK w + 1)) r
      else ins_right l s x w (grow cmp m k r))"

lemma ins_top_all:
  assumes "balanced t" "\<not> leans_below cmp k t"
  shows "nodes (ins_top cmp m k t) = nodes (bst_ins cmp m k t) \<and> balanced (ins_top cmp m k t) \<and>
    ht (ins_top cmp m k t) = (if root_bal t = 0 then Suc (ht t) else ht t) \<and>
    (ranked t \<longrightarrow> length (nodes t) + 1 < 2 ^ 30 \<longrightarrow> ranked (ins_top cmp m k t))"
proof (cases t)
  case (Node l s x w r)
  let ?w = "AVL_SET_RANK w (AVL_GET_RANK w + 1)"
  have b: "balanced l" "balanced r" "bal w = int (ht r) - int (ht l)" "bal w \<in> {-1, 0, 1}"
    using assms Node by auto
  show ?thesis
  proof (cases "cmp k x < 1")
    case True
    then have g: "balanced (grow cmp m k l)" "ht (grow cmp m k l) = Suc (ht l)"
      using balanced_grow [of l cmp k m] assms Node by auto
    have lean: "root_bal (grow cmp m k l) \<noteq> 0 \<or> bal ?w \<noteq> -1"
      using b root_bal_grow [of l cmp m k] by (cases "l = Leaf") auto
    have bw: "bal ?w \<in> {-1, 0, 1}" "bal ?w = int (ht r) - int (ht l)" using b by simp_all
    note P = ins_left_props [OF g(1) lean b(2) bw g(2), of s x]
    have "ranked (ins_left (grow cmp m k l) s x ?w r)" if "ranked t" "length (nodes t) + 1 < 2 ^ 30"
      using that Node by (intro P(4)) (auto simp: ranked_grow nodes_grow length_nodes_bst_ins word_rules)
    with P(1-3) b(3) True Node show ?thesis by (auto simp: nodes_grow)
  next
    case False
    then have g: "balanced (grow cmp m k r)" "ht (grow cmp m k r) = Suc (ht r)"
      using balanced_grow [of r cmp k m] assms Node by auto
    have "root_bal (grow cmp m k r) \<noteq> 0 \<or> bal w \<noteq> 1"
      using b root_bal_grow [of r cmp m k] by (cases "r = Leaf") auto
    note P = ins_right_props [OF g(1) this b(1) b(4) b(3) g(2), of s x]
    have "ranked (ins_right l s x w (grow cmp m k r))" if "ranked t" "length (nodes t) + 1 < 2 ^ 30"
      using that Node by (intro P(4)) (auto simp: ranked_grow nodes_grow length_nodes_bst_ins)
    with P(1-3) b(3) False Node show ?thesis by (auto simp: nodes_grow)
  qed
qed simp_all

lemma ins_top_props:
  assumes "balanced t" "\<not> leans_below cmp k t"
  shows "nodes (ins_top cmp m k t) = nodes (bst_ins cmp m k t)"
    and "balanced (ins_top cmp m k t)"
    and "ht (ins_top cmp m k t) = (if root_bal t = 0 then Suc (ht t) else ht t)"
    and "ranked t \<Longrightarrow> length (nodes t) + 1 < 2 ^ 30 \<Longrightarrow> ranked (ins_top cmp m k t)"
  using ins_top_all [OF assms, of m] by blast+

lemma distinct_grow: "distinct (addrs t) \<Longrightarrow> m \<notin> set (addrs t) \<Longrightarrow> distinct (addrs (grow cmp m k t))"
  by (induction t) auto

lemma insert_tail:
  fixes cmpo :: "'k option \<Rightarrow> 'k option \<Rightarrow> int"
  defines "cmp \<equiv> \<lambda>x y. cmpo (Some x) (Some y)"
  assumes S: "S = Node l s x w r"
    and at: "rep_ctx h rt C s" "ctx_ok rt C (insert m (set (addrs S)))" "m \<notin> set (addrs S)" "distinct (addrs S)"
      "rep h (cpar rt C) (bst_ins cmp m k S)"
    and bal: "balanced S" "\<not> leans_below cmp k S"
  shows "\<exists>h'. (do {
      sk \<leftarrow> rd key h s;
      r \<leftarrow> (if cmpo (Some k) sk < 1 then rd left h s else rd right h s);
      h \<leftarrow> avl_insert_adjust cmpo (Some k) m r h;
      avl_insert_balance cmpo (Some k) ob (cpar rt C) s r m h }) =
      Some (0, if bal w = 0 then ob\<lparr>height := height ob + 1\<rparr> else ob, h') \<and>
    rep_ctx h' rt C (root_of (ins_top cmp m k S)) \<and> rep h' (cpar rt C) (ins_top cmp m k S) \<and>
    (\<forall>b. b \<notin> insert (cpar rt C) (insert m (set (addrs S))) \<longrightarrow> h' b = h b)"
proof (cases "cmp k x < 1")
  case True
  let ?w = "AVL_SET_RANK w (AVL_GET_RANK w + 1)" and ?G = "grow cmp m k l"
  have c: "cmpo (Some k) (Some x) < 1" using True by (simp add: cmp_def)
  have cell: "rd key h s = Some (Some x)" "rd left h s = Some (root_of (bst_ins cmp m k l))"
    and sub: "rep h s (bst_ins cmp m k l)" and r: "rep h s r"
    and cs: "h s = Some \<lparr>key = Some x, left = root_of (bst_ins cmp m k l), right = root_of r,
      parent = cpar rt C, rank_and_balance = ?w\<rparr>"
    using at(5) True by (auto simp: S mem_simps)
  obtain h1 where h1: "avl_insert_adjust cmpo (Some k) m (root_of (bst_ins cmp m k l)) h = Some h1"
    "rep h1 s ?G" "\<forall>a. a \<notin> set (addrs l) \<longrightarrow> h1 a = h a"
    using adjust_rep [of h s cmpo m k l] sub at(3,4) unfolding cmp_def S by auto
  have rr: "rep h1 s r = rep h s r"
    by (rule rep_cong) (use h1(3) at(4) S in auto)
  have ctx: "rep_ctx h1 rt C s = rep_ctx h rt C s"
    by (rule rep_ctx_cong) (use h1(3) at(2) S in \<open>auto simp: ctx_ok_def\<close>)
  have sl: "s \<notin> set (addrs l)" using at(4) S by simp
  have rep1: "rep h1 (cpar rt C) (Node ?G s x ?w r)"
    using h1 rr r cs sl by (simp add: root_of_grow root_of_bst_ins)
  have nd: "nodes (ins_left ?G s x ?w r) = nodes (Node ?G s x ?w r)"
    using ins_top_props(1) [OF bal, of m] True by (simp add: S nodes_grow)
  have ad: "set (addrs (Node ?G s x ?w r)) = insert m (set (addrs S))" using S by auto
  have d: "distinct (addrs (Node ?G s x ?w r))" using at(3,4) S by (auto simp: distinct_grow)
  have b: "balanced ?G" "root_bal ?G \<noteq> 0 \<or> bal ?w \<noteq> -1" "bal ?w \<in> {-1, 0, 1}"
    using bal True balanced_grow [of l cmp k m] root_bal_grow [of l cmp m k] S by (cases "l = Leaf"; auto)+
  obtain h2 where h2: "avl_insert_balance cmpo (Some k) ob (cpar rt C) s (root_of ?G) m h1 =
      Some (0, if bal ?w = 0 then ob\<lparr>height := height ob + 1\<rparr> else ob, h2)"
    "rep_ctx h2 rt C (root_of (ins_left ?G s x ?w r))" "rep h2 (cpar rt C) (ins_left ?G s x ?w r)"
    "\<forall>b. b \<notin> insert (cpar rt C) (insert m (set (addrs S))) \<longrightarrow> h2 b = h1 b"
    using insert_balance_left [where cmpo = cmpo and k = k, OF ctx [THEN iffD2, OF at(1)] at(2) [folded ad] d rep1 b c nd, of ob m] unfolding ad by blast
  have rG: "root_of (bst_ins cmp m k l) = root_of ?G" by (simp add: root_of_grow root_of_bst_ins)
  show ?thesis
    using h2 h1(1,3) True c S by (intro exI [of _ h2]) (simp add: cell rG)
next
  case False
  let ?G = "grow cmp m k r"
  have c: "\<not> cmpo (Some k) (Some x) < 1" using False by (simp add: cmp_def)
  have cell: "rd key h s = Some (Some x)" "rd right h s = Some (root_of (bst_ins cmp m k r))"
    and sub: "rep h s (bst_ins cmp m k r)" and r: "rep h s l"
    and cs: "h s = Some \<lparr>key = Some x, left = root_of l, right = root_of (bst_ins cmp m k r),
      parent = cpar rt C, rank_and_balance = w\<rparr>"
    using at(5) False by (auto simp: S mem_simps)
  obtain h1 where h1: "avl_insert_adjust cmpo (Some k) m (root_of (bst_ins cmp m k r)) h = Some h1"
    "rep h1 s ?G" "\<forall>a. a \<notin> set (addrs r) \<longrightarrow> h1 a = h a"
    using adjust_rep [of h s cmpo m k r] sub at(3,4) unfolding cmp_def S by auto
  have rr: "rep h1 s l = rep h s l"
    by (rule rep_cong) (use h1(3) at(4) S in auto)
  have ctx: "rep_ctx h1 rt C s = rep_ctx h rt C s"
    by (rule rep_ctx_cong) (use h1(3) at(2) S in \<open>auto simp: ctx_ok_def\<close>)
  have sl: "s \<notin> set (addrs r)" using at(4) S by simp
  have rep1: "rep h1 (cpar rt C) (Node l s x w ?G)"
    using h1 rr r cs sl by (simp add: root_of_grow root_of_bst_ins)
  have nd: "nodes (ins_right l s x w ?G) = nodes (Node l s x w ?G)"
    using ins_top_props(1) [OF bal, of m] False by (simp add: S nodes_grow)
  have ad: "set (addrs (Node l s x w ?G)) = insert m (set (addrs S))" using S by auto
  have d: "distinct (addrs (Node l s x w ?G))" using at(3,4) S by (auto simp: distinct_grow)
  have b: "balanced ?G" "root_bal ?G \<noteq> 0 \<or> bal w \<noteq> 1" "bal w \<in> {-1, 0, 1}"
    using bal False balanced_grow [of r cmp k m] root_bal_grow [of r cmp m k] S by (cases "r = Leaf"; auto)+
  obtain h2 where h2: "avl_insert_balance cmpo (Some k) ob (cpar rt C) s (root_of ?G) m h1 =
      Some (0, if bal w = 0 then ob\<lparr>height := height ob + 1\<rparr> else ob, h2)"
    "rep_ctx h2 rt C (root_of (ins_right l s x w ?G))" "rep h2 (cpar rt C) (ins_right l s x w ?G)"
    "\<forall>b. b \<notin> insert (cpar rt C) (insert m (set (addrs S))) \<longrightarrow> h2 b = h1 b"
    using insert_balance_right [where cmpo = cmpo and k = k, OF ctx [THEN iffD2, OF at(1)] at(2) [folded ad] d rep1 b c nd, of ob m] unfolding ad by blast
  have rG: "root_of (bst_ins cmp m k r) = root_of ?G" by (simp add: root_of_grow root_of_bst_ins)
  show ?thesis
    using h2 h1(1,3) False c S by (intro exI [of _ h2]) (simp add: cell rG)
qed

section \<open>Insertion into a tree\<close>

lemma insert_empty:
  assumes "avl_at h (root ob) Leaf" "m \<noteq> NULL" "m \<notin> dom h"
  shows "\<exists>h'. avl_insert m ob (Some k) h = Some (0, ob\<lparr>len := len ob + 1\<rparr>, h') \<and>
    avl_at h' (root ob) (Node Leaf m k new_word Leaf) \<and> (\<forall>b. b \<notin> {root ob, m} \<longrightarrow> h' b = h b)"
proof -
  have "m \<noteq> root ob" using assms by (auto simp: avl_at_def)
  with assms show ?thesis
    by (auto simp: avl_insert_def avl_at_def avl_node_new_def mem_simps new_word_def)
qed

text \<open>The search reaches the critical node and hangs the new leaf into the tree.\<close>

lemma insert_descend_split:
  fixes cmpo :: "'k option \<Rightarrow> 'k option \<Rightarrow> int"
  defines "cmp \<equiv> \<lambda>x y. cmpo (Some x) (Some y)"
  assumes at: "avl_at h rt t" "t \<noteq> Leaf" and m: "m \<noteq> NULL" "m \<notin> dom h"
  shows "\<exists>h1 D l s x w r. avl_insert_descend cmpo m (Some k) rt (root_of t) (root_of t) h =
      Some (h1, Some (cpar rt D, s, m)) \<and> fill D (Node l s x w r) = t \<and>
    \<not> leans_below cmp k (Node l s x w r) \<and> (D = [] \<or> bal w \<noteq> 0) \<and>
    bst_ins cmp m k t = fill (map bump D) (bst_ins cmp m k (Node l s x w r)) \<and>
    avl_at h1 rt (bst_ins cmp m k t) \<and> (\<forall>b. b \<notin> insert m (set (addrs t)) \<longrightarrow> h1 b = h b)"
proof -
  have mt: "m \<notin> set (addrs t)" "m \<noteq> rt"
    using at m rep_in_dom [of h rt t] by (auto simp: avl_at_def)
  obtain h1 where h1: "avl_insert_descend cmpo m (Some k) rt (root_of t) (root_of t) h =
      Some (h1, Some (fst (crit cmp k rt (root_of t) t), snd (crit cmp k rt (root_of t) t), m))"
    "rep h1 rt (bst_ins cmp m k t)" "\<forall>a. a \<notin> insert m (set (addrs t)) \<longrightarrow> h1 a = h a"
    using descend_rep [of h rt t m cmpo k rt "root_of t"] at m mt unfolding cmp_def avl_at_def by blast
  obtain D S where D: "crit_ctx cmp k [] t = (D, S)" "fill D S = t" "\<not> leans_below cmp k S"
    "bst_ins cmp m k t = fill (map bump D) (bst_ins cmp m k S)" "D = [] \<or> root_bal S \<noteq> 0" "S \<noteq> Leaf"
    using crit_ctx_split [of cmp k "[]" t m] at(2) by auto
  obtain l s x w r where S: "S = Node l s x w r" using D(6) by (cases S) auto
  have cr: "crit cmp k rt (root_of t) t = (cpar rt D, s)"
    using crit_eq [of cmp k rt "root_of t" t rt "[]"] D(1,2) crit_ctx_below [of cmp k t "[]"] S
    by (auto split: if_splits)
  have "distinct (addrs (bst_ins cmp m k t))"
    using distinct_grow [of t m cmp k] at mt by (simp add: avl_at_def addrs_def nodes_grow)
  then have "avl_at h1 rt (bst_ins cmp m k t)"
    using at m mt h1 by (auto simp: avl_at_def root_of_bst_ins)
  with h1 D S cr show ?thesis
    by (intro exI [of _ h1] exI [of _ D] exI [of _ l] exI [of _ s] exI [of _ x] exI [of _ w] exI [of _ r])
       (simp del: bst_ins.simps leans_below.simps)
qed

lemma avl_insert_at:
  fixes ob :: "('k, 'a) avl_tree" and k :: 'k
  defines "cmp \<equiv> tcmp ob"
  assumes at: "avl_at h (root ob) t" "balanced t" and m: "m \<noteq> NULL" "m \<notin> dom h"
  shows "\<exists>h' u ht'. avl_insert m ob (Some k) h = Some (0, ob\<lparr>len := len ob + 1, height := ht'\<rparr>, h') \<and>
    avl_at h' (root ob) u \<and> nodes u = nodes (bst_ins cmp m k t) \<and> balanced u \<and>
    (ranked t \<longrightarrow> length (nodes t) + 1 < 2 ^ 30 \<longrightarrow> ranked u) \<and>
    (\<forall>b. b \<notin> insert (root ob) (insert m (set (addrs t))) \<longrightarrow> h' b = h b)"
proof (cases "t = Leaf")
  case True
  then obtain h' where "avl_insert m ob (Some k) h = Some (0, ob\<lparr>len := len ob + 1\<rparr>, h')"
    "avl_at h' (root ob) (Node Leaf m k new_word Leaf)" "\<forall>b. b \<notin> {root ob, m} \<longrightarrow> h' b = h b"
    using insert_empty [of h ob m k] at m by blast
  with True show ?thesis
    by (intro exI [of _ h'] exI [of _ "Node Leaf m k new_word Leaf"] exI [of _ "height ob"]) simp
next
  case False
  let ?rt = "root ob" and ?cf = "compare_fun ob (compare_arg ob)"
  let ?ob = "ob\<lparr>len := len ob + 1\<rparr>"
  obtain h1 D l s x w r where h1: "avl_insert_descend ?cf m (Some k) ?rt (root_of t) (root_of t) h =
      Some (h1, Some (cpar ?rt D, s, m))" and D: "fill D (Node l s x w r) = t"
    "\<not> leans_below cmp k (Node l s x w r)" "D = [] \<or> bal w \<noteq> 0"
    "bst_ins cmp m k t = fill (map bump D) (bst_ins cmp m k (Node l s x w r))"
    and at1: "avl_at h1 ?rt (bst_ins cmp m k t)" and fr1: "\<forall>b. b \<notin> insert m (set (addrs t)) \<longrightarrow> h1 b = h b"
    using insert_descend_split [OF at(1) False m, of ?cf k] unfolding cmp_def by blast
  define S where "S = Node l s x w r"
  note sp = at1 [unfolded D(4) avl_at_split, folded S_def]
  have bS: "balanced S" using D(1) at(2) balanced_fill_sub unfolding S_def by blast
  have hole: "rep_ctx h1 ?rt (map bump D) s" using sp by (simp add: root_of_bst_ins S_def del: bst_ins.simps)
  have mS: "m \<notin> set (addrs S)" "distinct (addrs S)"
    using m at(1) rep_in_dom [of h ?rt t] D(1) avl_at_split [of h ?rt D S] unfolding avl_at_def S_def
    by (auto simp: set_addrs_fill)
  obtain h2 where h2: "(do {
      sk \<leftarrow> rd key h1 s;
      r \<leftarrow> (if ?cf (Some k) sk < 1 then rd left h1 s else rd right h1 s);
      h \<leftarrow> avl_insert_adjust ?cf (Some k) m r h1;
      avl_insert_balance ?cf (Some k) ?ob (cpar ?rt D) s r m h }) =
      Some (0, if bal w = 0 then ?ob\<lparr>height := height ?ob + 1\<rparr> else ?ob, h2)"
    "rep_ctx h2 ?rt (map bump D) (root_of (ins_top cmp m k S))" "rep h2 (cpar ?rt D) (ins_top cmp m k S)"
    "\<forall>b. b \<notin> insert (cpar ?rt D) (insert m (set (addrs S))) \<longrightarrow> h2 b = h1 b"
    using insert_tail [where cmpo = ?cf and ob = ?ob and m = m and rt = ?rt and C = "map bump D" and S = S and h = h1 and k = k, OF S_def]
      hole sp mS bS D(2) unfolding cmp_def cpar_bump S_def [symmetric] by auto
  let ?u = "fill (map bump D) (ins_top cmp m k S)"
  note top = ins_top_props [OF bS D(2) [folded S_def], of m]
  have ad: "addrs (ins_top cmp m k S) = addrs (bst_ins cmp m k S)" by (simp add: addrs_def top)
  have "avl_at h2 ?rt ?u" unfolding avl_at_split ad using sp h2(2,3) by simp
  moreover have "nodes ?u = nodes (bst_ins cmp m k t)" by (simp add: D(4) nodes_fill top S_def [symmetric])
  moreover have "balanced ?u"
  proof (cases "D = []")
    case False
    with D(3) have "ht (ins_top cmp m k S) = ht S" using top(3) by (simp add: S_def)
    with D(1) at(2) top(2) show ?thesis by (auto intro!: balanced_fill_bump [of D S] simp: S_def)
  qed (use top in simp)
  moreover have "ranked ?u" if "ranked t" "length (nodes t) + 1 < 2 ^ 30"
  proof -
    have "ranked S" using that D(1) ranked_fill_sub unfolding S_def by blast
    moreover have "length (nodes S) + 1 < 2 ^ 30" using that D(1) [folded S_def] by (auto simp: nodes_fill)
    ultimately show ?thesis
      using that D(1) [folded S_def] top(1,4) by (intro ranked_fill_bump [of D S]) (simp_all add: length_nodes_bst_ins)
  qed
  moreover have "\<exists>ht'. avl_insert m ob (Some k) h = Some (0, ob\<lparr>len := len ob + 1, height := ht'\<rparr>, h2)"
  proof -
    have "rd right h ?rt = Some (root_of t)" "root_of t \<noteq> NULL"
      using at(1) False by (auto simp: avl_at_def mem_simps root_of_eq_NULL)
    then show ?thesis
      using h1 h2(1) by (cases "bal w = 0") (auto simp: avl_insert_def intro!: exI [of _ "if bal w = 0 then height ob + 1 else height ob"])
  qed
  moreover have "h2 b = h b" if "b \<notin> insert ?rt (insert m (set (addrs t)))" for b
  proof -
    have "set (addrs t) = caddrs D \<union> set (addrs S)" using D(1) [folded S_def] by (auto simp: set_addrs_fill)
    moreover have "cpar ?rt D \<in> insert ?rt (caddrs D)" by (cases "(?rt, D)" rule: cpar.cases) auto
    ultimately show ?thesis using that h2(4) fr1 by auto
  qed
  ultimately show ?thesis by blast
qed

lemma avl_insert_at_repr:
  fixes ob :: "('k, 'a) avl_tree" and k :: 'k
  assumes "key_order (tcmp ob)" "avl_at h (root ob) t" "avl_wf ob t" "m \<noteq> NULL" "m \<notin> dom h" "length (keys t) + 1 < 2 ^ 30"
  shows "\<exists>h' u ht'. avl_insert m ob (Some k) h = Some (0, ob\<lparr>len := len ob + 1, height := ht'\<rparr>, h') \<and>
    avl_at h' (root ob) u \<and> avl_wf (ob\<lparr>len := len ob + 1, height := ht'\<rparr>) u \<and> keys u = ins_key (tcmp ob) k (keys t) \<and>
    set (addrs u) = insert m (set (addrs t)) \<and>
    (\<forall>b. b \<notin> insert (root ob) (insert m (set (addrs t))) \<longrightarrow> h' b = h b)"
proof -
  obtain h' u ht' where u: "avl_insert m ob (Some k) h = Some (0, ob\<lparr>len := len ob + 1, height := ht'\<rparr>, h')"
    "avl_at h' (root ob) u" "nodes u = nodes (bst_ins (tcmp ob) m k t)" "balanced u"
    "ranked t \<longrightarrow> length (nodes t) + 1 < 2 ^ 30 \<longrightarrow> ranked u"
    "\<forall>b. b \<notin> insert (root ob) (insert m (set (addrs t))) \<longrightarrow> h' b = h b"
    using avl_insert_at [OF assms(2) _ assms(4,5), of k] assms(3) unfolding avl_wf_def by blast
  have "keys u = keys (bst_ins (tcmp ob) m k t)" by (simp add: keys_def u(3))
  also have "\<dots> = ins_key (tcmp ob) k (keys t)"
    using key_order.keys_bst_ins [OF assms(1)] assms(3) by (simp add: avl_wf_def)
  finally have k: "keys u = ins_key (tcmp ob) k (keys t)" .
  have "addrs u = addrs (bst_ins (tcmp ob) m k t)" by (simp add: addrs_def u(3))
  then have a: "set (addrs u) = insert m (set (addrs t))" by simp
  have "unat (len ob + 1) = unat (len ob) + 1"
    using assms(3,6) by (simp add: avl_wf_def unat_word_ariths)
  with u k assms have "avl_wf (ob\<lparr>len := len ob + 1, height := ht'\<rparr>) u"
    by (auto simp: avl_wf_def key_order.sorted_ins_key length_keys)
  with u k a show ?thesis by blast
qed

section \<open>Properties\<close>

text \<open>C1: insertion refines insertion into a sorted list. On a well-formed tree (heap structure with
  parent pointers, balance factors, ranks, order) holding the keys \<open>xs\<close>, \<open>avl_insert\<close> with a successful
  allocation returns 0, without undefined behaviour, and the new heap holds a well-formed tree with the
  keys of \<open>xs\<close> and the new key before the first one that is not smaller; nothing outside the tree
  changes.\<close>

theorem avl_insert_refines:
  fixes ob :: "('k, 'a) avl_tree" and k :: 'k
  assumes "key_order (tcmp ob)" and "avl_repr h ob xs" and "m \<noteq> NULL" and "h m = None"
    and "length xs + 1 < 2 ^ 30"
  shows "\<exists>h' ob'. avl_insert m ob (Some k) h = Some (0, ob', h') \<and>
    avl_repr h' ob' (ins_key (tcmp ob) k xs) \<and> tcmp ob' = tcmp ob \<and> root ob' = root ob"
proof -
  obtain t where t: "avl_at h (root ob) t" "avl_wf ob t" "keys t = xs"
    using assms(2) by (auto simp: avl_repr_def)
  have "m \<notin> dom h" "length (keys t) + 1 < 2 ^ 30" using assms t by auto
  from avl_insert_at_repr [OF assms(1) t(1,2) assms(3) this, of k] t(3) show ?thesis
    unfolding avl_repr_def by fastforce
qed

theorem avl_insert_refines_witness:
  "key_order (tcmp ex_ob) \<and> avl_repr ex_heap ex_ob [10, 20, 30] \<and> ex_heap 7 = None \<and>
   (\<exists>h' ob'. avl_insert 7 ex_ob (Some 25) ex_heap = Some (0, ob', h') \<and> avl_repr h' ob' [10, 20, 25, 30])"
proof -
  have "ex_heap 7 = None" by (simp add: ex_heap_def)
  moreover have "ins_key (tcmp ex_ob) 25 [10, 20, 30] = [10, 20, 25, 30]"
    by (simp add: ex_ob_def ex_cmp_def)
  ultimately show ?thesis
    using avl_insert_refines [OF ex_order ex_repr, of 7 25] ex_order ex_repr by auto
qed

end
