(* ===== verification/Avl_Lookup.thy ===== *)
theory Avl_Lookup
  imports Avl_Tree
begin

text \<open>
  The operations that read a tree: lookup by key and by position, in-order iteration, the walk with
  \<open>avl_get_first\<close>, \<open>avl_get_next\<close> and \<open>avl_get_prev\<close>, destruction and the self checks. Each is related
  to the list of keys (or of node addresses) of the tree.
\<close>

lemma unat_ulong: "unat (ucast (w :: uint) :: ulong) = unat w"
proof -
  have "unat w < 2 ^ LENGTH(32)" by (rule unsigned_less)
  then show ?thesis by (simp add: unsigned_ucast_eq take_bit_nat_eq_self)
qed

section \<open>Lookup by key\<close>

lemma rd_root:
  assumes "avl_at h rt t"
  shows "rd right h rt = Some (root_of t)" "root_of t = NULL \<longleftrightarrow> t = Leaf"
  using assms by (auto simp: avl_at_def mem_simps root_of_eq_NULL)

lemma get_by_key_left:
  assumes "h a = Some n" "cmp k (key n) < 0"
  shows "avl_get_by_key_loop cmp k a h =
    (if left n \<noteq> NULL then avl_get_by_key_loop cmp k (left n) h else Some (-1, None))"
  using assms by (subst avl_get_by_key_loop.simps) (simp add: mem_eval)

lemma get_by_key_right:
  assumes "h a = Some n" "cmp k (key n) > 0"
  shows "avl_get_by_key_loop cmp k a h =
    (if right n \<noteq> NULL then avl_get_by_key_loop cmp k (right n) h else Some (-1, None))"
  using assms by (subst avl_get_by_key_loop.simps) (simp add: mem_eval)

lemma get_by_key_found:
  assumes "h a = Some n" "cmp k (key n) = 0"
  shows "avl_get_by_key_loop cmp k a h = Some (0, Some (key n))"
  using assms by (subst avl_get_by_key_loop.simps) (simp add: mem_eval)

text \<open>The search on a tree.\<close>

fun find_key :: "('k \<Rightarrow> 'k \<Rightarrow> int) \<Rightarrow> 'k \<Rightarrow> 'k ptree \<Rightarrow> 'k option" where
  "find_key cmp k Leaf = None"
| "find_key cmp k (Node l a x w r) =
     (if cmp k x < 0 then find_key cmp k l else if cmp k x > 0 then find_key cmp k r else Some x)"

lemma get_by_key_rep:
  fixes cmpo :: "'k option \<Rightarrow> 'k option \<Rightarrow> int"
  defines "cmp \<equiv> \<lambda>x y. cmpo (Some x) (Some y)"
  assumes "rep h par t" "t \<noteq> Leaf" "NULL \<notin> set (addrs t)"
  shows "avl_get_by_key_loop cmpo (Some k) (root_of t) h =
    Some (case find_key cmp k t of None \<Rightarrow> (-1, None) | Some x \<Rightarrow> (0, Some (Some x)))"
  using assms(2-)
proof (induction t arbitrary: par)
  case (Node l a x w r)
  then show ?case
    by (cases "cmp k x < 0"; cases "cmp k x > 0")
       (auto simp: get_by_key_left get_by_key_right get_by_key_found root_of_eq_NULL cmp_def)
qed simp

context key_order
begin

lemma find_key_sorted:
  assumes "key_sorted cmp (keys t)"
  shows "case find_key cmp k t of None \<Rightarrow> \<forall>x\<in>set (keys t). cmp k x \<noteq> 0 | Some x \<Rightarrow> x \<in> set (keys t) \<and> cmp k x = 0"
  using assms
proof (induction t)
  case (Node l a x w r)
  have up: "cmp k z < 0" if "cmp k x < 0" "z \<in> set (keys r)" for z
    using that Node.prems cmp_less_trans2 [of k x z] by (auto simp: sorted_wrt_append)
  have down: "cmp k z > 0" if "cmp k x > 0" "z \<in> set (keys l)" for z
    using that Node.prems cmp_less_trans [of z x k] cmp_sym [of z k] cmp_sym [of x k] by (auto simp: sorted_wrt_append)
  show ?case
  proof (cases "cmp k x < 0")
    case True
    with Node show ?thesis by (fastforce simp: sorted_wrt_append dest: up split: option.splits)
  next
    case False
    with Node show ?thesis by (fastforce simp: sorted_wrt_append dest: down split: option.splits)
  qed
qed simp

end

section \<open>Lookup by position\<close>

lemma get_by_index_rep:
  assumes "rep h par t" "NULL \<notin> set (addrs t)" "ranked t" "length (nodes t) < 2 ^ 30"
  shows "avl_get_by_index_loop m (root_of t) h =
    Some (if 0 < unat m \<and> unat m \<le> length (nodes t) then (0, Some (Some (keys t ! (unat m - 1)))) else (-1, None))"
  using assms
proof (induction t arbitrary: par m)
  case Leaf
  then show ?case by (subst avl_get_by_index_loop.simps) auto
next
  case (Node l a x w r)
  have rk: "unat (ucast (AVL_GET_RANK w) :: ulong) = length (nodes l) + 1"
    using Node.prems by (simp add: rk_def unat_ulong)
  have cell: "h a = Some \<lparr>key = Some x, left = root_of l, right = root_of r, parent = par, rank_and_balance = w\<rparr>"
    and a: "a \<noteq> NULL" using Node.prems by auto
  have lt: "m < ucast (AVL_GET_RANK w) \<longleftrightarrow> unat m \<le> length (nodes l)"
    and gt: "ucast (AVL_GET_RANK w) < m \<longleftrightarrow> length (nodes l) + 1 < unat m"
    using rk by (auto simp: word_less_nat_alt)
  have sub: "unat (m - ucast (AVL_GET_RANK w)) = unat m - (length (nodes l) + 1)" if "length (nodes l) + 1 < unat m"
    using that rk by (simp add: unat_sub_if')
  have IHl: "avl_get_by_index_loop m (root_of l) h =
    Some (if 0 < unat m \<and> unat m \<le> length (nodes l) then (0, Some (Some (keys l ! (unat m - 1)))) else (-1, None))"
    for m using Node by (intro Node.IH(1)) auto
  have IHr: "avl_get_by_index_loop m (root_of r) h =
    Some (if 0 < unat m \<and> unat m \<le> length (nodes r) then (0, Some (Some (keys r ! (unat m - 1)))) else (-1, None))"
    for m using Node by (intro Node.IH(2)) auto
  have step: "avl_get_by_index_loop m a h =
    (if m < ucast (AVL_GET_RANK w) then avl_get_by_index_loop m (root_of l) h
     else if m > ucast (AVL_GET_RANK w) then avl_get_by_index_loop (m - ucast (AVL_GET_RANK w)) (root_of r) h
     else Some (0, Some (Some x)))"
    using a by (subst avl_get_by_index_loop.simps) (simp add: mem_eval cell)
  consider "unat m \<le> length (nodes l)" | "unat m = length (nodes l) + 1" | "length (nodes l) + 1 < unat m" by linarith
  then show ?case
    by cases (auto simp: step lt gt sub IHl IHr length_keys nth_append)
qed

section \<open>Iteration\<close>

text \<open>The callback runs over the keys in order until it returns a non-zero value.\<close>

fun iter_keys :: "('k option \<Rightarrow> 's \<Rightarrow> int \<times> 's) \<Rightarrow> 'k list \<Rightarrow> 's \<Rightarrow> int \<times> 's" where
  "iter_keys f [] s = (0, s)"
| "iter_keys f (x # xs) s = (case f (Some x) s of (res, s) \<Rightarrow> if res \<noteq> 0 then (res, s) else iter_keys f xs s)"

lemma iter_keys_append:
  "iter_keys f (xs @ ys) s = (case iter_keys f xs s of (res, s) \<Rightarrow> if res \<noteq> 0 then (res, s) else iter_keys f ys s)"
  by (induction xs arbitrary: s) (auto split: prod.split)

lemma iterate_rep:
  assumes "rep h par t" "t \<noteq> Leaf" "NULL \<notin> set (addrs t)"
  shows "avl_iterate_inorder_helper f (root_of t) s h = Some (iter_keys f (keys t) s)"
  using assms
proof (induction t arbitrary: par s)
  case (Node l a x w r)
  have l: "(if root_of l \<noteq> NULL then avl_iterate_inorder_helper f (root_of l) s h else Some (0, s)) =
      Some (iter_keys f (keys l) s)" for s
    using Node by (cases "l = Leaf") (auto simp: root_of_eq_NULL)
  have r: "(if root_of r \<noteq> NULL then avl_iterate_inorder_helper f (root_of r) s h else Some (0, s)) =
      Some (iter_keys f (keys r) s)" for s
    using Node by (cases "r = Leaf") (auto simp: root_of_eq_NULL)
  have cell: "h a = Some \<lparr>key = Some x, left = root_of l, right = root_of r, parent = par, rank_and_balance = w\<rparr>"
    using Node.prems by auto
  obtain res s1 where l1: "iter_keys f (keys l) s = (res, s1)" by fastforce
  obtain res2 s2 where f1: "f (Some x) s1 = (res2, s2)" by fastforce
  show ?case
    unfolding root_of.simps
    by (subst avl_iterate_inorder_helper.simps; cases "res = 0"; cases "res2 = 0")
       (simp_all add: mem_eval cell l l1 f1 r iter_keys_append split del: if_split del: neq0_conv)
qed simp

section \<open>Destruction\<close>

fun free_keys :: "('k option \<Rightarrow> 's \<Rightarrow> 's) option \<Rightarrow> 'k list \<Rightarrow> 's \<Rightarrow> 's" where
  "free_keys f [] s = s"
| "free_keys f (x # xs) s = free_keys f xs (free_key f (Some x) s)"

lemma free_keys_append: "free_keys f (xs @ ys) s = free_keys f ys (free_keys f xs s)"
  by (induction xs arbitrary: s) auto

lemma free_rep:
  assumes "rep h par t" "t \<noteq> Leaf" "NULL \<notin> set (addrs t)" "distinct (addrs t)"
  shows "avl_tree_free_helper f (root_of t) s h =
    Some (free_keys f (keys t) s, h |` (- set (addrs t)))"
  using assms
proof (induction t arbitrary: par s h)
  case (Node l a x w r)
  have cell: "h a = Some \<lparr>key = Some x, left = root_of l, right = root_of r, parent = par, rank_and_balance = w\<rparr>"
    and n: "a \<notin> set (addrs l)" "a \<notin> set (addrs r)" using Node.prems by auto
  have l: "(if root_of l \<noteq> NULL then avl_tree_free_helper f (root_of l) s h else Some (s, h)) =
      Some (free_keys f (keys l) s, h |` (- set (addrs l)))"
    using Node.IH(1) [of h a s] Node.prems by (cases "l = Leaf") (auto simp: root_of_eq_NULL restrict_map_def)
  define h1 where "h1 = h |` (- set (addrs l))"
  have "rep h1 a r = rep h a r"
    by (rule rep_cong) (use Node.prems in \<open>auto simp: h1_def restrict_map_def\<close>)
  then have r: "(if root_of r \<noteq> NULL then avl_tree_free_helper f (root_of r) s h1 else Some (s, h1)) =
      Some (free_keys f (keys r) s, h1 |` (- set (addrs r)))" for s
    using Node.IH(2) [of h1 a s] Node.prems by (cases "r = Leaf") (auto simp: root_of_eq_NULL restrict_map_def)
  have c1: "h1 a = h a" "(h1 |` (- set (addrs r))) a = h a" using n by (auto simp: h1_def restrict_map_def)
  have "(h1 |` (- set (addrs r)))(a := None) = h |` (- set (addrs (Node l a x w r)))"
    by (auto simp: h1_def restrict_map_def fun_eq_iff)
  then show ?case
    unfolding root_of.simps
    by (subst avl_tree_free_helper.simps)
       (simp add: mem_eval cell l c1 r free_keys_append flip: h1_def split del: if_split del: neq0_conv fun_upd_None_restrict)
qed simp

section \<open>Walking through the nodes\<close>

lemma nodes_eq_Nil [simp]: "nodes t = [] \<longleftrightarrow> t = Leaf"
  by (cases t) auto

lemma leftmost_rep:
  "rep h par t \<Longrightarrow> t \<noteq> Leaf \<Longrightarrow> NULL \<notin> set (addrs t) \<Longrightarrow> avl_leftmost (root_of t) h = Some (hd (addrs t))"
proof (induction t arbitrary: par)
  case (Node l a x w r)
  then show ?case
    by (cases "l = Leaf"; subst avl_leftmost.simps) (auto simp: mem_simps root_of_eq_NULL hd_append addrs_def)
qed simp

lemma rightmost_rep:
  "rep h par t \<Longrightarrow> t \<noteq> Leaf \<Longrightarrow> NULL \<notin> set (addrs t) \<Longrightarrow> avl_rightmost (root_of t) h = Some (last (addrs t))"
proof (induction t arbitrary: par)
  case (Node l a x w r)
  then show ?case
    by (cases "r = Leaf"; subst avl_rightmost.simps) (auto simp: mem_simps root_of_eq_NULL addrs_def)
qed simp

text \<open>The node with position \<open>i\<close> and the context above it.\<close>

lemma split_at_index:
  "i < length (nodes t) \<Longrightarrow>
   \<exists>C l a x w r. t = fill C (Node l a x w r) \<and> before C @ nodes l = take i (nodes t) \<and>
     nodes t ! i = (a, x) \<and> nodes r @ after C = drop (Suc i) (nodes t)"
proof (induction t arbitrary: i)
  case (Node l a x w r)
  have fill_snoc: "fill (D @ [f]) t = plug f (fill D t)" for D :: "'a ctx" and f t
    by (induction D arbitrary: t) auto
  have before_L: "before (D @ [LFrame a x w r]) = before D" "after (D @ [LFrame a x w r]) = after D @ (a, x) # nodes r"
    for D by (induction D rule: before.induct) auto
  have before_R: "before (D @ [RFrame l a x w]) = nodes l @ (a, x) # before D" "after (D @ [RFrame l a x w]) = after D"
    for D by (induction D rule: before.induct) auto
  consider "i < length (nodes l)" | "i = length (nodes l)" | "length (nodes l) < i" by linarith
  then show ?case
  proof cases
    case 1
    with Node.IH(1) [of i] obtain C l' a' x' w' r' where
      "l = fill C (Node l' a' x' w' r')" "before C @ nodes l' = take i (nodes l)" "nodes l ! i = (a', x')"
      "nodes r' @ after C = drop (Suc i) (nodes l)" by blast
    with 1 have "Node l a x w r = fill (C @ [LFrame a x w r]) (Node l' a' x' w' r') \<and>
      before (C @ [LFrame a x w r]) @ nodes l' = take i (nodes (Node l a x w r)) \<and>
      nodes (Node l a x w r) ! i = (a', x') \<and>
      nodes r' @ after (C @ [LFrame a x w r]) = drop (Suc i) (nodes (Node l a x w r))"
      by (simp add: fill_snoc before_L nth_append)
    then show ?thesis by blast
  next
    case 2
    then have "Node l a x w r = fill [] (Node l a x w r) \<and> before [] @ nodes l = take i (nodes (Node l a x w r)) \<and>
      nodes (Node l a x w r) ! i = (a, x) \<and> nodes r @ after [] = drop (Suc i) (nodes (Node l a x w r))"
      by simp
    then show ?thesis by blast
  next
    case 3
    then have "i - Suc (length (nodes l)) < length (nodes r)" using Node.prems by auto
    from Node.IH(2) [OF this] obtain C l' a' x' w' r' where
      "r = fill C (Node l' a' x' w' r')" "before C @ nodes l' = take (i - Suc (length (nodes l))) (nodes r)"
      "nodes r ! (i - Suc (length (nodes l))) = (a', x')"
      "nodes r' @ after C = drop (Suc (i - Suc (length (nodes l)))) (nodes r)" by blast
    with 3 have "Node l a x w r = fill (C @ [RFrame l a x w]) (Node l' a' x' w' r') \<and>
      before (C @ [RFrame l a x w]) @ nodes l' = take i (nodes (Node l a x w r)) \<and>
      nodes (Node l a x w r) ! i = (a', x') \<and>
      nodes r' @ after (C @ [RFrame l a x w]) = drop (Suc i) (nodes (Node l a x w r))"
      by (simp add: fill_snoc before_R nth_append take_Cons' Suc_diff_Suc Suc_diff_le)
    then show ?thesis by blast
  qed
qed simp

lemma ctx_ok_frame:
  "ctx_ok rt (LFrame b x w r # C) A \<Longrightarrow> ctx_ok rt C {b}"
  "ctx_ok rt (RFrame l b x w # C) A \<Longrightarrow> ctx_ok rt C {b}"
  by (auto simp: ctx_ok_def caddrs_def)

lemma next_up_rep:
  assumes "rep_ctx h rt C a" "ctx_ok rt C {a}" "h a = Some n" "parent n = cpar rt C"
  shows "avl_next_up a a h = Some (case after C of [] \<Rightarrow> NULL | (b, x) # _ \<Rightarrow> b)"
  using assms
proof (induction C arbitrary: a n)
  case Nil
  then show ?case by (subst avl_next_up.simps) (auto simp: mem_simps ctx_ok_def)
next
  case (Cons f C)
  show ?case
  proof (cases f)
    case (LFrame b x w r)
    with Cons.prems show ?thesis
      by (subst avl_next_up.simps) (auto simp: mem_simps ctx_ok_def)
  next
    case (RFrame l b x w)
    have "root_of l \<noteq> a" using Cons.prems RFrame by (cases l) (auto simp: ctx_ok_def)
    moreover have "b \<noteq> NULL" using Cons.prems RFrame by (auto simp: ctx_ok_def)
    moreover have "avl_next_up b b h = Some (case after C of [] \<Rightarrow> NULL | (b, x) # _ \<Rightarrow> b)"
      using Cons.prems RFrame by (intro Cons.IH) (auto dest: ctx_ok_frame)
    ultimately show ?thesis
      using Cons.prems RFrame by (subst avl_next_up.simps) (auto simp: mem_simps)
  qed
qed

lemma prev_up_rep:
  assumes "rep_ctx h rt C a" "ctx_ok rt C {a}" "h a = Some n" "parent n = cpar rt C"
  shows "avl_prev_up a a h = Some (if before C = [] then NULL else fst (last (before C)))"
  using assms
proof (induction C arbitrary: a n)
  case Nil
  then show ?case by (subst avl_prev_up.simps) (auto simp: mem_simps ctx_ok_def)
next
  case (Cons f C)
  show ?case
  proof (cases f)
    case (RFrame l b x w)
    with Cons.prems show ?thesis
      by (subst avl_prev_up.simps) (auto simp: mem_simps ctx_ok_def)
  next
    case (LFrame b x w r)
    have "root_of r \<noteq> a" using Cons.prems LFrame by (cases r) (auto simp: ctx_ok_def)
    moreover have "b \<noteq> NULL" using Cons.prems LFrame by (auto simp: ctx_ok_def)
    moreover have "avl_prev_up b b h = Some (if before C = [] then NULL else fst (last (before C)))"
      using Cons.prems LFrame by (intro Cons.IH) (auto dest: ctx_ok_frame)
    ultimately show ?thesis
      using Cons.prems LFrame by (subst avl_prev_up.simps) (auto simp: mem_simps)
  qed
qed

text \<open>The address that follows position \<open>i\<close>, or NULL.\<close>

definition addr_at :: "'k ptree \<Rightarrow> nat \<Rightarrow> addr" where
  "addr_at t i = (if i < length (nodes t) then addrs t ! i else NULL)"

lemma get_next_at:
  assumes "avl_at h rt t" "i < length (nodes t)"
  shows "avl_get_next (addr_at t i) h = Some (addr_at t (Suc i))"
proof -
  obtain C l a x w r where C: "t = fill C (Node l a x w r)" "nodes t ! i = (a, x)"
    "nodes r @ after C = drop (Suc i) (nodes t)" using split_at_index [OF assms(2)] by blast
  have sp: "ctx_ok rt C (set (addrs (Node l a x w r)))" "rep_ctx h rt C a" "rep h (cpar rt C) (Node l a x w r)"
    using assms(1) unfolding C(1) avl_at_split by auto
  have ok: "ctx_ok rt C {a}" using sp(1) by (auto simp: ctx_ok_def)
  have nr: "NULL \<notin> set (addrs r)" using sp(1) by (auto simp: ctx_ok_def)
  have a: "addr_at t i = a" using assms(2) C(2) by (simp add: addr_at_def addrs_def)
  have "addr_at t (Suc i) = (case drop (Suc i) (nodes t) of [] \<Rightarrow> NULL | (b, x) # _ \<Rightarrow> b)"
    by (cases "Suc i < length (nodes t)") (auto simp: addr_at_def addrs_def Cons_nth_drop_Suc [symmetric] split: prod.split)
  also have "\<dots> = (if r = Leaf then (case after C of [] \<Rightarrow> NULL | (b, x) # _ \<Rightarrow> b) else hd (addrs r))"
    by (cases "nodes r") (auto simp: C(3) [symmetric] addrs_def)
  finally show ?thesis
    using sp next_up_rep [OF sp(2) ok] leftmost_rep [of h a r] nr a
    by (auto simp: avl_get_next_def mem_simps root_of_eq_NULL)
qed

lemma get_prev_at:
  assumes "avl_at h rt t" "i < length (nodes t)"
  shows "avl_get_prev (addr_at t i) h = Some (if i = 0 then NULL else addr_at t (i - 1))"
proof -
  obtain C l a x w r where C: "t = fill C (Node l a x w r)" "nodes t ! i = (a, x)"
    "before C @ nodes l = take i (nodes t)" using split_at_index [OF assms(2)] by blast
  have sp: "ctx_ok rt C (set (addrs (Node l a x w r)))" "rep_ctx h rt C a" "rep h (cpar rt C) (Node l a x w r)"
    using assms(1) unfolding C(1) avl_at_split by auto
  have ok: "ctx_ok rt C {a}" using sp(1) by (auto simp: ctx_ok_def)
  have nl: "NULL \<notin> set (addrs l)" using sp(1) by (auto simp: ctx_ok_def)
  have a: "addr_at t i = a" using assms(2) C(2) by (simp add: addr_at_def addrs_def)
  have "(if i = 0 then NULL else addr_at t (i - 1)) = (if take i (nodes t) = [] then NULL else fst (last (take i (nodes t))))"
    using assms(2) by (auto simp: addr_at_def addrs_def last_conv_nth)
  also have "\<dots> = (if l = Leaf then (if before C = [] then NULL else fst (last (before C))) else last (addrs l))"
    by (cases l) (auto simp: C(3) [symmetric] addrs_def last_map)
  finally show ?thesis
    using sp prev_up_rep [OF sp(2) ok] rightmost_rep [of h a l] nl a
    by (auto simp: avl_get_prev_def mem_simps root_of_eq_NULL)
qed

lemma get_first_at:
  assumes "avl_at h (root ob) t"
  shows "avl_get_first ob h = Some (addr_at t 0)"
  using assms leftmost_rep [of h "root ob" t]
  by (cases t) (auto simp: avl_get_first_def avl_at_def mem_simps addr_at_def addrs_def hd_conv_nth)

section \<open>Self checks\<close>

lemma verify_balance_rep:
  assumes "rep h par t" "NULL \<notin> set (addrs t)"
  shows "\<exists>v. avl_verify_balance (root_of t) h = Some v \<and> (balanced t \<longrightarrow> v = int (ht t))"
  using assms
proof (induction t arbitrary: par)
  case Leaf
  then show ?case by (subst avl_verify_balance.simps) simp
next
  case (Node l a x w r)
  have cell: "h a = Some \<lparr>key = Some x, left = root_of l, right = root_of r, parent = par, rank_and_balance = w\<rparr>"
    and a: "a \<noteq> NULL" using Node.prems by auto
  obtain vl vr where l: "avl_verify_balance (root_of l) h = Some vl" "balanced l \<longrightarrow> vl = int (ht l)"
    and r: "avl_verify_balance (root_of r) h = Some vr" "balanced r \<longrightarrow> vr = int (ht r)"
    using Node.IH(1) [of a] Node.IH(2) [of a] Node.prems by auto
  show ?case
    unfolding root_of.simps using a l(2) r(2)
    by (subst avl_verify_balance.simps) (auto simp add: mem_eval cell l(1) r(1) max_def)
qed

lemma verify_parent_rep:
  assumes "rep h par t" "t \<noteq> Leaf" "NULL \<notin> set (addrs t)"
  shows "avl_verify_parent (root_of t) par h = Some ()"
  using assms
proof (induction t arbitrary: par)
  case (Node l a x w r)
  have cell: "h a = Some \<lparr>key = Some x, left = root_of l, right = root_of r, parent = par, rank_and_balance = w\<rparr>"
    using Node.prems by auto
  have l: "(if root_of l \<noteq> NULL then avl_verify_parent (root_of l) a h else Some ()) = Some ()"
    using Node by (cases "l = Leaf") (auto simp: root_of_eq_NULL)
  have r: "(if root_of r \<noteq> NULL then avl_verify_parent (root_of r) a h else Some ()) = Some ()"
    using Node by (cases "r = Leaf") (auto simp: root_of_eq_NULL)
  show ?case
    unfolding root_of.simps
    by (subst avl_verify_parent.simps) (simp add: mem_eval cell l r split del: if_split del: neq0_conv)
qed simp

lemma verify_rank_rep:
  assumes "rep h par t" "NULL \<notin> set (addrs t)" "length (nodes t) < 2 ^ 30"
  shows "avl_verify_rank (root_of t) h = Some (if ranked t then Inr (of_nat (length (nodes t))) else Inl 1)"
  using assms
proof (induction t arbitrary: par)
  case Leaf
  then show ?case by (subst avl_verify_rank.simps) simp
next
  case (Node l a x w r)
  have cell: "h a = Some \<lparr>key = Some x, left = root_of l, right = root_of r, parent = par, rank_and_balance = w\<rparr>"
    and a: "a \<noteq> NULL" using Node.prems by auto
  have l: "(if root_of l \<noteq> NULL then avl_verify_rank (root_of l) h else Some (Inr 0)) =
      Some (if ranked l then Inr (of_nat (length (nodes l))) else Inl 1)"
    using Node by (cases "l = Leaf") (auto simp: root_of_eq_NULL)
  have r: "(if root_of r \<noteq> NULL then avl_verify_rank (root_of r) h else Some (Inr 0)) =
      Some (if ranked r then Inr (of_nat (length (nodes r))) else Inl 1)"
    using Node by (cases "r = Leaf") (auto simp: root_of_eq_NULL)
  have "(ucast (AVL_GET_RANK w) :: ulong) = of_nat (length (nodes l)) + 1 \<longleftrightarrow> rk w = length (nodes l) + 1"
  proof -
    have "unat (of_nat (length (nodes l)) + 1 :: ulong) = length (nodes l) + 1"
      using Node.prems by (simp add: unat_word_ariths unat_of_nat)
    then show ?thesis by (metis rk_def unat_ulong word_unat_eq_iff)
  qed
  then show ?case
    unfolding root_of.simps using a
    by (subst avl_verify_rank.simps; cases "ranked l"; cases "ranked r")
       (simp_all add: mem_eval cell l r del: neq0_conv)
qed

lemma avl_verify_at:
  assumes "avl_at h (root ob) t" "length (nodes t) < 2 ^ 30" "unat (len ob) = length (nodes t)"
  shows "avl_verify ob h = Some (if ranked t then Inr 0 else Inl 1)"
proof (cases "t = Leaf")
  case True
  then show ?thesis using assms by (simp add: avl_verify_def unat_eq_0)
next
  case False
  have n: "NULL \<notin> set (addrs t)" and t: "rep h (root ob) t" using assms by (auto simp: avl_at_def)
  have "len ob \<noteq> 0" using False assms(3) by (auto simp: unat_eq_0)
  then show ?thesis
    using verify_balance_rep [OF t n] verify_parent_rep [OF t False n] verify_rank_rep [OF t n assms(2)]
      rd_root [OF assms(1)]
    by (auto simp: avl_verify_def)
qed

section \<open>Iteration over a range of positions\<close>

lemma find_rank_rep:
  assumes "rep h par t" "NULL \<notin> set (addrs t)" "ranked t" "length (nodes t) < 2 ^ 30"
    "0 < unat m" "unat m \<le> length (nodes t)"
  shows "avl_find_rank m (root_of t) h = Some (addrs t ! (unat m - 1))"
  using assms
proof (induction t arbitrary: par m)
  case (Node l a x w r)
  have rk: "unat (ucast (AVL_GET_RANK w) :: ulong) = length (nodes l) + 1"
    using Node.prems by (simp add: rk_def unat_ulong)
  have cell: "h a = Some \<lparr>key = Some x, left = root_of l, right = root_of r, parent = par, rank_and_balance = w\<rparr>"
    using Node.prems by auto
  have lt: "m < ucast (AVL_GET_RANK w) \<longleftrightarrow> unat m \<le> length (nodes l)"
    and gt: "ucast (AVL_GET_RANK w) < m \<longleftrightarrow> length (nodes l) + 1 < unat m"
    using rk by (auto simp: word_less_nat_alt)
  have sub: "unat (m - ucast (AVL_GET_RANK w)) = unat m - (length (nodes l) + 1)" if "length (nodes l) + 1 < unat m"
    using that rk by (simp add: unat_sub_if')
  have IHl: "avl_find_rank m (root_of l) h = Some (addrs l ! (unat m - 1))" if "unat m \<le> length (nodes l)"
    using that Node.prems by (intro Node.IH(1)) auto
  have IHr: "avl_find_rank (m - ucast (AVL_GET_RANK w)) (root_of r) h = Some (addrs r ! (unat m - length (nodes l) - 2))"
    if "length (nodes l) + 1 < unat m"
    using that Node.prems sub [OF that] by (subst Node.IH(2) [of a]) auto
  have step: "avl_find_rank m a h =
    (if m < ucast (AVL_GET_RANK w) then avl_find_rank m (root_of l) h
     else if m > ucast (AVL_GET_RANK w) then avl_find_rank (m - ucast (AVL_GET_RANK w)) (root_of r) h
     else Some a)"
    by (subst avl_find_rank.simps) (simp add: mem_eval cell)
  consider "unat m \<le> length (nodes l)" | "unat m = length (nodes l) + 1" | "length (nodes l) + 1 < unat m" by linarith
  then show ?case
    using Node.prems by cases (auto simp: step lt gt IHl IHr length_addrs nth_append Suc_diff_Suc)
qed simp

text \<open>The callback runs over positions \<open>i\<close>, \<open>i - 1\<close>, ... and gets the number of positions still to come.\<close>

fun iter_down :: "(ulong \<Rightarrow> 'k option \<Rightarrow> 's \<Rightarrow> int \<times> 's) \<Rightarrow> 'k list \<Rightarrow> nat \<Rightarrow> nat \<Rightarrow> 's \<Rightarrow> int \<times> 's" where
  "iter_down f xs i 0 s = (0, s)"
| "iter_down f xs i (Suc n) s =
     (case f (of_nat n) (Some (xs ! i)) s of (res, s) \<Rightarrow>
       if res \<noteq> 0 then (-1, s) else iter_down f xs (i - 1) n s)"

lemma rd_key_at:
  assumes "avl_at h rt t" "i < length (nodes t)"
  shows "rd key h (addr_at t i) = Some (Some (keys t ! i))" "addr_at t i \<noteq> NULL"
proof -
  obtain C l a x w r where C: "t = fill C (Node l a x w r)" "nodes t ! i = (a, x)"
    using split_at_index [OF assms(2)] by blast
  have "rep h (cpar rt C) (Node l a x w r)" "ctx_ok rt C (set (addrs (Node l a x w r)))"
    using assms(1) unfolding C(1) avl_at_split by auto
  then show "rd key h (addr_at t i) = Some (Some (keys t ! i))" "addr_at t i \<noteq> NULL"
    using C(2) assms(2) by (auto simp: addr_at_def addrs_def keys_def mem_simps ctx_ok_def)
qed

lemma range_loop_at:
  assumes "avl_at h rt t" "n \<le> Suc i" "i < length (nodes t)" "n < 2 ^ 64"
  shows "avl_range_loop f (of_nat n) (addr_at t i) s h = Some (iter_down f (keys t) i n s)"
  using assms(2-)
proof (induction n arbitrary: i s)
  case 0
  then show ?case by (subst avl_range_loop.simps) simp
next
  case (Suc n)
  obtain res s1 where f: "f (of_nat n) (Some (keys t ! i)) s = (res, s1)" by fastforce
  have nz: "(of_nat (Suc n) :: ulong) \<noteq> 0"
  proof -
    have "unat (of_nat (Suc n) :: ulong) = Suc n" using Suc.prems by (simp add: unat_of_nat del: of_nat_Suc)
    then show ?thesis by (metis nat.distinct(1) unat_0)
  qed
  have m1: "(of_nat (Suc n) :: ulong) - 1 = of_nat n" by simp
  have step: "avl_range_loop f (of_nat (Suc n)) (addr_at t i) s h =
      (if res \<noteq> 0 then Some (-1, s1) else do {
         node \<leftarrow> avl_get_prev (addr_at t i) h;
         avl_range_loop f (of_nat n) node s1 h })"
    using nz by (subst avl_range_loop.simps) (simp add: rd_key_at(1) [OF assms(1) Suc.prems(2)] m1 f del: of_nat_Suc)
  show ?case
  proof (cases "n = 0")
    case True
    have "avl_range_loop f 0 node s1 h = Some (0, s1)" for node by (subst avl_range_loop.simps) simp
    with True f step show ?thesis by (auto simp: get_prev_at [OF assms(1) Suc.prems(2)])
  next
    case False
    then have "i \<noteq> 0" "n \<le> Suc (i - 1)" "i - 1 < length (nodes t)" using Suc.prems by auto
    with Suc.IH [of "i - 1" s1] Suc.prems f step show ?thesis
      by (auto simp: get_prev_at [OF assms(1) Suc.prems(2)])
  qed
qed

section \<open>Positions of keys\<close>

text \<open>The position of the node the search ends at, or the number of nodes passed on the right.\<close>

fun find_pos :: "('k \<Rightarrow> 'k \<Rightarrow> int) \<Rightarrow> 'k \<Rightarrow> 'k ptree \<Rightarrow> nat + nat" where
  "find_pos cmp k Leaf = Inl 0"
| "find_pos cmp k (Node l a x w r) =
     (if cmp k x < 0 then find_pos cmp k l
      else if cmp k x > 0 then map_sum ((+) (length (nodes l) + 1)) ((+) (length (nodes l) + 1)) (find_pos cmp k r)
      else Inr (length (nodes l)))"

lemma find_pos_bound: "find_pos cmp k t = Inr i \<Longrightarrow> i < length (nodes t)"
proof (induction t arbitrary: i)
  case (Node l a x w r)
  then show ?case
    by (cases "find_pos cmp k r") (fastforce split: if_splits)+
qed simp

definition count_less :: "('k \<Rightarrow> 'k \<Rightarrow> int) \<Rightarrow> 'k \<Rightarrow> 'k list \<Rightarrow> nat" where
  "count_less cmp k xs = length (filter (\<lambda>x. 0 < cmp k x) xs)"

fun root_word :: "'k ptree \<Rightarrow> uint" where
  "root_word Leaf = 0"
| "root_word (Node l a x w r) = w"

lemma index_loop_rep:
  fixes cmpo :: "'k option \<Rightarrow> 'k option \<Rightarrow> int"
  defines "cmp \<equiv> \<lambda>x y. cmpo (Some x) (Some y)"
  assumes "rep h par t" "t \<noteq> Leaf" "NULL \<notin> set (addrs t)" "ranked t"
    "m = of_nat off + ucast (AVL_GET_RANK (root_word t))"
  shows "avl_index_loop cmpo (Some k) m (root_of t) h =
    Some (case find_pos cmp k t of Inr i \<Rightarrow> (addrs t ! i, Some (of_nat (off + i)))
          | Inl c \<Rightarrow> (NULL, Some (of_nat (off + c) - 1)))"
  using assms(2-)
proof (induction t arbitrary: par m off)
  case (Node l a x w r)
  have cell: "h a = Some \<lparr>key = Some x, left = root_of l, right = root_of r, parent = par, rank_and_balance = w\<rparr>"
    and n: "NULL \<notin> set (addrs l)" "NULL \<notin> set (addrs r)" using Node.prems by auto
  have rk: "(ucast (AVL_GET_RANK w) :: ulong) = of_nat (length (nodes l) + 1)"
    using Node.prems by (metis ranked.simps(2) rk_def of_nat_unat)
  consider "cmp k x < 0" | "cmp k x > 0" | "cmp k x = 0" by linarith
  then show ?case
  proof cases
    case 1
    show ?thesis
    proof (cases l)
      case Leaf
      then show ?thesis
        using 1 Node.prems(5) rk unfolding root_of.simps
        by (subst avl_index_loop.simps) (simp add: mem_eval cell cmp_def)
    next
      case (Node l1 b y v r1)
      have b: "b \<noteq> NULL" "get_rank h b = Some (AVL_GET_RANK v)"
        using Node.prems Node by (auto simp: mem_simps)
      have "avl_index_loop cmpo (Some k) m a h =
          avl_index_loop cmpo (Some k) (m - ucast (AVL_GET_RANK w) + ucast (AVL_GET_RANK v)) b h"
        using 1 b by (subst avl_index_loop.simps) (simp add: mem_eval cell cmp_def Node)
      moreover have "avl_index_loop cmpo (Some k) (m - ucast (AVL_GET_RANK w) + ucast (AVL_GET_RANK v)) b h =
          Some (case find_pos cmp k l of Inr i \<Rightarrow> (addrs l ! i, Some (of_nat (off + i)))
          | Inl c \<Rightarrow> (NULL, Some (of_nat (off + c) - 1)))"
        using Node.IH(1) [of a "m - ucast (AVL_GET_RANK w) + ucast (AVL_GET_RANK v)" off] Node.prems Node
        by simp
      ultimately show ?thesis
        using 1 find_pos_bound [of cmp k l] by (auto split: sum.split simp: nth_append length_addrs)
    qed
  next
    case 2
    show ?thesis
    proof (cases r)
      case Leaf
      then show ?thesis
        using 2 Node.prems(5) rk unfolding root_of.simps
        by (subst avl_index_loop.simps) (simp add: mem_eval cell cmp_def add.assoc)
    next
      case (Node l1 b y v r1)
      have b: "b \<noteq> NULL" "get_rank h b = Some (AVL_GET_RANK v)"
        using Node.prems Node by (auto simp: mem_simps)
      have "avl_index_loop cmpo (Some k) m a h = avl_index_loop cmpo (Some k) (m + ucast (AVL_GET_RANK v)) b h"
        using 2 b by (subst avl_index_loop.simps) (simp add: mem_eval cell cmp_def Node)
      moreover have "avl_index_loop cmpo (Some k) (m + ucast (AVL_GET_RANK v)) b h =
          Some (case find_pos cmp k r of Inr i \<Rightarrow> (addrs r ! i, Some (of_nat (off + length (nodes l) + 1 + i)))
          | Inl c \<Rightarrow> (NULL, Some (of_nat (off + length (nodes l) + 1 + c) - 1)))"
        using Node.IH(2) [of a "m + ucast (AVL_GET_RANK v)" "off + length (nodes l) + 1"] Node.prems Node rk
        by (simp add: algebra_simps)
      ultimately show ?thesis
        using 2 by (auto split: sum.split simp: nth_append length_addrs algebra_simps)
    qed
  next
    case 3
    then show ?thesis
      using Node.prems(5) rk unfolding root_of.simps
      by (subst avl_index_loop.simps) (simp add: mem_eval cell cmp_def nth_append length_addrs)
  qed
qed simp

context key_order
begin

lemma sorted_sides:
  assumes "key_sorted cmp (us @ x # vs)"
  shows "cmp k x < 0 \<Longrightarrow> z \<in> set vs \<Longrightarrow> cmp k z < 0"
    and "cmp k x > 0 \<Longrightarrow> z \<in> set us \<Longrightarrow> cmp k z > 0"
proof -
  assume "cmp k x < 0" "z \<in> set vs"
  with assms show "cmp k z < 0" using cmp_less_trans2 [of k x z] by (auto simp: sorted_wrt_append)
next
  assume "cmp k x > 0" "z \<in> set us"
  with assms show "cmp k z > 0"
    using cmp_less_trans [of z x k] cmp_sym [of z k] cmp_sym [of x k] by (auto simp: sorted_wrt_append)
qed

lemma find_pos_sorted:
  assumes "key_sorted cmp (keys t)"
  shows "case find_pos cmp k t of Inr i \<Rightarrow> i < length (keys t) \<and> cmp k (keys t ! i) = 0
    | Inl c \<Rightarrow> c = count_less cmp k (keys t) \<and> (\<forall>x\<in>set (keys t). cmp k x \<noteq> 0)"
  using assms
proof (induction t)
  case (Node l a x w r)
  have s: "key_sorted cmp (keys l @ x # keys r)" using Node.prems by simp
  note up = sorted_sides(1) [OF s, of k] and down = sorted_sides(2) [OF s, of k]
  consider "cmp k x < 0" | "cmp k x > 0" | "cmp k x = 0" by linarith
  then show ?case
  proof cases
    case 1
    then have "filter (\<lambda>x. 0 < cmp k x) (keys r) = []" using up by (fastforce simp: filter_empty_conv)
    with 1 Node show ?thesis
      by (fastforce simp: sorted_wrt_append count_less_def nth_append dest: up split: sum.splits)
  next
    case 2
    then have "filter (\<lambda>x. 0 < cmp k x) (keys l) = keys l" using down by (simp add: filter_id_conv)
    with 2 Node show ?thesis
      by (fastforce simp: sorted_wrt_append count_less_def nth_append length_keys dest: down split: sum.splits)
  next
    case 3
    then show ?thesis by (simp add: nth_append length_keys)
  qed
qed (simp add: count_less_def)

end

lemma get_index_at:
  assumes "avl_at h (root ob) t" "ranked t" "t \<noteq> Leaf"
  shows "avl_get_index_by_key ob (Some k) h =
    Some (case find_pos (tcmp ob) k t of Inr i \<Rightarrow> (addr_at t i, Some (of_nat i)) | Inl c \<Rightarrow> (NULL, Some (of_nat c - 1)))"
proof -
  obtain l a x w r where t: "t = Node l a x w r" using assms(3) by (cases t) auto
  have rep: "rep h (root ob) t" "NULL \<notin> set (addrs t)" using assms(1) by (auto simp: avl_at_def)
  have "get_rank h a = Some (AVL_GET_RANK w)" using rep t by (auto simp: mem_simps)
  then show ?thesis
    using rd_root [OF assms(1)] assms(3) index_loop_rep [OF rep(1) assms(3) rep(2) assms(2), of "ucast (AVL_GET_RANK w)" 0]
      find_pos_bound [of "tcmp ob" k t]
    by (auto simp: avl_get_index_by_key_def t addr_at_def split: sum.splits)
qed

section \<open>Spans of equal keys\<close>

fun run_left :: "('k \<Rightarrow> 'k \<Rightarrow> int) \<Rightarrow> 'k \<Rightarrow> 'k list \<Rightarrow> nat \<Rightarrow> nat" where
  "run_left cmp k xs 0 = 0"
| "run_left cmp k xs (Suc i) = (if cmp k (xs ! i) = 0 then run_left cmp k xs i else Suc i)"

function run_right :: "('k \<Rightarrow> 'k \<Rightarrow> int) \<Rightarrow> 'k \<Rightarrow> 'k list \<Rightarrow> nat \<Rightarrow> nat" where
  "run_right cmp k xs i =
     (if Suc i < length xs \<and> cmp k (xs ! Suc i) = 0 then run_right cmp k xs (Suc i) else i)"
  by pat_completeness auto
termination by (relation "measure (\<lambda>(_, _, xs, i). length xs - i)") auto

declare run_right.simps [simp del]

lemma of_nat_ulong_eq_0:
  assumes "n < 2 ^ 64"
  shows "(of_nat n :: ulong) = 0 \<longleftrightarrow> n = 0"
proof -
  have "unat (of_nat n :: ulong) = n" using assms by (simp add: unat_of_nat)
  then show ?thesis by (metis of_nat_0 unat_eq_0)
qed

lemma span_left_at:
  fixes cmpo :: "'k option \<Rightarrow> 'k option \<Rightarrow> int"
  defines "cmp \<equiv> \<lambda>x y. cmpo (Some x) (Some y)"
  assumes "avl_at h rt t" "i < length (nodes t)" "length (nodes t) < 2 ^ 30"
  shows "avl_span_left cmpo (Some k) (if i = 0 then NULL else addr_at t (i - 1)) (of_nat i) h =
    Some (of_nat (run_left cmp k (keys t) i))"
  using assms(3)
proof (induction i)
  case 0
  then show ?case by (subst avl_span_left.simps) simp
next
  case (Suc i)
  then have i: "i < length (nodes t)" by simp
  have pos: "0 < (of_nat (Suc i) :: ulong)"
    using of_nat_ulong_eq_0 [of "Suc i"] Suc.prems assms(4) by (simp add: word_gt_0 del: of_nat_Suc)
  have m1: "(of_nat (Suc i) :: ulong) - 1 = of_nat i" by simp
  show ?case
    using pos Suc.IH i
    by (subst avl_span_left.simps)
       (simp add: rd_key_at [OF assms(2) i] get_prev_at [OF assms(2) i] m1 cmp_def del: of_nat_Suc neq0_conv)
qed

lemma span_right_at:
  fixes cmpo :: "'k option \<Rightarrow> 'k option \<Rightarrow> int"
  defines "cmp \<equiv> \<lambda>x y. cmpo (Some x) (Some y)"
  assumes "avl_at h rt t" "i < length (nodes t)" "length (nodes t) < 2 ^ 30" "unat n = length (nodes t)"
  shows "avl_span_right cmpo (Some k) n (addr_at t (Suc i)) (of_nat i) h =
    Some (of_nat (run_right cmp k (keys t) i))"
  using assms(3)
proof (induction i rule: measure_induct_rule [of "\<lambda>i. length (nodes t) - i"])
  case (less i)
  have le: "(of_nat i :: ulong) \<le> ucast n"
    using less.prems assms(4,5) by (simp add: word_le_nat_alt unat_ulong unat_of_nat)
  show ?case
  proof (cases "Suc i < length (nodes t)")
    case True
    have *: "of_nat i + 1 = (of_nat (Suc i) :: ulong)" by simp
    show ?thesis
      using less.IH [of "Suc i"] True le
      by (subst avl_span_right.simps, subst run_right.simps)
         (simp add: rd_key_at [OF assms(2) True] get_next_at [OF assms(2) True] cmp_def length_keys * del: of_nat_Suc neq0_conv)
  next
    case False
    then show ?thesis
      by (subst avl_span_right.simps, subst run_right.simps) (simp add: addr_at_def length_keys)
  qed
qed

definition count_le :: "('k \<Rightarrow> 'k \<Rightarrow> int) \<Rightarrow> 'k \<Rightarrow> 'k list \<Rightarrow> nat" where
  "count_le cmp k xs = length (filter (\<lambda>x. 0 \<le> cmp k x) xs)"

context key_order
begin

lemma sorted_nth: "key_sorted cmp xs \<Longrightarrow> i \<le> j \<Longrightarrow> j < length xs \<Longrightarrow> cmp (xs ! i) (xs ! j) \<le> 0"
  using sorted_wrt_nth_less [of "\<lambda>x y. cmp x y \<le> 0" xs i j] by (cases "i = j") (auto simp: cmp_refl)

lemma count_prefix:
  assumes "\<And>i. i < p \<Longrightarrow> P (xs ! i)" "\<And>i. p \<le> i \<Longrightarrow> i < length xs \<Longrightarrow> \<not> P (xs ! i)" "p \<le> length xs"
  shows "length (filter P xs) = p"
proof -
  have "filter P xs = filter P (take p xs) @ filter P (drop p xs)"
    by (metis append_take_drop_id filter_append)
  moreover have "filter P (take p xs) = take p xs"
    using assms by (auto simp: filter_id_conv in_set_conv_nth)
  moreover have "filter P (drop p xs) = []"
    using assms by (auto simp: filter_empty_conv in_set_conv_nth)
  ultimately show ?thesis using assms(3) by simp
qed

lemma cmp_nth_le: "key_sorted cmp xs \<Longrightarrow> i \<le> j \<Longrightarrow> j < length xs \<Longrightarrow> 0 \<le> cmp k (xs ! j) \<Longrightarrow> 0 \<le> cmp k (xs ! i)"
  using cmp_trans [of "xs ! i" "xs ! j" k] sorted_nth [of xs i j] cmp_sym [of k "xs ! j"] cmp_sym [of k "xs ! i"]
  by linarith

lemma cmp_nth_less: "key_sorted cmp xs \<Longrightarrow> i \<le> j \<Longrightarrow> j < length xs \<Longrightarrow> 0 < cmp k (xs ! j) \<Longrightarrow> 0 < cmp k (xs ! i)"
  using cmp_less_trans [of "xs ! i" "xs ! j" k] sorted_nth [of xs i j] cmp_sym [of "xs ! j" k] cmp_sym [of "xs ! i" k]
  by linarith

lemma run_left_sorted:
  assumes "key_sorted cmp xs" "i < length xs" "cmp k (xs ! i) = 0"
  shows "run_left cmp k xs i = count_less cmp k xs"
proof -
  have inv: "run_left cmp k xs i \<le> i \<and> cmp k (xs ! run_left cmp k xs i) = 0 \<and>
      (run_left cmp k xs i = 0 \<or> cmp k (xs ! (run_left cmp k xs i - 1)) \<noteq> 0)"
    using assms(3) by (induction i) auto
  define p where "p = run_left cmp k xs i"
  have p: "p \<le> i" "cmp k (xs ! p) = 0" "p = 0 \<or> cmp k (xs ! (p - 1)) \<noteq> 0" using inv by (auto simp: p_def)
  have "count_less cmp k xs = p" unfolding count_less_def
  proof (rule count_prefix)
    fix j assume j: "j < p"
    then have "0 \<le> cmp k (xs ! (p - 1))" using cmp_nth_le [OF assms(1), of "p - 1" p k] p assms(2) by auto
    then have "0 < cmp k (xs ! (p - 1))" using p(3) j by auto
    then show "0 < cmp k (xs ! j)" using cmp_nth_less [OF assms(1), of j "p - 1" k] j p(1) assms(2) by auto
  next
    fix j assume "p \<le> j" "j < length xs"
    then show "\<not> 0 < cmp k (xs ! j)" using cmp_nth_less [OF assms(1), of p j k] p(2) by auto
  qed (use p assms in auto)
  then show ?thesis by (simp add: p_def)
qed

lemma run_right_sorted:
  assumes "key_sorted cmp xs" "i < length xs" "cmp k (xs ! i) = 0"
  shows "Suc (run_right cmp k xs i) = count_le cmp k xs"
proof -
  have inv: "i \<le> run_right cmp k xs i \<and> run_right cmp k xs i < length xs \<and> cmp k (xs ! run_right cmp k xs i) = 0 \<and>
      (Suc (run_right cmp k xs i) < length xs \<longrightarrow> cmp k (xs ! Suc (run_right cmp k xs i)) \<noteq> 0)"
    using assms(2,3)
  proof (induction cmp k xs i rule: run_right.induct)
    case (1 cmp k xs i)
    then show ?case by (subst (1 2 3 4 5) run_right.simps) (auto split: if_splits)
  qed
  define p where "p = run_right cmp k xs i"
  have p: "p < length xs" "cmp k (xs ! p) = 0" "Suc p < length xs \<longrightarrow> cmp k (xs ! Suc p) \<noteq> 0" using inv by (auto simp: p_def)
  have "count_le cmp k xs = Suc p" unfolding count_le_def
  proof (rule count_prefix)
    fix j assume j: "j < Suc p"
    then show "0 \<le> cmp k (xs ! j)" using cmp_nth_le [OF assms(1), of j p k] p by auto
  next
    fix j assume j: "Suc p \<le> j" "j < length xs"
    then have "\<not> 0 < cmp k (xs ! Suc p)" using cmp_nth_less [OF assms(1), of p "Suc p" k] p by auto
    then have "\<not> 0 \<le> cmp k (xs ! Suc p)" using p(3) j by auto
    then show "\<not> 0 \<le> cmp k (xs ! j)" using cmp_nth_le [OF assms(1), of "Suc p" j k] j by auto
  qed (use p in auto)
  then show ?thesis by (simp add: p_def)
qed

end

section \<open>Nearest keys\<close>

fun most_key :: "('k \<Rightarrow> 'k \<Rightarrow> int) \<Rightarrow> 'k \<Rightarrow> 'k option \<Rightarrow> 'k ptree \<Rightarrow> 'k option" where
  "most_key cmp k v Leaf = v"
| "most_key cmp k v (Node l a x w r) =
     (if cmp k x = 0 then Some x else if cmp k x < 0 then most_key cmp k v l else most_key cmp k (Some x) r)"

fun least_key :: "('k \<Rightarrow> 'k \<Rightarrow> int) \<Rightarrow> 'k \<Rightarrow> 'k option \<Rightarrow> 'k ptree \<Rightarrow> 'k option" where
  "least_key cmp k v Leaf = v"
| "least_key cmp k v (Node l a x w r) =
     (if cmp k x = 0 then Some x else if cmp k x < 0 then least_key cmp k (Some x) l else least_key cmp k v r)"

lemma item_most_rep:
  fixes cmpo :: "'k option \<Rightarrow> 'k option \<Rightarrow> int"
  defines "cmp \<equiv> \<lambda>x y. cmpo (Some x) (Some y)"
  assumes "rep h par t" "t \<noteq> Leaf" "NULL \<notin> set (addrs t)"
  shows "avl_item_most_loop cmpo (Some k) v (root_of t) h =
    Some (if most_key cmp k v t = None then -1 else 0, most_key cmp k v t)"
  using assms(2-)
proof (induction t arbitrary: par v)
  case (Node l a x w r)
  have cell: "h a = Some \<lparr>key = Some x, left = root_of l, right = root_of r, parent = par, rank_and_balance = w\<rparr>"
    using Node.prems by auto
  show ?case
    unfolding root_of.simps using Node
    by (subst avl_item_most_loop.simps; cases "l = Leaf"; cases "r = Leaf")
       (auto simp: mem_eval cell cmp_def root_of_eq_NULL Option.is_none_def)
qed simp

lemma item_least_rep:
  fixes cmpo :: "'k option \<Rightarrow> 'k option \<Rightarrow> int"
  defines "cmp \<equiv> \<lambda>x y. cmpo (Some x) (Some y)"
  assumes "rep h par t" "t \<noteq> Leaf" "NULL \<notin> set (addrs t)"
  shows "avl_item_least_loop cmpo (Some k) v (root_of t) h =
    Some (if least_key cmp k v t = None then -1 else 0, least_key cmp k v t)"
  using assms(2-)
proof (induction t arbitrary: par v)
  case (Node l a x w r)
  have cell: "h a = Some \<lparr>key = Some x, left = root_of l, right = root_of r, parent = par, rank_and_balance = w\<rparr>"
    using Node.prems by auto
  show ?case
    unfolding root_of.simps using Node
    by (subst avl_item_least_loop.simps; cases "l = Leaf"; cases "r = Leaf")
       (auto simp: mem_eval cell cmp_def root_of_eq_NULL Option.is_none_def)
qed simp

context key_order
begin

lemma most_key_sorted:
  assumes "key_sorted cmp (keys t)"
  shows "case most_key cmp k v t of
      None \<Rightarrow> v = None \<and> (\<forall>y\<in>set (keys t). cmp k y < 0)
    | Some x \<Rightarrow> (x \<in> set (keys t) \<and> 0 \<le> cmp k x \<and> (\<forall>y\<in>set (keys t). 0 \<le> cmp k y \<longrightarrow> cmp y x \<le> 0)) \<or>
        (v = Some x \<and> (\<forall>y\<in>set (keys t). cmp k y < 0))"
  using assms
proof (induction t arbitrary: v)
  case (Node l a x w r)
  have s: "key_sorted cmp (keys l @ x # keys r)" using Node.prems by simp
  note up = sorted_sides(1) [OF s, of k] and down = sorted_sides(2) [OF s, of k]
  have lx: "cmp y x \<le> 0" if "y \<in> set (keys l)" for y using that s by (auto simp: sorted_wrt_append)
  have lr: "cmp y z \<le> 0" if "y \<in> insert x (set (keys l))" "z \<in> set (keys r)" for y z
    using that s by (auto simp: sorted_wrt_append)
  consider "cmp k x < 0" | "cmp k x > 0" | "cmp k x = 0" by linarith
  then show ?case
  proof cases
    case 1
    have l: "key_sorted cmp (keys l)" using s by (simp add: sorted_wrt_append)
    have neg: "\<forall>y\<in>set (keys r). cmp k y < 0" using up 1 by blast
    show ?thesis
    proof (cases "most_key cmp k v l")
      case None
      with 1 neg Node.IH(1) [OF l, of v] show ?thesis by (simp add: ball_Un)
    next
      case (Some z)
      with neg Node.IH(1) [OF l, of v] have "(z \<in> set (keys l) \<and> 0 \<le> cmp k z \<and>
          (\<forall>y\<in>set (keys l). 0 \<le> cmp k y \<longrightarrow> cmp y z \<le> 0)) \<or> (v = Some z \<and> (\<forall>y\<in>set (keys l). cmp k y < 0))"
        by simp
      moreover have "\<forall>y\<in>insert x (set (keys r)). \<not> 0 \<le> cmp k y" using neg 1 by auto
      ultimately show ?thesis using Some 1 neg by (simp add: ball_Un) blast
    qed
  next
    case 2
    have r: "key_sorted cmp (keys r)" using s by (simp add: sorted_wrt_append)
    obtain z where z: "most_key cmp k (Some x) r = Some z" "z \<in> set (keys r) \<and> 0 \<le> cmp k z \<and>
        (\<forall>y\<in>set (keys r). 0 \<le> cmp k y \<longrightarrow> cmp y z \<le> 0) \<or> z = x \<and> (\<forall>y\<in>set (keys r). cmp k y < 0)"
      using Node.IH(2) [OF r, of "Some x"] by (cases "most_key cmp k (Some x) r") auto
    from z(2) have "0 \<le> cmp k z \<and> z \<in> insert x (set (keys r)) \<and>
        (\<forall>y\<in>set (keys l) \<union> insert x (set (keys r)). 0 \<le> cmp k y \<longrightarrow> cmp y z \<le> 0)"
    proof
      assume "z \<in> set (keys r) \<and> 0 \<le> cmp k z \<and> (\<forall>y\<in>set (keys r). 0 \<le> cmp k y \<longrightarrow> cmp y z \<le> 0)"
      then show ?thesis using lr by blast
    next
      assume "z = x \<and> (\<forall>y\<in>set (keys r). cmp k y < 0)"
      moreover have "\<not> 0 \<le> cmp k y" if "cmp k y < 0" for y using that by simp
      ultimately show ?thesis using lx 2 cmp_refl [of x] by (metis UnE insertE insertI1 order.order_iff_strict)
    qed
    with 2 z(1) show ?thesis by auto
  next
    case 3
    have "cmp y x \<le> 0" if "y \<in> set (keys r)" "0 \<le> cmp k y" for y
    proof -
      have "cmp y k \<le> 0" using that(2) cmp_sym [of k y] by linarith
      then show ?thesis using cmp_trans [of y k x] 3 by simp
    qed
    with 3 lx show ?thesis by (auto simp: cmp_refl)
  qed
qed (simp split: option.split)

lemma least_key_sorted:
  assumes "key_sorted cmp (keys t)"
  shows "case least_key cmp k v t of
      None \<Rightarrow> v = None \<and> (\<forall>y\<in>set (keys t). 0 < cmp k y)
    | Some x \<Rightarrow> (x \<in> set (keys t) \<and> cmp k x \<le> 0 \<and> (\<forall>y\<in>set (keys t). cmp k y \<le> 0 \<longrightarrow> cmp x y \<le> 0)) \<or>
        (v = Some x \<and> (\<forall>y\<in>set (keys t). 0 < cmp k y))"
  using assms
proof (induction t arbitrary: v)
  case (Node l a x w r)
  have s: "key_sorted cmp (keys l @ x # keys r)" using Node.prems by simp
  note up = sorted_sides(1) [OF s, of k] and down = sorted_sides(2) [OF s, of k]
  have xr: "cmp x y \<le> 0" if "y \<in> set (keys r)" for y using that s by (auto simp: sorted_wrt_append)
  have lr: "cmp y z \<le> 0" if "y \<in> set (keys l)" "z \<in> insert x (set (keys r))" for y z
    using that s by (auto simp: sorted_wrt_append)
  consider "cmp k x < 0" | "cmp k x > 0" | "cmp k x = 0" by linarith
  then show ?case
  proof cases
    case 1
    have l: "key_sorted cmp (keys l)" using s by (simp add: sorted_wrt_append)
    obtain z where z: "least_key cmp k (Some x) l = Some z" "z \<in> set (keys l) \<and> cmp k z \<le> 0 \<and>
        (\<forall>y\<in>set (keys l). cmp k y \<le> 0 \<longrightarrow> cmp z y \<le> 0) \<or> z = x \<and> (\<forall>y\<in>set (keys l). 0 < cmp k y)"
      using Node.IH(1) [OF l, of "Some x"] by (cases "least_key cmp k (Some x) l") auto
    from z(2) have "cmp k z \<le> 0 \<and> z \<in> insert x (set (keys l)) \<and>
        (\<forall>y\<in>set (keys l) \<union> insert x (set (keys r)). cmp k y \<le> 0 \<longrightarrow> cmp z y \<le> 0)"
    proof
      assume "z \<in> set (keys l) \<and> cmp k z \<le> 0 \<and> (\<forall>y\<in>set (keys l). cmp k y \<le> 0 \<longrightarrow> cmp z y \<le> 0)"
      then show ?thesis using lr by blast
    next
      assume "z = x \<and> (\<forall>y\<in>set (keys l). 0 < cmp k y)"
      then show ?thesis using xr 1 cmp_refl [of x] by fastforce
    qed
    with 1 z(1) show ?thesis by auto
  next
    case 2
    have r: "key_sorted cmp (keys r)" using s by (simp add: sorted_wrt_append)
    have pos: "\<forall>y\<in>set (keys l). 0 < cmp k y" using down 2 by blast
    show ?thesis
    proof (cases "least_key cmp k v r")
      case None
      with 2 pos Node.IH(2) [OF r, of v] show ?thesis by (simp add: ball_Un)
    next
      case (Some z)
      with pos Node.IH(2) [OF r, of v] have "(z \<in> set (keys r) \<and> cmp k z \<le> 0 \<and>
          (\<forall>y\<in>set (keys r). cmp k y \<le> 0 \<longrightarrow> cmp z y \<le> 0)) \<or> (v = Some z \<and> (\<forall>y\<in>set (keys r). 0 < cmp k y))"
        by simp
      moreover have "\<forall>y\<in>insert x (set (keys l)). \<not> cmp k y \<le> 0" using pos 2 by auto
      ultimately show ?thesis using Some 2 pos by (simp add: ball_Un) blast
    qed
  next
    case 3
    have "cmp x y \<le> 0" if "y \<in> set (keys l)" "cmp k y \<le> 0" for y
      using cmp_trans [of x k y] that 3 cmp_sym [of k x] cmp_sym [of x k] by linarith
    with 3 xr show ?thesis by (auto simp: cmp_refl)
  qed
qed (simp split: option.split)

end

section \<open>Summary\<close>

lemma get_by_key_repr:
  fixes ob :: "('k, 'a) avl_tree"
  assumes "key_order (tcmp ob)" and "avl_repr h ob xs"
  shows "if \<exists>x\<in>set xs. tcmp ob k x = 0
    then \<exists>x\<in>set xs. tcmp ob k x = 0 \<and> avl_get_by_key ob (Some k) h = Some (0, Some (Some x))
    else avl_get_by_key ob (Some k) h = Some (-1, None)"
proof -
  obtain t where t: "avl_at h (root ob) t" "key_sorted (tcmp ob) (keys t)" "keys t = xs"
    using assms(2) by (auto simp: avl_repr_def avl_wf_def)
  have "avl_get_by_key ob (Some k) h =
      Some (case find_key (tcmp ob) k t of None \<Rightarrow> (-1, None) | Some x \<Rightarrow> (0, Some (Some x)))"
    using t(1) rd_root [OF t(1)] get_by_key_rep [of h "root ob" t "compare_fun ob (compare_arg ob)" k]
    by (cases "t = Leaf") (auto simp: avl_get_by_key_def avl_at_def)
  with key_order.find_key_sorted [OF assms(1) t(2), of k] t(3) show ?thesis
    by (cases "find_key (tcmp ob) k t") auto
qed

section \<open>Properties\<close>

text \<open>C24: \<open>avl_get_by_key\<close> finds a key of the tree that compares equal if there is one, stores it and
  returns 0; otherwise it stores nothing and returns -1.\<close>

theorem avl_get_by_key_correct:
  fixes ob :: "('k, 'a) avl_tree"
  assumes "key_order (tcmp ob)" and "avl_repr h ob xs"
  shows "if \<exists>x\<in>set xs. tcmp ob k x = 0
    then \<exists>x\<in>set xs. tcmp ob k x = 0 \<and> avl_get_by_key ob (Some k) h = Some (0, Some (Some x))
    else avl_get_by_key ob (Some k) h = Some (-1, None)"
  by (rule get_by_key_repr [OF assms])

theorem avl_get_by_key_correct_witness:
  "key_order (tcmp ex_ob) \<and> avl_repr ex_heap ex_ob [10, 20, 30] \<and>
   avl_get_by_key ex_ob (Some 20) ex_heap = Some (0, Some (Some 20)) \<and>
   avl_get_by_key ex_ob (Some 25) ex_heap = Some (-1, None)"
  using avl_get_by_key_correct [OF ex_order ex_repr, of 20] avl_get_by_key_correct [OF ex_order ex_repr, of 25]
    ex_order ex_repr by (simp add: ex_ob_def ex_cmp_def)

text \<open>\<open>avl_get_by_index\<close> is list indexing: the key at that position in key order, or -1 when the
  position is out of range (for every 64-bit index, the largest one included).\<close>

theorem avl_get_by_index_correct:
  assumes "avl_repr h ob xs"
  shows "avl_get_by_index ob i h =
    Some (if unat i < length xs then (0, Some (Some (xs ! unat i))) else (-1, None))"
proof -
  obtain t where t: "avl_at h (root ob) t" "ranked t" "keys t = xs" "length (nodes t) < 2 ^ 30"
    using assms by (auto simp: avl_repr_def avl_wf_def length_keys)
  have rep: "rep h (root ob) t" "NULL \<notin> set (addrs t)" using t(1) by (auto simp: avl_at_def)
  have u: "unat (i + 1) = (if unat i = 2 ^ 64 - 1 then 0 else unat i + 1)"
    using unsigned_less [of i, where 'a = nat] by (auto simp: unat_word_ariths)
  show ?thesis
    using get_by_index_rep [OF rep t(2,4), of "i + 1"] rd_root [OF t(1)] t(3,4) u
    by (auto simp: avl_get_by_index_def length_keys [symmetric])
qed

theorem avl_get_by_index_correct_witness:
  "avl_repr ex_heap ex_ob [10, 20, 30] \<and> avl_get_by_index ex_ob 2 ex_heap = Some (0, Some (Some 30)) \<and>
   avl_get_by_index ex_ob 3 ex_heap = Some (-1, None)"
  using avl_get_by_index_correct [OF ex_repr, of 2] avl_get_by_index_correct [OF ex_repr, of 3] ex_repr by simp

text \<open>\<open>avl_iterate_inorder\<close> calls the callback on the keys in ascending order and stops at the first
  non-zero result, which it returns.\<close>

theorem avl_iterate_inorder_correct:
  assumes "avl_repr h ob xs"
  shows "avl_iterate_inorder ob f s h = Some (iter_keys f xs s)"
proof -
  obtain t where t: "avl_at h (root ob) t" "keys t = xs" "unat (len ob) = length xs"
    using assms by (auto simp: avl_repr_def avl_wf_def)
  show ?thesis
  proof (cases "t = Leaf")
    case True
    with t show ?thesis by (auto simp: avl_iterate_inorder_def unat_eq_0)
  next
    case False
    moreover have "len ob \<noteq> 0" using t False by (auto simp: keys_def)
    ultimately show ?thesis
      using iterate_rep [of h "root ob" t f s] rd_root [OF t(1)] t by (auto simp: avl_iterate_inorder_def avl_at_def)
  qed
qed

theorem avl_iterate_inorder_correct_witness:
  "avl_repr ex_heap ex_ob [10, 20, 30] \<and>
   avl_iterate_inorder ex_ob (\<lambda>k ks. (if k = Some 20 then 7 else 0, ks @ [k])) [] ex_heap =
     Some (7, [Some 10, Some 20])"
  using avl_iterate_inorder_correct [OF ex_repr, of "\<lambda>k ks. (if k = Some 20 then 7 else 0, ks @ [k])" "[]"] ex_repr
  by simp

text \<open>\<open>avl_get_first\<close> and \<open>avl_get_next\<close> walk through all nodes in key order and end with NULL, and
  \<open>avl_get_prev\<close> walks back: on the nodes \<open>addrs t\<close> of the tree in order, the first call yields the first,
  and from position \<open>i\<close> the calls yield positions \<open>i + 1\<close> and \<open>i - 1\<close>, or NULL at the ends.\<close>

theorem avl_walk_correct:
  assumes "avl_at h (root ob) t" and "i < length (addrs t)"
  shows "avl_get_first ob h = Some (addrs t ! 0) \<and>
    avl_get_next (addrs t ! i) h = Some (if i + 1 < length (addrs t) then addrs t ! (i + 1) else NULL) \<and>
    avl_get_prev (addrs t ! i) h = Some (if i = 0 then NULL else addrs t ! (i - 1))"
  using assms get_first_at [OF assms(1)] get_next_at [OF assms(1), of i] get_prev_at [OF assms(1), of i]
  by (auto simp: addr_at_def length_addrs)

theorem avl_walk_correct_witness:
  "avl_at ex_heap (root ex_ob) ex_tree \<and> addrs ex_tree = [2, 3, 4] \<and> avl_get_first ex_ob ex_heap = Some 2 \<and>
   avl_get_next 2 ex_heap = Some 3 \<and> avl_get_next 4 ex_heap = Some 0 \<and> avl_get_prev 3 ex_heap = Some 2"
  using avl_walk_correct [OF ex_at, of 0] avl_walk_correct [OF ex_at, of 1] avl_walk_correct [OF ex_at, of 2] ex_at
  by (simp add: ex_tree_def)

lemma lock_destroyed:
  "(case thread_rwlock_destroy l of Go l \<Rightarrow> Some (T(tp \<mapsto> l)) | _ \<Rightarrow> None) = (if l = Live rw_free then Some (T(tp \<mapsto> Dead)) else None)"
  by (simp add: thread_rwlock_destroy_def pthread_destroy_def)

lemma tree_free_repr:
  assumes "avl_at h (root ob) t" and "unat (len ob) = length (addrs t)"
  shows "avl_tree_free tp ob f s h T =
    (if T tp = Some (Live rw_free)
     then Some (free_keys f (keys t) s, \<lambda>b. if b = root ob \<or> b \<in> set (addrs t) then None else h b, T(tp := None))
     else None)"
proof -
  have rt: "root ob \<noteq> NULL" "root ob \<notin> set (addrs t)" "root ob \<in> dom h" using assms(1) by (auto simp: avl_at_def)
  define h' where "h' = (\<lambda>b. if b = root ob \<or> b \<in> set (addrs t) then None else h b)"
  have "(if len ob \<noteq> 0 then do { r \<leftarrow> rd right h (root ob); avl_tree_free_helper f r s h } else Some (s, h)) =
      Some (free_keys f (keys t) s, h |` (- set (addrs t)))"
  proof (cases "t = Leaf")
    case True
    with assms show ?thesis by (auto simp: unat_eq_0 restrict_map_def)
  next
    case False
    then have "len ob \<noteq> 0" using assms(2) by (auto simp: addrs_def)
    then show ?thesis using free_rep [of h "root ob" t f s] rd_root [OF assms(1)] assms(1) False by (auto simp: avl_at_def)
  qed
  moreover have "free_node (root ob) (h |` (- set (addrs t))) = Some h'"
    using rt by (auto simp: h'_def mem_simps restrict_map_def fun_eq_iff)
  ultimately show ?thesis
    using rt(1) by (cases "T tp") (auto simp: avl_tree_free_def lock_destroyed h'_def)
qed

text \<open>C25: \<open>avl_tree_free\<close> hands every key to \<open>free_key_fun\<close> once, in key order, frees exactly the nodes of the tree, its sentinel and
  the tree structure itself, each once, and destroys the lock of the tree before; it is undefined when the structure is not
  allocated (a second call) and when its lock is still held.\<close>

theorem avl_tree_free_correct:
  assumes "avl_at h (root ob) t" and "unat (len ob) = length (addrs t)"
  shows "avl_tree_free tp ob f s h T =
    (if T tp = Some (Live rw_free)
     then Some (free_keys f (keys t) s, \<lambda>b. if b = root ob \<or> b \<in> set (addrs t) then None else h b, T(tp := None))
     else None)"
  by (rule tree_free_repr [OF assms])

theorem avl_tree_free_correct_witness:
  "avl_at ex_heap (root ex_ob) ex_tree \<and> unat (len ex_ob) = length (addrs ex_tree) \<and>
   (\<exists>h'. avl_tree_free 9 ex_ob (Some (\<lambda>k ks. ks @ [k])) [] ex_heap [9 \<mapsto> Live rw_free] =
        Some ([Some 10, Some 20, Some 30], h', \<lambda>_. None) \<and> dom h' = {}) \<and>
   avl_tree_free 9 ex_ob (Some (\<lambda>k ks. ks @ [k])) [] ex_heap (\<lambda>_. None) = None"
proof -
  have n: "unat (len ex_ob) = length (addrs ex_tree)" by (simp add: ex_ob_def ex_tree_def)
  have "free_keys (Some (\<lambda>k ks. ks @ [k])) (keys ex_tree) [] = [Some 10, Some 20, Some 30]"
    by (simp add: ex_tree_def free_key_def)
  moreover have "dom (\<lambda>b. if b = root ex_ob \<or> b \<in> set (addrs ex_tree) then None else ex_heap b) = {}"
    by (auto simp: ex_ob_def ex_tree_def ex_heap_def split: if_splits)
  ultimately show ?thesis
    using avl_tree_free_correct [OF ex_at n, of 9 "Some (\<lambda>k ks. ks @ [k])" "[]" "[9 \<mapsto> Live rw_free]"]
      avl_tree_free_correct [OF ex_at n, of 9 "Some (\<lambda>k ks. ks @ [k])" "[]" "\<lambda>_. None"] ex_at n by auto
qed

text \<open>\<open>avl_verify\<close> ends the process with status 1 exactly when some rank is wrong; what its balance
  and parent checks find is discarded.\<close>

theorem avl_verify_correct:
  assumes "avl_at h (root ob) t" and "length (addrs t) < 2 ^ 30" and "unat (len ob) = length (addrs t)"
  shows "avl_verify ob h = Some (if ranked t then Inr 0 else Inl 1)"
  using avl_verify_at [OF assms(1)] assms(2,3) by (simp add: length_addrs)

theorem avl_verify_correct_witness:
  "avl_at ex_heap (root ex_ob) ex_tree \<and> length (addrs ex_tree) < 2 ^ 30 \<and> unat (len ex_ob) = length (addrs ex_tree) \<and>
   avl_verify ex_ob ex_heap = Some (Inr 0)"
proof -
  have n: "length (addrs ex_tree) < 2 ^ 30" "unat (len ex_ob) = length (addrs ex_tree)"
    by (simp_all add: ex_ob_def ex_tree_def)
  show ?thesis using avl_verify_correct [OF ex_at n] ex_at ex_wf n by (simp add: avl_wf_def)
qed

text \<open>\<open>avl_iterate_index_range\<close> with \<open>low \<le> high\<close> and \<open>0 < high \<le> length\<close> calls the callback on the
  keys at positions \<open>high - 1\<close> down to \<open>low\<close>, and yields -1 as soon as the callback returns non-zero.\<close>

theorem avl_iterate_index_range_correct:
  assumes "avl_repr h ob xs" and "low \<le> high" and "0 < high" and "unat high \<le> length xs"
  shows "avl_iterate_index_range ob f low high s h =
    Some (iter_down f xs (unat high - 1) (unat high - unat low) s)"
proof -
  obtain t where t: "avl_at h (root ob) t" "ranked t" "keys t = xs" "length (nodes t) < 2 ^ 30"
      "unat (len ob) = length xs"
    using assms(1) by (auto simp: avl_repr_def avl_wf_def length_keys)
  have rep: "rep h (root ob) t" "NULL \<notin> set (addrs t)" using t(1) by (auto simp: avl_at_def)
  have hi: "0 < unat high" "unat high \<le> length (nodes t)"
    using assms t by (auto simp: length_keys [symmetric] word_gt_0 unat_gt_0)
  have "\<not> ucast (len ob) < high" using assms(4) t(5) by (simp add: word_less_nat_alt unat_ulong)
  moreover have "avl_find_rank high (root_of t) h = Some (addr_at t (unat high - 1))"
    using find_rank_rep [OF rep t(2,4) hi] hi by (auto simp add: addr_at_def)
  moreover have "high - low = of_nat (unat high - unat low)"
    using assms(2) by (metis of_nat_unat ucast_id unat_sub)
  moreover have "unat high - unat low < 2 ^ 64"
    using unsigned_less [of high, where 'a = nat] by simp
  ultimately show ?thesis
    using range_loop_at [OF t(1), of "unat high - unat low" "unat high - 1" f s] hi rd_root [OF t(1)] t(3)
    by (simp add: avl_iterate_index_range_def)
qed

theorem avl_iterate_index_range_correct_witness:
  "avl_repr ex_heap ex_ob [10, 20, 30] \<and>
   avl_iterate_index_range ex_ob (\<lambda>i k ks. (0, ks @ [k])) 1 3 [] ex_heap = Some (0, [Some 30, Some 20])"
proof -
  have "iter_down (\<lambda>i k ks. (0, ks @ [k])) [10, 20, 30] 2 2 [] = (0, [Some (30::int), Some 20])"
    using iter_down.simps(2) [of _ _ _ 1] by (simp add: eval_nat_numeral)
  then show ?thesis
    using avl_iterate_index_range_correct [OF ex_repr, of 1 3 "\<lambda>i k ks. (0, ks @ [k])" "[]"] ex_repr by simp
qed

text \<open>\<open>avl_get_span_by_key\<close> on a non-empty tree: when the key occurs, the result is the half-open range
  of all positions with an equal key; otherwise both ends are one less than the number of smaller keys (64-bit
  arithmetic, so that the range of a key below all others wraps around).\<close>

theorem avl_get_span_by_key_correct:
  fixes ob :: "('k, 'a) avl_tree"
  assumes "key_order (tcmp ob)" and "avl_repr h ob xs" and "xs \<noteq> []"
  shows "avl_get_span_by_key ob (Some k) h =
    Some (if \<exists>x\<in>set xs. tcmp ob k x = 0
      then (of_nat (count_less (tcmp ob) k xs), of_nat (count_le (tcmp ob) k xs))
      else (of_nat (count_less (tcmp ob) k xs) - 1, of_nat (count_less (tcmp ob) k xs) - 1))"
proof -
  obtain t where t: "avl_at h (root ob) t" "ranked t" "keys t = xs" "length (nodes t) < 2 ^ 30"
      "unat (len ob) = length (nodes t)" "key_sorted (tcmp ob) (keys t)"
    using assms(2) by (auto simp: avl_repr_def avl_wf_def length_keys)
  have "t \<noteq> Leaf" using assms(3) t(3) by auto
  note ix = get_index_at [OF t(1,2) this, of k] and pos = key_order.find_pos_sorted [OF assms(1) t(6), of k]
  show ?thesis
  proof (cases "find_pos (tcmp ob) k t")
    case (Inl c)
    with ix pos t(3) show ?thesis by (auto simp: avl_get_span_by_key_def)
  next
    case (Inr i)
    with pos have i: "i < length (nodes t)" "tcmp ob k (keys t ! i) = 0" "i < length (keys t)" by (auto simp: length_keys)
    have "\<exists>x\<in>set xs. tcmp ob k x = 0" using i t(3) nth_mem by blast
    moreover have "of_nat (run_right (tcmp ob) k (keys t) i) + 1 = (of_nat (count_le (tcmp ob) k xs) :: ulong)"
      unfolding t(3) [symmetric] key_order.run_right_sorted [OF assms(1) t(6) i(3,2), symmetric] by simp
    ultimately show ?thesis
      using ix Inr i t(3) rd_key_at(2) [OF t(1) i(1)] key_order.run_left_sorted [OF assms(1) t(6) i(3,2)]
        span_left_at [OF t(1) i(1) t(4), where cmpo = "compare_fun ob (compare_arg ob)" and k = k]
        span_right_at [OF t(1) i(1) t(4,5), where cmpo = "compare_fun ob (compare_arg ob)" and k = k]
      by (simp add: avl_get_span_by_key_def get_prev_at [OF t(1) i(1)] get_next_at [OF t(1) i(1)] Let_def del: neq0_conv)
  qed
qed

theorem avl_get_span_by_key_correct_witness:
  "key_order (tcmp ex_ob) \<and> avl_repr ex_heap ex_ob [10, 20, 30] \<and>
   avl_get_span_by_key ex_ob (Some 20) ex_heap = Some (1, 2) \<and>
   avl_get_span_by_key ex_ob (Some 5) ex_heap = Some (-1, -1)"
  using avl_get_span_by_key_correct [OF ex_order ex_repr, of 20] avl_get_span_by_key_correct [OF ex_order ex_repr, of 5]
    ex_order ex_repr by (simp add: ex_ob_def ex_cmp_def count_less_def count_le_def)

text \<open>\<open>avl_get_item_by_key_most\<close> yields the greatest key that is not above the given one and
  \<open>avl_get_item_by_key_least\<close> the smallest that is not below; each returns -1 when there is none.\<close>

theorem avl_get_item_by_key_correct:
  fixes ob :: "('k, 'a) avl_tree"
  assumes "key_order (tcmp ob)" and "avl_repr h ob xs"
  shows "\<exists>m l. avl_get_item_by_key_most ob (Some k) h = Some (if m = None then -1 else 0, m) \<and>
    avl_get_item_by_key_least ob (Some k) h = Some (if l = None then -1 else 0, l) \<and>
    (case m of None \<Rightarrow> \<forall>y\<in>set xs. tcmp ob k y < 0
     | Some x \<Rightarrow> x \<in> set xs \<and> 0 \<le> tcmp ob k x \<and> (\<forall>y\<in>set xs. 0 \<le> tcmp ob k y \<longrightarrow> tcmp ob y x \<le> 0)) \<and>
    (case l of None \<Rightarrow> \<forall>y\<in>set xs. 0 < tcmp ob k y
     | Some x \<Rightarrow> x \<in> set xs \<and> tcmp ob k x \<le> 0 \<and> (\<forall>y\<in>set xs. tcmp ob k y \<le> 0 \<longrightarrow> tcmp ob x y \<le> 0))"
proof -
  obtain t where t: "avl_at h (root ob) t" "keys t = xs" "key_sorted (tcmp ob) (keys t)"
    using assms(2) by (auto simp: avl_repr_def avl_wf_def)
  let ?m = "most_key (tcmp ob) k None t" and ?l = "least_key (tcmp ob) k None t"
  have m: "avl_get_item_by_key_most ob (Some k) h = Some (if ?m = None then -1 else 0, ?m)"
    using t(1) rd_root [OF t(1)] item_most_rep [of h "root ob" t, where cmpo = "compare_fun ob (compare_arg ob)" and k = k and v = None]
    by (cases "t = Leaf") (auto simp: avl_get_item_by_key_most_def avl_at_def)
  have l: "avl_get_item_by_key_least ob (Some k) h = Some (if ?l = None then -1 else 0, ?l)"
    using t(1) rd_root [OF t(1)] item_least_rep [of h "root ob" t, where cmpo = "compare_fun ob (compare_arg ob)" and k = k and v = None]
    by (cases "t = Leaf") (auto simp: avl_get_item_by_key_least_def avl_at_def)
  have "(case ?m of None \<Rightarrow> \<forall>y\<in>set xs. tcmp ob k y < 0
     | Some x \<Rightarrow> x \<in> set xs \<and> 0 \<le> tcmp ob k x \<and> (\<forall>y\<in>set xs. 0 \<le> tcmp ob k y \<longrightarrow> tcmp ob y x \<le> 0))"
    using key_order.most_key_sorted [OF assms(1) t(3), where k = k and v = None] t(2) by (cases ?m) simp_all
  moreover have "(case ?l of None \<Rightarrow> \<forall>y\<in>set xs. 0 < tcmp ob k y
     | Some x \<Rightarrow> x \<in> set xs \<and> tcmp ob k x \<le> 0 \<and> (\<forall>y\<in>set xs. tcmp ob k y \<le> 0 \<longrightarrow> tcmp ob x y \<le> 0))"
    using key_order.least_key_sorted [OF assms(1) t(3), where k = k and v = None] t(2) by (cases ?l) simp_all
  ultimately show ?thesis
    using m l by blast
qed

theorem avl_get_item_by_key_correct_witness:
  "key_order (tcmp ex_ob) \<and> avl_repr ex_heap ex_ob [10, 20, 30] \<and>
   avl_get_item_by_key_most ex_ob (Some 25) ex_heap = Some (0, Some 20) \<and>
   avl_get_item_by_key_least ex_ob (Some 25) ex_heap = Some (0, Some 30)"
proof -
  obtain m l where r: "avl_get_item_by_key_most ex_ob (Some 25) ex_heap = Some (if m = None then -1 else 0, m)"
    "avl_get_item_by_key_least ex_ob (Some 25) ex_heap = Some (if l = None then -1 else 0, l)"
    and m: "case m of None \<Rightarrow> \<forall>y\<in>set [10, 20, 30]. tcmp ex_ob 25 y < 0
     | Some x \<Rightarrow> x \<in> set [10, 20, 30] \<and> 0 \<le> tcmp ex_ob 25 x \<and> (\<forall>y\<in>set [10, 20, 30]. 0 \<le> tcmp ex_ob 25 y \<longrightarrow> tcmp ex_ob y x \<le> 0)"
    and l: "case l of None \<Rightarrow> \<forall>y\<in>set [10, 20, 30]. 0 < tcmp ex_ob 25 y
     | Some x \<Rightarrow> x \<in> set [10, 20, 30] \<and> tcmp ex_ob 25 x \<le> 0 \<and> (\<forall>y\<in>set [10, 20, 30]. tcmp ex_ob 25 y \<le> 0 \<longrightarrow> tcmp ex_ob x y \<le> 0)"
    using avl_get_item_by_key_correct [OF ex_order ex_repr, of 25] by blast
  have "m = Some 20" using m by (auto simp: ex_ob_def ex_cmp_def split: option.splits)
  moreover have "l = Some 30" using l by (auto simp: ex_ob_def ex_cmp_def split: option.splits)
  ultimately show ?thesis using r ex_order ex_repr by simp
qed

end
