(* ===== verification/Avl_Delete.thy ===== *)
theory Avl_Delete
  imports Avl_Insert Avl_Lookup
begin

text \<open>
  Correctness of \<open>avl_delete\<close>. The loop that climbs back is described on contexts (\<open>fixup\<close>), the search by
  \<open>locate\<close>; the rank changes of the search and their undoing by \<open>dec\<close>. The composition removes one key and keeps
  the invariant; for a key above all others the failed deletion damages a rank.
\<close>

section \<open>Rotations of the climbing loop\<close>

lemma delete_single_left_eval:
  assumes hp: "h p = Some \<lparr>key = x, left = c, right = q, parent = par, rank_and_balance = w\<rparr>"
    and hq: "h q = Some \<lparr>key = y, left = c1, right = c2, parent = p, rank_and_balance = v\<rparr>"
    and d: "p \<noteq> q" and c: "c1 \<noteq> p" "c1 \<noteq> q" and dom: "c1 = NULL \<or> c1 \<in> dom h"
  shows "avl_delete_single (-1) p q h = Some ((reparent h c1 p)
      (p \<mapsto> \<lparr>key = x, left = c, right = c1, parent = q, rank_and_balance = w\<rparr>,
       q \<mapsto> \<lparr>key = y, left = p, right = c2, parent = par,
             rank_and_balance = AVL_SET_RANK v (AVL_GET_RANK v + AVL_GET_RANK w)\<rparr>))"
  unfolding avl_delete_single_def
  by (simp add: mem_eval reparent_upd hp hq dom d c d [symmetric] c [symmetric] Let_def fun_upd_twist [OF d] cong: bind_weak)

lemma delete_single_right_eval:
  assumes hp: "h p = Some \<lparr>key = x, left = q, right = c, parent = par, rank_and_balance = w\<rparr>"
    and hq: "h q = Some \<lparr>key = y, left = c1, right = c2, parent = p, rank_and_balance = v\<rparr>"
    and d: "p \<noteq> q" and c: "c2 \<noteq> p" "c2 \<noteq> q" and dom: "c2 = NULL \<or> c2 \<in> dom h"
  shows "avl_delete_single 1 p q h = Some ((reparent h c2 p)
      (p \<mapsto> \<lparr>key = x, left = c2, right = c, parent = q,
             rank_and_balance = AVL_SET_RANK w (AVL_GET_RANK w - AVL_GET_RANK v)\<rparr>,
       q \<mapsto> \<lparr>key = y, left = c1, right = p, parent = par, rank_and_balance = v\<rparr>))"
  unfolding avl_delete_single_def
  by (simp add: mem_eval reparent_upd hp hq dom d c d [symmetric] c [symmetric] Let_def fun_upd_twist [OF d] cong: bind_weak)

lemma delete_double_right_eval:
  assumes hp: "h p = Some \<lparr>key = pk, left = q, right = c, parent = par, rank_and_balance = w\<rparr>"
    and hq: "h q = Some \<lparr>key = qk, left = ql, right = r, parent = p, rank_and_balance = qw\<rparr>"
    and hr: "h r = Some \<lparr>key = rkk, left = c1, right = c2, parent = q, rank_and_balance = rw\<rparr>"
    and d: "p \<noteq> q" "p \<noteq> r" "q \<noteq> r"
    and c: "c1 \<noteq> p" "c1 \<noteq> q" "c1 \<noteq> r" "c2 \<noteq> p" "c2 \<noteq> q" "c2 \<noteq> r"
    and dom: "c1 = NULL \<or> c1 \<in> dom h" "c2 = NULL \<or> c2 \<in> dom h"
  shows "avl_delete_double 1 p q h = Some (r,
    let rw' = AVL_SET_RANK rw (AVL_GET_RANK rw + AVL_GET_RANK qw);
        w' = AVL_SET_RANK w (AVL_GET_RANK w - AVL_GET_RANK rw')
    in (reparent (reparent h c1 q) c2 p)
      (q \<mapsto> \<lparr>key = qk, left = ql, right = c1, parent = r,
             rank_and_balance = AVL_SET_BALANCE qw (if bal rw = 1 then -1 else 0)\<rparr>,
       p \<mapsto> \<lparr>key = pk, left = c2, right = c, parent = r,
             rank_and_balance = AVL_SET_BALANCE w' (if bal rw = -1 then 1 else 0)\<rparr>,
       r \<mapsto> \<lparr>key = rkk, left = q, right = p, parent = par, rank_and_balance = AVL_SET_BALANCE rw' 0\<rparr>))"
  unfolding avl_delete_double_def
  by (simp add: mem_eval reparent_upd hp hq hr dom d c d [symmetric] c [symmetric] Let_def cong: bind_weak)

lemma delete_double_left_eval:
  assumes hp: "h p = Some \<lparr>key = pk, left = c, right = q, parent = par, rank_and_balance = w\<rparr>"
    and hq: "h q = Some \<lparr>key = qk, left = r, right = qr, parent = p, rank_and_balance = qw\<rparr>"
    and hr: "h r = Some \<lparr>key = rkk, left = c1, right = c2, parent = q, rank_and_balance = rw\<rparr>"
    and d: "p \<noteq> q" "p \<noteq> r" "q \<noteq> r"
    and c: "c1 \<noteq> p" "c1 \<noteq> q" "c1 \<noteq> r" "c2 \<noteq> p" "c2 \<noteq> q" "c2 \<noteq> r"
    and dom: "c1 = NULL \<or> c1 \<in> dom h" "c2 = NULL \<or> c2 \<in> dom h"
  shows "avl_delete_double (-1) p q h = Some (r,
    let qw' = AVL_SET_RANK qw (AVL_GET_RANK qw - AVL_GET_RANK rw);
        rw' = AVL_SET_RANK rw (AVL_GET_RANK rw + AVL_GET_RANK w)
    in (reparent (reparent h c2 q) c1 p)
      (q \<mapsto> \<lparr>key = qk, left = c2, right = qr, parent = r,
             rank_and_balance = AVL_SET_BALANCE qw' (if bal rw = -1 then 1 else 0)\<rparr>,
       p \<mapsto> \<lparr>key = pk, left = c, right = c1, parent = r,
             rank_and_balance = AVL_SET_BALANCE w (if bal rw = 1 then -1 else 0)\<rparr>,
       r \<mapsto> \<lparr>key = rkk, left = p, right = q, parent = par, rank_and_balance = AVL_SET_BALANCE rw' 0\<rparr>))"
  unfolding avl_delete_double_def
  by (simp add: mem_eval reparent_upd hp hq hr dom d c d [symmetric] c [symmetric] Let_def cong: bind_weak)

text \<open>The subtree at \<open>p\<close> after a rotation, and whether it has become shorter: the left subtree of \<open>p\<close> was
  shortened (\<open>del_rot_left\<close>) or the right one.\<close>

fun del_rot_left :: "'k ptree \<Rightarrow> addr \<Rightarrow> 'k \<Rightarrow> uint \<Rightarrow> 'k ptree \<Rightarrow> 'k ptree \<times> bool" where
  "del_rot_left c p x w Leaf = (Leaf, False)"
| "del_rot_left c p x w (Node A q qx qw B) =
     (if bal qw = 0 then
        (Node (Node c p x (AVL_SET_BALANCE w 1) A) q qx
           (AVL_SET_BALANCE (AVL_SET_RANK qw (AVL_GET_RANK qw + AVL_GET_RANK w)) (-1)) B, False)
      else if bal qw = 1 then
        (Node (Node c p x (AVL_SET_BALANCE w 0) A) q qx
           (AVL_SET_BALANCE (AVL_SET_RANK qw (AVL_GET_RANK qw + AVL_GET_RANK w)) 0) B, True)
      else (case A of Leaf \<Rightarrow> (Leaf, False)
        | Node A1 r rx rw A2 \<Rightarrow>
            (let qw' = AVL_SET_RANK qw (AVL_GET_RANK qw - AVL_GET_RANK rw);
                 rw' = AVL_SET_RANK rw (AVL_GET_RANK rw + AVL_GET_RANK w)
             in (Node (Node c p x (AVL_SET_BALANCE w (if bal rw = 1 then -1 else 0)) A1)
                  r rx (AVL_SET_BALANCE rw' 0)
                  (Node A2 q qx (AVL_SET_BALANCE qw' (if bal rw = -1 then 1 else 0)) B), True))))"

fun del_rot_right :: "'k ptree \<Rightarrow> addr \<Rightarrow> 'k \<Rightarrow> uint \<Rightarrow> 'k ptree \<Rightarrow> 'k ptree \<times> bool" where
  "del_rot_right Leaf p x w c = (Leaf, False)"
| "del_rot_right (Node A q qx qw B) p x w c =
     (if bal qw = 0 then
        (Node A q qx (AVL_SET_BALANCE qw 1)
           (Node B p x (AVL_SET_BALANCE (AVL_SET_RANK w (AVL_GET_RANK w - AVL_GET_RANK qw)) (-1)) c), False)
      else if bal qw = -1 then
        (Node A q qx (AVL_SET_BALANCE qw 0)
           (Node B p x (AVL_SET_BALANCE (AVL_SET_RANK w (AVL_GET_RANK w - AVL_GET_RANK qw)) 0) c), True)
      else (case B of Leaf \<Rightarrow> (Leaf, False)
        | Node B1 r rx rw B2 \<Rightarrow>
            (let rw' = AVL_SET_RANK rw (AVL_GET_RANK rw + AVL_GET_RANK qw);
                 w' = AVL_SET_RANK w (AVL_GET_RANK w - AVL_GET_RANK rw')
             in (Node (Node A q qx (AVL_SET_BALANCE qw (if bal rw = 1 then -1 else 0)) B1)
                  r rx (AVL_SET_BALANCE rw' 0)
                  (Node B2 p x (AVL_SET_BALANCE w' (if bal rw = -1 then 1 else 0)) c), True))))"

text \<open>The rotation part of one round, as in the source: the choice between cases 3a, 3b and 3c.\<close>

definition del_rotate :: "int \<Rightarrow> int \<Rightarrow> addr \<Rightarrow> addr \<Rightarrow> 'k heap \<Rightarrow> (addr \<times> bool \<times> 'k heap) option" where
  "del_rotate side bp p q h = do {
     bq \<leftarrow> get_balance h q;
     if bq = 0 then do {
       h \<leftarrow> avl_delete_single side p q h;
       h \<leftarrow> set_balance q side h;
       h \<leftarrow> set_balance p (- side) h;
       Some (q, False, h) }
     else if bq = bp then do {
       h \<leftarrow> avl_delete_single side p q h;
       h \<leftarrow> set_balance q 0 h;
       h \<leftarrow> set_balance p 0 h;
       Some (q, True, h) }
     else do {
       (r, h) \<leftarrow> avl_delete_double side p q h;
       Some (r, True, h) } }"

lemma del_rotate_left_single:
  assumes rep: "rep h par (Node c p x w (Node A q qx qw B))"
    and dist: "distinct (addrs (Node c p x w (Node A q qx qw B)))"
    and null: "NULL \<notin> set (addrs (Node c p x w (Node A q qx qw B)))"
    and b: "bal qw = 0 \<or> bal qw = 1"
  shows "\<exists>h'. del_rotate (-1) 1 p q h = Some (q, snd (del_rot_left c p x w (Node A q qx qw B)), h') \<and>
    rep h' par (fst (del_rot_left c p x w (Node A q qx qw B))) \<and>
    (\<forall>b. b \<notin> set (addrs (Node c p x w (Node A q qx qw B))) \<longrightarrow> h' b = h b)"
proof -
  have n: "root_of A \<noteq> p" "root_of A \<noteq> q" using dist null by (simp_all add: root_of_neq)
  have n': "root_of A \<notin> set (addrs c)" "root_of A \<notin> set (addrs B)"
    using dist null by (simp_all add: root_of_notin Int_Un_distrib Int_Un_distrib2 Int_commute)
  have d: "p \<noteq> q" "distinct (addrs A)" "NULL \<notin> set (addrs A)"
    "p \<notin> set (addrs c)" "p \<notin> set (addrs A)" "p \<notin> set (addrs B)"
    "q \<notin> set (addrs c)" "q \<notin> set (addrs A)" "q \<notin> set (addrs B)"
    using dist null by auto
  have dom: "root_of A = NULL \<or> root_of A \<in> dom h" using rep by (auto dest: root_of_dom)
  have cell: "h p = Some \<lparr>key = Some x, left = root_of c, right = q, parent = par, rank_and_balance = w\<rparr>"
    "h q = Some \<lparr>key = Some qx, left = root_of A, right = root_of B, parent = p, rank_and_balance = qw\<rparr>"
    and s: "rep h p c" "rep h q A" "rep h q B"
    using rep by auto
  note ev = delete_single_left_eval [where h = h, OF cell d(1) n dom]
  have s': "rep (reparent h (root_of A) p) p A" using s d by (simp add: rep_reparent)
  show ?thesis
    using b unfolding del_rotate_def
    by (auto simp: mem_eval cell ev d d(1) [symmetric] s s' rep_reparent_other n' reparent_notin cong: bind_weak)
qed

lemma del_rotate_right_single:
  assumes rep: "rep h par (Node (Node A q qx qw B) p x w c)"
    and dist: "distinct (addrs (Node (Node A q qx qw B) p x w c))"
    and null: "NULL \<notin> set (addrs (Node (Node A q qx qw B) p x w c))"
    and b: "bal qw = 0 \<or> bal qw = -1"
  shows "\<exists>h'. del_rotate 1 (-1) p q h = Some (q, snd (del_rot_right (Node A q qx qw B) p x w c), h') \<and>
    rep h' par (fst (del_rot_right (Node A q qx qw B) p x w c)) \<and>
    (\<forall>b. b \<notin> set (addrs (Node (Node A q qx qw B) p x w c)) \<longrightarrow> h' b = h b)"
proof -
  have n: "root_of B \<noteq> p" "root_of B \<noteq> q" using dist null by (simp_all add: root_of_neq)
  have n': "root_of B \<notin> set (addrs c)" "root_of B \<notin> set (addrs A)"
    using dist null by (simp_all add: root_of_notin Int_Un_distrib Int_Un_distrib2 Int_commute)
  have d: "p \<noteq> q" "distinct (addrs B)" "NULL \<notin> set (addrs B)"
    "p \<notin> set (addrs c)" "p \<notin> set (addrs A)" "p \<notin> set (addrs B)"
    "q \<notin> set (addrs c)" "q \<notin> set (addrs A)" "q \<notin> set (addrs B)"
    using dist null by auto
  have dom: "root_of B = NULL \<or> root_of B \<in> dom h" using rep by (auto dest: root_of_dom)
  have cell: "h p = Some \<lparr>key = Some x, left = q, right = root_of c, parent = par, rank_and_balance = w\<rparr>"
    "h q = Some \<lparr>key = Some qx, left = root_of A, right = root_of B, parent = p, rank_and_balance = qw\<rparr>"
    and s: "rep h p c" "rep h q A" "rep h q B"
    using rep by auto
  note ev = delete_single_right_eval [where h = h, OF cell d(1) n dom]
  have s': "rep (reparent h (root_of B) p) p B" using s d by (simp add: rep_reparent)
  show ?thesis
    using b unfolding del_rotate_def
    by (auto simp: mem_eval cell ev d d(1) [symmetric] s s' rep_reparent_other n' reparent_notin cong: bind_weak)
qed

lemma del_rotate_right_double:
  assumes rep: "rep h par (Node (Node A q qx qw (Node B1 r rx rw B2)) p x w c)"
    and dist: "distinct (addrs (Node (Node A q qx qw (Node B1 r rx rw B2)) p x w c))"
    and null: "NULL \<notin> set (addrs (Node (Node A q qx qw (Node B1 r rx rw B2)) p x w c))"
    and b: "bal qw = 1"
  shows "\<exists>h'. del_rotate 1 (-1) p q h = Some (r, snd (del_rot_right (Node A q qx qw (Node B1 r rx rw B2)) p x w c), h') \<and>
    rep h' par (fst (del_rot_right (Node A q qx qw (Node B1 r rx rw B2)) p x w c)) \<and>
    (\<forall>b. b \<notin> set (addrs (Node (Node A q qx qw (Node B1 r rx rw B2)) p x w c)) \<longrightarrow> h' b = h b)"
proof -
  have n: "root_of B1 \<noteq> p" "root_of B1 \<noteq> q" "root_of B1 \<noteq> r" "root_of B2 \<noteq> p" "root_of B2 \<noteq> q" "root_of B2 \<noteq> r"
    using dist null by (simp_all add: root_of_neq)
  have n': "root_of B1 \<notin> set (addrs A)" "root_of B1 \<notin> set (addrs c)" "root_of B1 \<notin> set (addrs B2)"
    "root_of B2 \<notin> set (addrs A)" "root_of B2 \<notin> set (addrs c)" "root_of B2 \<notin> set (addrs B1)"
    using dist null by (simp_all add: root_of_notin Int_Un_distrib Int_Un_distrib2 Int_commute)
  have d: "p \<noteq> q" "p \<noteq> r" "q \<noteq> r" "distinct (addrs B1)" "distinct (addrs B2)"
    "NULL \<notin> set (addrs B1)" "NULL \<notin> set (addrs B2)"
    "p \<notin> set (addrs A)" "p \<notin> set (addrs c)" "p \<notin> set (addrs B1)" "p \<notin> set (addrs B2)"
    "q \<notin> set (addrs A)" "q \<notin> set (addrs c)" "q \<notin> set (addrs B1)" "q \<notin> set (addrs B2)"
    "r \<notin> set (addrs A)" "r \<notin> set (addrs c)" "r \<notin> set (addrs B1)" "r \<notin> set (addrs B2)"
    using dist null by auto
  have dom: "root_of B1 = NULL \<or> root_of B1 \<in> dom h" "root_of B2 = NULL \<or> root_of B2 \<in> dom h"
    using rep by (auto dest: root_of_dom)
  have cell: "h p = Some \<lparr>key = Some x, left = q, right = root_of c, parent = par, rank_and_balance = w\<rparr>"
    "h q = Some \<lparr>key = Some qx, left = root_of A, right = r, parent = p, rank_and_balance = qw\<rparr>"
    "h r = Some \<lparr>key = Some rx, left = root_of B1, right = root_of B2, parent = q, rank_and_balance = rw\<rparr>"
    and s: "rep h q A" "rep h p c" "rep h r B1" "rep h r B2"
    using rep by auto
  have s': "rep (reparent h (root_of B1) q) q B1" "rep (reparent h (root_of B1) q) r B2"
    using s d n' by (simp_all add: rep_reparent rep_reparent_other)
  note ev = delete_double_right_eval [where h = h, OF cell d(1-3) n dom]
  show ?thesis
    using b unfolding del_rotate_def
    by (simp add: mem_eval cell ev Let_def d d(1-3) [symmetric] s s' rep_reparent [OF s'(2)] rep_reparent_other n'
        reparent_notin cong: bind_weak)
qed

lemma del_rotate_left_double:
  assumes rep: "rep h par (Node c p x w (Node (Node B1 r rx rw B2) q qx qw A))"
    and dist: "distinct (addrs (Node c p x w (Node (Node B1 r rx rw B2) q qx qw A)))"
    and null: "NULL \<notin> set (addrs (Node c p x w (Node (Node B1 r rx rw B2) q qx qw A)))"
    and b: "bal qw = -1"
  shows "\<exists>h'. del_rotate (-1) 1 p q h = Some (r, snd (del_rot_left c p x w (Node (Node B1 r rx rw B2) q qx qw A)), h') \<and>
    rep h' par (fst (del_rot_left c p x w (Node (Node B1 r rx rw B2) q qx qw A))) \<and>
    (\<forall>b. b \<notin> set (addrs (Node c p x w (Node (Node B1 r rx rw B2) q qx qw A))) \<longrightarrow> h' b = h b)"
proof -
  have n: "root_of B1 \<noteq> p" "root_of B1 \<noteq> q" "root_of B1 \<noteq> r" "root_of B2 \<noteq> p" "root_of B2 \<noteq> q" "root_of B2 \<noteq> r"
    using dist null by (simp_all add: root_of_neq)
  have n': "root_of B1 \<notin> set (addrs A)" "root_of B1 \<notin> set (addrs c)" "root_of B1 \<notin> set (addrs B2)"
    "root_of B2 \<notin> set (addrs A)" "root_of B2 \<notin> set (addrs c)" "root_of B2 \<notin> set (addrs B1)"
    using dist null by (simp_all add: root_of_notin Int_Un_distrib Int_Un_distrib2 Int_commute)
  have d: "p \<noteq> q" "p \<noteq> r" "q \<noteq> r" "distinct (addrs B1)" "distinct (addrs B2)"
    "NULL \<notin> set (addrs B1)" "NULL \<notin> set (addrs B2)"
    "p \<notin> set (addrs A)" "p \<notin> set (addrs c)" "p \<notin> set (addrs B1)" "p \<notin> set (addrs B2)"
    "q \<notin> set (addrs A)" "q \<notin> set (addrs c)" "q \<notin> set (addrs B1)" "q \<notin> set (addrs B2)"
    "r \<notin> set (addrs A)" "r \<notin> set (addrs c)" "r \<notin> set (addrs B1)" "r \<notin> set (addrs B2)"
    using dist null by auto
  have dom: "root_of B1 = NULL \<or> root_of B1 \<in> dom h" "root_of B2 = NULL \<or> root_of B2 \<in> dom h"
    using rep by (auto dest: root_of_dom)
  have cell: "h p = Some \<lparr>key = Some x, left = root_of c, right = q, parent = par, rank_and_balance = w\<rparr>"
    "h q = Some \<lparr>key = Some qx, left = r, right = root_of A, parent = p, rank_and_balance = qw\<rparr>"
    "h r = Some \<lparr>key = Some rx, left = root_of B1, right = root_of B2, parent = q, rank_and_balance = rw\<rparr>"
    and s: "rep h q A" "rep h p c" "rep h r B1" "rep h r B2"
    using rep by auto
  have s': "rep (reparent h (root_of B2) q) q B2" "rep (reparent h (root_of B2) q) r B1"
    using s d n' by (simp_all add: rep_reparent rep_reparent_other)
  note ev = delete_double_left_eval [where h = h, OF cell d(1-3) n dom]
  show ?thesis
    using b unfolding del_rotate_def
    by (simp add: mem_eval cell ev Let_def d d(1-3) [symmetric] s s' rep_reparent [OF s'(2)] rep_reparent_other n'
        reparent_notin cong: bind_weak)
qed

text \<open>The shapes a subtree of height at least two can have.\<close>

lemma rotate_left_shape:
  assumes "balanced t" "2 \<le> ht t"
  obtains A q y v B where "t = Node A q y v B" "bal v = 0 \<or> bal v = 1" "bal v = int (ht B) - int (ht A)"
      "balanced A" "balanced B"
  | A1 r ry rv A2 q y v B where "t = Node (Node A1 r ry rv A2) q y v B" "bal v = -1" "balanced B" "balanced A1" "balanced A2"
      "bal rv \<in> {-1, 0, 1}" "bal rv = int (ht A2) - int (ht A1)" "max (ht A1) (ht A2) = ht B"
proof (cases "root_bal t = 0")
  case True
  with assms show ?thesis by (cases t) (auto intro!: that(1))
next
  case False
  from assms(1) this show ?thesis
  proof (cases rule: rotatable_right)
    case 1
    show ?thesis by (rule that(1) [OF 1(1)]) (use 1 in auto)
  next
    case 2
    show ?thesis by (rule that(2) [OF 2(1)]) (use 2 in auto)
  qed
qed

lemma rotate_right_shape:
  assumes "balanced t" "2 \<le> ht t"
  obtains A q y v B where "t = Node A q y v B" "bal v = 0 \<or> bal v = -1" "bal v = int (ht B) - int (ht A)"
      "balanced A" "balanced B"
  | A q y v B1 r ry rv B2 where "t = Node A q y v (Node B1 r ry rv B2)" "bal v = 1" "balanced A" "balanced B1" "balanced B2"
      "bal rv \<in> {-1, 0, 1}" "bal rv = int (ht B2) - int (ht B1)" "max (ht B1) (ht B2) = ht A"
proof (cases "root_bal t = 0")
  case True
  with assms show ?thesis by (cases t) (auto intro!: that(1))
next
  case False
  from assms(1) this show ?thesis
  proof (cases rule: rotatable_left)
    case 1
    show ?thesis by (rule that(1) [OF 1(1)]) (use 1 in auto)
  next
    case 2
    show ?thesis by (rule that(2) [OF 2(1)]) (use 2 in auto)
  qed
qed

lemma del_rot_left_props:
  assumes "balanced r" "balanced c" "ht r = ht c + 2"
  shows "nodes (fst (del_rot_left c p x w r)) = nodes c @ (p, x) # nodes r"
    and "balanced (fst (del_rot_left c p x w r))"
    and "ht (fst (del_rot_left c p x w r)) = (if snd (del_rot_left c p x w r) then ht r else Suc (ht r))"
    and "\<lbrakk>ranked c; ranked r; rk w = length (nodes c) + 1; length (nodes c) + length (nodes r) + 1 < 2 ^ 30\<rbrakk> \<Longrightarrow>
         ranked (fst (del_rot_left c p x w r))"
  by (rule rotate_left_shape [OF assms(1)]; use assms in \<open>auto simp: Let_def word_rules max_def split: if_splits\<close>)+

lemma del_rot_right_props:
  assumes "balanced l" "balanced c" "ht l = ht c + 2"
  shows "nodes (fst (del_rot_right l p x w c)) = nodes l @ (p, x) # nodes c"
    and "balanced (fst (del_rot_right l p x w c))"
    and "ht (fst (del_rot_right l p x w c)) = (if snd (del_rot_right l p x w c) then ht l else Suc (ht l))"
    and "\<lbrakk>ranked l; ranked c; rk w = length (nodes l) + 1; length (nodes l) + 1 < 2 ^ 30\<rbrakk> \<Longrightarrow>
         ranked (fst (del_rot_right l p x w c))"
  by (rule rotate_right_shape [OF assms(1)]; use assms in \<open>auto simp: Let_def word_rules max_def split: if_splits\<close>)+

section \<open>One round of the climbing loop\<close>

definition del_left :: "'k ptree \<Rightarrow> addr \<Rightarrow> 'k \<Rightarrow> uint \<Rightarrow> 'k ptree \<Rightarrow> 'k ptree \<times> bool" where
  "del_left c p x w r =
     (if bal w = 0 then (Node c p x (AVL_SET_BALANCE w 1) r, False)
      else if bal w = -1 then (Node c p x (AVL_SET_BALANCE w 0) r, True)
      else del_rot_left c p x w r)"

definition del_right :: "'k ptree \<Rightarrow> addr \<Rightarrow> 'k \<Rightarrow> uint \<Rightarrow> 'k ptree \<Rightarrow> 'k ptree \<times> bool" where
  "del_right l p x w c =
     (if bal w = 0 then (Node l p x (AVL_SET_BALANCE w (-1)) c, False)
      else if bal w = 1 then (Node l p x (AVL_SET_BALANCE w 0) c, True)
      else del_rot_right l p x w c)"

lemma del_left_props:
  assumes "balanced r" "balanced c" "bal w = int (ht r) - int (Suc (ht c))" "bal w \<in> {-1, 0, 1}"
  shows "nodes (fst (del_left c p x w r)) = nodes c @ (p, x) # nodes r"
    and "balanced (fst (del_left c p x w r))"
    and "(if snd (del_left c p x w r) then Suc (ht (fst (del_left c p x w r))) else ht (fst (del_left c p x w r))) =
         Suc (max (Suc (ht c)) (ht r))"
    and "\<lbrakk>ranked c; ranked r; rk w = length (nodes c) + 1; length (nodes c) + length (nodes r) + 1 < 2 ^ 30\<rbrakk> \<Longrightarrow>
         ranked (fst (del_left c p x w r))"
proof -
  have rot: "ht r = ht c + 2" if "bal w = 1" using that assms(3) by simp
  note P = del_rot_left_props [OF assms(1,2) rot, where p = p and x = x and w = w]
  show "nodes (fst (del_left c p x w r)) = nodes c @ (p, x) # nodes r"
    using assms P(1) by (auto simp: del_left_def)
  show "balanced (fst (del_left c p x w r))"
    using assms P(2) by (auto simp: del_left_def word_rules)
  show "(if snd (del_left c p x w r) then Suc (ht (fst (del_left c p x w r))) else ht (fst (del_left c p x w r))) =
         Suc (max (Suc (ht c)) (ht r))"
  proof -
    consider "bal w = 0" "ht r = Suc (ht c)" | "bal w = -1" "ht r = ht c" | "bal w = 1" "ht r = ht c + 2"
      using assms(3,4) by auto
    then show ?thesis by cases (use P(3) in \<open>simp_all add: del_left_def\<close>)
  qed
  assume "ranked c" "ranked r" "rk w = length (nodes c) + 1" "length (nodes c) + length (nodes r) + 1 < 2 ^ 30"
  then show "ranked (fst (del_left c p x w r))"
    using assms P(4) by (auto simp: del_left_def word_rules)
qed

lemma del_right_props:
  assumes "balanced l" "balanced c" "bal w = int (Suc (ht c)) - int (ht l)" "bal w \<in> {-1, 0, 1}"
  shows "nodes (fst (del_right l p x w c)) = nodes l @ (p, x) # nodes c"
    and "balanced (fst (del_right l p x w c))"
    and "(if snd (del_right l p x w c) then Suc (ht (fst (del_right l p x w c))) else ht (fst (del_right l p x w c))) =
         Suc (max (ht l) (Suc (ht c)))"
    and "\<lbrakk>ranked l; ranked c; rk w = length (nodes l) + 1; length (nodes l) + 1 < 2 ^ 30\<rbrakk> \<Longrightarrow>
         ranked (fst (del_right l p x w c))"
proof -
  have rot: "ht l = ht c + 2" if "bal w = -1" using that assms(3) by simp
  note P = del_rot_right_props [OF assms(1,2) rot, where p = p and x = x and w = w]
  show "nodes (fst (del_right l p x w c)) = nodes l @ (p, x) # nodes c"
    using assms P(1) by (auto simp: del_right_def)
  show "balanced (fst (del_right l p x w c))"
    using assms P(2) by (auto simp: del_right_def word_rules)
  show "(if snd (del_right l p x w c) then Suc (ht (fst (del_right l p x w c))) else ht (fst (del_right l p x w c))) =
         Suc (max (ht l) (Suc (ht c)))"
  proof -
    consider "bal w = 0" "ht l = Suc (ht c)" | "bal w = 1" "ht l = ht c" | "bal w = -1" "ht l = ht c + 2"
      using assms(3,4) by auto
    then show ?thesis by cases (use P(3) in \<open>simp_all add: del_right_def\<close>)
  qed
  assume "ranked l" "ranked c" "rk w = length (nodes l) + 1" "length (nodes l) + 1 < 2 ^ 30"
  then show "ranked (fst (del_right l p x w c))"
    using assms P(4) by (auto simp: del_right_def word_rules)
qed

lemma rep_ctx_frame:
  assumes "ctx_ok rt C A" "\<forall>b. b \<notin> A \<longrightarrow> h' b = h b"
  shows "rep_ctx h' rt C s = rep_ctx h rt C s"
  by (rule rep_ctx_cong) (use assms in \<open>auto simp: ctx_ok_def\<close>)

lemma delete_step_rotate:
  assumes "get_balance h p = Some bp" "bp \<noteq> 0" "bp \<noteq> side"
  shows "avl_delete_step side p h = do {
       top \<leftarrow> rd parent h p;
       q \<leftarrow> (if side = 1 then rd left h p else rd right h p);
       (q, shorter, h) \<leftarrow> del_rotate side bp p q h;
       tl \<leftarrow> rd left h top;
       h \<leftarrow> (if tl = p then set_left top q h else set_right top q h);
       Some (q, shorter, h) }"
  unfolding avl_delete_step_def del_rotate_def using assms by (simp add: Option.bind_assoc)

text \<open>The new top is hung into the context above.\<close>

lemma delete_hang:
  assumes "rep_ctx h rt C p" "ctx_ok rt C A" "p \<in> A" "rep h (cpar rt C) T" "set (addrs T) \<subseteq> A"
  shows "\<exists>h'. (do {
      tl \<leftarrow> rd left h (cpar rt C);
      h \<leftarrow> (if tl = p then set_left (cpar rt C) (root_of T) h else set_right (cpar rt C) (root_of T) h);
      Some (v, sh, h) }) = Some (v, sh, h') \<and> rep_ctx h' rt C (root_of T) \<and> rep h' (cpar rt C) T \<and>
    (\<forall>b. b \<noteq> cpar rt C \<longrightarrow> h' b = h b)"
proof -
  have s: "p \<noteq> NULL" using assms by (auto simp: ctx_ok_def)
  obtain n where n: "h (cpar rt C) = Some n"
    "left n = p \<Longrightarrow> rep_ctx (h(cpar rt C \<mapsto> n\<lparr>left := root_of T\<rparr>)) rt C (root_of T)"
    "left n \<noteq> p \<Longrightarrow> rep_ctx (h(cpar rt C \<mapsto> n\<lparr>right := root_of T\<rparr>)) rt C (root_of T)"
    by (rule rep_ctx_hole_upd [OF assms(1,2) s assms(3), of "root_of T"]) blast
  have "cpar rt C \<notin> set (addrs T)" using cpar_notin [OF assms(2)] assms(5) by auto
  with n assms show ?thesis by (cases "left n = p") (auto simp: mem_simps)
qed

lemma del_rotate_left:
  assumes "rep h par (Node c p x w r)" "distinct (addrs (Node c p x w r))" "NULL \<notin> set (addrs (Node c p x w r))"
    "balanced r" "2 \<le> ht r"
  defines "T \<equiv> fst (del_rot_left c p x w r)"
  shows "\<exists>h'. del_rotate (-1) 1 p (root_of r) h = Some (root_of T, snd (del_rot_left c p x w r), h') \<and>
    rep h' par T \<and> (\<forall>b. b \<notin> set (addrs (Node c p x w r)) \<longrightarrow> h' b = h b)"
  using assms(4,5)
proof (cases rule: rotate_left_shape)
  case (1 A q y v B)
  have "root_of T = q" using 1 by (auto simp: T_def)
  then show ?thesis
    using del_rotate_left_single [OF assms(1-3) [unfolded 1(1)] 1(2)] unfolding T_def 1(1) by simp
next
  case (2 A1 r' ry rv A2 q y v B)
  have "root_of T = r'" using 2 by (auto simp: T_def Let_def)
  then show ?thesis
    using del_rotate_left_double [OF assms(1-3) [unfolded 2(1)] 2(2)] unfolding T_def 2(1) by simp
qed

lemma del_rotate_right:
  assumes "rep h par (Node l p x w c)" "distinct (addrs (Node l p x w c))" "NULL \<notin> set (addrs (Node l p x w c))"
    "balanced l" "2 \<le> ht l"
  defines "T \<equiv> fst (del_rot_right l p x w c)"
  shows "\<exists>h'. del_rotate 1 (-1) p (root_of l) h = Some (root_of T, snd (del_rot_right l p x w c), h') \<and>
    rep h' par T \<and> (\<forall>b. b \<notin> set (addrs (Node l p x w c)) \<longrightarrow> h' b = h b)"
  using assms(4,5)
proof (cases rule: rotate_right_shape)
  case (1 A q y v B)
  have "root_of T = q" using 1 by (auto simp: T_def)
  then show ?thesis
    using del_rotate_right_single [OF assms(1-3) [unfolded 1(1)] 1(2)] unfolding T_def 1(1) by simp
next
  case (2 A q y v B1 r' ry rv B2)
  have "root_of T = r'" using 2 by (auto simp: T_def Let_def)
  then show ?thesis
    using del_rotate_right_double [OF assms(1-3) [unfolded 2(1)] 2(2)] unfolding T_def 2(1) by simp
qed

text \<open>What a round does to the heap; \<open>S\<close> is the subtree at \<open>p\<close> and \<open>T\<close> its replacement.\<close>

lemma delete_step_left:
  assumes at: "avl_at h rt (fill C (Node c p x w r))"
    and b: "balanced r" "balanced c" "bal w = int (ht r) - int (Suc (ht c))" "bal w \<in> {-1, 0, 1}"
  defines "T \<equiv> fst (del_left c p x w r)"
  shows "\<exists>h'. avl_delete_step (-1) p h = Some (root_of T, snd (del_left c p x w r), h') \<and>
    avl_at h' rt (fill C T) \<and> (\<forall>b. b \<notin> insert (cpar rt C) (set (addrs T)) \<longrightarrow> h' b = h b)"
proof -
  let ?S = "Node c p x w r"
  note sp = at [unfolded avl_at_split]
  have nd: "nodes T = nodes ?S" using del_left_props(1) [OF b, of p x] by (simp add: T_def)
  then have ad: "addrs T = addrs ?S" by (simp add: addrs_def)
  have gb: "get_balance h p = Some (bal w)" using sp by (auto simp: mem_simps)
  have goal: ?thesis if "\<exists>h'. avl_delete_step (-1) p h = Some (root_of T, snd (del_left c p x w r), h') \<and>
      rep_ctx h' rt C (root_of T) \<and> rep h' (cpar rt C) T \<and>
      (\<forall>b. b \<notin> insert (cpar rt C) (set (addrs T)) \<longrightarrow> h' b = h b)"
    unfolding avl_at_split ad using that sp ad by auto
  show ?thesis
  proof (cases "bal w = 1")
    case False
    have "p \<noteq> rt" "p \<notin> caddrs C" "p \<notin> set (addrs c)" "p \<notin> set (addrs r)"
      using sp by (auto simp: ctx_ok_def)
    with False gb sp b(4) show ?thesis
      by (intro goal) (auto simp: avl_delete_step_def mem_simps T_def del_left_def)
  next
    case True
    with b(3) have "2 \<le> ht r" by simp
    moreover have T: "T = fst (del_rot_left c p x w r)" and sh: "snd (del_left c p x w r) = snd (del_rot_left c p x w r)"
      using True by (simp_all add: T_def del_left_def)
    ultimately obtain h1 where h1: "del_rotate (-1) 1 p (root_of r) h = Some (root_of T, snd (del_rot_left c p x w r), h1)"
      "rep h1 (cpar rt C) T" "\<forall>b. b \<notin> set (addrs ?S) \<longrightarrow> h1 b = h b"
      using del_rotate_left [of h "cpar rt C" c p x w r] sp b(1) by (auto simp: ctx_ok_def)
    have ctx: "rep_ctx h1 rt C p"
      using sp rep_ctx_frame [OF _ h1(3), of rt C p] by simp
    obtain h2 where h2: "(do {
        tl \<leftarrow> rd left h1 (cpar rt C);
        h \<leftarrow> (if tl = p then set_left (cpar rt C) (root_of T) h1 else set_right (cpar rt C) (root_of T) h1);
        Some (root_of T, snd (del_rot_left c p x w r), h) }) = Some (root_of T, snd (del_rot_left c p x w r), h2)"
      "rep_ctx h2 rt C (root_of T)" "rep h2 (cpar rt C) T" "\<forall>b. b \<noteq> cpar rt C \<longrightarrow> h2 b = h1 b"
      using delete_hang [OF ctx, of "set (addrs ?S)" T "root_of T" "snd (del_rot_left c p x w r)"] sp h1(2) ad by auto
    have "rd parent h p = Some (cpar rt C)" "rd right h p = Some (root_of r)" using sp by (auto simp: mem_simps)
    then have "avl_delete_step (-1) p h = Some (root_of T, snd (del_left c p x w r), h2)"
      using h1(1) h2(1) True by (simp add: delete_step_rotate [OF gb] sh)
    with h2 h1(3) ad show ?thesis by (intro goal) auto
  qed
qed

lemma delete_step_right:
  assumes at: "avl_at h rt (fill C (Node l p x w c))"
    and b: "balanced l" "balanced c" "bal w = int (Suc (ht c)) - int (ht l)" "bal w \<in> {-1, 0, 1}"
  defines "T \<equiv> fst (del_right l p x w c)"
  shows "\<exists>h'. avl_delete_step 1 p h = Some (root_of T, snd (del_right l p x w c), h') \<and>
    avl_at h' rt (fill C T) \<and> (\<forall>b. b \<notin> insert (cpar rt C) (set (addrs T)) \<longrightarrow> h' b = h b)"
proof -
  let ?S = "Node l p x w c"
  note sp = at [unfolded avl_at_split]
  have nd: "nodes T = nodes ?S" using del_right_props(1) [OF b, of p x] by (simp add: T_def)
  then have ad: "addrs T = addrs ?S" by (simp add: addrs_def)
  have gb: "get_balance h p = Some (bal w)" using sp by (auto simp: mem_simps)
  have goal: ?thesis if "\<exists>h'. avl_delete_step 1 p h = Some (root_of T, snd (del_right l p x w c), h') \<and>
      rep_ctx h' rt C (root_of T) \<and> rep h' (cpar rt C) T \<and>
      (\<forall>b. b \<notin> insert (cpar rt C) (set (addrs T)) \<longrightarrow> h' b = h b)"
    unfolding avl_at_split ad using that sp ad by auto
  show ?thesis
  proof (cases "bal w = -1")
    case False
    have "p \<noteq> rt" "p \<notin> caddrs C" "p \<notin> set (addrs c)" "p \<notin> set (addrs l)"
      using sp by (auto simp: ctx_ok_def)
    with False gb sp b(4) show ?thesis
      by (intro goal) (auto simp: avl_delete_step_def mem_simps T_def del_right_def)
  next
    case True
    with b(3) have "2 \<le> ht l" by simp
    moreover have T: "T = fst (del_rot_right l p x w c)" and sh: "snd (del_right l p x w c) = snd (del_rot_right l p x w c)"
      using True by (simp_all add: T_def del_right_def)
    ultimately obtain h1 where h1: "del_rotate 1 (-1) p (root_of l) h = Some (root_of T, snd (del_rot_right l p x w c), h1)"
      "rep h1 (cpar rt C) T" "\<forall>b. b \<notin> set (addrs ?S) \<longrightarrow> h1 b = h b"
      using del_rotate_right [of h "cpar rt C" l p x w c] sp b(1) by (auto simp: ctx_ok_def)
    have ctx: "rep_ctx h1 rt C p"
      using sp rep_ctx_frame [OF _ h1(3), of rt C p] by simp
    obtain h2 where h2: "(do {
        tl \<leftarrow> rd left h1 (cpar rt C);
        h \<leftarrow> (if tl = p then set_left (cpar rt C) (root_of T) h1 else set_right (cpar rt C) (root_of T) h1);
        Some (root_of T, snd (del_rot_right l p x w c), h) }) = Some (root_of T, snd (del_rot_right l p x w c), h2)"
      "rep_ctx h2 rt C (root_of T)" "rep h2 (cpar rt C) T" "\<forall>b. b \<noteq> cpar rt C \<longrightarrow> h2 b = h1 b"
      using delete_hang [OF ctx, of "set (addrs ?S)" T "root_of T" "snd (del_rot_right l p x w c)"] sp h1(2) ad by auto
    have "rd parent h p = Some (cpar rt C)" "rd left h p = Some (root_of l)" using sp by (auto simp: mem_simps)
    then have "avl_delete_step 1 p h = Some (root_of T, snd (del_right l p x w c), h2)"
      using h1(1) h2(1) True by (simp add: delete_step_rotate [OF gb] sh)
    with h2 h1(3) ad show ?thesis by (intro goal) auto
  qed
qed

lemma cpar_addrs: "insert (cpar rt C) (set (addrs t)) \<subseteq> insert rt (set (addrs (fill C t)))"
  by (cases "(rt, C)" rule: cpar.cases) (auto simp: set_addrs_fill)

section \<open>The climbing loop\<close>

fun fixup :: "'k ctx \<Rightarrow> 'k ptree \<Rightarrow> 'k ptree" where
  "fixup [] c = c"
| "fixup (LFrame a x w r # C) c =
     (if snd (del_left c a x w r) then fixup C (fst (del_left c a x w r)) else fill C (fst (del_left c a x w r)))"
| "fixup (RFrame l a x w # C) c =
     (if snd (del_right l a x w c) then fixup C (fst (del_right l a x w c)) else fill C (fst (del_right l a x w c)))"

text \<open>A context that is balanced (correctly ranked) around a hole of height (size) \<open>n\<close>.\<close>

fun cbal :: "nat \<Rightarrow> 'k ctx \<Rightarrow> bool" where
  "cbal n [] \<longleftrightarrow> True"
| "cbal n (LFrame a x w r # C) \<longleftrightarrow>
     balanced r \<and> bal w = int (ht r) - int n \<and> bal w \<in> {-1, 0, 1} \<and> cbal (Suc (max n (ht r))) C"
| "cbal n (RFrame l a x w # C) \<longleftrightarrow>
     balanced l \<and> bal w = int n - int (ht l) \<and> bal w \<in> {-1, 0, 1} \<and> cbal (Suc (max (ht l) n)) C"

fun cranked :: "nat \<Rightarrow> 'k ctx \<Rightarrow> bool" where
  "cranked n [] \<longleftrightarrow> True"
| "cranked n (LFrame a x w r # C) \<longleftrightarrow> rk w = n + 1 \<and> ranked r \<and> cranked (n + 1 + length (nodes r)) C"
| "cranked n (RFrame l a x w # C) \<longleftrightarrow> rk w = length (nodes l) + 1 \<and> ranked l \<and> cranked (length (nodes l) + 1 + n) C"

lemma balanced_fill: "balanced (fill C t) \<longleftrightarrow> balanced t \<and> cbal (ht t) C"
proof (induction C arbitrary: t)
  case (Cons f C)
  then show ?case by (cases f) auto
qed simp

lemma ranked_fill: "ranked (fill C t) \<longleftrightarrow> ranked t \<and> cranked (length (nodes t)) C"
proof (induction C arbitrary: t)
  case (Cons f C)
  then show ?case by (cases f) auto
qed simp

lemma fixup_props:
  assumes "balanced c" "cbal (Suc (ht c)) C"
  shows "nodes (fixup C c) = nodes (fill C c) \<and> balanced (fixup C c) \<and>
    (ranked c \<longrightarrow> cranked (length (nodes c)) C \<longrightarrow> length (nodes (fill C c)) < 2 ^ 30 \<longrightarrow> ranked (fixup C c))"
  using assms
proof (induction C c rule: fixup.induct)
  case (2 a x w r C c)
  have b: "balanced r" "balanced c" "bal w = int (ht r) - int (Suc (ht c))" "bal w \<in> {-1, 0, 1}"
    and C: "cbal (Suc (max (Suc (ht c)) (ht r))) C" using 2(2,3) by auto
  define T sh where "T = fst (del_left c a x w r)" and "sh = snd (del_left c a x w r)"
  note P = del_left_props [OF b, of a x, folded T_def sh_def]
  have n: "nodes (fill C T) = nodes (fill (LFrame a x w r # C) c)" by (simp add: nodes_fill P(1))
  have rk: "ranked T" "cranked (length (nodes T)) C"
    if "ranked c" "cranked (length (nodes c)) (LFrame a x w r # C)" "length (nodes (fill (LFrame a x w r # C) c)) < 2 ^ 30"
    using that by (auto simp: P(1) nodes_fill intro!: P(4))
  show ?case
  proof (cases sh)
    case True
    then have h: "Suc (ht T) = Suc (max (Suc (ht c)) (ht r))" using P(3) by simp
    have IH: "nodes (fixup C T) = nodes (fill C T) \<and> balanced (fixup C T) \<and>
        (ranked T \<longrightarrow> cranked (length (nodes T)) C \<longrightarrow> length (nodes (fill C T)) < 2 ^ 30 \<longrightarrow> ranked (fixup C T))"
      using 2(1) True P(2) C h unfolding T_def sh_def by simp
    have "fixup (LFrame a x w r # C) c = fixup C T" using True by (simp add: T_def sh_def)
    with IH n rk show ?thesis by auto
  next
    case False
    then have h: "ht T = Suc (max (Suc (ht c)) (ht r))" using P(3) by simp
    have "fixup (LFrame a x w r # C) c = fill C T" using False by (simp add: T_def sh_def)
    with n rk C P(2) h show ?thesis by (auto simp: balanced_fill ranked_fill)
  qed
next
  case (3 l a x w C c)
  have b: "balanced l" "balanced c" "bal w = int (Suc (ht c)) - int (ht l)" "bal w \<in> {-1, 0, 1}"
    and C: "cbal (Suc (max (ht l) (Suc (ht c)))) C" using 3(2,3) by auto
  define T sh where "T = fst (del_right l a x w c)" and "sh = snd (del_right l a x w c)"
  note P = del_right_props [OF b, of a x, folded T_def sh_def]
  have n: "nodes (fill C T) = nodes (fill (RFrame l a x w # C) c)" by (simp add: nodes_fill P(1))
  have rk: "ranked T" "cranked (length (nodes T)) C"
    if "ranked c" "cranked (length (nodes c)) (RFrame l a x w # C)" "length (nodes (fill (RFrame l a x w # C) c)) < 2 ^ 30"
    using that by (auto simp: P(1) nodes_fill add.commute add.left_commute intro!: P(4))
  show ?case
  proof (cases sh)
    case True
    then have h: "Suc (ht T) = Suc (max (ht l) (Suc (ht c)))" using P(3) by simp
    have IH: "nodes (fixup C T) = nodes (fill C T) \<and> balanced (fixup C T) \<and>
        (ranked T \<longrightarrow> cranked (length (nodes T)) C \<longrightarrow> length (nodes (fill C T)) < 2 ^ 30 \<longrightarrow> ranked (fixup C T))"
      using 3(1) True P(2) C h unfolding T_def sh_def by simp
    have "fixup (RFrame l a x w # C) c = fixup C T" using True by (simp add: T_def sh_def)
    with IH n rk show ?thesis by auto
  next
    case False
    then have h: "ht T = Suc (max (ht l) (Suc (ht c)))" using P(3) by simp
    have "fixup (RFrame l a x w # C) c = fill C T" using False by (simp add: T_def sh_def)
    with n rk C P(2) h show ?thesis by (auto simp: balanced_fill ranked_fill)
  qed
qed simp

text \<open>Which side of its parent a hole is on, as \<open>shortened_side\<close> records it.\<close>

fun side :: "'k ctx \<Rightarrow> int" where
  "side (LFrame a x w r # C) = -1"
| "side C = 1"

lemma rd_side:
  assumes "rep_ctx h rt C p" "ctx_ok rt C A" "p \<in> A"
  shows "\<exists>l. rd left h (cpar rt C) = Some l \<and> (if p = l then -1 else 1) = side C"
proof (cases "(rt, C)" rule: cpar.cases)
  case (3 rt' l a x w D)
  moreover have "root_of l \<noteq> p" using assms 3 by (cases l) (auto simp: ctx_ok_def)
  ultimately show ?thesis using assms by (auto simp: mem_simps)
qed (use assms in \<open>auto simp: mem_simps ctx_ok_def\<close>)

lemma delete_climb_step:
  assumes "avl_delete_step s p h = Some (root_of T, sh, h')" "rd parent h p = Some pp" "pp \<noteq> NULL"
    and at: "avl_at h' rt (fill C T)" and "T \<noteq> Leaf"
  shows "avl_delete_climb s p h = (if sh then avl_delete_climb (side C) (cpar rt C) h' else Some h')"
proof -
  note sp = at [unfolded avl_at_split]
  have "rd parent h' (root_of T) = Some (cpar rt C)" using sp assms(5) by (cases T) (auto simp: mem_simps)
  moreover obtain l where "rd left h' (cpar rt C) = Some l" "(if root_of T = l then -1 else 1) = side C"
    using rd_side [of h' rt C "root_of T" "set (addrs T)"] sp assms(5) by auto
  ultimately show ?thesis
    using assms(1-3) by (subst avl_delete_climb.simps) (simp add: Let_def)
qed

lemma climb_rep:
  assumes "avl_at h rt (fill C c)" "balanced c" "cbal (Suc (ht c)) C"
  shows "\<exists>h'. avl_delete_climb (side C) (cpar rt C) h = Some h' \<and> avl_at h' rt (fixup C c) \<and>
    (\<forall>b. b \<notin> insert rt (set (addrs (fill C c))) \<longrightarrow> h' b = h b)"
  using assms
proof (induction C c arbitrary: h rule: fixup.induct)
  case (1 c)
  have "rd parent h rt = Some NULL" using 1 by (auto simp: avl_at_def mem_simps)
  then have "avl_delete_climb 1 rt h = Some h" by (subst avl_delete_climb.simps) simp
  with 1 show ?case by simp
next
  case (2 a x w r C c)
  have b: "balanced r" "balanced c" "bal w = int (ht r) - int (Suc (ht c))" "bal w \<in> {-1, 0, 1}"
    and C: "cbal (Suc (max (Suc (ht c)) (ht r))) C" using 2(3,4) by auto
  define T sh where "T = fst (del_left c a x w r)" and "sh = snd (del_left c a x w r)"
  note P = del_left_props [OF b, of a x, folded T_def sh_def]
  have at: "avl_at h rt (fill C (Node c a x w r))" using 2(2) by simp
  obtain h1 where h1: "avl_delete_step (-1) a h = Some (root_of T, sh, h1)" "avl_at h1 rt (fill C T)"
    "\<forall>b. b \<notin> insert (cpar rt C) (set (addrs T)) \<longrightarrow> h1 b = h b"
    using delete_step_left [OF at b] unfolding T_def sh_def by blast
  have T: "T \<noteq> Leaf" using P(1) by auto
  have ad: "set (addrs (fill C T)) = set (addrs (fill (LFrame a x w r # C) c))"
    by (simp add: addrs_def nodes_fill P(1))
  have fr: "\<forall>b. b \<notin> insert rt (set (addrs (fill (LFrame a x w r # C) c))) \<longrightarrow> h1 b = h b"
    using h1(3) cpar_addrs [of rt C T] unfolding ad by blast
  have pp: "rd parent h a = Some (cpar rt C)" "cpar rt C \<noteq> NULL"
    using at cpar_notin [of rt C] unfolding avl_at_split by (auto simp: mem_simps)
  note run = delete_climb_step [OF h1(1) pp h1(2) T]
  show ?case
  proof (cases sh)
    case True
    then have h: "Suc (ht T) = Suc (max (Suc (ht c)) (ht r))" using P(3) by simp
    obtain h2 where "avl_delete_climb (side C) (cpar rt C) h1 = Some h2" "avl_at h2 rt (fixup C T)"
      "\<forall>b. b \<notin> insert rt (set (addrs (fill C T))) \<longrightarrow> h2 b = h1 b"
      using 2(1) [of h1] True P(2) C h h1(2) unfolding T_def sh_def by auto
    with True run fr show ?thesis by (auto simp: T_def [symmetric] sh_def [symmetric] ad simp del: fill.simps)
  next
    case False
    with run fr h1(2) show ?thesis by (auto simp: T_def [symmetric] sh_def [symmetric] simp del: fill.simps)
  qed
next
  case (3 l a x w C c)
  have b: "balanced l" "balanced c" "bal w = int (Suc (ht c)) - int (ht l)" "bal w \<in> {-1, 0, 1}"
    and C: "cbal (Suc (max (ht l) (Suc (ht c)))) C" using 3(3,4) by auto
  define T sh where "T = fst (del_right l a x w c)" and "sh = snd (del_right l a x w c)"
  note P = del_right_props [OF b, of a x, folded T_def sh_def]
  have at: "avl_at h rt (fill C (Node l a x w c))" using 3(2) by simp
  obtain h1 where h1: "avl_delete_step 1 a h = Some (root_of T, sh, h1)" "avl_at h1 rt (fill C T)"
    "\<forall>b. b \<notin> insert (cpar rt C) (set (addrs T)) \<longrightarrow> h1 b = h b"
    using delete_step_right [OF at b] unfolding T_def sh_def by blast
  have T: "T \<noteq> Leaf" using P(1) by auto
  have ad: "set (addrs (fill C T)) = set (addrs (fill (RFrame l a x w # C) c))"
    by (simp add: addrs_def nodes_fill P(1))
  have fr: "\<forall>b. b \<notin> insert rt (set (addrs (fill (RFrame l a x w # C) c))) \<longrightarrow> h1 b = h b"
    using h1(3) cpar_addrs [of rt C T] unfolding ad by blast
  have pp: "rd parent h a = Some (cpar rt C)" "cpar rt C \<noteq> NULL"
    using at cpar_notin [of rt C] unfolding avl_at_split by (auto simp: mem_simps)
  note run = delete_climb_step [OF h1(1) pp h1(2) T]
  show ?case
  proof (cases sh)
    case True
    then have h: "Suc (ht T) = Suc (max (ht l) (Suc (ht c)))" using P(3) by simp
    obtain h2 where "avl_delete_climb (side C) (cpar rt C) h1 = Some h2" "avl_at h2 rt (fixup C T)"
      "\<forall>b. b \<notin> insert rt (set (addrs (fill C T))) \<longrightarrow> h2 b = h1 b"
      using 3(1) [of h1] True P(2) C h h1(2) unfolding T_def sh_def by auto
    with True run fr show ?thesis by (auto simp: T_def [symmetric] sh_def [symmetric] ad simp del: fill.simps)
  next
    case False
    with run fr h1(2) show ?thesis by (auto simp: T_def [symmetric] sh_def [symmetric] simp del: fill.simps)
  qed
qed

section \<open>The search and its undoing\<close>

text \<open>What the search does to the ranks above: a node is counted down when the search goes left.\<close>

fun dec :: "'k frame \<Rightarrow> 'k frame" where
  "dec (LFrame a x w r) = LFrame a x (AVL_SET_RANK w (AVL_GET_RANK w - 1)) r"
| "dec (RFrame l a x w) = RFrame l a x w"

lemma SET_RANK_SET_RANK: "AVL_SET_RANK (AVL_SET_RANK w r) s = AVL_SET_RANK w s"
proof -
  have "((w AND 3) OR push_bit 2 r) AND 3 = w AND 3"
    unfolding three_mask by (rule bit_word_eqI) (auto simp: bit_simps)
  then show ?thesis by (simp add: AVL_SET_RANK_def)
qed

lemma SET_RANK_cong: "take_bit 30 r = take_bit 30 s \<Longrightarrow> AVL_SET_RANK w r = AVL_SET_RANK w s"
proof -
  have "push_bit 2 x = push_bit 2 (take_bit 30 x)" for x :: uint
    by (rule bit_word_eqI) (auto simp: bit_simps)
  then show "take_bit 30 r = take_bit 30 s \<Longrightarrow> AVL_SET_RANK w r = AVL_SET_RANK w s"
    by (metis AVL_SET_RANK_def)
qed

lemma SET_RANK_GET_RANK: "AVL_SET_RANK w (AVL_GET_RANK w) = w"
proof (rule bit_word_eqI)
  fix n :: nat
  assume "n < LENGTH(32)"
  then show "bit (AVL_SET_RANK w (AVL_GET_RANK w)) n \<longleftrightarrow> bit w n"
    unfolding AVL_SET_RANK_def AVL_GET_RANK_def three_mask
    by (cases "n < 2") (auto simp: bit_simps not_less dest!: le_Suc_ex)
qed

lemma rank_restore:
  "AVL_SET_RANK (AVL_SET_RANK w (AVL_GET_RANK w - 1)) (AVL_GET_RANK (AVL_SET_RANK w (AVL_GET_RANK w - 1)) + 1) = w"
proof -
  have "take_bit 30 (take_bit 30 (AVL_GET_RANK w - 1) + 1) = take_bit 30 (AVL_GET_RANK w)"
  proof (cases "AVL_GET_RANK w = 0")
    case False
    then have "unat (AVL_GET_RANK w - 1) = unat (AVL_GET_RANK w) - 1"
      by (simp add: unat_sub_if' word_le_nat_alt unat_eq_0 Suc_le_eq)
    then have "unat (AVL_GET_RANK w - 1) < 2 ^ 30" using rk_bound [of w] by (simp add: rk_def)
    then have "unat (take_bit 30 (AVL_GET_RANK w - 1)) = unat (AVL_GET_RANK w - 1)"
      by (simp add: unsigned_take_bit_eq take_bit_nat_eq_self)
    then have "take_bit 30 (AVL_GET_RANK w - 1) = AVL_GET_RANK w - 1" by (simp only: word_unat_eq_iff)
    then show ?thesis by simp
  qed (simp add: mask_eq_exp_minus_1)
  then show ?thesis
    unfolding SET_RANK_SET_RANK GET_RANK_SET_RANK using SET_RANK_cong SET_RANK_GET_RANK by metis
qed

lemma before_dec [simp]: "before (map dec D) = before D"
  by (induction D rule: before.induct) auto

lemma after_dec [simp]: "after (map dec D) = after D"
  by (induction D rule: before.induct) auto

lemma caddrs_dec [simp]: "caddrs (map dec D) = caddrs D"
  by (simp add: caddrs_def)

lemma cpar_dec [simp]: "cpar rt (map dec D) = cpar rt D"
  by (induction D rule: before.induct) auto

lemma cbal_dec [simp]: "cbal n (map dec D) = cbal n D"
  by (induction n D rule: cbal.induct) auto

lemma cranked_dec: "cranked (Suc n) D \<Longrightarrow> cranked n (map dec D)"
  by (induction n D rule: cranked.induct) (auto simp: word_rules)

lemma side_dec [simp]: "side (map dec D) = side D"
  by (induction D rule: before.induct) auto

lemma avl_at_set:
  assumes "avl_at h rt (fill C (Node l a x w r))"
  shows "avl_at (h(a \<mapsto> \<lparr>key = Some x', left = root_of l, right = root_of r, parent = cpar rt C, rank_and_balance = w'\<rparr>))
    rt (fill C (Node l a x' w' r))"
    and "h a = Some \<lparr>key = Some x, left = root_of l, right = root_of r, parent = cpar rt C, rank_and_balance = w\<rparr>"
proof -
  have "nodes (Node l a x' w' r) = nodes l @ (a, x') # nodes r" by simp
  have "ctx_ok rt C (set (addrs (Node l a x' w' r)))" "a \<noteq> rt" "a \<notin> caddrs C" "a \<notin> set (addrs l)" "a \<notin> set (addrs r)"
    "distinct (addrs (Node l a x' w' r))" "rep_ctx h rt C a" "rep h a l" "rep h a r"
    using assms unfolding avl_at_split by (auto simp: ctx_ok_def)
  then show "avl_at (h(a \<mapsto> \<lparr>key = Some x', left = root_of l, right = root_of r, parent = cpar rt C, rank_and_balance = w'\<rparr>))
    rt (fill C (Node l a x' w' r))"
    unfolding avl_at_split by simp
  show "h a = Some \<lparr>key = Some x, left = root_of l, right = root_of r, parent = cpar rt C, rank_and_balance = w\<rparr>"
    using assms unfolding avl_at_split by auto
qed

lemma root_fill_Cons: "C \<noteq> [] \<Longrightarrow> root_of (fill C t) \<in> caddrs C"
proof (induction C arbitrary: t)
  case (Cons f C)
  then show ?case by (cases "C = []"; cases f) auto
qed simp

lemma undo_rep:
  assumes "avl_at h rt (fill (map dec C) t)" "t \<noteq> Leaf"
  shows "\<exists>h'. avl_delete_undo rt (root_of t) h = Some h' \<and> avl_at h' rt (fill C t) \<and>
    (\<forall>b. b \<notin> set (addrs (fill C t)) \<longrightarrow> h' b = h b)"
  using assms
proof (induction C arbitrary: h t)
  case Nil
  then have "rd right h rt = Some (root_of t)" by (auto simp: avl_at_def mem_simps)
  with Nil show ?case by (subst avl_delete_undo.simps) simp
next
  case (Cons f C)
  have rr: "rd right h rt = Some (root_of (fill (map dec (f # C)) t))"
    using Cons.prems(1) by (auto simp: avl_at_def mem_simps)
  have "root_of (fill (map dec (f # C)) t) \<in> caddrs (map dec (f # C))" by (rule root_fill_Cons) simp
  then have ne: "root_of t \<noteq> root_of (fill (map dec (f # C)) t)"
    using Cons.prems unfolding avl_at_split by (metis IntI empty_iff ctx_ok_def root_of_in_addrs)
  show ?case
  proof (cases f)
    case (LFrame a x w r)
    let ?w = "AVL_SET_RANK w (AVL_GET_RANK w - 1)"
    have at: "avl_at h rt (fill (map dec C) (Node t a x ?w r))" using Cons.prems(1) LFrame by simp
    note up = avl_at_set(1) [OF at, of x w] avl_at_set(2) [OF at]
    define h1 where "h1 = h(a \<mapsto> \<lparr>key = Some x, left = root_of t, right = root_of r, parent = cpar rt (map dec C), rank_and_balance = w\<rparr>)"
    have t: "\<exists>n. h (root_of t) = Some n \<and> parent n = a \<and> root_of t \<noteq> a"
      using Cons.prems unfolding avl_at_split LFrame by (cases t) (auto simp: ctx_ok_def)
    obtain h' where h': "avl_delete_undo rt a h1 = Some h'" "avl_at h' rt (fill C (Node t a x w r))"
      "\<forall>b. b \<notin> set (addrs (fill C (Node t a x w r))) \<longrightarrow> h' b = h1 b"
      using Cons.IH [OF up(1) [folded h1_def]] by auto
    have "avl_delete_undo rt (root_of t) h = avl_delete_undo rt a h1"
      using rr ne t up(2) by (subst avl_delete_undo.simps) (auto simp: mem_simps h1_def rank_restore)
    with h' LFrame show ?thesis by (auto simp: h1_def set_addrs_fill)
  next
    case (RFrame l a x w)
    have at: "avl_at h rt (fill (map dec C) (Node l a x w t))" using Cons.prems(1) RFrame by simp
    note up = avl_at_set(2) [OF at]
    have t: "\<exists>n. h (root_of t) = Some n \<and> parent n = a" "root_of l \<noteq> root_of t"
      using Cons.prems unfolding avl_at_split RFrame by (cases t; cases l; auto simp: ctx_ok_def)+
    obtain h' where h': "avl_delete_undo rt a h = Some h'" "avl_at h' rt (fill C (Node l a x w t))"
      "\<forall>b. b \<notin> set (addrs (fill C (Node l a x w t))) \<longrightarrow> h' b = h b"
      using Cons.IH [of h "Node l a x w t"] at by auto
    have "avl_delete_undo rt (root_of t) h = avl_delete_undo rt a h"
      using rr ne t up by (subst avl_delete_undo.simps) (auto simp: mem_simps)
    with h' RFrame show ?thesis by auto
  qed
qed

text \<open>Where the search ends: \<open>Inl\<close> the tree it leaves behind when the key is not there (with a rank that is
  one too high when the search ends at a missing right child), \<open>Inr\<close> the context and the subtree of the key.\<close>

fun locate :: "('k \<Rightarrow> 'k \<Rightarrow> int) \<Rightarrow> 'k \<Rightarrow> 'k ctx \<Rightarrow> 'k ptree \<Rightarrow> 'k ptree + 'k ctx \<times> 'k ptree" where
  "locate cmp k C Leaf = Inl (fill C Leaf)"
| "locate cmp k C (Node l a x w r) =
     (if cmp k x < 0 then
        (if l = Leaf then Inl (fill C (Node l a x w r)) else locate cmp k (LFrame a x w r # C) l)
      else if cmp k x > 0 then
        (if r = Leaf then Inl (fill C (Node l a x (AVL_SET_RANK w (AVL_GET_RANK w + 1)) r))
         else locate cmp k (RFrame l a x w # C) r)
      else Inr (C, Node l a x w r))"

lemma delete_find_steps:
  fixes cmpo :: "'k option \<Rightarrow> 'k option \<Rightarrow> int" and h :: "'k heap"
  assumes cell: "h a = Some \<lparr>key = Some x, left = ll, right = rr, parent = par, rank_and_balance = w\<rparr>"
  shows "cmpo (Some k) (Some x) < 0 \<Longrightarrow> avl_delete_find cmpo rt (Some k) a h =
      (if ll \<noteq> NULL then avl_delete_find cmpo rt (Some k) ll (h(a \<mapsto> \<lparr>key = Some x, left = ll, right = rr,
          parent = par, rank_and_balance = AVL_SET_RANK w (AVL_GET_RANK w - 1)\<rparr>))
       else do { h \<leftarrow> avl_delete_undo rt a h; Some (h, None) })"
    and "0 < cmpo (Some k) (Some x) \<Longrightarrow> avl_delete_find cmpo rt (Some k) a h =
      (if rr \<noteq> NULL then avl_delete_find cmpo rt (Some k) rr h
       else do { h \<leftarrow> avl_delete_undo rt a (h(a \<mapsto> \<lparr>key = Some x, left = ll, right = rr,
          parent = par, rank_and_balance = AVL_SET_RANK w (AVL_GET_RANK w + 1)\<rparr>)); Some (h, None) })"
    and "cmpo (Some k) (Some x) = 0 \<Longrightarrow> avl_delete_find cmpo rt (Some k) a h = Some (h, Some a)"
proof -
  have same: "h(a \<mapsto> \<lparr>key = Some x, left = ll, right = rr, parent = par, rank_and_balance = w\<rparr>) = h"
    using cell by auto
  show "cmpo (Some k) (Some x) < 0 \<Longrightarrow> avl_delete_find cmpo rt (Some k) a h =
      (if ll \<noteq> NULL then avl_delete_find cmpo rt (Some k) ll (h(a \<mapsto> \<lparr>key = Some x, left = ll, right = rr,
          parent = par, rank_and_balance = AVL_SET_RANK w (AVL_GET_RANK w - 1)\<rparr>))
       else do { h \<leftarrow> avl_delete_undo rt a h; Some (h, None) })"
    using same by (subst avl_delete_find.simps) (auto simp add: mem_eval cell rank_restore Let_def)
qed (subst avl_delete_find.simps; simp add: mem_eval cell Let_def)+

lemma delete_find_rep:
  fixes cmpo :: "'k option \<Rightarrow> 'k option \<Rightarrow> int"
  defines "cmp \<equiv> \<lambda>x y. cmpo (Some x) (Some y)"
  assumes "avl_at h rt (fill (map dec C) t)" "t \<noteq> Leaf"
  shows "\<exists>h'. (case locate cmp k C t of
      Inl u \<Rightarrow> avl_delete_find cmpo rt (Some k) (root_of t) h = Some (h', None) \<and> avl_at h' rt u
    | Inr (D, S) \<Rightarrow> avl_delete_find cmpo rt (Some k) (root_of t) h = Some (h', Some (root_of S)) \<and>
        avl_at h' rt (fill (map dec D) S)) \<and>
    (\<forall>b. b \<notin> set (addrs (fill C t)) \<longrightarrow> h' b = h b)"
  using assms(2-)
proof (induction t arbitrary: h C)
  case (Node l a x w r)
  note at = Node.prems(1)
  note cell = avl_at_set(2) [OF at]
  have nl: "NULL \<notin> set (addrs l)" "NULL \<notin> set (addrs r)"
    using at unfolding avl_at_split by (auto simp: ctx_ok_def)
  have adr: "set (addrs (fill (LFrame a x w r # C) l)) = set (addrs (fill C (Node l a x w r)))"
    "set (addrs (fill (RFrame l a x w # C) r)) = set (addrs (fill C (Node l a x w r)))" by simp_all
  consider "cmp k x < 0" "l = Leaf" | "cmp k x < 0" "l \<noteq> Leaf" | "0 < cmp k x" "r = Leaf" | "0 < cmp k x" "r \<noteq> Leaf"
    | "cmp k x = 0" by linarith
  then show ?case
  proof cases
    case 1
    then obtain h' where "avl_delete_undo rt a h = Some h'" "avl_at h' rt (fill C (Node l a x w r))"
      "\<forall>b. b \<notin> set (addrs (fill C (Node l a x w r))) \<longrightarrow> h' b = h b"
      using undo_rep [OF at] by auto
    with 1 show ?thesis
      using delete_find_steps(1) [where h = h and a = a and cmpo = cmpo and k = k and rt = rt, OF cell] by (auto simp: cmp_def)
  next
    case 2
    define h1 where "h1 = h(a \<mapsto> \<lparr>key = Some x, left = root_of l, right = root_of r, parent = cpar rt (map dec C),
        rank_and_balance = AVL_SET_RANK w (AVL_GET_RANK w - 1)\<rparr>)"
    have "avl_at h1 rt (fill (map dec (LFrame a x w r # C)) l)"
      using avl_at_set(1) [OF at, of x "AVL_SET_RANK w (AVL_GET_RANK w - 1)"] by (simp add: h1_def)
    note IH = Node.IH(1) [OF this 2(2)]
    have run: "avl_delete_find cmpo rt (Some k) a h = avl_delete_find cmpo rt (Some k) (root_of l) h1"
      using delete_find_steps(1) [where h = h and a = a and cmpo = cmpo and k = k and rt = rt, OF cell] 2 nl by (simp add: h1_def cmp_def root_of_eq_NULL)
    have "h1 b = h b" if "b \<notin> set (addrs (fill C (Node l a x w r)))" for b
      using that by (auto simp: h1_def set_addrs_fill)
    with IH 2 show ?thesis unfolding adr root_of.simps run by simp
  next
    case 3
    define h1 where "h1 = h(a \<mapsto> \<lparr>key = Some x, left = root_of l, right = root_of r, parent = cpar rt (map dec C),
        rank_and_balance = AVL_SET_RANK w (AVL_GET_RANK w + 1)\<rparr>)"
    let ?t = "Node l a x (AVL_SET_RANK w (AVL_GET_RANK w + 1)) r"
    have "avl_at h1 rt (fill (map dec C) ?t)"
      using avl_at_set(1) [OF at, of x "AVL_SET_RANK w (AVL_GET_RANK w + 1)"] by (simp add: h1_def)
    from undo_rep [OF this] obtain h' where h': "avl_delete_undo rt a h1 = Some h'" "avl_at h' rt (fill C ?t)"
      "\<forall>b. b \<notin> set (addrs (fill C ?t)) \<longrightarrow> h' b = h1 b" by auto
    have "h' b = h b" if "b \<notin> set (addrs (fill C (Node l a x w r)))" for b
      using that h'(3) by (auto simp: h1_def set_addrs_fill)
    with 3 h'(1,2) show ?thesis
      using delete_find_steps(2) [where h = h and a = a and cmpo = cmpo and k = k and rt = rt, OF cell] by (auto simp: cmp_def h1_def)
  next
    case 4
    have "avl_at h rt (fill (map dec (RFrame l a x w # C)) r)" using at by simp
    note IH = Node.IH(2) [OF this 4(2)]
    have run: "avl_delete_find cmpo rt (Some k) a h = avl_delete_find cmpo rt (Some k) (root_of r) h"
      using delete_find_steps(2) [where h = h and a = a and cmpo = cmpo and k = k and rt = rt, OF cell] 4 nl by (simp add: cmp_def root_of_eq_NULL)
    from IH 4 show ?thesis unfolding adr root_of.simps run by simp
  next
    case 5
    with at show ?thesis using delete_find_steps(3) [where h = h and a = a and cmpo = cmpo and k = k and rt = rt, OF cell] by (auto simp: cmp_def)
  qed
qed simp

section \<open>Taking a node out\<close>

lemma unlink_rep:
  assumes at: "avl_at h rt (fill C (Node l b x w r))" and one: "l = Leaf \<or> r = Leaf"
  defines "c \<equiv> if l \<noteq> Leaf then l else r"
  shows "\<exists>h'. avl_delete_unlink b h = Some (side C, h') \<and> h' b = h b \<and> avl_at (h'(b := None)) rt (fill C c) \<and>
    (\<forall>a. a \<notin> insert rt (set (addrs (fill C (Node l b x w r)))) \<longrightarrow> h' a = h a)"
proof -
  note sp = at [unfolded avl_at_split]
  have cell: "h b = Some \<lparr>key = Some x, left = root_of l, right = root_of r, parent = cpar rt C, rank_and_balance = w\<rparr>"
    and l: "rep h b l" and r: "rep h b r" and ctx: "rep_ctx h rt C b" using sp by auto
  have ok: "ctx_ok rt C (set (addrs (Node l b x w r)))" using sp by simp
  have nl: "root_of l = NULL \<longleftrightarrow> l = Leaf" "root_of r = NULL \<longleftrightarrow> r = Leaf"
    using ok by (auto simp: ctx_ok_def root_of_eq_NULL)
  define h1 where "h1 = reparent h (root_of c) (cpar rt C)"
  have cin: "set (addrs c) \<subseteq> set (addrs (Node l b x w r))" "b \<notin> set (addrs c)" "distinct (addrs c)"
    using sp by (auto simp: c_def)
  have repc: "rep h b c" using l r by (auto simp: c_def)
  have nc: "NULL \<notin> set (addrs c)" using ok cin(1) by (auto simp: ctx_ok_def)
  have h1: "rep h1 (cpar rt C) c" "h1 b = h b" "\<forall>a. a \<notin> set (addrs c) \<longrightarrow> h1 a = h a"
    using rep_reparent [OF repc cin(3) nc] cin(2) by (auto simp: h1_def reparent_notin)
  have ctx1: "rep_ctx h1 rt C b"
    using ctx rep_ctx_frame [OF ok, of h1 h b] h1(3) cin(1) by auto
  have b: "b \<noteq> NULL" "b \<in> set (addrs (Node l b x w r))" using ok by (auto simp: ctx_ok_def)
  obtain n where n: "h1 (cpar rt C) = Some n"
    "left n = b \<Longrightarrow> rep_ctx (h1(cpar rt C \<mapsto> n\<lparr>left := root_of c\<rparr>)) rt C (root_of c)"
    "left n \<noteq> b \<Longrightarrow> rep_ctx (h1(cpar rt C \<mapsto> n\<lparr>right := root_of c\<rparr>)) rt C (root_of c)"
    by (rule rep_ctx_hole_upd [OF ctx1 ok b, of "root_of c"]) blast
  obtain pl where pl: "rd left h1 (cpar rt C) = Some pl" "(if b = pl then -1 else 1) = side C"
    using rd_side [OF ctx1 ok b(2)] by blast
  have cp: "cpar rt C \<notin> set (addrs (Node l b x w r))" using cpar_notin [OF ok] by simp
  define h2 where "h2 = (if left n = b then h1(cpar rt C \<mapsto> n\<lparr>left := root_of c\<rparr>) else h1(cpar rt C \<mapsto> n\<lparr>right := root_of c\<rparr>))"
  have run: "avl_delete_unlink b h = Some (side C, h2)"
  proof -
    have "(if root_of l \<noteq> NULL then do { par \<leftarrow> rd parent h b; h \<leftarrow> set_parent (root_of l) par h; Some (root_of l, h) }
        else if root_of r \<noteq> NULL then do { par \<leftarrow> rd parent h b; h \<leftarrow> set_parent (root_of r) par h; Some (root_of r, h) }
        else Some (NULL, h)) = Some (root_of c, h1)"
      using root_of_dom [OF repc] nl by (auto simp: c_def h1_def mem_simps cell reparent_def)
    moreover have "rd left h b = Some (root_of l)" "rd right h b = Some (root_of r)" "rd parent h1 b = Some (cpar rt C)"
      using cell h1(2) by (auto simp: mem_simps)
    ultimately show ?thesis
      using pl n(1) by (auto simp: avl_delete_unlink_def h2_def mem_simps)
  qed
  have "rep_ctx h2 rt C (root_of c)" using n by (auto simp: h2_def)
  moreover have "rep h2 (cpar rt C) c"
  proof -
    have "cpar rt C \<notin> set (addrs c)" using cp cin(1) by auto
    with h1(1) show ?thesis by (simp add: h2_def)
  qed
  moreover have "ctx_ok rt C (set (addrs c))" using ok cin(1) by (auto simp: ctx_ok_def)
  moreover have "b \<noteq> rt" "b \<notin> caddrs C" using ok by (auto simp: ctx_ok_def)
  ultimately have "avl_at (h2(b := None)) rt (fill C c)"
    unfolding avl_at_split using cin by simp
  moreover have "h2 b = h b" using cp h1(2) by (auto simp: h2_def)
  moreover have "h2 a = h a" if "a \<notin> insert rt (set (addrs (fill C (Node l b x w r))))" for a
  proof -
    have "a \<noteq> cpar rt C" "a \<notin> set (addrs c)" using that cpar_addrs [of rt C "Node l b x w r"] cin(1) by auto
    then show ?thesis using h1(3) by (simp add: h2_def)
  qed
  ultimately show ?thesis using run by blast
qed

text \<open>The last node of a tree and its context, all right moves.\<close>

fun split_max :: "'k ctx \<Rightarrow> 'k ptree \<Rightarrow> 'k ctx \<times> 'k ptree" where
  "split_max C Leaf = (C, Leaf)"
| "split_max C (Node l a x w r) = (if r = Leaf then (C, Node l a x w r) else split_max (RFrame l a x w # C) r)"

lemma split_max_props:
  assumes "t \<noteq> Leaf"
  shows "\<exists>G l a x w. split_max C t = (G @ C, Node l a x w Leaf) \<and> fill G (Node l a x w Leaf) = t \<and>
    map dec G = G \<and> after G = [] \<and> a = last (addrs t)"
  using assms
proof (induction t arbitrary: C)
  case (Node l a x w r)
  show ?case
  proof (cases "r = Leaf")
    case False
    with Node.IH(2) [of "RFrame l a x w # C"] obtain G l' a' x' w' where
      *: "split_max (RFrame l a x w # C) r = (G @ RFrame l a x w # C, Node l' a' x' w' Leaf)"
        "fill G (Node l' a' x' w' Leaf) = r" "map dec G = G" "after G = []" "a' = last (addrs r)" by blast
    have "fill (G @ [RFrame l a x w]) t = Node l a x w (fill G t)" for t
      by (induction G arbitrary: t) auto
    moreover have "after (G @ [RFrame l a x w]) = after G" by (induction G rule: before.induct) auto
    moreover have "addrs r \<noteq> []" using False by (simp add: addrs_def)
    ultimately have "split_max C (Node l a x w r) = ((G @ [RFrame l a x w]) @ C, Node l' a' x' w' Leaf) \<and>
        fill (G @ [RFrame l a x w]) (Node l' a' x' w' Leaf) = Node l a x w r \<and>
        map dec (G @ [RFrame l a x w]) = G @ [RFrame l a x w] \<and> after (G @ [RFrame l a x w]) = [] \<and>
        a' = last (addrs (Node l a x w r))"
      using * False by simp
    then show ?thesis by blast
  qed auto
qed simp

lemma fill_append: "fill (C @ D) t = fill D (fill C t)"
  by (induction C arbitrary: t) auto

text \<open>The node with two children gets the key of its predecessor, which takes its key and goes instead.\<close>

lemma swap_eval:
  assumes ha: "h a = Some \<lparr>key = ak, left = ll, right = rr, parent = par, rank_and_balance = w\<rparr>"
    and hy: "h y = Some \<lparr>key = yk, left = yl, right = yr, parent = yp, rank_and_balance = yw\<rparr>"
    and d: "y \<noteq> a" and n: "ll \<noteq> NULL" "rr \<noteq> NULL" and rm: "avl_rightmost ll h = Some y"
  shows "avl_delete_swap a h = Some (y, h
      (a \<mapsto> \<lparr>key = yk, left = ll, right = rr, parent = par, rank_and_balance = AVL_SET_RANK w (AVL_GET_RANK w - 1)\<rparr>,
       y \<mapsto> \<lparr>key = ak, left = yl, right = yr, parent = yp, rank_and_balance = yw\<rparr>))"
  unfolding avl_delete_swap_def
  by (simp add: mem_eval ha hy d d [symmetric] n [simplified] rm fun_upd_twist [OF d] cong: bind_weak)

lemma swap_rep:
  assumes at: "avl_at h rt (fill C (Node l a x w r))" and two: "l \<noteq> Leaf" "r \<noteq> Leaf"
    and sp: "split_max [] l = (G, Node yl y yk yw Leaf)"
  shows "\<exists>h'. avl_delete_swap a h = Some (y, h') \<and>
    avl_at h' rt (fill (G @ LFrame a yk (AVL_SET_RANK w (AVL_GET_RANK w - 1)) r # C) (Node yl y x yw Leaf)) \<and>
    (\<forall>b. b \<notin> insert rt (set (addrs (fill C (Node l a x w r)))) \<longrightarrow> h' b = h b)"
proof -
  let ?w = "AVL_SET_RANK w (AVL_GET_RANK w - 1)"
  have l: "fill G (Node yl y yk yw Leaf) = l" and y: "y = last (addrs l)"
    using split_max_props [OF two(1), of "[]"] sp by auto
  note cell = avl_at_set(2) [OF at] and sp1 = at [unfolded avl_at_split]
  have nl: "root_of l \<noteq> NULL" "root_of r \<noteq> NULL" "NULL \<notin> set (addrs l)" "rep h a l"
    using sp1 two by (auto simp: ctx_ok_def root_of_eq_NULL)
  have rm: "avl_rightmost (root_of l) h = Some y" using rightmost_rep [OF nl(4) two(1) nl(3)] y by simp
  have ya: "y \<noteq> a" "y \<in> set (addrs l)"
    using sp1 l by (auto simp: set_addrs_fill)
  define h1 where "h1 = h(a \<mapsto> \<lparr>key = Some yk, left = root_of l, right = root_of r, parent = cpar rt C, rank_and_balance = ?w\<rparr>)"
  have at1: "avl_at h1 rt (fill (G @ LFrame a yk ?w r # C) (Node yl y yk yw Leaf))"
    using avl_at_set(1) [OF at, of yk ?w] by (simp add: fill_append l h1_def)
  note cy = avl_at_set(2) [OF at1]
  define h2 where "h2 = h1(y \<mapsto> \<lparr>key = Some x, left = root_of yl, right = root_of Leaf,
      parent = cpar rt (G @ LFrame a yk ?w r # C), rank_and_balance = yw\<rparr>)"
  have at2: "avl_at h2 rt (fill (G @ LFrame a yk ?w r # C) (Node yl y x yw Leaf))"
    using avl_at_set(1) [OF at1, of x yw] by (simp add: h2_def)
  have hy: "h y = Some \<lparr>key = Some yk, left = root_of yl, right = root_of Leaf,
      parent = cpar rt (G @ LFrame a yk ?w r # C), rank_and_balance = yw\<rparr>"
    using cy ya by (simp add: h1_def)
  have "avl_delete_swap a h = Some (y, h2)"
    unfolding h2_def h1_def by (rule swap_eval [OF cell hy ya(1) nl(1,2) rm])
  moreover have "h2 b = h b" if "b \<notin> insert rt (set (addrs (fill C (Node l a x w r))))" for b
    using that ya by (auto simp: h1_def h2_def set_addrs_fill)
  ultimately show ?thesis using at2 by blast
qed

lemma swap_none:
  assumes at: "avl_at h rt (fill C (Node l a x w r))" and one: "l = Leaf \<or> r = Leaf"
  shows "avl_delete_swap a h = Some (a, h)"
  using avl_at_set(2) [OF at] one by (auto simp: avl_delete_swap_def mem_simps)

lemma delete_tail:
  assumes at: "avl_at h rt (fill K (Node l b x w r))" and one: "l = Leaf \<or> r = Leaf"
    and bal: "balanced c" "cbal (Suc (ht c)) K" and c: "c = (if l \<noteq> Leaf then l else r)"
  shows "\<exists>h'. (do {
      (s, h) \<leftarrow> avl_delete_unlink b h;
      p \<leftarrow> rd parent h b;
      xk \<leftarrow> rd key h b;
      let st = free_key f xk st;
      h \<leftarrow> free_node b h;
      h \<leftarrow> avl_delete_climb s p h;
      Some (res, ob, st, h) }) = Some (res, ob, free_key f (Some x) st, h') \<and>
    avl_at h' rt (fixup K c) \<and> h' b = None \<and>
    (\<forall>a. a \<notin> insert rt (set (addrs (fill K (Node l b x w r)))) \<longrightarrow> h' a = h a)"
proof -
  obtain h1 where h1: "avl_delete_unlink b h = Some (side K, h1)" "h1 b = h b" "avl_at (h1(b := None)) rt (fill K c)"
    "\<forall>a. a \<notin> insert rt (set (addrs (fill K (Node l b x w r)))) \<longrightarrow> h1 a = h a"
    using unlink_rep [OF at one] c by auto
  have sub: "set (addrs (fill K c)) \<subseteq> set (addrs (fill K (Node l b x w r)))" "b \<notin> insert rt (set (addrs (fill K c)))"
    using at c unfolding avl_at_split by (auto simp: set_addrs_fill ctx_ok_def)
  obtain h2 where h2: "avl_delete_climb (side K) (cpar rt K) (h1(b := None)) = Some h2" "avl_at h2 rt (fixup K c)"
    "\<forall>a. a \<notin> insert rt (set (addrs (fill K c))) \<longrightarrow> h2 a = (h1(b := None)) a"
    using climb_rep [OF h1(3) bal] by blast
  have cell: "rd parent h1 b = Some (cpar rt K)" "rd key h1 b = Some (Some x)" "free_node b h1 = Some (h1(b := None))"
    using avl_at_set(2) [OF at] h1(2) by (auto simp: mem_simps)
  have "h2 a = h a" if "a \<notin> insert rt (set (addrs (fill K (Node l b x w r))))" for a
  proof -
    have "a \<noteq> b" using that by (auto simp: set_addrs_fill)
    moreover have "a \<notin> insert rt (set (addrs (fill K c)))" using that sub(1) by auto
    ultimately show ?thesis using that h1(4) h2(3) by simp
  qed
  moreover have "h2 b = None" using h2(3) sub(2) by simp
  ultimately show ?thesis using h1(1) cell h2(1,2) by (simp add: Let_def)
qed

lemma before_append: "before (G @ D) = before D @ before G"
  by (induction G rule: before.induct) auto

lemma after_append: "after (G @ D) = after G @ after D"
  by (induction G rule: before.induct) auto

lemma cbal_key: "cbal n (G @ LFrame a x w r # D) \<longleftrightarrow> cbal n (G @ LFrame a y w r # D)"
  by (induction n G rule: cbal.induct) auto

lemma cranked_key: "cranked n (G @ LFrame a x w r # D) \<longleftrightarrow> cranked n (G @ LFrame a y w r # D)"
  by (induction n G rule: cranked.induct) auto

lemma delete_found:
  assumes at: "avl_at h rt (fill (map dec D) (Node l a x w r))" and bal: "balanced (fill D (Node l a x w r))"
  defines "t \<equiv> fill D (Node l a x w r)"
  shows "\<exists>h' u. (do {
      (b, h) \<leftarrow> avl_delete_swap a h;
      (s, h) \<leftarrow> avl_delete_unlink b h;
      p \<leftarrow> rd parent h b;
      xk \<leftarrow> rd key h b;
      let st = free_key f xk st;
      h \<leftarrow> free_node b h;
      h \<leftarrow> avl_delete_climb s p h;
      Some (res, ob, st, h) }) = Some (res, ob, free_key f (Some x) st, h') \<and>
    avl_at h' rt u \<and> balanced u \<and> keys u = map snd (before D) @ keys l @ keys r @ map snd (after D) \<and>
    (ranked t \<longrightarrow> length (nodes t) < 2 ^ 30 \<longrightarrow> ranked u) \<and>
    (\<exists>b. b \<in> set (addrs t) \<and> set (addrs u) = set (addrs t) - {b} \<and> h' b = None) \<and>
    (\<forall>b. b \<notin> insert rt (set (addrs t)) \<longrightarrow> h' b = h b)"
proof (cases "l = Leaf \<or> r = Leaf")
  case True
  define c where "c = (if l \<noteq> Leaf then l else r)"
  have c: "nodes c = nodes l @ nodes r" "ht (Node l a x w r) = Suc (ht c)" "ranked (Node l a x w r) \<Longrightarrow> ranked c"
    using True by (auto simp: c_def)
  have b: "balanced c" "cbal (Suc (ht c)) (map dec D)" using bal True by (auto simp: balanced_fill c_def)
  obtain h' where h': "(do {
      (s, h) \<leftarrow> avl_delete_unlink a h;
      p \<leftarrow> rd parent h a;
      xk \<leftarrow> rd key h a;
      let st = free_key f xk st;
      h \<leftarrow> free_node a h;
      h \<leftarrow> avl_delete_climb s p h;
      Some (res, ob, st, h) }) = Some (res, ob, free_key f (Some x) st, h')"
    "avl_at h' rt (fixup (map dec D) c)" "h' a = None"
    "\<forall>b. b \<notin> insert rt (set (addrs (fill (map dec D) (Node l a x w r)))) \<longrightarrow> h' b = h b"
    using delete_tail [where f = f and st = st and res = res and ob = ob, OF at True b c_def]
    by (elim exE conjE) (rule that)
  note P = fixup_props [OF b]
  have nd: "nodes (fixup (map dec D) c) = before D @ nodes l @ nodes r @ after D" using P by (simp add: nodes_fill c(1))
  have "distinct (addrs (fill (map dec D) (Node l a x w r)))" using at by (simp add: avl_at_def)
  then have ad: "set (addrs (fixup (map dec D) c)) = set (addrs t) - {a}" "a \<in> set (addrs t)"
    by (auto simp: t_def addrs_def nodes_fill nd)
  have rk: "ranked (fixup (map dec D) c)" if "ranked t" "length (nodes t) < 2 ^ 30"
  proof -
    have "ranked c" "cranked (length (nodes c)) (map dec D)"
      using that c by (auto simp: t_def ranked_fill intro!: cranked_dec simp del: ranked.simps)
    moreover have "length (nodes (fill (map dec D) c)) < 2 ^ 30" using that c(1) by (simp add: t_def nodes_fill)
    ultimately show ?thesis using P by blast
  qed
  have "set (addrs (fill (map dec D) (Node l a x w r))) = set (addrs t)" by (simp add: t_def set_addrs_fill)
  then have fr: "\<forall>b. b \<notin> insert rt (set (addrs t)) \<longrightarrow> h' b = h b" using h'(4) by simp
  have kt: "keys (fixup (map dec D) c) = map snd (before D) @ keys l @ keys r @ map snd (after D)"
    by (simp add: keys_def nd)
  show ?thesis
    by (rule exI [of _ h'], rule exI [of _ "fixup (map dec D) c"])
       (simp only: swap_none [OF at True] Option.bind.simps prod.case h' P kt, use fr ad rk h'(3) in blast)
next
  case False
  then have two: "l \<noteq> Leaf" "r \<noteq> Leaf" by auto
  let ?w = "AVL_SET_RANK w (AVL_GET_RANK w - 1)"
  obtain G c y yk yw where sp: "split_max [] l = (G, Node c y yk yw Leaf)"
    and G: "fill G (Node c y yk yw Leaf) = l" "map dec G = G" "after G = []"
    using split_max_props [OF two(1), of "[]"] by auto
  define K where "K = G @ LFrame a yk ?w r # map dec D"
  have tK: "t = fill (G @ LFrame a x w r # D) (Node c y yk yw Leaf)" by (simp add: t_def fill_append G(1))
  have K: "cbal n K = cbal n (G @ LFrame a x w r # D)" "cranked (Suc m) (G @ LFrame a x w r # D) \<Longrightarrow> cranked m K" for n m
    using cbal_dec [of n "G @ LFrame a x w r # D"] cranked_dec [of m "G @ LFrame a x w r # D"]
      cbal_key [of n G a x ?w r "map dec D" yk] cranked_key [of m G a x ?w r "map dec D" yk]
    by (simp_all add: K_def G(2))
  obtain h1 where h1: "avl_delete_swap a h = Some (y, h1)" "avl_at h1 rt (fill K (Node c y x yw Leaf))"
    "\<forall>b. b \<notin> insert rt (set (addrs (fill (map dec D) (Node l a x w r)))) \<longrightarrow> h1 b = h b"
    using swap_rep [OF at two sp] unfolding K_def by blast
  have b: "balanced c" "cbal (Suc (ht c)) K"
    using bal [folded t_def] unfolding tK balanced_fill K(1) by auto
  have cd: "c = (if c \<noteq> Leaf then c else Leaf)" by simp
  obtain h' where h': "(do {
      (s, h) \<leftarrow> avl_delete_unlink y h1;
      p \<leftarrow> rd parent h y;
      xk \<leftarrow> rd key h y;
      let st = free_key f xk st;
      h \<leftarrow> free_node y h;
      h \<leftarrow> avl_delete_climb s p h;
      Some (res, ob, st, h) }) = Some (res, ob, free_key f (Some x) st, h')"
    "avl_at h' rt (fixup K c)" "h' y = None"
    "\<forall>b. b \<notin> insert rt (set (addrs (fill K (Node c y x yw Leaf)))) \<longrightarrow> h' b = h1 b"
    using delete_tail [where f = f and st = st and res = res and ob = ob, OF h1(2) disjI2 [OF refl] b cd]
    by (elim exE conjE) (rule that)
  note P = fixup_props [OF b]
  have nl: "nodes l = before G @ nodes c @ [(y, yk)]" using G(1,3) by (auto simp: nodes_fill)
  have nd: "nodes (fixup K c) = before D @ before G @ nodes c @ (a, yk) # nodes r @ after D"
    using P by (simp add: nodes_fill K_def before_append after_append G(3))
  have nt: "nodes t = before D @ before G @ nodes c @ (y, yk) # (a, x) # nodes r @ after D"
    by (simp add: t_def nodes_fill nl)
  have kt: "keys (fixup K c) = map snd (before D) @ keys l @ keys r @ map snd (after D)"
    by (simp add: keys_def nd nl)
  have "distinct (addrs t)" using at by (simp add: avl_at_def t_def addrs_def nodes_fill)
  then have ad: "set (addrs (fixup K c)) = set (addrs t) - {y}" "y \<in> set (addrs t)"
    by (auto simp: addrs_def nd nt)
  have "ranked (fixup K c)" if "ranked t" "length (nodes t) < 2 ^ 30"
  proof -
    have "ranked c" "cranked (length (nodes c)) K"
      using that(1) unfolding tK ranked_fill by (auto intro!: K(2))
    moreover have "length (nodes (fill K c)) < 2 ^ 30"
      using that(2) by (simp add: nt nodes_fill K_def before_append after_append G(3))
    ultimately show ?thesis using P by blast
  qed
  moreover have "set (addrs (fill (map dec D) (Node l a x w r))) = set (addrs t)"
    "set (addrs (fill K (Node c y x yw Leaf))) = set (addrs t)"
    by (auto simp: t_def set_addrs_fill K_def addrs_def nodes_fill before_append after_append G(3) nl)
  ultimately show ?thesis
    using h1(1,3) h' P ad kt by (intro exI [of _ h'] exI [of _ "fixup K c"]) auto
qed

section \<open>Deletion as a whole\<close>

text \<open>What the search says about the keys.\<close>

lemma locate_nodes:
  "case locate cmp k C t of Inl u \<Rightarrow> nodes u = nodes (fill C t) | Inr (D, S) \<Rightarrow> fill D S = fill C t \<and>
     (\<exists>l a x w r. S = Node l a x w r \<and> cmp k x = 0)"
proof (induction cmp k C t rule: locate.induct)
  case (2 cmp k C l a x w r)
  then show ?case by (auto simp: nodes_fill split: sum.splits prod.splits)
qed simp

context key_order
begin

lemma locate_absent:
  assumes "key_sorted cmp (keys t)" "locate cmp k C t = Inl u" "x \<in> set (keys t)"
  shows "cmp k x \<noteq> 0"
  using assms
proof (induction t arbitrary: C)
  case (Node l a y w r)
  have s: "key_sorted cmp (keys l @ y # keys r)" "key_sorted cmp (keys l)" "key_sorted cmp (keys r)"
    using Node.prems by (auto simp: sorted_wrt_append)
  note up = sorted_sides(1) [OF s(1), of k] and down = sorted_sides(2) [OF s(1), of k]
  have "cmp k y \<noteq> 0" using Node.prems(2) by auto
  then consider "cmp k y < 0" | "0 < cmp k y" by linarith
  then show ?case
  proof cases
    case 1
    with Node.prems Node.IH(1) [OF s(2)] up show ?thesis by (fastforce split: if_splits)
  next
    case 2
    with Node.prems Node.IH(2) [OF s(3)] down show ?thesis by (fastforce split: if_splits)
  qed
qed simp

end

lemma avl_delete_at:
  fixes ob :: "('k, 'a) avl_tree"
  assumes at: "avl_at h (root ob) t" and bal: "balanced t"
  shows "case locate (tcmp ob) k [] t of
      Inl u \<Rightarrow> \<exists>h'. avl_delete ob (Some k) f s h = Some (-1, ob, s, h') \<and> avl_at h' (root ob) u
    | Inr (D, Node l a x w r) \<Rightarrow> \<exists>h' u.
        avl_delete ob (Some k) f s h = Some (0, ob\<lparr>len := len ob - 1\<rparr>, free_key f (Some x) s, h') \<and>
        avl_at h' (root ob) u \<and> balanced u \<and> keys u = map snd (before D) @ keys l @ keys r @ map snd (after D) \<and>
        (ranked t \<longrightarrow> length (nodes t) < 2 ^ 30 \<longrightarrow> ranked u)
    | Inr (D, Leaf) \<Rightarrow> False"
proof (cases "t = Leaf")
  case True
  with rd_root [OF at] at show ?thesis by (auto simp: avl_delete_def)
next
  case False
  let ?cf = "compare_fun ob (compare_arg ob)"
  have at0: "avl_at h (root ob) (fill (map dec []) t)" using at by simp
  note find = delete_find_rep [OF at0 False, where cmpo = ?cf and k = k] and rt = rd_root [OF at]
  show ?thesis
  proof (cases "locate (tcmp ob) k [] t")
    case (Inl u)
    with find rt False show ?thesis by (auto simp: avl_delete_def)
  next
    case (Inr DS)
    obtain D S where DS: "DS = (D, S)" by (cases DS)
    from locate_nodes [where cmp = "tcmp ob" and k = k and C = "[]" and t = t] Inr DS obtain l a x w r where S: "S = Node l a x w r" "fill D S = t"
      by auto
    from find Inr DS obtain h1 where h1: "avl_delete_find ?cf (root ob) (Some k) (root_of t) h = Some (h1, Some a)"
      "avl_at h1 (root ob) (fill (map dec D) (Node l a x w r))" using S by auto
    note fd = delete_found [where f = f and st = s and res = "0::int" and ob = "ob\<lparr>len := len ob - 1\<rparr>",
        OF h1(2) bal [folded S(2), unfolded S(1)]]
    have "avl_delete ob (Some k) f s h = (do {
      (b, h) \<leftarrow> avl_delete_swap a h1;
      (sd, h) \<leftarrow> avl_delete_unlink b h;
      p \<leftarrow> rd parent h b;
      xk \<leftarrow> rd key h b;
      let st = free_key f xk s;
      h \<leftarrow> free_node b h;
      h \<leftarrow> avl_delete_climb sd p h;
      Some (0, ob\<lparr>len := len ob - 1\<rparr>, st, h) })"
      using rt False h1(1) by (simp add: avl_delete_def)
    with fd Inr DS S show ?thesis by fastforce
  qed
qed

lemma locate_above:
  assumes "t \<noteq> Leaf" "ranked (fill C t)" "length (nodes t) + 1 < 2 ^ 30" "\<forall>x\<in>set (keys t). 0 < cmp k x"
  shows "\<exists>u. locate cmp k C t = Inl u \<and> \<not> ranked u"
  using assms
proof (induction t arbitrary: C)
  case (Node l a x w r)
  show ?case
  proof (cases "r = Leaf")
    case True
    with Node.prems show ?thesis by (auto simp: ranked_fill word_rules)
  next
    case False
    with Node.prems Node.IH(2) [of "RFrame l a x w # C"] show ?thesis by auto
  qed
qed simp

section \<open>Summary\<close>

lemma delete_repr:
  fixes ob :: "('k, 'a) avl_tree"
  assumes "key_order (tcmp ob)" and "avl_repr h ob xs" and "\<exists>x\<in>set xs. tcmp ob k x = 0"
  shows "\<exists>us x vs h' ob'. xs = us @ x # vs \<and> tcmp ob k x = 0 \<and>
    avl_delete ob (Some k) f s h = Some (0, ob', free_key f (Some x) s, h') \<and> avl_repr h' ob' (us @ vs) \<and>
    tcmp ob' = tcmp ob \<and> root ob' = root ob"
proof -
  obtain t where t: "avl_at h (root ob) t" "balanced t" "ranked t" "key_sorted (tcmp ob) (keys t)" "keys t = xs"
    "unat (len ob) = length xs" "length xs < 2 ^ 30"
    using assms(2) by (auto simp: avl_repr_def avl_wf_def)
  note del = avl_delete_at [OF t(1,2), of k f s]
  show ?thesis
  proof (cases "locate (tcmp ob) k [] t")
    case (Inl u)
    with key_order.locate_absent [OF assms(1) t(4) Inl] assms(3) t(5) show ?thesis by auto
  next
    case (Inr DS)
    then obtain D l a x w r where DS: "DS = (D, Node l a x w r)" "tcmp ob k x = 0" "fill D (Node l a x w r) = t"
      using locate_nodes [where cmp = "tcmp ob" and k = k and C = "[]" and t = t] by (cases DS) auto
    with del Inr obtain h' u where u: "avl_delete ob (Some k) f s h = Some (0, ob\<lparr>len := len ob - 1\<rparr>, free_key f (Some x) s, h')"
      "avl_at h' (root ob) u" "balanced u" "keys u = (map snd (before D) @ keys l) @ (keys r @ map snd (after D))"
      "ranked t \<longrightarrow> length (nodes t) < 2 ^ 30 \<longrightarrow> ranked u" by auto
    have xs: "xs = (map snd (before D) @ keys l) @ x # (keys r @ map snd (after D))"
      using t(5) DS(3) by (auto simp: keys_def nodes_fill)
    have "len ob \<noteq> 0" using xs t(6) by auto
    then have "unat (len ob - 1) = unat (len ob) - 1"
      by (simp add: unat_sub_if' word_le_nat_alt unat_eq_0 Suc_le_eq)
    then have "avl_wf (ob\<lparr>len := len ob - 1\<rparr>) u"
      using u t xs by (auto simp: avl_wf_def sorted_wrt_append length_keys [symmetric])
    with u xs DS(2) show ?thesis
      unfolding avl_repr_def
      by (intro exI [of _ "map snd (before D) @ keys l"] exI [of _ x] exI [of _ "keys r @ map snd (after D)"] exI [of _ h']
          exI [of _ "ob\<lparr>len := len ob - 1\<rparr>"]) auto
  qed
qed

section \<open>Properties\<close>

text \<open>C2: deletion of a key that is in the tree. One key \<open>x\<close> that compares equal is taken out of the key
  list, \<open>free_key_fun\<close> gets exactly that key, the length goes down by one and the tree is well-formed
  again: heap structure, balance factors, ranks and order; the call returns 0.\<close>

theorem avl_delete_refines:
  fixes ob :: "('k, 'a) avl_tree"
  assumes "key_order (tcmp ob)" and "avl_repr h ob xs" and "\<exists>x\<in>set xs. tcmp ob k x = 0"
  shows "\<exists>us x vs h' ob'. xs = us @ x # vs \<and> tcmp ob k x = 0 \<and>
    avl_delete ob (Some k) f s h = Some (0, ob', free_key f (Some x) s, h') \<and> avl_repr h' ob' (us @ vs) \<and>
    tcmp ob' = tcmp ob \<and> root ob' = root ob"
  by (rule delete_repr [OF assms])

theorem avl_delete_refines_witness:
  "key_order (tcmp ex_ob) \<and> avl_repr ex_heap ex_ob [10, 20, 30] \<and>
   (\<exists>h' ob'. avl_delete ex_ob (Some 20) (Some (\<lambda>k ks. ks @ [k])) [] ex_heap = Some (0, ob', [Some 20], h') \<and>
      avl_repr h' ob' [10, 30])"
proof -
  have "\<exists>x\<in>set [10, 20, 30]. tcmp ex_ob 20 x = 0" by (simp add: ex_ob_def ex_cmp_def)
  from avl_delete_refines [OF ex_order ex_repr this, of "Some (\<lambda>k ks. ks @ [k])" "[]"]
  obtain us x vs h' ob' where *: "[10, 20, 30] = us @ x # vs" "tcmp ex_ob 20 x = 0"
    "avl_delete ex_ob (Some 20) (Some (\<lambda>k ks. ks @ [k])) [] ex_heap =
       Some (0, ob', free_key (Some (\<lambda>k ks. ks @ [k])) (Some x) [], h')" "avl_repr h' ob' (us @ vs)" by blast
  have "x = 20" using *(2) by (simp add: ex_ob_def ex_cmp_def)
  with *(1) have "us @ vs = [10, 30]" by (auto simp: Cons_eq_append_conv)
  with * \<open>x = 20\<close> show ?thesis using ex_order ex_repr by (auto simp: free_key_def)
qed

text \<open>Deletion of a key that is not in the tree returns -1, calls no \<open>free_key_fun\<close> and leaves the keys,
  their order and the structure of the heap as they were (the ranks may differ, see below).\<close>

theorem avl_delete_absent:
  fixes ob :: "('k, 'a) avl_tree"
  assumes "key_order (tcmp ob)" and "avl_at h (root ob) t" and "avl_wf ob t" and "\<forall>x\<in>set (keys t). tcmp ob k x \<noteq> 0"
  shows "\<exists>h' u. avl_delete ob (Some k) f s h = Some (-1, ob, s, h') \<and> avl_at h' (root ob) u \<and> nodes u = nodes t"
proof -
  have "balanced t" using assms(3) by (simp add: avl_wf_def)
  note del = avl_delete_at [OF assms(2) this, of k f s] and loc = locate_nodes [where cmp = "tcmp ob" and k = k and C = "[]" and t = t]
  show ?thesis
  proof (cases "locate (tcmp ob) k [] t")
    case (Inl u)
    with del loc show ?thesis by auto
  next
    case (Inr DS)
    with loc obtain D l a x w r where "DS = (D, Node l a x w r)" "tcmp ob k x = 0" "fill D (Node l a x w r) = t"
      by (cases DS) auto
    with assms(4) show ?thesis by (auto simp: keys_def nodes_fill)
  qed
qed

theorem avl_delete_absent_witness:
  "key_order (tcmp ex_ob) \<and> avl_at ex_heap (root ex_ob) ex_tree \<and> avl_wf ex_ob ex_tree \<and>
   (\<exists>h' u. avl_delete ex_ob (Some 15) None () ex_heap = Some (-1, ex_ob, (), h') \<and> avl_at h' (root ex_ob) u \<and>
      nodes u = [(2, 10), (3, 20), (4, 30)])"
proof -
  have "\<forall>x\<in>set (keys ex_tree). tcmp ex_ob 15 x \<noteq> 0" by (simp add: ex_tree_def ex_ob_def ex_cmp_def)
  from avl_delete_absent [OF ex_order ex_at ex_wf this, of None "()"] show ?thesis
    using ex_order ex_at ex_wf by (simp add: ex_tree_def)
qed

text \<open>C37: a defect of \<open>avl_delete\<close>. When the key is above all keys of a non-empty tree, the search ends at a
  missing right child, where the code counts up the rank of the last node although it never counted it down:
  after the failed deletion \<open>avl_verify\<close> ends the process.\<close>

theorem avl_delete_corrupts_rank:
  fixes ob :: "('k, 'a) avl_tree"
  assumes "avl_repr h ob xs" and "xs \<noteq> []" and "length xs + 1 < 2 ^ 30" and "\<forall>x\<in>set xs. 0 < tcmp ob k x"
  shows "\<exists>h'. avl_delete ob (Some k) f s h = Some (-1, ob, s, h') \<and> avl_verify ob h' = Some (Inl 1)"
proof -
  obtain t where t: "avl_at h (root ob) t" "balanced t" "ranked t" "keys t = xs" "unat (len ob) = length xs"
    using assms(1) by (auto simp: avl_repr_def avl_wf_def)
  have "t \<noteq> Leaf" using assms(2) t(4) by auto
  moreover have sz: "length (nodes t) + 1 < 2 ^ 30" using assms(3) t(4) by (simp flip: length_keys)
  ultimately obtain u where u: "locate (tcmp ob) k [] t = Inl u" "\<not> ranked u"
    using locate_above [of t "[]" "tcmp ob" k] t(3,4) assms(4) by auto
  then have "nodes u = nodes t" using locate_nodes [where cmp = "tcmp ob" and k = k and C = "[]" and t = t] by simp
  then have n: "length (nodes u) < 2 ^ 30" "unat (len ob) = length (nodes u)"
    using sz t(4,5) by (simp_all flip: length_keys)
  from avl_delete_at [OF t(1,2), of k f s] u(1) obtain h' where
    "avl_delete ob (Some k) f s h = Some (-1, ob, s, h')" "avl_at h' (root ob) u" by auto
  with avl_verify_at [OF _ n] u(2) show ?thesis by auto
qed

theorem avl_delete_corrupts_rank_witness:
  "avl_repr ex_heap ex_ob [10, 20, 30] \<and>
   (\<exists>h'. avl_delete ex_ob (Some 40) None () ex_heap = Some (-1, ex_ob, (), h') \<and> avl_verify ex_ob h' = Some (Inl 1))"
proof -
  have "\<forall>x\<in>set [10, 20, 30]. 0 < tcmp ex_ob 40 x" by (simp add: ex_ob_def ex_cmp_def)
  then show ?thesis using avl_delete_corrupts_rank [OF ex_repr, of 40 None "()"] ex_repr by simp
qed

end
