(* ===== verification/Avl.thy ===== *)
theory Avl
  imports Avl_Delete
begin

text \<open>
  The AVL library as its clients see it. The locale \<open>sorted_store\<close> is the contract of a container of keys
  that are pairwise different under the compare function: lookup, insertion and deletion act like the list
  functions \<open>store_get\<close>, \<open>ins_key\<close> and \<open>store_del\<close>. The AVL tree in the heap implements it.
\<close>

section \<open>The abstract container\<close>

definition store_get :: "('k \<Rightarrow> 'k \<Rightarrow> int) \<Rightarrow> 'k \<Rightarrow> 'k list \<Rightarrow> 'k option" where
  "store_get cmp k xs = List.find (\<lambda>x. cmp k x = 0) xs"

definition store_del :: "('k \<Rightarrow> 'k \<Rightarrow> int) \<Rightarrow> 'k \<Rightarrow> 'k list \<Rightarrow> 'k list" where
  "store_del cmp k xs = filter (\<lambda>x. cmp k x \<noteq> 0) xs"

text \<open>Strictly ascending: no two keys compare equal.\<close>

abbreviation uniq :: "('k \<Rightarrow> 'k \<Rightarrow> int) \<Rightarrow> 'k list \<Rightarrow> bool" where
  "uniq cmp \<equiv> sorted_wrt (\<lambda>x y. cmp x y < 0)"

lemma uniq_sorted: "uniq cmp xs \<Longrightarrow> key_sorted cmp xs"
  by (erule sorted_wrt_mono_rel [rotated]) simp

context key_order
begin

lemma cmp_cong: "cmp x y = 0 \<Longrightarrow> cmp z x < 0 \<longleftrightarrow> cmp z y < 0" "cmp x y = 0 \<Longrightarrow> cmp x z < 0 \<longleftrightarrow> cmp y z < 0"
  "cmp x y = 0 \<Longrightarrow> cmp z x = 0 \<longleftrightarrow> cmp z y = 0"
proof -
  assume e: "cmp x y = 0"
  then have e': "cmp y x = 0" using cmp_sym [of x y] cmp_sym [of y x] by linarith
  show 1: "cmp z x < 0 \<longleftrightarrow> cmp z y < 0"
    using cmp_less_trans2 [of z x y] cmp_less_trans2 [of z y x] e e' by auto
  show "cmp x z < 0 \<longleftrightarrow> cmp y z < 0"
    using cmp_less_trans [of x y z] cmp_less_trans [of y x z] e e' by auto
  then show "cmp z x = 0 \<longleftrightarrow> cmp z y = 0"
    using 1 cmp_sym [of x z] cmp_sym [of y z] by linarith
qed

lemma cmp_eq_sym: "cmp x y = 0 \<longleftrightarrow> cmp y x = 0"
  using cmp_sym [of x y] cmp_sym [of y x] by linarith

lemma uniq_eq: "uniq cmp xs \<Longrightarrow> x \<in> set xs \<Longrightarrow> y \<in> set xs \<Longrightarrow> cmp x y = 0 \<Longrightarrow> x = y"
proof (induction xs)
  case (Cons z zs)
  then show ?case using cmp_eq_sym [of x y] by fastforce
qed simp

lemma uniq_ins_key:
  assumes "uniq cmp xs" "\<forall>x\<in>set xs. cmp k x \<noteq> 0"
  shows "uniq cmp (ins_key cmp k xs)"
  using assms
proof (induction xs)
  case (Cons x xs)
  show ?case
  proof (cases "cmp k x < 1")
    case True
    with Cons.prems have lt: "cmp k x < 0" by (metis int_one_le_iff_zero_less linorder_neqE list.set_intros(1) not_less)
    moreover have "cmp k z < 0" if "z \<in> set xs" for z
      using that Cons.prems cmp_less_trans2 [OF lt, of z] by auto
    ultimately show ?thesis using True Cons.prems by simp
  next
    case False
    then have "cmp x k < 0" using cmp_sym [of x k] by linarith
    with False Cons show ?thesis by auto
  qed
qed simp

lemma store_get_ins: "\<forall>x\<in>set xs. cmp k x \<noteq> 0 \<Longrightarrow> store_get cmp k (ins_key cmp k xs) = Some k"
  by (induction xs) (auto simp: store_get_def cmp_refl)

lemma store_get_ins_other:
  "cmp j k \<noteq> 0 \<Longrightarrow> store_get cmp j (ins_key cmp k xs) = store_get cmp j xs"
  by (induction xs) (auto simp: store_get_def)

lemma store_get_del: "store_get cmp k (store_del cmp k xs) = None"
  by (auto simp: store_get_def store_del_def find_None_iff)

lemma store_get_del_other:
  assumes "cmp j k \<noteq> 0"
  shows "store_get cmp j (store_del cmp k xs) = store_get cmp j xs"
proof -
  have "cmp k x \<noteq> 0" if "cmp j x = 0" for x using that assms cmp_cong(3) [of x k j] cmp_eq_sym [of x k] cmp_eq_sym by metis
  then show ?thesis by (induction xs) (auto simp: store_get_def store_del_def)
qed

lemma uniq_del: "uniq cmp xs \<Longrightarrow> uniq cmp (store_del cmp k xs)"
  by (auto simp: store_del_def sorted_wrt_filter)

lemma store_del_absent: "\<forall>x\<in>set (store_del cmp k xs). cmp k x \<noteq> 0"
  by (simp add: store_del_def)

end

section \<open>The contract\<close>

text \<open>\<open>holds st xs\<close>: the container \<open>st\<close> holds exactly the keys \<open>xs\<close>; \<open>room st m\<close>: the memory \<open>m\<close> can be used for a
  new entry. The operations return as the C functions do (\<open>None\<close> would be undefined behaviour).\<close>

locale sorted_store = key_order cmp
  for cmp :: "'k \<Rightarrow> 'k \<Rightarrow> int" +
  fixes holds :: "'st \<Rightarrow> 'k list \<Rightarrow> bool"
    and room :: "'st \<Rightarrow> 'm \<Rightarrow> bool"
    and get_op :: "'k \<Rightarrow> 'st \<Rightarrow> (int \<times> 'k option option) option"
    and ins_op :: "'m \<Rightarrow> 'k \<Rightarrow> 'st \<Rightarrow> (int \<times> 'st) option"
    and del_op :: "'k \<Rightarrow> 'st \<Rightarrow> (int \<times> 'st) option"
  assumes get_law: "holds st xs \<Longrightarrow> uniq cmp xs \<Longrightarrow>
      get_op k st = Some (case store_get cmp k xs of None \<Rightarrow> (-1, None) | Some x \<Rightarrow> (0, Some (Some x)))"
    and ins_law: "holds st xs \<Longrightarrow> room st m \<Longrightarrow> \<exists>st'. ins_op m k st = Some (0, st') \<and> holds st' (ins_key cmp k xs)"
    and del_law: "holds st xs \<Longrightarrow> uniq cmp xs \<Longrightarrow> store_get cmp k xs \<noteq> None \<Longrightarrow>
      \<exists>st'. del_op k st = Some (0, st') \<and> holds st' (store_del cmp k xs)"
begin

text \<open>Replacing an entry, as clients do: delete the entry with that key if there is one, then insert. The memory for the new
  entry has to be free when it is inserted.\<close>

definition put_op :: "'m \<Rightarrow> 'k \<Rightarrow> 'st \<Rightarrow> (int \<times> 'st) option" where
  "put_op m k st = do {
     (r, _) \<leftarrow> get_op k st;
     (_, st) \<leftarrow> (if r = 0 then del_op k st else Some (0, st));
     ins_op m k st }"

lemma put_law:
  assumes "holds st xs" "uniq cmp xs" "store_get cmp k xs = None \<Longrightarrow> room st m" "\<And>st'. del_op k st = Some (0, st') \<Longrightarrow> room st' m"
  shows "\<exists>st'. put_op m k st = Some (0, st') \<and> holds st' (ins_key cmp k (store_del cmp k xs))"
proof (cases "store_get cmp k xs")
  case None
  then have "store_del cmp k xs = xs"
    by (auto simp: store_get_def store_del_def find_None_iff filter_id_conv)
  with assms None ins_law [of st xs m k] get_law [OF assms(1,2), of k] show ?thesis by (auto simp: put_op_def)
next
  case (Some x)
  with del_law [OF assms(1,2), of k] obtain st1 where st1: "del_op k st = Some (0, st1)" "holds st1 (store_del cmp k xs)"
    by auto
  with assms(4) ins_law [of st1 "store_del cmp k xs" m k] get_law [OF assms(1,2), of k] Some show ?thesis
    by (auto simp: put_op_def)
qed

lemma put_get:
  assumes "holds st xs" "uniq cmp xs" "store_get cmp k xs = None \<Longrightarrow> room st m" "\<And>st'. del_op k st = Some (0, st') \<Longrightarrow> room st' m"
  shows "\<exists>st'. put_op m k st = Some (0, st') \<and> get_op k st' = Some (0, Some (Some k)) \<and>
    (\<forall>j. cmp j k \<noteq> 0 \<longrightarrow> get_op j st' = get_op j st)"
proof -
  obtain st' where st': "put_op m k st = Some (0, st')" "holds st' (ins_key cmp k (store_del cmp k xs))"
    using put_law [OF assms] by blast
  have u: "uniq cmp (ins_key cmp k (store_del cmp k xs))"
    by (rule uniq_ins_key [OF uniq_del [OF assms(2)] store_del_absent])
  have "get_op k st' = Some (0, Some (Some k))"
    using get_law [OF st'(2) u, of k] store_get_ins [OF store_del_absent, of k xs] by simp
  moreover have "get_op j st' = get_op j st" if "cmp j k \<noteq> 0" for j
    using get_law [OF st'(2) u, of j] get_law [OF assms(1,2), of j] that
    by (simp add: store_get_ins_other store_get_del_other)
  ultimately show ?thesis using st'(1) by blast
qed

end

section \<open>The AVL tree as a container\<close>

text \<open>The state is the tree object with the heap its nodes are in. \<open>room\<close>: the result of \<open>malloc\<close> is not NULL, the
  address is free, and the number of nodes stays below \<open>2 ^ 30\<close>, which the rank field of a node can hold.\<close>

type_synonym ('k, 'a) avl_state = "('k, 'a) avl_tree \<times> 'k heap"

definition avl_holds :: "('k \<Rightarrow> 'k \<Rightarrow> int) \<Rightarrow> ('k, 'a) avl_state \<Rightarrow> 'k list \<Rightarrow> bool" where
  "avl_holds cmp st xs \<longleftrightarrow> avl_repr (snd st) (fst st) xs \<and> tcmp (fst st) = cmp"

definition avl_room :: "('k, 'a) avl_state \<Rightarrow> addr \<Rightarrow> bool" where
  "avl_room st m \<longleftrightarrow> m \<noteq> NULL \<and> snd st m = None \<and> unat (len (fst st)) + 1 < 2 ^ 30"

definition avl_get_op :: "'k \<Rightarrow> ('k, 'a) avl_state \<Rightarrow> (int \<times> 'k option option) option" where
  "avl_get_op k st = avl_get_by_key (fst st) (Some k) (snd st)"

definition avl_ins_op :: "addr \<Rightarrow> 'k \<Rightarrow> ('k, 'a) avl_state \<Rightarrow> (int \<times> ('k, 'a) avl_state) option" where
  "avl_ins_op m k st = avl_insert m (fst st) (Some k) (snd st)"

definition avl_del_op :: "'k \<Rightarrow> ('k, 'a) avl_state \<Rightarrow> (int \<times> ('k, 'a) avl_state) option" where
  "avl_del_op k st = do {
     (r, ob, _, h) \<leftarrow> avl_delete (fst st) (Some k) None () (snd st);
     Some (r, ob, h) }"

lemma store_get_unique:
  assumes "key_order cmp" "uniq cmp xs" "x \<in> set xs" "cmp k x = 0"
  shows "store_get cmp k xs = Some x"
proof -
  obtain y where y: "store_get cmp k xs = Some y" "y \<in> set xs" "cmp k y = 0"
    using assms(3,4) unfolding store_get_def
    by (cases "List.find (\<lambda>x. cmp k x = 0) xs") (auto simp: find_None_iff find_Some_iff)
  have "cmp y x = 0"
    using key_order.cmp_cong(3) [OF assms(1), of k x y] key_order.cmp_eq_sym [OF assms(1)] y(3) assms(4) by metis
  with y key_order.uniq_eq [OF assms(1,2) y(2) assms(3)] show ?thesis by simp
qed

lemma avl_get_law:
  assumes "key_order cmp" "avl_holds cmp st xs" "uniq cmp xs"
  shows "avl_get_op k st = Some (case store_get cmp k xs of None \<Rightarrow> (-1, None) | Some x \<Rightarrow> (0, Some (Some x)))"
proof -
  have st: "avl_repr (snd st) (fst st) xs" "tcmp (fst st) = cmp" using assms(2) by (auto simp: avl_holds_def)
  have ko: "key_order (tcmp (fst st))" using assms(1) st(2) by simp
  have c: "tcmp (fst st) x y = cmp x y" for x y using fun_cong [OF fun_cong [OF st(2)]] .
  have get: "if \<exists>x\<in>set xs. cmp k x = 0
    then \<exists>x\<in>set xs. cmp k x = 0 \<and> avl_get_by_key (fst st) (Some k) (snd st) = Some (0, Some (Some x))
    else avl_get_by_key (fst st) (Some k) (snd st) = Some (-1, None)"
    using get_by_key_repr [OF ko st(1), of k] by (simp only: c)
  show ?thesis
  proof (cases "\<exists>x\<in>set xs. cmp k x = 0")
    case True
    with get obtain x where "x \<in> set xs" "cmp k x = 0" "avl_get_by_key (fst st) (Some k) (snd st) = Some (0, Some (Some x))"
      by auto
    with store_get_unique [OF assms(1,3)] show ?thesis by (simp add: avl_get_op_def)
  next
    case False
    then have "store_get cmp k xs = None" by (auto simp: store_get_def find_None_iff)
    with get False show ?thesis by (simp add: avl_get_op_def)
  qed
qed

lemma avl_ins_law:
  assumes "key_order cmp" "avl_holds cmp st xs" "avl_room st m"
  shows "\<exists>st'. avl_ins_op m k st = Some (0, st') \<and> avl_holds cmp st' (ins_key cmp k xs)"
proof -
  obtain t where t: "avl_at (snd st) (root (fst st)) t" "avl_wf (fst st) t" "keys t = xs" "tcmp (fst st) = cmp"
    using assms(2) by (auto simp: avl_holds_def avl_repr_def)
  have p: "m \<noteq> NULL" "m \<notin> dom (snd st)" "length (keys t) + 1 < 2 ^ 30"
    using assms(3) t(2) by (auto simp: avl_room_def avl_wf_def)
  obtain h' u ht' where u: "avl_insert m (fst st) (Some k) (snd st) = Some (0, fst st\<lparr>len := len (fst st) + 1, height := ht'\<rparr>, h')"
    "avl_at h' (root (fst st)) u" "avl_wf (fst st\<lparr>len := len (fst st) + 1, height := ht'\<rparr>) u" "keys u = ins_key cmp k xs"
    using avl_insert_at_repr [OF _ t(1,2) p, of k] assms(1) t(3,4) by auto
  then have "avl_holds cmp (fst st\<lparr>len := len (fst st) + 1, height := ht'\<rparr>, h') (ins_key cmp k xs)"
    using t(4) by (auto simp: avl_holds_def avl_repr_def)
  with u(1) show ?thesis by (auto simp: avl_ins_op_def)
qed

lemma avl_del_law:
  assumes "key_order cmp" "avl_holds cmp st xs" "uniq cmp xs" "store_get cmp k xs \<noteq> None"
  shows "\<exists>st'. avl_del_op k st = Some (0, st') \<and> avl_holds cmp st' (store_del cmp k xs)"
proof -
  have st: "avl_repr (snd st) (fst st) xs" "tcmp (fst st) = cmp" using assms(2) by (auto simp: avl_holds_def)
  have ko: "key_order (tcmp (fst st))" using assms(1) st(2) by simp
  have c: "tcmp (fst st) x y = cmp x y" for x y using fun_cong [OF fun_cong [OF st(2)]] .
  have "\<exists>x\<in>set xs. cmp k x = 0" using assms(4) by (auto simp: store_get_def find_None_iff)
  then obtain us x vs h' ob' where d: "xs = us @ x # vs" "cmp k x = 0" "avl_repr h' ob' (us @ vs)"
    "avl_delete (fst st) (Some k) None () (snd st) = Some (0, ob', free_key None (Some x) (), h')" "tcmp ob' = cmp"
    using delete_repr [OF ko st(1), of k None "()"] st(2) by (simp only: c) blast
  have "cmp k y \<noteq> 0" if "y \<in> set us \<union> set vs" for y
  proof
    assume "cmp k y = 0"
    then have "cmp x y = 0" "cmp y x = 0"
      using key_order.cmp_cong(3) [OF assms(1)] key_order.cmp_eq_sym [OF assms(1)] d(2) by metis+
    with assms(3) d(1) that show False by (auto simp: sorted_wrt_append)
  qed
  then have "store_del cmp k xs = us @ vs"
    using d(1,2) by (auto simp: store_del_def filter_id_conv)
  with d show ?thesis by (auto simp: avl_del_op_def avl_holds_def)
qed

text \<open>Every lawful compare function gives an AVL container that meets the contract.\<close>

sublocale key_order \<subseteq> avl: sorted_store cmp "avl_holds cmp" avl_room avl_get_op avl_ins_op avl_del_op
  by unfold_locales (rule avl_get_law avl_ins_law avl_del_law; (rule key_order_axioms | assumption))+

end
