(* ===== verification/Cstring.thy ===== *)
theory Cstring
  imports Prelude
begin

text \<open>
  What the sources use of characters and strings of the C library (in the C locale). A block of memory that holds
  characters is a list; the string that starts at its first byte ends before the first zero.
\<close>

section \<open>Characters\<close>

abbreviation (input) CR :: char where "CR \<equiv> CHR 0x0D"
abbreviation (input) LF :: char where "LF \<equiv> CHR 0x0A"
abbreviation (input) DQUOTE :: char where "DQUOTE \<equiv> CHR 0x22"
abbreviation (input) BSLASH :: char where "BSLASH \<equiv> CHR 0x5C"
abbreviation (input) SEMI :: char where "SEMI \<equiv> CHR 0x3B"
abbreviation (input) NUL :: char where "NUL \<equiv> CHR 0x00"

definition is_space :: "char \<Rightarrow> bool" where
  "is_space c = (let n = of_char c :: nat in n = 32 \<or> (9 \<le> n \<and> n \<le> 13))"

text \<open>\<open>tolower\<close>.\<close>

definition to_lower :: "char \<Rightarrow> char" where
  "to_lower c = (let n = of_char c :: nat in if 65 \<le> n \<and> n \<le> 90 then char_of (n + 32) else c)"

text \<open>\<open>strcasecmp (a, b) == 0\<close>.\<close>

definition strcaseeq :: "string \<Rightarrow> string \<Rightarrow> bool" where
  "strcaseeq a b \<longleftrightarrow> map to_lower a = map to_lower b"

section \<open>Strings in memory\<close>

definition cstr :: "string \<Rightarrow> string" where
  "cstr s = takeWhile (\<lambda>c. c \<noteq> NUL) s"

text \<open>The string at offset \<open>off\<close> of a block; \<open>None\<close> when there is no zero before the end of the block, so that the
  functions that look for it read behind the block.\<close>

definition cstr_at :: "string \<Rightarrow> nat \<Rightarrow> string option" where
  "cstr_at data off = (if NUL \<in> set (drop off data) then Some (cstr (drop off data)) else None)"

lemma cstr_no_NUL [simp]: "NUL \<notin> set (cstr s)"
  by (auto simp: cstr_def dest: set_takeWhileD)

lemma cstr_id [simp]: "NUL \<notin> set s \<Longrightarrow> cstr s = s"
  by (auto simp: cstr_def takeWhile_eq_all_conv)

lemma cstr_stop: "NUL \<notin> set s \<Longrightarrow> cstr (s @ NUL # r) = s"
  unfolding cstr_def by (subst takeWhile_append2) auto

text \<open>\<open>strcmp\<close>: the difference of the first two bytes that differ.\<close>

fun bytes_cmp :: "string \<Rightarrow> string \<Rightarrow> int" where
  "bytes_cmp [] [] = 0"
| "bytes_cmp [] (b # bs) = - of_char b"
| "bytes_cmp (a # as) [] = of_char a"
| "bytes_cmp (a # as) (b # bs) = (if a = b then bytes_cmp as bs else of_char a - of_char b)"

definition strcmp :: "string \<Rightarrow> string \<Rightarrow> int" where
  "strcmp a b = bytes_cmp (cstr a) (cstr b)"

text \<open>\<open>strchr\<close>: the offset of the first \<open>c\<close> in a string.\<close>

definition strchr :: "string \<Rightarrow> char \<Rightarrow> nat option" where
  "strchr s c = (if c \<in> set s then Some (length (takeWhile (\<lambda>x. x \<noteq> c) s)) else None)"

text \<open>\<open>atoi\<close> as \<open>(int) strtol (s, NULL, 10)\<close>: the value saturates at the bounds of a \<open>long\<close> and is then cut to 32 bits.\<close>

definition digit_value :: "char \<Rightarrow> nat option" where
  "digit_value c = (let n = of_char c :: nat in if 48 \<le> n \<and> n \<le> 57 then Some (n - 48) else None)"

fun dec_digits :: "nat \<Rightarrow> string \<Rightarrow> nat" where
  "dec_digits acc [] = acc"
| "dec_digits acc (c # cs) = (case digit_value c of None \<Rightarrow> acc | Some d \<Rightarrow> dec_digits (10 * acc + d) cs)"

definition strtol10 :: "string \<Rightarrow> int" where
  "strtol10 s = (let cs = dropWhile is_space s;
       neg = (cs \<noteq> [] \<and> hd cs = CHR ''-'');
       cs = (if cs \<noteq> [] \<and> (hd cs = CHR ''-'' \<or> hd cs = CHR ''+'') then tl cs else cs);
       v = int (dec_digits 0 cs)
     in if neg then max (- v) (- (2 ^ 63)) else min v (2 ^ 63 - 1))"

definition atoi :: "string \<Rightarrow> int" where
  "atoi s = (strtol10 s + 2 ^ 31) mod 2 ^ 32 - 2 ^ 31"

section \<open>The order of strings\<close>

lemma bytes_cmp_neg: "bytes_cmp b a = - bytes_cmp a b"
  by (induction a b rule: bytes_cmp.induct) auto

lemma of_char_pos: "c \<noteq> NUL \<Longrightarrow> 0 < (of_char c :: int)"
proof -
  assume "c \<noteq> NUL"
  moreover have "(of_char NUL :: nat) = 0" by simp
  ultimately have "(of_char c :: nat) \<noteq> 0" using of_char_eq_iff [of c NUL, where ?'a = nat] by metis
  moreover have "(of_char c :: int) = int (of_char c)" by (simp only: of_nat_of_char)
  ultimately show ?thesis by linarith
qed

lemma of_char_nonneg [simp]: "0 \<le> (of_char c :: int)"
  by (metis of_nat_of_char of_nat_0_le_iff)

lemma bytes_cmp_trans:
  assumes "NUL \<notin> set a" "NUL \<notin> set b" "NUL \<notin> set c" "bytes_cmp a b \<le> 0" "bytes_cmp b c \<le> 0"
  shows "bytes_cmp a c \<le> 0"
  using assms
proof (induction a arbitrary: b c)
  case Nil
  then show ?case by (cases c) auto
next
  case (Cons x a)
  then obtain y b' where b: "b = y # b'" using of_char_pos [of x] by (cases b) auto
  with Cons.prems obtain z c' where c: "c = z # c'" using of_char_pos [of y] by (cases c) auto
  have le: "of_char x \<le> (of_char y :: int)" "of_char y \<le> (of_char z :: int)"
    using Cons.prems b c by (auto split: if_splits)
  show ?case
  proof (cases "x = z")
    case True
    then have "x = y" using le by (metis of_char_eq_iff order_antisym)
    with True Cons.IH [of b' c'] Cons.prems b c show ?thesis by auto
  next
    case False
    with le c show ?thesis by auto
  qed
qed

lemma bytes_cmp_eq_0: "NUL \<notin> set a \<Longrightarrow> NUL \<notin> set b \<Longrightarrow> bytes_cmp a b = 0 \<longleftrightarrow> a = b"
  by (induction a b rule: bytes_cmp.induct) (auto dest!: of_char_pos [OF not_sym])

lemma strcmp_eq_0: "strcmp a b = 0 \<longleftrightarrow> cstr a = cstr b"
  by (simp add: strcmp_def bytes_cmp_eq_0)

lemma strcmp_sym: "strcmp a b < 0 \<longleftrightarrow> 0 < strcmp b a"
  unfolding strcmp_def using bytes_cmp_neg [of "cstr a" "cstr b"] by auto

lemma strcmp_trans: "strcmp a b \<le> 0 \<Longrightarrow> strcmp b c \<le> 0 \<Longrightarrow> strcmp a c \<le> 0"
  unfolding strcmp_def by (rule bytes_cmp_trans [of _ "cstr b"]) auto

end
