(* ===== verification/Log_Format.thy ===== *)
theory Log_Format
  imports Cstring
begin

text \<open>
  The formatter of \<^verbatim>\<open>src/log/log.c\<close> (\<open>__vsnprintf\<close> and its helpers), which every log line goes through, and its
  correctness against a description of formats as lists of directives.

  A string is the list of its characters without the terminating zero. \<open>char\<close> is signed, \<open>int\<close> has 32 bits and \<open>long\<close>,
  \<open>long long\<close>, \<open>size_t\<close> have 64. \<open>None\<close> is undefined behaviour: an argument that is missing or has another type than
  the format says, or an overflow of a signed counter.
\<close>

section \<open>Numbers\<close>

definition dec_digit :: "nat \<Rightarrow> char" where
  "dec_digit n = char_of (48 + n)"

fun print_dec :: "nat \<Rightarrow> string" where
  "print_dec n = (if n < 10 then [dec_digit n] else print_dec (n div 10) @ [dec_digit (n mod 10)])"

declare print_dec.simps [simp del]

definition print_int :: "int \<Rightarrow> string" where
  "print_int i = (if i < 0 then CHR ''-'' # print_dec (nat (- i)) else print_dec (nat i))"

text \<open>Conversion of a \<open>size_t\<close> to an \<open>int\<close>.\<close>

definition int_of_size :: "nat \<Rightarrow> int" where
  "int_of_size n = (int n + 2 ^ 31) mod 2 ^ 32 - 2 ^ 31"

section \<open>Escapes\<close>

text \<open>Characters from 128 on are negative, so that they count as not printable.\<close>

definition vsnprintf_is_print :: "char \<Rightarrow> bool \<Rightarrow> bool" where
  "vsnprintf_is_print c allow_space =
     (let n = of_char c :: nat
      in if (n \<le> 34 \<or> 128 \<le> n \<or> c = CHR 0x60 \<or> c = BSLASH) \<and> \<not> (allow_space \<and> c = CHR '' '') then False else True)"

definition vsnprintf_strlen :: "string option \<Rightarrow> bool \<Rightarrow> bool \<Rightarrow> nat" where
  "vsnprintf_strlen str is_alt allow_space =
     (case str of None \<Rightarrow> if is_alt then length ''-'' else length ''(null)''
      | Some s \<Rightarrow> sum_list (map (\<lambda>c. if vsnprintf_is_print c allow_space then 1 else 4) s) + (if is_alt then 2 else 0))"

definition hextable :: string where
  "hextable = ''0123456789abcdef''"

section \<open>Arguments\<close>

text \<open>A pointer comes with the memory behind it, which is the empty list when it is not a string.\<close>

datatype va = Va_int uint | Va_long ulong | Va_ptr addr string

fun va_int :: "va list \<Rightarrow> (uint \<times> va list) option" where
  "va_int (Va_int w # ap) = Some (w, ap)"
| "va_int _ = None"

fun va_long :: "va list \<Rightarrow> (ulong \<times> va list) option" where
  "va_long (Va_long w # ap) = Some (w, ap)"
| "va_long _ = None"

fun va_ptr :: "va list \<Rightarrow> ((addr \<times> string) \<times> va list) option" where
  "va_ptr (Va_ptr a s # ap) = Some ((a, s), ap)"
| "va_ptr _ = None"

section \<open>Copying an argument\<close>

text \<open>\<open>block_len--\<close>.\<close>

definition block_dec :: "int \<Rightarrow> int option" where
  "block_dec b = (if b = - (2 ^ 31) then None else Some (b - 1))"

text \<open>One character in front of, behind or instead of the argument. \<open>out\<close> is what has been stored, \<open>sz\<close> (\<open>size\<close> of the source) the room left.\<close>

definition put_mark :: "char \<Rightarrow> int \<Rightarrow> string \<Rightarrow> nat \<Rightarrow> (int \<times> string \<times> nat) option" where
  "put_mark c block_len out sz =
     (if sz \<noteq> 0 \<and> block_len \<noteq> 0 then do { b \<leftarrow> block_dec block_len; Some (b, out @ [c], sz - 1) }
      else Some (block_len, out, sz))"

fun copy_plain :: "string \<Rightarrow> int \<Rightarrow> string \<Rightarrow> nat \<Rightarrow> (string \<times> nat) option" where
  "copy_plain [] block_len out sz = Some (out, sz)"
| "copy_plain (c # arg) block_len out sz =
     (if block_len \<noteq> 0 \<and> sz \<noteq> 0 then do { b \<leftarrow> block_dec block_len; copy_plain arg b (out @ [c]) (sz - 1) }
      else Some (out, sz))"

fun copy_escaped :: "bool \<Rightarrow> string \<Rightarrow> int \<Rightarrow> string \<Rightarrow> nat \<Rightarrow> (int \<times> string \<times> nat) option" where
  "copy_escaped block_space [] block_len out sz = Some (block_len, out, sz)"
| "copy_escaped block_space (c # arg) block_len out sz =
     (if block_len \<noteq> 0 \<and> sz \<noteq> 0 then
        (if \<not> vsnprintf_is_print c block_space then
           (if sz < 4 \<or> block_len < 4 then do { b \<leftarrow> block_dec block_len; copy_escaped block_space arg b (out @ [CHR ''.'']) (sz - 1) }
            else
              (let n = of_char c :: nat
               in copy_escaped block_space arg (block_len - 4)
                    (out @ [BSLASH, CHR ''x'', hextable ! (n div 16 mod 16), hextable ! (n mod 16)]) (sz - 4)))
         else do { b \<leftarrow> block_dec block_len; copy_escaped block_space arg b (out @ [c]) (sz - 1) })
      else Some (block_len, out, sz))"

section \<open>Directives\<close>

text \<open>The variables of a directive that is being read (\<open>in_block\<close>).\<close>

record fmt_block =
  block_size :: int
  block_len :: int
  block_space :: bool
  block_alt :: bool

definition block_start :: fmt_block where
  "block_start = \<lparr>block_size = 0, block_len = 0, block_space = False, block_alt = False\<rparr>"

text \<open>\<open>snprintf (buf, sizeof (buf), ...)\<close> with \<open>char buf[80]\<close>.\<close>

definition in_buf :: "string \<Rightarrow> string" where
  "in_buf s = take 79 s"

text \<open>The text of a directive's argument (\<open>None\<close> inside is a NULL pointer) and the arguments left. How a pointer is
  printed is up to the C library: \<open>ptr_text\<close>.\<close>

definition fmt_arg :: "(addr \<Rightarrow> string) \<Rightarrow> char \<Rightarrow> int \<Rightarrow> va list \<Rightarrow> (string option \<times> va list) option" where
  "fmt_arg ptr_text c bsize ap =
     (if c = CHR ''p'' then do { ((a, s), ap) \<leftarrow> va_ptr ap; Some (Some (in_buf (ptr_text a)), ap) }
      else if c = CHR ''d'' \<or> c = CHR ''i'' \<or> c = CHR ''u'' then
        (if bsize = 0 then do {
           (w, ap) \<leftarrow> va_int ap;
           Some (Some (in_buf (if c = CHR ''u'' then print_dec (unat w) else print_int (sint w))), ap) }
         else if bsize = 1 \<or> bsize = 2 \<or> bsize = of_char (CHR ''z'') then do {
           (w, ap) \<leftarrow> va_long ap;
           Some (Some (in_buf (if c = CHR ''u'' then print_dec (unat w) else print_int (sint w))), ap) }
         else Some (Some (in_buf ''<<<invalid>>>''), ap))
      else if c = CHR ''R'' then do {
        (w, ap) \<leftarrow> va_int ap;
        Some (Some (in_buf (if w = - 1 then ''SOCK_ERROR'' else print_int (sint w))), ap) }
      else do {
        ((a, s), ap) \<leftarrow> va_ptr ap;
        Some (if a = NULL then None else Some (cstr s), ap) })"

definition fmt_emit :: "char \<Rightarrow> string option \<Rightarrow> fmt_block \<Rightarrow> string \<Rightarrow> nat \<Rightarrow> (string \<times> nat) option" where
  "fmt_emit c arg blk out sz =
     (let alt = (if c \<noteq> CHR ''H'' then False else block_alt blk);
          arg = (if arg = None \<and> \<not> alt then Some ''(null)'' else arg);
          blen = (if block_len blk = 0 then int_of_size (vsnprintf_strlen arg alt (block_space blk)) else block_len blk)
      in case arg of
           None \<Rightarrow> do { (b, out, sz) \<leftarrow> put_mark (CHR ''-'') blen out sz; Some (out, sz) }
         | Some a \<Rightarrow>
             if c = CHR ''H'' then do {
               (b, out, sz) \<leftarrow> (if alt then put_mark DQUOTE blen out sz else Some (blen, out, sz));
               (b, out, sz) \<leftarrow> copy_escaped (block_space blk) a b out sz;
               (b, out, sz) \<leftarrow> (if alt then put_mark DQUOTE b out sz else Some (b, out, sz));
               Some (out, sz) }
             else copy_plain a blen out sz)"

definition is_digit19 :: "char \<Rightarrow> bool" where
  "is_digit19 c = (let n = of_char c :: nat in 49 \<le> n \<and> n \<le> 57)"

definition is_digit :: "char \<Rightarrow> bool" where
  "is_digit c = (let n = of_char c :: nat in 48 \<le> n \<and> n \<le> 57)"

definition is_conversion :: "char \<Rightarrow> bool" where
  "is_conversion c \<longleftrightarrow> c \<in> set ''pdiuRsH''"

text \<open>\<open>blk\<close> is \<open>None\<close> outside a directive.\<close>

function fmt_loop :: "(addr \<Rightarrow> string) \<Rightarrow> string \<Rightarrow> va list \<Rightarrow> fmt_block option \<Rightarrow> string \<Rightarrow> nat \<Rightarrow> (string \<times> nat) option" where
  "fmt_loop pt [] ap blk out sz = Some (out, sz)"
| "fmt_loop pt (c # format) ap blk out sz =
     (if sz = 0 then Some (out, sz)
      else case blk of
        None \<Rightarrow>
          if c = CHR ''%'' then fmt_loop pt format ap (Some block_start) out sz
          else fmt_loop pt format ap None (out @ [c]) (sz - 1)
      | Some b \<Rightarrow>
          if c = CHR ''l'' then fmt_loop pt format ap (Some (b\<lparr>block_size := block_size b + 1\<rparr>)) out sz
          else if c = CHR ''z'' then fmt_loop pt format ap (Some (b\<lparr>block_size := of_char (CHR ''z'')\<rparr>)) out sz
          else if c = CHR ''.'' then fmt_loop pt format ap (Some b) out sz
          else if c = CHR ''*'' then
            (case va_int ap of None \<Rightarrow> None
             | Some (w, ap) \<Rightarrow> fmt_loop pt format ap (Some (b\<lparr>block_len := sint w\<rparr>)) out sz)
          else if c = CHR '' '' then fmt_loop pt format ap (Some (b\<lparr>block_space := True\<rparr>)) out sz
          else if c = CHR ''#'' then fmt_loop pt format ap (Some (b\<lparr>block_alt := True\<rparr>)) out sz
          else if is_digit19 c then
            fmt_loop pt (dropWhile is_digit format) ap (Some (b\<lparr>block_len := atoi (c # format)\<rparr>)) out sz
          else if is_conversion c then
            (case fmt_arg pt c (block_size b) ap of None \<Rightarrow> None
             | Some (arg, ap) \<Rightarrow>
                (case fmt_emit c arg b out sz of None \<Rightarrow> None
                 | Some (out, sz) \<Rightarrow> fmt_loop pt format ap None out sz))
          else fmt_loop pt format ap (Some b) out sz)"
  by pat_completeness auto
termination
  by (relation "measure (\<lambda>(pt, format, ap, blk, out, sz). length format)")
    (auto simp: le_imp_less_Suc length_dropWhile_le)

text \<open>\<open>__vsnprintf\<close>: the string in the buffer of \<open>sz\<close> bytes (\<open>size\<close>) afterwards. With an empty buffer the terminating zero goes in
  front of it.\<close>

definition log_vsnprintf :: "(addr \<Rightarrow> string) \<Rightarrow> nat \<Rightarrow> string \<Rightarrow> va list \<Rightarrow> string option" where
  "log_vsnprintf pt sz format ap = do {
     (out, left) \<leftarrow> fmt_loop pt format ap None [] sz;
     if left = 0 then (if out = [] then None else Some (butlast out)) else Some out }"

section \<open>Bounds\<close>

lemma block_dec_Some [simp]: "b \<noteq> 0 \<Longrightarrow> 0 \<le> b \<Longrightarrow> block_dec b = Some (b - 1)"
  by (simp add: block_dec_def)

lemma put_mark_length:
  "put_mark c b out sz = Some (b', out', sz') \<Longrightarrow> length out' + sz' = length out + sz"
  by (auto simp: put_mark_def bind_eq_Some_conv split: if_splits)

lemma copy_plain_length:
  "copy_plain arg b out sz = Some (out', sz') \<Longrightarrow> length out' + sz' = length out + sz"
  by (induction arg b out sz rule: copy_plain.induct) (auto simp: bind_eq_Some_conv split: if_splits)

lemma copy_escaped_length:
  "copy_escaped sp arg b out sz = Some (b', out', sz') \<Longrightarrow> length out' + sz' = length out + sz"
proof (induction arg arbitrary: b out sz)
  case (Cons c arg)
  from Cons.prems show ?case
    by (auto simp: bind_eq_Some_conv Let_def split: if_splits dest!: Cons.IH)
qed simp

lemma fmt_emit_length:
  assumes "fmt_emit c arg blk out sz = Some (out', sz')"
  shows "length out' + sz' = length out + sz"
  using assms unfolding fmt_emit_def Let_def
  by (auto simp: bind_eq_Some_conv split: option.splits if_splits
      dest!: put_mark_length copy_plain_length copy_escaped_length)

lemma fmt_loop_length:
  "fmt_loop pt fmt ap blk out sz = Some (out', sz') \<Longrightarrow> length out' + sz' = length out + sz"
proof (induction fmt arbitrary: ap blk out sz rule: length_induct)
  case (1 fmt)
  show ?case
  proof (cases fmt)
    case (Cons c r)
    have IH: "length out' + sz' = length out + sz" if "length r' \<le> length r" "fmt_loop pt r' ap blk out sz = Some (out', sz')"
      for r' ap blk out sz
      using 1(1) that Cons by (metis length_Cons less_Suc_eq_le)
    have "length (dropWhile is_digit r) \<le> length r" by (rule length_dropWhile_le)
    note IHd = IH [OF this] and IH = IH [OF order_refl]
    from 1(2) Cons show ?thesis
      by (auto split: if_splits option.splits dest!: IH IHd fmt_emit_length)
  qed (use 1 in simp)
qed

lemma log_vsnprintf_length:
  assumes "log_vsnprintf pt sz fmt ap = Some s"
  shows "length s < sz"
proof -
  obtain out left where o: "fmt_loop pt fmt ap None [] sz = Some (out, left)"
    and s: "left = 0 \<Longrightarrow> out \<noteq> [] \<and> s = butlast out" "left \<noteq> 0 \<Longrightarrow> s = out"
    using assms unfolding log_vsnprintf_def by (auto simp: bind_eq_Some_conv split: if_splits)
  with fmt_loop_length [OF o] show ?thesis by (cases "left = 0") auto
qed

section \<open>Formats as lists of directives\<close>

text \<open>The number of a directive, with the length modifier that says how wide it is.\<close>

datatype fmt_number = N_int uint | N_l ulong | N_ll ulong | N_z ulong

datatype directive =
    D_text string
  | D_signed fmt_number
  | D_unsigned fmt_number
  | D_sock uint
  | D_str "string option"
  | D_cut nat string
  | D_esc bool bool "string option"

fun num_mod :: "fmt_number \<Rightarrow> string" where
  "num_mod (N_int w) = ''''"
| "num_mod (N_l w) = ''l''"
| "num_mod (N_ll w) = ''ll''"
| "num_mod (N_z w) = ''z''"

fun num_arg :: "fmt_number \<Rightarrow> va" where
  "num_arg (N_int w) = Va_int w"
| "num_arg (N_l w) = Va_long w"
| "num_arg (N_ll w) = Va_long w"
| "num_arg (N_z w) = Va_long w"

fun num_signed :: "fmt_number \<Rightarrow> int" where
  "num_signed (N_int w) = sint w"
| "num_signed (N_l w) = sint w"
| "num_signed (N_ll w) = sint w"
| "num_signed (N_z w) = sint w"

fun num_unsigned :: "fmt_number \<Rightarrow> nat" where
  "num_unsigned (N_int w) = unat w"
| "num_unsigned (N_l w) = unat w"
| "num_unsigned (N_ll w) = unat w"
| "num_unsigned (N_z w) = unat w"

text \<open>A string argument; its address does not matter as long as it is not NULL.\<close>

fun str_arg :: "string option \<Rightarrow> va" where
  "str_arg None = Va_ptr NULL []"
| "str_arg (Some s) = Va_ptr 1 (s @ [NUL])"

definition esc_flags :: "bool \<Rightarrow> bool \<Rightarrow> string" where
  "esc_flags alt sp = (if alt then ''#'' else []) @ (if sp then '' '' else [])"

fun dir_text :: "directive \<Rightarrow> string" where
  "dir_text (D_text t) = t"
| "dir_text (D_signed n) = CHR ''%'' # num_mod n @ ''d''"
| "dir_text (D_unsigned n) = CHR ''%'' # num_mod n @ ''u''"
| "dir_text (D_sock w) = ''%R''"
| "dir_text (D_str s) = ''%s''"
| "dir_text (D_cut n s) = ''%.'' @ print_dec n @ ''s''"
| "dir_text (D_esc alt sp s) = CHR ''%'' # esc_flags alt sp @ ''H''"

fun dir_args :: "directive \<Rightarrow> va list" where
  "dir_args (D_text t) = []"
| "dir_args (D_signed n) = [num_arg n]"
| "dir_args (D_unsigned n) = [num_arg n]"
| "dir_args (D_sock w) = [Va_int w]"
| "dir_args (D_str s) = [str_arg s]"
| "dir_args (D_cut n s) = [str_arg (Some s)]"
| "dir_args (D_esc alt sp s) = [str_arg s]"

text \<open>What a directive stands for. \<open>escape\<close> replaces every character that is not printable by its code.\<close>

definition esc_char :: "bool \<Rightarrow> char \<Rightarrow> string" where
  "esc_char sp c = (let n = of_char c :: nat
     in if vsnprintf_is_print c sp then [c] else [BSLASH, CHR ''x'', hextable ! (n div 16 mod 16), hextable ! (n mod 16)])"

definition escape :: "bool \<Rightarrow> string \<Rightarrow> string" where
  "escape sp s = concat (map (esc_char sp) s)"

fun dir_out :: "directive \<Rightarrow> string" where
  "dir_out (D_text t) = t"
| "dir_out (D_signed n) = print_int (num_signed n)"
| "dir_out (D_unsigned n) = print_dec (num_unsigned n)"
| "dir_out (D_sock w) = (if w = - 1 then ''SOCK_ERROR'' else print_int (sint w))"
| "dir_out (D_str s) = (case s of None \<Rightarrow> ''(null)'' | Some s \<Rightarrow> s)"
| "dir_out (D_cut n s) = take n s"
| "dir_out (D_esc alt sp s) =
     (case s of None \<Rightarrow> if alt then ''-'' else ''(null)''
      | Some s \<Rightarrow> if alt then DQUOTE # escape sp s @ [DQUOTE] else escape sp s)"

text \<open>Strings whose length (with every character escaped) is an \<open>int\<close>.\<close>

definition str_ok :: "string \<Rightarrow> bool" where
  "str_ok s \<longleftrightarrow> NUL \<notin> set s \<and> 4 * length s + 2 < 2 ^ 31"

fun dir_ok :: "directive \<Rightarrow> bool" where
  "dir_ok (D_text t) \<longleftrightarrow> CHR ''%'' \<notin> set t"
| "dir_ok (D_str s) \<longleftrightarrow> (case s of None \<Rightarrow> True | Some s \<Rightarrow> str_ok s)"
| "dir_ok (D_cut n s) \<longleftrightarrow> str_ok s \<and> 0 < n \<and> n < 2 ^ 31"
| "dir_ok (D_esc alt sp s) \<longleftrightarrow> (case s of None \<Rightarrow> True | Some s \<Rightarrow> str_ok s)"
| "dir_ok _ \<longleftrightarrow> True"

section \<open>Lengths\<close>

lemma esc_len: "sum_list (map (\<lambda>c. if vsnprintf_is_print c sp then 1 else 4) s) = length (escape sp s)"
  by (induction s) (auto simp: escape_def esc_char_def Let_def)

lemma escape_Nil [simp]: "escape sp [] = []" and escape_Cons: "escape sp (c # s) = esc_char sp c @ escape sp s"
  by (auto simp: escape_def)

lemma escape_length: "length s \<le> length (escape sp s)" "length (escape sp s) \<le> 4 * length s"
  by (induction s) (auto simp: escape_Cons esc_char_def Let_def)

lemma int_of_size_id [simp]: "n < 2 ^ 31 \<Longrightarrow> int_of_size n = int n"
  by (simp add: int_of_size_def)

lemma print_dec_length: "0 < k \<Longrightarrow> n < 10 ^ k \<Longrightarrow> length (print_dec n) \<le> k"
proof (induction n arbitrary: k rule: print_dec.induct)
  case (1 n)
  show ?case
  proof (cases "n < 10")
    case False
    then have k: "1 < k" using 1(3) by (metis One_nat_def Suc_lessI 1(2) power_one_right)
    then have "n div 10 < 10 ^ (k - 1)"
      using 1(3) by (cases k) (auto simp: div_less_iff_less_mult mult.commute)
    then have "length (print_dec (n div 10)) \<le> k - 1" using 1(1) [OF False, of "k - 1"] k by simp
    then show ?thesis using False k by (simp add: print_dec.simps [of n])
  qed (use 1 in \<open>simp add: print_dec.simps [of n]\<close>)
qed

lemma print_int_length:
  assumes "- (2 ^ 63) \<le> i" "i < 2 ^ 63"
  shows "length (print_int i) \<le> 21"
proof -
  have "nat (- i) < 10 ^ 20" "nat i < 10 ^ 20" using assms by auto
  then have "length (print_dec (nat (- i))) \<le> 20" "length (print_dec (nat i)) \<le> 20"
    by (auto intro: print_dec_length)
  then show ?thesis by (simp add: print_int_def)
qed

lemma sint_range: "- (2 ^ 63) \<le> sint (w :: uint)" "sint (w :: uint) < 2 ^ 63"
    "- (2 ^ 63) \<le> sint (v :: ulong)" "sint (v :: ulong) < 2 ^ 63"
  using sint_range_size [of w] sint_range_size [of v] by (auto simp: word_size)

lemma unat_range: "unat (w :: uint) < 10 ^ 20" "unat (v :: ulong) < 10 ^ 20"
  using unsigned_less [where ?'a = nat, of w] unsigned_less [where ?'a = nat, of v] by auto

lemma num_length: "length (print_int (num_signed n)) \<le> 21" "length (print_dec (num_unsigned n)) \<le> 20"
  using sint_range unat_range by (cases n; auto intro!: print_int_length print_dec_length)+

lemma in_buf_num [simp]:
  "in_buf (print_int (sint (w :: uint))) = print_int (sint w)"
  "in_buf (print_int (sint (v :: ulong))) = print_int (sint v)"
  "in_buf (print_dec (unat w)) = print_dec (unat w)"
  "in_buf (print_dec (unat v)) = print_dec (unat v)"
  using num_length [of "N_int w"] num_length [of "N_l v"] by (auto simp: in_buf_def)

section \<open>One argument\<close>

lemma copy_plain_fit:
  "0 \<le> b \<Longrightarrow> length (take (nat b) arg) \<le> sz \<Longrightarrow>
    copy_plain arg b out sz = Some (out @ take (nat b) arg, sz - length (take (nat b) arg))"
proof (induction arg arbitrary: b out sz)
  case (Cons c arg)
  show ?case
  proof (cases "b = 0")
    case False
    then have "nat b = Suc (nat (b - 1))" using Cons.prems by simp
    with False Cons show ?thesis by (auto simp del: length_take)
  qed simp
qed simp

lemma copy_escaped_fit:
  "int (length (escape sp arg)) \<le> b \<Longrightarrow> length (escape sp arg) \<le> sz \<Longrightarrow>
    copy_escaped sp arg b out sz = Some (b - int (length (escape sp arg)), out @ escape sp arg, sz - length (escape sp arg))"
proof (induction arg arbitrary: b out sz)
  case (Cons c arg)
  then show ?case by (auto simp: escape_Cons esc_char_def Let_def algebra_simps)
qed simp

lemma put_mark_fit: "0 < b \<Longrightarrow> 0 < sz \<Longrightarrow> put_mark c b out sz = Some (b - 1, out @ [c], sz - 1)"
  by (simp add: put_mark_def)

lemma put_mark_defined: "0 \<le> b \<Longrightarrow> \<exists>b' out' sz'. put_mark c b out sz = Some (b', out', sz') \<and> 0 \<le> b'"
  by (auto simp: put_mark_def)

lemma copy_plain_defined: "0 \<le> b \<Longrightarrow> \<exists>r. copy_plain arg b out sz = Some r"
  by (induction arg arbitrary: b out sz) auto

lemma copy_escaped_defined: "0 \<le> b \<Longrightarrow> \<exists>b' out' sz'. copy_escaped sp arg b out sz = Some (b', out', sz') \<and> 0 \<le> b'"
  by (induction arg arbitrary: b out sz) (auto simp: Let_def)

text \<open>Whether a directive's argument fits the format and what it prints.\<close>

definition emit_len :: "char \<Rightarrow> string option \<Rightarrow> fmt_block \<Rightarrow> nat" where
  "emit_len c arg blk = (let alt = (if c \<noteq> CHR ''H'' then False else block_alt blk); arg = (if arg = None \<and> \<not> alt then Some ''(null)'' else arg)
     in vsnprintf_strlen arg alt (block_space blk))"

lemma fmt_emit_defined:
  assumes "0 \<le> block_len blk" "emit_len c arg blk < 2 ^ 31"
  shows "\<exists>r. fmt_emit c arg blk out sz = Some r"
proof -
  define alt where "alt = (if c \<noteq> CHR ''H'' then False else block_alt blk)"
  define arg' where "arg' = (if arg = None \<and> \<not> alt then Some ''(null)'' else arg)"
  define blen where "blen = (if block_len blk = 0 then int_of_size (vsnprintf_strlen arg' alt (block_space blk)) else block_len blk)"
  have "vsnprintf_strlen arg' alt (block_space blk) < 2 ^ 31"
    using assms(2) by (simp only: emit_len_def Let_def arg'_def alt_def)
  then have b: "0 \<le> blen" using assms(1) by (simp add: blen_def)
  show ?thesis
  proof (cases arg')
    case None
    with put_mark_defined [OF b, of "CHR ''-''" out sz] show ?thesis
      unfolding fmt_emit_def Let_def alt_def [symmetric] arg'_def [symmetric] blen_def [symmetric] by auto
  next
    case (Some a)
    obtain b1 o1 s1 where 1: "(if alt then put_mark DQUOTE blen out sz else Some (blen, out, sz)) = Some (b1, o1, s1)" "0 \<le> b1"
      using put_mark_defined [OF b, of DQUOTE out sz] b by (cases alt) auto
    obtain b2 o2 s2 where 2: "copy_escaped (block_space blk) a b1 o1 s1 = Some (b2, o2, s2)" "0 \<le> b2"
      using copy_escaped_defined [OF 1(2)] by blast
    obtain b3 o3 s3 where 3: "(if alt then put_mark DQUOTE b2 o2 s2 else Some (b2, o2, s2)) = Some (b3, o3, s3)"
      using put_mark_defined [OF 2(2), of DQUOTE o2 s2] by (cases alt) auto
    show ?thesis
      unfolding fmt_emit_def Let_def alt_def [symmetric] arg'_def [symmetric] blen_def [symmetric]
      unfolding Some option.case 1(1)
      using copy_plain_defined [OF b, of a out sz] 2(1) 3 by (auto simp del: split_paired_Ex)
  qed
qed

lemma fmt_emit_plain:
  assumes "c \<noteq> CHR ''H''" "length s < 2 ^ 31" "4 * length s < 2 ^ 31" "block_len blk = 0" "length s \<le> sz"
  shows "fmt_emit c (Some s) blk out sz = Some (out @ s, sz - length s)"
proof -
  have "length (escape (block_space blk) s) < 2 ^ 31" "length s \<le> length (escape (block_space blk) s)"
    using escape_length [where s = s and sp = "block_space blk"] assms by auto
  then show ?thesis
    using assms by (simp add: fmt_emit_def vsnprintf_strlen_def esc_len copy_plain_fit)
qed

lemma fmt_emit_cut:
  assumes "c \<noteq> CHR ''H''" "0 < block_len blk" "length (take (nat (block_len blk)) s) \<le> sz"
  shows "fmt_emit c (Some s) blk out sz = Some (out @ take (nat (block_len blk)) s, sz - length (take (nat (block_len blk)) s))"
  using assms by (simp add: fmt_emit_def copy_plain_fit del: length_take)

lemma fmt_emit_esc:
  assumes "4 * length s + 2 < 2 ^ 31" "block_len blk = 0" "length (dir_out (D_esc (block_alt blk) (block_space blk) (Some s))) \<le> sz"
  shows "fmt_emit (CHR ''H'') (Some s) blk out sz =
    Some (out @ dir_out (D_esc (block_alt blk) (block_space blk) (Some s)),
      sz - length (dir_out (D_esc (block_alt blk) (block_space blk) (Some s))))"
proof -
  have l: "length (escape (block_space blk) s) + 2 < 2 ^ 31"
    using escape_length [where s = s and sp = "block_space blk"] assms by auto
  show ?thesis
  proof (cases "block_alt blk")
    case True
    then show ?thesis using assms l
      by (simp add: fmt_emit_def vsnprintf_strlen_def esc_len put_mark_fit copy_escaped_fit)
  next
    case False
    then show ?thesis using assms l
      by (simp add: fmt_emit_def vsnprintf_strlen_def esc_len copy_escaped_fit)
  qed
qed

lemma fmt_emit_null_esc:
  assumes "block_len blk = 0" "block_alt blk" "0 < sz"
  shows "fmt_emit (CHR ''H'') None blk out sz = Some (out @ ''-'', sz - 1)"
  using assms by (simp add: fmt_emit_def vsnprintf_strlen_def put_mark_fit)

section \<open>The format\<close>

lemma fmt_text:
  assumes "CHR ''%'' \<notin> set t"
  shows "fmt_loop pt (t @ rest) ap None out sz =
    (if length t < sz then fmt_loop pt rest ap None (out @ t) (sz - length t) else fmt_loop pt [] ap None (out @ take sz t) 0)"
  using assms
proof (induction t arbitrary: out sz)
  case (Cons c t)
  then show ?case by (cases sz) (auto simp: Suc_less_eq)
qed (auto, cases rest, auto)

lemma fmt_end: "fmt_loop pt rest ap blk out 0 = Some (out, 0)"
  by (cases rest) auto

lemma dec_digit_props: "d < 10 \<Longrightarrow> is_digit (dec_digit d) \<and> digit_value (dec_digit d) = Some d \<and> \<not> is_space (dec_digit d) \<and>
    (is_digit19 (dec_digit d) \<longleftrightarrow> d \<noteq> 0)"
  by (auto simp: is_digit_def digit_value_def dec_digit_def is_space_def is_digit19_def Let_def)

lemma print_dec_digits: "c \<in> set (print_dec n) \<Longrightarrow> \<exists>d < 10. c = dec_digit d"
proof (induction n rule: print_dec.induct)
  case (1 n)
  show ?case
  proof (cases "n < 10")
    case False
    moreover have "n mod 10 < 10" by simp
    ultimately show ?thesis using 1 by (auto simp: print_dec.simps [of n] simp del: mod_less_divisor)
  qed (use 1 in \<open>auto simp: print_dec.simps [of n]\<close>)
qed

lemma print_dec_head: "0 < n \<Longrightarrow> \<exists>d cs. print_dec n = dec_digit d # cs \<and> 0 < d \<and> d < 10"
proof (induction n rule: print_dec.induct)
  case (1 n)
  show ?case
  proof (cases "n < 10")
    case False
    then have "0 < n div 10" by (simp add: div_greater_zero_iff)
    then obtain d cs where "print_dec (n div 10) = dec_digit d # cs" "0 < d" "d < 10" using 1(1) [OF False] by blast
    with False show ?thesis by (auto simp: print_dec.simps [of n])
  qed (use 1 in \<open>auto simp: print_dec.simps [of n]\<close>)
qed

lemma dec_digits_append: "\<forall>c\<in>set a. digit_value c \<noteq> None \<Longrightarrow> dec_digits acc (a @ b) = dec_digits (dec_digits acc a) b"
  by (induction a arbitrary: acc) (auto split: option.splits)

lemma dec_digits_print: "dec_digits 0 (print_dec n) = n"
proof (induction n rule: print_dec.induct)
  case (1 n)
  show ?case
  proof (cases "n < 10")
    case True
    then show ?thesis by (simp add: print_dec.simps [of n] dec_digit_props)
  next
    case False
    have "\<forall>c\<in>set (print_dec (n div 10)). digit_value c \<noteq> None"
      by (auto dest!: print_dec_digits simp: dec_digit_props)
    then show ?thesis using 1 False by (simp add: print_dec.simps [of n] dec_digits_append dec_digit_props)
  qed
qed

lemma dec_digit_nosign: "d < 10 \<Longrightarrow> dec_digit d \<noteq> CHR ''-'' \<and> dec_digit d \<noteq> CHR ''+''"
  by (auto simp: dec_digit_def dest: arg_cong [where f = "of_char :: char \<Rightarrow> nat"])

lemma atoi_print:
  assumes "n < 2 ^ 31" "0 < n" "rest = [] \<or> digit_value (hd rest) = None"
  shows "atoi (print_dec n @ rest) = int n"
proof -
  obtain d cs where p: "print_dec n = dec_digit d # cs" "0 < d" "d < 10" using print_dec_head [OF assms(2)] by blast
  have "\<forall>c\<in>set (print_dec n). digit_value c \<noteq> None" by (auto dest!: print_dec_digits simp: dec_digit_props)
  then have "dec_digits 0 (print_dec n @ rest) = dec_digits n rest" by (simp add: dec_digits_append dec_digits_print)
  also have "\<dots> = n" using assms(3) by (cases rest) auto
  finally have v: "dec_digits 0 (print_dec n @ rest) = n" .
  have "strtol10 (print_dec n @ rest) = int n"
    unfolding strtol10_def using v p dec_digit_props [OF p(3)] dec_digit_nosign [OF p(3)] assms(1) by (simp add: Let_def)
  then show ?thesis using assms(1) by (simp add: atoi_def)
qed

lemma fmt_conv:
  assumes "is_conversion c" "sz \<noteq> 0" "fmt_arg pt c (block_size b) ap = Some (arg, ap')"
  shows "fmt_loop pt (c # rest) ap (Some b) out sz =
    (case fmt_emit c arg b out sz of None \<Rightarrow> None | Some (out, sz) \<Rightarrow> fmt_loop pt rest ap' None out sz)"
proof -
  have "\<not> is_digit19 c" "c \<notin> set ''lz.* #''" using assms(1)
    by (auto simp: is_conversion_def is_digit19_def)
  then show ?thesis using assms by simp
qed

text \<open>Reading a directive: the format up to the conversion sets \<open>block\<close>, the conversion takes the argument.\<close>

fun dir_conv :: "directive \<Rightarrow> char" where
  "dir_conv (D_signed n) = CHR ''d''"
| "dir_conv (D_unsigned n) = CHR ''u''"
| "dir_conv (D_sock w) = CHR ''R''"
| "dir_conv (D_str s) = CHR ''s''"
| "dir_conv (D_cut n s) = CHR ''s''"
| "dir_conv (D_esc alt sp s) = CHR ''H''"
| "dir_conv (D_text t) = CHR ''%''"

fun dir_block :: "directive \<Rightarrow> fmt_block" where
  "dir_block (D_signed n) = block_start\<lparr>block_size := (case n of N_int w \<Rightarrow> 0 | N_l w \<Rightarrow> 1 | N_ll w \<Rightarrow> 2 | N_z w \<Rightarrow> of_char (CHR ''z''))\<rparr>"
| "dir_block (D_unsigned n) = block_start\<lparr>block_size := (case n of N_int w \<Rightarrow> 0 | N_l w \<Rightarrow> 1 | N_ll w \<Rightarrow> 2 | N_z w \<Rightarrow> of_char (CHR ''z''))\<rparr>"
| "dir_block (D_cut n s) = block_start\<lparr>block_len := int n\<rparr>"
| "dir_block (D_esc alt sp s) = block_start\<lparr>block_alt := alt, block_space := sp\<rparr>"
| "dir_block _ = block_start"

fun dir_arg :: "directive \<Rightarrow> string option" where
  "dir_arg (D_str s) = s"
| "dir_arg (D_cut n s) = Some s"
| "dir_arg (D_esc alt sp s) = s"
| "dir_arg d = Some (dir_out d)"

fun is_text :: "directive \<Rightarrow> bool" where
  "is_text (D_text t) = True"
| "is_text _ = False"

lemma dir_conv_is: "\<not> is_text d \<Longrightarrow> is_conversion (dir_conv d)"
  by (cases d) (auto simp: is_conversion_def)

lemma str_arg_eval [simp]: "str_ok s \<Longrightarrow> cstr (s @ [NUL]) = s"
  by (rule cstr_stop) (simp add: str_ok_def)

lemma in_buf_sock [simp]: "in_buf ''SOCK_ERROR'' = ''SOCK_ERROR''"
  by (simp add: in_buf_def)

lemma dir_arg_eval:
  assumes "\<not> is_text d" "dir_ok d"
  shows "fmt_arg pt (dir_conv d) (block_size (dir_block d)) (dir_args d @ ap) = Some (dir_arg d, ap)"
proof (cases d)
  case (D_signed n)
  then show ?thesis by (cases n) (simp_all add: fmt_arg_def block_start_def)
next
  case (D_unsigned n)
  then show ?thesis by (cases n) (simp_all add: fmt_arg_def block_start_def)
next
  case (D_str s)
  then show ?thesis using assms by (cases s) (simp_all add: fmt_arg_def)
next
  case (D_esc alt sp s)
  then show ?thesis using assms by (cases s) (simp_all add: fmt_arg_def)
qed (use assms in \<open>simp_all add: fmt_arg_def\<close>)

lemma fmt_width:
  assumes "0 < n" "n < 2 ^ 31" "sz \<noteq> 0"
  shows "fmt_loop pt (print_dec n @ ''s'' @ rest) ap (Some b) out sz = fmt_loop pt (''s'' @ rest) ap (Some (b\<lparr>block_len := int n\<rparr>)) out sz"
proof -
  obtain d cs where p: "print_dec n = dec_digit d # cs" "0 < d" "d < 10" using print_dec_head [OF assms(1)] by blast
  have "\<forall>c\<in>set cs. is_digit c" using print_dec_digits [of _ n] p(1) dec_digit_props by (metis list.set_intros(2))
  then have dw: "dropWhile is_digit (cs @ ''s'' @ rest) = ''s'' @ rest"
    by (simp add: dropWhile_append2 is_digit_def)
  have "atoi (print_dec n @ ''s'' @ rest) = int n"
    by (rule atoi_print) (use assms in \<open>auto simp: digit_value_def Let_def\<close>)
  then have at: "atoi (dec_digit d # cs @ ''s'' @ rest) = int n" using p by simp
  have dg: "is_digit19 (dec_digit d)" using dec_digit_props [OF p(3)] p by simp
  then have ne: "dec_digit d \<notin> set ''lz.* #''" by (auto simp: is_digit19_def)
  show ?thesis unfolding p append_Cons append_Nil fmt_loop.simps(2) using dg ne dw at assms(3) by simp
qed

lemma dir_read:
  assumes "\<not> is_text d" "dir_ok d" "sz \<noteq> 0"
  shows "fmt_loop pt (dir_text d @ rest) ap None out sz = fmt_loop pt (dir_conv d # rest) ap (Some (dir_block d)) out sz"
proof (cases d)
  case (D_signed n)
  then show ?thesis using assms by (cases n) (simp_all add: block_start_def is_digit19_def)
next
  case (D_unsigned n)
  then show ?thesis using assms by (cases n) (simp_all add: block_start_def is_digit19_def)
next
  case (D_cut n s)
  have "fmt_loop pt (''%.'' @ print_dec n @ ''s'' @ rest) ap None out sz = fmt_loop pt (print_dec n @ ''s'' @ rest) ap (Some block_start) out sz"
    using assms by simp
  then show ?thesis using D_cut assms fmt_width [of n sz pt rest ap block_start out] by simp
next
  case (D_esc alt sp s)
  then show ?thesis using assms by (cases alt; cases sp) (simp_all add: esc_flags_def block_start_def)
qed (use assms in simp_all)

lemma dir_step:
  assumes "\<not> is_text d" "dir_ok d" "sz \<noteq> 0"
  shows "fmt_loop pt (dir_text d @ rest) (dir_args d @ ap) None out sz =
    (case fmt_emit (dir_conv d) (dir_arg d) (dir_block d) out sz of None \<Rightarrow> None | Some (out, sz) \<Rightarrow> fmt_loop pt rest ap None out sz)"
  unfolding dir_read [OF assms] by (rule fmt_conv [OF dir_conv_is [OF assms(1)] assms(3) dir_arg_eval [OF assms(1,2)]])

section \<open>Whole formats\<close>

lemma dir_emit_len:
  assumes "\<not> is_text d" "dir_ok d"
  shows "emit_len (dir_conv d) (dir_arg d) (dir_block d) < 2 ^ 31"
proof -
  have null: "length (escape sp ''(null)'') < 2 ^ 31" for sp using escape_length(2) [of sp "''(null)''"] by simp
  have num: "length (escape sp s) < 2 ^ 31" if "length s \<le> 21" for sp s using escape_length(2) [of sp s] that by simp
  have str: "length (escape sp s) + 2 < 2 ^ 31" if "str_ok s" for sp s
    using escape_length(2) [of sp s] that by (simp add: str_ok_def)
  then have str1: "length (escape sp s) < 2 ^ 31" if "str_ok s" for sp s using that add_lessD1 by blast
  have sock: "length (if w = - 1 then ''SOCK_ERROR'' else print_int (sint w)) \<le> 21" for w :: uint
    using num_length(1) [of "N_int w"] by simp
  show ?thesis
  proof (cases d)
    case (D_signed n)
    then show ?thesis using num [OF num_length(1)] by (simp add: emit_len_def vsnprintf_strlen_def esc_len)
  next
    case (D_unsigned n)
    then show ?thesis using num [OF order_trans [OF num_length(2)]] by (simp add: emit_len_def vsnprintf_strlen_def esc_len)
  next
    case (D_sock w)
    then show ?thesis using num [OF sock] by (simp add: emit_len_def vsnprintf_strlen_def esc_len)
  next
    case (D_str s)
    then show ?thesis using assms null str1 by (cases s) (simp_all add: emit_len_def vsnprintf_strlen_def esc_len)
  next
    case (D_cut n s)
    then show ?thesis using assms str1 by (simp add: emit_len_def vsnprintf_strlen_def esc_len)
  next
    case (D_esc alt sp s)
    then show ?thesis using assms null str str1
      by (cases s; cases alt) (simp_all add: emit_len_def vsnprintf_strlen_def esc_len block_start_def)
  qed (use assms in simp)
qed

lemma dir_emit_fit:
  assumes "\<not> is_text d" "dir_ok d" "length (dir_out d) < sz"
  shows "fmt_emit (dir_conv d) (dir_arg d) (dir_block d) out sz = Some (out @ dir_out d, sz - length (dir_out d))"
proof -
  have null: "fmt_emit c None blk out sz = fmt_emit c (Some ''(null)'') blk out sz" if "c \<noteq> CHR ''H'' \<or> \<not> block_alt blk" for c blk
    using that by (auto simp: fmt_emit_def)
  have esc_null: "escape sp ''(null)'' = ''(null)''" for sp
    by (simp add: escape_def esc_char_def vsnprintf_is_print_def)
  show ?thesis
  proof (cases d)
    case (D_signed n)
    then show ?thesis using assms num_length(1) [of n] by (simp add: fmt_emit_plain block_start_def)
  next
    case (D_unsigned n)
    then show ?thesis using assms num_length(2) [of n] by (simp add: fmt_emit_plain block_start_def)
  next
    case (D_sock w)
    then show ?thesis using assms num_length(1) [of "N_int w"] by (auto simp add: fmt_emit_plain block_start_def)
  next
    case (D_str s)
    then show ?thesis using assms
      by (cases s) (simp_all add: null fmt_emit_plain block_start_def str_ok_def)
  next
    case (D_cut n s)
    then show ?thesis using assms fmt_emit_cut [of "CHR ''s''" "dir_block d" s sz out]
      by (simp add: block_start_def del: length_take)
  next
    case (D_esc alt sp s)
    show ?thesis
    proof (cases s)
      case None
      then show ?thesis using D_esc assms fmt_emit_esc [of "''(null)''" "dir_block d" sz out]
        by (cases alt) (simp_all add: null fmt_emit_null_esc block_start_def esc_null)
    next
      case (Some t)
      then show ?thesis using D_esc assms fmt_emit_esc [of t "dir_block d" sz out]
        by (simp add: block_start_def str_ok_def del: dir_out.simps)
    qed
  qed (use assms in simp)
qed

lemma fmt_dirs_fit:
  "list_all dir_ok ds \<Longrightarrow> length (concat (map dir_out ds)) < sz \<Longrightarrow>
    fmt_loop pt (concat (map dir_text ds)) (concat (map dir_args ds)) None out sz =
      Some (out @ concat (map dir_out ds), sz - length (concat (map dir_out ds)))"
proof (induction ds arbitrary: out sz)
  case (Cons d ds)
  show ?case
  proof (cases "is_text d")
    case True
    then obtain t where d: "d = D_text t" by (cases d) auto
    with Cons show ?thesis by (simp add: fmt_text)
  next
    case False
    have "length (dir_out d) < sz" "dir_ok d" "sz \<noteq> 0" using Cons.prems by auto
    note e = dir_emit_fit [OF False this(2,1)] and s = dir_step [OF False this(2,3)]
    have "fmt_loop pt (concat (map dir_text (d # ds))) (concat (map dir_args (d # ds))) None out sz =
        fmt_loop pt (concat (map dir_text ds)) (concat (map dir_args ds)) None (out @ dir_out d) (sz - length (dir_out d))"
      by (simp add: s e)
    then show ?thesis using Cons by (simp del: length_concat)
  qed
qed simp

lemma fmt_dirs_defined:
  "list_all dir_ok ds \<Longrightarrow> \<exists>r. fmt_loop pt (concat (map dir_text ds)) (concat (map dir_args ds)) None out sz = Some r"
proof (induction ds arbitrary: out sz)
  case (Cons d ds)
  show ?case
  proof (cases "sz = 0")
    case nz: False
    show ?thesis
    proof (cases "is_text d")
      case True
      then obtain t where "d = D_text t" by (cases d) auto
      with Cons show ?thesis by (simp add: fmt_text)
    next
      case False
      have ok: "dir_ok d" using Cons.prems by simp
      have "0 \<le> block_len (dir_block d)" by (cases d) (auto simp: block_start_def)
      from fmt_emit_defined [OF this dir_emit_len [OF False ok], of out sz] obtain o1 s1
        where e: "fmt_emit (dir_conv d) (dir_arg d) (dir_block d) out sz = Some (o1, s1)" by auto
      have "list_all dir_ok ds" using Cons.prems by simp
      then show ?thesis using Cons.IH by (simp add: dir_step [OF False ok nz] e)
    qed
  qed (simp add: fmt_end)
qed simp

lemma log_vsnprintf_dirs:
  assumes "list_all dir_ok ds" "0 < sz"
  shows "\<exists>s. log_vsnprintf pt sz (concat (map dir_text ds)) (concat (map dir_args ds)) = Some s \<and> length s < sz \<and>
    (length (concat (map dir_out ds)) < sz \<longrightarrow> s = concat (map dir_out ds))"
proof -
  obtain out left where o: "fmt_loop pt (concat (map dir_text ds)) (concat (map dir_args ds)) None [] sz = Some (out, left)"
    using fmt_dirs_defined [OF assms(1)] by fastforce
  have l: "length out + left = sz" using fmt_loop_length [OF o] by simp
  then have "\<exists>s. log_vsnprintf pt sz (concat (map dir_text ds)) (concat (map dir_args ds)) = Some s"
    using assms(2) by (auto simp: log_vsnprintf_def o)
  then obtain s where s: "log_vsnprintf pt sz (concat (map dir_text ds)) (concat (map dir_args ds)) = Some s" by blast
  moreover have "s = concat (map dir_out ds)" if "length (concat (map dir_out ds)) < sz"
    using s fmt_dirs_fit [OF assms(1) that, of pt "[]"] that by (simp add: log_vsnprintf_def del: length_concat)
  ultimately show ?thesis using log_vsnprintf_length [OF s] by blast
qed

section \<open>Escaped text\<close>

text \<open>The characters that escaped text may consist of: those behind the double quote up to the end of ASCII (the single quote
  and the delete character included), no back-tick, and blanks if they are allowed.\<close>

definition safe_char :: "bool \<Rightarrow> char \<Rightarrow> bool" where
  "safe_char sp c \<longleftrightarrow> 34 < (of_char c :: nat) \<and> (of_char c :: nat) < 128 \<and> c \<noteq> CHR 0x60 \<or> sp \<and> c = CHR '' ''"

definition hexval :: "char \<Rightarrow> nat" where
  "hexval c = length (takeWhile (\<lambda>x. x \<noteq> c) hextable)"

text \<open>A reader of escaped text.\<close>

fun log_unescape :: "string \<Rightarrow> string" where
  "log_unescape [] = []"
| "log_unescape (c # cs) =
     (if c = BSLASH then
        (case cs of x # a # b # r \<Rightarrow> char_of (16 * hexval a + hexval b) # log_unescape r | _ \<Rightarrow> [c])
      else c # log_unescape cs)"

lemma hextable_all: "k < 16 \<Longrightarrow> hexval (hextable ! k) = k \<and> safe_char sp (hextable ! k)"
proof -
  assume "k < 16"
  then have "k = 0 \<or> k = 1 \<or> k = 2 \<or> k = 3 \<or> k = 4 \<or> k = 5 \<or> k = 6 \<or> k = 7 \<or> k = 8 \<or> k = 9 \<or> k = 10 \<or>
      k = 11 \<or> k = 12 \<or> k = 13 \<or> k = 14 \<or> k = 15" by arith
  then show ?thesis by (elim disjE) (simp_all add: hexval_def hextable_def safe_char_def)
qed

lemma print_safe: "vsnprintf_is_print c sp \<Longrightarrow> safe_char sp c \<and> c \<noteq> BSLASH"
  by (auto simp: vsnprintf_is_print_def safe_char_def Let_def split: if_splits)

lemma esc_char_safe: "\<forall>x\<in>set (esc_char sp c). safe_char sp x"
proof -
  have b: "safe_char sp BSLASH" "safe_char sp (CHR ''x'')" by (simp_all add: safe_char_def)
  have "n mod 16 < 16" for n :: nat by simp
  then have "safe_char sp (hextable ! (n mod 16))" for n :: nat using hextable_all by blast
  then show ?thesis using print_safe [of c sp] b by (auto simp: esc_char_def Let_def)
qed

lemma copy_escaped_safe:
  "copy_escaped sp arg b out sz = Some (b', out', sz') \<Longrightarrow> \<forall>c\<in>set out. safe_char sp c \<Longrightarrow> \<forall>c\<in>set out'. safe_char sp c"
proof (induction arg arbitrary: b out sz)
  case (Cons c arg)
  have dot: "safe_char sp (CHR ''.'')" by (simp add: safe_char_def)
  have e: "\<forall>x\<in>set (out @ esc_char sp c). safe_char sp x" using Cons.prems(2) esc_char_safe by auto
  show ?case
  proof (cases "vsnprintf_is_print c sp")
    case True
    then have "\<forall>x\<in>set (out @ [c]). safe_char sp x" using e by (simp add: esc_char_def Let_def)
    from Cons.IH [OF _ this] show ?thesis using Cons.prems True by (auto simp: bind_eq_Some_conv split: if_splits)
  next
    case False
    then show ?thesis using Cons.prems Cons.IH [OF _ e] Cons.IH [of _ "out @ [CHR ''.'']"] dot
      by (auto simp: bind_eq_Some_conv Let_def esc_char_def split: if_splits)
  qed
qed simp

lemma unescape_char: "log_unescape (esc_char sp c @ r) = c # log_unescape r"
proof (cases "vsnprintf_is_print c sp")
  case True
  then show ?thesis using print_safe by (simp add: esc_char_def Let_def)
next
  case False
  define n where "n = (of_char c :: nat)"
  have n: "n < 256" unfolding n_def by (rule nat_of_char_less_256)
  then have "n div 16 < 16" "n mod 16 < 16" by auto
  then have "hexval (hextable ! (n div 16 mod 16)) = n div 16" "hexval (hextable ! (n mod 16)) = n mod 16"
    using hextable_all [where sp = sp] by auto
  moreover have "char_of (16 * (n div 16) + n mod 16) = c" unfolding n_def by simp
  ultimately show ?thesis using False by (simp add: esc_char_def Let_def n_def [symmetric])
qed

lemma unescape_escape: "log_unescape (escape sp s) = s"
  by (induction s) (auto simp: escape_Cons unescape_char)

lemma log_vsnprintf_esc:
  assumes "str_ok s" "0 < sz"
  shows "\<exists>r. log_vsnprintf pt sz (dir_text (D_esc False sp (Some s))) [str_arg (Some s)] = Some r \<and>
    (\<forall>c\<in>set r. safe_char sp c) \<and> (length (escape sp s) < sz \<longrightarrow> log_unescape r = s)"
proof -
  let ?d = "D_esc False sp (Some s)"
  have ok: "list_all dir_ok [?d]" "dir_ok ?d" "\<not> is_text ?d" "sz \<noteq> 0" using assms by auto
  obtain r where r: "log_vsnprintf pt sz (dir_text ?d) [str_arg (Some s)] = Some r"
    and fit: "length (escape sp s) < sz \<longrightarrow> r = escape sp s"
    using log_vsnprintf_dirs [OF ok(1) assms(2), of pt] by auto
  have e: "fmt_emit (CHR ''H'') (Some s) (dir_block ?d) [] sz =
      (case copy_escaped sp s (int_of_size (length (escape sp s))) [] sz of None \<Rightarrow> None | Some (b, out, sz) \<Rightarrow> Some (out, sz))"
    by (auto simp: fmt_emit_def vsnprintf_strlen_def esc_len block_start_def split: option.splits bind_splits)
  have "fmt_loop pt (dir_text ?d @ []) (dir_args ?d @ []) None [] sz =
      (case copy_escaped sp s (int_of_size (length (escape sp s))) [] sz of None \<Rightarrow> None | Some (b, out, sz) \<Rightarrow> Some (out, sz))"
    unfolding dir_step [OF ok(3,2,4)] by (simp add: e del: dir_block.simps split: option.splits)
  then have "\<exists>b out left. copy_escaped sp s (int_of_size (length (escape sp s))) [] sz = Some (b, out, left) \<and> (r = out \<or> r = butlast out)"
    using r by (auto simp: log_vsnprintf_def bind_eq_Some_conv split: option.splits if_splits simp del: dir_text.simps)
  then have "\<forall>c\<in>set r. safe_char sp c" using copy_escaped_safe by (fastforce dest: in_set_butlastD)
  then show ?thesis using r fit unescape_escape by auto
qed

section \<open>Properties\<close>

text \<open>C23: For every well-formed format, given as a list of directives with their arguments, and every buffer that is not empty
  the formatter of the log is defined, stores a terminated string within the buffer, and that string is exactly what the
  directives stand for whenever this fits: numbers of all widths in decimal, strings, strings cut to a length, \<open>(null)\<close>
  and \<open>SOCK_ERROR\<close>, and escaped text with or without quotes.\<close>

theorem log_vsnprintf_correct:
  assumes "list_all dir_ok ds" "0 < sz"
  shows "\<exists>s. log_vsnprintf pt sz (concat (map dir_text ds)) (concat (map dir_args ds)) = Some s \<and> length s < sz \<and>
    (length (concat (map dir_out ds)) < sz \<longrightarrow> s = concat (map dir_out ds))"
  using assms by (rule log_vsnprintf_dirs)

theorem log_vsnprintf_correct_witness:
  "log_vsnprintf (\<lambda>_. []) 64 ''n=%ld %#H'' [Va_long (- 42), Va_ptr 1 (''a b'' @ [NUL])] =
    Some (''n=-42 '' @ [DQUOTE, CHR ''a'', BSLASH] @ ''x20b'' @ [DQUOTE])"
proof -
  let ?ds = "[D_text ''n='', D_signed (N_l (- 42)), D_text '' '', D_esc True False (Some ''a b'')]"
  have o: "concat (map dir_out ?ds) = ''n=-42 '' @ [DQUOTE, CHR ''a'', BSLASH] @ ''x20b'' @ [DQUOTE]"
    by (simp add: print_int_def print_dec.simps dec_digit_def escape_def esc_char_def vsnprintf_is_print_def hextable_def
        char_of_def bit_Suc_0_iff)
  have "list_all dir_ok ?ds" by (simp add: str_ok_def)
  from log_vsnprintf_correct [OF this, of 64 "\<lambda>_. []"] show ?thesis
    unfolding o by (auto simp: esc_flags_def)
qed

text \<open>Whatever the format and the arguments, also a format with unknown conversions, explicit lengths or a length
  taken from the arguments, and whatever the size of the buffer: a result of the formatter and its terminating zero lie
  within the buffer.\<close>

theorem log_vsnprintf_bounds:
  assumes "log_vsnprintf pt sz format ap = Some s"
  shows "length s < sz"
  using assms by (rule log_vsnprintf_length)

theorem log_vsnprintf_bounds_witness:
  "log_vsnprintf (\<lambda>_. []) 4 ''%s%%'' [Va_ptr 1 (''abcdef'' @ [NUL])] = Some ''abc'' \<and> length ''abc'' < 4"
proof -
  have *: "log_vsnprintf (\<lambda>_. []) 4 ''%s%%'' [Va_ptr 1 (''abcdef'' @ [NUL])] = Some ''abc''"
    by (simp add: log_vsnprintf_def fmt_arg_def fmt_emit_def block_start_def is_conversion_def is_digit19_def cstr_def
        vsnprintf_strlen_def vsnprintf_is_print_def)
  with log_vsnprintf_bounds [OF this] show ?thesis by simp
qed

text \<open>C31: Text that is logged through the escaping conversion cannot forge log lines: for every string and every buffer
  the bytes of the result have codes from 35 to 127 and are no back-ticks, apart from blanks where these are allowed. So there
  is no control character below 32 (no line end among them), no exclamation mark, no double quote and nothing outside ASCII; the
  single quote and the delete character (code 127) are printed as they are. When the result is not cut off, the
  original string can be recovered from it.\<close>

theorem log_escape_safe:
  assumes "str_ok s" "0 < sz"
  shows "\<exists>r. log_vsnprintf pt sz (dir_text (D_esc False sp (Some s))) [str_arg (Some s)] = Some r \<and>
    (\<forall>c\<in>set r. safe_char sp c) \<and> (length (escape sp s) < sz \<longrightarrow> log_unescape r = s)"
  using assms by (rule log_vsnprintf_esc)

theorem log_escape_safe_witness:
  "\<exists>r. log_vsnprintf (\<lambda>_. []) 64 ''%H'' [Va_ptr 1 ([CHR ''a'', LF, DQUOTE] @ [NUL])] = Some r \<and>
    (\<forall>c\<in>set r. safe_char False c) \<and> log_unescape r = [CHR ''a'', LF, DQUOTE]"
proof -
  have "str_ok [CHR ''a'', LF, DQUOTE]" by (simp add: str_ok_def)
  from log_escape_safe [OF this, of 64 "\<lambda>_. []" False] show ?thesis
    using escape_length(2) [of False "[CHR ''a'', LF, DQUOTE]"] by (auto simp: esc_flags_def)
qed

end
