(* ===== verification/Avl_Print.thy ===== *)
theory Avl_Print
  imports Avl Log_Format
begin

text \<open>
  Printing a tree (the last part of src/avl/avl.c): one line per node, indented so that the branches of the tree line up. What
  the functions write to \<open>stdout\<close> is a string here.
\<close>

section \<open>The functions\<close>

text \<open>A \<open>link_node\<close> is a direction and a width; the chain along \<open>parent\<close> is a list, the innermost link first.\<close>

type_synonym link_node = "int \<times> int"

definition balance_chars :: string where "balance_chars = [CHR 0x5C, CHR ''-'', CHR ''/'']"

definition AVL_KEY_PRINTER_BUFLEN :: nat where "AVL_KEY_PRINTER_BUFLEN = 256"

text \<open>A key printer yields the bytes that it stores in the buffer and the size that it returns. What \<open>%p\<close> prints for a pointer
  is up to the C library: \<open>show_ptr\<close>.\<close>

definition default_key_printer :: "('k option \<Rightarrow> string) \<Rightarrow> 'k option \<Rightarrow> string \<times> int" where
  "default_key_printer show_ptr k = (take (AVL_KEY_PRINTER_BUFLEN - 1) (show_ptr k) @ [NUL], int (length (show_ptr k)))"

definition spaces :: "int \<Rightarrow> string" where
  "spaces n = replicate (nat n) (CHR '' '')"

fun print_connectors :: "link_node list \<Rightarrow> string" where
  "print_connectors [] = []"
| "print_connectors [(direction, width)] = spaces width"
| "print_connectors ((direction, width) # (pdirection, pwidth) # up) =
     print_connectors ((pdirection, pwidth) # up) @
     (if pdirection \<noteq> direction \<and> up \<noteq> [] then CHR ''|'' # spaces (width - 1) else spaces width)"

text \<open>\<open>%03d\<close>.\<close>

definition print_3d :: "int \<Rightarrow> string" where
  "print_3d i = (if i < 0 then CHR ''-'' # replicate (2 - length (print_dec (nat (- i)))) (CHR ''0'') @ print_dec (nat (- i))
     else replicate (3 - length (print_dec (nat i))) (CHR ''0'') @ print_dec (nat i))"

text \<open>\<open>here.width = width + 11\<close>: unsigned, and converted to an \<open>int\<close>. \<open>None\<close>: the printer writes behind its buffer or stores no
  string, or an index outside of \<open>balance_chars\<close>.\<close>

partial_function (option) print_node :: "('k option \<Rightarrow> string \<times> int) \<Rightarrow> addr \<Rightarrow> link_node list \<Rightarrow> 'k heap \<Rightarrow> string option" where
  "print_node key_printer node link h = do {
     k \<leftarrow> rd key h node;
     let (buffer, width) = key_printer k;
     if length buffer > AVL_KEY_PRINTER_BUFLEN \<or> NUL \<notin> set buffer then None
     else do {
       r \<leftarrow> rd right h node;
       above \<leftarrow> (if r \<noteq> NULL then print_node key_printer r ((1, sint (word_of_int width + 11 :: uint)) # link) h else Some []);
       b \<leftarrow> get_balance h node;
       rank \<leftarrow> get_rank h node;
       l \<leftarrow> rd left h node;
       below \<leftarrow> (if l \<noteq> NULL then print_node key_printer l ((-1, sint (word_of_int width + 11 :: uint)) # link) h else Some []);
       if b + 1 < 0 \<or> b + 1 \<ge> 3 then None
       else Some (above @ print_connectors link @ ''+-['' @ [balance_chars ! nat (b + 1), CHR '' ''] @ cstr buffer @ [CHR '' ''] @
         print_3d (sint rank) @ '']'' @ (if l \<noteq> NULL \<or> r \<noteq> NULL then ''-|'' @ [LF] else [LF]) @ below) } }"

definition avl_print_tree ::
  "('k, 'a) avl_tree \<Rightarrow> ('k option \<Rightarrow> string) \<Rightarrow> ('k option \<Rightarrow> string \<times> int) option \<Rightarrow> 'k heap \<Rightarrow> string option" where
  "avl_print_tree tree show_ptr key_printer h =
     (let kp = (case key_printer of None \<Rightarrow> default_key_printer show_ptr | Some f \<Rightarrow> f)
      in if len tree \<noteq> 0 then do {
           r \<leftarrow> rd right h (root tree);
           print_node kp r [(0, 0)] h }
         else Some (''<empty tree>'' @ [LF]))"

section \<open>What is printed\<close>

text \<open>The lines of a tree, the greatest key first, with their indentations: a child hangs under the bar at the end of its parent's
  entry.\<close>

fun layout :: "('k \<Rightarrow> string) \<Rightarrow> nat \<Rightarrow> 'k ptree \<Rightarrow> (nat \<times> 'k \<times> uint \<times> bool) list" where
  "layout shw n Leaf = []"
| "layout shw n (Node l a x w r) =
     layout shw (n + length (shw x) + 11) r @ [(n, x, w, l \<noteq> Leaf \<or> r \<noteq> Leaf)] @ layout shw (n + length (shw x) + 11) l"

fun entry :: "('k \<Rightarrow> string) \<Rightarrow> nat \<times> 'k \<times> uint \<times> bool \<Rightarrow> string" where
  "entry shw (n, x, w, inner) = ''+-['' @ [balance_chars ! nat (bal w + 1), CHR '' ''] @ shw x @ [CHR '' ''] @
     print_3d (sint (AVL_GET_RANK w)) @ '']'' @ (if inner then ''-|'' @ [LF] else [LF])"

fun indents :: "string \<Rightarrow> nat \<times> 'k \<times> uint \<times> bool \<Rightarrow> bool" where
  "indents p (n, x, w, inner) \<longleftrightarrow> length p = n \<and> set p \<subseteq> {CHR '' '', CHR ''|''}"

definition prints :: "('k \<Rightarrow> string) \<Rightarrow> (nat \<times> 'k \<times> uint \<times> bool) list \<Rightarrow> string \<Rightarrow> bool" where
  "prints shw es out \<longleftrightarrow> (\<exists>ps. list_all2 indents ps es \<and> out = concat (map2 (\<lambda>p e. p @ entry shw e) ps es))"

lemma prints_Nil [simp]: "prints shw [] out \<longleftrightarrow> out = []"
  by (simp add: prints_def)

lemma prints_append: "prints shw es out \<Longrightarrow> prints shw es' out' \<Longrightarrow> prints shw (es @ es') (out @ out')"
proof -
  assume "prints shw es out" "prints shw es' out'"
  then obtain ps ps' where p: "list_all2 indents ps es" "out = concat (map2 (\<lambda>p e. p @ entry shw e) ps es)"
    "list_all2 indents ps' es'" "out' = concat (map2 (\<lambda>p e. p @ entry shw e) ps' es')" by (auto simp: prints_def)
  then have "length ps = length es" by (simp add: list_all2_lengthD)
  then show ?thesis using p unfolding prints_def by (intro exI [of _ "ps @ ps'"]) (auto intro: list_all2_appendI)
qed

lemma prints_one: "indents p e \<Longrightarrow> prints shw [e] (p @ entry shw e)"
  unfolding prints_def by (intro exI [of _ "[p]"]) simp

lemma keys_layout: "map (\<lambda>(n, x, w, inner). x) (layout shw n t) = rev (keys t)"
  by (induction t arbitrary: n) simp_all

text \<open>A chain of links as the functions build it, and the column to which it leads.\<close>

fun chain_ok :: "link_node list \<Rightarrow> bool" where
  "chain_ok [] = False"
| "chain_ok [(d, w)] \<longleftrightarrow> w = 0"
| "chain_ok ((d, w) # up) \<longleftrightarrow> w \<ge> 1 \<and> chain_ok up"

definition column :: "link_node list \<Rightarrow> nat" where
  "column link = sum_list (map (\<lambda>(d, w). nat w) link)"

lemma connectors_indent:
  "chain_ok link \<Longrightarrow> length (print_connectors link) = column link \<and> set (print_connectors link) \<subseteq> {CHR '' '', CHR ''|''}"
proof (induction link rule: chain_ok.induct)
  case (3 d w v va)
  then show ?case by (cases v) (auto simp: column_def spaces_def Suc_nat_eq_nat_zadd1)
qed (auto simp: column_def spaces_def)

text \<open>What is asked of a key printer.\<close>

definition prints_keys :: "('k option \<Rightarrow> string \<times> int) \<Rightarrow> ('k \<Rightarrow> string) \<Rightarrow> bool" where
  "prints_keys kp shw \<longleftrightarrow> (\<forall>x. kp (Some x) = (shw x @ [NUL], int (length (shw x))) \<and> NUL \<notin> set (shw x) \<and> length (shw x) < 256)"

lemma link_width: "n < 256 \<Longrightarrow> sint (word_of_int (int n) + 11 :: uint) = int n + 11"
proof -
  assume n: "n < 256"
  have "(word_of_int (int n) + 11 :: uint) = word_of_int (int n + 11)" by simp
  moreover have "sint (word_of_int (int n + 11) :: uint) = int n + 11"
    using n by (subst sint_sbintrunc') (simp add: signed_take_bit_int_eq_self)
  ultimately show ?thesis by (simp only:)
qed

lemma print_node_rep:
  assumes kp: "prints_keys kp shw"
  shows "rep h par t \<Longrightarrow> NULL \<notin> set (addrs t) \<Longrightarrow> t \<noteq> Leaf \<Longrightarrow> balanced t \<Longrightarrow> chain_ok link \<Longrightarrow>
    \<exists>out. print_node kp (root_of t) link h = Some out \<and> prints shw (layout shw (column link) t) out"
proof (induction t arbitrary: par link)
  case (Node l a x w r)
  have cell: "h a = Some \<lparr>key = Some x, left = root_of l, right = root_of r, parent = par, rank_and_balance = w\<rparr>"
    using Node.prems by auto
  have k: "kp (Some x) = (shw x @ [NUL], int (length (shw x)))" "NUL \<notin> set (shw x)" "length (shw x) < 256" "\<not> 255 < length (shw x)"
    using kp by (simp_all add: prints_keys_def not_less less_Suc_eq_le [symmetric])
  define W where "W = sint (word_of_int (int (length (shw x))) + 11 :: uint)"
  have W: "W = int (length (shw x)) + 11" using link_width [OF k(3)] by (simp add: W_def)
  let ?n = "column link + length (shw x) + 11"
  have c: "chain_ok ((d, W) # link)" "column ((d, W) # link) = ?n" for d
    using Node.prems(5) W by (cases link; simp add: column_def)+
  have sub: "\<exists>out. (if root_of s \<noteq> NULL then print_node kp (root_of s) ((d, W) # link) h else Some []) = Some out \<and>
      prints shw (layout shw ?n s) out"
    if q: "s = l \<or> s = r" for s d
  proof (cases "s = Leaf")
    case False
    have "NULL \<notin> set (addrs s)" using q Node.prems(2) by auto
    then have nn: "root_of s \<noteq> NULL" using False root_of_eq_NULL by blast
    have "\<exists>out. print_node kp (root_of s) ((d, W) # link) h = Some out \<and> prints shw (layout shw (column ((d, W) # link)) s) out"
      using q Node.IH(1) [of a "(d, W) # link"] Node.IH(2) [of a "(d, W) # link"] Node.prems False c(1) [of d] by auto
    then show ?thesis using nn by (simp add: c)
  qed simp
  from sub [of r 1] obtain above where above: "(if root_of r \<noteq> NULL then print_node kp (root_of r) ((1, W) # link) h else Some []) = Some above"
    "prints shw (layout shw ?n r) above" by blast
  from sub [of l "-1"] obtain below where below: "(if root_of l \<noteq> NULL then print_node kp (root_of l) ((-1, W) # link) h else Some []) = Some below"
    "prints shw (layout shw ?n l) below" by blast
  have b: "\<not> (bal w + 1 < 0 \<or> bal w + 1 \<ge> 3)" using Node.prems(4) by auto
  have leaf: "root_of l \<noteq> NULL \<longleftrightarrow> l \<noteq> Leaf" "root_of r \<noteq> NULL \<longleftrightarrow> r \<noteq> Leaf" using Node.prems(2) by (auto simp: root_of_eq_NULL)
  let ?e = "(column link, x, w, l \<noteq> Leaf \<or> r \<noteq> Leaf)"
  have "print_node kp a link h = Some (above @ print_connectors link @ entry shw ?e @ below)"
    using b by (subst print_node.simps)
      (simp add: mem_eval cell k AVL_KEY_PRINTER_BUFLEN_def Let_def above(1) [unfolded W_def leaf] below(1) [unfolded W_def leaf] cstr_stop leaf
        split del: if_split del: neq0_conv)
  moreover have one: "prints shw [?e] (print_connectors link @ entry shw ?e)"
    by (rule prints_one) (use connectors_indent [OF Node.prems(5)] in simp)
  have "prints shw (layout shw ?n r @ [?e] @ layout shw ?n l) (above @ (print_connectors link @ entry shw ?e) @ below)"
    by (rule prints_append [OF above(2) prints_append [OF one below(2)]])
  then have "prints shw (layout shw (column link) (Node l a x w r)) (above @ print_connectors link @ entry shw ?e @ below)"
    by (simp only: layout.simps append_assoc)
  ultimately show ?case by (simp only: root_of.simps) blast
qed simp

text \<open>\<open>avl_print_tree\<close> prints one line per node, from the greatest key to the smallest: its balance, key and rank, indented by
  blanks and bars to the column where the entry of its parent ends.\<close>

theorem avl_print_tree_correct:
  assumes "avl_at h (root ob) t" "avl_wf ob t" "prints_keys kp shw"
  shows "\<exists>out. avl_print_tree ob show_ptr (Some kp) h = Some out \<and>
    (if t = Leaf then out = ''<empty tree>'' @ [LF] else prints shw (layout shw 0 t) out)"
proof (cases "t = Leaf")
  case True
  then show ?thesis using assms(2) by (simp add: avl_wf_def avl_print_tree_def unat_eq_0)
next
  case False
  then have n: "len ob \<noteq> 0" using assms(2) by (cases t) (auto simp: avl_wf_def)
  have t: "rep h (root ob) t" "NULL \<notin> set (addrs t)" "balanced t" using assms(1,2) by (auto simp: avl_at_def avl_wf_def)
  have r: "rd right h (root ob) = Some (root_of t)" using assms(1) by (auto simp: avl_at_def mem_simps)
  have "column [(0, 0)] = 0" by (simp add: column_def)
  then show ?thesis using print_node_rep [OF assms(3) t(1,2) False t(3), of "[(0, 0)]"] n r False by (auto simp: avl_print_tree_def)
qed

theorem avl_print_tree_correct_witness:
  "\<exists>out. avl_print_tree ex_ob (\<lambda>k. []) (Some (\<lambda>k. if the k < 20 then (''low'' @ [NUL], 3) else (''high'' @ [NUL], 4))) ex_heap = Some out \<and>
    prints (\<lambda>x. if x < 20 then ''low'' else ''high'') (layout (\<lambda>x. if x < 20 then ''low'' else ''high'') 0 ex_tree) out"
proof -
  have "prints_keys (\<lambda>k. if the k < 20 then (''low'' @ [NUL], 3) else (''high'' @ [NUL], 4)) (\<lambda>x. if x < (20 :: int) then ''low'' else ''high'')"
    by (simp add: prints_keys_def)
  from avl_print_tree_correct [OF ex_at ex_wf this, of "\<lambda>k. []"] show ?thesis by (simp add: ex_tree_def)
qed

end
