(* ===== verification/Avl_Shared.thy ===== *)
theory Avl_Shared
  imports Avl Locks
begin

text \<open>
  Threads that share one AVL tree under its read-write lock: they look keys up between \<open>avl_tree_rlock\<close> or \<open>avl_tree_wlock\<close> and
  \<open>avl_tree_unlock\<close>, and insert and delete between \<open>avl_tree_wlock\<close> and \<open>avl_tree_unlock\<close>. A call on the tree begins and ends in
  two steps, between which other threads run; a call that begins while a conflicting one of another thread is under way - one
  of the two changes the tree - is a data race, which is undefined.
\<close>

section \<open>The system\<close>

datatype 'k tree_op = T_get 'k | T_ins addr 'k | T_del 'k

text \<open>Without the lock, waiting for it (\<open>True\<close>: for writing), holding it, in a call on the tree.\<close>

datatype 'k tree_pc = T_out | T_wants bool | T_holds bool | T_in bool "'k tree_op"

text \<open>The calls that have ended, with what a lookup has found.\<close>

datatype 'k tree_event = E_get 'k "'k option" | E_ins 'k | E_del 'k

record ('k, 'a) tree_sys =
  tree_store :: "('k, 'a) avl_state"
  tree_lock :: prwlock
  tree_pcs :: "nat \<Rightarrow> 'k tree_pc"
  tree_trace :: "'k tree_event list"

fun tree_writes :: "'k tree_op \<Rightarrow> bool" where
  "tree_writes (T_get k) \<longleftrightarrow> False"
| "tree_writes _ \<longleftrightarrow> True"

definition tree_goto :: "nat \<Rightarrow> 'k tree_pc \<Rightarrow> ('k, 'a) tree_sys \<Rightarrow> ('k, 'a) tree_sys" where
  "tree_goto t c s = s\<lparr>tree_pcs := (tree_pcs s)(t := c)\<rparr>"

text \<open>What the client observes: it changes the tree only with the lock for writing, inserts a key that it has not found, deletes one
  that it has found, and the memory for a new node is free.\<close>

definition tree_rule :: "('k, 'a) avl_state \<Rightarrow> bool \<Rightarrow> 'k tree_op \<Rightarrow> bool" where
  "tree_rule st w op \<longleftrightarrow>
     (case op of
        T_get k \<Rightarrow> True
      | T_ins m k \<Rightarrow> w \<and> avl_room st m \<and> avl_get_op k st = Some (-1, None)
      | T_del k \<Rightarrow> w \<and> (\<exists>x. avl_get_op k st = Some (0, x)))"

definition tree_race :: "('k, 'a) tree_sys \<Rightarrow> nat \<Rightarrow> 'k tree_op \<Rightarrow> bool" where
  "tree_race s t op \<longleftrightarrow> (\<exists>u w op'. u \<noteq> t \<and> tree_pcs s u = T_in w op' \<and> (tree_writes op \<or> tree_writes op'))"

definition tree_enter :: "nat \<Rightarrow> bool \<Rightarrow> 'k tree_op \<Rightarrow> ('k, 'a) tree_sys \<Rightarrow> ('k, 'a) tree_sys option" where
  "tree_enter t w op s = (if tree_race s t op then None else Some (tree_goto t (T_in w op) s))"

definition tree_do :: "'k tree_op \<Rightarrow> ('k, 'a) avl_state \<Rightarrow> ('k tree_event \<times> ('k, 'a) avl_state) option" where
  "tree_do op st =
     (case op of
        T_get k \<Rightarrow> map_option (\<lambda>(r, x). (E_get k (if r = 0 then Option.bind x id else None), st)) (avl_get_op k st)
      | T_ins m k \<Rightarrow> map_option (\<lambda>(r, st). (E_ins k, st)) (avl_ins_op m k st)
      | T_del k \<Rightarrow> map_option (\<lambda>(r, st). (E_del k, st)) (avl_del_op k st))"

definition tree_leave :: "nat \<Rightarrow> bool \<Rightarrow> 'k tree_op \<Rightarrow> ('k, 'a) tree_sys \<Rightarrow> ('k, 'a) tree_sys option" where
  "tree_leave t w op s = do {
     (e, st) \<leftarrow> tree_do op (tree_store s);
     Some (tree_goto t (T_holds w) (s\<lparr>tree_store := st, tree_trace := tree_trace s @ [e]\<rparr>)) }"

definition tree_lock_call :: "bool \<Rightarrow> bool \<Rightarrow> nat \<Rightarrow> prwlock \<Rightarrow> prwlock outcome" where
  "tree_lock_call detects w t l = (if w then avl_tree_wlock detects t l else avl_tree_rlock detects t l)"

text \<open>A step of some thread; \<open>None\<close> is undefined behaviour.\<close>

inductive tree_step :: "bool \<Rightarrow> ('k, 'a) tree_sys \<Rightarrow> ('k, 'a) tree_sys option \<Rightarrow> bool" for detects where
  want: "tree_pcs s t = T_out \<Longrightarrow> tree_step detects s (Some (tree_goto t (T_wants w) s))"
| lock: "tree_pcs s t = T_wants w \<Longrightarrow> tree_lock_call detects w t (tree_lock s) = Go l \<Longrightarrow>
    tree_step detects s (Some (tree_goto t (T_holds w) (s\<lparr>tree_lock := l\<rparr>)))"
| lock_undefined: "tree_pcs s t = T_wants w \<Longrightarrow> tree_lock_call detects w t (tree_lock s) = Undef \<Longrightarrow> tree_step detects s None"
| enter: "tree_pcs s t = T_holds w \<Longrightarrow> tree_rule (tree_store s) w op \<Longrightarrow> tree_step detects s (tree_enter t w op s)"
| leave: "tree_pcs s t = T_in w op \<Longrightarrow> tree_step detects s (tree_leave t w op s)"
| unlock: "tree_pcs s t = T_holds w \<Longrightarrow> avl_tree_unlock t (tree_lock s) = Go l \<Longrightarrow>
    tree_step detects s (Some (tree_goto t T_out (s\<lparr>tree_lock := l\<rparr>)))"
| unlock_undefined: "tree_pcs s t = T_holds w \<Longrightarrow> avl_tree_unlock t (tree_lock s) = Undef \<Longrightarrow> tree_step detects s None"

text \<open>The states that can be reached from a tree that nobody uses.\<close>

inductive tree_reach :: "bool \<Rightarrow> ('k, 'a) avl_state \<Rightarrow> ('k, 'a) tree_sys \<Rightarrow> bool" for detects st0 where
  start: "tree_reach detects st0 \<lparr>tree_store = st0, tree_lock = Live rw_free, tree_pcs = (\<lambda>t. T_out), tree_trace = []\<rparr>"
| step: "tree_reach detects st0 s \<Longrightarrow> tree_step detects s (Some s') \<Longrightarrow> tree_reach detects st0 s'"

inductive_cases tree_stepE: "tree_step detects s r"

section \<open>The abstract tree\<close>

text \<open>A trace on the sorted list of keys: whether the lookups have found what was there, and the keys afterwards.\<close>

fun tree_replay :: "('k \<Rightarrow> 'k \<Rightarrow> int) \<Rightarrow> 'k tree_event list \<Rightarrow> 'k list \<Rightarrow> 'k list option" where
  "tree_replay cmp [] xs = Some xs"
| "tree_replay cmp (E_get k r # es) xs = (if store_get cmp k xs = r then tree_replay cmp es xs else None)"
| "tree_replay cmp (E_ins k # es) xs = (if store_get cmp k xs = None then tree_replay cmp es (ins_key cmp k xs) else None)"
| "tree_replay cmp (E_del k # es) xs = (if store_get cmp k xs \<noteq> None then tree_replay cmp es (store_del cmp k xs) else None)"

lemma tree_replay_append: "tree_replay cmp (es @ es') xs = Option.bind (tree_replay cmp es xs) (tree_replay cmp es')"
  by (induction es xs rule: tree_replay.induct) auto

section \<open>The invariant\<close>

definition tree_has :: "bool \<Rightarrow> 'k tree_pc \<Rightarrow> bool" where
  "tree_has w c \<longleftrightarrow> c = T_holds w \<or> (\<exists>op. c = T_in w op)"

text \<open>The lock is held by the threads that think so, and there are no readers beside a writer.\<close>

definition tree_lock_ok :: "prwlock \<Rightarrow> (nat \<Rightarrow> 'k tree_pc) \<Rightarrow> bool" where
  "tree_lock_ok l p \<longleftrightarrow> (\<exists>r. l = Live r \<and> (\<forall>t. rw_writer r = Some t \<longleftrightarrow> tree_has True (p t)) \<and>
     (\<forall>t. t \<in> set (rw_readers r) \<longleftrightarrow> tree_has False (p t)) \<and> distinct (rw_readers r) \<and> (rw_writer r \<noteq> None \<longrightarrow> rw_readers r = []))"

definition tree_inv :: "('k \<Rightarrow> 'k \<Rightarrow> int) \<Rightarrow> 'k list \<Rightarrow> ('k, 'a) tree_sys \<Rightarrow> bool" where
  "tree_inv cmp xs0 s \<longleftrightarrow> tree_lock_ok (tree_lock s) (tree_pcs s) \<and> (\<forall>t w op. tree_pcs s t = T_in w op \<longrightarrow> tree_rule (tree_store s) w op) \<and>
     (\<exists>xs. avl_holds cmp (tree_store s) xs \<and> uniq cmp xs \<and> tree_replay cmp (tree_trace s) xs0 = Some xs)"

lemma tree_has_iff [simp]:
  "\<not> tree_has w T_out" "\<not> tree_has w (T_wants v)" "tree_has w (T_holds v) \<longleftrightarrow> w = v" "tree_has w (T_in v op) \<longleftrightarrow> w = v"
  by (auto simp: tree_has_def)

lemma lock_ok_writer:
  assumes "tree_lock_ok l p" "tree_has True (p t)" "tree_has w (p u)"
  shows "u = t"
proof -
  obtain r :: rwstate where r: "(\<forall>t. rw_writer r = Some t \<longleftrightarrow> tree_has True (p t)) \<and> (\<forall>t. t \<in> set (rw_readers r) \<longleftrightarrow> tree_has False (p t)) \<and>
    (rw_writer r \<noteq> None \<longrightarrow> rw_readers r = [])" using assms(1) unfolding tree_lock_ok_def by blast
  have t: "rw_writer r = Some t" using r assms(2) by blast
  then have "rw_writer r \<noteq> None" by simp
  then have "rw_readers r = []" using r by blast
  then have "u \<notin> set (rw_readers r)" by simp
  then have "tree_has True (p u)" using r assms(3) by (cases w) auto
  then have "rw_writer r = Some u" using r by blast
  then show "u = t" using t by simp
qed

lemma lock_ok_keep: "tree_lock_ok l p \<Longrightarrow> (\<And>w. tree_has w c = tree_has w (p t)) \<Longrightarrow> tree_lock_ok l (p(t := c))"
  by (auto simp: tree_lock_ok_def)

lemma lock_ok_lock:
  assumes "tree_lock_ok l p" "p t = T_wants w" "tree_lock_call detects w t l = Go l'"
  shows "tree_lock_ok l' (p(t := T_holds w))"
proof -
  obtain r where r: "l = Live r" "\<And>u. rw_writer r = Some u \<longleftrightarrow> tree_has True (p u)" "\<And>u. u \<in> set (rw_readers r) \<longleftrightarrow> tree_has False (p u)"
    "distinct (rw_readers r)" using assms(1) by (auto simp: tree_lock_ok_def)
  have n: "rw_writer r \<noteq> Some t" "t \<notin> set (rw_readers r)" using r(2,3) [of t] assms(2) by auto
  show ?thesis
  proof (cases w)
    case True
    then have "l' = Live (r\<lparr>rw_writer := Some t\<rparr>)" "rw_writer r = None" "rw_readers r = []"
      using assms(3) n r(1)
      by (auto simp: tree_lock_call_def avl_tree_wlock_def thread_rwlock_wlock_c_def pthread_rwlock_wrlock_def split: if_splits)
    then show ?thesis using r True by (auto simp: tree_lock_ok_def)
  next
    case False
    then have "l' = Live (r\<lparr>rw_readers := t # rw_readers r\<rparr>)" "rw_writer r = None"
      using assms(3) n r(1)
      by (auto simp: tree_lock_call_def avl_tree_rlock_def thread_rwlock_rlock_c_def pthread_rwlock_rdlock_def
        split: option.splits if_splits)
    then show ?thesis using r n False by (auto simp: tree_lock_ok_def)
  qed
qed

lemma lock_ok_unlock:
  assumes "tree_lock_ok l p" "p t = T_holds w"
  obtains l' where "avl_tree_unlock t l = Go l'" "tree_lock_ok l' (p(t := T_out))"
proof -
  obtain r where r: "l = Live r" "\<And>u. rw_writer r = Some u \<longleftrightarrow> tree_has True (p u)" "\<And>u. u \<in> set (rw_readers r) \<longleftrightarrow> tree_has False (p u)"
    "distinct (rw_readers r)" "rw_writer r \<noteq> None \<longrightarrow> rw_readers r = []" using assms(1) by (auto simp: tree_lock_ok_def)
  show ?thesis
  proof (cases w)
    case True
    then have w: "rw_writer r = Some t" using r(2) assms(2) by simp
    then have only: "\<not> tree_has True (p u)" if "u \<noteq> t" for u using r(2) [of u] that by simp
    have "tree_lock_ok (Live (r\<lparr>rw_writer := None\<rparr>)) (p(t := T_out))"
      using r only w True assms(2) by (auto simp: tree_lock_ok_def)
    moreover have "avl_tree_unlock t l = Go (Live (r\<lparr>rw_writer := None\<rparr>))"
      using r(1) w by (simp add: avl_tree_unlock_def thread_rwlock_unlock_c_def pthread_rwlock_unlock_def)
    ultimately show ?thesis using that by blast
  next
    case False
    then have w: "rw_writer r \<noteq> Some t" "t \<in> set (rw_readers r)" using r(2,3) assms(2) by auto
    have "tree_lock_ok (Live (r\<lparr>rw_readers := remove1 t (rw_readers r)\<rparr>)) (p(t := T_out))"
      using r w False assms(2) by (auto simp: tree_lock_ok_def)
    moreover have "avl_tree_unlock t l = Go (Live (r\<lparr>rw_readers := remove1 t (rw_readers r)\<rparr>))"
      using r(1) w by (simp add: avl_tree_unlock_def thread_rwlock_unlock_c_def pthread_rwlock_unlock_def)
    ultimately show ?thesis using that by blast
  qed
qed

lemma tree_do_ok:
  assumes "key_order cmp" and st: "avl_holds cmp (tree_store s) xs" "uniq cmp xs" and rule: "tree_rule (tree_store s) w op"
  shows "\<exists>e st' xs'. tree_do op (tree_store s) = Some (e, st') \<and> avl_holds cmp st' xs' \<and> uniq cmp xs' \<and>
    tree_replay cmp [e] xs = Some xs' \<and> (\<not> tree_writes op \<longrightarrow> st' = tree_store s)"
proof (cases op)
  case (T_get k)
  then show ?thesis using avl_get_law [OF assms(1) st, of k] st
    by (cases "store_get cmp k xs") (auto simp: tree_do_def)
next
  case (T_ins m k)
  then have r: "avl_room (tree_store s) m" "avl_get_op k (tree_store s) = Some (-1, None)" using rule by (auto simp: tree_rule_def)
  then have none: "store_get cmp k xs = None" using avl_get_law [OF assms(1) st, of k] by (cases "store_get cmp k xs") auto
  then have "\<forall>x\<in>set xs. cmp k x \<noteq> 0" by (auto simp: store_get_def find_None_iff)
  then have "uniq cmp (ins_key cmp k xs)" by (rule key_order.uniq_ins_key [OF assms(1) st(2)])
  then show ?thesis using avl_ins_law [OF assms(1) st(1) r(1), of k] T_ins none by (auto simp: tree_do_def)
next
  case (T_del k)
  then obtain x where "avl_get_op k (tree_store s) = Some (0, x)" using rule by (auto simp: tree_rule_def)
  then have some: "store_get cmp k xs \<noteq> None" using avl_get_law [OF assms(1) st, of k] by (cases "store_get cmp k xs") auto
  then show ?thesis using avl_del_law [OF assms(1) st some] key_order.uniq_del [OF assms(1) st(2), of k] T_del
    by (auto simp: tree_do_def)
qed

lemma tree_rule_writes: "tree_rule st w op \<Longrightarrow> tree_writes op \<Longrightarrow> w"
  by (cases op) (auto simp: tree_rule_def)

lemma tree_step_ok:
  assumes ko: "key_order cmp" and inv: "tree_inv cmp xs0 s" and step: "tree_step detects s r"
  shows "\<exists>s'. r = Some s' \<and> tree_inv cmp xs0 s'"
proof -
  have l: "tree_lock_ok (tree_lock s) (tree_pcs s)" and rules: "\<And>t w op. tree_pcs s t = T_in w op \<Longrightarrow> tree_rule (tree_store s) w op"
    using inv by (auto simp: tree_inv_def)
  obtain xs where xs: "avl_holds cmp (tree_store s) xs" "uniq cmp xs" "tree_replay cmp (tree_trace s) xs0 = Some xs"
    using inv by (auto simp: tree_inv_def)
  have keep: "tree_inv cmp xs0 (tree_goto t c (s\<lparr>tree_lock := l'\<rparr>))"
    if "tree_lock_ok l' ((tree_pcs s)(t := c))" "\<And>w op. c = T_in w op \<Longrightarrow> tree_rule (tree_store s) w op" for t c l'
    using that rules xs unfolding tree_inv_def by (auto simp: tree_goto_def)
  show ?thesis using step
  proof cases
    case (want t w)
    have "tree_lock_ok (tree_lock s) ((tree_pcs s)(t := T_wants w))" by (rule lock_ok_keep [OF l]) (simp add: want)
    then show ?thesis using keep [of "tree_lock s" t "T_wants w"] want by simp
  next
    case (lock t w l')
    then show ?thesis using keep [OF lock_ok_lock [OF l lock(2,3)]] by simp
  next
    case (lock_undefined t w)
    then show ?thesis using l
      by (auto simp: tree_lock_ok_def tree_lock_call_def avl_tree_wlock_def thread_rwlock_wlock_c_def pthread_rwlock_wrlock_def
        avl_tree_rlock_def thread_rwlock_rlock_c_def pthread_rwlock_rdlock_def split: if_splits option.splits)
  next
    case (enter t w op)
    have "\<not> tree_race s t op"
    proof
      assume "tree_race s t op"
      then obtain u v op' where u: "u \<noteq> t" "tree_pcs s u = T_in v op'" "tree_writes op \<or> tree_writes op'" by (auto simp: tree_race_def)
      then have "w \<or> v" using tree_rule_writes [OF enter(3)] tree_rule_writes [OF rules [OF u(2)]] by blast
      then show False
        using lock_ok_writer [OF l, of t v u] lock_ok_writer [OF l, of u w t] u(1,2) enter(2) by auto
    qed
    moreover have "tree_lock_ok (tree_lock s) ((tree_pcs s)(t := T_in w op))" by (rule lock_ok_keep [OF l]) (simp add: enter)
    ultimately show ?thesis using keep [of "tree_lock s" t "T_in w op"] enter by (simp add: tree_enter_def)
  next
    case (leave t w op)
    have rule: "tree_rule (tree_store s) w op" using rules leave(2) .
    obtain e st' xs' where d: "tree_do op (tree_store s) = Some (e, st')" "avl_holds cmp st' xs'" "uniq cmp xs'"
      "tree_replay cmp [e] xs = Some xs'" "\<not> tree_writes op \<longrightarrow> st' = tree_store s"
      using tree_do_ok [OF ko xs(1,2) rule] by blast
    let ?s = "tree_goto t (T_holds w) (s\<lparr>tree_store := st', tree_trace := tree_trace s @ [e]\<rparr>)"
    have lk: "tree_lock_ok (tree_lock s) ((tree_pcs s)(t := T_holds w))" by (rule lock_ok_keep [OF l]) (simp add: leave)
    have "tree_rule (tree_store ?s) v op'" if u: "tree_pcs ?s u = T_in v op'" for u v op'
    proof -
      have u': "u \<noteq> t" "tree_pcs s u = T_in v op'" using u by (auto simp: tree_goto_def split: if_splits)
      have "\<not> tree_writes op"
        using tree_rule_writes [OF rule] lock_ok_writer [OF l, of t v u] u' leave(2) by auto
      then show ?thesis using d(5) rules [OF u'(2)] by (simp add: tree_goto_def)
    qed
    then have "tree_inv cmp xs0 ?s" using lk d(2-4) xs(3) unfolding tree_inv_def
      by (auto simp: tree_goto_def tree_replay_append)
    then show ?thesis using leave d(1) by (simp add: tree_leave_def)
  next
    case (unlock t w l')
    obtain l2 where "avl_tree_unlock t (tree_lock s) = Go l2" "tree_lock_ok l2 ((tree_pcs s)(t := T_out))"
      using lock_ok_unlock [OF l unlock(2)] .
    then show ?thesis using keep [of l' t T_out] unlock by simp
  next
    case (unlock_undefined t w)
    then show ?thesis using lock_ok_unlock [OF l unlock_undefined(2)] by fastforce
  qed
qed

lemma tree_reach_inv:
  assumes "key_order cmp" "avl_holds cmp st0 xs0" "uniq cmp xs0" "tree_reach detects st0 s"
  shows "tree_inv cmp xs0 s"
  using assms(4)
proof induction
  case start
  show ?case using assms(2,3) by (auto simp: tree_inv_def tree_lock_ok_def rw_free_def)
next
  case (step s s')
  then show ?case using tree_step_ok [OF assms(1)] by blast
qed

section \<open>Properties\<close>

text \<open>C10: any number of threads that share a tree and observe the rules of its lock: no step is undefined, a data race included, and
  what has happened so far is what happens when the calls are made one after the other on a sorted list of keys - every
  lookup has found what was there, and the tree, which is well formed, holds the keys of that list.\<close>

theorem tree_shared_linear:
  fixes st0 :: "('k, 'a) avl_state"
  assumes "key_order cmp" "avl_holds cmp st0 xs0" "uniq cmp xs0" "tree_reach detects st0 s"
  shows "\<not> tree_step detects s None \<and>
    (\<exists>xs. tree_replay cmp (tree_trace s) xs0 = Some xs \<and> avl_holds cmp (tree_store s) xs \<and> uniq cmp xs)"
proof -
  have inv: "tree_inv cmp xs0 s" using assms by (rule tree_reach_inv)
  then have "\<not> tree_step detects s None" using tree_step_ok [OF assms(1)] by blast
  with inv show ?thesis by (auto simp: tree_inv_def)
qed

text \<open>A thread looks up 20 in the tree with the keys 10, 20 and 30 while another one waits for the lock.\<close>

theorem tree_shared_linear_witness:
  "\<exists>s. tree_reach False (ex_ob, ex_heap) s \<and> tree_trace s = [E_get 20 (Some 20)] \<and> tree_pcs s 2 = T_wants True"
proof -
  have h: "key_order (tcmp ex_ob)" "avl_holds (tcmp ex_ob) (ex_ob, ex_heap) [10, 20, 30]" "uniq (tcmp ex_ob) [10, 20, 30]"
    using ex_order ex_repr by (simp_all add: avl_holds_def ex_ob_def ex_cmp_def)
  let ?s = "\<lparr>tree_store = (ex_ob, ex_heap), tree_lock = Live rw_free, tree_pcs = (\<lambda>t. T_out), tree_trace = []\<rparr>"
  let ?l = "Live (rw_free\<lparr>rw_readers := [1]\<rparr>)"
  note step = tree_reach.step [of False]
  have s2: "tree_reach False (ex_ob, ex_heap) (tree_goto 2 (T_wants True) (tree_goto 1 (T_wants False) ?s))"
    by (rule step [OF step [OF tree_reach.start tree_step.want] tree_step.want]) (simp_all add: tree_goto_def)
  have s3: "tree_reach False (ex_ob, ex_heap) (tree_goto 1 (T_holds False)
      ((tree_goto 2 (T_wants True) (tree_goto 1 (T_wants False) ?s))\<lparr>tree_lock := ?l\<rparr>))" (is "tree_reach _ _ ?s3")
    by (rule step [OF s2 tree_step.lock]) (simp_all add: tree_goto_def tree_lock_call_def avl_tree_rlock_def
        thread_rwlock_rlock_c_def pthread_rwlock_rdlock_def rw_free_def)
  have "tree_enter 1 False (T_get 20) ?s3 = Some (tree_goto 1 (T_in False (T_get 20)) ?s3)"
    by (auto simp: tree_enter_def tree_race_def tree_goto_def split: if_splits)
  moreover have "tree_step False ?s3 (tree_enter 1 False (T_get 20) ?s3)"
    by (rule tree_step.enter) (simp_all add: tree_goto_def tree_rule_def)
  ultimately have s4: "tree_reach False (ex_ob, ex_heap) (tree_goto 1 (T_in False (T_get 20)) ?s3)" (is "tree_reach _ _ ?s4")
    using step [OF s3] by simp
  have leave: "tree_step False ?s4 (tree_leave 1 False (T_get 20) ?s4)"
    by (rule tree_step.leave) (simp add: tree_goto_def)
  have "\<not> tree_step False ?s4 None" using tree_shared_linear [OF h s4] by blast
  then obtain s5 where s5: "tree_leave 1 False (T_get 20) ?s4 = Some s5" using leave by (metis option.exhaust)
  have r5: "tree_reach False (ex_ob, ex_heap) s5" using step [OF s4] leave s5 by metis
  obtain x where x: "tree_trace s5 = [E_get 20 x]" "tree_pcs s5 2 = T_wants True"
    using s5 by (cases "avl_get_op 20 (ex_ob, ex_heap)") (auto simp: tree_leave_def tree_do_def tree_goto_def split: prod.splits)
  have "x = Some 20" using tree_shared_linear [OF h r5] x(1)
    by (auto simp: store_get_def ex_ob_def ex_cmp_def split: if_splits)
  then show ?thesis using r5 x by blast
qed

end
