(* ===== verification/Encoding_Defs.thy ===== *)
theory Encoding_Defs
  imports Cstring
begin

text \<open>
  The model of \<^verbatim>\<open>src/httpp/encoding.c\<close>: the transfer-encoding object with its four buffers, the meta data
  lists, the identity and the chunked coding. Buffers hold the bytes that have been stored in them; sizes
  are natural numbers, and the one sum a peer can make overflow (\<open>bodylen + 2\<close>) is reduced modulo \<open>2 ^ 64\<close>.

  \<open>mem n\<close> says whether an allocation of \<open>n\<close> bytes succeeds. A backend callback is a function on the state
  behind its \<open>userdata\<close>; the callback of a read returns its result and the bytes it stored. \<open>None\<close> as the result
  of a model function is undefined behaviour of the C code.
\<close>

section \<open>Numbers in hexadecimal\<close>

definition hex_digit :: "nat \<Rightarrow> char" where
  "hex_digit d = char_of (if d < 10 then 48 + d else 87 + d)"

text \<open>\<open>printf ("%lx")\<close>.\<close>

fun print_hex :: "nat \<Rightarrow> string" where
  "print_hex n = (if n < 16 then [hex_digit n] else print_hex (n div 16) @ [hex_digit (n mod 16)])"

declare print_hex.simps [simp del]

definition hex_value :: "char \<Rightarrow> nat option" where
  "hex_value c = (let n = of_char c :: nat in
     if 48 \<le> n \<and> n \<le> 57 then Some (n - 48)
     else if 97 \<le> n \<and> n \<le> 102 then Some (n - 87)
     else if 65 \<le> n \<and> n \<le> 70 then Some (n - 55)
     else None)"

text \<open>The digits at the front of a string; the value saturates as \<open>strtoull\<close> does.\<close>

fun hex_digits :: "nat \<Rightarrow> string \<Rightarrow> nat" where
  "hex_digits acc [] = acc"
| "hex_digits acc (c # cs) =
     (case hex_value c of None \<Rightarrow> acc | Some d \<Rightarrow> hex_digits (min (16 * acc + d) (2 ^ 64 - 1)) cs)"

definition hex_prefix :: "string \<Rightarrow> string" where
  "hex_prefix cs =
     (if 2 < length cs \<and> cs ! 0 = CHR ''0'' \<and> (cs ! 1 = CHR ''x'' \<or> cs ! 1 = CHR ''X'') \<and> hex_value (cs ! 2) \<noteq> None
      then drop 2 cs else cs)"

text \<open>\<open>sscanf (s, "%llx", &v)\<close>: white space, a sign, \<open>0x\<close> and digits; \<open>None\<close> when it does not return 1.\<close>

definition scan_hex :: "string \<Rightarrow> nat option" where
  "scan_hex s = (let cs = dropWhile is_space (takeWhile (\<lambda>c. c \<noteq> NUL) s);
       neg = (cs \<noteq> [] \<and> hd cs = CHR ''-'');
       cs = (if cs \<noteq> [] \<and> (hd cs = CHR ''-'' \<or> hd cs = CHR ''+'') then tl cs else cs);
       ds = hex_prefix cs
     in if ds = [] \<or> hex_value (hd ds) = None then None
        else (let v = hex_digits 0 ds in Some (if neg then (2 ^ 64 - v) mod 2 ^ 64 else v)))"

section \<open>The data\<close>

text \<open>\<open>httpp_meta_t\<close>; a list stands for the chain of \<open>next\<close> pointers.\<close>

record httpp_meta =
  mkey :: "string option"
  mvalue :: "string option"
  value_len :: nat

text \<open>The pair of handlers \<open>process_read\<close>, \<open>process_write\<close>.\<close>

datatype coding = Identity | Chunked

record httpp_encoding =
  refc :: nat
  process :: coding
  meta_read :: "httpp_meta list"
  meta_write :: "httpp_meta list"
  buf_read_raw :: "string option"
  buf_read_raw_offset :: nat
  buf_read_raw_len :: nat
  buf_read_decoded :: "string option"
  buf_read_decoded_offset :: nat
  buf_read_decoded_len :: nat
  buf_write_raw :: "string option"
  buf_write_raw_offset :: nat
  buf_write_raw_len :: nat
  buf_write_encoded :: "string option"
  buf_write_encoded_offset :: nat
  buf_write_encoded_len :: nat
  bytes_till_eof :: int
  read_bytes_till_header :: nat

type_synonym 'u read_cb = "'u \<Rightarrow> nat \<Rightarrow> int \<times> string \<times> 'u"
type_synonym 'u write_cb = "'u \<Rightarrow> string \<Rightarrow> int \<times> 'u"

section \<open>Buffers\<close>

text \<open>\<open>__copy_buffer\<close>: the result, the bytes stored at \<open>dst\<close> and the buffer afterwards; \<open>dst\<close> says whether the
  destination is not NULL (the other pointers are addresses of fields).\<close>

definition copy_buffer :: "bool \<Rightarrow> string option \<Rightarrow> nat \<Rightarrow> nat \<Rightarrow> nat \<Rightarrow> int \<times> string \<times> string option \<times> nat \<times> nat" where
  "copy_buffer dst src boffset blen len =
     (if len = 0 then (0, [], src, boffset, blen)
      else if \<not> dst then (-1, [], src, boffset, blen)
      else case src of None \<Rightarrow> (-1, [], src, boffset, blen)
      | Some s \<Rightarrow>
         (let have_len = blen - boffset;
              p = drop boffset s;
              todo = (if len < have_len then len else have_len);
              boffset = boffset + todo
          in if boffset = blen then (int todo, take todo p, None, 0, 0)
             else (int todo, take todo p, Some s, boffset, blen)))"

definition flush_output :: "httpp_encoding \<Rightarrow> 'u write_cb option \<Rightarrow> 'u \<Rightarrow> httpp_encoding \<times> 'u" where
  "flush_output self cb u =
     (case (cb, buf_write_encoded self) of
        (Some f, Some s) \<Rightarrow>
          (let (ret, u) = f u (take (buf_write_encoded_len self - buf_write_encoded_offset self)
                                 (drop (buf_write_encoded_offset self) s));
               off = buf_write_encoded_offset self + nat ret
           in if ret > 0 then
                (if off = buf_write_encoded_len self
                 then (self\<lparr>buf_write_encoded := None, buf_write_encoded_offset := 0, buf_write_encoded_len := 0\<rparr>, u)
                 else (self\<lparr>buf_write_encoded_offset := off\<rparr>, u))
              else (self, u))
      | _ \<Rightarrow> (self, u))"

section \<open>Meta data\<close>

definition httpp_encoding_meta_new :: "(nat \<Rightarrow> bool) \<Rightarrow> string option \<Rightarrow> string option \<Rightarrow> httpp_meta option" where
  "httpp_encoding_meta_new mem k v =
     (if \<not> mem 32 then None
      else if k \<noteq> None \<and> \<not> mem (length (the k) + 1) then None
      else if v \<noteq> None \<and> \<not> mem (length (the v) + 1) then None
      else Some \<lparr>mkey = k, mvalue = v, value_len = (case v of None \<Rightarrow> 0 | Some s \<Rightarrow> length s)\<rparr>)"

text \<open>\<open>httpp_encoding_meta_append\<close>: appending a chain to the chain at \<open>dst\<close> (\<open>None\<close> when \<open>dst\<close> is NULL).\<close>

definition httpp_encoding_meta_append :: "httpp_meta list option \<Rightarrow> httpp_meta list \<Rightarrow> int \<times> httpp_meta list option" where
  "httpp_encoding_meta_append dst next_meta =
     (case dst of None \<Rightarrow> (-1, None)
      | Some ms \<Rightarrow> if next_meta = [] then (0, Some ms) else (0, Some (ms @ next_meta)))"

section \<open>General setup\<close>

definition HTTPP_ENCODING_IDENTITY :: string where "HTTPP_ENCODING_IDENTITY = ''identity''"
definition HTTPP_ENCODING_CHUNKED :: string where "HTTPP_ENCODING_CHUNKED = ''chunked''"

definition enc_zero :: "coding \<Rightarrow> httpp_encoding" where
  "enc_zero p = \<lparr>refc = 1, process = p, meta_read = [], meta_write = [],
     buf_read_raw = None, buf_read_raw_offset = 0, buf_read_raw_len = 0,
     buf_read_decoded = None, buf_read_decoded_offset = 0, buf_read_decoded_len = 0,
     buf_write_raw = None, buf_write_raw_offset = 0, buf_write_raw_len = 0,
     buf_write_encoded = None, buf_write_encoded_offset = 0, buf_write_encoded_len = 0,
     bytes_till_eof = -1, read_bytes_till_header = 0\<rparr>"

text \<open>\<open>ok\<close>: the allocation of the object succeeds.\<close>

definition httpp_encoding_new :: "bool \<Rightarrow> string \<Rightarrow> httpp_encoding option" where
  "httpp_encoding_new ok encoding =
     (if \<not> ok then None
      else if strcaseeq encoding HTTPP_ENCODING_IDENTITY then Some (enc_zero Identity)
      else if strcaseeq encoding HTTPP_ENCODING_CHUNKED then Some (enc_zero Chunked)
      else None)"

definition httpp_encoding_addref :: "httpp_encoding option \<Rightarrow> int \<times> httpp_encoding option" where
  "httpp_encoding_addref self =
     (case self of None \<Rightarrow> (-1, None) | Some s \<Rightarrow> (0, Some (s\<lparr>refc := refc s + 1\<rparr>)))"

text \<open>The object afterwards; \<open>None\<close> when it has been freed (or was NULL).\<close>

definition httpp_encoding_release :: "httpp_encoding option \<Rightarrow> int \<times> httpp_encoding option" where
  "httpp_encoding_release self =
     (case self of None \<Rightarrow> (-1, None)
      | Some s \<Rightarrow> (let s = s\<lparr>refc := refc s - 1\<rparr> in if refc s \<noteq> 0 then (0, Some s) else (0, None)))"

section \<open>The identity coding\<close>

definition enc_identity_read :: "httpp_encoding \<Rightarrow> nat \<Rightarrow> 'u read_cb option \<Rightarrow> 'u \<Rightarrow> int \<times> string \<times> httpp_encoding \<times> 'u"
  where
  "enc_identity_read self len cb u =
     (case cb of None \<Rightarrow> (-1, [], self, u)
      | Some f \<Rightarrow> (let (ret, bytes, u) = f u len in (ret, bytes, self, u)))"

definition enc_identity_write ::
  "httpp_encoding \<Rightarrow> string option \<Rightarrow> nat \<Rightarrow> 'u write_cb option \<Rightarrow> 'u \<Rightarrow> int \<times> httpp_encoding \<times> 'u" where
  "enc_identity_write self buf len cb u =
     (case cb of None \<Rightarrow> (-1, self, u)
      | Some f \<Rightarrow> (let (ret, u) = f u (take len (case buf of None \<Rightarrow> [] | Some b \<Rightarrow> b)) in (ret, self, u)))"

section \<open>Reading chunk extensions\<close>

text \<open>The loop that measures a value: \<open>q\<close> is \<open>in_quote\<close>, \<open>n\<close> the value of \<open>value_len\<close>.\<close>

fun ext_value_len :: "nat \<Rightarrow> string \<Rightarrow> nat \<Rightarrow> nat" where
  "ext_value_len q [] n = n"
| "ext_value_len q (c # cs) n =
     (if q \<noteq> 0 then
        (let q = (if c = BSLASH then 2 else if c = DQUOTE then q - 1 else q)
         in if q \<noteq> 0 then ext_value_len q cs (n + 1) else n + 1)
      else if c = DQUOTE then ext_value_len 1 cs (n + 1)
      else if c = SEMI then n
      else ext_value_len 0 cs (n + 1))"

text \<open>The loop that decodes it. \<open>p\<close> is the memory from the pointer \<open>p\<close> on, which has already been moved
  behind the value when the loop reads \<open>p[value_len]\<close>; reading past what is known of it is undefined.\<close>

fun ext_decode :: "string \<Rightarrow> nat \<Rightarrow> string \<Rightarrow> nat \<Rightarrow> string \<Rightarrow> string option" where
  "ext_decode p q cs 0 value = Some value"
| "ext_decode p q [] (Suc n) value = None"
| "ext_decode p q (c # cs) (Suc n) value =
     (if q \<noteq> 0 then
        (let q' = (if c = BSLASH then 2 else if c = DQUOTE then q - 1 else q);
             value' = (if c = BSLASH then value
                       else if c = DQUOTE then (if q' \<noteq> 0 then value @ [DQUOTE] else value)
                       else value @ [c])
         in if q' \<noteq> 0 then ext_decode p q' cs n value' else Some value')
      else if c = DQUOTE then ext_decode p 1 cs n value
      else if Suc n < length p then
        (if p ! Suc n = SEMI then Some value else ext_decode p 0 cs n (value @ [c]))
      else None)"

text \<open>The body of the loop over the extensions, behind the semicolon: \<open>p\<close> is all the memory from the current
  position on, of which \<open>len\<close> bytes belong to the extensions. The result is the new entry, the position behind
  it and whether the loop goes on.\<close>

definition ext_value ::
  "(nat \<Rightarrow> bool) \<Rightarrow> httpp_meta \<Rightarrow> string \<Rightarrow> nat \<Rightarrow> (httpp_meta \<times> string \<times> nat \<times> bool) option" where
  "ext_value mem m p len =
     (if len = 0 then Some (m, p, 0, False)
      else
        (let vlen = ext_value_len 0 (take len p) 0 in
         if \<not> mem (vlen + 1) then Some (m, p, len, False)
         else case ext_decode (drop vlen p) 0 p vlen [] of None \<Rightarrow> None
           | Some v \<Rightarrow> Some (m\<lparr>mvalue := Some v, value_len := length v\<rparr>, drop vlen p, len - vlen, True)))"

definition ext_entry :: "(nat \<Rightarrow> bool) \<Rightarrow> string \<Rightarrow> nat \<Rightarrow> (httpp_meta \<times> string \<times> nat \<times> bool) option" where
  "ext_entry mem p len =
     (if \<not> mem 32 then None
      else
        (let key_len = length (takeWhile (\<lambda>c. c \<noteq> CHR ''='') (take len p)) in
         if \<not> mem (key_len + 1) then Some (\<lparr>mkey = None, mvalue = None, value_len = 0\<rparr>, p, len, False)
         else
           (let m = \<lparr>mkey = Some (take key_len p), mvalue = None, value_len = 0\<rparr>;
                p = drop key_len p; len = len - key_len in
            if len = 0 then Some (m, p, 0, False)
            else if p = [] then None
            else if hd p \<noteq> CHR ''='' then Some (m, p, len, True)
            else ext_value mem m (tl p) (len - 1))))"

lemma ext_entry_len: "ext_entry mem p len = Some (m, p', len', go) \<Longrightarrow> len' \<le> len"
  by (auto simp: ext_entry_def ext_value_def Let_def split: if_splits option.splits)

text \<open>The loop over the extensions; the result is the list \<open>meta_read\<close>.\<close>

function enc_chunked_read_extentions ::
  "(nat \<Rightarrow> bool) \<Rightarrow> httpp_meta list \<Rightarrow> string \<Rightarrow> nat \<Rightarrow> httpp_meta list option" where
  "enc_chunked_read_extentions mem ms p len =
     (if len = 0 then Some ms
      else if p = [] then None
      else if hd p \<noteq> SEMI then Some ms
      else case ext_entry mem (tl p) (len - 1) of None \<Rightarrow> None
        | Some (m, p', len', go) \<Rightarrow>
            if go then enc_chunked_read_extentions mem (ms @ [m]) p' len' else Some (ms @ [m]))"
  by pat_completeness auto
termination
  by (relation "measure (\<lambda>(mem, ms, p, len). len)") (auto dest: ext_entry_len)

declare enc_chunked_read_extentions.simps [simp del]

section \<open>Reading the chunked coding\<close>

text \<open>The loop that looks for the end of a chunk header, at index \<open>i\<close> of the raw buffer: \<open>in_quote\<close>,
  \<open>offset_extentions\<close>, \<open>offset_CR\<close>; the result adds \<open>offset_LF\<close>.\<close>

fun scan_header :: "nat \<Rightarrow> int \<Rightarrow> int \<Rightarrow> int \<Rightarrow> string \<Rightarrow> int \<times> int \<times> int" where
  "scan_header q ext cr i [] = (ext, cr, -1)"
| "scan_header q ext cr i (c # cs) =
     (if q \<noteq> 0 then
        scan_header (if c = BSLASH then 2 else if c = DQUOTE then q - 1 else q) ext cr (i + 1) cs
      else if c = DQUOTE then scan_header 1 ext cr (i + 1) cs
      else if c = SEMI \<and> ext = -1 then scan_header 0 i cr (i + 1) cs
      else if c = CR then scan_header 0 ext i (i + 1) cs
      else if c = LF \<and> cr = i - 1 then (ext, cr, i)
      else scan_header 0 ext cr (i + 1) cs)"

definition raw_free :: "httpp_encoding \<Rightarrow> httpp_encoding" where
  "raw_free self = self\<lparr>buf_read_raw := None, buf_read_raw_offset := 0, buf_read_raw_len := 0\<rparr>"

text \<open>The end of \<open>__enc_chunked_read\<close>, once the length \<open>bodylen\<close> of the body is known: \<open>raw\<close> is the raw buffer, \<open>lf\<close> the
  offset of the last byte of the header.\<close>

definition enc_chunked_body :: "(nat \<Rightarrow> bool) \<Rightarrow> httpp_encoding \<Rightarrow> string \<Rightarrow> nat \<Rightarrow> int \<Rightarrow> int \<times> httpp_encoding" where
  "enc_chunked_body mem self raw bodylen lf =
     (let self = self\<lparr>buf_read_raw_offset := nat lf + 1\<rparr>;
          self = (if bodylen = 0 then self\<lparr>bytes_till_eof := 2\<rparr> else self);
          off = buf_read_raw_offset self; rlen = buf_read_raw_len self
      in if off = rlen then
           (0, (raw_free self)\<lparr>read_bytes_till_header := (bodylen + 2) mod 2 ^ 64\<rparr>)
         else if rlen - off \<le> bodylen then
           (0, (raw_free self)\<lparr>buf_read_decoded := Some raw, buf_read_decoded_offset := off,
               buf_read_decoded_len := rlen, read_bytes_till_header := (bodylen + 2 + 2 ^ 64 - (rlen - off)) mod 2 ^ 64\<rparr>)
         else if \<not> mem bodylen then (-1, self\<lparr>buf_read_decoded := None\<rparr>)
         else
           (let self = self\<lparr>buf_read_decoded := Some (take bodylen (drop off raw)), buf_read_decoded_offset := 0,
                  buf_read_decoded_len := bodylen, buf_read_raw_offset := off + bodylen, read_bytes_till_header := 2\<rparr>
            in if rlen - (off + bodylen) \<ge> 2 then
                 (let self = self\<lparr>buf_read_raw_offset := off + bodylen + 2, read_bytes_till_header := 0,
                        bytes_till_eof := (if bytes_till_eof self \<noteq> -1 then 0 else bytes_till_eof self)\<rparr>
                  in if rlen - (off + bodylen + 2) = 0 then (0, raw_free self) else (0, self))
               else (0, self)))"

text \<open>What \<open>__enc_chunked_read\<close> does with a complete header: the extensions, the zero that ends the length (written in
  front of the buffer, which is undefined behaviour, when its offset is negative), and the length.\<close>

definition enc_chunked_header ::
  "(nat \<Rightarrow> bool) \<Rightarrow> httpp_encoding \<Rightarrow> string \<Rightarrow> int \<Rightarrow> int \<Rightarrow> int \<Rightarrow> (int \<times> httpp_encoding) option" where
  "enc_chunked_header mem self raw ext cr lf = do {
     ms \<leftarrow> (if ext \<noteq> -1 then
              enc_chunked_read_extentions mem (meta_read self) (drop (nat ext) raw) (nat (cr - ext))
            else Some (meta_read self));
     let self = self\<lparr>meta_read := ms\<rparr>;
     let c = (if ext \<noteq> -1 then ext else cr);
     raw \<leftarrow> (if c < 0 then None else Some (raw[nat c := NUL]));
     let self = self\<lparr>buf_read_raw := Some raw\<rparr>;
     Some (case scan_hex (drop (buf_read_raw_offset self) raw) of None \<Rightarrow> (-1, self)
           | Some bodylen \<Rightarrow> enc_chunked_body mem self raw bodylen lf) }"

text \<open>\<open>__enc_chunked_read\<close>: the result, the bytes stored in \<open>buf\<close>, the object and the state of the callback.\<close>

definition enc_chunked_read ::
  "(nat \<Rightarrow> bool) \<Rightarrow> httpp_encoding \<Rightarrow> nat \<Rightarrow> 'u read_cb option \<Rightarrow> 'u \<Rightarrow> (int \<times> string \<times> httpp_encoding \<times> 'u) option" where
  "enc_chunked_read mem self len cb u =
     (case cb of None \<Rightarrow> Some (-1, [], self, u)
      | Some f \<Rightarrow>
        if read_bytes_till_header self > 2 then
          (let todo = (if len > read_bytes_till_header self - 2 then read_bytes_till_header self - 2 else len);
               (ret, bytes, u) = f u todo
           in if ret < 1 then Some (ret, bytes, self, u)
              else Some (ret, bytes, self\<lparr>read_bytes_till_header := read_bytes_till_header self - nat ret\<rparr>, u))
        else
          (let buflen = (if bytes_till_eof self \<noteq> -1 then nat (bytes_till_eof self) else 1024);
               self = (if buf_read_raw self = None then self\<lparr>buf_read_raw_offset := 0, buf_read_raw_len := 0\<rparr> else self)
           in if \<not> mem (buf_read_raw_len self + buflen) then Some (-1, [], self, u)
              else
                (let raw = (case buf_read_raw self of None \<Rightarrow> [] | Some s \<Rightarrow> s);
                     (ret, bytes, u) = f u buflen
                 in if ret < 1 then
                      Some (ret, [], self\<lparr>buf_read_raw := (if buf_read_raw_len self = 0 then None else Some raw)\<rparr>, u)
                    else
                      (let raw = take (buf_read_raw_len self) raw @ bytes;
                           self = self\<lparr>buf_read_raw := Some raw, buf_read_raw_len := buf_read_raw_len self + nat ret\<rparr>;
                           avail = buf_read_raw_len self - buf_read_raw_offset self
                       in if avail = read_bytes_till_header self then
                            Some (0, [], (raw_free self)\<lparr>read_bytes_till_header := 0\<rparr>, u)
                          else
                            (let self = (if avail > read_bytes_till_header self
                                   then self\<lparr>buf_read_raw_offset := buf_read_raw_offset self + read_bytes_till_header self,
                                             read_bytes_till_header := 0\<rparr>
                                   else self);
                                 self = (if bytes_till_eof self \<noteq> -1 \<and> read_bytes_till_header self = 0
                                         then self\<lparr>bytes_till_eof := 0\<rparr> else self)
                             in if bytes_till_eof self = 0 then Some (0, [], self, u)
                                else
                                  (let off = buf_read_raw_offset self;
                                       (ext, cr, lf) = scan_header 0 (-1) (-1) (int off)
                                         (take (buf_read_raw_len self - off) (drop off raw))
                                   in if lf = -1 then Some (0, [], self, u)
                                      else do {
                                        (ret, self) \<leftarrow> enc_chunked_header mem self raw ext cr lf;
                                        Some (ret, [], self, u) }))))))"

definition process_read ::
  "(nat \<Rightarrow> bool) \<Rightarrow> httpp_encoding \<Rightarrow> nat \<Rightarrow> 'u read_cb option \<Rightarrow> 'u \<Rightarrow> (int \<times> string \<times> httpp_encoding \<times> 'u) option" where
  "process_read mem self len cb u =
     (case process self of Identity \<Rightarrow> Some (enc_identity_read self len cb u)
      | Chunked \<Rightarrow> enc_chunked_read mem self len cb u)"

text \<open>Moving decoded bytes into the caller's buffer.\<close>

definition copy_decoded :: "httpp_encoding \<Rightarrow> nat \<Rightarrow> int \<times> string \<times> httpp_encoding" where
  "copy_decoded self len =
     (let (ret, bytes, b, off, blen) =
        copy_buffer True (buf_read_decoded self) (buf_read_decoded_offset self) (buf_read_decoded_len self) len
      in (ret, bytes, self\<lparr>buf_read_decoded := b, buf_read_decoded_offset := off, buf_read_decoded_len := blen\<rparr>))"

text \<open>\<open>httpp_encoding_read\<close>: the result and the bytes stored in the caller's buffer (\<open>buf\<close>: it is not NULL).\<close>

definition httpp_encoding_read ::
  "(nat \<Rightarrow> bool) \<Rightarrow> httpp_encoding option \<Rightarrow> bool \<Rightarrow> nat \<Rightarrow> 'u read_cb option \<Rightarrow> 'u \<Rightarrow>
   (int \<times> string \<times> httpp_encoding option \<times> 'u) option" where
  "httpp_encoding_read mem self buf len cb u =
     (case self of None \<Rightarrow> Some (-1, [], None, u)
      | Some s \<Rightarrow>
        if \<not> buf then Some (-1, [], Some s, u)
        else if len = 0 then Some (0, [], Some s, u)
        else
          (let (ret, bytes, s) = copy_decoded s len
           in if ret = int len then Some (ret, bytes, Some s, u)
              else
                (let dn = (if ret > 0 then ret else 0);
                     len = len - nat dn
                 in do {
                      (ret, more, s, u) \<leftarrow> process_read mem s len cb u;
                      if ret = -1 \<and> dn \<noteq> 0 then Some (dn, bytes, Some s, u)
                      else if ret = -1 then Some (-1, [], Some s, u)
                      else
                        (let dn = dn + ret;
                             bytes = bytes @ more;
                             len = nat (int len - ret)
                         in if len \<noteq> 0 then
                              (let (ret, more, s) = copy_decoded s len
                               in if ret > 0 then Some (dn + ret, bytes @ more, Some s, u)
                                  else Some (dn, bytes, Some s, u))
                            else Some (dn, bytes, Some s, u)) })))"

definition httpp_encoding_eof :: "httpp_encoding option \<Rightarrow> ('u \<Rightarrow> int) option \<Rightarrow> 'u \<Rightarrow> int" where
  "httpp_encoding_eof self cb u =
     (case self of None \<Rightarrow> -1
      | Some s \<Rightarrow>
        if buf_read_decoded_len s - buf_read_decoded_offset s \<noteq> 0 then 0
        else if bytes_till_eof s = 0 then 1
        else case cb of Some f \<Rightarrow> f u | None \<Rightarrow> 0)"

definition httpp_encoding_get_meta :: "httpp_encoding option \<Rightarrow> httpp_meta list \<times> httpp_encoding option" where
  "httpp_encoding_get_meta self =
     (case self of None \<Rightarrow> ([], None) | Some s \<Rightarrow> (meta_read s, Some (s\<lparr>meta_read := []\<rparr>)))"

section \<open>Writing the chunked coding\<close>

definition httpp_encoding_pending :: "httpp_encoding option \<Rightarrow> int" where
  "httpp_encoding_pending self =
     (case self of None \<Rightarrow> -1
      | Some s \<Rightarrow> if buf_write_encoded s = None then 0
                  else int (buf_write_encoded_len s - buf_write_encoded_offset s))"

definition httpp_encoding_append_meta :: "httpp_encoding option \<Rightarrow> httpp_meta list \<Rightarrow> int \<times> httpp_encoding option" where
  "httpp_encoding_append_meta self meta =
     (case self of None \<Rightarrow> (-1, None)
      | Some s \<Rightarrow> (case httpp_encoding_meta_append (Some (meta_write s)) meta of
          (r, ms) \<Rightarrow> (r, Some (s\<lparr>meta_write := the ms\<rparr>))))"

text \<open>The length of a value with its quotes escaped.\<close>

definition enc_chunked_write_extensions_valuelen :: "httpp_meta \<Rightarrow> nat" where
  "enc_chunked_write_extensions_valuelen cur =
     (case mvalue cur of None \<Rightarrow> 0
      | Some v \<Rightarrow> if value_len cur = 0 then 0
                  else value_len cur + length (filter (\<lambda>c. c = DQUOTE) (take (value_len cur) v)))"

definition skip_meta :: "httpp_meta \<Rightarrow> bool" where
  "skip_meta cur \<longleftrightarrow> mkey cur = None \<or> (value_len cur \<noteq> 0 \<and> mvalue cur = None)"

text \<open>The size of the buffer that is allocated.\<close>

fun ext_buflen :: "httpp_meta list \<Rightarrow> nat" where
  "ext_buflen [] = 1"
| "ext_buflen (cur # ms) =
     (if skip_meta cur then ext_buflen ms
      else 4 + length (the (mkey cur)) + enc_chunked_write_extensions_valuelen cur + ext_buflen ms)"

fun quote_value :: "string \<Rightarrow> string" where
  "quote_value [] = []"
| "quote_value (c # cs) = (if c = DQUOTE then BSLASH # c # quote_value cs else c # quote_value cs)"

fun ext_text :: "httpp_meta list \<Rightarrow> string" where
  "ext_text [] = []"
| "ext_text (cur # ms) =
     (if skip_meta cur then ext_text ms
      else SEMI # the (mkey cur) @
        (if value_len cur \<noteq> 0
         then CHR ''='' # DQUOTE # quote_value (take (value_len cur) (the (mvalue cur))) @ [DQUOTE] else []) @
        ext_text ms)"

text \<open>The text, with \<open>meta_write\<close> taken over; \<open>None\<close> when there is nothing to write or no memory.\<close>

definition enc_chunked_write_extensions :: "(nat \<Rightarrow> bool) \<Rightarrow> httpp_encoding \<Rightarrow> string option \<times> httpp_encoding" where
  "enc_chunked_write_extensions mem self =
     (if meta_write self = [] then (None, self)
      else if \<not> mem (ext_buflen (meta_write self)) then (None, self)
      else (Some (ext_text (meta_write self)), self\<lparr>meta_write := []\<rparr>))"

text \<open>The text of the extensions is used as a C string (\<open>strlen\<close> and \<open>%s\<close>): it ends at its first zero byte, which a value may hold.\<close>

definition enc_chunked_write ::
  "(nat \<Rightarrow> bool) \<Rightarrow> httpp_encoding \<Rightarrow> string option \<Rightarrow> nat \<Rightarrow> 'u write_cb option \<Rightarrow> 'u \<Rightarrow> int \<times> httpp_encoding \<times> 'u" where
  "enc_chunked_write mem self buf len cb u =
     (let len = (if buf = None then 0 else len)
      in if httpp_encoding_pending (Some self) > 0 then (0, self, u)
         else
           (let len = (if len > 1048576 then 1048576 else len);
                encoded_length = print_hex len;
                (extensions, self) = enc_chunked_write_extensions mem self;
                exts = (case extensions of None \<Rightarrow> [] | Some e \<Rightarrow> cstr e);
                header_length = length encoded_length + length exts + 2;
                total_chunk_size = header_length + len + 2 + (if buf = None then 2 else 0)
            in if \<not> mem total_chunk_size then (-1, self\<lparr>buf_write_encoded := None\<rparr>, u)
               else
                 (int len,
                  self\<lparr>buf_write_encoded := Some (encoded_length @ exts @ [CR, LF] @
                         take len (case buf of None \<Rightarrow> [] | Some b \<Rightarrow> b) @
                         (if buf = None then [CR, LF, CR, LF] else [CR, LF])),
                       buf_write_encoded_offset := 0, buf_write_encoded_len := total_chunk_size\<rparr>, u)))"

definition process_write ::
  "(nat \<Rightarrow> bool) \<Rightarrow> httpp_encoding \<Rightarrow> string option \<Rightarrow> nat \<Rightarrow> 'u write_cb option \<Rightarrow> 'u \<Rightarrow> int \<times> httpp_encoding \<times> 'u" where
  "process_write mem self buf len cb u =
     (case process self of Identity \<Rightarrow> enc_identity_write self buf len cb u
      | Chunked \<Rightarrow> enc_chunked_write mem self buf len cb u)"

definition httpp_encoding_write ::
  "(nat \<Rightarrow> bool) \<Rightarrow> httpp_encoding option \<Rightarrow> string option \<Rightarrow> nat \<Rightarrow> 'u write_cb option \<Rightarrow> 'u \<Rightarrow>
   int \<times> httpp_encoding option \<times> 'u" where
  "httpp_encoding_write mem self buf len cb u =
     (case (self, cb) of
        (Some s, Some f) \<Rightarrow>
          (let (s, u) = flush_output s cb u;
               (ret, s, u) = process_write mem s buf len cb u;
               (s, u) = flush_output s cb u
           in (ret, Some s, u))
      | _ \<Rightarrow> (-1, self, u))"

end
