(* ===== verification/Encoding_Stream.thy ===== *)
theory Encoding_Stream
  imports Encoding_Defs
begin

text \<open>
  The proofs about the chunked transfer coding: hexadecimal lengths, chunk extensions, the writer (\<open>pend\<close> is what waits for
  the backend, \<open>takes\<close> the contract of the backend's write callback), and the reader (\<open>stream_inv\<close> relates an object and the
  bytes still to come to the payload still to be handed out, \<open>delivers\<close> is the contract of the read callback).
\<close>

section \<open>Numbers\<close>

lemma hex_value_digit: "d < 16 \<Longrightarrow> hex_value (hex_digit d) = Some d"
  by (auto simp: hex_value_def hex_digit_def Let_def)

lemma hex_digit_plain:
  assumes "d < 16"
  shows "hex_digit d \<noteq> NUL" "hex_digit d \<noteq> CR" "hex_digit d \<noteq> LF" "hex_digit d \<noteq> DQUOTE" "hex_digit d \<noteq> SEMI"
    "\<not> is_space (hex_digit d)" "hex_digit d \<noteq> CHR ''-''" "hex_digit d \<noteq> CHR ''+''" "hex_digit d \<noteq> CHR ''x''" "hex_digit d \<noteq> CHR ''X''"
  using assms by (auto simp: hex_digit_def is_space_def Let_def dest!: arg_cong [where f = "of_char :: char \<Rightarrow> nat"])

lemma print_hex_digits: "set (print_hex n) \<subseteq> hex_digit ` {..<16}"
proof (induction n rule: print_hex.induct)
  case (1 n)
  then show ?case by (subst print_hex.simps) auto
qed

lemma print_hex_not_Nil [simp]: "print_hex n \<noteq> []"
  by (subst print_hex.simps) simp

lemma hex_digits_append:
  "\<forall>c\<in>set cs. hex_value c \<noteq> None \<Longrightarrow> hex_digits acc (cs @ ds) = hex_digits (hex_digits acc cs) ds"
  by (induction cs arbitrary: acc) (auto split: option.splits)

lemma hex_digits_print: "n < 2 ^ 64 \<Longrightarrow> hex_digits 0 (print_hex n) = n"
proof (induction n rule: print_hex.induct)
  case (1 n)
  show ?case
  proof (cases "n < 16")
    case True
    then show ?thesis by (subst print_hex.simps) (simp add: hex_value_digit)
  next
    case False
    have "\<forall>c\<in>set (print_hex (n div 16)). hex_value c \<noteq> None"
      using print_hex_digits [of "n div 16"] by (auto simp: hex_value_digit)
    moreover have "n div 16 < 2 ^ 64" using "1.prems" by simp
    ultimately show ?thesis
      using False 1 by (subst print_hex.simps) (simp add: hex_digits_append hex_value_digit)
  qed
qed

lemma hex_digits_stop: "hex_value c = None \<Longrightarrow> \<forall>c\<in>set ds. hex_value c \<noteq> None \<Longrightarrow> hex_digits acc (ds @ c # r) = hex_digits acc ds"
  by (subst hex_digits_append) auto

lemma hex_prefix_digits: "\<forall>c\<in>set ds. c \<noteq> CHR ''x'' \<and> c \<noteq> CHR ''X'' \<Longrightarrow> hex_prefix ds = ds"
  unfolding hex_prefix_def using nth_mem [of 1 ds] by fastforce

lemma scan_print_hex:
  assumes "n < 2 ^ 64"
  shows "scan_hex (print_hex n @ NUL # rest) = Some n"
proof -
  have d: "\<forall>c\<in>set (print_hex n). c \<noteq> NUL \<and> \<not> is_space c \<and> c \<noteq> CHR ''-'' \<and> c \<noteq> CHR ''+'' \<and> c \<noteq> CHR ''x'' \<and> c \<noteq> CHR ''X'' \<and> hex_value c \<noteq> None"
  proof
    fix c
    assume "c \<in> set (print_hex n)"
    then obtain d where "c = hex_digit d" "d < 16" using print_hex_digits [of n] by auto
    then show "c \<noteq> NUL \<and> \<not> is_space c \<and> c \<noteq> CHR ''-'' \<and> c \<noteq> CHR ''+'' \<and> c \<noteq> CHR ''x'' \<and> c \<noteq> CHR ''X'' \<and> hex_value c \<noteq> None"
      by (simp add: hex_digit_plain hex_value_digit)
  qed
  have t: "takeWhile (\<lambda>c. c \<noteq> NUL) (print_hex n @ NUL # rest) = print_hex n"
    using d by (subst takeWhile_append2) auto
  obtain c cs where p: "print_hex n = c # cs" by (cases "print_hex n") auto
  then have h: "c \<noteq> CHR ''-''" "c \<noteq> CHR ''+''" "\<not> is_space c" "hex_value c \<noteq> None" using d by auto
  have hp: "hex_prefix (c # cs) = c # cs" using d p by (intro hex_prefix_digits) auto
  have v: "hex_digits 0 (c # cs) = n" using hex_digits_print [OF assms] unfolding p .
  have "takeWhile (\<lambda>c. c \<noteq> NUL) (print_hex n @ NUL # rest) = c # cs" using t unfolding p .
  moreover have "dropWhile is_space (c # cs) = c # cs" using h by simp
  ultimately show ?thesis
    unfolding scan_hex_def Let_def using h hp v by (simp del: hex_digits.simps)
qed

section \<open>Extensions\<close>

lemma quote_value_append: "quote_value (xs @ ys) = quote_value xs @ quote_value ys"
  by (induction xs) auto

lemma length_quote_value: "length (quote_value v) = length v + length (filter (\<lambda>c. c = DQUOTE) v)"
  by (induction v) auto

text \<open>The buffer that \<open>__enc_chunked_write_extensions\<close> allocates is large enough for the text and its terminator.\<close>

lemma ext_text_fits:
  assumes "\<forall>m\<in>set ms. \<forall>v. mvalue m = Some v \<longrightarrow> value_len m \<le> length v"
  shows "length (ext_text ms) + 1 \<le> ext_buflen ms"
  using assms
proof (induction ms)
  case (Cons m ms)
  show ?case
  proof (cases "skip_meta m \<or> value_len m = 0")
    case True
    with Cons show ?thesis by auto
  next
    case False
    then obtain v where v: "mvalue m = Some v" by (auto simp: skip_meta_def)
    with Cons.prems have "length (take (value_len m) v) = value_len m" by auto
    with False v Cons show ?thesis
      by (auto simp: length_quote_value enc_chunked_write_extensions_valuelen_def)
  qed
qed simp

text \<open>Reading back a quoted value.\<close>

lemma ext_value_len_quoted:
  assumes "BSLASH \<notin> set v"
  shows "ext_value_len 1 (quote_value v @ DQUOTE # rest) n = n + length (quote_value v) + 1"
  using assms by (induction v arbitrary: n) (auto simp: Let_def)

lemma ext_decode_quoted:
  assumes "BSLASH \<notin> set v"
  shows "ext_decode p 1 (quote_value v @ DQUOTE # rest) (length (quote_value v) + 1) acc = Some (acc @ v)"
  using assms by (induction v arbitrary: acc) (auto simp: Let_def)

text \<open>An entry that the reader gets back: a key and a value, no \<open>=\<close> in the key, no backslash in the value.\<close>

definition plain_meta :: "httpp_meta \<Rightarrow> bool" where
  "plain_meta m \<longleftrightarrow> (\<exists>k v. m = \<lparr>mkey = Some k, mvalue = Some v, value_len = length v\<rparr> \<and> v \<noteq> [] \<and>
     CHR ''='' \<notin> set k \<and> BSLASH \<notin> set v)"

lemma ext_entry_text:
  assumes "CHR ''='' \<notin> set k" "BSLASH \<notin> set v" "\<And>n. mem n"
    "len = length k + length (quote_value v) + 3 + n"
  shows "ext_entry mem (k @ CHR ''='' # DQUOTE # quote_value v @ DQUOTE # rest) len =
    Some (\<lparr>mkey = Some k, mvalue = Some v, value_len = length v\<rparr>, rest, n, True)"
proof -
  let ?p = "k @ CHR ''='' # DQUOTE # quote_value v @ DQUOTE # rest"
  have tk: "take len ?p = k @ CHR ''='' # DQUOTE # quote_value v @ DQUOTE # take n rest"
    using assms(4) by (simp add: take_Cons')
  have kl: "length (takeWhile (\<lambda>c. c \<noteq> CHR ''='') (take len ?p)) = length k"
    unfolding tk using assms(1) by (subst takeWhile_append2) auto
  have tq: "take (len - length k - 1) (DQUOTE # quote_value v @ DQUOTE # rest) = DQUOTE # quote_value v @ DQUOTE # take n rest"
    using assms(4) by (simp add: take_Cons')
  have vl: "ext_value_len 0 (take (len - length k - 1) (DQUOTE # quote_value v @ DQUOTE # rest)) 0 = length (quote_value v) + 2"
    unfolding tq using ext_value_len_quoted [OF assms(2), of "take n rest" 1] by simp
  have dr: "drop (length (quote_value v) + 2) (DQUOTE # quote_value v @ DQUOTE # rest) = rest" by simp
  have dec: "ext_decode rest 0 (DQUOTE # quote_value v @ DQUOTE # rest) (length (quote_value v) + 2) [] = Some v"
    using ext_decode_quoted [OF assms(2), of rest rest "[]"] by simp
  show ?thesis
    unfolding ext_entry_def ext_value_def Let_def kl using assms(3,4) vl dr dec by simp
qed

lemma ext_read_text:
  assumes "\<forall>m\<in>set ms. plain_meta m" "\<And>n. mem n"
  shows "enc_chunked_read_extentions mem ns (ext_text ms @ rest) (length (ext_text ms)) = Some (ns @ ms)"
  using assms(1)
proof (induction ms arbitrary: ns)
  case Nil
  then show ?case by (subst enc_chunked_read_extentions.simps) simp
next
  case (Cons m ms)
  then obtain k v where m: "m = \<lparr>mkey = Some k, mvalue = Some v, value_len = length v\<rparr>" "v \<noteq> []"
    "CHR ''='' \<notin> set k" "BSLASH \<notin> set v" by (auto simp: plain_meta_def)
  have tx: "ext_text (m # ms) = SEMI # k @ CHR ''='' # DQUOTE # quote_value v @ DQUOTE # ext_text ms"
    using m by (simp add: skip_meta_def)
  have "ext_entry mem (k @ CHR ''='' # DQUOTE # quote_value v @ DQUOTE # ext_text ms @ rest) (length (ext_text (m # ms)) - 1) =
      Some (m, ext_text ms @ rest, length (ext_text ms), True)"
    unfolding m(1) by (rule ext_entry_text [OF m(3,4) assms(2)]) (simp add: tx [unfolded m(1)] del: ext_text.simps)
  with Cons show ?case
    unfolding tx by (subst enc_chunked_read_extentions.simps) simp
qed

section \<open>Writing\<close>

text \<open>The bytes that wait for the backend, and the state of that buffer.\<close>

definition pend :: "httpp_encoding \<Rightarrow> string" where
  "pend s = (case buf_write_encoded s of None \<Rightarrow> [] | Some b \<Rightarrow> drop (buf_write_encoded_offset s) b)"

definition write_wf :: "httpp_encoding \<Rightarrow> bool" where
  "write_wf s \<longleftrightarrow> (\<forall>b. buf_write_encoded s = Some b \<longrightarrow>
     buf_write_encoded_len s = length b \<and> buf_write_encoded_offset s < length b)"

text \<open>A backend that logs what it takes: some of the bytes it is offered, from the front.\<close>

definition takes :: "('u \<Rightarrow> string) \<Rightarrow> 'u write_cb \<Rightarrow> bool" where
  "takes log f \<longleftrightarrow> (\<forall>u s ret u'. f u s = (ret, u') \<longrightarrow>
     ret \<le> int (length s) \<and> log u' = log u @ take (nat ret) s)"

lemma flush_conserves:
  assumes "takes log f" "write_wf s" "flush_output s (Some f) u = (s', u')"
  shows "log u' @ pend s' = log u @ pend s \<and> write_wf s' \<and> process s' = process s \<and> meta_write s' = meta_write s"
proof (cases "buf_write_encoded s")
  case None
  with assms(3) show ?thesis using assms(2) by (auto simp: flush_output_def)
next
  case (Some b)
  have wf: "buf_write_encoded_len s = length b" "buf_write_encoded_offset s < length b"
    using assms(2) Some by (auto simp: write_wf_def)
  let ?d = "drop (buf_write_encoded_offset s) b"
  obtain ret u1 where f: "f u ?d = (ret, u1)" by fastforce
  then have l: "ret \<le> int (length ?d)" "log u1 = log u @ take (nat ret) ?d" using assms(1) unfolding takes_def by blast+
  have tk: "take (length b - buf_write_encoded_offset s) ?d = ?d" by simp
  show ?thesis
  proof (cases "ret > 0")
    case False
    with assms(3) f wf Some tk l assms(2) show ?thesis by (auto simp: flush_output_def)
  next
    case True
    have d: "take (nat ret) ?d @ drop (buf_write_encoded_offset s + nat ret) b = ?d"
      by (metis append_take_drop_id drop_drop add.commute)
    show ?thesis
    proof (cases "buf_write_encoded_offset s + nat ret = length b")
      case eq: True
      then have "take (nat ret) ?d = ?d" by simp
      with assms(3) f wf Some tk l eq True show ?thesis by (auto simp: flush_output_def pend_def write_wf_def)
    next
      case neq: False
      with l(1) True wf(2) have "buf_write_encoded_offset s + nat ret < length b" by auto
      with assms(3) f wf Some tk l neq True d show ?thesis by (auto simp: flush_output_def pend_def write_wf_def)
    qed
  qed
qed

text \<open>The chunk that a call writes, and when it does.\<close>

definition chunk :: "string \<Rightarrow> string \<Rightarrow> string" where
  "chunk hdr body = hdr @ [CR, LF] @ body @ [CR, LF]"

lemma chunked_write_cases:
  assumes "write_wf s" "\<forall>b. buf = Some b \<longrightarrow> len \<le> length b" "enc_chunked_write mem s buf len cb u = (ret, s', u')"
  defines "n \<equiv> (if buf = None then 0 else min len 1048576)"
  shows "u' = u \<and> write_wf s' \<and> process s' = process s \<and> meta_write s' \<in> {meta_write s, []} \<and>
    (ret = 0 \<and> s' = s \<and> pend s \<noteq> [] \<or>
     ret = -1 \<and> pend s = [] \<and> pend s' = [] \<or>
     ret = int n \<and> pend s = [] \<and>
       pend s' = chunk (print_hex n @ (case fst (enc_chunked_write_extensions mem s) of None \<Rightarrow> [] | Some e \<Rightarrow> cstr e))
         (take n (case buf of None \<Rightarrow> [] | Some b \<Rightarrow> b)) @ (if buf = None then [CR, LF] else []))"
proof (cases "pend s = []")
  case False
  then have "httpp_encoding_pending (Some s) > 0"
    using assms(1) by (auto simp: pend_def httpp_encoding_pending_def write_wf_def split: option.splits)
  with assms(1,3) False show ?thesis by (auto simp: enc_chunked_write_def)
next
  case True
  then have none: "buf_write_encoded s = None"
    using assms(1) by (auto simp: pend_def write_wf_def split: option.splits)
  obtain ex s1 where e: "enc_chunked_write_extensions mem s = (ex, s1)" by fastforce
  then have s1: "buf_write_encoded s1 = None" "process s1 = process s" "meta_write s1 \<in> {meta_write s, []}"
    using none by (auto simp: enc_chunked_write_extensions_def split: if_splits)
  have len: "(if (if buf = None then 0 else len) > 1048576 then 1048576 else (if buf = None then 0 else len)) = n"
    by (auto simp: n_def)
  have "length (take n (case buf of None \<Rightarrow> [] | Some b \<Rightarrow> b)) = n"
    using assms(2) by (auto simp: n_def split: option.splits)
  with assms(3) none e s1 True show ?thesis
    unfolding enc_chunked_write_def Let_def len
    by (auto simp: httpp_encoding_pending_def chunk_def pend_def write_wf_def split: if_splits option.splits)
qed


section \<open>Reading\<close>

definition raw_left :: "httpp_encoding \<Rightarrow> string" where
  "raw_left s = (case buf_read_raw s of None \<Rightarrow> [] | Some b \<Rightarrow> drop (buf_read_raw_offset s) b)"

definition dec_left :: "httpp_encoding \<Rightarrow> string" where
  "dec_left s = (case buf_read_decoded s of None \<Rightarrow> [] | Some b \<Rightarrow> drop (buf_read_decoded_offset s) b)"

definition read_wf :: "httpp_encoding \<Rightarrow> bool" where
  "read_wf s \<longleftrightarrow>
     (\<forall>b. buf_read_raw s = Some b \<longrightarrow> buf_read_raw_len s = length b \<and> buf_read_raw_offset s \<le> length b) \<and>
     (\<forall>b. buf_read_decoded s = Some b \<longrightarrow> buf_read_decoded_len s = length b \<and> buf_read_decoded_offset s < length b)"

text \<open>A backend that delivers the bytes of a stream: \<open>src u\<close> is what it still has. It returns between 1 and the
  number of bytes asked for, or 0 or -1 when there are none at the moment.\<close>

definition delivers :: "('u \<Rightarrow> string) \<Rightarrow> 'u read_cb \<Rightarrow> bool" where
  "delivers src f \<longleftrightarrow> (\<forall>u n ret bytes u'. f u n = (ret, bytes, u') \<longrightarrow>
     -1 \<le> ret \<and> ret \<le> int n \<and> bytes = take (nat ret) (src u) \<and> length bytes = nat ret \<and> src u' = drop (nat ret) (src u))"

text \<open>A chunk without extensions whose header gives the length of its body; data chunks are not empty.\<close>

definition chunk_ok :: "string \<times> string \<Rightarrow> bool" where
  "chunk_ok = (\<lambda>(hdr, body). body \<noteq> [] \<and> length body + 2 < 2 ^ 64 \<and> hdr \<noteq> [] \<and>
     set hdr \<inter> {DQUOTE, SEMI, CR, LF} = {} \<and> (\<forall>rest. scan_hex (hdr @ NUL # rest) = Some (length body)))"

definition chunks :: "(string \<times> string) list \<Rightarrow> string" where
  "chunks cs = concat (map (\<lambda>(hdr, body). chunk hdr body) cs)"

definition bodies :: "(string \<times> string) list \<Rightarrow> string" where
  "bodies cs = concat (map snd cs)"

lemma chunks_simps [simp]:
  "chunks [] = []" "chunks ((h, b) # cs) = h @ [CR, LF] @ b @ [CR, LF] @ chunks cs"
  by (simp_all add: chunks_def chunk_def)

lemma bodies_simps [simp]: "bodies [] = []" "bodies ((h, b) # cs) = b @ bodies cs"
  by (simp_all add: bodies_def)

text \<open>The abstraction: \<open>stream_inv s z P\<close> when \<open>P\<close> is the payload that is still to be handed to the caller, given the
  object \<open>s\<close> and the bytes \<open>z\<close> that the backend still has.\<close>

definition stream_inv :: "httpp_encoding \<Rightarrow> string \<Rightarrow> string \<Rightarrow> bool" where
  "stream_inv s z P \<longleftrightarrow> read_wf s \<and> process s = Chunked \<and> bytes_till_eof s = -1 \<and>
     (\<exists>cs. list_all chunk_ok cs \<and>
       ((\<exists>b. 2 < read_bytes_till_header s \<and> buf_read_raw s = None \<and> read_bytes_till_header s = length b + 2 \<and>
          z = b @ [CR, LF] @ chunks cs \<and> P = dec_left s @ b @ bodies cs) \<or>
        (read_bytes_till_header s \<le> 2 \<and>
          raw_left s @ z = drop (2 - read_bytes_till_header s) [CR, LF] @ chunks cs \<and> P = dec_left s @ bodies cs)))"

lemma stream_inv_init: "list_all chunk_ok cs \<Longrightarrow> stream_inv (enc_zero Chunked) (chunks cs) (bodies cs)"
  by (auto simp: stream_inv_def enc_zero_def read_wf_def raw_left_def dec_left_def)

subsection \<open>The end of a header\<close>

lemma scan_header_plain:
  assumes "set h \<inter> {DQUOTE, SEMI, CR, LF} = {}"
  shows "scan_header 0 (-1) cr i (h @ r) = scan_header 0 (-1) cr (i + int (length h)) r"
  using assms by (induction h arbitrary: i) (auto simp: algebra_simps)

lemma scan_header_complete:
  assumes "set h \<inter> {DQUOTE, SEMI, CR, LF} = {}"
  shows "scan_header 0 (-1) (-1) i (h @ CR # LF # r) = (-1, i + int (length h), i + int (length h) + 1)"
  by (simp add: scan_header_plain [OF assms])

lemma scan_header_partial:
  assumes "set h \<inter> {DQUOTE, SEMI, CR, LF} = {}" "length r < length h + 2" "r @ z = h @ CR # LF # y"
  shows "snd (snd (scan_header 0 (-1) (-1) i r)) = -1"
proof (cases "length r \<le> length h")
  case True
  then have "r = take (length r) h" using assms(3) by (metis append_eq_append_conv_if take_append take_all_iff append_take_drop_id append_eq_conv_conj)
  then have "set r \<inter> {DQUOTE, SEMI, CR, LF} = {}" using assms(1) set_take_subset [of "length r" h] by fastforce
  then show ?thesis using scan_header_plain [of r "-1" i "[]"] by simp
next
  case False
  with assms(2) have "length r = length h + 1" by simp
  then have "r = h @ [CR]" using assms(3)
    by (metis append_eq_conv_conj length_append_singleton append.assoc append_Cons append_Nil Suc_eq_plus1)
  then show ?thesis using scan_header_plain [OF assms(1)] by simp
qed


subsection \<open>A complete header\<close>

lemma append_longerE:
  assumes "a @ b = c @ d" "length c < length a"
  obtains x where "a = c @ x" "x @ b = d" "x \<noteq> []"
  using assms by (auto simp: append_eq_append_conv2)

lemma mod64_rest: "(n + 2 :: nat) < 2 ^ 64 \<Longrightarrow> k \<le> n \<Longrightarrow> (n + 2 + 2 ^ 64 - k) mod 2 ^ 64 = n + 2 - k"
proof -
  assume a: "n + 2 < 2 ^ 64" "k \<le> n"
  then have "n + 2 + 2 ^ 64 - k = (n + 2 - k) + 2 ^ 64" by linarith
  then have "(n + 2 + 2 ^ 64 - k) mod 2 ^ 64 = (n + 2 - k) mod 2 ^ 64" by (simp only: mod_add_self2)
  also have "\<dots> = n + 2 - k" using a by (intro mod_less) linarith
  finally show ?thesis .
qed

text \<open>The object after the header of a chunk of \<open>n\<close> bytes; \<open>raw\<close> is the raw buffer with the header terminated and \<open>off\<close>
  where the body starts.\<close>

definition header_result :: "httpp_encoding \<Rightarrow> string \<Rightarrow> nat \<Rightarrow> nat \<Rightarrow> httpp_encoding" where
  "header_result s raw off n =
     (let s1 = s\<lparr>buf_read_raw := Some raw, buf_read_raw_offset := off\<rparr>;
          k = length raw - off
      in if k = 0 then (raw_free s1)\<lparr>read_bytes_till_header := n + 2\<rparr>
         else if k \<le> n then (raw_free s1)\<lparr>buf_read_decoded := Some raw, buf_read_decoded_offset := off,
           buf_read_decoded_len := length raw, read_bytes_till_header := n + 2 - k\<rparr>
         else
           (let s2 = s1\<lparr>buf_read_decoded := Some (take n (drop off raw)), buf_read_decoded_offset := 0,
                 buf_read_decoded_len := n, buf_read_raw_offset := off + n, read_bytes_till_header := 2\<rparr>
            in if k - n < 2 then s2
               else (let s3 = s2\<lparr>buf_read_raw_offset := off + n + 2, read_bytes_till_header := 0\<rparr>
                     in if k - n = 2 then raw_free s3 else s3)))"

lemma chunked_body_result:
  assumes eof: "bytes_till_eof s = -1" and raw: "buf_read_raw s = Some raw" and len: "buf_read_raw_len s = length raw"
    and off: "nat lf + 1 = off" "off \<le> length raw" and n: "0 < n" "n + 2 < 2 ^ 64" and mem: "\<And>n. mem n"
  shows "enc_chunked_body mem s raw n lf = (0, header_result s raw off n)"
proof -
  define r where "r = length raw - off"
  then have l: "length raw = off + r" using off by simp
  have nz: "(n = 0) = False" using n by simp
  have s: "s = s\<lparr>buf_read_raw := Some raw\<rparr>" using raw by simp
  have m1: "(n + 2) mod 2 ^ 64 = n + 2" using n by simp
  show ?thesis
  proof (cases "r = 0")
    case True
    then show ?thesis
      unfolding enc_chunked_body_def header_result_def Let_def nz off(1) m1
      by (subst s) (simp add: l len raw_free_def del: power_numeral)
  next
    case False
    show ?thesis
    proof (cases "r \<le> n")
      case True
      with False mod64_rest [OF n(2) True] show ?thesis
        unfolding enc_chunked_body_def header_result_def Let_def nz off(1)
        by (subst s) (simp add: l len raw_free_def del: power_numeral)
    next
      case gt: False
      have c: "(off = off + r) = False" "off + r - off = r" "(r = 0) = False" "(r \<le> n) = False" "off + r - (off + n) = r - n"
        "(2 \<le> r - n) = (\<not> r - n < 2)" "off + r - (off + n + 2) = 0 \<longleftrightarrow> r - n \<le> 2"
        using False gt by auto
      have d: "(r - n \<le> 2) = (r - n = 2)" if "\<not> r - n < 2" using that by auto
      show ?thesis
        using eof raw len
        unfolding enc_chunked_body_def header_result_def Let_def nz off(1) if_False
        by (cases s; cases "r - n < 2"; cases "r - n = 2")
          (simp_all only: c d l mem less_irrefl order_refl not_False_eq_True raw_free_def httpp_encoding.select_convs httpp_encoding.update_convs if_False if_True simp_thms)
    qed
  qed
qed

lemma header_result_inv:
  assumes s: "process s = Chunked" "bytes_till_eof s = -1" "buf_read_decoded s = None"
      "buf_read_raw_len s = length raw" "off \<le> length raw"
    and cs: "list_all chunk_ok cs" and rz: "drop off raw @ z = b @ [CR, LF] @ chunks cs" and b: "b \<noteq> []"
  shows "stream_inv (header_result s raw off (length b)) z (b @ bodies cs)"
proof -
  let ?r = "drop off raw" and ?s = "header_result s raw off (length b)"
  have l: "length raw = off + length ?r" using s(5) by simp
  have tr: "take (length ?r) (b @ [CR, LF] @ chunks cs) = ?r" "z = drop (length ?r) (b @ [CR, LF] @ chunks cs)"
    using rz by (metis append_eq_conv_conj)+
  consider (none) "?r = []" | (some) "?r \<noteq> []" "length ?r < length b" | (all) "length ?r = length b"
    | (more) "length ?r > length b" by linarith
  then show ?thesis
  proof cases
    case none
    then have e: "?s = (raw_free (s\<lparr>buf_read_raw := Some raw, buf_read_raw_offset := off\<rparr>))\<lparr>read_bytes_till_header := length b + 2\<rparr>"
      by (simp add: header_result_def)
    have "z = b @ [CR, LF] @ chunks cs" using rz none by simp
    with b cs s show ?thesis unfolding e by (auto simp: stream_inv_def read_wf_def raw_free_def dec_left_def)
  next
    case some
    then have e: "?s = (raw_free (s\<lparr>buf_read_raw := Some raw, buf_read_raw_offset := off\<rparr>))\<lparr>buf_read_decoded := Some raw,
        buf_read_decoded_offset := off, buf_read_decoded_len := length raw, read_bytes_till_header := length b + 2 - length ?r\<rparr>"
      by (simp add: header_result_def)
    have "?r @ drop (length ?r) b = b" using tr(1) some by (metis append_take_drop_id less_imp_le take_append take_all_iff diff_is_0_eq take_0 append_Nil2)
    moreover have "z = drop (length ?r) b @ [CR, LF] @ chunks cs" using tr(2) some by (simp only: drop_append) simp
    ultimately show ?thesis using cs s some unfolding e
      by (auto simp: stream_inv_def read_wf_def raw_free_def dec_left_def intro!: exI [of _ cs] exI [of _ "drop (length ?r) b"])
  next
    case all
    then have e: "?s = (raw_free (s\<lparr>buf_read_raw := Some raw, buf_read_raw_offset := off\<rparr>))\<lparr>buf_read_decoded := Some raw,
        buf_read_decoded_offset := off, buf_read_decoded_len := length raw, read_bytes_till_header := 2\<rparr>"
      using b by (simp add: header_result_def)
    have "?r = b" "z = [CR, LF] @ chunks cs" using rz all by (metis append_eq_append_conv)+
    with cs s b show ?thesis unfolding e
      by (auto simp: stream_inv_def read_wf_def raw_free_def dec_left_def raw_left_def intro!: exI [of _ cs])
  next
    case more
    obtain q where r: "?r = b @ q" and qz: "q @ z = [CR, LF] @ chunks cs"
      using rz more unfolding append_eq_append_conv2 by auto
    have dq: "drop (off + length b) raw = q" using r by (metis append_eq_conv_conj drop_drop add.commute)
    have lraw: "length raw = off + length b + length q" using l r by simp
    have "q \<noteq> []" using more r by auto
    define s2 where "s2 = s\<lparr>buf_read_raw := Some raw, buf_read_decoded := Some b, buf_read_decoded_offset := 0,
      buf_read_decoded_len := length b, buf_read_raw_offset := off + length b, read_bytes_till_header := 2\<rparr>"
    have e: "?s = (if length q < 2 then s2
        else if length q = 2 then raw_free (s2\<lparr>buf_read_raw_offset := off + length b + 2, read_bytes_till_header := 0\<rparr>)
        else s2\<lparr>buf_read_raw_offset := off + length b + 2, read_bytes_till_header := 0\<rparr>)"
      using r lraw b \<open>q \<noteq> []\<close> by (simp add: header_result_def s2_def Let_def)
    show ?thesis
    proof (cases "length q < 2")
      case True
      with e s cs qz dq lraw b show ?thesis
        by (auto simp: stream_inv_def s2_def read_wf_def dec_left_def raw_left_def intro!: exI [of _ cs])
    next
      case False
      then obtain q' where q': "q = CR # LF # q'" "q' @ z = chunks cs" using qz by (cases q; cases "tl q") auto
      then have "drop (off + length b + 2) raw = q'" using dq by (metis add.commute drop_drop drop_Suc_Cons drop0 numeral_2_eq_2)
      with e s cs q' lraw b show ?thesis
        by (cases "q' = []") (auto simp: stream_inv_def s2_def raw_free_def read_wf_def dec_left_def raw_left_def intro!: exI [of _ cs])
    qed
  qed
qed

lemma chunked_header_inv:
  assumes s: "process s = Chunked" "bytes_till_eof s = -1" "buf_read_decoded s = None"
      "buf_read_raw_offset s = length A" "buf_read_raw_len s = length (A @ h @ CR # LF # r)"
    and ok: "chunk_ok (h, b)" "list_all chunk_ok cs" and rz: "r @ z = b @ [CR, LF] @ chunks cs" and mem: "\<And>n. mem n"
  shows "\<exists>s'. enc_chunked_header mem s (A @ h @ CR # LF # r) (-1) (int (length A) + int (length h))
      (int (length A) + int (length h) + 1) = Some (0, s') \<and> stream_inv s' z (b @ bodies cs)"
proof -
  let ?raw = "A @ h @ NUL # LF # r" and ?off = "length A + length h + 2" and ?lf = "int (length A) + int (length h) + 1"
  have b: "b \<noteq> []" "length b + 2 < 2 ^ 64" and hx: "scan_hex (h @ NUL # rest) = Some (length b)" for rest
    using ok(1) by (auto simp: chunk_ok_def)
  define s1 where "s1 = s\<lparr>buf_read_raw := Some ?raw\<rparr>"
  have s1: "process s1 = Chunked" "bytes_till_eof s1 = -1" "buf_read_decoded s1 = None" "buf_read_raw s1 = Some ?raw"
    "buf_read_raw_len s1 = length ?raw" using s by (simp_all add: s1_def)
  have upd: "(A @ h @ CR # LF # r)[nat (int (length A) + int (length h)) := NUL] = ?raw"
    by (simp add: list_update_append nat_add_distrib)
  have dr: "drop (length A) ?raw = h @ NUL # LF # r" by simp
  have lf: "nat ?lf + 1 = ?off" by simp
  have body: "enc_chunked_body mem s1 ?raw (length b) ?lf = (0, header_result s1 ?raw ?off (length b))"
    by (rule chunked_body_result [OF s1(2,4,5) lf]) (use b mem in auto)
  have "enc_chunked_header mem s (A @ h @ CR # LF # r) (-1) (int (length A) + int (length h)) ?lf =
      Some (enc_chunked_body mem s1 ?raw (length b) ?lf)"
    by (simp add: enc_chunked_header_def upd dr hx s(4) s1_def)
  moreover have "stream_inv (header_result s1 ?raw ?off (length b)) z (b @ bodies cs)"
    by (rule header_result_inv [OF s1(1,2,3,5) _ ok(2)]) (use rz b in simp_all)
  ultimately show ?thesis unfolding body by blast
qed

subsection \<open>One call\<close>

lemma deliversD:
  assumes "delivers src f" "f u n = (ret, bytes, u')"
  shows "-1 \<le> ret" "ret \<le> int n" "src u = bytes @ src u'" "length bytes = nat ret"
  using assms unfolding delivers_def by (metis append_take_drop_id)+

text \<open>The search for a header and its processing; \<open>z\<close> are the bytes the backend still has.\<close>

lemma chunked_scan_inv:
  assumes s: "process s = Chunked" "bytes_till_eof s = -1" "buf_read_decoded s = None" "read_bytes_till_header s = 0"
      "buf_read_raw s = Some (A @ x)" "buf_read_raw_offset s = length A" "buf_read_raw_len s = length (A @ x)"
    and cs: "list_all chunk_ok cs" and xz: "x @ z = chunks cs" "x \<noteq> []" and mem: "\<And>n. mem n"
    and sc: "scan_header 0 (-1) (-1) (int (length A)) x = (ext, cr, lf)"
  shows "lf = -1 \<and> stream_inv s z (bodies cs) \<or>
    lf \<noteq> -1 \<and> (\<exists>s'. enc_chunked_header mem s (A @ x) ext cr lf = Some (0, s') \<and> stream_inv s' z (bodies cs))"
proof -
  have keep: "stream_inv s z (bodies cs)"
    using s cs xz by (auto simp: stream_inv_def read_wf_def raw_left_def dec_left_def)
  obtain h b cs' where c: "cs = (h, b) # cs'" using xz by (cases cs) auto
  then have ok: "chunk_ok (h, b)" "list_all chunk_ok cs'" and e: "x @ z = h @ CR # LF # b @ [CR, LF] @ chunks cs'"
    using cs xz by auto
  have hs: "set h \<inter> {DQUOTE, SEMI, CR, LF} = {}" using ok(1) by (auto simp: chunk_ok_def)
  show ?thesis
  proof (cases "length x < length h + 2")
    case True
    from scan_header_partial [OF hs True e] sc keep show ?thesis by (metis snd_conv)
  next
    case False
    have "take (length h + 2) (x @ z) = h @ [CR, LF]" unfolding e by simp
    with False have "take (length h + 2) x = h @ [CR, LF]" by simp
    then obtain r where r1: "x = h @ CR # LF # r" by (metis append_take_drop_id append.assoc append_Cons append_Nil)
    with e have r: "x = h @ CR # LF # r" "r @ z = b @ [CR, LF] @ chunks cs'" by simp_all
    from scan_header_complete [OF hs, of "int (length A)" r] sc
    have "ext = -1" "cr = int (length A) + int (length h)" "lf = int (length A) + int (length h) + 1"
      unfolding r(1) by simp_all
    moreover have "\<exists>s'. enc_chunked_header mem s (A @ h @ CR # LF # r) (-1) (int (length A) + int (length h))
      (int (length A) + int (length h) + 1) = Some (0, s') \<and> stream_inv s' z (b @ bodies cs')"
      by (rule chunked_header_inv [OF s(1,2,3,6) _ ok r(2) mem]) (use s(7) r(1) in simp)
    ultimately show ?thesis unfolding c r(1) by auto
  qed
qed

definition raw_buf :: "httpp_encoding \<Rightarrow> string" where
  "raw_buf s = (case buf_read_raw s of None \<Rightarrow> [] | Some b \<Rightarrow> b)"

definition raw_off :: "httpp_encoding \<Rightarrow> nat" where
  "raw_off s = (if buf_read_raw s = None then 0 else buf_read_raw_offset s)"

lemma raw_left_buf: "raw_left s = drop (raw_off s) (raw_buf s)"
  by (simp add: raw_left_def raw_buf_def raw_off_def split: option.splits)

lemma chunked_read_eval:
  assumes s: "read_wf s" "bytes_till_eof s = -1" "\<not> 2 < read_bytes_till_header s" and mem: "\<And>n. mem n"
    and f: "f u 1024 = (ret, bytes, u')" "length bytes = nat ret"
  defines "s1 \<equiv> s\<lparr>buf_read_raw := Some (raw_buf s @ bytes), buf_read_raw_offset := raw_off s,
      buf_read_raw_len := length (raw_buf s @ bytes)\<rparr>"
    and "k \<equiv> length (raw_buf s @ bytes) - raw_off s"
  defines "s2 \<equiv> (if k > read_bytes_till_header s
        then s1\<lparr>buf_read_raw_offset := raw_off s + read_bytes_till_header s, read_bytes_till_header := 0\<rparr> else s1)"
  shows "enc_chunked_read mem s len (Some f) u =
    (if ret < 1 then Some (ret, [], s\<lparr>buf_read_raw := (if raw_buf s = [] then None else Some (raw_buf s)),
       buf_read_raw_offset := raw_off s, buf_read_raw_len := length (raw_buf s)\<rparr>, u')
     else if k = read_bytes_till_header s then Some (0, [], (raw_free s1)\<lparr>read_bytes_till_header := 0\<rparr>, u')
     else
       (let (ext, cr, lf) = scan_header 0 (-1) (-1) (int (buf_read_raw_offset s2)) (drop (buf_read_raw_offset s2) (raw_buf s @ bytes))
        in if lf = -1 then Some (0, [], s2, u')
           else do { (ret, self) \<leftarrow> enc_chunked_header mem s2 (raw_buf s @ bytes) ext cr lf; Some (ret, [], self, u') }))"
proof -
  define s0 where "s0 = s\<lparr>buf_read_raw_offset := raw_off s, buf_read_raw_len := length (raw_buf s)\<rparr>"
  have e0: "(if buf_read_raw s = None then s\<lparr>buf_read_raw_offset := 0, buf_read_raw_len := 0\<rparr> else s) = s0"
    using s(1) by (cases s) (auto simp: s0_def raw_off_def raw_buf_def read_wf_def)
  have s0: "buf_read_raw_len s0 = length (raw_buf s)" "bytes_till_eof s0 = -1"
    "(case buf_read_raw s0 of None \<Rightarrow> [] | Some b \<Rightarrow> b) = raw_buf s" "read_bytes_till_header s0 = read_bytes_till_header s"
    using s by (simp_all add: s0_def raw_buf_def)
  have e1: "s0\<lparr>buf_read_raw := Some (take (length (raw_buf s)) (raw_buf s) @ bytes), buf_read_raw_len := length (raw_buf s) + nat ret\<rparr> = s1"
    using f(2) by (simp add: s0_def s1_def)
  have s1: "buf_read_raw_len s1 = length (raw_buf s @ bytes)" "buf_read_raw_offset s1 = raw_off s" "bytes_till_eof s1 = -1"
    "read_bytes_till_header s1 = read_bytes_till_header s" using s by (simp_all add: s1_def)
  have e2: "(if k > read_bytes_till_header s
      then s1\<lparr>buf_read_raw_offset := raw_off s + read_bytes_till_header s, read_bytes_till_header := 0\<rparr> else s1) = s2"
    by (simp add: s2_def)
  have s2: "bytes_till_eof s2 = -1" "buf_read_raw_len s2 = length (raw_buf s @ bytes)" by (simp_all add: s2_def s1)
  have tk: "take (length xs - n) (drop n xs) = drop n xs" for n and xs :: string by simp
  have ra: "s0\<lparr>buf_read_raw := (if length (raw_buf s) = 0 then None else Some (raw_buf s))\<rparr> =
      s\<lparr>buf_read_raw := (if raw_buf s = [] then None else Some (raw_buf s)), buf_read_raw_offset := raw_off s,
        buf_read_raw_len := length (raw_buf s)\<rparr>" by (simp add: s0_def)
  have m: "(-1 \<noteq> (-1::int)) = False" "(-1 = (0::int)) = False" by simp_all
  have k: "length (raw_buf s @ bytes) - raw_off s = k" by (simp add: k_def)
  show ?thesis
    unfolding enc_chunked_read_def Let_def option.case e0
    apply (simp only: s mem f(1) prod.case s0 e1 m if_False if_True simp_thms ra)
    apply (simp only: s1 k)
    apply (simp only: s2 e2 m if_False if_True simp_thms tk take_all order_refl)
    done
qed

lemma chunked_read_inv:
  assumes f: "delivers src f" and inv: "stream_inv s (src u) P" and dec: "buf_read_decoded s = None" and len: "0 < len"
    and mem: "\<And>n. mem n"
  shows "\<exists>ret out s' u' P'. enc_chunked_read mem s len (Some f) u = Some (ret, out, s', u') \<and> -1 \<le> ret \<and> ret \<le> int len \<and>
    stream_inv s' (src u') P' \<and> P = out @ P' \<and> length out = nat ret \<and> (\<exists>n>0. u' = snd (snd (f u n)))"
proof (cases "read_bytes_till_header s > 2")
  case True
  then obtain b cs where b: "list_all chunk_ok cs" "buf_read_raw s = None" "read_bytes_till_header s = length b + 2"
      "src u = b @ [CR, LF] @ chunks cs" "P = b @ bodies cs"
    and s: "read_wf s" "process s = Chunked" "bytes_till_eof s = -1"
    using inv dec unfolding stream_inv_def by (auto simp: dec_left_def)
  define todo where "todo = (if len > length b then length b else len)"
  obtain ret bytes u' where fu: "f u todo = (ret, bytes, u')" by (metis surj_pair)
  note d = deliversD [OF f fu]
  have ev: "enc_chunked_read mem s len (Some f) u = (if ret < 1 then Some (ret, bytes, s, u')
      else Some (ret, bytes, s\<lparr>read_bytes_till_header := read_bytes_till_header s - nat ret\<rparr>, u'))"
  proof -
    have t: "(if len > read_bytes_till_header s - 2 then read_bytes_till_header s - 2 else len) = todo"
      by (simp add: todo_def b(3))
    show ?thesis unfolding enc_chunked_read_def Let_def option.case t fu prod.case using True by (simp only: if_True)
  qed
  have td: "\<exists>n>0. u' = snd (snd (f u n))" using fu True b(3) len by (intro exI [of _ todo]) (simp add: todo_def)
  show ?thesis
  proof (cases "ret < 1")
    case r: True
    then have "bytes = []" "src u' = src u" using d by auto
    then show ?thesis using ev r d inv td by (auto intro!: exI [of _ P])
  next
    case r: False
    have tl: "todo \<le> length b" "todo \<le> len" by (auto simp: todo_def)
    then have lb: "length bytes \<le> length b" using d by linarith
    then obtain b' where b': "b = bytes @ b'" "src u' = b' @ [CR, LF] @ chunks cs"
      using b(4) d(3) by (auto simp: append_eq_append_conv2)
    let ?s = "s\<lparr>read_bytes_till_header := length b' + 2\<rparr>"
    have rb: "read_bytes_till_header s - nat ret = length b' + 2" using b(3) b'(1) d(4) by simp
    have "stream_inv ?s (src u') (b' @ bodies cs)"
      using b b' s dec by (cases b') (auto simp: stream_inv_def read_wf_def dec_left_def raw_left_def)
    then show ?thesis using ev r d b b' tl td unfolding rb by (auto intro!: exI [of _ "b' @ bodies cs"])
  qed
next
  case False
  then obtain cs where cs: "list_all chunk_ok cs"
      "raw_left s @ src u = drop (2 - read_bytes_till_header s) [CR, LF] @ chunks cs" "P = bodies cs" "read_bytes_till_header s \<le> 2"
    and s: "read_wf s" "process s = Chunked" "bytes_till_eof s = -1"
    using inv dec unfolding stream_inv_def by (auto simp: dec_left_def)
  define y where "y = drop (raw_off s) (raw_buf s)"
  obtain ret bytes u' where fu: "f u 1024 = (ret, bytes, u')" by (metis surj_pair)
  note d = deliversD [OF f fu]
  note ev = chunked_read_eval [where f = f and mem = mem and len = len, OF s(1,3) False mem fu d(4)]
  have td: "\<exists>n>0. u' = snd (snd (f u n))" using fu by (intro exI [of _ 1024]) simp
  have ol: "raw_off s \<le> length (raw_buf s)" using s(1) by (auto simp: raw_off_def raw_buf_def read_wf_def split: option.splits)
  then have k: "length (raw_buf s @ bytes) - raw_off s = length (y @ bytes)" by (simp add: y_def)
  have yz: "(y @ bytes) @ src u' = drop (2 - read_bytes_till_header s) [CR, LF] @ chunks cs"
    using cs(2) d(3) by (simp add: y_def raw_left_buf)
  show ?thesis
  proof (cases "ret < 1")
    case True
    let ?s = "s\<lparr>buf_read_raw := (if raw_buf s = [] then None else Some (raw_buf s)),
       buf_read_raw_offset := raw_off s, buf_read_raw_len := length (raw_buf s)\<rparr>"
    have "bytes = []" using True d by simp
    with yz have "stream_inv ?s (src u') P" using cs s dec ol False
      by (auto simp: stream_inv_def read_wf_def dec_left_def raw_left_def y_def intro!: exI [of _ cs])
    with True ev d td show ?thesis by auto
  next
    case r: False
    then have ne: "bytes \<noteq> []" using d by auto
    let ?n = "read_bytes_till_header s" and ?raw = "raw_buf s @ bytes"
    define s1 where "s1 = s\<lparr>buf_read_raw := Some ?raw, buf_read_raw_offset := raw_off s, buf_read_raw_len := length ?raw\<rparr>"
    note ev = ev [folded s1_def]
    have s1: "process s1 = Chunked" "bytes_till_eof s1 = -1" "buf_read_decoded s1 = None" "buf_read_raw s1 = Some ?raw"
      "buf_read_raw_len s1 = length ?raw" "buf_read_raw_offset s1 = raw_off s" "read_bytes_till_header s1 = ?n"
      using s dec by (simp_all add: s1_def)
    have dy: "drop (raw_off s) ?raw = y @ bytes" using ol by (simp add: y_def)
    consider (eq) "length (y @ bytes) = ?n" | (gt) "length (y @ bytes) > ?n" | (lt) "length (y @ bytes) < ?n" by linarith
    then show ?thesis
    proof cases
      case eq
      then have "length (y @ bytes) = length (drop (2 - ?n) [CR, LF])" using cs(4) by simp
      then have "src u' = chunks cs" using yz append_eq_append_conv by blast
      then have "stream_inv ((raw_free s1)\<lparr>read_bytes_till_header := 0\<rparr>) (src u') P"
        using cs(1,3) s1 by (auto simp: stream_inv_def read_wf_def raw_free_def dec_left_def raw_left_def intro!: exI [of _ cs])
      then show ?thesis using ev r eq k td by auto
    next
      case gt
      have lp: "length (drop (2 - ?n) [CR, LF]) = ?n" using cs(4) by simp
      from gt lp have "length (drop (2 - ?n) [CR, LF]) < length (y @ bytes)" by (simp only:)
      then obtain x where x: "y @ bytes = drop (2 - ?n) [CR, LF] @ x" "x @ src u' = chunks cs" "x \<noteq> []"
        by (rule append_longerE [OF yz])
      define A where "A = take (raw_off s) ?raw @ drop (2 - ?n) [CR, LF]"
      have A: "?raw = A @ x" "length A = raw_off s + ?n"
        using x(1) dy lp ol unfolding A_def by (metis append.assoc append_take_drop_id, simp)
      define s2 where "s2 = s1\<lparr>buf_read_raw_offset := raw_off s + ?n, read_bytes_till_header := 0\<rparr>"
      have s2: "process s2 = Chunked" "bytes_till_eof s2 = -1" "buf_read_decoded s2 = None" "read_bytes_till_header s2 = 0"
        "buf_read_raw s2 = Some (A @ x)" "buf_read_raw_offset s2 = length A" "buf_read_raw_len s2 = length (A @ x)"
        using s1 A by (simp_all add: s2_def)
      obtain ext cr lf where sc: "scan_header 0 (-1) (-1) (int (length A)) x = (ext, cr, lf)" by (metis surj_pair)
      note step = chunked_scan_inv [where mem = mem, OF s2 cs(1) x(2,3) mem sc]
      have rd: "enc_chunked_read mem s len (Some f) u =
         (if lf = -1 then Some (0, [], s2, u')
          else do { (ret, self) \<leftarrow> enc_chunked_header mem s2 (A @ x) ext cr lf; Some (ret, [], self, u') })"
      proof -
        have c: "(ret < 1) = False" "(length (y @ bytes) = ?n) = False" "(?n < length (y @ bytes)) = True"
          "drop (length A) (A @ x) = x" using r gt by auto
        show ?thesis
          unfolding ev k [unfolded A(1)] A(1) c(1-3) if_True if_False s2_def [symmetric] s2(6) c(4) sc Let_def prod.case by (rule refl)
      qed
      show ?thesis
      proof (cases "lf = -1")
        case True
        with step rd td show ?thesis unfolding cs(3) by simp
      next
        case False
        with step obtain s' where "enc_chunked_header mem s2 (A @ x) ext cr lf = Some (0, s')" "stream_inv s' (src u') (bodies cs)"
          by blast
        with False rd td show ?thesis unfolding cs(3) by simp
      qed
    next
      case lt
      then have l1: "length (y @ bytes) = 1" "?n = 2"
        using ne cs(4) length_greater_0_conv [of bytes] unfolding length_append by linarith+
      then have yb: "y @ bytes = [CR]" using yz by (cases "y @ bytes") auto
      have "stream_inv s1 (src u') P"
        using cs(1,3) s1 yz dy l1 ol by (auto simp: stream_inv_def read_wf_def dec_left_def raw_left_def intro!: exI [of _ cs])
      moreover have "enc_chunked_read mem s len (Some f) u = Some (0, [], s1, u')"
        using ev r lt k s1(6) dy yb by simp
      ultimately show ?thesis using td by auto
    qed
  qed
qed

subsection \<open>The read operation\<close>

text \<open>Copying decoded bytes to the caller.\<close>

lemma copy_decoded_inv:
  assumes "stream_inv s z P" "copy_decoded s len = (ret, out, s')" "0 < len"
  shows "\<exists>P'. stream_inv s' z P' \<and> P = out @ P' \<and> length out = nat ret \<and> ret \<le> int len \<and> (ret \<noteq> int len \<longrightarrow> buf_read_decoded s' = None)"
proof (cases "buf_read_decoded s")
  case None
  then have "ret = -1" "out = []" "s' = s"
    using assms(2,3) by (auto simp: copy_decoded_def copy_buffer_def)
  with assms(1) None show ?thesis by auto
next
  case (Some b)
  let ?o = "buf_read_decoded_offset s"
  have wf: "buf_read_decoded_len s = length b" "?o < length b"
    using assms(1) Some by (auto simp: stream_inv_def read_wf_def)
  define d where "d = drop ?o b"
  have d: "length b - ?o = length d" "length b = ?o + length d" using wf by (simp_all add: d_def)
  define s0 where "s0 = s\<lparr>buf_read_decoded := None, buf_read_decoded_offset := 0, buf_read_decoded_len := 0\<rparr>"
  have P: "stream_inv t z (e @ P0)" if "P = d @ P0" "dec_left t = e" "read_wf t"
    "\<exists>x y w. t = s\<lparr>buf_read_decoded := x, buf_read_decoded_offset := y, buf_read_decoded_len := w\<rparr>" for t e P0
  proof -
    from that(4) have t: "process t = process s" "bytes_till_eof t = bytes_till_eof s" "buf_read_raw t = buf_read_raw s"
      "read_bytes_till_header t = read_bytes_till_header s" "raw_left t = raw_left s" by (auto simp: raw_left_def split: option.splits)
    have "dec_left s = d" using Some by (simp add: dec_left_def d_def)
    with assms(1) that(1-3) t show ?thesis unfolding stream_inv_def by auto
  qed
  obtain P0 where P0: "P = d @ P0" using assms(1) Some by (auto simp: stream_inv_def dec_left_def d_def)
  have rw: "read_wf s" using assms(1) by (simp add: stream_inv_def)
  show ?thesis
  proof (cases "length d \<le> len")
    case True
    have "copy_decoded s len = (int (length d), d, s0)"
    proof -
      have c: "(len = 0) = False" "(len < length d) = False" using True assms(3) by (simp_all add: not_less)
      show ?thesis unfolding copy_decoded_def copy_buffer_def Some wf(1) d Let_def option.case c if_True if_False prod.case d_def [symmetric] simp_thms s0_def
        using True by (simp add: not_less)
    qed
    then have e: "ret = int (length d)" "out = d" "s' = s0" using assms(2) by simp_all
    have "stream_inv s0 z ([] @ P0)" using P0 rw by (intro P) (auto simp: s0_def dec_left_def read_wf_def)
    with e P0 True show ?thesis by (auto simp: s0_def)
  next
    case False
    let ?s = "s\<lparr>buf_read_decoded := Some b, buf_read_decoded_offset := ?o + len, buf_read_decoded_len := length b\<rparr>"
    have "copy_decoded s len = (int len, take len d, ?s)"
    proof -
      have c: "(len = 0) = False" "(len < length d) = True" "(?o + len = ?o + length d) = False" using False assms(3) by auto
      show ?thesis unfolding copy_decoded_def copy_buffer_def Some wf(1) d Let_def option.case c if_True if_False prod.case d_def [symmetric] simp_thms
        using False by (simp add: not_le)
    qed
    then have e: "ret = int len" "out = take len d" "s' = ?s" using assms(2) by simp_all
    have "stream_inv ?s z (drop len d @ P0)"
    proof (rule P [OF P0])
      show "dec_left ?s = drop len d" by (simp add: dec_left_def d_def add.commute)
      show "read_wf ?s" using rw False d(2) by (simp add: read_wf_def not_le)
      show "\<exists>x y w. ?s = s\<lparr>buf_read_decoded := x, buf_read_decoded_offset := y, buf_read_decoded_len := w\<rparr>"
        by (intro exI) (rule refl)
    qed
    with e P0 False show ?thesis by (auto intro!: exI [of _ "drop len d @ P0"])
  qed
qed

lemma process_read_inv:
  assumes "delivers src f" "stream_inv s (src u) P" "buf_read_decoded s = None" "0 < len" "\<And>n. mem n"
  obtains ret out s' u' P' where "process_read mem s len (Some f) u = Some (ret, out, s', u')" "-1 \<le> ret" "ret \<le> int len"
    "stream_inv s' (src u') P'" "P = out @ P'" "length out = nat ret" "\<exists>n>0. u' = snd (snd (f u n))"
proof -
  have "process_read mem s len (Some f) u = enc_chunked_read mem s len (Some f) u"
    using assms(2) by (simp add: process_read_def stream_inv_def)
  then show thesis using chunked_read_inv [where mem = mem, OF assms] that by (elim exE conjE) auto
qed

lemma encoding_read_inv:
  assumes f: "delivers src f" and inv: "stream_inv s (src u) P" and mem: "\<And>n. mem n"
  shows "\<exists>ret out s' u' P'. httpp_encoding_read mem (Some s) True len (Some f) u = Some (ret, out, Some s', u') \<and>
    ret \<le> int len \<and> length out = nat ret \<and> P = out @ P' \<and> stream_inv s' (src u') P' \<and>
    (0 < len \<longrightarrow> u' = u \<and> out \<noteq> [] \<or> (\<exists>n>0. u' = snd (snd (f u n))))"
proof (cases "len = 0")
  case True
  with inv show ?thesis by (auto simp: httpp_encoding_read_def)
next
  case False
  obtain r1 o1 s1 where c1: "copy_decoded s len = (r1, o1, s1)" by (metis surj_pair)
  from copy_decoded_inv [OF inv c1] False obtain P1 where P1: "stream_inv s1 (src u) P1" "P = o1 @ P1" "length o1 = nat r1"
    "r1 \<le> int len" "r1 \<noteq> int len \<Longrightarrow> buf_read_decoded s1 = None" by auto
  show ?thesis
  proof (cases "r1 = int len")
    case True
    with False c1 P1 show ?thesis by (auto simp: httpp_encoding_read_def)
  next
    case ne: False
    define dn where "dn = (if r1 > 0 then r1 else 0)"
    define n where "n = len - nat dn"
    have n: "0 < n" "dn + int n = int len" "0 \<le> dn" "length o1 = nat dn" using ne P1(3,4) False by (auto simp: n_def dn_def)
    obtain r2 o2 s2 u2 P2 where c2: "process_read mem s1 n (Some f) u = Some (r2, o2, s2, u2)" "-1 \<le> r2" "r2 \<le> int n"
      "stream_inv s2 (src u2) P2" "P1 = o2 @ P2" "length o2 = nat r2" "\<exists>n>0. u2 = snd (snd (f u n))"
      by (rule process_read_inv [OF f P1(1) P1(5) [OF ne] n(1) mem])
    note ev = httpp_encoding_read_def [of mem "Some s" True len "Some f" u, simplified option.case Let_def c1 prod.case,
        folded dn_def, folded n_def, unfolded c2(1), simplified ne if_False]
    show ?thesis
    proof (cases "r2 = -1")
      case True
      with c2 have "o2 = []" by simp
      with ev True c2 P1(2) n False ne show ?thesis by auto
    next
      case r2: False
      define m where "m = nat (int n - r2)"
      show ?thesis
      proof (cases "m = 0")
        case True
        then have "r2 = int n" using c2(3) by (simp add: m_def)
        with ev r2 c2 P1(2) n False ne show ?thesis by auto
      next
        case m: False
        obtain r3 o3 s3 where c3: "copy_decoded s2 m = (r3, o3, s3)" by (metis surj_pair)
        from copy_decoded_inv [OF c2(4) c3] m obtain P3 where P3: "stream_inv s3 (src u2) P3" "P2 = o3 @ P3" "length o3 = nat r3"
          "r3 \<le> int m" by auto
        have "httpp_encoding_read mem (Some s) True len (Some f) u =
            (if r3 > 0 then Some (dn + r2 + r3, o1 @ o2 @ o3, Some s3, u2) else Some (dn + r2, o1 @ o2, Some s3, u2))"
          using ev r2 m False ne c3 by (simp add: m_def [symmetric])
        moreover have "0 \<le> r2" "dn + r2 + int m = int len" using c2 r2 n by (auto simp: m_def)
        ultimately show ?thesis using P3 c2 P1(2) n by (cases "r3 > 0") auto
      qed
    qed
  qed
qed

section \<open>Sequences of calls\<close>

text \<open>Reading with buffers of the sizes \<open>lens\<close>, one call after the other.\<close>

fun read_all :: "(nat \<Rightarrow> bool) \<Rightarrow> 'u read_cb \<Rightarrow> httpp_encoding \<Rightarrow> 'u \<Rightarrow> nat list \<Rightarrow> (string list \<times> httpp_encoding \<times> 'u) option" where
  "read_all mem f s u [] = Some ([], s, u)"
| "read_all mem f s u (len # lens) =
     (case httpp_encoding_read mem (Some s) True len (Some f) u of
        Some (ret, out, Some s', u') \<Rightarrow>
          (case read_all mem f s' u' lens of None \<Rightarrow> None | Some (outs, r) \<Rightarrow> Some (out # outs, r))
      | _ \<Rightarrow> None)"

lemma read_all_append:
  "read_all mem f s u (xs @ ys) =
    (case read_all mem f s u xs of None \<Rightarrow> None
     | Some (outs, s', u') \<Rightarrow> (case read_all mem f s' u' ys of None \<Rightarrow> None | Some (outs', r) \<Rightarrow> Some (outs @ outs', r)))"
  by (induction xs arbitrary: s u) (auto split: option.splits)

lemma read_all_inv:
  assumes f: "delivers src f" and mem: "\<And>n. mem n"
  shows "stream_inv s (src u) P \<Longrightarrow> \<exists>outs s' u' P'. read_all mem f s u lens = Some (outs, s', u') \<and>
    P = concat outs @ P' \<and> stream_inv s' (src u') P'"
proof (induction lens arbitrary: s u P)
  case (Cons len lens)
  from encoding_read_inv [where mem = mem and len = len, OF f Cons.prems mem]
  obtain ret out s1 u1 P1 where 1: "httpp_encoding_read mem (Some s) True len (Some f) u = Some (ret, out, Some s1, u1)"
    "P = out @ P1" "stream_inv s1 (src u1) P1" by blast
  from Cons.IH [OF 1(3)] 1(1,2) show ?case by fastforce
qed simp

text \<open>A backend that hands out at least one byte as long as it has some.\<close>

definition eager :: "('u \<Rightarrow> string) \<Rightarrow> 'u read_cb \<Rightarrow> bool" where
  "eager src f \<longleftrightarrow> (\<forall>u n. src u \<noteq> [] \<longrightarrow> 0 < n \<longrightarrow> fst (f u n) \<ge> 1)"

lemma eager_shrinks:
  assumes "delivers src f" "eager src f" "src u \<noteq> []" "0 < n"
  shows "length (src (snd (snd (f u n)))) < length (src u)"
proof -
  obtain ret bytes u' where fu: "f u n = (ret, bytes, u')" by (metis surj_pair)
  moreover have "fst (f u n) \<ge> 1" using assms unfolding eager_def by blast
  ultimately show ?thesis using deliversD [OF assms(1) fu] by simp
qed

lemma read_drains:
  assumes f: "delivers src f" "eager src f" and mem: "\<And>n. mem n" and len: "0 < len"
  shows "stream_inv s (src u) P \<Longrightarrow> \<exists>k outs s' u' P'. read_all mem f s u (replicate k len) = Some (outs, s', u') \<and>
    P = concat outs @ P' \<and> stream_inv s' [] P' \<and> src u' = []"
proof (induction "length (src u) + length P" arbitrary: s u P rule: less_induct)
  case less
  show ?case
  proof (cases "src u = []")
    case True
    with less.prems show ?thesis by (auto intro!: exI [of _ 0])
  next
    case False
    from encoding_read_inv [where mem = mem and len = len, OF f(1) less.prems mem]
    obtain ret out s1 u1 P1 where 1: "httpp_encoding_read mem (Some s) True len (Some f) u = Some (ret, out, Some s1, u1)"
      "P = out @ P1" "stream_inv s1 (src u1) P1" "u1 = u \<and> out \<noteq> [] \<or> (\<exists>n>0. u1 = snd (snd (f u n)))" using len by blast
    have "length (src u1) + length P1 < length (src u) + length P"
      using 1(2,4) by (auto intro: add_less_le_mono dest!: eager_shrinks [OF f False])
    from less.hyps [OF this 1(3)] obtain k outs s' u' P' where
      2: "read_all mem f s1 u1 (replicate k len) = Some (outs, s', u')" "P1 = concat outs @ P'" "stream_inv s' [] P'" "src u' = []" by blast
    show ?thesis
      by (rule exI [of _ "Suc k"], rule exI [of _ "out # outs"]) (use 1 2 in auto)
  qed
qed

section \<open>Writing and reading back\<close>

lemma encoding_write_conserves:
  assumes "takes log f" "write_wf s" "process s = Chunked" "\<forall>b. buf = Some b \<longrightarrow> len \<le> length b"
    "httpp_encoding_write mem (Some s) buf len (Some f) u = (ret, r, u')"
  defines "n \<equiv> (if buf = None then 0 else min len 1048576)"
  shows "\<exists>t out ext. r = Some t \<and> write_wf t \<and> process t = Chunked \<and> meta_write t \<in> {meta_write s, []} \<and> log u' @ pend t = log u @ pend s @ out \<and>
    (out = [] \<and> ret \<in> {0, -1} \<or>
     ret = int n \<and> ext \<in> {[], cstr (ext_text (meta_write s))} \<and>
     out = chunk (print_hex n @ ext) (take n (case buf of None \<Rightarrow> [] | Some b \<Rightarrow> b)) @ (if buf = None then [CR, LF] else []))"
proof -
  obtain s1 u1 where 1: "flush_output s (Some f) u = (s1, u1)" by fastforce
  obtain ret2 s2 u2 where 2: "enc_chunked_write mem s1 buf len (Some f) u1 = (ret2, s2, u2)" by (metis surj_pair)
  obtain s3 u3 where 3: "flush_output s2 (Some f) u2 = (s3, u3)" by fastforce
  note c1 = flush_conserves [OF assms(1,2) 1]
  then have w1: "write_wf s1" and p1: "process s1 = Chunked" and m1: "meta_write s1 = meta_write s" using assms(3) by auto
  note c2 = chunked_write_cases [OF w1 assms(4) 2, folded n_def]
  then have w2: "write_wf s2" and u2: "u2 = u1" and p2: "process s2 = Chunked" and m2: "meta_write s2 \<in> {meta_write s, []}"
    using p1 m1 by auto
  note c3 = flush_conserves [OF assms(1) w2 3]
  have r: "ret = ret2" "r = Some s3" "u' = u3" using assms(5) 1 2 3 p1 by (auto simp: httpp_encoding_write_def process_write_def)
  define ext where "ext = (case fst (enc_chunked_write_extensions mem s1) of None \<Rightarrow> [] | Some e \<Rightarrow> cstr e)"
  have ext: "ext \<in> {[], cstr (ext_text (meta_write s))}" by (simp add: ext_def enc_chunked_write_extensions_def m1)
  have c2': "ret = 0 \<and> s2 = s1 \<or> ret = -1 \<and> pend s1 = [] \<and> pend s2 = [] \<or> ret = int n \<and> pend s1 = [] \<and>
      pend s2 = chunk (print_hex n @ ext) (take n (case buf of None \<Rightarrow> [] | Some b \<Rightarrow> b)) @ (if buf = None then [CR, LF] else [])"
    using c2 unfolding ext_def [symmetric] r by argo
  have l: "log u' @ pend s3 = log u1 @ pend s2" using c3 u2 r by simp
  show ?thesis
  proof (rule exI [of _ s3], cases "pend s2 = pend s1")
    case True
    with c2' l c1 c3 r p2 m2 show "\<exists>out ext. r = Some s3 \<and> write_wf s3 \<and> process s3 = Chunked \<and> meta_write s3 \<in> {meta_write s, []} \<and> log u' @ pend s3 = log u @ pend s @ out \<and>
    (out = [] \<and> ret \<in> {0, -1} \<or>
     ret = int n \<and> ext \<in> {[], cstr (ext_text (meta_write s))} \<and>
     out = chunk (print_hex n @ ext) (take n (case buf of None \<Rightarrow> [] | Some b \<Rightarrow> b)) @ (if buf = None then [CR, LF] else []))"
      by (auto simp: chunk_def)
  next
    case False
    then have "ret = int n" "pend s1 = []" "pend s2 = chunk (print_hex n @ ext) (take n (case buf of None \<Rightarrow> [] | Some b \<Rightarrow> b)) @ (if buf = None then [CR, LF] else [])"
      using c2' by auto
    with l c1 c3 r p2 m2 ext show "\<exists>out ext. r = Some s3 \<and> write_wf s3 \<and> process s3 = Chunked \<and> meta_write s3 \<in> {meta_write s, []} \<and> log u' @ pend s3 = log u @ pend s @ out \<and>
    (out = [] \<and> ret \<in> {0, -1} \<or>
     ret = int n \<and> ext \<in> {[], cstr (ext_text (meta_write s))} \<and>
     out = chunk (print_hex n @ ext) (take n (case buf of None \<Rightarrow> [] | Some b \<Rightarrow> b)) @ (if buf = None then [CR, LF] else []))"
      by (intro exI [of _ "pend s2"] exI [of _ ext]) simp
  qed
qed

text \<open>The chunks the writer makes are chunks the reader takes.\<close>

lemma chunk_ok_print: "b \<noteq> [] \<Longrightarrow> length b + 2 < 2 ^ 64 \<Longrightarrow> chunk_ok (print_hex (length b), b)"
proof -
  assume b: "b \<noteq> []" "length b + 2 < 2 ^ 64"
  have "set (print_hex (length b)) \<inter> {DQUOTE, SEMI, CR, LF} = {}"
  proof -
    have "c \<notin> {DQUOTE, SEMI, CR, LF}" if "c \<in> set (print_hex (length b))" for c
    proof -
      from that print_hex_digits obtain d where "d < 16" "c = hex_digit d" by blast
      then show ?thesis using hex_digit_plain [of d] by simp
    qed
    then show ?thesis by blast
  qed
  then show ?thesis using b scan_print_hex [of "length b"] unfolding chunk_ok_def prod.case by simp
qed

text \<open>Writing buffers one after the other.\<close>

fun write_all :: "(nat \<Rightarrow> bool) \<Rightarrow> 'u write_cb \<Rightarrow> httpp_encoding \<Rightarrow> 'u \<Rightarrow> string list \<Rightarrow> int list \<times> httpp_encoding \<times> 'u" where
  "write_all mem f s u [] = ([], s, u)"
| "write_all mem f s u (b # bs) =
     (case httpp_encoding_write mem (Some s) (Some b) (length b) (Some f) u of
        (ret, Some s', u') \<Rightarrow> (case write_all mem f s' u' bs of (rets, r) \<Rightarrow> (ret # rets, r))
      | (ret, None, u') \<Rightarrow> ([ret], s, u'))"

text \<open>The bytes of the buffers that were accepted.\<close>

fun accepted :: "string list \<Rightarrow> int list \<Rightarrow> string" where
  "accepted (b # bs) (r # rs) = take (nat r) b @ accepted bs rs"
| "accepted _ _ = []"

lemma write_all_chunks:
  assumes f: "takes log f"
  shows "write_wf s \<Longrightarrow> process s = Chunked \<Longrightarrow> meta_write s = [] \<Longrightarrow> \<forall>b\<in>set bs. b \<noteq> [] \<Longrightarrow>
    write_all mem f s u bs = (rets, t, u') \<Longrightarrow>
    \<exists>cs. list_all chunk_ok cs \<and> log u' @ pend t = log u @ pend s @ chunks cs \<and> bodies cs = accepted bs rets \<and> write_wf t"
proof (induction bs arbitrary: s u rets)
  case Nil
  then show ?case by (auto intro!: exI [of _ "[]"])
next
  case (Cons b bs)
  obtain ret r u1 where w: "httpp_encoding_write mem (Some s) (Some b) (length b) (Some f) u = (ret, r, u1)" by (metis surj_pair)
  define n where "n = min (length b) 1048576"
  have "\<exists>t out ext. r = Some t \<and> write_wf t \<and> process t = Chunked \<and> meta_write t \<in> {meta_write s, []} \<and> log u1 @ pend t = log u @ pend s @ out \<and>
    (out = [] \<and> ret \<in> {0, -1} \<or> ret = int n \<and> ext \<in> {[], cstr (ext_text (meta_write s))} \<and> out = chunk (print_hex n @ ext) (take n b))"
    using encoding_write_conserves [OF f Cons.prems(1,2) _ w] by (simp add: n_def)
  then obtain s1 out where s1: "r = Some s1" "write_wf s1" "process s1 = Chunked" "log u1 @ pend s1 = log u @ pend s @ out"
    "out = [] \<and> ret \<in> {0, -1} \<or> ret = int n \<and> out = chunk (print_hex n) (take n b)" and m1: "meta_write s1 = []"
    using Cons.prems(3) by auto
  obtain rets' where w2: "write_all mem f s1 u1 bs = (rets', t, u')" "rets = ret # rets'"
    using Cons.prems(5) w s1(1) by (auto split: prod.splits)
  from Cons.IH [OF s1(2,3) m1 _ w2(1)] Cons.prems(4)
  obtain cs where cs: "list_all chunk_ok cs" "log u' @ pend t = log u1 @ pend s1 @ chunks cs" "bodies cs = accepted bs rets'" "write_wf t"
    by auto
  from s1(5) show ?case
  proof
    assume "out = [] \<and> ret \<in> {0, -1}"
    then show ?thesis using cs s1(4) w2(2) by (intro exI [of _ cs]) auto
  next
    assume o: "ret = int n \<and> out = chunk (print_hex n) (take n b)"
    have nb: "length (take n b) = n" "take n b \<noteq> []" "n + 2 < 2 ^ 64" using Cons.prems(4) by (auto simp: n_def)
    then have "chunk_ok (print_hex n, take n b)" using chunk_ok_print [of "take n b"] by simp
    then show ?thesis using cs s1(4) w2(2) o by (intro exI [of _ "(print_hex n, take n b) # cs"]) (simp add: chunk_def)
  qed
qed

end
