(* ===== verification/Encoding.thy ===== *)
theory Encoding
  imports Encoding_Stream
begin

text \<open>
  The properties of \<^verbatim>\<open>src/httpp/encoding.c\<close>, with two backends in memory for the witnesses.
\<close>

section \<open>Two backends in memory\<close>

definition mem_source :: "string read_cb" where
  "mem_source u n = (int (min n (length u)), take n u, drop n u)"

definition mem_sink :: "string write_cb" where
  "mem_sink u s = (int (length s), u @ s)"

definition unlimited :: "nat \<Rightarrow> bool" where
  "unlimited n = True"

lemma mem_source_delivers: "delivers (\<lambda>u. u) mem_source"
  unfolding delivers_def mem_source_def by (auto simp: min_def)

lemma mem_source_eager: "eager (\<lambda>u. u) mem_source"
  unfolding eager_def mem_source_def by (auto simp: min_def Suc_le_eq)

lemma mem_sink_takes: "takes (\<lambda>u. u) mem_sink"
  by (auto simp: takes_def mem_sink_def)

lemma unlimited: "unlimited n"
  by (simp add: unlimited_def)

definition ex_cs :: "(string \<times> string) list" where
  "ex_cs = [(''2'', ''ab''), (''3'', ''cde'')]"

lemma print_hex_small: "print_hex 2 = ''2''" "print_hex 3 = ''3''" "print_hex 0 = ''0''"
  "print_hex (Suc (Suc 0)) = ''2''" "print_hex (Suc (Suc (Suc 0))) = ''3''"
  by (simp_all add: print_hex.simps hex_digit_def char_of_def bit_Suc_0_iff)

lemma ex_chunks: "list_all chunk_ok ex_cs"
proof -
  have "chunk_ok (print_hex (length ''ab''), ''ab'')" "chunk_ok (print_hex (length ''cde''), ''cde'')"
    by (rule chunk_ok_print; simp)+
  then show ?thesis by (simp add: ex_cs_def print_hex_small)
qed

lemma write_wf_zero [simp]: "write_wf (enc_zero c)" "process (enc_zero c) = c" "meta_write (enc_zero c) = []" "pend (enc_zero c) = []"
  by (simp_all add: write_wf_def enc_zero_def pend_def)

lemmas read_eval = httpp_encoding_read_def copy_decoded_def copy_buffer_def process_read_def enc_chunked_read_def enc_zero_def
  enc_chunked_header_def enc_chunked_body_def scan_hex_def hex_prefix_def hex_value_def is_space_def raw_free_def mem_source_def Let_def

section \<open>Properties\<close>

text \<open>C5: decoding is faithful for every fragmentation. Let \<open>P\<close> be the payload that is still to come, given the object
  and the bytes the backend has left. For every backend that delivers some prefix of what it has left, every buffer
  size and with memory available, \<open>httpp_encoding_read\<close> is defined (no access outside a buffer), stores at most \<open>len\<close>
  bytes, and what it stores is the next piece of the payload: the object afterwards stands for the rest.\<close>

theorem encoding_read_stream:
  assumes "delivers src f" "stream_inv s (src u) P" "\<And>n. mem n"
  shows "\<exists>ret out s' u' P'. httpp_encoding_read mem (Some s) True len (Some f) u = Some (ret, out, Some s', u') \<and>
    ret \<le> int len \<and> length out = nat ret \<and> P = out @ P' \<and> stream_inv s' (src u') P'"
  using encoding_read_inv [where mem = mem and len = len, OF assms] by blast

theorem encoding_read_stream_witness:
  "\<exists>ret out s' u' P'. httpp_encoding_read unlimited (Some (enc_zero Chunked)) True 4 (Some mem_source)
      (chunks ex_cs) = Some (ret, out, Some s', u') \<and>
    ret \<le> 4 \<and> length out = nat ret \<and> bodies ex_cs = out @ P' \<and> stream_inv s' u' P'"
  using encoding_read_stream [where mem = unlimited and len = 4, OF mem_source_delivers stream_inv_init [OF ex_chunks] unlimited] by simp

text \<open>C36: liveness of the decoder. A backend that delivers at least one byte as long as it has some is read to its end
  by finitely many calls, whatever the (positive) size of the buffer; then the payload is what the calls handed out,
  followed by what the object's own buffers still hold.\<close>

theorem encoding_read_drains:
  assumes "delivers src f" "eager src f" "\<And>n. mem n" "0 < len" "list_all chunk_ok cs" "src u = chunks cs"
  shows "\<exists>k outs s' u' P'. read_all mem f (enc_zero Chunked) u (replicate k len) = Some (outs, s', u') \<and>
    src u' = [] \<and> bodies cs = concat outs @ P' \<and> stream_inv s' [] P'"
proof -
  have "stream_inv (enc_zero Chunked) (src u) (bodies cs)" using stream_inv_init [OF assms(5)] assms(6) by simp
  from read_drains [where mem = mem, OF assms(1-4) this] show ?thesis by blast
qed

theorem encoding_read_drains_witness:
  "\<exists>k outs s' u' P'. read_all unlimited mem_source (enc_zero Chunked) (chunks ex_cs) (replicate k 4) =
      Some (outs, s', u') \<and> u' = [] \<and> bodies ex_cs = concat outs @ P' \<and> stream_inv s' [] P'"
  using encoding_read_drains [where mem = unlimited and len = 4, OF mem_source_delivers mem_source_eager unlimited _ ex_chunks] by simp

text \<open>C14: the writer loses, adds and reorders nothing. For every backend that takes some prefix of what it is offered,
  the bytes taken followed by those that still wait are, after \<open>httpp_encoding_write\<close>, those from before followed by
  nothing (result 0 or -1) or by exactly one chunk: the length in hexadecimal, the pending extensions (up to the first zero
  byte in them, if a value has one) or none, CR LF,
  the first \<open>min len 1048576\<close> bytes of the buffer and CR LF (and once more CR LF behind the last chunk).\<close>

theorem encoding_write_stream:
  assumes "takes log f" "write_wf s" "process s = Chunked" "\<forall>b. buf = Some b \<longrightarrow> len \<le> length b"
    "httpp_encoding_write mem (Some s) buf len (Some f) u = (ret, r, u')"
    "n = (if buf = None then 0 else min len 1048576)"
  shows "\<exists>t out ext. r = Some t \<and> write_wf t \<and> process t = Chunked \<and> log u' @ pend t = log u @ pend s @ out \<and>
    (out = [] \<and> ret \<in> {0, -1} \<or>
     ret = int n \<and> ext \<in> {[], cstr (ext_text (meta_write s))} \<and>
     out = chunk (print_hex n @ ext) (take n (case buf of None \<Rightarrow> [] | Some b \<Rightarrow> b)) @ (if buf = None then [CR, LF] else []))"
  using encoding_write_conserves [OF assms(1-5)] unfolding assms(6) by blast

theorem encoding_write_stream_witness:
  "\<exists>ret r u' t out ext. httpp_encoding_write unlimited (Some (enc_zero Chunked)) (Some ''hello'') 5 (Some mem_sink) [] = (ret, r, u') \<and>
    r = Some t \<and> write_wf t \<and> process t = Chunked \<and> u' @ pend t = out \<and>
    (out = [] \<and> ret \<in> {0, -1} \<or> ret = 5 \<and> ext = [] \<and> out = chunk (print_hex 5 @ ext) ''hello'')"
proof -
  obtain ret r u' where w: "httpp_encoding_write unlimited (Some (enc_zero Chunked)) (Some ''hello'') 5 (Some mem_sink) [] = (ret, r, u')"
    by (metis surj_pair)
  from encoding_write_stream [OF mem_sink_takes write_wf_zero(1) write_wf_zero(2) _ w, of 5]
  show ?thesis unfolding w by simp
qed

text \<open>C9: writing and reading back. Non-empty buffers are written to a fresh object, which may accept all, a part or
  nothing of each; everything it produced is then delivered to a fresh decoder in any fragments. After finitely
  many reads the backend is exhausted, and the bytes handed out, followed by those that the decoder still
  buffers, are the accepted bytes in their order.\<close>

theorem encoding_round_trip:
  assumes "takes log g" "log w = []" "\<forall>b\<in>set bs. b \<noteq> []" "write_all mem' g (enc_zero Chunked) w bs = (rets, t, w')" "pend t = []"
    "delivers src f" "eager src f" "\<And>n. mem n" "0 < len" "src u = log w'"
  shows "\<exists>k outs s' u' P'. read_all mem f (enc_zero Chunked) u (replicate k len) = Some (outs, s', u') \<and>
    src u' = [] \<and> accepted bs rets = concat outs @ P' \<and> stream_inv s' [] P'"
proof -
  obtain cs where cs: "list_all chunk_ok cs" "log w' = chunks cs" "bodies cs = accepted bs rets"
    using write_all_chunks [OF assms(1) write_wf_zero(1) write_wf_zero(2) write_wf_zero(3) assms(3,4)] assms(2,5) by auto
  then have "stream_inv (enc_zero Chunked) (src u) (accepted bs rets)" using stream_inv_init [OF cs(1)] assms(10) by simp
  from read_drains [where mem = mem, OF assms(6-9) this] show ?thesis by blast
qed

lemma ex_written: "write_all unlimited mem_sink (enc_zero Chunked) [] [''ab'', ''cde''] =
    ([2, 3], enc_zero Chunked, chunks ex_cs)"
  by (simp add: httpp_encoding_write_def flush_output_def process_write_def enc_chunked_write_def enc_chunked_write_extensions_def
      mem_sink_def enc_zero_def print_hex_small httpp_encoding_pending_def ex_cs_def Let_def unlimited)

theorem encoding_round_trip_witness:
  "\<exists>k outs s' u' P'. read_all unlimited mem_source (enc_zero Chunked) (chunks ex_cs) (replicate k 2) =
      Some (outs, s', u') \<and> u' = [] \<and> accepted [''ab'', ''cde''] [2, 3] = concat outs @ P' \<and> stream_inv s' [] P'"
  by (rule encoding_round_trip [where mem = unlimited and len = 2, OF mem_sink_takes _ _ ex_written write_wf_zero(4) mem_source_delivers mem_source_eager unlimited])
    simp_all

text \<open>Chunk extensions survive: the text that \<open>__enc_chunked_write_extensions\<close> makes of entries with a key without \<open>=\<close> and a
  non-empty value without a backslash is read back by \<open>__enc_chunked_read_extentions\<close> as the same entries, quotes in
  the values included, appended to those already there, and without reading behind the text.\<close>

theorem extensions_round_trip:
  assumes "\<forall>m\<in>set ms. plain_meta m" "\<And>n. mem n"
  shows "enc_chunked_read_extentions mem ns (ext_text ms @ rest) (length (ext_text ms)) = Some (ns @ ms)"
  using ext_read_text [where mem = mem, OF assms] .

theorem extensions_round_trip_witness:
  "enc_chunked_read_extentions unlimited []
     (ext_text [\<lparr>mkey = Some ''k'', mvalue = Some ''a\<newline>b'', value_len = 3\<rparr>, \<lparr>mkey = Some ''q'', mvalue = Some [DQUOTE], value_len = 1\<rparr>] @ ''x'')
     (length (ext_text [\<lparr>mkey = Some ''k'', mvalue = Some ''a\<newline>b'', value_len = 3\<rparr>, \<lparr>mkey = Some ''q'', mvalue = Some [DQUOTE], value_len = 1\<rparr>])) =
   Some [\<lparr>mkey = Some ''k'', mvalue = Some ''a\<newline>b'', value_len = 3\<rparr>, \<lparr>mkey = Some ''q'', mvalue = Some [DQUOTE], value_len = 1\<rparr>]"
  by (rule extensions_round_trip [where ns = "[]" and mem = unlimited, simplified append_Nil]) (simp_all add: plain_meta_def unlimited)

text \<open>The extension buffer is large enough: \<open>__enc_chunked_write_extensions\<close> writes the text and its terminating zero within
  the number of bytes it allocates.\<close>

theorem extensions_fit:
  assumes "\<forall>m\<in>set ms. \<forall>v. mvalue m = Some v \<longrightarrow> value_len m \<le> length v"
  shows "length (ext_text ms) + 1 \<le> ext_buflen ms"
  using ext_text_fits [OF assms] .

theorem extensions_fit_witness:
  "length (ext_text [\<lparr>mkey = Some ''k'', mvalue = Some [DQUOTE, DQUOTE], value_len = 2\<rparr>]) + 1 \<le>
   ext_buflen [\<lparr>mkey = Some ''k'', mvalue = Some [DQUOTE, DQUOTE], value_len = 2\<rparr>]"
  by (rule extensions_fit) simp

text \<open>C38: a stream that starts with a line feed makes the decoder write in front of its buffer: on a fresh object the
  first read is undefined behaviour, whatever follows the line feed.\<close>

theorem encoding_read_leading_LF:
  assumes "0 < len" "mem 1024" "f u 1024 = (int (length t) + 1, LF # t, u')"
  shows "httpp_encoding_read mem (Some (enc_zero Chunked)) True len (Some f) u = None"
  using assms
  by (simp add: httpp_encoding_read_def copy_decoded_def copy_buffer_def process_read_def enc_chunked_read_def enc_zero_def
      enc_chunked_header_def nat_add_distrib Let_def)

theorem encoding_read_leading_LF_witness:
  "httpp_encoding_read unlimited (Some (enc_zero Chunked)) True 1 (Some mem_source) [LF] = None"
  by (rule encoding_read_leading_LF [where t = "[]" and u' = "[]"]) (simp_all add: mem_source_def unlimited)

text \<open>An object that has nothing decoded but bytes in its raw buffer, and a backend that delivers nothing.\<close>

lemma starved_read:
  assumes s: "process s = Chunked" "buf_read_decoded s = None" "read_bytes_till_header s \<le> 2" "buf_read_raw s = Some raw" "buf_read_raw_len s \<noteq> 0"
    and f: "\<And>n. f u n = (0, [], u)" and mem: "\<And>n. mem n"
  shows "read_all mem f s u lens = Some (map (\<lambda>_. []) lens, s, u)"
proof -
  have k: "s\<lparr>buf_read_raw := Some raw\<rparr> = s" using s(4) by simp
  have "httpp_encoding_read mem (Some s) True len (Some f) u = Some (0, [], Some s, u)" for len
    using s k by (auto simp: httpp_encoding_read_def copy_decoded_def copy_buffer_def process_read_def enc_chunked_read_def f mem Let_def)
  then show ?thesis by (induction lens) simp_all
qed

lemma copy_decoded_all:
  assumes "buf_read_decoded s = Some b" "buf_read_decoded_offset s = 0" "buf_read_decoded_len s = length b" "0 < len" "length b \<le> len"
  shows "copy_decoded s len =
    (int (length b), b, s\<lparr>buf_read_decoded := None, buf_read_decoded_offset := 0, buf_read_decoded_len := 0\<rparr>)"
  using assms by (auto simp: copy_decoded_def copy_buffer_def Let_def)

text \<open>The header of the first chunk when the whole chunk and more are in the raw buffer.\<close>

lemma first_chunk_header:
  fixes h b rest :: string
  defines "raw' \<equiv> h @ NUL # LF # b @ CR # LF # rest"
  assumes ok: "chunk_ok (h, b)" "rest \<noteq> []" and mem: "\<And>n. mem n"
    and s: "bytes_till_eof s = -1" "buf_read_raw_offset s = 0" "buf_read_raw_len s = length (chunk h b @ rest)"
  shows "enc_chunked_header mem s (chunk h b @ rest) (-1) (int (length h)) (int (length h) + 1) =
    Some (0, s\<lparr>buf_read_raw := Some raw', buf_read_decoded := Some b, buf_read_decoded_offset := 0,
      buf_read_decoded_len := length b, buf_read_raw_offset := length h + length b + 4, read_bytes_till_header := 0\<rparr>)"
proof -
  have b: "b \<noteq> []" "length b + 2 < 2 ^ 64" and hx: "scan_hex (h @ NUL # r) = Some (length b)" for r
    using ok(1) by (auto simp: chunk_ok_def)
  define s1 where "s1 = s\<lparr>buf_read_raw := Some raw'\<rparr>"
  have s1: "bytes_till_eof s1 = -1" "buf_read_raw s1 = Some raw'" "buf_read_raw_len s1 = length raw'"
    using s by (simp_all add: s1_def raw'_def chunk_def)
  have upd: "(chunk h b @ rest)[nat (int (length h)) := NUL] = raw'"
    by (simp add: chunk_def raw'_def list_update_append)
  have "enc_chunked_header mem s (chunk h b @ rest) (-1) (int (length h)) (int (length h) + 1) =
      Some (enc_chunked_body mem s1 raw' (length b) (int (length h) + 1))"
    using upd by (simp add: enc_chunked_header_def s s1_def Let_def) (simp add: raw'_def hx)
  also have "enc_chunked_body mem s1 raw' (length b) (int (length h) + 1) = (0, header_result s1 raw' (length h + 2) (length b))"
    by (rule chunked_body_result [OF s1]) (use b mem in \<open>auto simp: raw'_def\<close>)
  also have "header_result s1 raw' (length h + 2) (length b) =
      s\<lparr>buf_read_raw := Some raw', buf_read_decoded := Some b, buf_read_decoded_offset := 0,
        buf_read_decoded_len := length b, buf_read_raw_offset := length h + length b + 4, read_bytes_till_header := 0\<rparr>"
    using ok(2) by (simp add: header_result_def s1_def raw'_def Let_def add.commute)
  finally show ?thesis .
qed

text \<open>C39: a decoder that has chunks in its raw buffer does not look at them before the backend delivers more bytes. Whenever
  the first delivery to a new object holds a whole chunk and something behind it (more chunks, or the chunk that ends the
  stream), a read hands out the first chunk only; as long as the backend then has nothing new, all later reads return no
  bytes and change nothing, and \<open>httpp_encoding_eof\<close> does not report the end, even if the last chunk is in the buffer.\<close>

theorem encoding_read_starves:
  assumes "chunk_ok (h, b)" "rest \<noteq> []" "length (chunk h b @ rest) \<le> 1024" "length b \<le> len"
    "f u 1024 = (int (length (chunk h b @ rest)), chunk h b @ rest, u')" "\<And>n. f u' n = (0, [], u')" "\<And>n. mem n"
  shows "\<exists>s. httpp_encoding_read mem (Some (enc_zero Chunked)) True len (Some f) u = Some (int (length b), b, Some s, u') \<and>
    raw_left s = rest \<and> (\<forall>lens. read_all mem f s u' lens = Some (map (\<lambda>_. []) lens, s, u')) \<and>
    httpp_encoding_eof (Some s) None u' = 0"
proof -
  let ?z = "enc_zero Chunked" and ?raw = "chunk h b @ rest" and ?raw' = "h @ NUL # LF # b @ CR # LF # rest"
  have b: "b \<noteq> []" and hs: "set h \<inter> {DQUOTE, SEMI, CR, LF} = {}" using assms(1) by (auto simp: chunk_ok_def)
  have z: "read_wf ?z" "bytes_till_eof ?z = -1" "\<not> 2 < read_bytes_till_header ?z" "raw_buf ?z = []" "raw_off ?z = 0"
    "read_bytes_till_header ?z = 0" "buf_read_decoded ?z = None" "process ?z = Chunked"
    by (simp_all add: enc_zero_def read_wf_def raw_buf_def raw_off_def)
  define s1 where "s1 = ?z\<lparr>buf_read_raw := Some ?raw, buf_read_raw_len := length ?raw, buf_read_raw_offset := 0, read_bytes_till_header := 0\<rparr>"
  define t where "t = s1\<lparr>buf_read_raw := Some ?raw', buf_read_decoded := Some b, buf_read_decoded_offset := 0,
      buf_read_decoded_len := length b, buf_read_raw_offset := length h + length b + 4, read_bytes_till_header := 0\<rparr>"
  have sc: "scan_header 0 (-1) (-1) 0 ?raw = (-1, int (length h), int (length h) + 1)"
    using scan_header_complete [OF hs, of 0] by (simp add: chunk_def)
  have hd: "enc_chunked_header mem s1 ?raw (-1) (int (length h)) (int (length h) + 1) = Some (0, t)"
    unfolding t_def by (rule first_chunk_header [OF assms(1,2,7)]) (simp_all add: s1_def z)
  have l: "0 < length ?raw" "length ?raw \<noteq> 0" "\<not> int (length ?raw) < 1" by (simp_all add: chunk_def)
  have chunk_ne: "chunk h b \<noteq> []" by (simp add: chunk_def)
  have rd: "enc_chunked_read mem ?z n (Some f) u = Some (0, [], t, u')" for n
    using chunked_read_eval [where mem = mem and f = f and u = u and len = n, OF z(1-3) assms(7) assms(5)] l sc hd
    by (simp add: z s1_def chunk_ne del: length_append)
  have len: "0 < len" using assms(4) b by (cases b) auto
  define s where "s = t\<lparr>buf_read_decoded := None, buf_read_decoded_offset := 0, buf_read_decoded_len := 0\<rparr>"
  have cz: "copy_decoded ?z len = (-1, [], ?z)" using len by (simp add: copy_decoded_def copy_buffer_def enc_zero_def)
  have "copy_decoded t len = (int (length b), b, s)"
    unfolding s_def by (rule copy_decoded_all) (use assms(4) b len in \<open>auto simp: t_def\<close>)
  then have "httpp_encoding_read mem (Some ?z) True len (Some f) u = Some (int (length b), b, Some s, u')"
    using len cz by (auto simp: httpp_encoding_read_def z process_read_def rd)
  moreover have "read_all mem f s u' lens = Some (map (\<lambda>_. []) lens, s, u')" for lens
    by (rule starved_read [where raw = ?raw' and f = f and u = u' and mem = mem, OF _ _ _ _ _ assms(6,7)]) (use l(2) in \<open>auto simp: s_def t_def s1_def z\<close>)
  moreover have "raw_left s = rest" by (simp add: s_def t_def raw_left_def numeral_eq_Suc)
  moreover have "httpp_encoding_eof (Some s) None u' = 0" by (simp add: s_def t_def s1_def httpp_encoding_eof_def z)
  ultimately show ?thesis by blast
qed

theorem encoding_read_starves_witness:
  "\<exists>s. httpp_encoding_read unlimited (Some (enc_zero Chunked)) True 9 (Some mem_source) (chunk ''2'' ''ab'' @ (chunk ''3'' ''cde'' @ chunk ''0'' [])) =
      Some (2, ''ab'', Some s, []) \<and> raw_left s = chunk ''3'' ''cde'' @ chunk ''0'' [] \<and>
    read_all unlimited mem_source s [] [9, 9, 9] = Some ([[], [], []], s, []) \<and> httpp_encoding_eof (Some s) None ([] :: string) = 0"
proof -
  have ok: "chunk_ok (''2'', ''ab'')" using ex_chunks by (simp add: ex_cs_def)
  have m: "mem_source [] n = (0, [], [])" for n by (simp add: mem_source_def)
  let ?r = "chunk ''3'' ''cde'' @ chunk ''0'' []"
  have d: "mem_source (chunk ''2'' ''ab'' @ ?r) 1024 = (int (length (chunk ''2'' ''ab'' @ ?r)), chunk ''2'' ''ab'' @ ?r, [])"
    by (simp add: mem_source_def chunk_def)
  have "\<exists>s. httpp_encoding_read unlimited (Some (enc_zero Chunked)) True 9 (Some mem_source) (chunk ''2'' ''ab'' @ ?r) =
      Some (int (length ''ab''), ''ab'', Some s, []) \<and> raw_left s = ?r \<and>
      (\<forall>lens. read_all unlimited mem_source s [] lens = Some (map (\<lambda>_. []) lens, s, [])) \<and> httpp_encoding_eof (Some s) None ([] :: string) = 0"
    by (rule encoding_read_starves [where f = mem_source and u' = "[]", OF ok _ _ _ d m unlimited]) (simp_all add: chunk_def)
  then obtain s where s: "httpp_encoding_read unlimited (Some (enc_zero Chunked)) True 9 (Some mem_source) (chunk ''2'' ''ab'' @ ?r) =
      Some (int (length ''ab''), ''ab'', Some s, [])" "raw_left s = ?r" "httpp_encoding_eof (Some s) None ([] :: string) = 0"
    and dry: "\<And>lens. read_all unlimited mem_source s [] lens = Some (map (\<lambda>_. []) lens, s, [])" by blast
  show ?thesis by (rule exI [of _ s]) (use s dry [of "[9, 9, 9]"] in simp)
qed

text \<open>The end of a stream. The chunk that \<open>httpp_encoding_write\<close> makes of a NULL buffer is \<open>0\<close> and three CR LF; a decoder
  that is given it reports the end of the stream, and not before it has it.\<close>

theorem encoding_end_of_stream:
  "\<exists>s t. httpp_encoding_write unlimited (Some (enc_zero Chunked)) None 0 (Some mem_sink) [] = (0, Some s, ''0'' @ [CR, LF, CR, LF, CR, LF]) \<and>
    httpp_encoding_eof (Some (enc_zero Chunked)) None u = 0 \<and>
    read_all unlimited mem_source (enc_zero Chunked) (''0'' @ [CR, LF, CR, LF, CR, LF]) [9] = Some ([[]], t, []) \<and>
    httpp_encoding_eof (Some t) None u = 1"
  apply (intro exI conjI)
     apply (simp add: httpp_encoding_write_def flush_output_def process_write_def enc_chunked_write_def enc_chunked_write_extensions_def
      mem_sink_def enc_zero_def print_hex_small httpp_encoding_pending_def Let_def unlimited)
    apply (simp add: httpp_encoding_eof_def enc_zero_def)
   apply (simp add: read_eval unlimited)
  apply (simp add: httpp_encoding_eof_def)
  done

text \<open>reference counting. After \<open>n\<close> calls of \<open>httpp_encoding_addref\<close> on a new object, \<open>n\<close> releases leave it alive with one
  reference and the next one frees it.\<close>

theorem encoding_refcount:
  assumes "httpp_encoding_new True name = Some s"
  shows "((\<lambda>x. snd (httpp_encoding_release x)) ^^ n) (((\<lambda>x. snd (httpp_encoding_addref x)) ^^ n) (Some s)) = Some s \<and>
    httpp_encoding_release (Some s) = (0, None)"
proof -
  have r: "refc s = 1" using assms by (auto simp: httpp_encoding_new_def enc_zero_def split: if_splits)
  define A R where "A = (\<lambda>x. snd (httpp_encoding_addref x))" and "R = (\<lambda>x. snd (httpp_encoding_release x))"
  have "(R ^^ n) ((A ^^ n) (Some t)) = Some t" if "0 < refc t" for t
    using that
  proof (induction n arbitrary: t)
    case (Suc n)
    let ?t = "t\<lparr>refc := refc t + 1\<rparr>"
    have "(R ^^ Suc n) ((A ^^ Suc n) (Some t)) = R ((R ^^ n) ((A ^^ n) (A (Some t))))" by (simp add: funpow_swap1)
    also have "A (Some t) = Some ?t" by (simp add: A_def httpp_encoding_addref_def)
    also have "(R ^^ n) ((A ^^ n) (Some ?t)) = Some ?t" by (rule Suc.IH) simp
    also have "R (Some ?t) = Some t" using Suc.prems by (simp add: R_def httpp_encoding_release_def)
    finally show ?case .
  qed simp
  from this [unfolded A_def R_def, of s] r show ?thesis by (simp add: httpp_encoding_release_def)
qed

theorem encoding_refcount_witness:
  "((\<lambda>x. snd (httpp_encoding_release x)) ^^ 2) (((\<lambda>x. snd (httpp_encoding_addref x)) ^^ 2) (Some (enc_zero Chunked))) = Some (enc_zero Chunked) \<and>
    httpp_encoding_release (Some (enc_zero Chunked)) = (0, None)"
  by (rule encoding_refcount [where name = "''Chunked''"])
    (simp add: httpp_encoding_new_def strcaseeq_def to_lower_def HTTPP_ENCODING_IDENTITY_def HTTPP_ENCODING_CHUNKED_def char_of_def bit_Suc_0_iff)

text \<open>the identity coding hands everything through: a read returns the backend's result and bytes, a write offers the
  backend the caller's bytes and returns its result, and the object does not change.\<close>

theorem encoding_identity:
  assumes "process s = Identity" "buf_read_decoded s = None" "buf_write_encoded s = None" "0 < len" "len \<le> length b"
    "delivers src f" "f u len = (ret, bytes, u')" "g w (take len b) = (wret, w')"
  shows "httpp_encoding_read mem (Some s) True len (Some f) u = Some (ret, bytes, Some s, u') \<and>
    httpp_encoding_write mem (Some s) (Some b) len (Some g) w = (wret, Some s, w')"
proof -
  note d = deliversD [OF assms(6,7)]
  have c: "copy_decoded s n = ((if n = 0 then 0 else -1), [], s)" for n
    using assms(2) by (simp add: copy_decoded_def copy_buffer_def)
  show ?thesis
    using assms d by (auto simp: httpp_encoding_read_def c process_read_def enc_identity_read_def httpp_encoding_write_def flush_output_def
        process_write_def enc_identity_write_def Let_def)
qed

theorem encoding_identity_witness:
  "httpp_encoding_read unlimited (Some (enc_zero Identity)) True 2 (Some mem_source) ''abc'' = Some (2, ''ab'', Some (enc_zero Identity), ''c'') \<and>
    httpp_encoding_write unlimited (Some (enc_zero Identity)) (Some ''xyz'') 2 (Some mem_sink) [] = (2, Some (enc_zero Identity), ''xy'')"
  by (rule encoding_identity [where src = "\<lambda>u. u"]) (simp_all add: enc_zero_def mem_source_delivers mem_source_def mem_sink_def)

end
