(* ===== verification/Httpp_Defs.thy ===== *)
theory Httpp_Defs
  imports Avl Cstring
begin

text \<open>
  The model of \<^verbatim>\<open>src/httpp/httpp.c\<close>: the parser object, its three trees of variables, the request and response parsers, query
  strings and URL escapes.

  A tree of variables is the list of its entries in the order of \<open>_compare_vars\<close>; lookup, insertion and deletion are
  \<open>store_get\<close>, \<open>ins_key\<close> and \<open>store_del\<close> of the container contract that the AVL tree meets. The copy of the input that the
  parsers cut into strings is a list of bytes with a zero at its end, pointers into it are offsets. \<open>mem n\<close> says whether an
  allocation of \<open>n\<close> bytes whose result the code tests succeeds; the allocations that it does not test (\<open>strdup\<close>, the nodes
  of the trees) succeed. \<open>None\<close> as the result of a model function is undefined behaviour.
\<close>

section \<open>The data\<close>

datatype httpp_request_type =
    httpp_req_none | httpp_req_get | httpp_req_post | httpp_req_put | httpp_req_head | httpp_req_options | httpp_req_delete
  | httpp_req_trace | httpp_req_connect | httpp_req_source | httpp_req_play | httpp_req_stats | httpp_req_unknown

datatype httpp_ns = HTTPP_NS_VAR | HTTPP_NS_HEADER | HTTPP_NS_QUERY_STRING | HTTPP_NS_POST_BODY

text \<open>\<open>values\<close> is the length of the list.\<close>

record http_var =
  vname :: string
  vvalue :: "string list"

type_synonym var_tree = "http_var list"

record http_parser =
  prefc :: nat
  req_type :: httpp_request_type
  uri :: "string option"
  vars :: var_tree
  queryvars :: var_tree
  postvars :: var_tree

definition HTTPP_VAR_PROTOCOL :: string where "HTTPP_VAR_PROTOCOL = ''__protocol''"
definition HTTPP_VAR_VERSION :: string where "HTTPP_VAR_VERSION = ''__version''"
definition HTTPP_VAR_URI :: string where "HTTPP_VAR_URI = ''__uri''"
definition HTTPP_VAR_RAWURI :: string where "HTTPP_VAR_RAWURI = ''__rawuri''"
definition HTTPP_VAR_QUERYARGS :: string where "HTTPP_VAR_QUERYARGS = ''__queryargs''"
definition HTTPP_VAR_REQ_TYPE :: string where "HTTPP_VAR_REQ_TYPE = ''__req_type''"
definition HTTPP_VAR_ERROR_MESSAGE :: string where "HTTPP_VAR_ERROR_MESSAGE = ''__errormessage''"
definition HTTPP_VAR_ERROR_CODE :: string where "HTTPP_VAR_ERROR_CODE = ''__errorcode''"

lemmas httpp_var_names = HTTPP_VAR_PROTOCOL_def HTTPP_VAR_VERSION_def HTTPP_VAR_URI_def HTTPP_VAR_RAWURI_def HTTPP_VAR_QUERYARGS_def
  HTTPP_VAR_REQ_TYPE_def HTTPP_VAR_ERROR_MESSAGE_def HTTPP_VAR_ERROR_CODE_def

section \<open>Request methods\<close>

definition REQUEST_IS_SAFE :: uint where "REQUEST_IS_SAFE = 0x0001"
definition REQUEST_IS_IDEMPOTENT :: uint where "REQUEST_IS_IDEMPOTENT = 0x0002"
definition REQUEST_IS_CACHEABLE :: uint where "REQUEST_IS_CACHEABLE = 0x0004"
definition REQUEST_HAS_RESPONSE_BODY :: uint where "REQUEST_HAS_RESPONSE_BODY = 0x0010"
definition REQUEST_HAS_REQUEST_BODY :: uint where "REQUEST_HAS_REQUEST_BODY = 0x0100"
definition REQUEST_HAS_OPTIONAL_REQUEST_BODY :: uint where "REQUEST_HAS_OPTIONAL_REQUEST_BODY = 0x0200"

lemmas request_flags = REQUEST_IS_SAFE_def REQUEST_IS_IDEMPOTENT_def REQUEST_IS_CACHEABLE_def REQUEST_HAS_RESPONSE_BODY_def
  REQUEST_HAS_REQUEST_BODY_def REQUEST_HAS_OPTIONAL_REQUEST_BODY_def

fun httpp_request_info :: "httpp_request_type \<Rightarrow> uint" where
  "httpp_request_info httpp_req_get = REQUEST_IS_SAFE OR REQUEST_IS_IDEMPOTENT OR REQUEST_IS_CACHEABLE OR REQUEST_HAS_RESPONSE_BODY OR
     REQUEST_HAS_OPTIONAL_REQUEST_BODY"
| "httpp_request_info httpp_req_post = REQUEST_IS_CACHEABLE OR REQUEST_HAS_RESPONSE_BODY OR REQUEST_HAS_REQUEST_BODY"
| "httpp_request_info httpp_req_put = REQUEST_IS_IDEMPOTENT OR REQUEST_HAS_RESPONSE_BODY OR REQUEST_HAS_REQUEST_BODY"
| "httpp_request_info httpp_req_head = REQUEST_IS_SAFE OR REQUEST_IS_IDEMPOTENT OR REQUEST_IS_CACHEABLE"
| "httpp_request_info httpp_req_options = REQUEST_IS_SAFE OR REQUEST_IS_IDEMPOTENT OR REQUEST_HAS_RESPONSE_BODY OR
     REQUEST_HAS_OPTIONAL_REQUEST_BODY"
| "httpp_request_info httpp_req_delete = REQUEST_IS_IDEMPOTENT OR REQUEST_HAS_RESPONSE_BODY"
| "httpp_request_info httpp_req_trace = REQUEST_IS_SAFE OR REQUEST_IS_IDEMPOTENT OR REQUEST_HAS_RESPONSE_BODY"
| "httpp_request_info httpp_req_connect = REQUEST_HAS_RESPONSE_BODY OR REQUEST_HAS_REQUEST_BODY"
| "httpp_request_info httpp_req_source = REQUEST_HAS_RESPONSE_BODY OR REQUEST_HAS_REQUEST_BODY"
| "httpp_request_info httpp_req_play = REQUEST_IS_SAFE OR REQUEST_HAS_RESPONSE_BODY OR REQUEST_HAS_OPTIONAL_REQUEST_BODY"
| "httpp_request_info httpp_req_stats = REQUEST_IS_SAFE OR REQUEST_HAS_RESPONSE_BODY OR REQUEST_HAS_OPTIONAL_REQUEST_BODY"
| "httpp_request_info httpp_req_none = REQUEST_HAS_RESPONSE_BODY OR REQUEST_HAS_OPTIONAL_REQUEST_BODY"
| "httpp_request_info httpp_req_unknown = REQUEST_HAS_RESPONSE_BODY OR REQUEST_HAS_OPTIONAL_REQUEST_BODY"

definition httpp_str_to_method :: "string \<Rightarrow> httpp_request_type" where
  "httpp_str_to_method method =
     (if strcaseeq ''GET'' method then httpp_req_get
      else if strcaseeq ''POST'' method then httpp_req_post
      else if strcaseeq ''PUT'' method then httpp_req_put
      else if strcaseeq ''HEAD'' method then httpp_req_head
      else if strcaseeq ''OPTIONS'' method then httpp_req_options
      else if strcaseeq ''DELETE'' method then httpp_req_delete
      else if strcaseeq ''TRACE'' method then httpp_req_trace
      else if strcaseeq ''CONNECT'' method then httpp_req_connect
      else if strcaseeq ''SOURCE'' method then httpp_req_source
      else if strcaseeq ''PLAY'' method then httpp_req_play
      else if strcaseeq ''STATS'' method then httpp_req_stats
      else httpp_req_unknown)"

text \<open>The name under which \<open>httpp_parse\<close> stores a method; \<open>None\<close> for the two that it rejects.\<close>

fun method_name :: "httpp_request_type \<Rightarrow> string option" where
  "method_name httpp_req_get = Some ''GET''"
| "method_name httpp_req_post = Some ''POST''"
| "method_name httpp_req_put = Some ''PUT''"
| "method_name httpp_req_head = Some ''HEAD''"
| "method_name httpp_req_options = Some ''OPTIONS''"
| "method_name httpp_req_delete = Some ''DELETE''"
| "method_name httpp_req_trace = Some ''TRACE''"
| "method_name httpp_req_connect = Some ''CONNECT''"
| "method_name httpp_req_source = Some ''SOURCE''"
| "method_name httpp_req_play = Some ''PLAY''"
| "method_name httpp_req_stats = Some ''STATS''"
| "method_name httpp_req_none = None"
| "method_name httpp_req_unknown = None"

section \<open>Variables\<close>

definition compare_vars :: "http_var \<Rightarrow> http_var \<Rightarrow> int" where
  "compare_vars a b = strcmp (vname a) (vname b)"

text \<open>The entry that the lookup functions put on the stack.\<close>

definition name_var :: "string \<Rightarrow> http_var" where
  "name_var name = \<lparr>vname = name, vvalue = []\<rparr>"

definition httpp_get_param_var' :: "var_tree \<Rightarrow> string \<Rightarrow> http_var option" where
  "httpp_get_param_var' tree name = store_get compare_vars (name_var name) tree"

definition first_value :: "http_var option \<Rightarrow> string option" where
  "first_value found = (case found of None \<Rightarrow> None | Some v \<Rightarrow> if vvalue v = [] then None else Some (hd (vvalue v)))"

definition httpp_getvar :: "http_parser option \<Rightarrow> string option \<Rightarrow> string option" where
  "httpp_getvar parser name =
     (case (parser, name) of
        (Some p, Some n) \<Rightarrow> first_value (store_get compare_vars (name_var n) (vars p))
      | _ \<Rightarrow> None)"

definition httpp_setvar :: "(nat \<Rightarrow> bool) \<Rightarrow> http_parser \<Rightarrow> string option \<Rightarrow> string option \<Rightarrow> http_parser" where
  "httpp_setvar mem parser name value =
     (case (name, value) of
        (Some n, Some v) \<Rightarrow>
          if \<not> mem 24 then parser
          else if \<not> mem 8 then parser
          else
            (let var = \<lparr>vname = n, vvalue = [v]\<rparr>
             in if httpp_getvar (Some parser) (Some n) = None
                then parser\<lparr>vars := ins_key compare_vars var (vars parser)\<rparr>
                else parser\<lparr>vars := ins_key compare_vars var (store_del compare_vars var (vars parser))\<rparr>)
      | _ \<Rightarrow> parser)"

definition httpp_deletevar :: "http_parser option \<Rightarrow> string option \<Rightarrow> http_parser option" where
  "httpp_deletevar parser name =
     (case (parser, name) of
        (Some p, Some n) \<Rightarrow> Some (p\<lparr>vars := store_del compare_vars (name_var n) (vars p)\<rparr>)
      | _ \<Rightarrow> parser)"

text \<open>Adding a value to an entry that stays where it is.\<close>

definition store_upd :: "http_var \<Rightarrow> (http_var \<Rightarrow> http_var) \<Rightarrow> var_tree \<Rightarrow> var_tree" where
  "store_upd k f tree = map (\<lambda>x. if compare_vars k x = 0 then f x else x) tree"

definition httpp_set_param_nocopy :: "(nat \<Rightarrow> bool) \<Rightarrow> var_tree \<Rightarrow> string option \<Rightarrow> string option \<Rightarrow> bool \<Rightarrow> var_tree" where
  "httpp_set_param_nocopy mem tree name value replace =
     (case (name, value) of
        (Some n, Some v) \<Rightarrow>
          (case httpp_get_param_var' tree n of
             Some found \<Rightarrow>
               if replace then
                 (if \<not> mem 24 then tree
                  else if \<not> mem 8 then tree
                  else ins_key compare_vars \<lparr>vname = n, vvalue = [v]\<rparr> (store_del compare_vars found tree))
               else if \<not> mem (8 * (length (vvalue found) + 1)) then tree
               else store_upd found (\<lambda>x. x\<lparr>vvalue := vvalue x @ [v]\<rparr>) tree
           | None \<Rightarrow>
               if \<not> mem 24 then tree
               else if \<not> mem 8 then tree
               else ins_key compare_vars \<lparr>vname = n, vvalue = [v]\<rparr> tree)
      | _ \<Rightarrow> tree)"

section \<open>URL escapes\<close>

definition hex :: "char \<Rightarrow> int" where
  "hex c = (let n = of_char c :: int in
     if 48 \<le> n \<and> n \<le> 57 then n - 48
     else if 65 \<le> n \<and> n \<le> 70 then n - 65 + 10
     else if 97 \<le> n \<and> n \<le> 102 then n - 97 + 10
     else -1)"

text \<open>The decoded bytes; \<open>None\<close> when \<open>url_unescape\<close> returns NULL.\<close>

fun url_unescape :: "string \<Rightarrow> string option" where
  "url_unescape [] = Some []"
| "url_unescape (c # cs) =
     (if c = CHR ''%'' then
        (case cs of
           a # b # rest \<Rightarrow>
             if hex a = -1 \<or> hex b = -1 then None
             else map_option ((#) (char_of (nat (hex a * 16 + hex b)))) (url_unescape rest)
         | _ \<Rightarrow> None)
      else if c = CHR ''+'' then map_option ((#) (CHR '' '')) (url_unescape cs)
      else if c = CHR ''#'' then Some []
      else if c = NUL then None
      else map_option ((#) c) (url_unescape cs))"

definition httpp_set_param :: "(nat \<Rightarrow> bool) \<Rightarrow> var_tree \<Rightarrow> string option \<Rightarrow> string option \<Rightarrow> var_tree" where
  "httpp_set_param mem tree name value =
     (case (name, value) of
        (Some n, Some v) \<Rightarrow> httpp_set_param_nocopy mem tree (Some n) (map_option cstr (url_unescape v)) True
      | _ \<Rightarrow> tree)"

section \<open>Query strings\<close>

text \<open>\<open>start\<close>, \<open>mid\<close> and \<open>end\<close> are offsets into the memory \<open>q\<close>.\<close>

definition parse_query_element :: "(nat \<Rightarrow> bool) \<Rightarrow> var_tree \<Rightarrow> string \<Rightarrow> nat \<Rightarrow> nat option \<Rightarrow> nat \<Rightarrow> var_tree" where
  "parse_query_element mem tree q start mid end =
     (if start \<ge> end then tree
      else case mid of None \<Rightarrow> tree
      | Some mid \<Rightarrow>
         (let keylen = mid - start; valuelen = end - mid - 1
          in if keylen = 0 \<or> valuelen = 0 then tree
             else
               (let key = cstr (take keylen (drop start q));
                    value = map_option cstr (url_unescape (take valuelen (drop (mid + 1) q)))
                in httpp_set_param_nocopy mem tree (Some key) value False)))"

function parse_query_loop :: "(nat \<Rightarrow> bool) \<Rightarrow> string \<Rightarrow> nat \<Rightarrow> nat \<Rightarrow> nat \<Rightarrow> nat option \<Rightarrow> var_tree \<Rightarrow> var_tree" where
  "parse_query_loop mem q qlen i start mid tree =
     (if i < qlen then
        (if q ! i = CHR ''&'' then
           parse_query_loop mem q qlen (i + 1) (i + 1) None (parse_query_element mem tree q start mid i)
         else if q ! i = CHR ''='' then parse_query_loop mem q qlen (i + 1) start (Some i) tree
         else parse_query_loop mem q qlen (i + 1) start mid tree)
      else parse_query_element mem tree q start mid i)"
  by pat_completeness auto
termination
  by (relation "measure (\<lambda>(mem, q, qlen, i, start, mid, tree). qlen - i)") auto

declare parse_query_loop.simps [simp del]

text \<open>\<open>query\<close> is the memory behind the pointer, \<open>None\<close> for NULL; it is undefined to look at its first byte when there is none,
  or to read more than there is.\<close>

definition parse_query :: "(nat \<Rightarrow> bool) \<Rightarrow> var_tree \<Rightarrow> string option \<Rightarrow> nat \<Rightarrow> var_tree option" where
  "parse_query mem tree query qlen =
     (case query of None \<Rightarrow> Some tree
      | Some q \<Rightarrow>
         if q = [] then None
         else if hd q = NUL then Some tree
         else if length q < qlen then None
         else Some (parse_query_loop mem q qlen 0 0 None tree))"

section \<open>Cutting the input into lines\<close>

definition MAX_HEADERS :: nat where "MAX_HEADERS = 32"

text \<open>The array \<open>line\<close>: offsets into the copy of the input, \<open>None\<close> where nothing has been stored. Storing behind the array
  would be undefined.\<close>

type_synonym line_array = "nat \<Rightarrow> nat option"

definition set_line :: "line_array \<Rightarrow> nat \<Rightarrow> nat \<Rightarrow> line_array option" where
  "set_line line i off = (if i < MAX_HEADERS then Some (line(i \<mapsto> off)) else None)"

function split_loop :: "nat \<Rightarrow> nat \<Rightarrow> string \<Rightarrow> line_array \<Rightarrow> nat \<Rightarrow> (string \<times> line_array \<times> nat) option" where
  "split_loop dlen i data line lines =
     (if i < dlen \<and> lines < MAX_HEADERS then
        (let data = (if data ! i = CR then data[i := NUL] else data)
         in if data ! i = LF then
              (let lines = lines + 1; data = data[i := NUL]
               in if lines \<ge> MAX_HEADERS then Some (data, line, MAX_HEADERS)
                  else if i + 1 < dlen then
                    (if data ! (i + 1) = LF \<or> data ! (i + 1) = CR then Some (data, line, lines)
                     else case set_line line lines (i + 1) of None \<Rightarrow> None
                       | Some line \<Rightarrow> split_loop dlen (i + 1) data line lines)
                  else split_loop dlen (i + 1) data line lines)
            else split_loop dlen (i + 1) data line lines)
      else Some (data, line, lines))"
  by pat_completeness auto
termination
  by (relation "measure (\<lambda>(dlen, i, data, line, lines). dlen - i)") auto

declare split_loop.simps [simp del]

text \<open>\<open>data\<close> has \<open>dlen\<close> bytes and the terminating zero behind them.\<close>

definition split_headers :: "string \<Rightarrow> nat \<Rightarrow> (string \<times> line_array \<times> nat) option" where
  "split_headers data dlen = do {
     line \<leftarrow> set_line (\<lambda>_. None) 0 0;
     split_loop dlen 0 data line 0 }"

text \<open>\<open>int slen = strlen (s)\<close> as the bound of a loop that counts an \<open>int\<close> up from 0: the length is cut to 32 bits, and for a
  negative value the loop does not run.\<close>

definition int_len :: "nat \<Rightarrow> nat" where
  "int_len n = nat (sint (word_of_nat n :: 32 word))"

section \<open>Header lines\<close>

text \<open>The inner loop of \<open>parse_headers\<close> on the first \<open>slen\<close> bytes of the string at \<open>off\<close>: the data and the offset of the value. All
  callers bound \<open>slen\<close> by \<open>int_len\<close>, so \<open>i\<close> and \<open>slen\<close> are in the range of an \<open>int\<close>.\<close>

function skip_blanks :: "string \<Rightarrow> nat \<Rightarrow> nat \<Rightarrow> nat \<Rightarrow> nat" where
  "skip_blanks data off slen i = (if i < slen \<and> data ! (off + i) = CHR '' '' then skip_blanks data off slen (i + 1) else i)"
  by pat_completeness auto
termination
  by (relation "measure (\<lambda>(data, off, slen, i). slen - i)") auto

declare skip_blanks.simps [simp del]

function header_loop :: "string \<Rightarrow> nat \<Rightarrow> nat \<Rightarrow> nat \<Rightarrow> bool \<Rightarrow> string \<times> nat option" where
  "header_loop data off slen i whitespace =
     (if i < slen then
        (if data ! (off + i) = CHR '':'' then header_loop (data[off + i := NUL]) off slen (i + 1) True
         else if whitespace then
           (let i = skip_blanks data off slen i in (data, if i < slen then Some (off + i) else None))
         else header_loop data off slen (i + 1) whitespace)
      else (data, None))"
  by pat_completeness auto
termination
  by (relation "measure (\<lambda>(data, off, slen, i, whitespace). slen - i)") auto

declare header_loop.simps [simp del]

text \<open>\<open>_lowercase\<close> of the string at \<open>off\<close>.\<close>

definition lowercase_at :: "string \<Rightarrow> nat \<Rightarrow> string option" where
  "lowercase_at data off = do {
     s \<leftarrow> cstr_at data off;
     Some (take off data @ map to_lower s @ drop (off + length s) data) }"

function parse_headers_loop :: "(nat \<Rightarrow> bool) \<Rightarrow> http_parser \<Rightarrow> string \<Rightarrow> line_array \<Rightarrow> nat \<Rightarrow> nat \<Rightarrow> http_parser option" where
  "parse_headers_loop mem parser data line lines l =
     (if l < lines then do {
        name \<leftarrow> line l;
        s \<leftarrow> cstr_at data name;
        let (data, value) = header_loop data name (int_len (length s)) 0 False;
        (case value of None \<Rightarrow> parse_headers_loop mem parser data line lines (l + 1)
         | Some value \<Rightarrow> do {
             data \<leftarrow> lowercase_at data name;
             n \<leftarrow> cstr_at data name;
             v \<leftarrow> cstr_at data value;
             parse_headers_loop mem (httpp_setvar mem parser (Some n) (Some v)) data line lines (l + 1) }) }
      else Some parser)"
  by pat_completeness auto
termination
  by (relation "measure (\<lambda>(mem, parser, data, line, lines, l). lines - l)") auto

declare parse_headers_loop.simps [simp del]

definition parse_headers :: "(nat \<Rightarrow> bool) \<Rightarrow> http_parser \<Rightarrow> string \<Rightarrow> line_array \<Rightarrow> nat \<Rightarrow> http_parser option" where
  "parse_headers mem parser data line lines = parse_headers_loop mem parser data line lines 1"

section \<open>Requests\<close>

text \<open>The loop over the request line, which starts at offset 0: the data, \<open>uri\<close> and \<open>version\<close>, and whether there is a fourth
  element.\<close>

function request_loop :: "string \<Rightarrow> nat \<Rightarrow> nat \<Rightarrow> bool \<Rightarrow> nat \<Rightarrow> nat option \<Rightarrow> nat option \<Rightarrow> string \<times> nat option \<times> nat option \<times> bool" where
  "request_loop data slen i whitespace wher uri0 version =
     (if i < slen then
        (if data ! i = CHR '' '' then request_loop (data[i := NUL]) slen (i + 1) True wher uri0 version
         else if whitespace then
           (if wher + 1 = 1 then request_loop data slen (i + 1) False (wher + 1) (Some i) version
            else if wher + 1 = 2 then request_loop data slen (i + 1) False (wher + 1) uri0 (Some i)
            else if wher + 1 = 3 then (data, uri0, version, True)
            else request_loop data slen (i + 1) False (wher + 1) uri0 version)
         else request_loop data slen (i + 1) False wher uri0 version)
      else (data, uri0, version, False))"
  by pat_completeness auto
termination
  by (relation "measure (\<lambda>(data, slen, i, whitespace, wher, uri0, version). slen - i)") auto

declare request_loop.simps [simp del]

text \<open>What \<open>httpp_parse\<close> does with the URI at offset \<open>off\<close>.\<close>

definition parse_uri :: "(nat \<Rightarrow> bool) \<Rightarrow> http_parser \<Rightarrow> string \<Rightarrow> nat \<Rightarrow> (http_parser \<times> string) option" where
  "parse_uri mem parser data off = do {
     u \<leftarrow> cstr_at data off;
     (parser, data) \<leftarrow> (case strchr u (CHR ''?'') of None \<Rightarrow> Some (parser, data)
        | Some q \<Rightarrow> do {
            let parser = httpp_setvar mem parser (Some HTTPP_VAR_RAWURI) (Some u);
            let parser = httpp_setvar mem parser (Some HTTPP_VAR_QUERYARGS) (Some (drop q u));
            let data = data[off + q := NUL];
            query \<leftarrow> cstr_at data (off + q + 1);
            tree \<leftarrow> parse_query mem (queryvars parser) (Some (drop (off + q + 1) data)) (length query);
            Some (parser\<lparr>queryvars := tree\<rparr>, data) });
     u \<leftarrow> cstr_at data off;
     Some (parser\<lparr>uri := Some u\<rparr>, data) }"

text \<open>What it does with the version at offset \<open>off\<close>: \<open>None\<close> in the second component when the request is rejected.\<close>

definition parse_version :: "(nat \<Rightarrow> bool) \<Rightarrow> http_parser \<Rightarrow> string \<Rightarrow> nat option \<Rightarrow> (http_parser \<times> string option) option" where
  "parse_version mem parser data version =
     (case version of None \<Rightarrow> Some (parser, None)
      | Some off \<Rightarrow> do {
          v \<leftarrow> cstr_at data off;
          case strchr v (CHR ''/'') of None \<Rightarrow> Some (parser, None)
          | Some k \<Rightarrow> do {
              let data = data[off + k := NUL];
              proto \<leftarrow> cstr_at data off;
              ver \<leftarrow> cstr_at data (off + k + 1);
              if proto \<noteq> [] \<and> ver \<noteq> [] then
                (let parser = httpp_setvar mem parser (Some HTTPP_VAR_PROTOCOL) (Some proto);
                     parser = httpp_setvar mem parser (Some HTTPP_VAR_VERSION) (Some ver)
                 in Some (parser, Some data))
              else Some (parser, None) } })"

text \<open>\<open>http_data\<close> is \<open>None\<close> for NULL; its length is \<open>len\<close>.\<close>

definition httpp_parse :: "(nat \<Rightarrow> bool) \<Rightarrow> http_parser \<Rightarrow> string option \<Rightarrow> (int \<times> http_parser) option" where
  "httpp_parse mem parser http_data =
     (case http_data of None \<Rightarrow> Some (0, parser)
      | Some input \<Rightarrow>
         if \<not> mem (length input + 1) then Some (0, parser)
         else do {
           (data, line, lines) \<leftarrow> split_headers (input @ [NUL]) (length input);
           off \<leftarrow> line 0;
           s \<leftarrow> cstr_at data off;
           let (data, uri0, version, extra) = request_loop data (int_len (length s)) 0 False 0 None None;
           if extra then Some (0, parser)
           else do {
             meth \<leftarrow> cstr_at data off;
             let parser = parser\<lparr>req_type := httpp_str_to_method meth\<rparr>;
             case uri0 of None \<Rightarrow> Some (0, parser)
             | Some uoff \<Rightarrow> do {
                 u \<leftarrow> cstr_at data uoff;
                 if u = [] then Some (0, parser)
                 else do {
                   (parser, data) \<leftarrow> parse_uri mem parser data uoff;
                   (parser, r) \<leftarrow> parse_version mem parser data version;
                   case r of None \<Rightarrow> Some (0, parser)
                   | Some data \<Rightarrow>
                       (case method_name (req_type parser) of None \<Rightarrow> Some (0, parser)
                        | Some m \<Rightarrow>
                            (let parser = httpp_setvar mem parser (Some HTTPP_VAR_REQ_TYPE) (Some m)
                             in case uri parser of None \<Rightarrow> Some (0, parser)
                                | Some u \<Rightarrow> do {
                                    parser \<leftarrow> parse_headers mem (httpp_setvar mem parser (Some HTTPP_VAR_URI) (Some u)) data line lines;
                                    Some (1, parser) })) } } } })"

section \<open>Responses\<close>

text \<open>The loop over the status line: the data, \<open>resp_code\<close> and \<open>message\<close>.\<close>

function response_loop :: "string \<Rightarrow> nat \<Rightarrow> nat \<Rightarrow> bool \<Rightarrow> nat \<Rightarrow> nat option \<Rightarrow> string \<times> nat option \<times> nat option" where
  "response_loop data slen i whitespace wher code =
     (if i < slen then
        (if data ! i = CHR '' '' then response_loop (data[i := NUL]) slen (i + 1) True wher code
         else if whitespace then
           (if wher + 1 = 1 then response_loop data slen (i + 1) False (wher + 1) (Some i)
            else (data, code, Some i))
         else response_loop data slen (i + 1) False wher code)
      else (data, code, None))"
  by pat_completeness auto
termination
  by (relation "measure (\<lambda>(data, slen, i, whitespace, wher, code). slen - i)") auto

declare response_loop.simps [simp del]

definition httpp_parse_response :: "(nat \<Rightarrow> bool) \<Rightarrow> http_parser \<Rightarrow> string option \<Rightarrow> string option \<Rightarrow> (int \<times> http_parser) option" where
  "httpp_parse_response mem parser http_data uri0 =
     (case http_data of None \<Rightarrow> Some (0, parser)
      | Some input \<Rightarrow>
         if \<not> mem (length input + 1) then Some (0, parser)
         else do {
           (data, line, lines) \<leftarrow> split_headers (input @ [NUL]) (length input);
           off \<leftarrow> line 0;
           s \<leftarrow> cstr_at data off;
           let (data, resp_code, message) = response_loop data (int_len (length s)) 0 False 0 None;
           case (resp_code, message) of
             (Some c, Some m) \<Rightarrow> do {
               cs \<leftarrow> cstr_at data c;
               ms \<leftarrow> cstr_at data m;
               let parser = httpp_setvar mem parser (Some HTTPP_VAR_ERROR_CODE) (Some cs);
               let code = atoi cs;
               let parser = (if code < 200 \<or> code \<ge> 300 then httpp_setvar mem parser (Some HTTPP_VAR_ERROR_MESSAGE) (Some ms) else parser);
               let parser = httpp_setvar mem parser (Some HTTPP_VAR_URI) uri0;
               let parser = httpp_setvar mem parser (Some HTTPP_VAR_REQ_TYPE) (Some ''NONE'');
               parser \<leftarrow> parse_headers mem parser data line lines;
               Some (1, parser) }
           | _ \<Rightarrow> Some (0, parser) })"

definition httpp_parse_postdata :: "(nat \<Rightarrow> bool) \<Rightarrow> http_parser \<Rightarrow> string option \<Rightarrow> nat \<Rightarrow> (int \<times> http_parser) option" where
  "httpp_parse_postdata mem parser body_data blen =
     (case httpp_getvar (Some parser) (Some ''content-type'') of None \<Rightarrow> Some (-1, parser)
      | Some header \<Rightarrow>
         if \<not> strcaseeq header ''application/x-www-form-urlencoded'' then Some (-1, parser)
         else do {
           tree \<leftarrow> parse_query mem (postvars parser) body_data blen;
           Some (0, parser\<lparr>postvars := tree\<rparr>) })"

section \<open>Parameters\<close>

definition httpp_get_param' :: "var_tree \<Rightarrow> string \<Rightarrow> string option" where
  "httpp_get_param' tree name = first_value (httpp_get_param_var' tree name)"

definition httpp_set_query_param :: "(nat \<Rightarrow> bool) \<Rightarrow> http_parser \<Rightarrow> string option \<Rightarrow> string option \<Rightarrow> http_parser" where
  "httpp_set_query_param mem parser name value = parser\<lparr>queryvars := httpp_set_param mem (queryvars parser) name value\<rparr>"

definition httpp_get_query_param :: "http_parser \<Rightarrow> string \<Rightarrow> string option" where
  "httpp_get_query_param parser name = httpp_get_param' (queryvars parser) name"

definition httpp_set_post_param :: "(nat \<Rightarrow> bool) \<Rightarrow> http_parser \<Rightarrow> string option \<Rightarrow> string option \<Rightarrow> http_parser" where
  "httpp_set_post_param mem parser name value = parser\<lparr>postvars := httpp_set_param mem (postvars parser) name value\<rparr>"

definition httpp_get_post_param :: "http_parser \<Rightarrow> string \<Rightarrow> string option" where
  "httpp_get_post_param parser name = httpp_get_param' (postvars parser) name"

definition httpp_get_param_var :: "http_parser \<Rightarrow> string \<Rightarrow> http_var option" where
  "httpp_get_param_var parser name =
     (case httpp_get_param_var' (postvars parser) name of Some ret \<Rightarrow> Some ret
      | None \<Rightarrow> httpp_get_param_var' (queryvars parser) name)"

definition httpp_get_param :: "http_parser \<Rightarrow> string \<Rightarrow> string option" where
  "httpp_get_param parser name =
     (case httpp_get_param' (postvars parser) name of Some ret \<Rightarrow> Some ret
      | None \<Rightarrow> httpp_get_param' (queryvars parser) name)"

text \<open>\<open>name[0] == '_' && name[1] == '_'\<close>.\<close>

definition is_internal :: "string \<Rightarrow> bool" where
  "is_internal name \<longleftrightarrow> take 2 name = ''__''"

definition httpp_get_any_var :: "http_parser option \<Rightarrow> httpp_ns \<Rightarrow> string option \<Rightarrow> http_var option" where
  "httpp_get_any_var parser ns name =
     (case (parser, name) of
        (Some p, Some n) \<Rightarrow>
          (case ns of
             HTTPP_NS_VAR \<Rightarrow> if \<not> is_internal n then None else httpp_get_param_var' (vars p) n
           | HTTPP_NS_HEADER \<Rightarrow> if is_internal n then None else httpp_get_param_var' (vars p) n
           | HTTPP_NS_QUERY_STRING \<Rightarrow> httpp_get_param_var' (queryvars p) n
           | HTTPP_NS_POST_BODY \<Rightarrow> httpp_get_param_var' (postvars p) n)
      | _ \<Rightarrow> None)"

text \<open>The loop of \<open>httpp_get_any_key\<close>: the names stored so far, the size of the array. The result is the names and that
  size (\<open>None\<close>: NULL).\<close>

fun any_key_loop :: "(nat \<Rightarrow> bool) \<Rightarrow> httpp_ns \<Rightarrow> var_tree \<Rightarrow> string list \<Rightarrow> nat \<Rightarrow> (string list \<times> nat) option" where
  "any_key_loop mem ns [] ret alen = Some (ret, alen)"
| "any_key_loop mem ns (var # rest) ret alen =
     (if ns = HTTPP_NS_VAR \<and> \<not> is_internal (vname var) then any_key_loop mem ns rest ret alen
      else if ns = HTTPP_NS_HEADER \<and> is_internal (vname var) then any_key_loop mem ns rest ret alen
      else if length ret = alen - 1 \<and> \<not> mem (8 * (alen + 8)) then None
      else
        (let alen = (if length ret = alen - 1 then alen + 8 else alen)
         in if \<not> mem (length (vname var) + 1) then None
            else any_key_loop mem ns rest (ret @ [vname var]) alen))"

definition httpp_get_any_key :: "(nat \<Rightarrow> bool) \<Rightarrow> http_parser option \<Rightarrow> httpp_ns \<Rightarrow> (string list \<times> nat) option" where
  "httpp_get_any_key mem parser ns =
     (case parser of None \<Rightarrow> None
      | Some p \<Rightarrow>
         (let tree = (case ns of HTTPP_NS_VAR \<Rightarrow> vars p | HTTPP_NS_HEADER \<Rightarrow> vars p
            | HTTPP_NS_QUERY_STRING \<Rightarrow> queryvars p | HTTPP_NS_POST_BODY \<Rightarrow> postvars p)
          in if \<not> mem 64 then None else any_key_loop mem ns tree [] 8))"

section \<open>The parser object\<close>

definition httpp_create_parser :: http_parser where
  "httpp_create_parser = \<lparr>prefc = 1, req_type = httpp_req_none, uri = None, vars = [], queryvars = [], postvars = []\<rparr>"

text \<open>The defaults: a list of entries, each with its values.\<close>

definition httpp_initialize :: "(nat \<Rightarrow> bool) \<Rightarrow> http_parser \<Rightarrow> http_var list \<Rightarrow> http_parser" where
  "httpp_initialize mem parser defaults =
     foldl (\<lambda>parser var. foldl (\<lambda>parser v. httpp_setvar mem parser (Some (vname var)) (Some v)) parser (vvalue var)) parser defaults"

definition httpp_addref :: "http_parser option \<Rightarrow> int \<times> http_parser option" where
  "httpp_addref parser = (case parser of None \<Rightarrow> (-1, None) | Some p \<Rightarrow> (0, Some (p\<lparr>prefc := prefc p + 1\<rparr>)))"

text \<open>The object afterwards; \<open>None\<close> when it has been cleared and freed (or was NULL).\<close>

definition httpp_release :: "http_parser option \<Rightarrow> int \<times> http_parser option" where
  "httpp_release parser =
     (case parser of None \<Rightarrow> (-1, None)
      | Some p \<Rightarrow> (let p = p\<lparr>prefc := prefc p - 1\<rparr> in if prefc p \<noteq> 0 then (0, Some p) else (0, None)))"

end
