(* ===== verification/Httpp_Parse.thy ===== *)
theory Httpp_Parse
  imports Httpp_Defs
begin

text \<open>
  The proofs about \<^verbatim>\<open>src/httpp/httpp.c\<close>: the order of variables and the invariant of the trees, the buffer with its
  terminating zero (\<open>cbuf\<close>), definedness of the parsers, and what they do with well-formed input.
\<close>

section \<open>The order of the variables\<close>

interpretation var_order: key_order compare_vars
  by unfold_locales (simp_all only: compare_vars_def strcmp_sym strcmp_trans)

lemma compare_vars_eq: "compare_vars a b = 0 \<longleftrightarrow> cstr (vname a) = cstr (vname b)"
  by (simp add: compare_vars_def strcmp_eq_0)

lemma vname_name_var [simp]: "vname (name_var n) = n"
  by (simp add: name_var_def)

lemma store_get_cong: "cstr (vname a) = cstr (vname b) \<Longrightarrow> store_get compare_vars a xs = store_get compare_vars b xs"
  by (simp add: store_get_def compare_vars_def strcmp_def)

text \<open>The invariant of a tree: ascending names without duplicates, names and values without a zero, no entry without a value.\<close>

definition tree_wf :: "var_tree \<Rightarrow> bool" where
  "tree_wf t \<longleftrightarrow> uniq compare_vars t \<and> (\<forall>x\<in>set t. NUL \<notin> set (vname x) \<and> vvalue x \<noteq> [] \<and> (\<forall>v\<in>set (vvalue x). NUL \<notin> set v))"

definition parser_wf :: "http_parser \<Rightarrow> bool" where
  "parser_wf p \<longleftrightarrow> tree_wf (vars p) \<and> tree_wf (queryvars p) \<and> tree_wf (postvars p)"

lemma tree_wf_Nil [simp]: "tree_wf []"
  by (simp add: tree_wf_def)

lemma store_get_SomeD: "store_get compare_vars k xs = Some x \<Longrightarrow> x \<in> set xs \<and> compare_vars k x = 0"
  by (auto simp: store_get_def find_Some_iff)

lemma tree_wf_del: "tree_wf t \<Longrightarrow> tree_wf (store_del compare_vars k t)"
  by (auto simp: tree_wf_def var_order.uniq_del store_del_def intro: var_order.uniq_del [unfolded store_del_def])

lemma tree_wf_ins:
  assumes "tree_wf t" "store_get compare_vars x t = None" "NUL \<notin> set (vname x)" "vvalue x \<noteq> []" "\<forall>v\<in>set (vvalue x). NUL \<notin> set v"
  shows "tree_wf (ins_key compare_vars x t)"
  using assms by (auto simp: tree_wf_def store_get_def find_None_iff intro: var_order.uniq_ins_key)

lemma first_value_wf: "tree_wf t \<Longrightarrow> first_value (store_get compare_vars k t) = None \<longleftrightarrow> store_get compare_vars k t = None"
  by (auto simp: first_value_def tree_wf_def dest: store_get_SomeD split: option.splits)

section \<open>Setting, getting and deleting variables\<close>

lemma setvar_other_fields [simp]:
  "req_type (httpp_setvar mem p n v) = req_type p" "uri (httpp_setvar mem p n v) = uri p" "prefc (httpp_setvar mem p n v) = prefc p"
  "queryvars (httpp_setvar mem p n v) = queryvars p" "postvars (httpp_setvar mem p n v) = postvars p"
  by (simp_all add: httpp_setvar_def Let_def split: option.splits)

lemma setvar_vars:
  assumes "parser_wf p" "mem 24" "mem 8"
  shows "vars (httpp_setvar mem p (Some n) (Some v)) =
    ins_key compare_vars \<lparr>vname = n, vvalue = [v]\<rparr> (store_del compare_vars \<lparr>vname = n, vvalue = [v]\<rparr> (vars p))"
proof -
  let ?x = "\<lparr>vname = n, vvalue = [v]\<rparr>"
  have g: "store_get compare_vars (name_var n) (vars p) = store_get compare_vars ?x (vars p)" by (rule store_get_cong) simp
  show ?thesis
  proof (cases "store_get compare_vars ?x (vars p)")
    case None
    then have "store_del compare_vars ?x (vars p) = vars p" by (auto simp: store_get_def store_del_def find_None_iff filter_id_conv)
    with None g assms show ?thesis by (simp add: httpp_setvar_def httpp_getvar_def first_value_def)
  next
    case (Some y)
    then have "httpp_getvar (Some p) (Some n) \<noteq> None"
      using g first_value_wf [of "vars p" "name_var n"] assms(1) by (simp add: parser_wf_def httpp_getvar_def)
    with assms show ?thesis by (auto simp: httpp_setvar_def Let_def)
  qed
qed

lemma setvar_wf:
  assumes "parser_wf p" "NUL \<notin> set n" "NUL \<notin> set v"
  shows "parser_wf (httpp_setvar mem p (Some n) (Some v))"
proof (cases "mem 24 \<and> mem 8")
  case True
  let ?x = "\<lparr>vname = n, vvalue = [v]\<rparr>"
  have "tree_wf (ins_key compare_vars ?x (store_del compare_vars ?x (vars p)))"
    using assms by (intro tree_wf_ins tree_wf_del) (simp_all add: parser_wf_def var_order.store_get_del)
  then show ?thesis using setvar_vars [of p mem n v] assms True by (simp add: parser_wf_def)
next
  case False
  then have "httpp_setvar mem p (Some n) (Some v) = p" by (auto simp: httpp_setvar_def)
  with assms show ?thesis by simp
qed

lemma getvar_setvar:
  assumes "parser_wf p" "mem 24" "mem 8"
  shows "httpp_getvar (Some (httpp_setvar mem p (Some n) (Some v))) (Some m) =
    (if cstr m = cstr n then Some v else httpp_getvar (Some p) (Some m))"
proof -
  let ?x = "\<lparr>vname = n, vvalue = [v]\<rparr>"
  have g: "httpp_getvar (Some (httpp_setvar mem p (Some n) (Some v))) (Some m) =
      first_value (store_get compare_vars (name_var m) (ins_key compare_vars ?x (store_del compare_vars ?x (vars p))))"
    unfolding httpp_getvar_def option.case prod.case setvar_vars [OF assms] ..
  show ?thesis
  proof (cases "cstr m = cstr n")
    case True
    then have "store_get compare_vars (name_var m) xs = store_get compare_vars ?x xs" for xs by (intro store_get_cong) simp
    with g True show ?thesis by (simp add: var_order.store_get_ins [OF var_order.store_del_absent] first_value_def)
  next
    case False
    then have "compare_vars (name_var m) ?x \<noteq> 0" by (simp add: compare_vars_eq)
    with g False show ?thesis by (simp add: var_order.store_get_ins_other var_order.store_get_del_other httpp_getvar_def)
  qed
qed

lemma getvar_deletevar:
  "httpp_getvar (httpp_deletevar (Some p) (Some n)) (Some m) = (if cstr m = cstr n then None else httpp_getvar (Some p) (Some m))"
proof (cases "cstr m = cstr n")
  case True
  then have "store_get compare_vars (name_var m) xs = store_get compare_vars (name_var n) xs" for xs by (intro store_get_cong) simp
  with True show ?thesis by (simp add: httpp_getvar_def httpp_deletevar_def var_order.store_get_del first_value_def)
next
  case False
  then have "compare_vars (name_var m) (name_var n) \<noteq> 0" by (simp add: compare_vars_eq)
  with False show ?thesis by (simp add: httpp_getvar_def httpp_deletevar_def var_order.store_get_del_other)
qed

section \<open>Query parameters keep the invariant\<close>

lemma compare_vars_upd:
  assumes "\<And>x. vname (f x) = vname x"
  shows "compare_vars (if b then f x else x) (if c then f y else y) = compare_vars x y"
  by (simp add: compare_vars_def assms)

lemma tree_wf_upd:
  assumes "tree_wf t" "NUL \<notin> set v"
  shows "tree_wf (store_upd k (\<lambda>x. x\<lparr>vvalue := vvalue x @ [v]\<rparr>) t)"
proof -
  have "uniq compare_vars (store_upd k (\<lambda>x. x\<lparr>vvalue := vvalue x @ [v]\<rparr>) t)"
    using assms(1) unfolding store_upd_def tree_wf_def sorted_wrt_map by (subst compare_vars_upd) auto
  with assms show ?thesis by (auto simp: tree_wf_def store_upd_def)
qed

lemma set_param_nocopy_wf:
  assumes "tree_wf t" "NUL \<notin> set n" "\<And>v. value = Some v \<Longrightarrow> NUL \<notin> set v"
  shows "tree_wf (httpp_set_param_nocopy mem t (Some n) value replace)"
proof (cases "httpp_get_param_var' t n")
  case None
  then have "store_get compare_vars \<lparr>vname = n, vvalue = [v]\<rparr> t = None" for v
    using store_get_cong [of "name_var n" "\<lparr>vname = n, vvalue = [v]\<rparr>" t] by (simp add: httpp_get_param_var'_def)
  with None assms show ?thesis
    by (auto simp: httpp_set_param_nocopy_def split: option.splits intro!: tree_wf_ins)
next
  case (Some found)
  then have f: "found \<in> set t" "cstr n = cstr (vname found)"
    by (auto simp: httpp_get_param_var'_def compare_vars_eq dest!: store_get_SomeD)
  have "store_get compare_vars \<lparr>vname = n, vvalue = [v]\<rparr> (store_del compare_vars found t) = None" for v
    using store_get_cong [of found "\<lparr>vname = n, vvalue = [v]\<rparr>" "store_del compare_vars found t"] f(2) var_order.store_get_del by simp
  with Some assms show ?thesis
    by (auto simp: httpp_set_param_nocopy_def split: option.splits intro!: tree_wf_ins tree_wf_del tree_wf_upd)
qed

lemma parse_query_element_wf: "tree_wf t \<Longrightarrow> tree_wf (parse_query_element mem t q start mid e)"
  by (auto simp: parse_query_element_def Let_def split: option.splits intro!: set_param_nocopy_wf)

lemma parse_query_loop_wf: "tree_wf t \<Longrightarrow> tree_wf (parse_query_loop mem q qlen i start mid t)"
proof (induction mem q qlen i start mid t rule: parse_query_loop.induct)
  case (1 mem q qlen i start mid t)
  then show ?case by (subst parse_query_loop.simps) (auto intro: parse_query_element_wf)
qed

lemma parse_query_wf: "tree_wf t \<Longrightarrow> parse_query mem t q qlen = Some t' \<Longrightarrow> tree_wf t'"
  by (auto simp: parse_query_def parse_query_loop_wf split: option.splits if_splits)

section \<open>Strings in the buffer\<close>

text \<open>\<open>cbuf data n\<close>: \<open>n\<close> bytes and a zero.\<close>

definition cbuf :: "string \<Rightarrow> nat \<Rightarrow> bool" where
  "cbuf data n \<longleftrightarrow> length data = n + 1 \<and> data ! n = NUL"

lemma cbuf_init [simp]: "cbuf (input @ [NUL]) (length input)"
  by (simp add: cbuf_def)

lemma cbuf_upd [simp]: "cbuf data n \<Longrightarrow> cbuf (data[i := NUL]) n"
  by (cases "i = n") (simp_all add: cbuf_def)

lemma cbuf_str:
  assumes "cbuf data n" "off \<le> n"
  obtains s where "cstr_at data off = Some s" "NUL \<notin> set s" "off + length s \<le> n"
proof -
  have "drop off data ! (n - off) = NUL" "n - off < length (drop off data)" using assms by (auto simp: cbuf_def)
  then have mem: "NUL \<in> set (drop off data)" by (metis nth_mem)
  have "length (cstr (drop off data)) < length (drop off data)"
  proof -
    obtain ys zs where "drop off data = ys @ NUL # zs" "NUL \<notin> set ys" using split_list_first [OF mem] by blast
    then show ?thesis by (simp add: cstr_stop)
  qed
  then have "off + length (cstr (drop off data)) \<le> n" using assms by (auto simp: cbuf_def)
  with mem show thesis by (intro that [of "cstr (drop off data)"]) (simp_all add: cstr_at_def)
qed

lemma cbuf_lowercase:
  assumes "cbuf data n" "off \<le> n"
  obtains data' where "lowercase_at data off = Some data'" "cbuf data' n"
proof -
  obtain s where s: "cstr_at data off = Some s" "off + length s \<le> n" by (rule cbuf_str [OF assms])
  have "cbuf (take off data @ map to_lower s @ drop (off + length s) data) n"
    using assms s(2) by (auto simp: cbuf_def nth_append)
  with s(1) show thesis by (intro that) (simp_all add: lowercase_at_def)
qed

text \<open>One round of the loop that cuts the input into lines.\<close>

lemma split_stop:
  assumes "\<not> (i < n \<and> lines < MAX_HEADERS)"
  shows "split_loop n i data line lines = Some (data, line, lines)"
  by (subst split_loop.simps) (simp only: assms if_False)

lemma split_other:
  assumes "i < n" "lines < MAX_HEADERS" "data ! i \<noteq> LF" "n < length data"
  shows "split_loop n i data line lines = split_loop n (i + 1) (if data ! i = CR then data[i := NUL] else data) line lines"
  using assms by (subst split_loop.simps) (simp add: Let_def)

lemma split_LF:
  assumes "i < n" "lines < MAX_HEADERS" "data ! i = LF"
  shows "split_loop n i data line lines =
    (let data = data[i := NUL]
     in if lines + 1 \<ge> MAX_HEADERS then Some (data, line, MAX_HEADERS)
        else if i + 1 < n then
          (if data ! (i + 1) = LF \<or> data ! (i + 1) = CR then Some (data, line, lines + 1)
           else split_loop n (i + 1) data (line(lines + 1 \<mapsto> i + 1)) (lines + 1))
        else split_loop n (i + 1) data line (lines + 1))"
  using assms by (subst split_loop.simps) (simp add: Let_def set_line_def)

definition split_ok :: "nat \<Rightarrow> (string \<times> line_array \<times> nat) option \<Rightarrow> bool" where
  "split_ok n r \<longleftrightarrow> (\<exists>data line lines. r = Some (data, line, lines) \<and> cbuf data n \<and> line 0 = Some 0 \<and>
    (\<forall>l<lines. \<exists>off\<le>n. line l = Some off) \<and> lines \<le> MAX_HEADERS)"

lemma split_loop_ok:
  "cbuf data n \<Longrightarrow> line 0 = Some 0 \<Longrightarrow> \<forall>l<lines. \<exists>off\<le>n. line l = Some off \<Longrightarrow>
    i < n \<Longrightarrow> \<exists>off\<le>n. line lines = Some off \<Longrightarrow> lines \<le> MAX_HEADERS \<Longrightarrow> split_ok n (split_loop n i data line lines)"
proof (induction "n - i" arbitrary: i data line lines)
  case (Suc k)
  have k: "k = n - (i + 1)" using Suc.hyps(2) by simp
  have len: "n < length data" using Suc.prems(1) by (simp add: cbuf_def)
  have dn: "split_ok n (split_loop n j d line' ls)"
    if "\<not> j < n" "cbuf d n" "line' 0 = Some 0" "\<forall>l<ls. \<exists>off\<le>n. line' l = Some off" "ls \<le> MAX_HEADERS" for j d line' ls
    using that by (simp add: split_stop split_ok_def)
  have nxt: "split_ok n (split_loop n (i + 1) d line' ls)"
    if "cbuf d n" "line' 0 = Some 0" "\<forall>l<ls. \<exists>off\<le>n. line' l = Some off" "i + 1 < n \<longrightarrow> (\<exists>off\<le>n. line' ls = Some off)" "ls \<le> MAX_HEADERS"
    for d line' ls
    using Suc.hyps(1) [OF k that(1-3) _ _ that(5)] that(4) dn [OF _ that(1-3,5)] by blast
  show ?case
  proof (cases "lines < MAX_HEADERS")
    case False
    with Suc.prems show ?thesis by (simp add: split_stop split_ok_def)
  next
    case True
    show ?thesis
    proof (cases "data ! i = LF")
      case False
      have "split_ok n (split_loop n (i + 1) (if data ! i = CR then data[i := NUL] else data) line lines)"
        using Suc.prems by (intro nxt) auto
      then show ?thesis using split_other [OF Suc.prems(4) True False len] by simp
    next
      case lf: True
      have ls: "\<forall>l<lines + 1. \<exists>off\<le>n. line l = Some off" using Suc.prems by (auto simp: less_Suc_eq)
      have fin: "split_ok n (Some (data[i := NUL], line, ls))" if "ls \<le> lines + 1" "ls \<le> MAX_HEADERS" for ls
        using that ls Suc.prems by (auto simp: split_ok_def)
      have "split_ok n (split_loop n (i + 1) (data[i := NUL]) line (lines + 1))" if "\<not> i + 1 < n"
        using that ls Suc.prems True by (intro nxt) auto
      moreover have "split_ok n (split_loop n (i + 1) (data[i := NUL]) (line(lines + 1 \<mapsto> i + 1)) (lines + 1))" if "i + 1 < n"
        using that ls Suc.prems True by (intro nxt) auto
      ultimately show ?thesis
        using split_LF [OF Suc.prems(4) True lf] fin [of MAX_HEADERS] fin [of "lines + 1"] by (simp add: Let_def)
    qed
  qed
qed simp

lemma split_headers_ok:
  obtains data line lines where "split_headers (input @ [NUL]) (length input) = Some (data, line, lines)" "cbuf data (length input)"
    "line 0 = Some 0" "\<forall>l<lines. \<exists>off\<le>length input. line l = Some off" "lines \<le> MAX_HEADERS"
proof -
  have "split_ok (length input) (split_loop (length input) 0 (input @ [NUL]) ((\<lambda>_. None)(0 \<mapsto> 0)) 0)"
  proof (cases "input = []")
    case True
    then show ?thesis by (simp add: split_stop split_ok_def cbuf_def)
  next
    case False
    then show ?thesis by (intro split_loop_ok) simp_all
  qed
  then show thesis using that by (auto simp: split_headers_def set_line_def MAX_HEADERS_def split_ok_def)
qed

section \<open>The parsers are defined for every input\<close>

lemma int_len_le: "int_len n \<le> n"
proof -
  have "sint (word_of_nat n :: 32 word) \<le> int n"
    by (simp add: signed_of_nat signed_take_bit_int_less_eq_self_iff)
  then show ?thesis by (simp add: int_len_def)
qed

lemma int_len_id: "n < 2 ^ 31 \<Longrightarrow> int_len n = n"
  by (simp add: int_len_def signed_of_nat signed_take_bit_int_eq_self)


lemma header_loop_ok:
  "cbuf data n \<Longrightarrow> off + slen \<le> n \<Longrightarrow> header_loop data off slen i w = (d, v) \<Longrightarrow> cbuf d n \<and> (\<forall>a. v = Some a \<longrightarrow> a \<le> n)"
proof (induction data off slen i w rule: header_loop.induct)
  case (1 data off slen i w)
  from "1.prems"(3) show ?case
    by (subst (asm) header_loop.simps) (use "1.IH" "1.prems"(1,2) in \<open>auto simp: Let_def split: if_splits\<close>)
qed

lemma request_loop_ok:
  "cbuf data n \<Longrightarrow> slen \<le> n \<Longrightarrow> (\<forall>a. u = Some a \<longrightarrow> a \<le> n) \<Longrightarrow> (\<forall>a. ver = Some a \<longrightarrow> a \<le> n) \<Longrightarrow>
    request_loop data slen i w wher u ver = (d, u', v', x) \<Longrightarrow> cbuf d n \<and> (\<forall>a. u' = Some a \<longrightarrow> a \<le> n) \<and> (\<forall>a. v' = Some a \<longrightarrow> a \<le> n)"
proof (induction data slen i w wher u ver rule: request_loop.induct)
  case (1 data slen i w wher u ver)
  from "1.prems"(5) show ?case
    by (subst (asm) request_loop.simps) (use "1.IH" "1.prems"(1-4) in \<open>auto split: if_splits\<close>)
qed

lemma response_loop_ok:
  "cbuf data n \<Longrightarrow> slen \<le> n \<Longrightarrow> (\<forall>a. c = Some a \<longrightarrow> a \<le> n) \<Longrightarrow>
    response_loop data slen i w wher c = (d, c', m) \<Longrightarrow> cbuf d n \<and> (\<forall>a. c' = Some a \<longrightarrow> a \<le> n) \<and> (\<forall>a. m = Some a \<longrightarrow> a \<le> n)"
proof (induction data slen i w wher c rule: response_loop.induct)
  case (1 data slen i w wher c)
  from "1.prems"(4) show ?case
    by (subst (asm) response_loop.simps) (use "1.IH" "1.prems"(1-3) in \<open>auto split: if_splits\<close>)
qed

lemma parse_headers_ok:
  assumes lines: "\<forall>l<lines. \<exists>off\<le>n. line l = Some off"
  shows "cbuf data n \<Longrightarrow> parser_wf p \<Longrightarrow> \<exists>p'. parse_headers_loop mem p data line lines l = Some p' \<and> parser_wf p' \<and>
    req_type p' = req_type p \<and> uri p' = uri p \<and> queryvars p' = queryvars p \<and> postvars p' = postvars p"
proof (induction "lines - l" arbitrary: data p l)
  case 0
  then show ?case by (subst parse_headers_loop.simps) simp
next
  case (Suc k)
  then have l: "l < lines" "k = lines - (l + 1)" by auto
  obtain name where name: "line l = Some name" "name \<le> n" using lines l(1) by blast
  obtain s where s: "cstr_at data name = Some s" "name + length s \<le> n" by (rule cbuf_str [OF Suc.prems(1) name(2)])
  obtain d v where h: "header_loop data name (int_len (length s)) 0 False = (d, v)" by fastforce
  have "name + int_len (length s) \<le> n" using s(2) int_len_le [of "length s"] by linarith
  note hok = header_loop_ok [OF Suc.prems(1) this h]
  show ?case
  proof (cases v)
    case None
    with Suc.hyps(1) [OF l(2) _ Suc.prems(2), of d] hok show ?thesis
      using l(1) name(1) s(1) h by (subst parse_headers_loop.simps) simp
  next
    case (Some a)
    with hok have d: "cbuf d n" "a \<le> n" by auto
    obtain d2 where d2: "lowercase_at d name = Some d2" "cbuf d2 n" by (rule cbuf_lowercase [OF d(1) name(2)])
    obtain nm where nm: "cstr_at d2 name = Some nm" "NUL \<notin> set nm" by (rule cbuf_str [OF d2(2) name(2)])
    obtain va where va: "cstr_at d2 a = Some va" "NUL \<notin> set va" by (rule cbuf_str [OF d2(2) d(2)])
    from Suc.hyps(1) [OF l(2) d2(2) setvar_wf [OF Suc.prems(2) nm(2) va(2), of mem]] show ?thesis
      using l(1) name(1) s(1) h Some d2(1) nm(1) va(1) by (subst parse_headers_loop.simps) simp
  qed
qed

lemma strchr_SomeD:
  assumes "strchr s c = Some k"
  shows "k < length s \<and> s ! k = c"
proof -
  have "c \<in> set s" using assms by (auto simp: strchr_def split: if_splits)
  then obtain ys zs where s: "s = ys @ c # zs" "c \<notin> set ys" using split_list_first by metis
  then have "takeWhile (\<lambda>x. x \<noteq> c) s = ys" unfolding s(1) by (subst takeWhile_append2) auto
  with assms s show ?thesis by (auto simp: strchr_def split: if_splits)
qed

lemma parse_query_defined: "q \<noteq> [] \<Longrightarrow> qlen \<le> length q \<Longrightarrow> \<exists>t'. parse_query mem t (Some q) qlen = Some t'"
  by (simp add: parse_query_def)

lemma parse_uri_ok:
  assumes d: "cbuf data n" "off \<le> n" and p: "parser_wf p"
  shows "\<exists>p' d'. parse_uri mem p data off = Some (p', d') \<and> cbuf d' n \<and> parser_wf p' \<and> (\<exists>u. uri p' = Some u \<and> NUL \<notin> set u) \<and>
    req_type p' = req_type p \<and> postvars p' = postvars p"
proof -
  obtain u where u: "cstr_at data off = Some u" "NUL \<notin> set u" "off + length u \<le> n" by (rule cbuf_str [OF d])
  show ?thesis
  proof (cases "strchr u (CHR ''?'')")
    case None
    with u d p show ?thesis by (auto simp: parse_uri_def parser_wf_def)
  next
    case (Some q)
    then have q: "q < length u" "off + q + 1 \<le> n" using strchr_SomeD u(3) by fastforce+
    define p1 where "p1 = httpp_setvar mem (httpp_setvar mem p (Some HTTPP_VAR_RAWURI) (Some u)) (Some HTTPP_VAR_QUERYARGS) (Some (drop q u))"
    define d1 where "d1 = data[off + q := NUL]"
    have wf: "parser_wf p1" unfolding p1_def
      by (intro setvar_wf p) (use u(2) in \<open>auto simp: httpp_var_names dest: in_set_dropD\<close>)
    have d1: "cbuf d1 n" using d(1) by (simp add: d1_def)
    obtain qs where qs: "cstr_at d1 (off + q + 1) = Some qs" "off + q + 1 + length qs \<le> n" by (rule cbuf_str [OF d1 q(2)])
    have "drop (off + q + 1) d1 \<noteq> []" "length qs \<le> length (drop (off + q + 1) d1)" using d1 q(2) qs(2) by (auto simp: cbuf_def)
    then obtain t where t: "parse_query mem (queryvars p1) (Some (drop (off + q + 1) d1)) (length qs) = Some t"
      using parse_query_defined by blast
    have twf: "tree_wf t" using parse_query_wf [OF _ t] wf by (simp add: parser_wf_def)
    have qv: "queryvars p = queryvars p1" by (simp add: p1_def)
    obtain u2 where u2: "cstr_at d1 off = Some u2" "NUL \<notin> set u2" by (rule cbuf_str [OF d1 d(2)])
    have "parse_uri mem p data off = Some (p1\<lparr>queryvars := t, uri := Some u2\<rparr>, d1)"
      using u(1) Some qs(1) t u2 by (simp add: parse_uri_def Let_def qv p1_def [symmetric] d1_def [symmetric])
    with d1 wf twf u2(2) show ?thesis by (auto simp: parser_wf_def p1_def)
  qed
qed

lemma parse_version_ok:
  assumes d: "cbuf data n" "\<forall>a. ver = Some a \<longrightarrow> a \<le> n" and p: "parser_wf p"
  shows "\<exists>p' r. parse_version mem p data ver = Some (p', r) \<and> (\<forall>d'. r = Some d' \<longrightarrow> cbuf d' n) \<and> parser_wf p' \<and> uri p' = uri p \<and>
    req_type p' = req_type p \<and> postvars p' = postvars p"
proof (cases ver)
  case None
  with p show ?thesis by (auto simp: parse_version_def)
next
  case (Some off)
  with d have off: "off \<le> n" by simp
  obtain v where v: "cstr_at data off = Some v" "NUL \<notin> set v" "off + length v \<le> n" by (rule cbuf_str [OF d(1) off])
  show ?thesis
  proof (cases "strchr v (CHR ''/'')")
    case None
    with Some v p show ?thesis by (auto simp: parse_version_def)
  next
    case slash: (Some k)
    then have k: "off + k + 1 \<le> n" using strchr_SomeD v(3) by fastforce
    define d1 where "d1 = data[off + k := NUL]"
    have d1: "cbuf d1 n" using d(1) by (simp add: d1_def)
    obtain a where a: "cstr_at d1 off = Some a" "NUL \<notin> set a" by (rule cbuf_str [OF d1 off])
    obtain b where b: "cstr_at d1 (off + k + 1) = Some b" "NUL \<notin> set b" by (rule cbuf_str [OF d1 k])
    define p1 where "p1 = httpp_setvar mem (httpp_setvar mem p (Some HTTPP_VAR_PROTOCOL) (Some a)) (Some HTTPP_VAR_VERSION) (Some b)"
    have "parser_wf p1" unfolding p1_def by (intro setvar_wf p a(2) b(2)) (simp_all add: httpp_var_names)
    then show ?thesis using Some v(1) slash a(1) b(1) d1 p
      by (auto simp: parse_version_def Let_def d1_def [symmetric] p1_def)
  qed
qed

lemma method_name_wf: "method_name m = Some s \<Longrightarrow> NUL \<notin> set s"
  by (cases m) auto

lemma parse_ok:
  assumes "parser_wf p"
  shows "\<exists>r p'. httpp_parse mem p input = Some (r, p') \<and> r \<in> {0, 1} \<and> parser_wf p' \<and> postvars p' = postvars p \<and>
    (r = 1 \<longrightarrow> uri p' \<noteq> None \<and> method_name (req_type p') \<noteq> None)"
proof (cases "input = None \<or> \<not> mem (length (the input) + 1)")
  case True
  with assms show ?thesis by (auto simp: httpp_parse_def split: option.splits)
next
  case False
  then obtain inp where inp: "input = Some inp" "mem (length inp + 1)" by auto
  let ?n = "length inp"
  obtain data line lines where sp: "split_headers (inp @ [NUL]) ?n = Some (data, line, lines)" "cbuf data ?n"
    "line 0 = Some 0" "\<forall>l<lines. \<exists>off\<le>?n. line l = Some off" by (rule split_headers_ok)
  obtain s where s: "cstr_at data 0 = Some s" "0 + length s \<le> ?n" by (rule cbuf_str [OF sp(2) le0])
  obtain d u v x where rl: "request_loop data (int_len (length s)) 0 False 0 None None = (d, u, v, x)" by (metis surj_pair)
  have rok: "cbuf d ?n" "\<forall>a. u = Some a \<longrightarrow> a \<le> ?n" "\<forall>a. v = Some a \<longrightarrow> a \<le> ?n"
    using request_loop_ok [OF sp(2) _ _ _ rl] s(2) int_len_le [of "length s"] by auto
  have front: "httpp_parse mem p input = (if x then Some (0, p) else do {
           meth \<leftarrow> cstr_at d 0;
           let parser = p\<lparr>req_type := httpp_str_to_method meth\<rparr>;
           case u of None \<Rightarrow> Some (0, parser)
             | Some uoff \<Rightarrow> do {
                 u \<leftarrow> cstr_at d uoff;
                 if u = [] then Some (0, parser)
                 else do {
                   (parser, data) \<leftarrow> parse_uri mem parser d uoff;
                   (parser, r) \<leftarrow> parse_version mem parser data v;
                   case r of None \<Rightarrow> Some (0, parser)
                   | Some data \<Rightarrow>
                       (case method_name (req_type parser) of None \<Rightarrow> Some (0, parser)
                        | Some m \<Rightarrow>
                            (let parser = httpp_setvar mem parser (Some HTTPP_VAR_REQ_TYPE) (Some m)
                             in case uri parser of None \<Rightarrow> Some (0, parser)
                                | Some u \<Rightarrow> do {
                                    parser \<leftarrow> parse_headers mem (httpp_setvar mem parser (Some HTTPP_VAR_URI) (Some u)) data line lines;
                                    Some (1, parser) })) } } })"
    by (simp add: httpp_parse_def inp inp(2) [simplified] sp(1,3) s(1) rl cong: bind_weak)
  show ?thesis
  proof (cases x)
    case True
    with front assms show ?thesis by simp
  next
    case x: False
    obtain me where me: "cstr_at d 0 = Some me" by (rule cbuf_str [OF rok(1) le0])
    define p0 where "p0 = p\<lparr>req_type := httpp_str_to_method me\<rparr>"
    have p0: "parser_wf p0" "postvars p0 = postvars p" using assms by (simp_all add: p0_def parser_wf_def)
    show ?thesis
    proof (cases u)
      case None
      with front x me p0 show ?thesis by (simp add: p0_def [symmetric])
    next
      case (Some uo)
      with rok(2) have uo: "uo \<le> ?n" by simp
      obtain us where us: "cstr_at d uo = Some us" by (rule cbuf_str [OF rok(1) uo])
      obtain p1 d1 where p1: "parse_uri mem p0 d uo = Some (p1, d1)" "cbuf d1 ?n" "parser_wf p1" "\<exists>u. uri p1 = Some u \<and> NUL \<notin> set u" "postvars p1 = postvars p0"
        using parse_uri_ok [OF rok(1) uo p0(1), of mem] by blast
      obtain p2 r where p2: "parse_version mem p1 d1 v = Some (p2, r)" "\<forall>d'. r = Some d' \<longrightarrow> cbuf d' ?n" "parser_wf p2" "uri p2 = uri p1"
        "postvars p2 = postvars p1" using parse_version_ok [OF p1(2) rok(3) p1(3), of mem] by blast
      note ev = front [unfolded me bind.bind_lunit Let_def p0_def [symmetric] Some option.case us p1(1) p2(1) prod.case]
      show ?thesis
      proof (cases "us = [] \<or> r = None \<or> method_name (req_type p2) = None")
        case True
        with ev x p0 p1 p2 show ?thesis by (auto split: option.splits)
      next
        case False
        then obtain d2 m us2 where d2: "r = Some d2" "method_name (req_type p2) = Some m" "uri p2 = Some us2" "us \<noteq> []" "NUL \<notin> set us2"
          using p1(4) p2(4) by auto
        define p3 where "p3 = httpp_setvar mem (httpp_setvar mem p2 (Some HTTPP_VAR_REQ_TYPE) (Some m)) (Some HTTPP_VAR_URI) (Some us2)"
        have p3: "parser_wf p3" unfolding p3_def
          by (intro setvar_wf p2(3) d2(5) method_name_wf [OF d2(2)]) (simp_all add: httpp_var_names)
        have "cbuf d2 ?n" using p2(2) d2(1) by simp
        from parse_headers_ok [OF sp(4) this p3, of mem 1] obtain p4 where p4: "parse_headers mem p3 d2 line lines = Some p4" "parser_wf p4"
          "req_type p4 = req_type p3" "uri p4 = uri p3" "postvars p4 = postvars p3" unfolding parse_headers_def by blast
        have "httpp_parse mem p input = Some (1, p4)" using ev x d2 p4(1) by (simp add: p3_def)
        with p4 d2 p0 p1 p2 show ?thesis by (simp add: p3_def)
      qed
    qed
  qed
qed

lemma parse_response_ok:
  assumes "parser_wf p" "\<forall>u. uri0 = Some u \<longrightarrow> NUL \<notin> set u"
  shows "\<exists>r p'. httpp_parse_response mem p input uri0 = Some (r, p') \<and> r \<in> {0, 1} \<and> parser_wf p' \<and>
    queryvars p' = queryvars p \<and> postvars p' = postvars p \<and> (r = 0 \<longrightarrow> p' = p)"
proof (cases "input = None \<or> \<not> mem (length (the input) + 1)")
  case True
  with assms show ?thesis by (auto simp: httpp_parse_response_def split: option.splits)
next
  case False
  then obtain inp where inp: "input = Some inp" "mem (Suc (length inp))" by auto
  let ?n = "length inp"
  obtain data line lines where sp: "split_headers (inp @ [NUL]) ?n = Some (data, line, lines)" "cbuf data ?n"
    "line 0 = Some 0" "\<forall>l<lines. \<exists>off\<le>?n. line l = Some off" by (rule split_headers_ok)
  obtain s where s: "cstr_at data 0 = Some s" "0 + length s \<le> ?n" by (rule cbuf_str [OF sp(2) le0])
  obtain d c m where rl: "response_loop data (int_len (length s)) 0 False 0 None = (d, c, m)" by (metis surj_pair)
  have rok: "cbuf d ?n" "\<forall>a. c = Some a \<longrightarrow> a \<le> ?n" "\<forall>a. m = Some a \<longrightarrow> a \<le> ?n"
    using response_loop_ok [OF sp(2) _ _ rl] s(2) int_len_le [of "length s"] by auto
  show ?thesis
  proof (cases "c = None \<or> m = None")
    case True
    with assms show ?thesis by (auto simp: httpp_parse_response_def inp sp(1,3) s(1) rl split: option.splits)
  next
    case False
    then obtain ca ma where cm: "c = Some ca" "m = Some ma" "ca \<le> ?n" "ma \<le> ?n" using rok by auto
    obtain cs where cs: "cstr_at d ca = Some cs" "NUL \<notin> set cs" by (rule cbuf_str [OF rok(1) cm(3)])
    obtain ms where ms: "cstr_at d ma = Some ms" "NUL \<notin> set ms" by (rule cbuf_str [OF rok(1) cm(4)])
    define p1 where "p1 = httpp_setvar mem p (Some HTTPP_VAR_ERROR_CODE) (Some cs)"
    define p2 where "p2 = (if atoi cs < 200 \<or> atoi cs \<ge> 300 then httpp_setvar mem p1 (Some HTTPP_VAR_ERROR_MESSAGE) (Some ms) else p1)"
    define p3 where "p3 = httpp_setvar mem p2 (Some HTTPP_VAR_URI) uri0"
    define p4 where "p4 = httpp_setvar mem p3 (Some HTTPP_VAR_REQ_TYPE) (Some ''NONE'')"
    have "parser_wf p1" unfolding p1_def by (intro setvar_wf assms cs) (simp add: httpp_var_names)
    then have "parser_wf p2" unfolding p2_def using ms(2) by (auto intro!: setvar_wf simp: httpp_var_names)
    then have "parser_wf p3" unfolding p3_def using assms(2)
      by (cases uri0) (auto intro!: setvar_wf simp: httpp_var_names, simp add: httpp_setvar_def)
    then have p4: "parser_wf p4" unfolding p4_def by (intro setvar_wf) (simp_all add: httpp_var_names)
    from parse_headers_ok [OF sp(4) rok(1) this, of mem 1] obtain p5 where p5: "parse_headers mem p4 d line lines = Some p5" "parser_wf p5"
      "queryvars p5 = queryvars p4" "postvars p5 = postvars p4" unfolding parse_headers_def by blast
    have "httpp_parse_response mem p input uri0 = Some (1, p5)"
      using p5(1) by (cases "atoi cs < 200 \<or> atoi cs \<ge> 300") (simp_all add: httpp_parse_response_def inp sp(1,3) s(1) rl cm(1,2) cs(1) ms(1) Let_def p4_def p3_def p2_def p1_def)
    with p5 show ?thesis by (simp add: p4_def p3_def p2_def p1_def)
  qed
qed

section \<open>A request line with its header lines\<close>

text \<open>The buffer with the lines \<open>ls\<close>, each ended by two zeros.\<close>

definition cut :: "string list \<Rightarrow> string" where
  "cut ls = concat (map (\<lambda>l. l @ [NUL, NUL]) ls)"

definition crlf :: "string list \<Rightarrow> string" where
  "crlf ls = concat (map (\<lambda>l. l @ [CR, LF]) ls)"

lemma cut_simps [simp]: "cut [] = []" "cut (l # ls) = l @ NUL # NUL # cut ls" "cut (xs @ ys) = cut xs @ cut ys"
  by (simp_all add: cut_def)

lemma crlf_simps [simp]: "crlf [] = []" "crlf (l # ls) = l @ CR # LF # crlf ls"
  by (simp_all add: crlf_def)

lemma length_crlf: "l \<in> set ls \<Longrightarrow> length l \<le> length (crlf ls)"
  by (induction ls) auto

definition line_ok :: "string \<Rightarrow> bool" where
  "line_ok l \<longleftrightarrow> l \<noteq> [] \<and> set l \<inter> {CR, LF, NUL} = {}"

lemma split_plain:
  assumes "set l \<inter> {CR, LF} = {}" "i = length A" "lines < MAX_HEADERS" "n \<ge> length A + length l" "n < length A + length l + length r"
  shows "split_loop n i (A @ l @ r) line lines = split_loop n (i + length l) (A @ l @ r) line lines"
  using assms
proof (induction l arbitrary: i A)
  case (Cons c l)
  have c: "(A @ (c # l) @ r) ! i = c" using Cons.prems(2) by (simp add: nth_append)
  have "split_loop n i (A @ (c # l) @ r) line lines = split_loop n (i + 1) (A @ (c # l) @ r) line lines"
    using split_other [of i n lines "A @ (c # l) @ r" line] Cons.prems c by auto
  also have "\<dots> = split_loop n (i + 1) ((A @ [c]) @ l @ r) line lines" by simp
  also have "\<dots> = split_loop n (i + 1 + length l) ((A @ [c]) @ l @ r) line lines"
    by (rule Cons.IH) (use Cons.prems in auto)
  finally show ?case by simp
qed simp

text \<open>The offsets of the lines.\<close>

fun line_offsets :: "nat \<Rightarrow> string list \<Rightarrow> nat list" where
  "line_offsets off [] = []"
| "line_offsets off (l # ls) = off # line_offsets (off + length l + 2) ls"

lemma length_line_offsets [simp]: "length (line_offsets off ls) = length ls"
  by (induction ls arbitrary: off) auto

lemma split_lines:
  assumes "\<forall>l\<in>set ls. line_ok l" "ls \<noteq> []" "lines + length ls < MAX_HEADERS"
  shows "line lines = Some (length A) \<Longrightarrow> \<exists>line'. split_loop (length A + length (crlf ls) + 2) (length A) (A @ crlf ls @ CR # LF # [NUL]) line lines =
      Some (A @ cut ls @ CR # LF # [NUL], line', lines + length ls) \<and>
    (\<forall>k<lines. line' k = line k) \<and> (\<forall>k<length ls. line' (lines + k) = Some (line_offsets (length A) ls ! k))"
  using assms
proof (induction ls arbitrary: A line lines)
  case (Cons l ls)
  let ?n = "length A + length (crlf (l # ls)) + 2"
  let ?d = "A @ crlf (l # ls) @ CR # LF # [NUL]"
  have l: "set l \<inter> {CR, LF} = {}" "lines < MAX_HEADERS" using Cons.prems by (auto simp: line_ok_def)
  have e1: "split_loop ?n (length A) ?d line lines = split_loop ?n (length A + length l) ?d line lines"
    using split_plain [OF l(1) refl l(2), of A ?n "CR # LF # crlf ls @ CR # LF # [NUL]" line] by simp
  have e2: "split_loop ?n (length A + length l) ?d line lines =
      split_loop ?n (length A + length l + 1) ((A @ l @ [NUL]) @ LF # crlf ls @ CR # LF # [NUL]) line lines"
    using split_other [of "length A + length l" ?n lines ?d line] l(2) by (simp add: nth_append list_update_append)
  let ?B = "A @ l @ [NUL, NUL]"
  have nx: "(?B @ r) ! (length A + length l + 2) = r ! 0" for r by (simp add: nth_append)
  let ?i = "length A + length l + 1" and ?D = "(A @ l @ [NUL]) @ LF # crlf ls @ CR # LF # [NUL]"
  have at: "?D ! ?i = LF" by (simp add: nth_append)
  have upd: "?D[?i := NUL] = ?B @ crlf ls @ CR # LF # [NUL]" by (simp add: list_update_append)
  have i: "?i < ?n" "?i + 1 < ?n" "?i + 1 = length ?B" "\<not> lines + 1 \<ge> MAX_HEADERS" using Cons.prems(4) by auto
  note step = split_LF [OF i(1) l(2) at, of line, unfolded upd Let_def, simplified i(2,4) if_True if_False, unfolded i(3)]
  have e3: "split_loop ?n (length A) ?d line lines =
      (if (crlf ls @ CR # LF # [NUL]) ! 0 = LF \<or> (crlf ls @ CR # LF # [NUL]) ! 0 = CR
       then Some (?B @ crlf ls @ CR # LF # [NUL], line, lines + 1)
       else split_loop ?n (length ?B) (?B @ crlf ls @ CR # LF # [NUL]) (line(lines + 1 \<mapsto> length ?B)) (lines + 1))"
    using e1 e2 step i(2,4) unfolding nth_append_length_plus by (simp add: nth_append)
  show ?case
  proof (cases ls)
    case Nil
    with e3 Cons.prems(1) show ?thesis by auto
  next
    case (Cons l2 ls2)
    have "l2 \<noteq> []" "set l2 \<inter> {CR, LF} = {}" using Cons.prems(2) Cons by (auto simp: line_ok_def)
    then obtain c l3 where c: "l2 = c # l3" "c \<noteq> CR" "c \<noteq> LF" by (cases l2) auto
    let ?line = "line(lines + 1 \<mapsto> length ?B)"
    have n: "?n = length ?B + length (crlf ls) + 2" by simp
    have s1: "split_loop ?n (length A) ?d line lines = split_loop ?n (length ?B) (?B @ crlf ls @ CR # LF # [NUL]) ?line (lines + 1)"
      using e3 c Cons by simp
    have "\<exists>line'. split_loop (length ?B + length (crlf ls) + 2) (length ?B) (?B @ crlf ls @ CR # LF # [NUL]) ?line (lines + 1) =
        Some (?B @ cut ls @ CR # LF # [NUL], line', lines + 1 + length ls) \<and>
      (\<forall>k<lines + 1. line' k = ?line k) \<and> (\<forall>k<length ls. line' (lines + 1 + k) = Some (line_offsets (length ?B) ls ! k))"
      by (rule Cons.IH) (use Cons.prems Cons in simp_all)
    then obtain line' where line': "split_loop ?n (length ?B) (?B @ crlf ls @ CR # LF # [NUL]) ?line (lines + 1) =
        Some (?B @ cut ls @ CR # LF # [NUL], line', lines + 1 + length ls)"
      "\<forall>k<lines + 1. line' k = ?line k" "\<forall>k<length ls. line' (lines + 1 + k) = Some (line_offsets (length ?B) ls ! k)"
      unfolding n by blast
    have "split_loop ?n (length A) ?d line lines = Some (A @ cut (l # ls) @ CR # LF # [NUL], line', lines + length (l # ls))"
      using s1 line'(1) by simp
    moreover have "\<forall>k<lines. line' k = line k" using line'(2) by simp
    moreover have "line' (lines + k) = Some (line_offsets (length A) (l # ls) ! k)" if "k < length (l # ls)" for k
    proof (cases k)
      case 0
      with line'(2) Cons.prems(1) show ?thesis by simp
    next
      case (Suc j)
      with line'(3) that show ?thesis by (simp add: add.commute add.left_commute)
    qed
    ultimately show ?thesis by blast
  qed
qed simp

section \<open>A well-formed request\<close>

lemma takeWhile_neq: "c \<notin> set s \<Longrightarrow> takeWhile (\<lambda>x. x \<noteq> c) (s @ c # r) = s"
  by (induction s) auto

lemma strchr_first: "c \<notin> set s \<Longrightarrow> strchr (s @ c # r) c = Some (length s)"
  by (simp add: strchr_def takeWhile_neq)

lemma cstr_at_block: "NUL \<notin> set s \<Longrightarrow> cstr_at (A @ s @ NUL # r) (length A) = Some s"
  by (simp add: cstr_at_def cstr_stop)

lemma request_plain:
  assumes "CHR '' '' \<notin> set l" "i = length A" "length A + length l \<le> slen"
  shows "request_loop (A @ l @ r) slen i False w u v = request_loop (A @ l @ r) slen (i + length l) False w u v"
  using assms
proof (induction l arbitrary: i A)
  case (Cons c l)
  have "(A @ (c # l) @ r) ! i = c" using Cons.prems(2) by (simp add: nth_append)
  then have "request_loop (A @ (c # l) @ r) slen i False w u v = request_loop (A @ (c # l) @ r) slen (i + 1) False w u v"
    using Cons.prems by (subst request_loop.simps) auto
  also have "\<dots> = request_loop ((A @ [c]) @ l @ r) slen (i + 1) False w u v" by simp
  also have "\<dots> = request_loop ((A @ [c]) @ l @ r) slen (i + 1 + length l) False w u v"
    by (rule Cons.IH) (use Cons.prems in auto)
  finally show ?case by simp
qed simp

lemma request_space:
  "length A < slen \<Longrightarrow> request_loop (A @ CHR '' '' # r) slen (length A) False w u v = request_loop (A @ NUL # r) slen (length A + 1) True w u v"
  by (subst request_loop.simps) (simp add: nth_append list_update_append)

lemma request_word:
  assumes "CHR '' '' \<notin> set l" "l \<noteq> []" "length A + length l \<le> slen" "w < 2"
  shows "request_loop (A @ l @ r) slen (length A) True w u v =
    request_loop (A @ l @ r) slen (length A + length l) False (w + 1) (if w = 0 then Some (length A) else u) (if w = 1 then Some (length A) else v)"
proof -
  obtain c l' where l: "l = c # l'" using assms(2) by (cases l) auto
  have "request_loop (A @ l @ r) slen (length A) True w u v =
      request_loop (A @ l @ r) slen (length A + 1) False (w + 1) (if w = 0 then Some (length A) else u) (if w = 1 then Some (length A) else v)"
    using assms l by (subst request_loop.simps) (auto simp: nth_append)
  also have "\<dots> = request_loop ((A @ [c]) @ l' @ r) slen (length A + 1) False (w + 1) (if w = 0 then Some (length A) else u) (if w = 1 then Some (length A) else v)"
    by (simp add: l)
  also have "\<dots> = request_loop ((A @ [c]) @ l' @ r) slen (length A + 1 + length l') False (w + 1) (if w = 0 then Some (length A) else u) (if w = 1 then Some (length A) else v)"
    by (rule request_plain) (use assms l in auto)
  finally show ?thesis by (simp add: l)
qed

lemma request_line:
  assumes "CHR '' '' \<notin> set m" "CHR '' '' \<notin> set u" "CHR '' '' \<notin> set v" "u \<noteq> []" "v \<noteq> []"
  shows "request_loop (m @ CHR '' '' # u @ CHR '' '' # v @ r) (length m + length u + length v + 2) 0 False 0 None None =
    (m @ NUL # u @ NUL # v @ r, Some (length m + 1), Some (length m + length u + 2), False)"
proof -
  let ?n = "length m + length u + length v + 2"
  have "request_loop (m @ CHR '' '' # u @ CHR '' '' # v @ r) ?n 0 False 0 None None =
      request_loop (m @ CHR '' '' # u @ CHR '' '' # v @ r) ?n (length m) False 0 None None"
    using request_plain [OF assms(1), of 0 "[]" ?n] by simp
  also have "\<dots> = request_loop ((m @ [NUL]) @ u @ CHR '' '' # v @ r) ?n (length (m @ [NUL])) True 0 None None"
    by (subst request_space) simp_all
  also have "\<dots> = request_loop ((m @ [NUL]) @ u @ CHR '' '' # v @ r) ?n (length (m @ [NUL]) + length u) False 1 (Some (length m + 1)) None"
    by (subst request_word) (use assms in simp_all)
  also have "\<dots> = request_loop ((m @ [NUL] @ u) @ CHR '' '' # v @ r) ?n (length (m @ [NUL] @ u)) False 1 (Some (length m + 1)) None"
    by simp
  also have "\<dots> = request_loop ((m @ [NUL] @ u) @ NUL # v @ r) ?n (length (m @ [NUL] @ u) + 1) True 1 (Some (length m + 1)) None"
    by (rule request_space) simp
  also have "\<dots> = request_loop ((m @ NUL # u @ [NUL]) @ v @ r) ?n (length (m @ NUL # u @ [NUL])) True 1 (Some (length m + 1)) None"
    by simp
  also have "\<dots> = request_loop ((m @ NUL # u @ [NUL]) @ v @ r) ?n (length (m @ NUL # u @ [NUL]) + length v) False 2 (Some (length m + 1)) (Some (length m + length u + 2))"
    by (subst request_word) (use assms in \<open>simp_all add: numeral_2_eq_2\<close>)
  also have "\<dots> = (m @ NUL # u @ NUL # v @ r, Some (length m + 1), Some (length m + length u + 2), False)"
    by (subst request_loop.simps) simp
  finally show ?thesis .
qed

subsection \<open>The query\<close>

lemma parse_query_element_append:
  assumes "e \<le> length q" "\<forall>m. mid = Some m \<longrightarrow> m < e" "start \<le> e \<longrightarrow> (\<forall>m. mid = Some m \<longrightarrow> start \<le> m)"
  shows "parse_query_element mem t (q @ r) start mid e = parse_query_element mem t q start mid e"
  using assms by (auto simp: parse_query_element_def Let_def split: option.splits)

lemma parse_query_loop_append:
  assumes "i \<le> length q" "\<forall>m. mid = Some m \<longrightarrow> m < i \<and> start \<le> m" "start \<le> i"
  shows "parse_query_loop mem (q @ r) (length q) i start mid t = parse_query_loop mem q (length q) i start mid t"
  using assms
proof (induction "length q - i" arbitrary: i start mid t)
  case 0
  then have "i = length q" by simp
  with 0 show ?case
    by (subst parse_query_loop.simps, subst (2) parse_query_loop.simps) (simp add: parse_query_element_append)
next
  case (Suc k)
  then have i: "i < length q" "k = length q - (i + 1)" by auto
  have n: "(q @ r) ! i = q ! i" using i by (simp add: nth_append)
  have el: "parse_query_element mem t (q @ r) start mid i = parse_query_element mem t q start mid i"
    using Suc.prems by (intro parse_query_element_append) auto
  have a: "parse_query_loop mem (q @ r) (length q) (i + 1) (i + 1) None t' = parse_query_loop mem q (length q) (i + 1) (i + 1) None t'" for t'
    by (rule Suc.hyps(1)) (use i in auto)
  have b: "parse_query_loop mem (q @ r) (length q) (i + 1) start (Some i) t = parse_query_loop mem q (length q) (i + 1) start (Some i) t"
    by (rule Suc.hyps(1)) (use i Suc.prems in auto)
  have c: "parse_query_loop mem (q @ r) (length q) (i + 1) start mid t = parse_query_loop mem q (length q) (i + 1) start mid t"
    by (rule Suc.hyps(1)) (use i Suc.prems in auto)
  show ?case
    unfolding parse_query_loop.simps [of mem "q @ r" "length q" i start mid t] parse_query_loop.simps [of mem q "length q" i start mid t]
    by (simp only: i(1) n el a b c if_True)
qed

text \<open>What a query string \<open>q\<close> does to a tree.\<close>

definition query_spec :: "(nat \<Rightarrow> bool) \<Rightarrow> var_tree \<Rightarrow> string \<Rightarrow> var_tree" where
  "query_spec mem t q = (if q = [] then t else parse_query_loop mem q (length q) 0 0 None t)"

lemma parse_query_spec:
  assumes "q = [] \<or> hd q \<noteq> NUL"
  shows "parse_query mem t (Some (q @ NUL # r)) (length q) = Some (query_spec mem t q)"
proof (cases q)
  case (Cons c q')
  then have "parse_query mem t (Some (q @ NUL # r)) (length q) = Some (parse_query_loop mem (q @ NUL # r) (length q) 0 0 None t)"
    using assms by (auto simp: parse_query_def)
  also have "\<dots> = Some (query_spec mem t q)"
    using parse_query_loop_append [of 0 q None 0 mem "NUL # r" t] Cons by (simp add: query_spec_def)
  finally show ?thesis .
qed (simp add: parse_query_def query_spec_def)

text \<open>The specification of the URI part: everything before the first \<open>?\<close> is the path.\<close>

definition path_of :: "string \<Rightarrow> string" where
  "path_of u = takeWhile (\<lambda>c. c \<noteq> CHR ''?'') u"

definition uri_spec :: "(nat \<Rightarrow> bool) \<Rightarrow> http_parser \<Rightarrow> string \<Rightarrow> http_parser" where
  "uri_spec mem p u =
     (if CHR ''?'' \<in> set u then
        (let q = drop (length (path_of u)) u;
             p = httpp_setvar mem (httpp_setvar mem p (Some HTTPP_VAR_RAWURI) (Some u)) (Some HTTPP_VAR_QUERYARGS) (Some q)
         in p\<lparr>queryvars := query_spec mem (queryvars p) (tl q)\<rparr>)
      else p)\<lparr>uri := Some (path_of u)\<rparr>"

lemma parse_uri_spec:
  assumes "NUL \<notin> set u"
  shows "\<exists>u'. length u' = length u \<and> parse_uri mem p (A @ u @ NUL # r) (length A) = Some (uri_spec mem p u, A @ u' @ NUL # r)"
proof (cases "CHR ''?'' \<in> set u")
  case False
  then have pu: "path_of u = u" unfolding path_of_def by (simp add: takeWhile_eq_all_conv) metis
  have "strchr u (CHR ''?'') = None" using False by (simp add: strchr_def)
  then have "parse_uri mem p (A @ u @ NUL # r) (length A) = Some (uri_spec mem p u, A @ u @ NUL # r)"
    using False pu by (simp add: parse_uri_def cstr_at_block [OF assms] uri_spec_def)
  then show ?thesis by blast
next
  case True
  then obtain pa q where u: "u = pa @ CHR ''?'' # q" "CHR ''?'' \<notin> set pa" using split_list_first by metis
  have pu: "path_of u = pa" unfolding path_of_def u(1) using u(2) by (subst takeWhile_append2) auto
  have nq: "NUL \<notin> set q" "NUL \<notin> set pa" "q = [] \<or> hd q \<noteq> NUL" using assms u(1) by (auto dest: hd_in_set)
  have sc: "strchr u (CHR ''?'') = Some (length pa)" unfolding u(1) by (rule strchr_first [OF u(2)])
  define p1 where "p1 = httpp_setvar mem (httpp_setvar mem p (Some HTTPP_VAR_RAWURI) (Some u)) (Some HTTPP_VAR_QUERYARGS) (Some (CHR ''?'' # q))"
  have up: "(A @ u @ NUL # r)[length A + length pa := NUL] = A @ pa @ NUL # q @ NUL # r" by (simp add: u(1) list_update_append)
  have cq: "cstr_at (A @ pa @ NUL # q @ NUL # r) (length A + length pa + 1) = Some q"
    using cstr_at_block [OF nq(1), of "A @ pa @ [NUL]" r] by simp
  have dq: "drop (length A + length pa + 1) (A @ pa @ NUL # q @ NUL # r) = q @ NUL # r" by simp
  have cu: "cstr_at (A @ pa @ NUL # q @ NUL # r) (length A) = Some pa" using cstr_at_block [OF nq(2), of A "q @ NUL # r"] by simp
  have du: "drop (length pa) u = CHR ''?'' # q" by (simp add: u(1))
  have "parse_uri mem p (A @ u @ NUL # r) (length A) =
      Some (p1\<lparr>queryvars := query_spec mem (queryvars p1) q, uri := Some pa\<rparr>, A @ (pa @ NUL # q) @ NUL # r)"
    unfolding parse_uri_def cstr_at_block [OF assms] bind.bind_lunit sc option.case du p1_def [symmetric] Let_def up cq dq parse_query_spec [OF nq(3)]
      prod.case cu by simp
  moreover have "uri_spec mem p u = p1\<lparr>queryvars := query_spec mem (queryvars p1) q, uri := Some pa\<rparr>"
    using True by (simp add: uri_spec_def pu du p1_def Let_def)
  moreover have "length (pa @ NUL # q) = length u" by (simp add: u(1))
  ultimately show ?thesis by metis
qed

lemma parse_version_spec:
  assumes "NUL \<notin> set pr" "NUL \<notin> set v" "CHR ''/'' \<notin> set pr" "pr \<noteq> []" "v \<noteq> []"
  shows "parse_version mem p (A @ pr @ CHR ''/'' # v @ NUL # r) (Some (length A)) =
    Some (httpp_setvar mem (httpp_setvar mem p (Some HTTPP_VAR_PROTOCOL) (Some pr)) (Some HTTPP_VAR_VERSION) (Some v),
      Some (A @ pr @ NUL # v @ NUL # r))"
proof -
  have c: "cstr_at (A @ pr @ CHR ''/'' # v @ NUL # r) (length A) = Some (pr @ CHR ''/'' # v)"
    using cstr_at_block [of "pr @ CHR ''/'' # v" A r] assms by simp
  have sc: "strchr (pr @ CHR ''/'' # v) (CHR ''/'') = Some (length pr)" by (rule strchr_first [OF assms(3)])
  have up: "(A @ pr @ CHR ''/'' # v @ NUL # r)[length A + length pr := NUL] = A @ pr @ NUL # v @ NUL # r" by (simp add: list_update_append)
  have cp: "cstr_at (A @ pr @ NUL # v @ NUL # r) (length A) = Some pr" using cstr_at_block [OF assms(1), of A "v @ NUL # r"] by simp
  have cv: "cstr_at (A @ pr @ NUL # v @ NUL # r) (length A + length pr + 1) = Some v"
    using cstr_at_block [OF assms(2), of "A @ pr @ [NUL]" r] by simp
  show ?thesis
    unfolding parse_version_def option.case c bind.bind_lunit sc Let_def up cp cv using assms(4,5) by simp
qed

subsection \<open>Header lines\<close>

text \<open>A header: its name, the number of blanks behind the colon, its value.\<close>

type_synonym header = "string \<times> nat \<times> string"

fun header_line :: "header \<Rightarrow> string" where
  "header_line (n, k, v) = n @ CHR '':'' # replicate k (CHR '' '') @ v"

fun header_ok :: "header \<Rightarrow> bool" where
  "header_ok (n, k, v) \<longleftrightarrow> set n \<inter> {CHR '':'', NUL, CR, LF} = {} \<and> v \<noteq> [] \<and> hd v \<noteq> CHR '' '' \<and> hd v \<noteq> CHR '':'' \<and> set v \<inter> {NUL, CR, LF} = {}"

definition set_header :: "(nat \<Rightarrow> bool) \<Rightarrow> http_parser \<Rightarrow> header \<Rightarrow> http_parser" where
  "set_header mem p = (\<lambda>(n, k, v). httpp_setvar mem p (Some (map to_lower n)) (Some v))"


lemma header_plain:
  assumes "CHR '':'' \<notin> set l" "i + length l \<le> slen" "off + i = length A"
  shows "header_loop (A @ l @ r) off slen i False = header_loop (A @ l @ r) off slen (i + length l) False"
  using assms
proof (induction l arbitrary: i A)
  case (Cons c l)
  have "(A @ (c # l) @ r) ! (off + i) = c" using Cons.prems(3) by (simp add: nth_append)
  then have "header_loop (A @ (c # l) @ r) off slen i False = header_loop (A @ (c # l) @ r) off slen (i + 1) False"
    using Cons.prems by (subst header_loop.simps) auto
  also have "\<dots> = header_loop ((A @ [c]) @ l @ r) off slen (i + 1) False" by simp
  also have "\<dots> = header_loop ((A @ [c]) @ l @ r) off slen (i + 1 + length l) False"
    by (rule Cons.IH) (use Cons.prems in auto)
  finally show ?case by simp
qed simp

lemma skip_blanks_spec:
  assumes "v \<noteq> []" "hd v \<noteq> CHR '' ''" "off + i = length A" "i + k < slen"
  shows "skip_blanks (A @ replicate k (CHR '' '') @ v) off slen i = i + k"
  using assms
proof (induction k arbitrary: i A)
  case 0
  then have "(A @ v) ! (off + i) = hd v" by (simp add: nth_append hd_conv_nth)
  with 0 show ?case by (subst skip_blanks.simps) simp
next
  case (Suc k)
  have "skip_blanks (A @ replicate (Suc k) (CHR '' '') @ v) off slen i = skip_blanks ((A @ [CHR '' '']) @ replicate k (CHR '' '') @ v) off slen (i + 1)"
    using Suc.prems by (subst skip_blanks.simps) (simp add: nth_append)
  also have "\<dots> = i + 1 + k" by (rule Suc.IH) (use Suc.prems in auto)
  finally show ?case by simp
qed

lemma header_spec:
  assumes "header_ok (n, k, v)"
  shows "header_loop (A @ header_line (n, k, v) @ NUL # r) (length A) (length (header_line (n, k, v))) 0 False =
    (A @ n @ NUL # replicate k (CHR '' '') @ v @ NUL # r, Some (length A + length n + 1 + k))"
proof -
  let ?l = "length (header_line (n, k, v))" and ?B = "A @ n @ [NUL]" and ?t = "replicate k (CHR '' '') @ v @ NUL # r"
  have v: "v \<noteq> []" "hd v \<noteq> CHR '' ''" "hd v \<noteq> CHR '':''" "CHR '':'' \<notin> set n" using assms by auto
  have l: "?l = length n + 1 + k + length v" by simp
  have sl: "length n + 1 + k < ?l" using v(1) by (simp add: l)
  have "header_loop (A @ header_line (n, k, v) @ NUL # r) (length A) ?l 0 False =
      header_loop (A @ n @ CHR '':'' # ?t) (length A) ?l (0 + length n) False"
    using header_plain [OF v(4), of 0 ?l "length A" A "CHR '':'' # ?t"] by simp
  also have "\<dots> = header_loop (?B @ ?t) (length A) ?l (length n + 1) True"
    by (subst header_loop.simps) (simp add: nth_append list_update_append)
  also have "\<dots> = (let i = skip_blanks (?B @ ?t) (length A) ?l (length n + 1) in (?B @ ?t, if i < ?l then Some (length A + i) else None))"
  proof -
    have "(?B @ ?t) ! (length A + (length n + 1)) = (if k = 0 then hd v else CHR '' '')"
      using v(1) by (cases k) (auto simp: nth_append hd_conv_nth)
    then have "(?B @ ?t) ! (length A + (length n + 1)) \<noteq> CHR '':''" using v(3) by simp
    then show ?thesis using sl by (subst header_loop.simps) simp
  qed
  also have "skip_blanks (?B @ ?t) (length A) ?l (length n + 1) = length n + 1 + k"
    by (rule skip_blanks_spec) (use v sl in simp_all)
  finally show ?thesis using sl by (simp add: Let_def)
qed

lemma to_lower_not_NUL: "c \<noteq> NUL \<Longrightarrow> to_lower c \<noteq> NUL"
  by (auto simp: to_lower_def Let_def dest!: arg_cong [where f = "of_char :: char \<Rightarrow> nat" and x = "char_of _"])

lemma lowercase_no_NUL: "NUL \<notin> set n \<Longrightarrow> NUL \<notin> set (map to_lower n)"
proof (induction n)
  case (Cons c n)
  then show ?case using to_lower_not_NUL [of c] by auto
qed simp

lemma lowercase_spec:
  assumes "NUL \<notin> set n"
  shows "lowercase_at (A @ n @ NUL # r) (length A) = Some (A @ map to_lower n @ NUL # r)"
  by (simp add: lowercase_at_def cstr_at_block [OF assms])

lemma parse_headers_spec:
  assumes "list_all header_ok hs" "\<forall>k<length hs. line (l + k) = Some (line_offsets (length A) (map header_line hs) ! k)" "lines = l + length hs"
    "\<forall>h\<in>set hs. length (header_line h) < 2 ^ 31"
  shows "parse_headers_loop mem p (A @ cut (map header_line hs) @ r) line lines l = Some (foldl (set_header mem) p hs)"
  using assms
proof (induction hs arbitrary: p l A)
  case Nil
  then show ?case by (subst parse_headers_loop.simps) simp
next
  case (Cons h hs)
  obtain n k v where h: "h = (n, k, v)" by (metis surj_pair)
  let ?t = "NUL # cut (map header_line hs) @ r" and ?h = "header_line (n, k, v)"
  have ok: "header_ok (n, k, v)" "list_all header_ok hs" using Cons.prems(1) h by auto
  have il: "int_len (length ?h) = length ?h" using Cons.prems(4) h by (intro int_len_id) simp
  have nn: "NUL \<notin> set n" "NUL \<notin> set v" "NUL \<notin> set ?h" "NUL \<notin> set (map to_lower n)"
    using ok(1) lowercase_no_NUL [of n] by auto
  have d: "A @ cut (map header_line (h # hs)) @ r = A @ ?h @ NUL # ?t" by (simp add: h)
  have l: "l < lines" "line l = Some (length A)" using Cons.prems(2,3) by auto
  let ?B = "A @ map to_lower n @ NUL # replicate k (CHR '' '') @ v @ [NUL, NUL]"
  have c1: "cstr_at (A @ ?h @ NUL # ?t) (length A) = Some ?h" by (rule cstr_at_block [OF nn(3)])
  have lo: "lowercase_at (A @ n @ NUL # replicate k (CHR '' '') @ v @ NUL # ?t) (length A) =
      Some (A @ map to_lower n @ NUL # replicate k (CHR '' '') @ v @ NUL # ?t)" by (rule lowercase_spec [OF nn(1)])
  have c2: "cstr_at (A @ map to_lower n @ NUL # replicate k (CHR '' '') @ v @ NUL # ?t) (length A) = Some (map to_lower n)"
    by (rule cstr_at_block [OF nn(4)])
  have c3: "cstr_at (A @ map to_lower n @ NUL # replicate k (CHR '' '') @ v @ NUL # ?t) (length A + length n + 1 + k) = Some v"
    using cstr_at_block [OF nn(2), of "A @ map to_lower n @ NUL # replicate k (CHR '' '')" ?t] by (simp add: add.assoc)
  have "parse_headers_loop mem p (A @ ?h @ NUL # ?t) line lines l =
      parse_headers_loop mem (set_header mem p h) (A @ map to_lower n @ NUL # replicate k (CHR '' '') @ v @ NUL # ?t) line lines (l + 1)"
    unfolding parse_headers_loop.simps [of mem p "A @ ?h @ NUL # ?t" line lines l] l(2) bind.bind_lunit c1 il header_spec [OF ok(1)] Let_def prod.case
      option.case lo c2 c3 using l(1) by (simp add: set_header_def h)
  also have "\<dots> = parse_headers_loop mem (set_header mem p h) (?B @ cut (map header_line hs) @ r) line lines (l + 1)" by simp
  also have "\<dots> = Some (foldl (set_header mem) (set_header mem p h) hs)"
  proof (rule Cons.IH [OF ok(2)])
    have lb: "length ?B = length A + length ?h + 2" by simp
    show "\<forall>ka<length hs. line (l + 1 + ka) = Some (line_offsets (length ?B) (map header_line hs) ! ka)"
      using Cons.prems(2) unfolding lb h by fastforce
    show "lines = l + 1 + length hs" using Cons.prems(3) by simp
    show "\<forall>h\<in>set hs. length (header_line h) < 2 ^ 31" using Cons.prems(4) by simp
  qed
  finally show ?case unfolding d by simp
qed

subsection \<open>The whole request\<close>

text \<open>The text of a request and what it has to mean.\<close>

record request =
  rmethod :: string
  ruri :: string
  rproto :: string
  rversion :: string
  rheaders :: "header list"

definition request_text :: "request \<Rightarrow> string" where
  "request_text q = crlf ((rmethod q @ CHR '' '' # ruri q @ CHR '' '' # rproto q @ CHR ''/'' # rversion q) #
     map header_line (rheaders q)) @ [CR, LF]"

text \<open>The request is shorter than 2 GiB, so that the lengths of its lines are values of an \<open>int\<close>.\<close>

definition request_ok :: "request \<Rightarrow> bool" where
  "request_ok q \<longleftrightarrow> method_name (httpp_str_to_method (rmethod q)) \<noteq> None \<and> ruri q \<noteq> [] \<and> rproto q \<noteq> [] \<and> rversion q \<noteq> [] \<and>
     set (rmethod q @ ruri q @ rproto q @ rversion q) \<inter> {CHR '' '', NUL, CR, LF} = {} \<and> CHR ''/'' \<notin> set (rproto q) \<and>
     list_all header_ok (rheaders q) \<and> length (rheaders q) < 31 \<and> length (request_text q) < 2 ^ 31"

definition request_spec :: "(nat \<Rightarrow> bool) \<Rightarrow> http_parser \<Rightarrow> request \<Rightarrow> http_parser" where
  "request_spec mem p q =
     (let m = httpp_str_to_method (rmethod q);
          p = uri_spec mem (p\<lparr>req_type := m\<rparr>) (ruri q);
          p = httpp_setvar mem p (Some HTTPP_VAR_PROTOCOL) (Some (rproto q));
          p = httpp_setvar mem p (Some HTTPP_VAR_VERSION) (Some (rversion q));
          p = httpp_setvar mem p (Some HTTPP_VAR_REQ_TYPE) (method_name m);
          p = httpp_setvar mem p (Some HTTPP_VAR_URI) (Some (path_of (ruri q)))
      in foldl (set_header mem) p (rheaders q))"

lemma uri_spec_fields [simp]: "uri (uri_spec mem p u) = Some (path_of u)" "req_type (uri_spec mem p u) = req_type p"
  by (simp_all add: uri_spec_def Let_def)

lemma parse_request:
  assumes q: "request_ok q" and mem: "mem (length (request_text q) + 1)"
  shows "httpp_parse mem p (Some (request_text q)) = Some (1, request_spec mem p q)"
proof -
  define m u v ver hs where defs: "m = rmethod q" "u = ruri q" "v = rproto q" "ver = rversion q" "hs = rheaders q"
  define rl where "rl = m @ CHR '' '' # u @ CHR '' '' # v @ CHR ''/'' # ver"
  let ?ls = "rl # map header_line hs"
  obtain mn where mn: "method_name (httpp_str_to_method m) = Some mn" using q by (auto simp: request_ok_def defs)
  have w: "CHR '' '' \<notin> set m" "CHR '' '' \<notin> set u" "CHR '' '' \<notin> set (v @ CHR ''/'' # ver)" "u \<noteq> []" "v @ CHR ''/'' # ver \<noteq> []"
    "NUL \<notin> set m" "NUL \<notin> set u" "NUL \<notin> set v" "NUL \<notin> set ver" "CHR ''/'' \<notin> set v" "v \<noteq> []" "ver \<noteq> []" "NUL \<notin> set rl"
    using q by (auto simp: request_ok_def defs rl_def)
  have hs: "list_all header_ok hs" "length hs < 31" and sz: "length (request_text q) < 2 ^ 31" using q by (auto simp: request_ok_def defs)
  have "line_ok rl" using q by (auto simp: request_ok_def defs rl_def line_ok_def)
  moreover have "line_ok (header_line h)" if "header_ok h" for h using that by (cases h) (auto simp: line_ok_def)
  ultimately have lok: "\<forall>l\<in>set ?ls. line_ok l" using hs(1) by (auto simp: list_all_iff)
  have tx: "request_text q = crlf ?ls @ [CR, LF]" by (simp add: request_text_def defs rl_def)
  obtain line where sp: "split_headers (request_text q @ [NUL]) (length (request_text q)) = Some (cut ?ls @ CR # LF # [NUL], line, length ?ls)"
    and line: "\<forall>k<length ?ls. line k = Some (line_offsets 0 ?ls ! k)"
    using split_lines [of ?ls 0 "(\<lambda>_. None)(0 \<mapsto> 0)" "[]", OF lok] hs(2)
    by (auto simp: split_headers_def set_line_def MAX_HEADERS_def tx)
  have l0: "line 0 = Some 0" using line by simp
  have short: "length l < 2 ^ 31" if "l \<in> set ?ls" for l
  proof -
    have "length l \<le> length (crlf ?ls)" using that by (rule length_crlf)
    then show ?thesis using sz by (simp only: tx length_append)
  qed
  then have il: "int_len (length rl) = length rl" by (intro int_len_id) simp
  let ?t = "NUL # cut (map header_line hs) @ CR # LF # [NUL]"
  have d0: "cut ?ls @ CR # LF # [NUL] = rl @ NUL # ?t" by simp
  have c0: "cstr_at (rl @ NUL # ?t) 0 = Some rl" using cstr_at_block [OF w(13), of "[]"] by simp
  have loop: "request_loop (rl @ NUL # ?t) (length rl) 0 False 0 None None =
      (m @ NUL # u @ NUL # v @ CHR ''/'' # ver @ NUL # ?t, Some (length m + 1), Some (length m + length u + 2), False)"
    using request_line [OF w(1-5), of "NUL # ?t"] by (simp add: rl_def add.assoc)
  let ?d1 = "m @ NUL # u @ NUL # v @ CHR ''/'' # ver @ NUL # ?t"
  have c1: "cstr_at ?d1 0 = Some m" using cstr_at_block [OF w(6), of "[]"] by simp
  have c2: "cstr_at ?d1 (length m + 1) = Some u" using cstr_at_block [OF w(7), of "m @ [NUL]"] by simp
  define p0 where "p0 = p\<lparr>req_type := httpp_str_to_method m\<rparr>"
  obtain u' where u': "length u' = length u" "parse_uri mem p0 ?d1 (length m + 1) = Some (uri_spec mem p0 u, m @ NUL # u' @ NUL # v @ CHR ''/'' # ver @ NUL # ?t)"
    using parse_uri_spec [OF w(7), of mem p0 "m @ [NUL]" "v @ CHR ''/'' # ver @ NUL # ?t"] by auto
  define p2 where "p2 = httpp_setvar mem (httpp_setvar mem (uri_spec mem p0 u) (Some HTTPP_VAR_PROTOCOL) (Some v)) (Some HTTPP_VAR_VERSION) (Some ver)"
  have pv: "parse_version mem (uri_spec mem p0 u) (m @ NUL # u' @ NUL # v @ CHR ''/'' # ver @ NUL # ?t) (Some (length m + length u + 2)) =
      Some (p2, Some (m @ NUL # u' @ NUL # v @ NUL # ver @ NUL # ?t))"
    using parse_version_spec [OF w(8,9,10,11,12), of mem "uri_spec mem p0 u" "m @ NUL # u' @ [NUL]" ?t] u'(1) by (simp add: p2_def)
  define p3 where "p3 = httpp_setvar mem (httpp_setvar mem p2 (Some HTTPP_VAR_REQ_TYPE) (Some mn)) (Some HTTPP_VAR_URI) (Some (path_of u))"
  have rt: "req_type p2 = httpp_str_to_method m" "uri p2 = Some (path_of u)" by (simp_all add: p2_def p0_def)
  let ?A = "m @ NUL # u' @ NUL # v @ NUL # ver @ [NUL, NUL]"
  have ph: "parse_headers mem p3 (m @ NUL # u' @ NUL # v @ NUL # ver @ NUL # ?t) line (length ?ls) = Some (foldl (set_header mem) p3 hs)"
  proof -
    have "length ?A = length rl + 2" using u'(1) by (simp add: rl_def)
    then have "\<forall>k<length hs. line (1 + k) = Some (line_offsets (length ?A) (map header_line hs) ! k)" using line by auto
    from parse_headers_spec [OF hs(1) this, of "length ?ls" mem p3 "CR # LF # [NUL]"] short show ?thesis by (simp add: parse_headers_def)
  qed
  have "httpp_parse mem p (Some (request_text q)) = Some (1, foldl (set_header mem) p3 hs)"
    unfolding httpp_parse_def option.case sp bind.bind_lunit prod.case l0 d0 c0 il loop Let_def c1 c2 p0_def [symmetric] u'(2) pv rt mn
    using mem w(4) ph by (simp add: rt p3_def)
  moreover have "foldl (set_header mem) p3 hs = request_spec mem p q"
    by (simp add: request_spec_def Let_def p3_def p2_def p0_def mn [unfolded defs] defs)
  ultimately show ?thesis by simp
qed

section \<open>URL escapes\<close>

text \<open>The ways to write a byte: itself, a plus for a blank, or a percent sign with two hexadecimal digits of either case.\<close>

definition escapes :: "char \<Rightarrow> string \<Rightarrow> bool" where
  "escapes c e \<longleftrightarrow>
     e = [c] \<and> c \<notin> {CHR ''%'', CHR ''+'', CHR ''#'', NUL} \<or>
     e = ''+'' \<and> c = CHR '' '' \<or>
     (\<exists>a b. e = [CHR ''%'', a, b] \<and> hex a \<noteq> -1 \<and> hex b \<noteq> -1 \<and> of_char c = hex a * 16 + hex b)"

lemma url_unescape_escaped: "list_all2 escapes s es \<Longrightarrow> url_unescape (concat es) = Some s"
proof (induction s es rule: list_all2_induct)
  case (Cons c s e es)
  have "char_of (nat x) = c" if "of_char c = x" for x :: int
  proof -
    have "nat x = (of_char c :: nat)" unfolding that [symmetric] by (metis of_nat_of_char nat_int)
    then show ?thesis by simp
  qed
  note c = this
  from Cons(1) consider "e = [c]" "c \<notin> {CHR ''%'', CHR ''+'', CHR ''#'', NUL}" | "e = ''+''" "c = CHR '' ''"
    | a b where "e = [CHR ''%'', a, b]" "hex a \<noteq> -1" "hex b \<noteq> -1" "of_char c = hex a * 16 + hex b"
    unfolding escapes_def by blast
  then show ?case
  proof cases
    case 3
    with Cons.IH c [OF 3(4)] show ?thesis by simp
  qed (use Cons.IH in auto)
qed simp

lemma url_unescape_length: "url_unescape s = Some d \<Longrightarrow> length d \<le> length s"
proof (induction s arbitrary: d rule: url_unescape.induct)
  case (2 c cs)
  then show ?case by (auto split: if_splits list.splits) (use le_Suc_eq in fastforce)+
qed simp

section \<open>Query strings\<close>

text \<open>A key and its escaped value.\<close>

fun pair_text :: "string \<times> string list \<Rightarrow> string" where
  "pair_text (k, es) = k @ CHR ''='' # concat es"

fun query_text :: "(string \<times> string list) list \<Rightarrow> string" where
  "query_text [] = []"
| "query_text [p] = pair_text p"
| "query_text (p # ps) = pair_text p @ CHR ''&'' # query_text ps"

definition pair_ok :: "string \<times> string list \<Rightarrow> string \<Rightarrow> bool" where
  "pair_ok = (\<lambda>(k, es) v. k \<noteq> [] \<and> set k \<inter> {CHR ''='', CHR ''&'', NUL} = {} \<and> v \<noteq> [] \<and> NUL \<notin> set v \<and>
     list_all2 escapes v es \<and> set (concat es) \<inter> {CHR ''='', CHR ''&''} = {})"

definition add_param :: "(nat \<Rightarrow> bool) \<Rightarrow> var_tree \<Rightarrow> string \<times> string \<Rightarrow> var_tree" where
  "add_param mem t = (\<lambda>(k, v). httpp_set_param_nocopy mem t (Some k) (Some v) False)"

lemma query_plain:
  assumes "set l \<inter> {CHR ''='', CHR ''&''} = {}" "i = length A" "length A + length l \<le> n"
  shows "parse_query_loop mem (A @ l @ r) n i start mid t = parse_query_loop mem (A @ l @ r) n (i + length l) start mid t"
  using assms
proof (induction l arbitrary: i A)
  case (Cons c l)
  have "(A @ (c # l) @ r) ! i = c" using Cons.prems(2) by (simp add: nth_append)
  then have "parse_query_loop mem (A @ (c # l) @ r) n i start mid t = parse_query_loop mem (A @ (c # l) @ r) n (i + 1) start mid t"
    using Cons.prems by (subst parse_query_loop.simps) auto
  also have "\<dots> = parse_query_loop mem ((A @ [c]) @ l @ r) n (i + 1) start mid t" by simp
  also have "\<dots> = parse_query_loop mem ((A @ [c]) @ l @ r) n (i + 1 + length l) start mid t"
    by (rule Cons.IH) (use Cons.prems in auto)
  finally show ?case by simp
qed simp

lemma query_pair:
  assumes "pair_ok (k, es) v" "length A + length (pair_text (k, es)) \<le> n"
  shows "parse_query_loop mem (A @ pair_text (k, es) @ r) n (length A) (length A) None t =
    parse_query_loop mem (A @ pair_text (k, es) @ r) n (length A + length (pair_text (k, es))) (length A) (Some (length A + length k)) t"
proof -
  let ?q = "A @ pair_text (k, es) @ r"
  have k: "set k \<inter> {CHR ''='', CHR ''&''} = {}" "set (concat es) \<inter> {CHR ''='', CHR ''&''} = {}" using assms(1) by (auto simp: pair_ok_def)
  have "parse_query_loop mem ?q n (length A) (length A) None t = parse_query_loop mem ?q n (length A + length k) (length A) None t"
    using query_plain [OF k(1) refl, of A n mem "CHR ''='' # concat es @ r"] assms(2) by simp
  also have "\<dots> = parse_query_loop mem ?q n (length A + length k + 1) (length A) (Some (length A + length k)) t"
    using assms(2) by (subst parse_query_loop.simps) (simp add: nth_append)
  also have "\<dots> = parse_query_loop mem ?q n (length A + length k + 1 + length (concat es)) (length A) (Some (length A + length k)) t"
    using query_plain [OF k(2), of "length A + length k + 1" "A @ k @ ''=''" n mem r] assms(2) by simp
  finally show ?thesis by (simp add: add.assoc)
qed

lemma query_element:
  assumes "pair_ok (k, es) v"
  shows "parse_query_element mem t (A @ pair_text (k, es) @ r) (length A) (Some (length A + length k)) (length A + length (pair_text (k, es))) =
    add_param mem t (k, v)"
proof -
  have k: "k \<noteq> []" "NUL \<notin> set k" "NUL \<notin> set v" "v \<noteq> []" and u: "url_unescape (concat es) = Some v"
    using assms url_unescape_escaped [of v es] by (auto simp: pair_ok_def)
  then have "concat es \<noteq> []" by (metis option.inject url_unescape.simps(1))
  define e where "e = concat es"
  have e: "e \<noteq> []" "url_unescape e = Some v" and pt: "pair_text (k, es) = k @ CHR ''='' # e"
    using u \<open>concat es \<noteq> []\<close> by (simp_all add: e_def)
  have "drop (length A + length k + 1) (A @ (k @ CHR ''='' # e) @ r) = e @ r" by simp
  with k e show ?thesis unfolding pt by (auto simp: parse_query_element_def Let_def add_param_def)
qed

lemma query_pairs:
  "list_all2 pair_ok ps vs \<Longrightarrow> n = length A + length (query_text ps) \<Longrightarrow>
    parse_query_loop mem (A @ query_text ps) n (length A) (length A) None t = foldl (add_param mem) t (zip (map fst ps) vs)"
proof (induction ps arbitrary: A vs t rule: query_text.induct)
  case 1
  then show ?case by (subst parse_query_loop.simps) (simp add: parse_query_element_def)
next
  case (2 p)
  obtain k es where p: "p = (k, es)" by fastforce
  from 2(1) obtain v where v: "vs = [v]" "pair_ok (k, es) v" by (auto simp: list_all2_Cons1 p)
  have "parse_query_loop mem (A @ pair_text (k, es) @ []) n (length A) (length A) None t =
      parse_query_loop mem (A @ pair_text (k, es) @ []) n n (length A) (Some (length A + length k)) t"
    using query_pair [OF v(2), of A n mem "[]" t] 2(2) by (simp add: p)
  also have "\<dots> = parse_query_element mem t (A @ pair_text (k, es) @ []) (length A) (Some (length A + length k)) n"
    by (subst parse_query_loop.simps) simp
  also have "\<dots> = add_param mem t (k, v)" using query_element [OF v(2), of mem t A "[]"] 2(2) by (simp add: p)
  finally show ?case by (simp add: p v(1))
next
  case (3 p p2 ps)
  obtain k es where p: "p = (k, es)" by fastforce
  from 3(2) obtain v vs' where v: "vs = v # vs'" "pair_ok (k, es) v" "list_all2 pair_ok (p2 # ps) vs'" by (auto simp: list_all2_Cons1 p)
  let ?r = "CHR ''&'' # query_text (p2 # ps)" and ?m = "length A + length (pair_text (k, es))"
  let ?B = "A @ pair_text (k, es) @ ''&''"
  have "parse_query_loop mem (A @ pair_text (k, es) @ ?r) n (length A) (length A) None t =
      parse_query_loop mem (A @ pair_text (k, es) @ ?r) n ?m (length A) (Some (length A + length k)) t"
    by (rule query_pair [OF v(2)]) (use 3(3) in \<open>simp add: p\<close>)
  also have "\<dots> = parse_query_loop mem (A @ pair_text (k, es) @ ?r) n (?m + 1) (?m + 1) None
      (parse_query_element mem t (A @ pair_text (k, es) @ ?r) (length A) (Some (length A + length k)) ?m)"
  proof -
    have "(A @ pair_text (k, es) @ ?r) ! ?m = CHR ''&''" by (metis append.assoc length_append nth_append_length)
    then show ?thesis using 3(3) by (subst parse_query_loop.simps) (simp add: p)
  qed
  also have "\<dots> = parse_query_loop mem (?B @ query_text (p2 # ps)) n (length ?B) (length ?B) None (add_param mem t (k, v))"
    unfolding query_element [OF v(2)] by (simp add: add.assoc)
  also have "\<dots> = foldl (add_param mem) (add_param mem t (k, v)) (zip (map fst (p2 # ps)) vs')"
    by (rule "3.IH" [OF v(3)]) (use 3(3) in \<open>simp add: p\<close>)
  finally show ?case by (simp add: p v(1))
qed

subsection \<open>Looking up what was added\<close>

lemma get_store_upd:
  assumes "\<And>x. vname (f x) = vname x"
  shows "store_get compare_vars k (store_upd j f t) =
    (case store_get compare_vars k t of None \<Rightarrow> None | Some x \<Rightarrow> Some (if compare_vars j x = 0 then f x else x))"
  by (induction t) (auto simp: store_get_def store_upd_def compare_vars_def assms)

lemma get_add_param:
  assumes "tree_wf t" "\<And>n. mem n"
  shows "httpp_get_param_var' (add_param mem t (k, v)) j =
    (if cstr j = cstr k then Some (case httpp_get_param_var' t k of None \<Rightarrow> \<lparr>vname = k, vvalue = [v]\<rparr> | Some x \<Rightarrow> x\<lparr>vvalue := vvalue x @ [v]\<rparr>)
     else httpp_get_param_var' t j)"
proof (cases "httpp_get_param_var' t k")
  case None
  let ?x = "\<lparr>vname = k, vvalue = [v]\<rparr>"
  have abs: "\<forall>x\<in>set t. compare_vars ?x x \<noteq> 0"
    using None by (auto simp: httpp_get_param_var'_def store_get_def find_None_iff compare_vars_def)
  have ad: "add_param mem t (k, v) = ins_key compare_vars ?x t" using None assms(2) by (simp add: add_param_def httpp_set_param_nocopy_def)
  show ?thesis
  proof (cases "cstr j = cstr k")
    case True
    then have "store_get compare_vars (name_var j) xs = store_get compare_vars ?x xs" for xs by (intro store_get_cong) simp
    with True None ad var_order.store_get_ins [OF abs] show ?thesis by (simp add: httpp_get_param_var'_def)
  next
    case False
    then have "compare_vars (name_var j) ?x \<noteq> 0" by (simp add: compare_vars_eq)
    with False ad show ?thesis by (simp add: httpp_get_param_var'_def var_order.store_get_ins_other)
  qed
next
  case (Some x)
  then have x: "x \<in> set t" "cstr k = cstr (vname x)" by (auto simp: httpp_get_param_var'_def compare_vars_eq dest!: store_get_SomeD)
  have ad: "add_param mem t (k, v) = store_upd x (\<lambda>x. x\<lparr>vvalue := vvalue x @ [v]\<rparr>) t"
    using Some assms(2) by (simp add: add_param_def httpp_set_param_nocopy_def)
  show ?thesis
  proof (cases "cstr j = cstr k")
    case True
    then have "store_get compare_vars (name_var j) t = Some x"
      using Some store_get_cong [of "name_var j" "name_var k" t] by (simp add: httpp_get_param_var'_def)
    with True Some ad show ?thesis by (simp add: httpp_get_param_var'_def get_store_upd var_order.cmp_refl)
  next
    case False
    have "compare_vars x y \<noteq> 0" if "store_get compare_vars (name_var j) t = Some y" for y
      using store_get_SomeD [OF that] False x(2) by (auto simp: compare_vars_eq)
    with False ad show ?thesis by (simp add: httpp_get_param_var'_def get_store_upd split: option.splits)
  qed
qed

lemma add_param_wf: "tree_wf t \<Longrightarrow> NUL \<notin> set k \<Longrightarrow> NUL \<notin> set v \<Longrightarrow> tree_wf (add_param mem t (k, v))"
  unfolding add_param_def prod.case by (rule set_param_nocopy_wf) auto

text \<open>All values that were given for the name \<open>j\<close>, in their order.\<close>

definition values_of :: "string \<Rightarrow> (string \<times> string) list \<Rightarrow> string list" where
  "values_of j kvs = map snd (filter (\<lambda>(k, v). k = j) kvs)"

lemma add_params_values:
  assumes "\<And>n. mem n" "NUL \<notin> set j" "\<forall>(k, v)\<in>set kvs. NUL \<notin> set k \<and> NUL \<notin> set v"
  shows "tree_wf (foldl (add_param mem) [] kvs) \<and>
    map_option vvalue (httpp_get_param_var' (foldl (add_param mem) [] kvs) j) = (if values_of j kvs = [] then None else Some (values_of j kvs))"
  using assms(3)
proof (induction kvs rule: rev_induct)
  case Nil
  then show ?case by (simp add: httpp_get_param_var'_def store_get_def values_of_def)
next
  case (snoc kv kvs)
  obtain k v where kv: "kv = (k, v)" by fastforce
  let ?t = "foldl (add_param mem) [] kvs"
  have wf: "tree_wf ?t" and nn: "NUL \<notin> set k" "NUL \<notin> set v" using snoc kv by auto
  have "tree_wf (add_param mem ?t (k, v))" by (rule add_param_wf [OF wf nn])
  moreover have "map_option vvalue (httpp_get_param_var' ?t j) = (if values_of j kvs = [] then None else Some (values_of j kvs))"
    using snoc by auto
  ultimately show ?case
    using get_add_param [where mem = mem, OF wf assms(1), of k v j] nn assms(2)
    by (auto simp: kv values_of_def split: option.splits if_splits)
qed

end
