(* ===== verification/Httpp.thy ===== *)
theory Httpp
  imports Httpp_Parse
begin

text \<open>
  The properties of \<^verbatim>\<open>src/httpp/httpp.c\<close>: what a request means (\<open>request_vars\<close>), listing names, the variables in an AVL
  tree in the heap, and the theorems with their witnesses.
\<close>

section \<open>Variables after a request\<close>

definition enough :: "nat \<Rightarrow> bool" where
  "enough n = True"

text \<open>The assignments that a request makes, in their order.\<close>

definition request_vars :: "request \<Rightarrow> (string \<times> string) list" where
  "request_vars q =
     (if CHR ''?'' \<in> set (ruri q) then [(HTTPP_VAR_RAWURI, ruri q), (HTTPP_VAR_QUERYARGS, drop (length (path_of (ruri q))) (ruri q))] else []) @
     [(HTTPP_VAR_PROTOCOL, rproto q), (HTTPP_VAR_VERSION, rversion q),
      (HTTPP_VAR_REQ_TYPE, the (method_name (httpp_str_to_method (rmethod q)))), (HTTPP_VAR_URI, path_of (ruri q))] @
     map (\<lambda>(n, k, v). (map to_lower n, v)) (rheaders q)"

definition set_all :: "(nat \<Rightarrow> bool) \<Rightarrow> http_parser \<Rightarrow> (string \<times> string) list \<Rightarrow> http_parser" where
  "set_all mem = foldl (\<lambda>p (n, v). httpp_setvar mem p (Some n) (Some v))"

lemma set_all_vars:
  assumes "\<And>n. mem n" "NUL \<notin> set j"
  shows "parser_wf p \<Longrightarrow> \<forall>(n, v)\<in>set kvs. NUL \<notin> set n \<and> NUL \<notin> set v \<Longrightarrow>
    parser_wf (set_all mem p kvs) \<and>
    httpp_getvar (Some (set_all mem p kvs)) (Some j) = (case map_of (rev kvs) j of None \<Rightarrow> httpp_getvar (Some p) (Some j) | Some v \<Rightarrow> Some v)"
proof (induction kvs rule: rev_induct)
  case Nil
  then show ?case by (simp add: set_all_def)
next
  case (snoc kv kvs)
  obtain n v where kv: "kv = (n, v)" by fastforce
  have e: "set_all mem p (kvs @ [kv]) = httpp_setvar mem (set_all mem p kvs) (Some n) (Some v)" by (simp add: set_all_def kv)
  have wf: "parser_wf (set_all mem p kvs)" and nn: "NUL \<notin> set n" "NUL \<notin> set v" using snoc kv by auto
  from getvar_setvar [where mem = mem and n = n and v = v and m = j, OF wf assms(1) assms(1)] snoc assms(2) nn setvar_wf [where mem = mem, OF wf nn] show ?case
    unfolding e by (auto simp: kv)
qed

lemma setvar_upd_commute:
  "(httpp_setvar mem p n v)\<lparr>queryvars := t\<rparr> = httpp_setvar mem (p\<lparr>queryvars := t\<rparr>) n v"
  "(httpp_setvar mem p n v)\<lparr>uri := u\<rparr> = httpp_setvar mem (p\<lparr>uri := u\<rparr>) n v"
  by (auto simp: httpp_setvar_def httpp_getvar_def Let_def split: option.splits)

lemma request_spec_set_all:
  assumes "method_name (httpp_str_to_method (rmethod q)) \<noteq> None"
  shows "\<exists>t. request_spec mem p q =
    set_all mem (p\<lparr>req_type := httpp_str_to_method (rmethod q), queryvars := t, uri := Some (path_of (ruri q))\<rparr>) (request_vars q) \<and>
    t = (if CHR ''?'' \<in> set (ruri q) then query_spec mem (queryvars p) (tl (drop (length (path_of (ruri q))) (ruri q))) else queryvars p)"
proof -
  have h: "foldl (set_header mem) p' hs = set_all mem p' (map (\<lambda>(n, k, v). (map to_lower n, v)) hs)" for p' hs
    by (induction hs arbitrary: p') (auto simp: set_all_def set_header_def)
  have a: "set_all mem p' (xs @ ys) = set_all mem (set_all mem p' xs) ys" for p' xs ys by (simp add: set_all_def)
  have q: "p\<lparr>req_type := r, queryvars := queryvars p, uri := u\<rparr> = p\<lparr>req_type := r, uri := u\<rparr>" for r u by simp
  from assms obtain m where "method_name (httpp_str_to_method (rmethod q)) = Some m" by auto
  then show ?thesis
    unfolding request_spec_def Let_def h request_vars_def a
    by (simp add: set_all_def uri_spec_def Let_def setvar_upd_commute q)
qed

section \<open>Listing names\<close>

definition in_ns :: "httpp_ns \<Rightarrow> string \<Rightarrow> bool" where
  "in_ns ns n \<longleftrightarrow> (ns = HTTPP_NS_VAR \<longrightarrow> is_internal n) \<and> (ns = HTTPP_NS_HEADER \<longrightarrow> \<not> is_internal n)"

definition ns_tree :: "http_parser \<Rightarrow> httpp_ns \<Rightarrow> var_tree" where
  "ns_tree p ns = (case ns of HTTPP_NS_VAR \<Rightarrow> vars p | HTTPP_NS_HEADER \<Rightarrow> vars p | HTTPP_NS_QUERY_STRING \<Rightarrow> queryvars p
     | HTTPP_NS_POST_BODY \<Rightarrow> postvars p)"

lemma any_key_loop_spec:
  assumes "\<And>n. mem n"
  shows "length ret < alen \<Longrightarrow> \<exists>alen'. any_key_loop mem ns t ret alen = Some (ret @ filter (in_ns ns) (map vname t), alen') \<and>
    length (ret @ filter (in_ns ns) (map vname t)) < alen'"
proof (induction t arbitrary: ret alen)
  case (Cons x t)
  show ?case
  proof (cases "in_ns ns (vname x)")
    case True
    define a where "a = (if length ret = alen - 1 then alen + 8 else alen)"
    have "length (ret @ [vname x]) < a" using Cons.prems by (auto simp: a_def)
    moreover have "any_key_loop mem ns (x # t) ret alen = any_key_loop mem ns t (ret @ [vname x]) a"
      using True by (auto simp: in_ns_def assms Let_def a_def)
    ultimately show ?thesis using Cons.IH [of "ret @ [vname x]" a] True by simp
  next
    case False
    then have "any_key_loop mem ns (x # t) ret alen = any_key_loop mem ns t ret alen" by (auto simp: in_ns_def)
    with Cons.IH [OF Cons.prems] False show ?thesis by simp
  qed
qed simp

section \<open>The tree of variables in the heap\<close>

text \<open>\<open>httpp_setvar\<close> on the AVL tree itself: \<open>m\<close> is the memory that \<open>malloc\<close> returns for the node.\<close>

definition httpp_setvar_avl ::
  "addr \<Rightarrow> string \<Rightarrow> string \<Rightarrow> (http_var, 'a) avl_state \<Rightarrow> (http_var, 'a) avl_state option" where
  "httpp_setvar_avl m n v st = do {
     let var = \<lparr>vname = n, vvalue = [v]\<rparr>;
     (r, found) \<leftarrow> avl_get_op (name_var n) st;
     let hit = (case found of Some (Some x) \<Rightarrow> r = 0 \<and> vvalue x \<noteq> [] | _ \<Rightarrow> False);
     (_, st) \<leftarrow> (if hit then avl_del_op var st else Some (0, st));
     (_, st) \<leftarrow> avl_ins_op m var st;
     Some st }"

lemma setvar_avl_put:
  assumes "avl_holds compare_vars st t" "tree_wf t"
  shows "httpp_setvar_avl m n v st = map_option snd (var_order.avl.put_op m \<lparr>vname = n, vvalue = [v]\<rparr> st)"
proof -
  let ?x = "\<lparr>vname = n, vvalue = [v]\<rparr>"
  have u: "uniq compare_vars t" using assms(2) by (simp add: tree_wf_def)
  have g: "store_get compare_vars (name_var n) t = store_get compare_vars ?x t" by (rule store_get_cong) simp
  note law = var_order.avl.get_law [OF assms(1) u]
  have ne: "vvalue x \<noteq> []" if "store_get compare_vars ?x t = Some x" for x
    using store_get_SomeD [OF that] assms(2) by (auto simp: tree_wf_def)
  have b: "Option.bind y (\<lambda>(_, st). Some st) = map_option snd y" for y :: "(int \<times> (http_var, 'a) avl_state) option"
    by (cases y) auto
  show ?thesis
  proof (cases "store_get compare_vars ?x t")
    case None
    then show ?thesis using law [of "name_var n"] law [of ?x] g
      by (simp add: httpp_setvar_avl_def var_order.avl.put_op_def b)
  next
    case (Some x)
    then show ?thesis using law [of "name_var n"] law [of ?x] g ne [OF Some]
      by (cases "avl_del_op ?x st") (auto simp add: httpp_setvar_avl_def var_order.avl.put_op_def b)
  qed
qed

section \<open>Examples\<close>

lemma enough: "enough n"
  by (simp add: enough_def)

definition ex_request :: request where
  "ex_request = \<lparr>rmethod = ''get'', ruri = ''/a?b=c'', rproto = ''HTTP'', rversion = ''1.0'',
     rheaders = [(''Host'', 1, ''x''), (''__uri'', 1, ''/admin'')]\<rparr>"

lemmas to_lower_eval = to_lower_def char_of_def bit_Suc_0_iff

lemma lower_letters:
  "to_lower (CHR ''I'') = CHR ''i''"
  "to_lower (CHR ''A'') = CHR ''a''" "to_lower (CHR ''C'') = CHR ''c''" "to_lower (CHR ''D'') = CHR ''d''"
  "to_lower (CHR ''E'') = CHR ''e''" "to_lower (CHR ''G'') = CHR ''g''" "to_lower (CHR ''H'') = CHR ''h''"
  "to_lower (CHR ''L'') = CHR ''l''" "to_lower (CHR ''N'') = CHR ''n''" "to_lower (CHR ''O'') = CHR ''o''"
  "to_lower (CHR ''P'') = CHR ''p''" "to_lower (CHR ''R'') = CHR ''r''" "to_lower (CHR ''S'') = CHR ''s''"
  "to_lower (CHR ''T'') = CHR ''t''" "to_lower (CHR ''U'') = CHR ''u''" "to_lower (CHR ''Y'') = CHR ''y''"
  by (simp_all add: to_lower_eval)

lemma method_id: "method_name m = Some s \<Longrightarrow> httpp_str_to_method s = m"
  by (cases m; simp only: method_name.simps option.inject option.distinct; hypsubst;
      simp only: httpp_str_to_method_def strcaseeq_def list.map lower_letters; simp)

lemma ex_request_ok: "request_ok ex_request"
  by (simp add: request_ok_def ex_request_def request_text_def httpp_str_to_method_def strcaseeq_def to_lower_eval)

lemma create_wf [simp]: "parser_wf httpp_create_parser"
  by (simp add: parser_wf_def httpp_create_parser_def)

section \<open>Properties\<close>

text \<open>C3: the request parser is safe and total. For every input (also without memory for the copy, or NULL) \<open>httpp_parse\<close> is
  defined: it never stores behind the array of 32 line pointers, never reads a pointer that was not set and never
  leaves its copy of the input. It returns 0 or 1, keeps the three trees sorted, free of duplicates and without empty
  entries, leaves the POST variables alone, and 1 means that there is a URI and one of the known methods.\<close>

theorem httpp_parse_total:
  assumes "parser_wf p"
  shows "\<exists>r p'. httpp_parse mem p input = Some (r, p') \<and> r \<in> {0, 1} \<and> parser_wf p' \<and> postvars p' = postvars p \<and>
    (r = 1 \<longrightarrow> uri p' \<noteq> None \<and> method_name (req_type p') \<noteq> None)"
  by (rule parse_ok [OF assms])

theorem httpp_parse_total_witness:
  "\<exists>r p'. httpp_parse enough httpp_create_parser (Some ''GET /'') = Some (r, p') \<and> r \<in> {0, 1} \<and> parser_wf p' \<and>
    postvars p' = postvars httpp_create_parser \<and> (r = 1 \<longrightarrow> uri p' \<noteq> None \<and> method_name (req_type p') \<noteq> None)"
  by (rule httpp_parse_total) simp

text \<open>C7: the parser understands every well-formed request. Given the text of a method, a URI, a protocol with its version
  and up to 30 headers (each with any number of blanks behind the colon), in less than \<open>2 ^ 31\<close> bytes (the code keeps the length
  of a line in an \<open>int\<close>), \<open>httpp_parse\<close> returns 1 and does to the object what
  the request means: method, URI up to the question mark, query parameters, the internal variables, and the headers
  under their names in lower case.\<close>

theorem httpp_parse_request:
  assumes "request_ok q" "mem (length (request_text q) + 1)"
  shows "httpp_parse mem p (Some (request_text q)) = Some (1, request_spec mem p q)"
  by (rule parse_request [where mem = mem, OF assms])

theorem httpp_parse_request_witness:
  "httpp_parse enough httpp_create_parser (Some (request_text ex_request)) = Some (1, request_spec enough httpp_create_parser ex_request)"
  by (rule httpp_parse_request [where mem = enough, OF ex_request_ok enough])

lemma request_vars_plain:
  assumes "request_ok q" "(n, v) \<in> set (request_vars q)"
  shows "NUL \<notin> set n \<and> NUL \<notin> set v"
proof -
  have u: "NUL \<notin> set (ruri q)" "NUL \<notin> set (rproto q)" "NUL \<notin> set (rversion q)" and h: "list_all header_ok (rheaders q)"
    using assms(1) by (auto simp: request_ok_def)
  obtain m where m: "method_name (httpp_str_to_method (rmethod q)) = Some m" "NUL \<notin> set m"
    using assms(1) method_name_wf by (auto simp: request_ok_def)
  have p: "NUL \<notin> set (path_of (ruri q))" "NUL \<notin> set (drop k (ruri q))" for k
    using u(1) by (auto simp: path_of_def dest: set_takeWhileD in_set_dropD)
  have "NUL \<notin> set (map to_lower a) \<and> NUL \<notin> set b" if "(a, k, b) \<in> set (rheaders q)" for a k b
    using h that lowercase_no_NUL [of a] by (auto simp: list_all_iff)
  with assms(2) u m p show ?thesis
    by (auto simp: request_vars_def httpp_var_names split: if_splits)
qed

lemma request_lookup:
  assumes "request_ok q" "\<And>n. mem n" "NUL \<notin> set j"
  shows "\<exists>p. httpp_parse mem httpp_create_parser (Some (request_text q)) = Some (1, p) \<and>
    httpp_getvar (Some p) (Some j) = map_of (rev (request_vars q)) j \<and> uri p = Some (path_of (ruri q)) \<and>
    req_type p = httpp_str_to_method (rmethod q)"
proof -
  have m: "method_name (httpp_str_to_method (rmethod q)) \<noteq> None" using assms(1) by (auto simp: request_ok_def)
  obtain t where t: "request_spec mem httpp_create_parser q =
      set_all mem (httpp_create_parser\<lparr>req_type := httpp_str_to_method (rmethod q), queryvars := t, uri := Some (path_of (ruri q))\<rparr>) (request_vars q)"
    "t = (if CHR ''?'' \<in> set (ruri q) then query_spec mem (queryvars httpp_create_parser) (tl (drop (length (path_of (ruri q))) (ruri q)))
       else queryvars httpp_create_parser)"
    using request_spec_set_all [OF m, of mem httpp_create_parser] by blast
  let ?p = "httpp_create_parser\<lparr>req_type := httpp_str_to_method (rmethod q), queryvars := t, uri := Some (path_of (ruri q))\<rparr>"
  have "tree_wf t" unfolding t(2) by (simp add: httpp_create_parser_def query_spec_def parse_query_loop_wf)
  then have wf: "parser_wf ?p" by (simp add: parser_wf_def httpp_create_parser_def)
  have nn: "\<forall>(n, v)\<in>set (request_vars q). NUL \<notin> set n \<and> NUL \<notin> set v" using request_vars_plain [OF assms(1)] by blast
  have e: "httpp_getvar (Some ?p) (Some j) = None" by (simp add: httpp_getvar_def httpp_create_parser_def store_get_def first_value_def)
  have f: "uri (set_all mem p' kvs) = uri p'" "req_type (set_all mem p' kvs) = req_type p'" for p' kvs
    by (induction kvs arbitrary: p') (auto simp: set_all_def)
  have "httpp_getvar (Some (set_all mem ?p (request_vars q))) (Some j) = map_of (rev (request_vars q)) j"
    using set_all_vars [where mem = mem and p = ?p, OF assms(2,3) wf nn] e by (simp split: option.splits)
  with parse_request [where mem = mem and p = httpp_create_parser, OF assms(1) assms(2)] t(1) f show ?thesis by auto
qed

text \<open>After a well-formed request a fresh object answers every lookup as the request says: a variable has the value that
  was assigned to its name last, in the order raw URI, query arguments, protocol, version, method, URI, headers, and every
  other name has none.\<close>

theorem httpp_parse_getvar:
  assumes "request_ok q" "\<And>n. mem n" "NUL \<notin> set j"
  shows "\<exists>p. httpp_parse mem httpp_create_parser (Some (request_text q)) = Some (1, p) \<and>
    httpp_getvar (Some p) (Some j) = map_of (rev (request_vars q)) j"
  using request_lookup [where mem = mem, OF assms] by blast

theorem httpp_parse_getvar_witness:
  "\<exists>p. httpp_parse enough httpp_create_parser (Some (request_text ex_request)) = Some (1, p) \<and>
    httpp_getvar (Some p) (Some ''host'') = map_of (rev (request_vars ex_request)) ''host''"
  by (rule httpp_parse_getvar [where mem = enough, OF ex_request_ok enough]) simp

text \<open>A header can overwrite the internal variables: a request whose last header is called \<open>__uri\<close> is accepted, and the
  variable that holds the URI of the request then has the value of that header, while the field \<open>uri\<close> has the path of the
  request line.\<close>

theorem httpp_parse_header_overrides:
  assumes "request_ok q" "\<And>n. mem n" "rheaders q = hs @ [(''__uri'', k, v)]"
  shows "\<exists>p. httpp_parse mem httpp_create_parser (Some (request_text q)) = Some (1, p) \<and>
    httpp_getvar (Some p) (Some HTTPP_VAR_URI) = Some v \<and> uri p = Some (path_of (ruri q))"
proof -
  have "map to_lower ''__uri'' = ''__uri''" by (simp add: to_lower_eval)
  then have "map_of (rev (request_vars q)) HTTPP_VAR_URI = Some v"
    unfolding request_vars_def assms(3) by (simp add: HTTPP_VAR_URI_def)
  with request_lookup [where mem = mem and j = HTTPP_VAR_URI, OF assms(1,2)] show ?thesis by (auto simp: httpp_var_names)
qed

theorem httpp_parse_header_overrides_witness:
  "\<exists>p. httpp_parse enough httpp_create_parser (Some (request_text ex_request)) = Some (1, p) \<and>
    httpp_getvar (Some p) (Some HTTPP_VAR_URI) = Some ''/admin'' \<and> uri p = Some (path_of (ruri ex_request))"
  by (rule httpp_parse_header_overrides [where mem = enough and hs = "[(''Host'', 1, ''x'')]" and k = 1, OF ex_request_ok enough])
    (simp add: ex_request_def)

text \<open>C22: query strings. A query of keys and escaped values, joined by ampersands, is parsed into a sorted tree in which every
  name has exactly the values that the query gives it, in their order; names that do not occur have no entry.\<close>

theorem parse_query_values:
  assumes "list_all2 pair_ok ps vs" "ps \<noteq> []" "\<And>n. mem n" "NUL \<notin> set j"
  shows "\<exists>t. parse_query mem [] (Some (query_text ps @ NUL # r)) (length (query_text ps)) = Some t \<and> tree_wf t \<and>
    map_option vvalue (httpp_get_param_var' t j) =
      (let us = values_of j (zip (map fst ps) vs) in if us = [] then None else Some us)"
proof -
  obtain k es ps' where ps: "ps = (k, es) # ps'" using assms(2) by (cases ps) auto
  then have k: "k \<noteq> []" "hd k \<noteq> NUL" using assms(1) by (auto simp: list_all2_Cons1 pair_ok_def dest: hd_in_set)
  then have hd: "query_text ps \<noteq> []" "hd (query_text ps) \<noteq> NUL" by (cases ps'; simp add: ps)+
  have "parse_query mem [] (Some (query_text ps @ NUL # r)) (length (query_text ps)) = Some (foldl (add_param mem) [] (zip (map fst ps) vs))"
    using parse_query_spec [of "query_text ps" mem "[]" r] hd query_pairs [OF assms(1), of "length (query_text ps)" "[]" mem "[]"]
    by (simp add: query_spec_def)
  moreover have "\<forall>(k, v)\<in>set (zip (map fst ps) vs). NUL \<notin> set k \<and> NUL \<notin> set v"
    using assms(1) by (auto simp: list_all2_conv_all_nth set_zip pair_ok_def split: prod.splits) (metis fst_conv nth_map prod.collapse)+
  ultimately show ?thesis
    using add_params_values [where mem = mem and kvs = "zip (map fst ps) vs", OF assms(3,4)] by (simp add: Let_def)
qed

theorem parse_query_values_witness:
  "\<exists>t. parse_query enough [] (Some (query_text [(''a'', [''x'']), (''b'', [''%41'']), (''a'', [''y''])] @ NUL # []))
      (length (query_text [(''a'', [''x'']), (''b'', [''%41'']), (''a'', [''y''])])) = Some t \<and> tree_wf t \<and>
    map_option vvalue (httpp_get_param_var' t ''a'') =
      (let us = values_of ''a'' (zip (map fst [(''a'', [''x'']), (''b'', [''%41'']), (''a'', [''y''])]) [''x'', ''A'', ''y''])
       in if us = [] then None else Some us)"
  by (rule parse_query_values [where mem = enough, OF _ _ enough]) (simp_all add: pair_ok_def escapes_def hex_def)

text \<open>C30: URL escapes are undone: however the bytes of a string are written (themselves, a plus for a blank, or a percent
  sign and two hexadecimal digits in upper or lower case), \<open>url_unescape\<close> returns the string.\<close>

theorem url_unescape_round_trip:
  assumes "list_all2 escapes s es"
  shows "url_unescape (concat es) = Some s"
  by (rule url_unescape_escaped [OF assms])

theorem url_unescape_round_trip_witness: "url_unescape (concat [''a'', ''+'', ''%2f'']) = Some ''a /''"
  by (rule url_unescape_round_trip) (simp add: escapes_def hex_def)

text \<open>the buffer of \<open>url_unescape\<close>, one byte longer than the input, holds the result and its terminating zero.\<close>

theorem url_unescape_bound:
  assumes "url_unescape s = Some d"
  shows "length d + 1 \<le> length s + 1"
  using url_unescape_length [OF assms] by simp

theorem url_unescape_bound_witness: "length ''a /'' + 1 \<le> length ''a+%2F'' + (1 :: nat)"
  by (rule url_unescape_bound) (simp add: hex_def char_of_def bit_Suc_0_iff)

text \<open>Setting and getting. After \<open>httpp_setvar\<close> a lookup of that name gives the new value and every other lookup what it gave
  before; after \<open>httpp_deletevar\<close> the name has no value.\<close>

theorem httpp_setvar_getvar:
  assumes "parser_wf p" "mem 24" "mem 8"
  shows "httpp_getvar (Some (httpp_setvar mem p (Some n) (Some v))) (Some m) =
      (if cstr m = cstr n then Some v else httpp_getvar (Some p) (Some m)) \<and>
    httpp_getvar (httpp_deletevar (Some p) (Some n)) (Some m) = (if cstr m = cstr n then None else httpp_getvar (Some p) (Some m))"
  using getvar_setvar [where mem = mem, OF assms] getvar_deletevar by simp

theorem httpp_setvar_getvar_witness:
  "httpp_getvar (Some (httpp_setvar enough httpp_create_parser (Some ''a'') (Some ''1''))) (Some ''a'') = Some ''1'' \<and>
   httpp_getvar (httpp_deletevar (Some httpp_create_parser) (Some ''a'')) (Some ''a'') = None"
  using httpp_setvar_getvar [where mem = enough and n = "''a''" and v = "''1''" and m = "''a''", OF create_wf enough enough] by simp

text \<open>C15: the variables in the AVL tree. \<open>httpp_setvar\<close>, carried out with \<open>avl_get_by_key\<close>, \<open>avl_delete\<close> and \<open>avl_insert\<close> on a tree in the
  heap, does not fail and leaves a valid tree that holds the variables of the object after \<open>httpp_setvar\<close>, provided that the
  memory for the node is free when it is inserted.\<close>

theorem httpp_setvar_avl_refines:
  assumes "parser_wf p" "avl_holds compare_vars st (vars p)" "mem 24" "mem 8"
    "httpp_getvar (Some p) (Some n) = None \<Longrightarrow> avl_room st m"
    "\<And>st'. avl_del_op \<lparr>vname = n, vvalue = [v]\<rparr> st = Some (0, st') \<Longrightarrow> avl_room st' m"
  shows "\<exists>st'. httpp_setvar_avl m n v st = Some st' \<and> avl_holds compare_vars st' (vars (httpp_setvar mem p (Some n) (Some v)))"
proof -
  let ?x = "\<lparr>vname = n, vvalue = [v]\<rparr>"
  have wf: "tree_wf (vars p)" "uniq compare_vars (vars p)" using assms(1) by (auto simp: parser_wf_def tree_wf_def)
  have g: "store_get compare_vars (name_var n) (vars p) = store_get compare_vars ?x (vars p)" by (rule store_get_cong) simp
  have room: "avl_room st m" if "store_get compare_vars ?x (vars p) = None"
    by (rule assms(5)) (simp add: httpp_getvar_def g that first_value_def)
  obtain st' where st': "var_order.avl.put_op m ?x st = Some (0, st')"
    "avl_holds compare_vars st' (ins_key compare_vars ?x (store_del compare_vars ?x (vars p)))"
    using var_order.avl.put_law [OF assms(2) wf(2) room assms(6)] by blast
  have e: "vars (httpp_setvar mem p (Some n) (Some v)) = ins_key compare_vars ?x (store_del compare_vars ?x (vars p))"
    by (rule setvar_vars [where mem = mem, OF assms(1,3,4)])
  show ?thesis unfolding e setvar_avl_put [OF assms(2) wf(1)] st'(1) using st'(2) by simp
qed

definition ex_vars_ob :: "(http_var, unit) avl_tree" where
  "ex_vars_ob = \<lparr>root = 1, height = 0, len = 0,
     compare_fun = (\<lambda>_ a b. case (a, b) of (Some x, Some y) \<Rightarrow> compare_vars x y | _ \<Rightarrow> 0), compare_arg = ()\<rparr>"

definition ex_vars_st :: "(http_var, unit) avl_state" where
  "ex_vars_st = (ex_vars_ob, [1 \<mapsto> \<lparr>key = None, left = 0, right = 0, parent = 0, rank_and_balance = 5\<rparr>])"

lemma ex_vars_holds: "avl_holds compare_vars ex_vars_st (vars httpp_create_parser)"
proof -
  have "avl_at (snd ex_vars_st) (root ex_vars_ob) Leaf" "avl_wf ex_vars_ob Leaf"
    by (simp_all add: avl_at_def avl_wf_def ex_vars_st_def ex_vars_ob_def)
  then have "avl_repr (snd ex_vars_st) ex_vars_ob []" unfolding avl_repr_def by (intro exI [of _ Leaf]) simp
  moreover have "tcmp ex_vars_ob = compare_vars" by (intro ext) (simp add: ex_vars_ob_def)
  ultimately show ?thesis by (simp add: avl_holds_def httpp_create_parser_def ex_vars_st_def)
qed

theorem httpp_setvar_avl_refines_witness:
  "\<exists>st'. httpp_setvar_avl 7 ''a'' ''1'' ex_vars_st = Some st' \<and>
    avl_holds compare_vars st' (vars (httpp_setvar enough httpp_create_parser (Some ''a'') (Some ''1'')))"
proof (rule httpp_setvar_avl_refines [where mem = enough, OF create_wf ex_vars_holds enough enough])
  show "avl_room ex_vars_st 7" by (simp add: avl_room_def ex_vars_st_def ex_vars_ob_def)
  show "avl_room st' 7" if "avl_del_op \<lparr>vname = ''a'', vvalue = [''1'']\<rparr> ex_vars_st = Some (0, st')" for st'
    using that by (simp add: avl_del_op_def avl_delete_def ex_vars_st_def ex_vars_ob_def rd_def)
qed

text \<open>Listing the names of a namespace. \<open>httpp_get_any_key\<close> returns the names of all variables of the namespace (internal
  variables, headers, query or POST parameters) in ascending order, and the array it grows in steps of eight always has
  room for the terminating NULL pointer.\<close>

theorem httpp_get_any_key_complete:
  assumes "\<And>n. mem n"
  shows "\<exists>alen. httpp_get_any_key mem (Some p) ns = Some (filter (in_ns ns) (map vname (ns_tree p ns)), alen) \<and>
    length (filter (in_ns ns) (map vname (ns_tree p ns))) < alen"
  using any_key_loop_spec [where mem = mem and ret = "[]" and alen = 8 and ns = ns and t = "ns_tree p ns", OF assms]
  by (simp add: httpp_get_any_key_def ns_tree_def assms)

theorem httpp_get_any_key_complete_witness:
  "\<exists>alen. httpp_get_any_key enough (Some httpp_create_parser) HTTPP_NS_HEADER =
      Some (filter (in_ns HTTPP_NS_HEADER) (map vname (ns_tree httpp_create_parser HTTPP_NS_HEADER)), alen) \<and>
    length (filter (in_ns HTTPP_NS_HEADER) (map vname (ns_tree httpp_create_parser HTTPP_NS_HEADER))) < alen"
  by (rule httpp_get_any_key_complete [where mem = enough, OF enough])

text \<open>The response parser is safe and total as well: it returns 0 or 1 for every input, keeps the trees valid, and
  0 means that the object has not changed.\<close>

theorem httpp_parse_response_total:
  assumes "parser_wf p" "\<forall>u. uri0 = Some u \<longrightarrow> NUL \<notin> set u"
  shows "\<exists>r p'. httpp_parse_response mem p input uri0 = Some (r, p') \<and> r \<in> {0, 1} \<and> parser_wf p' \<and>
    queryvars p' = queryvars p \<and> postvars p' = postvars p \<and> (r = 0 \<longrightarrow> p' = p)"
  by (rule parse_response_ok [OF assms])

theorem httpp_parse_response_total_witness:
  "\<exists>r p'. httpp_parse_response enough httpp_create_parser (Some ''HTTP/1.0 200 OK'') (Some ''/x'') = Some (r, p') \<and> r \<in> {0, 1} \<and>
    parser_wf p' \<and> queryvars p' = queryvars httpp_create_parser \<and> postvars p' = postvars httpp_create_parser \<and>
    (r = 0 \<longrightarrow> p' = httpp_create_parser)"
  by (rule httpp_parse_response_total) simp_all

text \<open>form data. \<open>httpp_parse_postdata\<close> returns -1 and changes nothing unless the content type is the one of URL encoded forms (in
  any case of letters); then it returns 0 and changes the POST variables only, to a valid tree.\<close>

theorem httpp_parse_postdata_cases:
  assumes "parser_wf p" "body \<noteq> []" "blen \<le> length body"
  shows "\<exists>t. tree_wf t \<and> httpp_parse_postdata mem p (Some body) blen =
    (if \<exists>h. httpp_getvar (Some p) (Some ''content-type'') = Some h \<and> strcaseeq h ''application/x-www-form-urlencoded''
     then Some (0, p\<lparr>postvars := t\<rparr>) else Some (-1, p))"
proof -
  obtain t where t: "parse_query mem (postvars p) (Some body) blen = Some t" using parse_query_defined [OF assms(2,3)] by blast
  have "tree_wf t" using parse_query_wf [OF _ t] assms(1) by (simp add: parser_wf_def)
  then show ?thesis using t by (intro exI [of _ t]) (auto simp: httpp_parse_postdata_def split: option.splits)
qed

theorem httpp_parse_postdata_cases_witness:
  "\<exists>t. tree_wf t \<and> httpp_parse_postdata enough httpp_create_parser (Some ''a=b'') 3 =
    (if \<exists>h. httpp_getvar (Some httpp_create_parser) (Some ''content-type'') = Some h \<and> strcaseeq h ''application/x-www-form-urlencoded''
     then Some (0, httpp_create_parser\<lparr>postvars := t\<rparr>) else Some (-1, httpp_create_parser))"
  by (rule httpp_parse_postdata_cases) simp_all

text \<open>methods. The name under which a method is stored is recognised as that method, in every case of letters.\<close>

theorem httpp_method_round_trip:
  assumes "method_name m = Some s" "map to_lower s' = map to_lower s"
  shows "httpp_str_to_method s' = m"
proof -
  have "httpp_str_to_method s' = httpp_str_to_method s" unfolding httpp_str_to_method_def strcaseeq_def assms(2) ..
  also have "\<dots> = m" by (rule method_id [OF assms(1)])
  finally show ?thesis .
qed

theorem httpp_method_round_trip_witness: "httpp_str_to_method ''Source'' = httpp_req_source"
  by (rule httpp_method_round_trip [where s = "''SOURCE''"]) (simp_all add: to_lower_eval)

end
