(* ===== verification/Httpp_Api.thy ===== *)
theory Httpp_Api
  imports Httpp
begin

text \<open>
  The parser object of \<^verbatim>\<open>src/httpp/httpp.c\<close> over any sequence of calls: its type - sorted trees without duplicates whose entries
  have a name and at least one value, all of them strings, and a positive number of references - is kept by every function
  that changes it, and no call of such a sequence is undefined.
\<close>

section \<open>Calls\<close>

datatype httpp_op =
    H_initialize "http_var list"
  | H_setvar "string option" "string option"
  | H_deletevar "string option"
  | H_set_query "string option" "string option"
  | H_set_post "string option" "string option"
  | H_parse "string option"
  | H_parse_response "string option" "string option"
  | H_parse_postdata "string option" nat
  | H_addref
  | H_release

text \<open>A call on a live object: the object afterwards, \<open>None\<close> when it has been freed. The results are those of the functions.\<close>

definition httpp_do :: "(nat \<Rightarrow> bool) \<Rightarrow> httpp_op \<Rightarrow> http_parser \<Rightarrow> http_parser option option" where
  "httpp_do mem op p =
     (case op of
        H_initialize defaults \<Rightarrow> Some (Some (httpp_initialize mem p defaults))
      | H_setvar n v \<Rightarrow> Some (Some (httpp_setvar mem p n v))
      | H_deletevar n \<Rightarrow> Some (httpp_deletevar (Some p) n)
      | H_set_query n v \<Rightarrow> Some (Some (httpp_set_query_param mem p n v))
      | H_set_post n v \<Rightarrow> Some (Some (httpp_set_post_param mem p n v))
      | H_parse input \<Rightarrow> map_option (Some \<circ> snd) (httpp_parse mem p input)
      | H_parse_response input uri0 \<Rightarrow> map_option (Some \<circ> snd) (httpp_parse_response mem p input uri0)
      | H_parse_postdata body blen \<Rightarrow> map_option (Some \<circ> snd) (httpp_parse_postdata mem p body blen)
      | H_addref \<Rightarrow> Some (snd (httpp_addref (Some p)))
      | H_release \<Rightarrow> Some (snd (httpp_release (Some p))))"

text \<open>A sequence of calls, each with what the tested allocations in it do. A call on an object that has been freed is undefined.\<close>

fun httpp_calls :: "((nat \<Rightarrow> bool) \<times> httpp_op) list \<Rightarrow> http_parser option \<Rightarrow> http_parser option option" where
  "httpp_calls [] p = Some p"
| "httpp_calls ((mem, op) # ops) p = do { p \<leftarrow> p; p \<leftarrow> httpp_do mem op p; httpp_calls ops p }"

section \<open>Types\<close>

definition c_string :: "string option \<Rightarrow> bool" where
  "c_string s \<longleftrightarrow> (\<forall>x. s = Some x \<longrightarrow> NUL \<notin> set x)"

definition var_typed :: "http_var \<Rightarrow> bool" where
  "var_typed x \<longleftrightarrow> NUL \<notin> set (vname x) \<and> (\<forall>v\<in>set (vvalue x). NUL \<notin> set v)"

text \<open>The arguments: strings, and for \<open>httpp_parse_postdata\<close> as many bytes as it is told.\<close>

fun op_typed :: "httpp_op \<Rightarrow> bool" where
  "op_typed (H_initialize defaults) \<longleftrightarrow> list_all var_typed defaults"
| "op_typed (H_setvar n v) \<longleftrightarrow> c_string n \<and> c_string v"
| "op_typed (H_set_query n v) \<longleftrightarrow> c_string n \<and> c_string v"
| "op_typed (H_set_post n v) \<longleftrightarrow> c_string n \<and> c_string v"
| "op_typed (H_parse_response input uri0) \<longleftrightarrow> c_string uri0"
| "op_typed (H_parse_postdata body blen) \<longleftrightarrow> (\<forall>b. body = Some b \<longrightarrow> b \<noteq> [] \<and> blen \<le> length b)"
| "op_typed _ \<longleftrightarrow> True"

text \<open>The number of references after some calls, if the object lives until then.\<close>

fun refs_after :: "nat \<Rightarrow> httpp_op list \<Rightarrow> nat option" where
  "refs_after n [] = Some n"
| "refs_after n (op # ops) =
     (if n = 0 then None
      else refs_after (case op of H_addref \<Rightarrow> n + 1 | H_release \<Rightarrow> n - 1 | _ \<Rightarrow> n) ops)"

definition parser_typed :: "nat \<Rightarrow> http_parser option \<Rightarrow> bool" where
  "parser_typed n q \<longleftrightarrow> (case q of None \<Rightarrow> n = 0 | Some p \<Rightarrow> 0 < n \<and> prefc p = n \<and> parser_wf p)"

section \<open>The references\<close>

lemma setvar_prefc [simp]: "prefc (httpp_setvar mem p n v) = prefc p"
  by (rule setvar_other_fields)

lemma parse_headers_prefc:
  "parse_headers_loop mem p data line lines l = Some p' \<Longrightarrow> prefc p' = prefc p"
proof (induction mem p data line lines l arbitrary: p' rule: parse_headers_loop.induct)
  case (1 mem p data line lines l)
  show ?case
  proof (cases "l < lines")
    case True
    then show ?thesis using 1(3) 1(1,2) [OF True]
      by (subst (asm) parse_headers_loop.simps) (fastforce elim!: bind_SomeE split: option.splits prod.splits)
  next
    case False
    then show ?thesis using 1(3) by (subst (asm) parse_headers_loop.simps) simp
  qed
qed

lemma parse_uri_prefc: "parse_uri mem p data off = Some (p', d) \<Longrightarrow> prefc p' = prefc p"
  by (auto simp: parse_uri_def Let_def elim!: bind_SomeE split: option.splits)

lemma parse_version_prefc: "parse_version mem p data v = Some (p', r) \<Longrightarrow> prefc p' = prefc p"
  by (auto simp: parse_version_def Let_def elim!: bind_SomeE split: option.splits if_splits)

lemma parse_prefc: "httpp_parse mem p input = Some (r, p') \<Longrightarrow> prefc p' = prefc p"
  by (auto simp: httpp_parse_def parse_headers_def Let_def elim!: bind_SomeE split: option.splits if_splits prod.splits
    dest!: parse_headers_prefc parse_uri_prefc parse_version_prefc)

lemma parse_response_prefc: "httpp_parse_response mem p input uri0 = Some (r, p') \<Longrightarrow> prefc p' = prefc p"
  by (auto simp: httpp_parse_response_def parse_headers_def Let_def elim!: bind_SomeE split: option.splits if_splits prod.splits
    dest!: parse_headers_prefc)

section \<open>Every call keeps the type\<close>

lemma set_param_wf:
  assumes "tree_wf t" "c_string n" "c_string v"
  shows "tree_wf (httpp_set_param mem t n v)"
proof (cases "n = None \<or> v = None")
  case True
  then show ?thesis using assms(1) by (auto simp: httpp_set_param_def httpp_set_param_nocopy_def split: option.splits)
next
  case False
  then obtain n' v' where nv: "n = Some n'" "v = Some v'" by auto
  have "tree_wf (httpp_set_param_nocopy mem t (Some n') (map_option cstr (url_unescape v')) True)"
    using assms nv by (intro set_param_nocopy_wf) (auto simp: c_string_def)
  with nv show ?thesis by (simp add: httpp_set_param_def)
qed

lemma setvar_typed:
  assumes "parser_wf p" "c_string n" "c_string v"
  shows "parser_wf (httpp_setvar mem p n v)"
proof (cases "n = None \<or> v = None")
  case True
  with assms(1) show ?thesis by (auto simp: httpp_setvar_def split: option.splits)
next
  case False
  with assms show ?thesis by (auto simp: c_string_def setvar_wf)
qed

lemma setvar_values:
  assumes "parser_wf p" "NUL \<notin> set n" "\<forall>v\<in>set vs. NUL \<notin> set v"
  shows "parser_wf (foldl (\<lambda>p v. httpp_setvar mem p (Some n) (Some v)) p vs) \<and>
    prefc (foldl (\<lambda>p v. httpp_setvar mem p (Some n) (Some v)) p vs) = prefc p"
  using assms by (induction vs arbitrary: p) (simp_all add: setvar_wf)

lemma initialize_typed:
  assumes "parser_wf p" "list_all var_typed defaults"
  shows "parser_wf (httpp_initialize mem p defaults) \<and> prefc (httpp_initialize mem p defaults) = prefc p"
  using assms
proof (induction defaults arbitrary: p)
  case (Cons x xs)
  then show ?case using setvar_values [of p "vname x" "vvalue x" mem] by (simp add: httpp_initialize_def var_typed_def)
qed (simp add: httpp_initialize_def)

lemma postdata_typed:
  assumes "parser_wf p" "\<forall>b. body = Some b \<longrightarrow> b \<noteq> [] \<and> blen \<le> length b"
  shows "\<exists>r p'. httpp_parse_postdata mem p body blen = Some (r, p') \<and> parser_wf p' \<and> prefc p' = prefc p"
proof -
  obtain t where t: "parse_query mem (postvars p) body blen = Some t"
    using assms(2) parse_query_defined [of _ blen mem "postvars p"] by (cases body) (auto simp: parse_query_def)
  have "tree_wf t" using parse_query_wf [OF _ t] assms(1) by (simp add: parser_wf_def)
  then show ?thesis using t assms(1) by (auto simp: httpp_parse_postdata_def parser_wf_def split: option.splits)
qed

definition refs_of :: "httpp_op \<Rightarrow> nat \<Rightarrow> nat" where
  "refs_of op n = (case op of H_addref \<Rightarrow> n + 1 | H_release \<Rightarrow> n - 1 | _ \<Rightarrow> n)"

lemma httpp_do_typed:
  assumes "parser_wf p" "0 < prefc p" "op_typed op"
  shows "\<exists>q. httpp_do mem op p = Some q \<and> parser_typed (refs_of op (prefc p)) q"
proof (cases op)
  case (H_initialize defaults)
  then show ?thesis using assms initialize_typed [of p defaults mem]
    by (simp add: httpp_do_def parser_typed_def refs_of_def)
next
  case (H_setvar n v)
  then show ?thesis using assms setvar_typed [of p n v mem] by (simp add: httpp_do_def parser_typed_def refs_of_def)
next
  case (H_deletevar n)
  then show ?thesis using assms
    by (auto simp: httpp_do_def httpp_deletevar_def parser_typed_def refs_of_def parser_wf_def tree_wf_del split: option.splits)
next
  case (H_set_query n v)
  then show ?thesis using assms set_param_wf [of "queryvars p" n v mem]
    by (simp add: httpp_do_def httpp_set_query_param_def parser_typed_def refs_of_def parser_wf_def)
next
  case (H_set_post n v)
  then show ?thesis using assms set_param_wf [of "postvars p" n v mem]
    by (simp add: httpp_do_def httpp_set_post_param_def parser_typed_def refs_of_def parser_wf_def)
next
  case (H_parse input)
  obtain r p' where "httpp_parse mem p input = Some (r, p')" "parser_wf p'" using parse_ok [OF assms(1)] by blast
  with H_parse assms show ?thesis by (simp add: httpp_do_def parser_typed_def refs_of_def parse_prefc)
next
  case (H_parse_response input uri0)
  then have "\<forall>u. uri0 = Some u \<longrightarrow> NUL \<notin> set u" using assms(3) by (simp add: c_string_def)
  then obtain r p' where "httpp_parse_response mem p input uri0 = Some (r, p')" "parser_wf p'"
    using parse_response_ok [OF assms(1)] by blast
  with H_parse_response assms show ?thesis by (simp add: httpp_do_def parser_typed_def refs_of_def parse_response_prefc)
next
  case (H_parse_postdata body blen)
  then obtain r p' where "httpp_parse_postdata mem p body blen = Some (r, p')" "parser_wf p'" "prefc p' = prefc p"
    using postdata_typed [of p body blen mem] assms by auto
  with H_parse_postdata assms show ?thesis by (simp add: httpp_do_def parser_typed_def refs_of_def)
next
  case H_addref
  then show ?thesis using assms by (simp add: httpp_do_def httpp_addref_def parser_typed_def refs_of_def parser_wf_def)
next
  case H_release
  then show ?thesis using assms
    by (auto simp: httpp_do_def httpp_release_def parser_typed_def refs_of_def parser_wf_def Let_def)
qed

lemma refs_after_Cons [simp]:
  "refs_after n (op # ops) = (if n = 0 then None else refs_after (refs_of op n) ops)"
  by (cases op) (simp_all add: refs_of_def)

lemmas [simp del] = refs_after.simps(2)

lemma httpp_calls_ok:
  "list_all op_typed (map snd ops) \<Longrightarrow> parser_typed k q \<Longrightarrow> refs_after k (map snd ops) = Some n \<Longrightarrow>
    \<exists>q'. httpp_calls ops q = Some q' \<and> parser_typed n q'"
proof (induction ops arbitrary: q k)
  case (Cons x ops)
  obtain mem op where x: "x = (mem, op)" by fastforce
  from Cons.prems x have k: "0 < k" "refs_after (refs_of op k) (map snd ops) = Some n" by (auto split: if_splits)
  with Cons.prems(2) obtain p where p: "q = Some p" "parser_wf p" "prefc p = k"
    by (auto simp: parser_typed_def split: option.splits)
  obtain q1 where q1: "httpp_do mem op p = Some q1" "parser_typed (refs_of op k) q1"
    using httpp_do_typed [of p op mem] p k(1) Cons.prems(1) x by auto
  from Cons.IH [OF _ q1(2) k(2)] Cons.prems(1) x p(1) q1(1) show ?case by simp
qed simp

section \<open>The property\<close>

text \<open>C16: the type of the parser object, when the allocations that the code does not test succeed (\<^verbatim>\<open>httpp.c:121\<close> and 126 of the
  object and its trees, \<open>strdup\<close> at 480, 586, 588, 670 and 820, 314 and 376 of the query strings, and the tree nodes). Take any calls
  of the functions that change a parser, with strings as arguments, made on a new object one after the other by callers that
  hold a reference. The allocations that are tested (the copies of the input, the entries and their arrays of
  values) may fail; whether one does depends on its size and may change from call to call. Every call is defined
  (none reads or writes outside its memory, none reaches an object that has been freed), and afterwards the object has its
  type: three trees sorted by name in which every entry has a name and at least one value, all of them strings, and as
  many references as were taken and not given back; it has been freed iff there are none.\<close>

theorem httpp_calls_typed:
  assumes "list_all op_typed (map snd ops)" "refs_after 1 (map snd ops) = Some n"
  shows "\<exists>q. httpp_calls ops (Some httpp_create_parser) = Some q \<and> parser_typed n q"
  by (rule httpp_calls_ok [OF assms(1) _ assms(2)]) (simp add: parser_typed_def httpp_create_parser_def parser_wf_def)

theorem httpp_calls_typed_witness:
  "\<exists>q. httpp_calls [(enough, H_setvar (Some ''a'') (Some ''b'')), (enough, H_addref), (enough, H_parse (Some ''GET /'')),
      (enough, H_release), (enough, H_deletevar (Some ''A'')), (enough, H_release)] (Some httpp_create_parser) = Some q \<and>
    parser_typed 0 q"
  by (rule httpp_calls_typed) (simp_all add: c_string_def refs_of_def)

end
