(* ===== verification/Release.thy ===== *)
theory Release
  imports Httpp_Defs
begin

text \<open>
  The end of the objects of src/httpp/httpp.c and src/httpp/encoding.c: what is handed to \<open>free\<close>, and in which order. Here an
  object is a set of blocks in memory: \<open>R\<close> is the set of the blocks that are allocated, \<open>None\<close> the access to a block that is not
  (a double free among them). The trees of a parser are those of \<open>Avl_Defs\<close>, with pointers to variables as their keys.
\<close>

section \<open>Blocks\<close>

text \<open>\<open>free (p)\<close>, and the access to the block of \<open>p\<close>.\<close>

definition mfree :: "addr \<Rightarrow> addr set \<Rightarrow> addr set option" where
  "mfree p R = (if p = NULL then Some R else if p \<in> R then Some (R - {p}) else None)"

definition live :: "addr \<Rightarrow> addr set \<Rightarrow> unit option" where
  "live p R = (if p \<in> R then Some () else None)"

fun frees :: "addr list \<Rightarrow> addr set \<Rightarrow> addr set option" where
  "frees [] R = Some R"
| "frees (p # ps) R = do { R \<leftarrow> mfree p R; frees ps R }"

text \<open>The blocks behind a list of pointers.\<close>

definition blocks :: "addr list \<Rightarrow> addr list" where
  "blocks ps = filter (\<lambda>p. p \<noteq> NULL) ps"

lemma blocks_simps [simp]:
  "blocks [] = []" "blocks (p # ps) = (if p = NULL then blocks ps else p # blocks ps)" "blocks (ps @ qs) = blocks ps @ blocks qs"
  by (simp_all add: blocks_def)

lemma NULL_notin_blocks [simp]: "NULL \<notin> set (blocks ps)"
  by (simp add: blocks_def)

definition owns_blocks :: "addr list \<Rightarrow> addr set \<Rightarrow> bool" where
  "owns_blocks ps R \<longleftrightarrow> distinct (blocks ps) \<and> set (blocks ps) \<subseteq> R"

lemma owns_Cons: "owns_blocks (p # ps) R \<Longrightarrow> \<exists>R'. mfree p R = Some R' \<and> R' = R - set (blocks [p]) \<and> owns_blocks ps R'"
  by (cases "p = NULL") (auto simp: owns_blocks_def mfree_def)

lemma owns_append:
  "owns_blocks (ps @ qs) R \<Longrightarrow> owns_blocks ps R"
  "owns_blocks (ps @ qs) R \<Longrightarrow> owns_blocks qs (R - set (blocks ps))"
  "owns_blocks (ps @ qs) R \<Longrightarrow> q \<in> set (blocks qs) \<Longrightarrow> q \<in> R - set (blocks ps)"
  by (auto simp: owns_blocks_def)

lemma frees_owned: "owns_blocks ps R \<Longrightarrow> frees ps R = Some (R - set (blocks ps))"
proof (induction ps arbitrary: R)
  case (Cons p ps)
  from owns_Cons [OF Cons.prems] obtain R' where R': "mfree p R = Some R'" "R' = R - set (blocks [p])" "owns_blocks ps R'" by blast
  have "R' - set (blocks ps) = R - set (blocks (p # ps))" using R'(2) by auto
  then show ?case using Cons.IH [OF R'(3)] R'(1) by simp
qed simp

section \<open>Variables and parsers\<close>

text \<open>\<open>http_var_t\<close> in memory: the name, the array and its entries.\<close>

record var_block =
  vb_name :: addr
  vb_value :: addr
  vb_values :: "addr list"

text \<open>The loop of \<open>_free_vars\<close> reads the array \<open>arr\<close>.\<close>

fun free_values :: "addr \<Rightarrow> addr list \<Rightarrow> addr set \<Rightarrow> addr set option" where
  "free_values arr [] R = Some R"
| "free_values arr (p # ps) R = do { _ \<leftarrow> live arr R; R \<leftarrow> mfree p R; free_values arr ps R }"

definition free_vars :: "(addr \<rightharpoonup> var_block) \<Rightarrow> addr option \<Rightarrow> addr set option \<Rightarrow> addr set option" where
  "free_vars V k R = do {
     var \<leftarrow> k;
     R \<leftarrow> R;
     _ \<leftarrow> live var R;
     v \<leftarrow> V var;
     R \<leftarrow> mfree (vb_name v) R;
     R \<leftarrow> free_values (vb_value v) (vb_values v) R;
     R \<leftarrow> mfree (vb_value v) R;
     mfree var R }"

text \<open>The parser in memory. A pointer to a tree is NULL or the address of its structure with what is stored there; \<open>T\<close> holds the
  structures that are allocated, with their locks.\<close>

type_synonym tree_ptr = "(addr \<times> (addr, unit) avl_tree) option"

record parser_block =
  pb_refc :: nat
  pb_req_type :: httpp_request_type
  pb_uri :: addr
  pb_vars :: tree_ptr
  pb_queryvars :: tree_ptr
  pb_postvars :: tree_ptr

definition free_tree ::
  "(addr \<rightharpoonup> var_block) \<Rightarrow> tree_ptr \<Rightarrow> addr set \<Rightarrow> addr heap \<Rightarrow> tree_store \<Rightarrow> (addr set \<times> addr heap \<times> tree_store) option" where
  "free_tree V tree R h T = do {
     (tp, ob) \<leftarrow> tree;
     (R, h, T) \<leftarrow> avl_tree_free tp ob (Some (free_vars V)) (Some R) h T;
     R \<leftarrow> R;
     Some (R, h, T) }"

definition httpp_clear ::
  "(addr \<rightharpoonup> var_block) \<Rightarrow> parser_block \<Rightarrow> addr set \<Rightarrow> addr heap \<Rightarrow> tree_store \<Rightarrow>
   (parser_block \<times> addr set \<times> addr heap \<times> tree_store) option" where
  "httpp_clear V parser R h T = do {
     let parser = parser\<lparr>pb_req_type := httpp_req_none\<rparr>;
     R \<leftarrow> (if pb_uri parser \<noteq> NULL then mfree (pb_uri parser) R else Some R);
     let parser = parser\<lparr>pb_uri := NULL\<rparr>;
     (R, h, T) \<leftarrow> free_tree V (pb_vars parser) R h T;
     (R, h, T) \<leftarrow> free_tree V (pb_queryvars parser) R h T;
     (R, h, T) \<leftarrow> free_tree V (pb_postvars parser) R h T;
     Some (parser\<lparr>pb_vars := None\<rparr>, R, h, T) }"

text \<open>\<open>httpp_release\<close> on the parser at \<open>p\<close>: what is left of it, the blocks, the nodes and the trees.\<close>

definition httpp_release_blocks ::
  "(addr \<rightharpoonup> var_block) \<Rightarrow> addr \<Rightarrow> parser_block \<Rightarrow> addr set \<Rightarrow> addr heap \<Rightarrow> tree_store \<Rightarrow>
   (parser_block option \<times> addr set \<times> addr heap \<times> tree_store) option" where
  "httpp_release_blocks V p parser R h T = do {
     _ \<leftarrow> live p R;
     let parser = parser\<lparr>pb_refc := pb_refc parser - 1\<rparr>;
     if pb_refc parser \<noteq> 0 then Some (Some parser, R, h, T)
     else do {
       (_, R, h, T) \<leftarrow> httpp_clear V parser R h T;
       R \<leftarrow> mfree p R;
       Some (None, R, h, T) } }"

text \<open>\<open>httpp_free_any_key\<close>: the array at \<open>arr\<close> holds \<open>names\<close> and a NULL.\<close>

definition httpp_free_any_key :: "addr \<Rightarrow> addr list \<Rightarrow> addr set \<Rightarrow> addr set option" where
  "httpp_free_any_key arr names R =
     (if arr = NULL then Some R
      else do {
        R \<leftarrow> free_values arr names R;
        _ \<leftarrow> live arr R;
        mfree arr R })"

section \<open>Chains of meta data and encodings\<close>

record meta_block =
  mb_next :: addr
  mb_key :: addr
  mb_value :: addr

partial_function (option) httpp_encoding_meta_free :: "(addr \<rightharpoonup> meta_block) \<Rightarrow> addr \<Rightarrow> addr set \<Rightarrow> addr set option" where
  "httpp_encoding_meta_free M self R =
     (if self = NULL then Some R
      else do {
        _ \<leftarrow> live self R;
        cur \<leftarrow> M self;
        R \<leftarrow> mfree (mb_key cur) R;
        R \<leftarrow> mfree (mb_value cur) R;
        R \<leftarrow> mfree self R;
        httpp_encoding_meta_free M (mb_next cur) R })"

record encoding_block =
  eb_refc :: nat
  eb_meta_read :: addr
  eb_meta_write :: addr
  eb_buf_read_raw :: addr
  eb_buf_read_decoded :: addr
  eb_buf_write_raw :: addr
  eb_buf_write_encoded :: addr

definition httpp_encoding_release_blocks ::
  "(addr \<rightharpoonup> meta_block) \<Rightarrow> addr \<Rightarrow> encoding_block \<Rightarrow> addr set \<Rightarrow> (encoding_block option \<times> addr set) option" where
  "httpp_encoding_release_blocks M p self R = do {
     _ \<leftarrow> live p R;
     let self = self\<lparr>eb_refc := eb_refc self - 1\<rparr>;
     if eb_refc self \<noteq> 0 then Some (Some self, R)
     else do {
       R \<leftarrow> httpp_encoding_meta_free M (eb_meta_read self) R;
       R \<leftarrow> httpp_encoding_meta_free M (eb_meta_write self) R;
       R \<leftarrow> frees [eb_buf_read_raw self, eb_buf_read_decoded self, eb_buf_write_raw self, eb_buf_write_encoded self] R;
       R \<leftarrow> mfree p R;
       Some (None, R) } }"

section \<open>What is freed\<close>

text \<open>The blocks of a variable, in the order in which they are freed, and those of a list of variables.\<close>

definition var_blocks :: "var_block \<Rightarrow> addr \<Rightarrow> addr list" where
  "var_blocks v k = vb_name v # vb_values v @ [vb_value v, k]"

definition keys_blocks :: "(addr \<rightharpoonup> var_block) \<Rightarrow> addr list \<Rightarrow> addr list" where
  "keys_blocks V ks = concat (map (\<lambda>k. case V k of None \<Rightarrow> [] | Some v \<Rightarrow> var_blocks v k) ks)"

definition vars_ok :: "(addr \<rightharpoonup> var_block) \<Rightarrow> addr list \<Rightarrow> bool" where
  "vars_ok V ks \<longleftrightarrow> (\<forall>k\<in>set ks. k \<noteq> NULL \<and> (\<exists>v. V k = Some v \<and> (vb_values v = [] \<or> vb_value v \<noteq> NULL)))"

lemma free_values_frees:
  "ps \<noteq> [] \<longrightarrow> arr \<in> R \<and> arr \<notin> set (blocks ps) \<Longrightarrow> owns_blocks ps R \<Longrightarrow> free_values arr ps R = Some (R - set (blocks ps))"
proof (induction ps arbitrary: R)
  case (Cons p ps)
  from owns_Cons [OF Cons.prems(2)] obtain R' where R': "mfree p R = Some R'" "R' = R - set (blocks [p])" "owns_blocks ps R'" by blast
  have "arr \<in> R'" "arr \<notin> set (blocks ps)" using Cons.prems(1) R'(2) by (auto split: if_splits)
  moreover have "R' - set (blocks ps) = R - set (blocks (p # ps))" using R'(2) by auto
  ultimately show ?case using Cons.IH [OF _ R'(3)] Cons.prems(1) R'(1) by (simp add: live_def)
qed simp

lemma free_vars_blocks:
  assumes v: "V k = Some v" "k \<noteq> NULL" "vb_values v = [] \<or> vb_value v \<noteq> NULL" and o: "owns_blocks (var_blocks v k) R"
  shows "free_vars V (Some k) (Some R) = Some (R - set (blocks (var_blocks v k)))"
proof -
  have k: "live k R = Some ()" using v(2) o by (auto simp: live_def owns_blocks_def var_blocks_def)
  from owns_Cons [OF o [unfolded var_blocks_def]] obtain R1 where
    R1: "mfree (vb_name v) R = Some R1" "R1 = R - set (blocks [vb_name v])" "owns_blocks (vb_values v @ [vb_value v, k]) R1" by blast
  define R2 where "R2 = R1 - set (blocks (vb_values v))"
  have "vb_values v \<noteq> [] \<longrightarrow> vb_value v \<in> R1 \<and> vb_value v \<notin> set (blocks (vb_values v))"
    using v(3) R1(3) by (auto simp: owns_blocks_def)
  then have f2: "free_values (vb_value v) (vb_values v) R1 = Some R2"
    unfolding R2_def by (rule free_values_frees) (rule owns_append(1) [OF R1(3)])
  have o2: "owns_blocks [vb_value v, k] R2" unfolding R2_def by (rule owns_append(2) [OF R1(3)])
  from owns_Cons [OF o2] obtain R3 where R3: "mfree (vb_value v) R2 = Some R3" "R3 = R2 - set (blocks [vb_value v])" "owns_blocks [k] R3" by blast
  from owns_Cons [OF R3(3)] have "mfree k R3 = Some (R3 - {k})" using v(2) by auto
  moreover have "R3 - {k} = R - set (blocks (var_blocks v k))" using R1(2) R3(2) v(2) by (auto simp: R2_def var_blocks_def)
  ultimately show ?thesis using k v(1) R1(1) f2 R3(1) by (simp add: free_vars_def)
qed

lemma free_keys_blocks:
  "vars_ok V ks \<Longrightarrow> owns_blocks (keys_blocks V ks) R \<Longrightarrow>
    free_keys (Some (free_vars V)) ks (Some R) = Some (R - set (blocks (keys_blocks V ks)))"
proof (induction ks arbitrary: R)
  case Nil
  then show ?case by (simp add: keys_blocks_def)
next
  case (Cons k ks)
  obtain v where v: "V k = Some v" "k \<noteq> NULL" "vb_values v = [] \<or> vb_value v \<noteq> NULL" using Cons.prems(1) by (auto simp: vars_ok_def)
  have b: "keys_blocks V (k # ks) = var_blocks v k @ keys_blocks V ks" by (simp add: keys_blocks_def v(1))
  note o = Cons.prems(2) [unfolded b]
  have "free_keys (Some (free_vars V)) ks (Some (R - set (blocks (var_blocks v k)))) =
      Some (R - set (blocks (var_blocks v k)) - set (blocks (keys_blocks V ks)))"
    by (rule Cons.IH [OF _ owns_append(2) [OF o]]) (use Cons.prems(1) in \<open>simp add: vars_ok_def\<close>)
  moreover have "free_vars V (Some k) (Some R) = Some (R - set (blocks (var_blocks v k)))"
    by (rule free_vars_blocks [where v = v]) (use v owns_append(1) [OF o] in blast)+
  ultimately show ?case by (simp add: free_key_def b Diff_eq Int_ac)
qed

text \<open>A tree object with its nodes.\<close>

definition tree_ok :: "'k heap \<Rightarrow> ('k, 'a) avl_tree \<Rightarrow> 'k ptree \<Rightarrow> bool" where
  "tree_ok h ob t \<longleftrightarrow> avl_at h (root ob) t \<and> unat (len ob) = length (addrs t)"

definition tree_nodes :: "('k, 'a) avl_tree \<Rightarrow> 'k ptree \<Rightarrow> addr set" where
  "tree_nodes ob t = insert (root ob) (set (addrs t))"

lemma tree_ok_frame:
  assumes "tree_ok h ob t" "A \<inter> tree_nodes ob t = {}"
  shows "tree_ok (h |` (- A)) ob t"
proof -
  have eq: "(h |` (- A)) a = h a" if "a \<in> tree_nodes ob t" for a using assms(2) that by (auto simp: restrict_map_def)
  have "rep (h |` (- A)) (root ob) t = rep h (root ob) t" by (rule rep_cong) (use eq in \<open>auto simp: tree_nodes_def\<close>)
  then show ?thesis using assms(1) eq [of "root ob"] by (simp add: tree_ok_def avl_at_def tree_nodes_def)
qed

lemma free_tree_blocks:
  assumes "tree_ok h ob t" "vars_ok V (keys t)" "owns_blocks (keys_blocks V (keys t)) R" "T tp = Some (Live rw_free)"
  shows "free_tree V (Some (tp, ob)) R h T =
    Some (R - set (blocks (keys_blocks V (keys t))), h |` (- tree_nodes ob t), T(tp := None))"
proof -
  have "(\<lambda>b. if b = root ob \<or> b \<in> set (addrs t) then None else h b) = h |` (- tree_nodes ob t)"
    by (auto simp: fun_eq_iff restrict_map_def tree_nodes_def)
  then show ?thesis
    using tree_free_repr [of h ob t tp "Some (free_vars V)" "Some R" T] assms(1,4) free_keys_blocks [OF assms(2,3)]
    by (simp add: free_tree_def tree_ok_def)
qed

text \<open>Chains of meta data.\<close>

fun chain :: "(addr \<rightharpoonup> meta_block) \<Rightarrow> addr \<Rightarrow> addr list \<Rightarrow> bool" where
  "chain M p [] \<longleftrightarrow> p = NULL"
| "chain M p (c # cs) \<longleftrightarrow> p = c \<and> c \<noteq> NULL \<and> (\<exists>b. M c = Some b \<and> chain M (mb_next b) cs)"

definition chain_blocks :: "(addr \<rightharpoonup> meta_block) \<Rightarrow> addr list \<Rightarrow> addr list" where
  "chain_blocks M cs = concat (map (\<lambda>c. case M c of None \<Rightarrow> [] | Some b \<Rightarrow> [mb_key b, mb_value b, c]) cs)"

lemma meta_free_blocks:
  "chain M p cs \<Longrightarrow> owns_blocks (chain_blocks M cs) R \<Longrightarrow>
    httpp_encoding_meta_free M p R = Some (R - set (blocks (chain_blocks M cs)))"
proof (induction cs arbitrary: p R)
  case Nil
  then show ?case by (simp add: httpp_encoding_meta_free.simps [of M NULL] chain_blocks_def)
next
  case (Cons c cs)
  obtain b where b: "p = c" "c \<noteq> NULL" "M c = Some b" "chain M (mb_next b) cs" using Cons.prems(1) by auto
  have e: "chain_blocks M (c # cs) = [mb_key b, mb_value b, c] @ chain_blocks M cs" by (simp add: chain_blocks_def b(3))
  note o = Cons.prems(2) [unfolded e]
  have c: "live c R = Some ()" using o b(2) by (auto simp: live_def owns_blocks_def split: if_splits)
  have f: "frees [mb_key b, mb_value b, c] R = Some (R - set (blocks [mb_key b, mb_value b, c]))"
    by (rule frees_owned [OF owns_append(1) [OF o]])
  have "httpp_encoding_meta_free M p R = do { R \<leftarrow> frees [mb_key b, mb_value b, c] R; httpp_encoding_meta_free M (mb_next b) R }"
    using b(1-3) c by (subst httpp_encoding_meta_free.simps) simp
  also have "\<dots> = Some (R - set (blocks [mb_key b, mb_value b, c]) - set (blocks (chain_blocks M cs)))"
    unfolding f using Cons.IH [OF b(4) owns_append(2) [OF o]] by simp
  also have "R - set (blocks [mb_key b, mb_value b, c]) - set (blocks (chain_blocks M cs)) = R - set (blocks (chain_blocks M (c # cs)))"
    unfolding e by auto
  finally show ?case .
qed

section \<open>Properties\<close>

text \<open>C32: Releasing the last reference to a parser frees its URI, every variable of its three trees with its name, array and
  values, every node of the trees and their sentinels, the three tree structures (whose locks, which nobody holds, are
  destroyed before) and the parser itself, each block exactly once, and nothing else.\<close>

theorem httpp_release_frees:
  assumes "pb_refc parser = 1" and "p \<noteq> NULL"
    and "pb_vars parser = Some (a1, o1)" "pb_queryvars parser = Some (a2, o2)" "pb_postvars parser = Some (a3, o3)"
    and "distinct [a1, a2, a3]" "\<forall>a\<in>{a1, a2, a3}. T a = Some (Live rw_free)"
    and "tree_ok h o1 t1" "tree_ok h o2 t2" "tree_ok h o3 t3"
    and "tree_nodes o1 t1 \<inter> tree_nodes o2 t2 = {}" "(tree_nodes o1 t1 \<union> tree_nodes o2 t2) \<inter> tree_nodes o3 t3 = {}"
    and "vars_ok V (keys t1)" "vars_ok V (keys t2)" "vars_ok V (keys t3)"
    and "owns_blocks ([pb_uri parser] @ keys_blocks V (keys t1) @ keys_blocks V (keys t2) @ keys_blocks V (keys t3) @ [p]) R"
  shows "httpp_release_blocks V p parser R h T =
    Some (None, R - set (blocks ([pb_uri parser] @ keys_blocks V (keys t1) @ keys_blocks V (keys t2) @ keys_blocks V (keys t3) @ [p])),
      h |` (- (tree_nodes o1 t1 \<union> tree_nodes o2 t2 \<union> tree_nodes o3 t3)), T |` (- {a1, a2, a3}))"
proof -
  let ?b = "\<lambda>t. set (blocks (keys_blocks V (keys t)))"
  note o = assms(16)
  have p: "live p R = Some ()" using o assms(2) by (auto simp: live_def owns_blocks_def)
  define R0 where "R0 = R - set (blocks [pb_uri parser])"
  have u: "(if pb_uri parser \<noteq> NULL then mfree (pb_uri parser) R else Some R) = Some R0"
    using owns_Cons [OF owns_append(1) [OF o]] by (cases "pb_uri parser = NULL") (simp_all add: R0_def)
  have q0: "owns_blocks (keys_blocks V (keys t1) @ keys_blocks V (keys t2) @ keys_blocks V (keys t3) @ [p]) R0"
    unfolding R0_def by (rule owns_append(2) [OF o])
  note q1 = owns_append(2) [OF q0] note q2 = owns_append(2) [OF q1] note q3 = owns_append(2) [OF q2]
  define h1 where "h1 = h |` (- tree_nodes o1 t1)"
  define h2 where "h2 = h1 |` (- tree_nodes o2 t2)"
  have t2: "tree_ok h1 o2 t2" unfolding h1_def by (rule tree_ok_frame [OF assms(9,11)])
  have "tree_ok h1 o3 t3" unfolding h1_def by (rule tree_ok_frame [OF assms(10)]) (use assms(12) in blast)
  then have t3: "tree_ok h2 o3 t3" unfolding h2_def by (rule tree_ok_frame) (use assms(12) in blast)
  have l: "T a1 = Some (Live rw_free)" "(T(a1 := None)) a2 = Some (Live rw_free)" "(T(a1 := None, a2 := None)) a3 = Some (Live rw_free)"
    using assms(6,7) by auto
  note f1 = free_tree_blocks [where T = T and tp = a1, OF assms(8,13) owns_append(1) [OF q0] l(1), folded h1_def]
  note f2 = free_tree_blocks [where T = "T(a1 := None)" and tp = a2, OF t2 assms(14) owns_append(1) [OF q1] l(2), folded h2_def]
  note f3 = free_tree_blocks [where T = "T(a1 := None, a2 := None)" and tp = a3, OF t3 assms(15) owns_append(1) [OF q2] l(3)]
  have "httpp_release_blocks V p parser R h T = do {
      R \<leftarrow> mfree p (R0 - ?b t1 - ?b t2 - ?b t3); Some (None, R, h2 |` (- tree_nodes o3 t3), T(a1 := None, a2 := None, a3 := None)) }"
    using p u f1 f2 f3 assms(1,3-5) by (simp add: httpp_release_blocks_def httpp_clear_def Let_def cong: if_cong del: neq0_conv fun_upd_apply split del: if_split)
  also have "mfree p (R0 - ?b t1 - ?b t2 - ?b t3) = Some (R0 - ?b t1 - ?b t2 - ?b t3 - {p})"
    using owns_Cons [OF q3] assms(2) by auto
  also have "R0 - ?b t1 - ?b t2 - ?b t3 - {p} =
      R - set (blocks ([pb_uri parser] @ keys_blocks V (keys t1) @ keys_blocks V (keys t2) @ keys_blocks V (keys t3) @ [p]))"
    using assms(2) by (auto simp: R0_def)
  also have "h2 |` (- tree_nodes o3 t3) = h |` (- (tree_nodes o1 t1 \<union> tree_nodes o2 t2 \<union> tree_nodes o3 t3))"
    by (simp add: h1_def h2_def Int_ac)
  also have "T(a1 := None, a2 := None, a3 := None) = T |` (- {a1, a2, a3})" by (auto simp: fun_eq_iff restrict_map_def)
  finally show ?thesis by (simp only: Option.bind.simps)
qed

definition demo_tree :: "addr \<Rightarrow> uint \<Rightarrow> (addr, unit) avl_tree" where
  "demo_tree rt n = \<lparr>root = rt, height = n, len = n, compare_fun = (\<lambda>u a b. 0), compare_arg = ()\<rparr>"

theorem httpp_release_frees_witness:
  "\<exists>h'. httpp_release_blocks [50 \<mapsto> \<lparr>vb_name = 51, vb_value = 52, vb_values = [53]\<rparr>] 55
     \<lparr>pb_refc = 1, pb_req_type = httpp_req_get, pb_uri = 54, pb_vars = Some (61, demo_tree 1 1), pb_queryvars = Some (62, demo_tree 3 0),
        pb_postvars = Some (63, demo_tree 4 0)\<rparr> {50, 51, 52, 53, 54, 55, 99}
     [1 \<mapsto> \<lparr>key = None, left = 0, right = 2, parent = 0, rank_and_balance = 5\<rparr>,
      2 \<mapsto> \<lparr>key = Some 50, left = 0, right = 0, parent = 1, rank_and_balance = 5\<rparr>,
      3 \<mapsto> \<lparr>key = None, left = 0, right = 0, parent = 0, rank_and_balance = 5\<rparr>,
      4 \<mapsto> \<lparr>key = None, left = 0, right = 0, parent = 0, rank_and_balance = 5\<rparr>] [61 \<mapsto> Live rw_free, 62 \<mapsto> Live rw_free, 63 \<mapsto> Live rw_free, 64 \<mapsto> Live rw_free] =
     Some (None, {99}, h', [64 \<mapsto> Live rw_free]) \<and> h' = (\<lambda>_. None)"
proof -
  let ?h = "[1 \<mapsto> \<lparr>key = None, left = 0, right = 2, parent = 0, rank_and_balance = 5\<rparr>,
      2 \<mapsto> \<lparr>key = Some 50, left = 0, right = 0, parent = 1, rank_and_balance = 5\<rparr>,
      3 \<mapsto> \<lparr>key = None, left = 0, right = 0, parent = 0, rank_and_balance = 5\<rparr>,
      4 \<mapsto> \<lparr>key = None, left = 0, right = 0, parent = 0, rank_and_balance = 5\<rparr>] :: addr heap"
  let ?t = "Node Leaf 2 50 5 Leaf :: addr ptree"
  let ?V = "[50 \<mapsto> \<lparr>vb_name = 51, vb_value = 52, vb_values = [53]\<rparr>] :: addr \<rightharpoonup> var_block"
  have t: "tree_ok ?h (demo_tree 1 1) ?t" "tree_ok ?h (demo_tree 3 0) Leaf" "tree_ok ?h (demo_tree 4 0) Leaf"
    by (simp_all add: tree_ok_def demo_tree_def avl_at_def)
  have v: "vars_ok ?V (keys ?t)" "vars_ok ?V (keys Leaf)" by (simp_all add: vars_ok_def)
  show ?thesis
    by (subst httpp_release_frees [OF _ _ _ _ _ _ _ t _ _ v(1,2,2)]) (auto simp: keys_blocks_def var_blocks_def tree_nodes_def demo_tree_def owns_blocks_def restrict_map_def fun_eq_iff)
qed

text \<open>Releasing the last reference to an encoding frees both chains of meta data with their keys and values, the four buffers
  and the object, each block exactly once, and nothing else.\<close>

theorem httpp_encoding_release_frees:
  assumes "eb_refc self = 1" and "p \<noteq> NULL" and "chain M (eb_meta_read self) cs" and "chain M (eb_meta_write self) ds"
    and "owns_blocks (chain_blocks M cs @ chain_blocks M ds @
      [eb_buf_read_raw self, eb_buf_read_decoded self, eb_buf_write_raw self, eb_buf_write_encoded self] @ [p]) R"
  shows "httpp_encoding_release_blocks M p self R = Some (None, R - set (blocks (chain_blocks M cs @ chain_blocks M ds @
      [eb_buf_read_raw self, eb_buf_read_decoded self, eb_buf_write_raw self, eb_buf_write_encoded self] @ [p])))"
proof -
  let ?bufs = "[eb_buf_read_raw self, eb_buf_read_decoded self, eb_buf_write_raw self, eb_buf_write_encoded self]"
  let ?c = "set (blocks (chain_blocks M cs))" and ?d = "set (blocks (chain_blocks M ds))"
  note q0 = assms(5) note q1 = owns_append(2) [OF q0] note q2 = owns_append(2) [OF q1] note q3 = owns_append(2) [OF q2]
  have p: "live p R = Some ()" using q0 assms(2) by (auto simp: live_def owns_blocks_def)
  have "httpp_encoding_release_blocks M p self R = do {
      R \<leftarrow> mfree p (R - ?c - ?d - set (blocks ?bufs)); Some (None, R) }"
    using p assms(1) meta_free_blocks [OF assms(3) owns_append(1) [OF q0]] meta_free_blocks [OF assms(4) owns_append(1) [OF q1]]
      frees_owned [OF owns_append(1) [OF q2]]
    by (simp add: httpp_encoding_release_blocks_def del: frees.simps neq0_conv blocks_simps split del: if_split)
  also have "mfree p (R - ?c - ?d - set (blocks ?bufs)) = Some (R - ?c - ?d - set (blocks ?bufs) - {p})"
    using owns_Cons [OF q3] assms(2) by auto
  also have "R - ?c - ?d - set (blocks ?bufs) - {p} = R - set (blocks (chain_blocks M cs @ chain_blocks M ds @ ?bufs @ [p]))"
    using assms(2) by (simp only: blocks_simps set_append) auto
  finally show ?thesis by (simp only: Option.bind.simps)
qed

theorem httpp_encoding_release_frees_witness:
  "httpp_encoding_release_blocks [10 \<mapsto> \<lparr>mb_next = 11, mb_key = 12, mb_value = 13\<rparr>, 11 \<mapsto> \<lparr>mb_next = 0, mb_key = 14, mb_value = 0\<rparr>] 15
     \<lparr>eb_refc = 1, eb_meta_read = 10, eb_meta_write = 0, eb_buf_read_raw = 16, eb_buf_read_decoded = 0, eb_buf_write_raw = 0,
        eb_buf_write_encoded = 17\<rparr> {10, 11, 12, 13, 14, 15, 16, 17, 99} = Some (None, {99})"
proof -
  let ?M = "[10 \<mapsto> \<lparr>mb_next = 11, mb_key = 12, mb_value = 13\<rparr>, 11 \<mapsto> \<lparr>mb_next = 0, mb_key = 14, mb_value = 0\<rparr>] :: addr \<rightharpoonup> meta_block"
  have c: "chain ?M 10 [10, 11]" "chain ?M 0 []" "chain_blocks ?M [10, 11] = [12, 13, 10, 14, 0, 11]" "chain_blocks ?M [] = []"
    by (simp_all add: chain_blocks_def)
  have r: "{10, 11, 12, 13, 14, 15, 16, 17, 99} - {12, 13, 10, 14, 11, 16, 17, 15} = {99 :: addr}" by auto
  show ?thesis
    by (subst httpp_encoding_release_frees [where cs = "[10, 11]" and ds = "[]"]) (simp_all add: c r owns_blocks_def)
qed

end
