(* ===== verification/Lock_Sections.thy ===== *)
theory Lock_Sections
  imports Locks
begin

text \<open>
  Critical sections: what a client may rely on when it brackets its code with a lock of \<^verbatim>\<open>src/thread/thread.c\<close>. The contract of an
  exclusive lock is a locale; the mutexes, the library mutex, the spin locks and the read-write locks, as far as they are
  locked for writing, are its interpretations.
\<close>

section \<open>Threads with critical sections\<close>

text \<open>Outside, at the lock, inside.\<close>

datatype sect_pc = K_out | K_wants | K_in

record 'l sect_sys =
  sect_lock :: 'l
  sect_pcs :: "nat \<Rightarrow> sect_pc"

definition sect_goto :: "nat \<Rightarrow> sect_pc \<Rightarrow> 'l \<Rightarrow> 'l sect_sys \<Rightarrow> 'l sect_sys" where
  "sect_goto t c l s = s\<lparr>sect_lock := l, sect_pcs := (sect_pcs s)(t := c)\<rparr>"

text \<open>A step of some thread; \<open>None\<close> when a lock is used wrongly or the program is aborted. An unlock that waits counts as wrong.\<close>

inductive sect_step :: "(nat \<Rightarrow> 'l \<Rightarrow> 'l outcome) \<Rightarrow> (nat \<Rightarrow> 'l \<Rightarrow> 'l outcome) \<Rightarrow> 'l sect_sys \<Rightarrow> 'l sect_sys option \<Rightarrow> bool" for lk ul where
  want: "sect_pcs s t = K_out \<Longrightarrow> sect_step lk ul s (Some (sect_goto t K_wants (sect_lock s) s))"
| enter: "sect_pcs s t = K_wants \<Longrightarrow> lk t (sect_lock s) = Go l \<Longrightarrow> sect_step lk ul s (Some (sect_goto t K_in l s))"
| bad_lock: "sect_pcs s t = K_wants \<Longrightarrow> lk t (sect_lock s) = Undef \<or> lk t (sect_lock s) = Abort \<Longrightarrow> sect_step lk ul s None"
| leave: "sect_pcs s t = K_in \<Longrightarrow> ul t (sect_lock s) = Go l \<Longrightarrow> sect_step lk ul s (Some (sect_goto t K_out l s))"
| bad_unlock: "sect_pcs s t = K_in \<Longrightarrow> \<not> (\<exists>l. ul t (sect_lock s) = Go l) \<Longrightarrow> sect_step lk ul s None"

inductive sect_reach :: "(nat \<Rightarrow> 'l \<Rightarrow> 'l outcome) \<Rightarrow> (nat \<Rightarrow> 'l \<Rightarrow> 'l outcome) \<Rightarrow> 'l \<Rightarrow> 'l sect_sys \<Rightarrow> bool" for lk ul l0 where
  start: "sect_reach lk ul l0 \<lparr>sect_lock = l0, sect_pcs = (\<lambda>t. K_out)\<rparr>"
| step: "sect_reach lk ul l0 s \<Longrightarrow> sect_step lk ul s (Some s') \<Longrightarrow> sect_reach lk ul l0 s'"

inductive_cases sect_stepE: "sect_step lk ul s r"

text \<open>What clients rely on: no step is wrong, one thread is inside at most, and a thread at the lock can go on, at once or when
  the one inside has left.\<close>

definition sect_safe :: "(nat \<Rightarrow> 'l \<Rightarrow> 'l outcome) \<Rightarrow> (nat \<Rightarrow> 'l \<Rightarrow> 'l outcome) \<Rightarrow> 'l sect_sys \<Rightarrow> bool" where
  "sect_safe lk ul s \<longleftrightarrow> \<not> sect_step lk ul s None \<and>
     (\<forall>t u. sect_pcs s t = K_in \<and> sect_pcs s u = K_in \<longrightarrow> t = u) \<and>
     (\<forall>t. sect_pcs s t = K_wants \<longrightarrow> (\<exists>l. lk t (sect_lock s) = Go l) \<or>
       (\<exists>u l l'. sect_pcs s u = K_in \<and> ul u (sect_lock s) = Go l \<and> lk t l = Go l'))"

section \<open>The contract\<close>

text \<open>The owner of a lock in good order, if it has one.\<close>

locale exclusive_lock =
  fixes lk :: "nat \<Rightarrow> 'l \<Rightarrow> 'l outcome" and ul :: "nat \<Rightarrow> 'l \<Rightarrow> 'l outcome" and owner :: "'l \<Rightarrow> nat option option"
  assumes take: "owner l = Some None \<Longrightarrow> \<exists>l'. lk t l = Go l' \<and> owner l' = Some (Some t)"
    and busy: "owner l = Some (Some u) \<Longrightarrow> u \<noteq> t \<Longrightarrow> lk t l = Wait"
    and give: "owner l = Some (Some t) \<Longrightarrow> \<exists>l'. ul t l = Go l' \<and> owner l' = Some None"
begin

definition sect_inv :: "'l sect_sys \<Rightarrow> bool" where
  "sect_inv s \<longleftrightarrow> (\<exists>w. owner (sect_lock s) = Some w \<and> (\<forall>t. w = Some t \<longleftrightarrow> sect_pcs s t = K_in))"

lemma sect_step_ok:
  assumes inv: "sect_inv s" and step: "sect_step lk ul s r"
  shows "\<exists>s'. r = Some s' \<and> sect_inv s'"
proof -
  obtain w where w: "owner (sect_lock s) = Some w" "\<And>t. w = Some t \<longleftrightarrow> sect_pcs s t = K_in"
    using inv by (auto simp: sect_inv_def)
  have lock: "w = None" "\<exists>l. lk t (sect_lock s) = Go l \<and> owner l = Some (Some t)"
    if "sect_pcs s t = K_wants" "lk t (sect_lock s) \<noteq> Wait" for t
  proof -
    show "w = None"
    proof (rule ccontr)
      assume "w \<noteq> None"
      then obtain u where u: "w = Some u" by auto
      then have "u \<noteq> t" using w(2) [of u] that(1) by auto
      then show False using busy [of "sect_lock s" u t] w(1) u that(2) by simp
    qed
    then show "\<exists>l. lk t (sect_lock s) = Go l \<and> owner l = Some (Some t)" using take w(1) by simp
  qed
  have unlock: "w = Some t" "\<exists>l. ul t (sect_lock s) = Go l \<and> owner l = Some None" if "sect_pcs s t = K_in" for t
    using w(2) [of t] that give w(1) by auto
  show ?thesis using step
  proof cases
    case (want t)
    have "sect_pcs s u = K_in \<longleftrightarrow> ((sect_pcs s)(t := K_wants)) u = K_in" for u using want(2) by simp
    then show ?thesis using w want(1) by (simp add: sect_inv_def sect_goto_def)
  next
    case (enter t l)
    then have l: "w = None" "owner l = Some (Some t)" using lock [of t] by auto
    then have "sect_pcs s u \<noteq> K_in" for u using w(2) [of u] by simp
    then show ?thesis using l(2) enter(1) by (simp add: sect_inv_def sect_goto_def)
  next
    case (bad_lock t)
    then show ?thesis using lock [of t] by auto
  next
    case (leave t l)
    then have l: "w = Some t" "owner l = Some None" using unlock [of t] by auto
    then have "sect_pcs s u \<noteq> K_in" if "u \<noteq> t" for u using w(2) [of u] that by simp
    then show ?thesis using l(2) leave(1) by (simp add: sect_inv_def sect_goto_def)
  next
    case (bad_unlock t)
    then show ?thesis using unlock [of t] by auto
  qed
qed

lemma sect_reach_inv:
  assumes "owner l0 = Some None" "sect_reach lk ul l0 s"
  shows "sect_inv s"
  using assms(2)
proof induction
  case start
  show ?case using assms(1) by (simp add: sect_inv_def)
next
  case (step s s')
  then show ?case using sect_step_ok by blast
qed

lemma sections_safe:
  assumes "owner l0 = Some None" "sect_reach lk ul l0 s"
  shows "sect_safe lk ul s"
proof -
  have inv: "sect_inv s" using assms by (rule sect_reach_inv)
  then obtain w where w: "owner (sect_lock s) = Some w" "\<And>t. w = Some t \<longleftrightarrow> sect_pcs s t = K_in"
    by (auto simp: sect_inv_def)
  have "(\<exists>l. lk t (sect_lock s) = Go l) \<or> (\<exists>u l l'. sect_pcs s u = K_in \<and> ul u (sect_lock s) = Go l \<and> lk t l = Go l')" for t
  proof (cases w)
    case None
    then show ?thesis using take [of "sect_lock s" t] w(1) by auto
  next
    case (Some u)
    then obtain l where "ul u (sect_lock s) = Go l" "owner l = Some None" using give [of "sect_lock s" u] w(1) by auto
    then show ?thesis using take [of l t] w(2) [of u] Some by blast
  qed
  moreover have "t = u" if "sect_pcs s t = K_in" "sect_pcs s u = K_in" for t u
    using w(2) [of t] w(2) [of u] that by simp
  ultimately show ?thesis using sect_step_ok [OF inv] unfolding sect_safe_def by blast
qed

end

section \<open>The locks of the library\<close>

definition mutex_owner :: "pmutex \<Rightarrow> nat option option" where
  "mutex_owner s = (case s of Dead \<Rightarrow> None | Live w \<Rightarrow> Some w)"

text \<open>A read-write lock without readers.\<close>

definition rw_owner :: "prwlock \<Rightarrow> nat option option" where
  "rw_owner s = (case s of Dead \<Rightarrow> None | Live r \<Rightarrow> if rw_readers r = [] then Some (rw_writer r) else None)"

lemma mutex_owner_iff [simp]: "mutex_owner s = Some w \<longleftrightarrow> s = Live w"
  by (cases s) (auto simp: mutex_owner_def)

lemma rw_owner_iff: "rw_owner s = Some w \<longleftrightarrow> (\<exists>r. s = Live r \<and> rw_readers r = [] \<and> rw_writer r = w)"
  by (cases s) (auto simp: rw_owner_def)

interpretation mutex_lk: exclusive_lock thread_mutex_lock_c thread_mutex_unlock_c mutex_owner
  by unfold_locales (auto simp: thread_mutex_lock_c_def mutex_lock_def thread_mutex_unlock_c_def mutex_unlock_def
    pthread_mutex_lock_def pthread_mutex_unlock_def)

interpretation library_lk: exclusive_lock thread_library_lock thread_library_unlock mutex_owner
  by unfold_locales (auto simp: thread_library_lock_def mutex_lock_def thread_library_unlock_def mutex_unlock_def
    pthread_mutex_lock_def pthread_mutex_unlock_def)

interpretation spin_lk: exclusive_lock "thread_spin_lock detects" thread_spin_unlock mutex_owner for detects
  by unfold_locales (auto simp: thread_spin_lock_def thread_spin_unlock_def pthread_mutex_lock_def pthread_mutex_unlock_def)

interpretation write_lk: exclusive_lock "thread_rwlock_wlock_c detects" thread_rwlock_unlock_c rw_owner for detects
  by unfold_locales (auto simp: rw_owner_iff thread_rwlock_wlock_c_def thread_rwlock_unlock_c_def pthread_rwlock_wrlock_def
    pthread_rwlock_unlock_def)

section \<open>The property\<close>

text \<open>C18: mutual exclusion. Any number of threads that bracket their critical sections with a lock which the library has created -
  a mutex, a spin lock, or a read-write lock that is locked for writing - are safe: no call of a lock function is undefined
  or aborts the program, one thread is in its section at most, and a thread at the lock can enter at once or as soon as the one
  inside has left. So it is with the library mutex, which needs no creation.\<close>

theorem locks_exclude:
  shows "(thread_mutex_create_c Dead = Go l \<and> sect_reach thread_mutex_lock_c thread_mutex_unlock_c l s \<longrightarrow>
      sect_safe thread_mutex_lock_c thread_mutex_unlock_c s) \<and>
    (sect_reach thread_library_lock thread_library_unlock (Live None) s \<longrightarrow> sect_safe thread_library_lock thread_library_unlock s) \<and>
    (thread_spin_create 0 Dead = Go l \<and> sect_reach (thread_spin_lock detects) thread_spin_unlock l s \<longrightarrow>
      sect_safe (thread_spin_lock detects) thread_spin_unlock s) \<and>
    (thread_rwlock_create_c Dead = Go rw \<and> sect_reach (thread_rwlock_wlock_c detects) thread_rwlock_unlock_c rw s' \<longrightarrow>
      sect_safe (thread_rwlock_wlock_c detects) thread_rwlock_unlock_c s')"
proof (intro conjI impI)
  assume "thread_mutex_create_c Dead = Go l \<and> sect_reach thread_mutex_lock_c thread_mutex_unlock_c l s"
  then show "sect_safe thread_mutex_lock_c thread_mutex_unlock_c s"
    by (auto simp: thread_mutex_create_c_def mutex_create_def pthread_init_def intro: mutex_lk.sections_safe)
next
  assume "sect_reach thread_library_lock thread_library_unlock (Live None) s"
  then show "sect_safe thread_library_lock thread_library_unlock s" by (rule library_lk.sections_safe [rotated]) simp
next
  assume "thread_spin_create 0 Dead = Go l \<and> sect_reach (thread_spin_lock detects) thread_spin_unlock l s"
  then show "sect_safe (thread_spin_lock detects) thread_spin_unlock s"
    by (auto simp: thread_spin_create_def pthread_init_def intro: spin_lk.sections_safe)
next
  assume "thread_rwlock_create_c Dead = Go rw \<and> sect_reach (thread_rwlock_wlock_c detects) thread_rwlock_unlock_c rw s'"
  moreover have "rw_owner rw = Some None" if "thread_rwlock_create_c Dead = Go rw"
    using that by (auto simp: thread_rwlock_create_c_def pthread_init_def rw_free_def rw_owner_iff)
  ultimately show "sect_safe (thread_rwlock_wlock_c detects) thread_rwlock_unlock_c s'" using write_lk.sections_safe by blast
qed

text \<open>Thread 1 is in its section and thread 2 is at the lock.\<close>

theorem locks_exclude_witness:
  "\<exists>s. sect_reach thread_mutex_lock_c thread_mutex_unlock_c (Live None) s \<and> sect_pcs s 1 = K_in \<and> sect_pcs s 2 = K_wants \<and>
    sect_safe thread_mutex_lock_c thread_mutex_unlock_c s"
proof -
  let ?s = "\<lparr>sect_lock = Live None, sect_pcs = (\<lambda>t. K_out)\<rparr> :: pmutex sect_sys"
  let ?s3 = "sect_goto 1 K_in (Live (Some 1)) (sect_goto 2 K_wants (Live None) (sect_goto 1 K_wants (Live None) ?s))"
  let ?r = "sect_reach thread_mutex_lock_c thread_mutex_unlock_c (Live None)"
  note step = sect_reach.step [of thread_mutex_lock_c thread_mutex_unlock_c]
  have "?r (sect_goto 1 K_wants (Live None) ?s)"
    using step [OF sect_reach.start sect_step.want [of ?s 1]] by simp
  from step [OF this sect_step.want [of _ 2]]
  have "?r (sect_goto 2 K_wants (Live None) (sect_goto 1 K_wants (Live None) ?s))" by (simp add: sect_goto_def)
  from step [OF this sect_step.enter [of _ 1 _ "Live (Some 1)"]]
  have r: "?r ?s3" by (simp add: sect_goto_def thread_mutex_lock_c_def mutex_lock_def pthread_mutex_lock_def)
  have "thread_mutex_create_c Dead = Go (Live None)" by (simp add: thread_mutex_create_c_def mutex_create_def pthread_init_def)
  then have "sect_safe thread_mutex_lock_c thread_mutex_unlock_c ?s3" using locks_exclude [of "Live None" ?s3] r by blast
  then show ?thesis using r by (intro exI [of _ ?s3]) (simp add: sect_goto_def)
qed

end
