(* ===== verification/Log_Defs.thy ===== *)
theory Log_Defs
  imports Log_Format
begin

text \<open>
  The model of \<^verbatim>\<open>src/log/log.c\<close> without the formatter: the table of logs, their rings of recent lines, opening,
  rotating and writing log files.

  The entries of all rings live in one heap; a missing address is a NULL or freed entry and \<open>None\<close> as a result is undefined
  behaviour. Every operation is one step; \<open>Log_Threads_Defs\<close> cuts them at the mutex. What files, clock and
  allocator answer is an argument, and the calls that have an effect outside are recorded as a list of events. Allocations
  that the code does not test succeed. The field \<open>buffer\<close>, which is never anything but NULL, is left out.
\<close>

section \<open>The state\<close>

type_synonym stream = nat

datatype io_event =
    Io_open string "stream option"
  | Io_close stream
  | Io_rename string string
  | Io_write stream string
  | Io_flush "stream option"

text \<open>What the outside answers: \<open>fopen\<close>, the size from \<open>stat\<close>, the result of \<open>fprintf\<close> for a text, the two forms of the time
  that \<open>strftime\<close> yields, the address of a new entry, and how \<open>printf\<close> shows a pointer.\<close>

record log_env =
  fopen_res :: "stream option"
  stat_res :: "int option"
  fprintf_res :: "string \<Rightarrow> int"
  timestamp :: string
  datetime :: string
  new_entry :: addr
  ptr_text :: "addr \<Rightarrow> string"

text \<open>The string of an entry without the terminating zero; \<open>elen\<close> counts it.\<close>

record log_entry =
  eline :: string
  elen :: uint
  enext :: addr

type_synonym entry_heap = "addr \<Rightarrow> log_entry option"

datatype log_name = F_null | F_str string | F_freed

text \<open>\<open>log_tail\<close> points to \<open>log_head\<close> of the log or to the field \<open>next\<close> of an entry.\<close>

datatype tail_ref = Tail_null | Tail_head | Tail_next addr

record log_t =
  in_use :: bool
  level :: uint
  filename :: log_name
  logfile :: "stream option"
  fsize :: int
  trigger_level :: int
  archive_timestamp :: int
  total :: ulong
  entries :: uint
  keep_entries :: uint
  log_head :: addr
  log_tail :: tail_ref

record log_state =
  initialized :: bool
  loglist :: "log_t list"
  eheap :: entry_heap
  io :: "io_event list"

definition LOG_MAXLOGS :: nat where "LOG_MAXLOGS = 25"
definition LOG_MAXLINELEN :: nat where "LOG_MAXLINELEN = 1024"
definition LOG_EINSANE :: int where "LOG_EINSANE = -1"
definition LOG_ENOMORELOGS :: int where "LOG_ENOMORELOGS = -2"
definition LOG_ENOTIMPL :: int where "LOG_ENOTIMPL = -5"

lemmas log_consts = LOG_MAXLOGS_def LOG_MAXLINELEN_def LOG_EINSANE_def LOG_ENOMORELOGS_def LOG_ENOTIMPL_def

text \<open>Static memory before \<open>log_initialize\<close>.\<close>

definition log_zero :: log_t where
  "log_zero = \<lparr>in_use = False, level = 0, filename = F_null, logfile = None, fsize = 0, trigger_level = 0, archive_timestamp = 0,
     total = 0, entries = 0, keep_entries = 0, log_head = NULL, log_tail = Tail_null\<rparr>"

definition log_static :: log_state where
  "log_static = \<lparr>initialized = False, loglist = replicate LOG_MAXLOGS log_zero, eheap = Map.empty, io = []\<rparr>"

definition good_id :: "int \<Rightarrow> bool" where
  "good_id log_id \<longleftrightarrow> \<not> (log_id < 0 \<or> log_id \<ge> int LOG_MAXLOGS)"

definition log_at :: "log_state \<Rightarrow> int \<Rightarrow> log_t" where
  "log_at st log_id = loglist st ! nat log_id"

definition set_log :: "int \<Rightarrow> log_t \<Rightarrow> log_state \<Rightarrow> log_state" where
  "set_log log_id l st = st\<lparr>loglist := (loglist st)[nat log_id := l]\<rparr>"

definition set_log_heap :: "int \<Rightarrow> log_t \<Rightarrow> entry_heap \<Rightarrow> io_event list \<Rightarrow> log_state \<Rightarrow> log_state" where
  "set_log_heap log_id l h ev st = st\<lparr>loglist := (loglist st)[nat log_id := l], eheap := h, io := io st @ ev\<rparr>"

section \<open>Setting up\<close>

definition log_reset :: "log_t \<Rightarrow> log_t" where
  "log_reset l = l\<lparr>in_use := False, level := 2, fsize := 0, trigger_level := 1000000000, filename := F_null, logfile := None,
     total := 0, entries := 0, keep_entries := 0, log_head := NULL, log_tail := Tail_head\<rparr>"

definition log_initialize :: "log_state \<Rightarrow> log_state" where
  "log_initialize st =
     (if initialized st then st
      else st\<lparr>loglist := map log_reset (take LOG_MAXLOGS (loglist st)), initialized := True\<rparr>)"

definition log_shutdown :: "log_state \<Rightarrow> log_state" where
  "log_shutdown st = st\<lparr>initialized := False\<rparr>"

fun free_slot :: "log_t list \<Rightarrow> nat \<Rightarrow> nat option" where
  "free_slot [] i = None"
| "free_slot (l # ls) i = (if \<not> in_use l then Some i else free_slot ls (i + 1))"

definition get_log_id :: "log_state \<Rightarrow> int \<times> log_state" where
  "get_log_id st =
     (case free_slot (loglist st) 0 of None \<Rightarrow> (-1, st)
      | Some i \<Rightarrow> (int i, set_log (int i) ((log_at st (int i))\<lparr>in_use := True\<rparr>) st))"

definition log_open_file :: "stream option \<Rightarrow> log_state \<Rightarrow> int \<times> log_state" where
  "log_open_file f st =
     (if f = None then (LOG_EINSANE, st)
      else
        (let (log_id, st) = get_log_id st
         in if log_id < 0 then (LOG_ENOMORELOGS, st)
            else (log_id, set_log log_id ((log_at st log_id)\<lparr>logfile := f, filename := F_null, fsize := 0\<rparr>) st)))"

definition log_open :: "log_env \<Rightarrow> string option \<Rightarrow> log_state \<Rightarrow> int \<times> log_state" where
  "log_open env name st =
     (case name of None \<Rightarrow> (LOG_EINSANE, st)
      | Some n \<Rightarrow>
         if n = '''' then (LOG_EINSANE, st)
         else
           (let st = st\<lparr>io := io st @ [Io_open n (fopen_res env)]\<rparr>;
                (log_id, st) = log_open_file (fopen_res env) st
            in if log_id \<ge> 0 then
                 (log_id, set_log log_id ((log_at st log_id)\<lparr>filename := F_str n,
                    fsize := (case stat_res env of Some sz \<Rightarrow> sz | None \<Rightarrow> fsize (log_at st log_id)),
                    entries := 0, log_head := NULL, log_tail := Tail_head\<rparr>) st)
               else (log_id, st)))"

definition log_open_with_buffer :: "string \<Rightarrow> int \<Rightarrow> int" where
  "log_open_with_buffer name sz = LOG_ENOTIMPL"

section \<open>Settings\<close>

definition log_set_trigger :: "int \<Rightarrow> uint \<Rightarrow> log_state \<Rightarrow> log_state" where
  "log_set_trigger log_id trigger st =
     (if good_id log_id \<and> in_use (log_at st log_id)
      then set_log log_id ((log_at st log_id)\<lparr>trigger_level := int (unat (trigger * 1024))\<rparr>) st else st)"

definition log_set_filename :: "int \<Rightarrow> string option \<Rightarrow> log_state \<Rightarrow> (int \<times> log_state) option" where
  "log_set_filename log_id name st =
     (if \<not> good_id log_id then Some (LOG_EINSANE, st)
      else if name = Some '''' \<or> \<not> in_use (log_at st log_id) then Some (LOG_EINSANE, st)
      else if filename (log_at st log_id) = F_freed then None
      else Some (log_id, set_log log_id ((log_at st log_id)\<lparr>filename := (case name of None \<Rightarrow> F_null | Some n \<Rightarrow> F_str n)\<rparr>) st))"

definition log_set_archive_timestamp :: "int \<Rightarrow> int \<Rightarrow> log_state \<Rightarrow> int \<times> log_state" where
  "log_set_archive_timestamp log_id value st =
     (if \<not> good_id log_id then (LOG_EINSANE, st)
      else (log_id, set_log log_id ((log_at st log_id)\<lparr>archive_timestamp := value\<rparr>) st))"

definition log_set_level :: "int \<Rightarrow> uint \<Rightarrow> log_state \<Rightarrow> log_state" where
  "log_set_level log_id lev st =
     (if \<not> good_id log_id then st
      else if \<not> in_use (log_at st log_id) then st
      else set_log log_id ((log_at st log_id)\<lparr>level := lev\<rparr>) st)"

section \<open>The ring of recent lines\<close>

text \<open>Taking the first entry off the list and freeing it.\<close>

definition drop_head :: "log_t \<Rightarrow> entry_heap \<Rightarrow> (log_t \<times> entry_heap) option" where
  "drop_head l h =
     (case h (log_head l) of None \<Rightarrow> None
      | Some to_go \<Rightarrow> Some (l\<lparr>log_head := enext to_go, total := total l - ucast (elen to_go)\<rparr>, h(log_head l := None)))"

lemma word_pred: "(b :: uint) < a \<Longrightarrow> unat (a - 1) = unat a - 1 \<and> 0 < unat a"
  by (metis unat_minus_one unat_gt_0 word_not_simps(1) word_less_nat_alt not_less0 word_neq_0_conv gr_zeroI unsigned_0)

text \<open>The loop of \<open>log_set_lines_kept\<close> and (with 0) of \<open>log_close\<close>.\<close>

function drop_entries :: "uint \<Rightarrow> log_t \<Rightarrow> entry_heap \<Rightarrow> (log_t \<times> entry_heap) option" where
  "drop_entries count l h =
     (if entries l > count then
        (case drop_head l h of None \<Rightarrow> None
         | Some (l', h') \<Rightarrow> drop_entries count (l'\<lparr>entries := entries l - 1\<rparr>) h')
      else Some (l, h))"
  by pat_completeness auto
termination
  by (relation "measure (\<lambda>(count, l, h). unat (entries l))") (auto dest!: word_pred)

declare drop_entries.simps [simp del]

definition log_set_lines_kept :: "int \<Rightarrow> uint \<Rightarrow> log_state \<Rightarrow> log_state option" where
  "log_set_lines_kept log_id count st =
     (if \<not> good_id log_id then Some st
      else if \<not> in_use (log_at st log_id) then Some st
      else do {
        (l, h) \<leftarrow> drop_entries count ((log_at st log_id)\<lparr>keep_entries := count\<rparr>) (eheap st);
        Some (set_log_heap log_id l h [] st) })"

text \<open>\<open>*log_tail = entry\<close>.\<close>

definition store_tail :: "addr \<Rightarrow> log_t \<Rightarrow> entry_heap \<Rightarrow> (log_t \<times> entry_heap) option" where
  "store_tail a l h =
     (case log_tail l of Tail_null \<Rightarrow> None
      | Tail_head \<Rightarrow> Some (l\<lparr>log_head := a\<rparr>, h)
      | Tail_next b \<Rightarrow> (case h b of None \<Rightarrow> None | Some e \<Rightarrow> Some (l, h(b \<mapsto> e\<lparr>enext := a\<rparr>))))"

text \<open>\<open>create_log_entry\<close>: the result, the log and the heap afterwards and what is written. \<open>entry->len\<close> is cut to 32 bits.\<close>

definition create_log_entry :: "log_env \<Rightarrow> string \<Rightarrow> string \<Rightarrow> log_t \<Rightarrow> entry_heap \<Rightarrow> (int \<times> io_event list \<times> log_t \<times> entry_heap) option" where
  "create_log_entry env pre line l h =
     (if keep_entries l = 0 then do {
        f \<leftarrow> logfile l;
        Some (fprintf_res env (pre @ line @ [LF]), [Io_write f (pre @ line @ [LF])], l, h) }
      else do {
        let entry = new_entry env;
        if entry = NULL then None
        else do {
          let len = (of_nat (length pre + length line + 2) :: uint);
          let text = take (unat len - 1) (pre @ line @ [LF]);
          let h = h(entry \<mapsto> \<lparr>eline = text, elen = len, enext = NULL\<rparr>);
          let l = l\<lparr>total := total l + ucast len\<rparr>;
          f \<leftarrow> logfile l;
          (l, h) \<leftarrow> store_tail entry l h;
          let l = l\<lparr>log_tail := Tail_next entry\<rparr>;
          (l, h) \<leftarrow> (if entries l \<ge> keep_entries l then drop_head l h else Some (l\<lparr>entries := entries l + 1\<rparr>, h));
          Some (sint len, [Io_write f text], l, h) } })"

section \<open>Reading the ring\<close>

text \<open>The loop of \<open>log_contents\<close>: \<open>remain\<close> bytes of the buffer are left behind \<open>out\<close>. A string that does not fit would move the
  pointer out of the buffer.\<close>

partial_function (option) contents_loop :: "addr \<Rightarrow> entry_heap \<Rightarrow> string \<Rightarrow> int \<Rightarrow> string option" where
  "contents_loop entry h out remain =
     (if entry = NULL then Some out
      else do {
        e \<leftarrow> h entry;
        if int (length (eline e)) \<ge> remain then None
        else contents_loop (enext e) h (out @ eline e) (remain - int (length (eline e))) })"

text \<open>The contents and the length that \<open>log_contents\<close> reports; the inner \<open>None\<close>: it has stored nothing.\<close>

definition log_contents :: "int \<Rightarrow> log_state \<Rightarrow> (string \<times> uint) option option" where
  "log_contents log_id st =
     (if \<not> good_id log_id then Some None
      else do {
        let remain = sint (ucast (total (log_at st log_id) + 1) :: uint);
        if remain \<le> 0 then None
        else do {
          out \<leftarrow> contents_loop (log_head (log_at st log_id)) (eheap st) [] remain;
          Some (Some (out, ucast (total (log_at st log_id)))) } })"

text \<open>The loop of \<open>log_contents_array\<close>: \<open>room\<close> cells of the array are left in front of the last one.\<close>

definition cut_newline :: "log_entry \<Rightarrow> string" where
  "cut_newline e = (let i = unat (elen e) - 2 in if i < length (eline e) \<and> eline e ! i = LF then take i (eline e) else eline e)"

partial_function (option) array_loop :: "addr \<Rightarrow> entry_heap \<Rightarrow> string list \<Rightarrow> nat \<Rightarrow> string list option" where
  "array_loop entry h out room =
     (if entry = NULL then Some out
      else do {
        e \<leftarrow> h entry;
        if room = 0 \<or> elen e < 2 then None
        else array_loop (enext e) h (out @ [cut_newline e]) (room - 1) })"

definition log_contents_array :: "(nat \<Rightarrow> bool) \<Rightarrow> int \<Rightarrow> log_state \<Rightarrow> string list option option" where
  "log_contents_array mem log_id st =
     (if \<not> good_id log_id then Some None
      else
        (let n = unat (entries (log_at st log_id))
         in if \<not> mem (8 * (n + 1)) then Some None
            else map_option Some (array_loop (log_head (log_at st log_id)) (eheap st) [] n)))"

section \<open>Files\<close>

text \<open>\<open>_log_open\<close>: whether the log can be written to. \<open>new_name\<close> is \<open>char[4096]\<close>.\<close>

definition archive_name :: "log_env \<Rightarrow> log_t \<Rightarrow> string \<Rightarrow> string" where
  "archive_name env l n = take 4095 (if archive_timestamp l \<noteq> 0 then n @ ''.'' @ timestamp env else n @ ''.old'')"

definition log_open' :: "log_env \<Rightarrow> log_t \<Rightarrow> (bool \<times> io_event list \<times> log_t) option" where
  "log_open' env l =
     (if \<not> in_use l then Some (False, [], l)
      else if logfile l = None \<or> (trigger_level l \<noteq> 0 \<and> fsize l > trigger_level l) then
        (case filename l of
           F_freed \<Rightarrow> None
         | F_null \<Rightarrow> Some (True, [], l\<lparr>fsize := 0\<rparr>)
         | F_str n \<Rightarrow>
             (let ev = (case logfile l of None \<Rightarrow> [] | Some f \<Rightarrow> [Io_close f, Io_rename n (archive_name env l n)]);
                  ev = ev @ [Io_open n (fopen_res env)];
                  l = l\<lparr>logfile := fopen_res env\<rparr>
              in if fopen_res env = None then Some (False, ev, l)
                 else Some (True, ev, l\<lparr>fsize := (case stat_res env of None \<Rightarrow> 0 | Some sz \<Rightarrow> sz)\<rparr>)))
      else Some (True, [], l))"

definition log_flush :: "int \<Rightarrow> log_state \<Rightarrow> log_state" where
  "log_flush log_id st =
     (if \<not> good_id log_id then st
      else if \<not> in_use (log_at st log_id) then st
      else if logfile (log_at st log_id) \<noteq> None then st\<lparr>io := io st @ [Io_flush (logfile (log_at st log_id))]\<rparr> else st)"

definition log_reopen :: "int \<Rightarrow> log_state \<Rightarrow> log_state" where
  "log_reopen log_id st =
     (if \<not> good_id log_id then st
      else
        (let l = log_at st log_id
         in if filename l \<noteq> F_null then
              (case logfile l of None \<Rightarrow> st | Some f \<Rightarrow> set_log_heap log_id (l\<lparr>logfile := None\<rparr>) (eheap st) [Io_close f] st)
            else st))"

definition log_close :: "int \<Rightarrow> log_state \<Rightarrow> log_state option" where
  "log_close log_id st =
     (if \<not> good_id log_id then Some st
      else if \<not> in_use (log_at st log_id) then Some st
      else do {
        let l = (log_at st log_id)\<lparr>in_use := False, level := 2\<rparr>;
        l \<leftarrow> (case filename l of F_null \<Rightarrow> Some l | F_str n \<Rightarrow> Some (l\<lparr>filename := F_freed\<rparr>) | F_freed \<Rightarrow> None);
        let ev = (case logfile l of None \<Rightarrow> [] | Some f \<Rightarrow> [Io_close f]);
        let l = l\<lparr>logfile := None\<rparr>;
        (l, h) \<leftarrow> drop_entries 0 l (eheap st);
        Some (set_log_heap log_id l h ev st) })"

section \<open>Writing\<close>

text \<open>The part of the two writing functions behind the formatter.\<close>

definition log_put :: "log_env \<Rightarrow> int \<Rightarrow> string \<Rightarrow> string \<Rightarrow> log_state \<Rightarrow> log_state option" where
  "log_put env log_id pre line st = do {
     (ok, ev, l) \<leftarrow> log_open' env (log_at st log_id);
     if ok then do {
       (len, ev', l, h) \<leftarrow> create_log_entry env pre line l (eheap st);
       Some (set_log_heap log_id (if len > 0 then l\<lparr>fsize := fsize l + len\<rparr> else l) h (ev @ ev') st) }
     else Some (set_log_heap log_id l (eheap st) ev st) }"

definition prior :: "string list" where
  "prior = [''EROR'', ''WARN'', ''INFO'', ''DBUG'']"

text \<open>\<open>char pre[256]\<close>: the time and what it is followed by.\<close>

definition log_prefix :: "log_env \<Rightarrow> uint \<Rightarrow> string \<Rightarrow> string \<Rightarrow> string option" where
  "log_prefix env priority cat func =
     (if length (datetime env) \<ge> 256 then None
      else Some (datetime env @ take (255 - length (datetime env)) ('' '' @ prior ! unat (priority - 1) @ '' '' @ cat @ func @ '' '')))"

definition log_write :: "log_env \<Rightarrow> int \<Rightarrow> uint \<Rightarrow> string \<Rightarrow> string \<Rightarrow> string \<Rightarrow> va list \<Rightarrow> log_state \<Rightarrow> log_state option" where
  "log_write env log_id priority cat func fmt ap st =
     (if \<not> good_id log_id then Some st
      else if level (log_at st log_id) < priority then Some st
      else if priority = 0 \<or> priority > of_nat (length prior) then Some st
      else do {
        line \<leftarrow> log_vsnprintf (ptr_text env) LOG_MAXLINELEN fmt ap;
        pre \<leftarrow> log_prefix env priority cat func;
        log_put env log_id pre line st })"

definition log_write_direct :: "log_env \<Rightarrow> int \<Rightarrow> string \<Rightarrow> va list \<Rightarrow> log_state \<Rightarrow> log_state option" where
  "log_write_direct env log_id fmt ap st =
     (if \<not> good_id log_id then Some st
      else do {
        line \<leftarrow> log_vsnprintf (ptr_text env) LOG_MAXLINELEN fmt ap;
        st \<leftarrow> log_put env log_id '''' line st;
        Some (st\<lparr>io := io st @ [Io_flush (logfile (log_at st log_id))]\<rparr>) })"

end
