(* ===== verification/Log_Ring.thy ===== *)
theory Log_Ring
  imports Log_Defs
begin

text \<open>
  The ring of recent lines of one log: the chain of its entries, taking entries off the front and adding one at the tail.
\<close>

section \<open>Chains of entries\<close>

text \<open>The addresses of a list of entries that starts at \<open>p\<close>.\<close>

fun chain :: "entry_heap \<Rightarrow> addr \<Rightarrow> addr list \<Rightarrow> bool" where
  "chain h p [] \<longleftrightarrow> p = NULL"
| "chain h p (a # as) \<longleftrightarrow> p = a \<and> a \<noteq> NULL \<and> (case h a of None \<Rightarrow> False | Some e \<Rightarrow> chain h (enext e) as)"

definition entry_ok :: "log_entry \<Rightarrow> bool" where
  "entry_ok e \<longleftrightarrow> unat (elen e) = length (eline e) + 1 \<and> eline e \<noteq> []"

definition chain_total :: "entry_heap \<Rightarrow> addr list \<Rightarrow> ulong" where
  "chain_total h as = sum_list (map (\<lambda>a. ucast (elen (the (h a)))) as)"

definition chain_lines :: "entry_heap \<Rightarrow> addr list \<Rightarrow> string list" where
  "chain_lines h as = map (\<lambda>a. eline (the (h a))) as"

text \<open>What holds of the list of a log at every point of an operation, and what holds between operations.\<close>

definition ring0 :: "log_t \<Rightarrow> entry_heap \<Rightarrow> addr list \<Rightarrow> bool" where
  "ring0 l h as \<longleftrightarrow> chain h (log_head l) as \<and> distinct as \<and> total l = chain_total h as \<and> (\<forall>a\<in>set as. entry_ok (the (h a)))"

definition tail_ok :: "log_t \<Rightarrow> addr list \<Rightarrow> bool" where
  "tail_ok l as \<longleftrightarrow> log_tail l = (if as = [] then Tail_head else Tail_next (last as))"

definition ring :: "log_t \<Rightarrow> entry_heap \<Rightarrow> addr list \<Rightarrow> bool" where
  "ring l h as \<longleftrightarrow> ring0 l h as \<and> unat (entries l) = length as \<and> entries l \<le> keep_entries l"

lemma chain_frame: "(\<And>a. a \<in> set as \<Longrightarrow> h' a = h a) \<Longrightarrow> chain h' p as = chain h p as"
  by (induction as arbitrary: p) (auto split: option.splits)

lemma chain_mem: "chain h p as \<Longrightarrow> a \<in> set as \<Longrightarrow> a \<noteq> NULL \<and> (\<exists>e. h a = Some e)"
  by (induction as arbitrary: p) (auto split: option.splits)

lemma chain_total_frame: "(\<And>a. a \<in> set as \<Longrightarrow> h' a = h a) \<Longrightarrow> chain_total h' as = chain_total h as"
  unfolding chain_total_def by (intro arg_cong [where f = sum_list] map_cong) auto

lemma chain_lines_frame: "(\<And>a. a \<in> set as \<Longrightarrow> h' a = h a) \<Longrightarrow> chain_lines h' as = chain_lines h as"
  unfolding chain_lines_def by (intro map_cong) auto

lemma ring0_frame:
  assumes "ring0 l h as" "\<And>a. a \<in> set as \<Longrightarrow> h' a = h a" "log_head l' = log_head l" "total l' = total l"
  shows "ring0 l' h' as"
proof -
  have "chain h' (log_head l') as" "chain_total h' as = chain_total h as"
    using assms chain_frame [of as h' h] chain_total_frame [of as h' h] by (auto simp: ring0_def)
  then show ?thesis using assms by (simp add: ring0_def)
qed

lemma ring_frame:
  assumes "ring l h as" "\<And>a. a \<in> set as \<Longrightarrow> h' a = h a" "log_head l' = log_head l" "total l' = total l"
    "entries l' = entries l" "keep_entries l' = keep_entries l"
  shows "ring l' h' as"
  using assms ring0_frame [of l h as h' l'] by (simp add: ring_def)

section \<open>Taking entries off\<close>

lemma drop_head_ring0:
  assumes "ring0 l h (a # as)"
  obtains l' where "drop_head l h = Some (l', h(a := None))" "ring0 l' (h(a := None)) as"
    "l' = l\<lparr>log_head := log_head l', total := total l'\<rparr>"
proof -
  from assms obtain e where e: "h a = Some e" "log_head l = a" "a \<noteq> NULL" "chain h (enext e) as" "a \<notin> set as" "distinct as"
    by (auto simp: ring0_def split: option.splits)
  define l' where "l' = l\<lparr>log_head := enext e, total := total l - ucast (elen e)\<rparr>"
  have fr: "(h(a := None)) x = h x" if "x \<in> set as" for x using that e by auto
  have "total l' = chain_total (h(a := None)) as"
    using assms e by (simp add: chain_total_frame [OF fr] l'_def ring0_def) (simp add: chain_total_def)
  then have "ring0 l' (h(a := None)) as"
    using assms e by (simp add: ring0_def chain_frame [OF fr] l'_def fr)
  moreover have "drop_head l h = Some (l', h(a := None))" by (simp add: drop_head_def e l'_def)
  ultimately show ?thesis using that by (simp add: l'_def)
qed

lemma drop_entries_ring0:
  assumes "ring0 l h as" "unat (entries l) = length as"
  obtains l' h' where "drop_entries count l h = Some (l', h')" "ring0 l' h' (drop (length as - unat count) as)"
    "unat (entries l') = min (length as) (unat count)" "l' = l\<lparr>log_head := log_head l', total := total l', entries := entries l'\<rparr>"
    "\<And>x. x \<notin> set (take (length as - unat count) as) \<Longrightarrow> h' x = h x"
    "\<And>x. x \<in> set (take (length as - unat count) as) \<Longrightarrow> h' x = None"
  using assms
proof (induction as arbitrary: l h thesis)
  case Nil
  have "drop_entries count l h = Some (l, h)"
    using Nil by (simp add: drop_entries.simps [of count l h] word_less_nat_alt)
  then show ?case using Nil by simp
next
  case (Cons a as)
  show ?case
  proof (cases "entries l > count")
    case False
    then have le: "length (a # as) \<le> unat count" using Cons.prems(3) by (simp add: word_less_nat_alt)
    have "drop_entries count l h = Some (l, h)" using False by (simp add: drop_entries.simps [of count l h])
    then show ?thesis using Cons.prems le by simp
  next
    case True
    obtain l1 where l1: "drop_head l h = Some (l1, h(a := None))" "ring0 l1 (h(a := None)) as"
      "l1 = l\<lparr>log_head := log_head l1, total := total l1\<rparr>"
      using drop_head_ring0 [OF Cons.prems(2)] .
    define l2 where "l2 = l1\<lparr>entries := entries l - 1\<rparr>"
    have r2: "ring0 l2 (h(a := None)) as" using l1(2) by (simp add: ring0_def l2_def)
    have c: "unat count \<le> length as" using True Cons.prems(3) by (simp add: word_less_nat_alt)
    have n2: "unat (entries l2) = length as" using word_pred [OF True] Cons.prems(3) by (simp add: l2_def)
    obtain l' h' where l': "drop_entries count l2 (h(a := None)) = Some (l', h')"
      "ring0 l' h' (drop (length as - unat count) as)" "unat (entries l') = min (length as) (unat count)"
      "l' = l2\<lparr>log_head := log_head l', total := total l', entries := entries l'\<rparr>"
      "\<And>x. x \<notin> set (take (length as - unat count) as) \<Longrightarrow> h' x = (h(a := None)) x"
      "\<And>x. x \<in> set (take (length as - unat count) as) \<Longrightarrow> h' x = None"
      using Cons.IH [OF _ r2 n2] by blast
    have d: "drop_entries count l h = Some (l', h')"
      using True l1(1) l'(1) by (simp add: drop_entries.simps [of count l h] l2_def)
    have s: "take (length (a # as) - unat count) (a # as) = a # take (length as - unat count) as"
      "drop (length (a # as) - unat count) (a # as) = drop (length as - unat count) as" using c by (auto simp: Suc_diff_le)
    have rec: "l' = l\<lparr>log_head := log_head l', total := total l', entries := entries l'\<rparr>"
      by (subst l'(4), subst l2_def, subst l1(3)) simp
    have "h' x = h x" if "x \<notin> set (take (length (a # as) - unat count) (a # as))" for x
      using that l'(5) [of x] unfolding s by simp
    moreover have "h' x = None" if "x \<in> set (take (length (a # as) - unat count) (a # as))" for x
      using that l'(5,6) [of x] unfolding s by (cases "x \<in> set (take (length as - unat count) as)") auto
    moreover have "ring0 l' h' (drop (length (a # as) - unat count) (a # as))" using l'(2) unfolding s .
    ultimately show ?thesis using Cons.prems(1) [OF d _ _ rec] l'(3) c by simp
  qed
qed

section \<open>Adding an entry\<close>

definition lastn :: "nat \<Rightarrow> 'a list \<Rightarrow> 'a list" where
  "lastn n xs = drop (length xs - n) xs"

lemma length_lastn [simp]: "length (lastn n xs) = min n (length xs)"
  by (simp add: lastn_def)

lemma chain_snoc:
  assumes "chain h p as" "as \<noteq> []" "distinct as" "a \<notin> set as" "a \<noteq> NULL" "h a = Some e" "enext e = NULL"
  shows "chain (h(last as \<mapsto> (the (h (last as)))\<lparr>enext := a\<rparr>)) p (as @ [a])"
  using assms
proof (induction as arbitrary: p)
  case (Cons b bs)
  then obtain eb where b: "p = b" "b \<noteq> NULL" "h b = Some eb" "chain h (enext eb) bs" by (auto split: option.splits)
  show ?case
  proof (cases "bs = []")
    case True
    then show ?thesis using Cons.prems b by auto
  next
    case False
    then have "last bs \<noteq> b" using Cons.prems(3) last_in_set by fastforce
    then show ?thesis using Cons.IH [OF b(4) False] Cons.prems b False by auto
  qed
qed simp

lemma store_tail_ring0:
  assumes r: "ring0 l h as" and t: "tail_ok l as" and a: "a \<noteq> NULL" "h a = None" and e: "entry_ok e" "enext e = NULL"
  obtains l' h' where "store_tail a (l\<lparr>total := total l + ucast (elen e)\<rparr>) (h(a \<mapsto> e)) = Some (l', h')"
    "ring0 l' h' (as @ [a])" "chain_lines h' (as @ [a]) = chain_lines h as @ [eline e]"
    "l' = l\<lparr>log_head := log_head l', total := total l'\<rparr>" "\<And>x. x \<notin> set as \<Longrightarrow> x \<noteq> a \<Longrightarrow> h' x = h x"
    "\<And>x. x \<in> set (as @ [a]) \<Longrightarrow> h' x \<noteq> None"
proof -
  have c: "chain h (log_head l) as" "distinct as" "total l = chain_total h as" "\<forall>x\<in>set as. entry_ok (the (h x))"
    using r by (auto simp: ring0_def)
  have na: "a \<notin> set as" using chain_mem [OF c(1)] a(2) by force
  define l1 where "l1 = l\<lparr>total := total l + ucast (elen e)\<rparr>"
  show ?thesis
  proof (cases "as = []")
    case True
    have "ring0 (l1\<lparr>log_head := a\<rparr>) (h(a \<mapsto> e)) [a]"
      using True c a e by (simp add: ring0_def l1_def chain_total_def)
    moreover have "store_tail a l1 (h(a \<mapsto> e)) = Some (l1\<lparr>log_head := a\<rparr>, h(a \<mapsto> e))"
      using True t by (simp add: store_tail_def tail_ok_def l1_def)
    ultimately show ?thesis using that [of "l1\<lparr>log_head := a\<rparr>" "h(a \<mapsto> e)"] True
      by (simp add: chain_lines_def l1_def)
  next
    case False
    define b where "b = last as"
    have b: "b \<in> set as" "b \<noteq> a" using False na by (auto simp: b_def)
    then obtain eb where eb: "h b = Some eb" using chain_mem [OF c(1)] by blast
    define h' where "h' = h(a \<mapsto> e, b \<mapsto> eb\<lparr>enext := a\<rparr>)"
    have fr: "(h(a \<mapsto> e)) x = h x" if "x \<in> set as" for x using that na by auto
    have ch: "chain (h(a \<mapsto> e)) (log_head l) as" using c(1) chain_frame [of as "h(a \<mapsto> e)" h, OF fr] by simp
    have "h' = (h(a \<mapsto> e))(last as \<mapsto> (the ((h(a \<mapsto> e)) (last as)))\<lparr>enext := a\<rparr>)"
      using b eb by (simp add: h'_def b_def [symmetric])
    then have ch': "chain h' (log_head l) (as @ [a])"
      using chain_snoc [OF ch False c(2) na a(1) _ e(2)] by simp
    have same: "elen (the (h' x)) = elen (the (h x)) \<and> eline (the (h' x)) = eline (the (h x))" if "x \<in> set as" for x
      using that na eb by (auto simp: h'_def)
    have at: "h' a = Some e" using b by (simp add: h'_def)
    have "chain_total h' as = chain_total h as"
      unfolding chain_total_def by (intro arg_cong [where f = sum_list] map_cong) (auto simp: same)
    then have tot: "chain_total h' (as @ [a]) = total l1" using c(3) at by (simp add: chain_total_def l1_def)
    have "\<forall>x\<in>set (as @ [a]). entry_ok (the (h' x))" using c(4) same at e by (auto simp: entry_ok_def)
    then have R: "ring0 l1 h' (as @ [a])" using ch' tot c(2) na by (simp add: ring0_def l1_def)
    have "map (\<lambda>x. eline (the (h' x))) as = map (\<lambda>x. eline (the (h x))) as" by (intro map_cong) (auto simp: same)
    then have L: "chain_lines h' (as @ [a]) = chain_lines h as @ [eline e]" using at by (simp add: chain_lines_def)
    have "store_tail a l1 (h(a \<mapsto> e)) = Some (l1, h')"
      using t False b eb by (simp add: store_tail_def tail_ok_def l1_def h'_def b_def [symmetric])
    moreover have "h' x = h x" if "x \<notin> set as" "x \<noteq> a" for x using that b by (auto simp: h'_def)
    moreover have "h' x \<noteq> None" if "x \<in> set (as @ [a])" for x using chain_mem [OF ch' that] by auto
    ultimately show ?thesis using that [of l1 h'] R L by (simp add: l1_def)
  qed
qed

lemma unat_size: "n < 2 ^ 32 \<Longrightarrow> unat (of_nat n :: uint) = n"
  by (simp add: unat_of_nat)

lemma sint_small: "unat (w :: uint) < 2 ^ 31 \<Longrightarrow> sint w = int (unat w)"
proof -
  assume "unat w < 2 ^ 31"
  then have "int (unat w) < int (2 ^ 31)" by (simp only: of_nat_less_iff)
  then have "uint w < 2 ^ 31" by simp
  moreover have "- (2 ^ 31) \<le> uint w" by (rule order_trans [of _ 0]) simp_all
  ultimately have "signed_take_bit 31 (uint w) = uint w" by (intro signed_take_bit_int_eq_self)
  then show ?thesis by (simp add: sint_uint)
qed

lemma create_log_entry_ring:
  assumes r: "ring l h as" and t: "tail_ok l as" and k: "keep_entries l \<noteq> 0" and a: "new_entry env = a" "a \<noteq> NULL" "h a = None"
    and f: "logfile l = Some f" and n: "length pre + length line + 2 < 2 ^ 31"
  obtains l' h' where "create_log_entry env pre line l h = Some (int (length pre + length line + 2), [Io_write f (pre @ line @ [LF])], l', h')"
    "ring l' h' (lastn (unat (keep_entries l)) (as @ [a]))" "tail_ok l' (lastn (unat (keep_entries l)) (as @ [a]))"
    "chain_lines h' (lastn (unat (keep_entries l)) (as @ [a])) = lastn (unat (keep_entries l)) (chain_lines h as @ [pre @ line @ [LF]])"
    "l' = l\<lparr>log_head := log_head l', total := total l', entries := entries l', log_tail := log_tail l'\<rparr>"
    "\<And>x. x \<notin> set as \<Longrightarrow> x \<noteq> a \<Longrightarrow> h' x = h x"
    "\<And>x. x \<in> set (as @ [a]) \<Longrightarrow> h' x \<noteq> None \<longleftrightarrow> x \<in> set (lastn (unat (keep_entries l)) (as @ [a]))"
proof -
  define len where "len = (of_nat (length pre + length line + 2) :: uint)"
  have len: "unat len = length pre + length line + 2" using n unfolding len_def by (intro unat_size) simp
  have slen: "sint len = int (length pre + length line + 2)"
    using len n sint_small [of len] by simp
  define e where "e = \<lparr>eline = pre @ line @ [LF], elen = len, enext = NULL\<rparr>"
  have e: "entry_ok e" "enext e = NULL" "take (unat len - 1) (pre @ line @ [LF]) = eline e" by (auto simp: entry_ok_def e_def len)
  have r0: "ring0 l h as" "unat (entries l) = length as" "entries l \<le> keep_entries l" using r by (auto simp: ring_def)
  obtain l1 h1 where s: "store_tail a (l\<lparr>total := total l + ucast (elen e)\<rparr>) (h(a \<mapsto> e)) = Some (l1, h1)"
    "ring0 l1 h1 (as @ [a])" "chain_lines h1 (as @ [a]) = chain_lines h as @ [eline e]"
    "l1 = l\<lparr>log_head := log_head l1, total := total l1\<rparr>" "\<And>x. x \<notin> set as \<Longrightarrow> x \<noteq> a \<Longrightarrow> h1 x = h x"
    "\<And>x. x \<in> set (as @ [a]) \<Longrightarrow> h1 x \<noteq> None"
    using store_tail_ring0 [OF r0(1) t a(2,3) e(1,2)] by blast
  define l2 where "l2 = l1\<lparr>log_tail := Tail_next a\<rparr>"
  have f2: "entries l2 = entries l" "keep_entries l2 = keep_entries l" "entries l1 = entries l" "keep_entries l1 = keep_entries l"
    using arg_cong [OF s(4), of entries] arg_cong [OF s(4), of keep_entries] by (simp_all add: l2_def)
  have R2: "ring0 l2 h1 (as @ [a])" using s(2) by (simp add: ring0_def l2_def)
  have step: "create_log_entry env pre line l h =
      (case (if entries l \<ge> keep_entries l then drop_head l2 h1 else Some (l2\<lparr>entries := entries l + 1\<rparr>, h1)) of
         None \<Rightarrow> None | Some (l, h) \<Rightarrow> Some (int (length pre + length line + 2), [Io_write f (pre @ line @ [LF])], l, h))"
  proof -
    have el: "elen e = len" "eline e = pre @ line @ [LF]" "\<lparr>eline = eline e, elen = len, enext = NULL\<rparr> = e" by (simp_all add: e_def)
    note s1 = s(1) [unfolded el(1)]
    show ?thesis
      unfolding create_log_entry_def Let_def len_def [symmetric] e(3) a(1) el(3)
      using k a(2) f f2 by (simp add: s1 l2_def [symmetric] slen el(2) split: option.splits)
  qed
  show ?thesis
  proof (cases "entries l \<ge> keep_entries l")
    case True
    then have full: "length as = unat (keep_entries l)" using r0 by (simp add: word_le_nat_alt)
    then obtain b bs where bs: "as = b # bs" using k by (cases as) (auto simp: unat_eq_zero)
    have ln: "lastn (unat (keep_entries l)) (as @ [a]) = bs @ [a]" using full bs by (simp add: lastn_def)
    obtain l3 where l3: "drop_head l2 h1 = Some (l3, h1(b := None))" "ring0 l3 (h1(b := None)) (bs @ [a])"
      "l3 = l2\<lparr>log_head := log_head l3, total := total l3\<rparr>"
      using drop_head_ring0 [of l2 h1 b "bs @ [a]"] R2 bs by auto
    have f3: "entries l3 = entries l" "keep_entries l3 = keep_entries l" "log_tail l3 = Tail_next a"
      using f2 arg_cong [OF l3(3), of entries] arg_cong [OF l3(3), of keep_entries] arg_cong [OF l3(3), of log_tail]
      by (simp_all add: l2_def)
    have rec: "l3 = l\<lparr>log_head := log_head l3, total := total l3, entries := entries l3, log_tail := log_tail l3\<rparr>"
      by (subst l3(3), subst l2_def, subst s(4)) (simp add: f3)
    have d: "distinct (b # bs @ [a])" using R2 bs by (simp add: ring0_def)
    have "chain_lines (h1(b := None)) (bs @ [a]) = chain_lines h1 (bs @ [a])" by (rule chain_lines_frame) (use d in auto)
    also have "\<dots> = tl (chain_lines h1 (as @ [a]))" by (simp add: bs chain_lines_def)
    also have "\<dots> = lastn (unat (keep_entries l)) (chain_lines h as @ [pre @ line @ [LF]])"
      unfolding s(3) using full by (simp add: lastn_def e_def chain_lines_def bs)
    finally have L: "chain_lines (h1(b := None)) (bs @ [a]) = lastn (unat (keep_entries l)) (chain_lines h as @ [pre @ line @ [LF]])" .
    have R: "ring l3 (h1(b := None)) (bs @ [a])" using l3(2) f3 r0 bs by (simp add: ring_def)
    show ?thesis
    proof (rule that [of l3 "h1(b := None)"])
      show "create_log_entry env pre line l h = Some (int (length pre + length line + 2), [Io_write f (pre @ line @ [LF])], l3, h1(b := None))"
        using step True l3(1) by simp
      show "(h1(b := None)) x \<noteq> None \<longleftrightarrow> x \<in> set (lastn (unat (keep_entries l)) (as @ [a]))" if "x \<in> set (as @ [a])" for x
        using s(6) [OF that] that bs d unfolding ln by auto
      show "tail_ok l3 (lastn (unat (keep_entries l)) (as @ [a]))" unfolding ln by (simp add: f3 tail_ok_def)
      show "(h1(b := None)) x = h x" if "x \<notin> set as" "x \<noteq> a" for x using that s(5) bs by auto
    qed (use rec in \<open>simp_all only: ln R L\<close>)
  next
    case False
    then have lt: "length as < unat (keep_entries l)" using r0 by (simp add: word_le_nat_alt)
    have ln: "lastn (unat (keep_entries l)) (as @ [a]) = as @ [a]" using lt by (simp add: lastn_def)
    define l3 where "l3 = l2\<lparr>entries := entries l + 1\<rparr>"
    have inc: "unat (entries l + 1) = length as + 1"
      using unsigned_less [of "keep_entries l", where ?'a = nat] r0(2) lt by (simp add: unat_word_ariths)
    have "ring0 l3 h1 (as @ [a])" using R2 by (simp add: ring0_def l3_def)
    then have R: "ring l3 h1 (as @ [a])"
      using inc lt f2 by (simp add: ring_def l3_def word_le_nat_alt)
    have rec: "l3 = l\<lparr>log_head := log_head l3, total := total l3, entries := entries l3, log_tail := log_tail l3\<rparr>"
      unfolding l3_def l2_def by (subst s(4)) simp
    show ?thesis
    proof (rule that [of l3 h1])
      show "create_log_entry env pre line l h = Some (int (length pre + length line + 2), [Io_write f (pre @ line @ [LF])], l3, h1)"
        using step False by (simp add: l3_def)
      show "chain_lines h1 (lastn (unat (keep_entries l)) (as @ [a])) = lastn (unat (keep_entries l)) (chain_lines h as @ [pre @ line @ [LF]])"
        unfolding ln s(3) using lt by (simp add: lastn_def e_def chain_lines_def)
    qed (use R rec s(5,6) in \<open>auto simp: ln tail_ok_def l3_def l2_def\<close>)
  qed
qed

end
