(* ===== verification/Log.thy ===== *)
theory Log
  imports Log_Ring
begin

text \<open>
  The correctness of \<^verbatim>\<open>src/log/log.c\<close>: the invariant of the table of logs, its preservation by every call, what the calls
  do to the recent lines and to the files, and the calls that break the invariant.
\<close>

section \<open>The table of logs\<close>

text \<open>A log that is in use has a list whose tail is right, and a stream or a name; a log that is not in use has neither lines
  nor a stream, but its tail may point to an entry that is gone.\<close>

definition log_ok :: "log_t \<Rightarrow> entry_heap \<Rightarrow> addr list \<Rightarrow> bool" where
  "log_ok l h as \<longleftrightarrow> ring l h as \<and>
     (if in_use l then tail_ok l as \<and> filename l \<noteq> F_freed \<and> (logfile l \<noteq> None \<or> filename l \<noteq> F_null)
      else as = [] \<and> logfile l = None)"

text \<open>The lists of the logs share no entry, and every allocated entry is in one of them.\<close>

definition logs_inv :: "log_state \<Rightarrow> addr list list \<Rightarrow> bool" where
  "logs_inv st ass \<longleftrightarrow> length (loglist st) = LOG_MAXLOGS \<and> length ass = LOG_MAXLOGS \<and>
     (\<forall>i<LOG_MAXLOGS. log_ok (loglist st ! i) (eheap st) (ass ! i)) \<and>
     (\<forall>i<LOG_MAXLOGS. \<forall>j<LOG_MAXLOGS. i \<noteq> j \<longrightarrow> set (ass ! i) \<inter> set (ass ! j) = {}) \<and>
     dom (eheap st) = (\<Union>i<LOG_MAXLOGS. set (ass ! i))"

definition log_inv :: "log_state \<Rightarrow> bool" where
  "log_inv st \<longleftrightarrow> (\<exists>ass. logs_inv st ass)"

text \<open>The lines that a log keeps.\<close>

fun entry_lines :: "nat \<Rightarrow> addr \<Rightarrow> entry_heap \<Rightarrow> string list" where
  "entry_lines 0 a h = []"
| "entry_lines (Suc n) a h = (case h a of None \<Rightarrow> [] | Some e \<Rightarrow> eline e # entry_lines n (enext e) h)"

definition recent :: "log_state \<Rightarrow> nat \<Rightarrow> string list" where
  "recent st i = entry_lines (unat (entries (loglist st ! i))) (log_head (loglist st ! i)) (eheap st)"

lemma entry_lines_chain: "chain h p as \<Longrightarrow> entry_lines (length as) p h = chain_lines h as"
  by (induction as arbitrary: p) (auto simp: chain_lines_def split: option.splits)

lemma logs_invD:
  assumes "logs_inv st ass" "i < LOG_MAXLOGS"
  shows "log_ok (loglist st ! i) (eheap st) (ass ! i)" "ring (loglist st ! i) (eheap st) (ass ! i)"
    "recent st i = chain_lines (eheap st) (ass ! i)"
proof -
  show o: "log_ok (loglist st ! i) (eheap st) (ass ! i)" using assms by (simp add: logs_inv_def)
  then show r: "ring (loglist st ! i) (eheap st) (ass ! i)" by (simp add: log_ok_def)
  then show "recent st i = chain_lines (eheap st) (ass ! i)"
    using entry_lines_chain by (simp add: recent_def ring_def ring0_def)
qed

lemma logs_inv_dom: "logs_inv st ass \<Longrightarrow> i < LOG_MAXLOGS \<Longrightarrow> x \<in> set (ass ! i) \<Longrightarrow> x \<in> dom (eheap st)"
  by (auto simp: logs_inv_def)

lemma log_ok_frame: "log_ok l h as \<Longrightarrow> (\<And>x. x \<in> set as \<Longrightarrow> h' x = h x) \<Longrightarrow> log_ok l h' as"
  using ring_frame [of l h as h' l] by (auto simp: log_ok_def)

lemma logs_inv_update:
  assumes inv: "logs_inv st ass" and i: "i < LOG_MAXLOGS" and ok: "log_ok l h as"
    and fr: "\<And>x. x \<notin> set (ass ! i) \<Longrightarrow> x \<in> dom (eheap st) \<Longrightarrow> h x = eheap st x"
    and new: "\<And>x. x \<in> set as \<Longrightarrow> x \<in> set (ass ! i) \<or> x \<notin> dom (eheap st)"
    and dom: "dom h = (dom (eheap st) - set (ass ! i)) \<union> set as"
  shows "logs_inv (st\<lparr>loglist := (loglist st)[i := l], eheap := h, io := ev\<rparr>) (ass[i := as])"
    "\<And>j. j < LOG_MAXLOGS \<Longrightarrow> j \<noteq> i \<Longrightarrow> recent (st\<lparr>loglist := (loglist st)[i := l], eheap := h, io := ev\<rparr>) j = recent st j"
proof -
  let ?st = "st\<lparr>loglist := (loglist st)[i := l], eheap := h, io := ev\<rparr>"
  have L: "length (loglist st) = LOG_MAXLOGS" "length ass = LOG_MAXLOGS"
    and D: "\<And>j k. j < LOG_MAXLOGS \<Longrightarrow> k < LOG_MAXLOGS \<Longrightarrow> j \<noteq> k \<Longrightarrow> set (ass ! j) \<inter> set (ass ! k) = {}"
    and U: "dom (eheap st) = (\<Union>i<LOG_MAXLOGS. set (ass ! i))"
    using inv by (auto simp: logs_inv_def)
  have fr': "h x = eheap st x" if "j < LOG_MAXLOGS" "j \<noteq> i" "x \<in> set (ass ! j)" for j x
    using that D [of i j] i logs_inv_dom [OF inv that(1,3)] fr by blast
  have ok': "log_ok (loglist ?st ! j) h (ass[i := as] ! j)" if "j < LOG_MAXLOGS" for j
    using that ok L logs_invD(1) [OF inv that] log_ok_frame fr' [OF that] by (cases "j = i") auto
  have D': "set (ass[i := as] ! j) \<inter> set (ass[i := as] ! k) = {}" if "j < LOG_MAXLOGS" "k < LOG_MAXLOGS" "j \<noteq> k" for j k
    using that D [OF that] D [OF i that(1)] D [OF i that(2)] new logs_inv_dom [OF inv that(1)] logs_inv_dom [OF inv that(2)] L
    by (cases "j = i"; cases "k = i") (auto; blast)+
  have "dom h = (\<Union>j<LOG_MAXLOGS. set (ass[i := as] ! j))"
  proof -
    have "(\<Union>j<LOG_MAXLOGS. set (ass[i := as] ! j)) = set as \<union> (\<Union>j\<in>{..<LOG_MAXLOGS} - {i}. set (ass ! j))"
      using i L by (auto simp: nth_list_update split: if_splits)
    also have "(\<Union>j\<in>{..<LOG_MAXLOGS} - {i}. set (ass ! j)) = dom (eheap st) - set (ass ! i)"
      unfolding U using D [OF i] i by (auto; blast)
    finally show ?thesis using dom by auto
  qed
  then show *: "logs_inv ?st (ass[i := as])" using ok' D' L by (simp add: logs_inv_def)
  fix j assume j: "j < LOG_MAXLOGS" "j \<noteq> i"
  show "recent ?st j = recent st j"
    unfolding logs_invD(3) [OF * j(1)] logs_invD(3) [OF inv j(1)] using j chain_lines_frame [of "ass ! j" h "eheap st"] fr' by simp
qed

lemma logs_inv_settings:
  assumes "logs_inv st ass" "i < LOG_MAXLOGS" "log_ok l (eheap st) (ass ! i)"
  shows "logs_inv (st\<lparr>loglist := (loglist st)[i := l], eheap := eheap st, io := ev\<rparr>) ass"
    "\<And>j. j < LOG_MAXLOGS \<Longrightarrow> recent (st\<lparr>loglist := (loglist st)[i := l], eheap := eheap st, io := ev\<rparr>) j = recent st j"
proof -
  have d: "dom (eheap st) = (dom (eheap st) - set (ass ! i)) \<union> set (ass ! i)"
    using logs_inv_dom [OF assms(1,2)] by auto
  note u = logs_inv_update [OF assms _ _ d, where ev = ev, simplified list_update_id]
  show *: "logs_inv (st\<lparr>loglist := (loglist st)[i := l], eheap := eheap st, io := ev\<rparr>) ass" using u(1) by simp
  fix j assume j: "j < LOG_MAXLOGS"
  show "recent (st\<lparr>loglist := (loglist st)[i := l], eheap := eheap st, io := ev\<rparr>) j = recent st j"
    unfolding logs_invD(3) [OF * j] logs_invD(3) [OF assms(1) j] by simp
qed

lemma good_id_nat: "good_id log_id \<longleftrightarrow> 0 \<le> log_id \<and> nat log_id < LOG_MAXLOGS"
  by (auto simp: good_id_def)

lemma set_log_eq: "set_log log_id l st = st\<lparr>loglist := (loglist st)[nat log_id := l], eheap := eheap st, io := io st\<rparr>"
  "set_log_heap log_id l h ev st = st\<lparr>loglist := (loglist st)[nat log_id := l], eheap := h, io := io st @ ev\<rparr>"
  by (simp_all add: set_log_def set_log_heap_def)

lemma logs_inv_io [simp]: "logs_inv (st\<lparr>io := ev\<rparr>) ass = logs_inv st ass" "recent (st\<lparr>io := ev\<rparr>) j = recent st j"
  by (simp_all add: logs_inv_def recent_def)

section \<open>Opening and writing\<close>

definition needs_open :: "log_t \<Rightarrow> bool" where
  "needs_open l \<longleftrightarrow> logfile l = None \<or> (trigger_level l \<noteq> 0 \<and> fsize l > trigger_level l)"

text \<open>Whether a line reaches the log file, and what happens to files before.\<close>

definition can_write :: "log_env \<Rightarrow> log_t \<Rightarrow> bool" where
  "can_write env l \<longleftrightarrow> in_use l \<and> (needs_open l \<longrightarrow> filename l = F_null \<or> fopen_res env \<noteq> None)"

definition open_events :: "log_env \<Rightarrow> log_t \<Rightarrow> io_event list" where
  "open_events env l =
     (case filename l of F_str n \<Rightarrow>
        if in_use l \<and> needs_open l then
          (case logfile l of None \<Rightarrow> [] | Some f \<Rightarrow> [Io_close f, Io_rename n (archive_name env l n)]) @ [Io_open n (fopen_res env)]
        else []
      | _ \<Rightarrow> [])"

lemma log_open_ok:
  assumes "log_ok l h as"
  obtains l' where "log_open' env l = Some (can_write env l, open_events env l, l')" "log_ok l' h as"
    "can_write env l \<Longrightarrow> logfile l' \<noteq> None" "l' = l\<lparr>logfile := logfile l', fsize := fsize l'\<rparr>"
proof (cases "in_use l \<and> needs_open l")
  case False
  have "log_open' env l = Some (can_write env l, open_events env l, l)"
    using False by (auto simp: log_open'_def can_write_def open_events_def needs_open_def split: log_name.splits)
  moreover have "can_write env l \<Longrightarrow> logfile l \<noteq> None" using False by (auto simp: can_write_def needs_open_def)
  ultimately show ?thesis using that assms by simp
next
  case True
  then have u: "in_use l" "needs_open l" by auto
  have fr: "log_ok l' h as" if "l' = l\<lparr>logfile := logfile l', fsize := fsize l'\<rparr>" "logfile l' \<noteq> None \<or> filename l \<noteq> F_null" for l'
  proof -
    have "in_use l' = in_use l" "filename l' = filename l" "log_tail l' = log_tail l" "log_head l' = log_head l" "total l' = total l"
      "entries l' = entries l" "keep_entries l' = keep_entries l"
      by (subst that(1); simp)+
    then show ?thesis using assms u that(2) ring_frame [of l h as h l'] by (simp add: log_ok_def tail_ok_def)
  qed
  show ?thesis
  proof (cases "filename l")
    case F_null
    then have f: "logfile l \<noteq> None" using assms u by (simp add: log_ok_def)
    have "log_open' env l = Some (can_write env l, open_events env l, l\<lparr>fsize := 0\<rparr>)"
      using u F_null by (auto simp: log_open'_def can_write_def open_events_def needs_open_def)
    then show ?thesis using that [of "l\<lparr>fsize := 0\<rparr>"] fr [of "l\<lparr>fsize := 0\<rparr>"] f by simp
  next
    case (F_str n)
    define l' where "l' = (if fopen_res env = None then l\<lparr>logfile := fopen_res env\<rparr>
      else l\<lparr>logfile := fopen_res env, fsize := (case stat_res env of None \<Rightarrow> 0 | Some sz \<Rightarrow> sz)\<rparr>)"
    have "log_open' env l = Some (can_write env l, open_events env l, l')"
      using u F_str by (auto simp: log_open'_def can_write_def open_events_def needs_open_def l'_def Let_def)
    moreover have "l' = l\<lparr>logfile := logfile l', fsize := fsize l'\<rparr>" by (simp add: l'_def)
    moreover have "can_write env l \<Longrightarrow> logfile l' \<noteq> None" using u F_str by (auto simp: can_write_def l'_def)
    ultimately show ?thesis using that [of l'] fr [of l'] F_str by simp
  next
    case F_freed
    then show ?thesis using assms u by (simp add: log_ok_def)
  qed
qed

definition env_ok :: "log_env \<Rightarrow> log_state \<Rightarrow> bool" where
  "env_ok env st \<longleftrightarrow> new_entry env \<noteq> NULL \<and> new_entry env \<notin> dom (eheap st) \<and> length (datetime env) < 256"

lemma log_put_ok:
  assumes inv: "logs_inv st ass" and i: "good_id log_id" and env: "env_ok env st" and n: "length pre + length line + 2 < 2 ^ 31"
  obtains st' ass' where "log_put env log_id pre line st = Some st'" "logs_inv st' ass'"
    "recent st' (nat log_id) = (if can_write env (log_at st log_id)
       then lastn (unat (keep_entries (log_at st log_id))) (recent st (nat log_id) @ [pre @ line @ [LF]]) else recent st (nat log_id))"
    "\<And>j. j < LOG_MAXLOGS \<Longrightarrow> j \<noteq> nat log_id \<Longrightarrow> recent st' j = recent st j"
    "io st' = io st @ open_events env (log_at st log_id) @
       (if can_write env (log_at st log_id) then [Io_write (the (logfile (log_at st' log_id))) (pre @ line @ [LF])] else [])"
proof -
  let ?i = "nat log_id"
  let ?l = "log_at st log_id"
  let ?h = "eheap st"
  let ?as = "ass ! ?i"
  let ?text = "pre @ line @ [LF]"
  have i': "?i < LOG_MAXLOGS" using i by (simp add: good_id_nat)
  have ok: "log_ok ?l ?h ?as" using logs_invD(1) [OF inv i'] by (simp add: log_at_def)
  have len: "length (loglist st) = LOG_MAXLOGS" using inv by (simp add: logs_inv_def)
  obtain l1 where l1: "log_open' env ?l = Some (can_write env ?l, open_events env ?l, l1)" "log_ok l1 ?h ?as"
    "can_write env ?l \<Longrightarrow> logfile l1 \<noteq> None" "l1 = ?l\<lparr>logfile := logfile l1, fsize := fsize l1\<rparr>"
    using log_open_ok [OF ok, of env] by blast
  have k1: "keep_entries l1 = keep_entries ?l" "in_use l1 = in_use ?l" by (subst l1(4); simp)+
  show ?thesis
  proof (cases "can_write env ?l")
    case False
    note s = logs_inv_settings [OF inv i' l1(2), where ev = "io st @ open_events env ?l"]
    have "log_put env log_id pre line st = Some (set_log_heap log_id l1 ?h (open_events env ?l) st)"
      using False l1(1) by (simp add: log_put_def)
    then show ?thesis using that [OF _ s(1)] s(2) i' False unfolding set_log_eq by simp
  next
    case True
    then obtain f where f: "logfile l1 = Some f" using l1(3) by blast
    have u: "in_use l1" using True k1 by (simp add: can_write_def)
    define upd where "upd = (\<lambda>len (l :: log_t). if len > 0 then l\<lparr>fsize := fsize l + len\<rparr> else l)"
    have upd: "log_ok (upd len l) h as = log_ok l h as" "logfile (upd len l) = logfile l" for len l h as
      by (auto simp: upd_def log_ok_def ring_def ring0_def tail_ok_def)
    show ?thesis
    proof (cases "keep_entries l1 = 0")
      case z: True
      let ?l2 = "upd (fprintf_res env ?text) l1"
      have put: "log_put env log_id pre line st = Some (set_log_heap log_id ?l2 ?h (open_events env ?l @ [Io_write f ?text]) st)"
        using True l1(1) z f by (simp add: log_put_def create_log_entry_def upd_def)
      have "log_ok ?l2 ?h ?as" using l1(2) upd by simp
      note s = logs_inv_settings [OF inv i' this, where ev = "io st @ open_events env ?l @ [Io_write f ?text]"]
      have "recent st ?i = []"
        using l1(2) z logs_invD(3) [OF inv i'] by (auto simp: log_ok_def ring_def chain_lines_def)
      then show ?thesis using that [OF put [unfolded set_log_eq] s(1)] s(2) i' True z k1 f len upd(2)
        by (simp add: lastn_def log_at_def)
    next
      case k: False
      have r1: "ring l1 ?h ?as" "tail_ok l1 ?as" using l1(2) u by (auto simp: log_ok_def)
      have a: "new_entry env \<noteq> NULL" "?h (new_entry env) = None" using env by (auto simp: env_ok_def)
      let ?as' = "lastn (unat (keep_entries l1)) (?as @ [new_entry env])"
      obtain l2 h2 where c: "create_log_entry env pre line l1 ?h = Some (int (length pre + length line + 2), [Io_write f ?text], l2, h2)"
        "ring l2 h2 ?as'" "tail_ok l2 ?as'" "chain_lines h2 ?as' = lastn (unat (keep_entries l1)) (chain_lines ?h ?as @ [?text])"
        "l2 = l1\<lparr>log_head := log_head l2, total := total l2, entries := entries l2, log_tail := log_tail l2\<rparr>"
        "\<And>x. x \<notin> set ?as \<Longrightarrow> x \<noteq> new_entry env \<Longrightarrow> h2 x = ?h x"
        "\<And>x. x \<in> set (?as @ [new_entry env]) \<Longrightarrow> h2 x \<noteq> None \<longleftrightarrow> x \<in> set ?as'"
        using create_log_entry_ring [OF r1 k refl a f n] by blast
      have k2: "in_use l2 = in_use l1" "filename l2 = filename l1" "logfile l2 = logfile l1" by (subst c(5); simp)+
      let ?l2 = "upd (int (length pre + length line + 2)) l2"
      have put: "log_put env log_id pre line st = Some (set_log_heap log_id ?l2 h2 (open_events env ?l @ [Io_write f ?text]) st)"
        using True l1(1) c(1) by (simp add: log_put_def upd_def)
      have ok2: "log_ok ?l2 h2 ?as'" unfolding upd using c(2,3) k2 u l1(2) f by (simp add: log_ok_def)
      have sub: "set ?as' \<subseteq> set ?as \<union> {new_entry env}" using set_drop_subset by (fastforce simp: lastn_def)
      have dom: "dom h2 = (dom ?h - set ?as) \<union> set ?as'"
      proof (rule set_eqI)
        fix x
        show "x \<in> dom h2 \<longleftrightarrow> x \<in> (dom ?h - set ?as) \<union> set ?as'"
        proof (cases "x \<in> set (?as @ [new_entry env])")
          case True
          then show ?thesis using c(7) [OF True] a by (auto simp: domIff)
        next
          case False
          then show ?thesis using c(6) [of x] sub by (auto simp: domIff)
        qed
      qed
      have fr2: "h2 x = ?h x" if "x \<notin> set ?as" "x \<in> dom ?h" for x using that c(6) [of x] a by (cases "x = new_entry env") auto
      have new2: "x \<in> set ?as \<or> x \<notin> dom ?h" if "x \<in> set ?as'" for x using that sub a by auto
      note s = logs_inv_update [OF inv i' ok2 fr2 new2 dom, where ev = "io st @ open_events env ?l @ [Io_write f ?text]"]
      have "ass[?i := ?as'] ! ?i = ?as'" using i' inv by (simp add: logs_inv_def)
      then have "recent (st\<lparr>loglist := (loglist st)[?i := ?l2], eheap := h2, io := io st @ open_events env ?l @ [Io_write f ?text]\<rparr>) ?i =
          lastn (unat (keep_entries ?l)) (recent st ?i @ [?text])"
        using logs_invD(3) [OF s(1) i'] logs_invD(3) [OF inv i'] c(4) k1 by simp
      then show ?thesis using that [OF put [unfolded set_log_eq] s(1)] s(2) True len i' k2 f upd(2) by (simp add: log_at_def)
    qed
  qed
qed

section \<open>The other operations\<close>

lemma lastn_0 [simp]: "lastn 0 xs = []"
  by (simp add: lastn_def)

lemma lastn_Nil_iff: "lastn n xs = [] \<longleftrightarrow> n = 0 \<or> xs = []"
  unfolding length_0_conv [symmetric] length_lastn by (auto simp: min_def)

lemma upd_io_list: "st\<lparr>io := ev, loglist := ls\<rparr> = st\<lparr>loglist := ls, eheap := eheap st, io := ev\<rparr>"
  by (cases st) simp

lemma upd_size_name: "l\<lparr>fsize := a, filename := n\<rparr> = l\<lparr>filename := n, fsize := a\<rparr>"
  by (cases l) simp

lemma upd_null_name: "filename l = F_null \<Longrightarrow> l\<lparr>in_use := u, level := v, filename := F_null, logfile := f\<rparr> = l\<lparr>in_use := u, level := v, logfile := f\<rparr>"
  by (cases l) simp

lemma drop_lines_ok:
  assumes "ring0 l h as" "unat (entries l) = length as"
  obtains l' h' where "drop_entries count l h = Some (l', h')" "ring (l'\<lparr>keep_entries := count\<rparr>) h' (lastn (unat count) as)"
    "l' = l\<lparr>log_head := log_head l', total := total l', entries := entries l'\<rparr>"
    "\<And>x. x \<notin> set as \<Longrightarrow> h' x = h x" "\<And>x. x \<in> set as \<Longrightarrow> h' x \<noteq> None \<longleftrightarrow> x \<in> set (lastn (unat count) as)"
    "chain_lines h' (lastn (unat count) as) = lastn (unat count) (chain_lines h as)"
proof -
  obtain l' h' where d: "drop_entries count l h = Some (l', h')" "ring0 l' h' (drop (length as - unat count) as)"
    "unat (entries l') = min (length as) (unat count)" "l' = l\<lparr>log_head := log_head l', total := total l', entries := entries l'\<rparr>"
    "\<And>x. x \<notin> set (take (length as - unat count) as) \<Longrightarrow> h' x = h x"
    "\<And>x. x \<in> set (take (length as - unat count) as) \<Longrightarrow> h' x = None"
    using drop_entries_ring0 [OF assms, of count] by blast
  have dist: "set (take (length as - unat count) as) \<inter> set (drop (length as - unat count) as) = {}"
    using assms(1) by (intro set_take_disj_set_drop_if_distinct) (simp_all add: ring0_def)
  have R: "ring (l'\<lparr>keep_entries := count\<rparr>) h' (lastn (unat count) as)"
    using d(2,3) by (auto simp: ring_def ring0_def lastn_def word_le_nat_alt)
  have keep: "h' x = h x" if "x \<in> set (lastn (unat count) as)" for x
    using that d(5) dist by (auto simp: lastn_def)
  have mem: "h' x \<noteq> None \<longleftrightarrow> x \<in> set (lastn (unat count) as)" if "x \<in> set as" for x
  proof -
    have "x \<in> set (take (length as - unat count) as) \<or> x \<in> set (drop (length as - unat count) as)"
      using that by (metis append_take_drop_id Un_iff set_append)
    moreover have "h' x \<noteq> None" if "x \<in> set (lastn (unat count) as)"
      using R that chain_mem by (fastforce simp: ring_def ring0_def)
    ultimately show ?thesis using d(6) [of x] by (auto simp: lastn_def)
  qed
  have "chain_lines h' (lastn (unat count) as) = chain_lines h (lastn (unat count) as)" by (rule chain_lines_frame) (rule keep)
  also have "\<dots> = lastn (unat count) (chain_lines h as)" by (simp add: chain_lines_def lastn_def drop_map)
  finally have L: "chain_lines h' (lastn (unat count) as) = lastn (unat count) (chain_lines h as)" .
  have fr: "h' x = h x" if "x \<notin> set as" for x using that d(5) in_set_takeD by fast
  show ?thesis using that [OF d(1) R d(4) fr mem L] by blast
qed

lemma lines_dom:
  assumes "logs_inv st ass" "i < LOG_MAXLOGS" "\<And>x. x \<notin> set (ass ! i) \<Longrightarrow> h' x = eheap st x"
    "\<And>x. x \<in> set (ass ! i) \<Longrightarrow> h' x \<noteq> None \<longleftrightarrow> x \<in> set (lastn n (ass ! i))"
  shows "dom h' = (dom (eheap st) - set (ass ! i)) \<union> set (lastn n (ass ! i))"
proof (rule set_eqI)
  fix x
  have "set (lastn n (ass ! i)) \<subseteq> set (ass ! i)" by (simp add: lastn_def set_drop_subset)
  then show "x \<in> dom h' \<longleftrightarrow> x \<in> (dom (eheap st) - set (ass ! i)) \<union> set (lastn n (ass ! i))"
    using assms(3,4) [of x] by (cases "x \<in> set (ass ! i)") (auto simp: domIff)
qed

lemma lines_update:
  assumes inv: "logs_inv st ass" and i: "i < LOG_MAXLOGS" and ok: "log_ok l h (lastn n (ass ! i))"
    and fr: "\<And>x. x \<notin> set (ass ! i) \<Longrightarrow> h x = eheap st x"
    and mem: "\<And>x. x \<in> set (ass ! i) \<Longrightarrow> h x \<noteq> None \<longleftrightarrow> x \<in> set (lastn n (ass ! i))"
    and ls: "chain_lines h (lastn n (ass ! i)) = lastn n (chain_lines (eheap st) (ass ! i))"
  shows "logs_inv (st\<lparr>loglist := (loglist st)[i := l], eheap := h, io := ev\<rparr>) (ass[i := lastn n (ass ! i)])"
    "recent (st\<lparr>loglist := (loglist st)[i := l], eheap := h, io := ev\<rparr>) i = lastn n (recent st i)"
    "\<And>j. j < LOG_MAXLOGS \<Longrightarrow> j \<noteq> i \<Longrightarrow> recent (st\<lparr>loglist := (loglist st)[i := l], eheap := h, io := ev\<rparr>) j = recent st j"
proof -
  have sub: "set (lastn n (ass ! i)) \<subseteq> set (ass ! i)" by (simp add: lastn_def set_drop_subset)
  note u = logs_inv_update [OF inv i ok _ _ lines_dom [OF inv i fr mem], where ev = ev]
  show *: "logs_inv (st\<lparr>loglist := (loglist st)[i := l], eheap := h, io := ev\<rparr>) (ass[i := lastn n (ass ! i)])"
    by (rule u(1)) (use fr sub in auto)
  have "ass[i := lastn n (ass ! i)] ! i = lastn n (ass ! i)" using i inv by (simp add: logs_inv_def)
  then show "recent (st\<lparr>loglist := (loglist st)[i := l], eheap := h, io := ev\<rparr>) i = lastn n (recent st i)"
    using logs_invD(3) [OF * i] logs_invD(3) [OF inv i] ls by simp
  show "recent (st\<lparr>loglist := (loglist st)[i := l], eheap := h, io := ev\<rparr>) j = recent st j" if "j < LOG_MAXLOGS" "j \<noteq> i" for j
    by (rule u(2)) (use fr sub that in auto)
qed

lemma log_set_lines_kept_ok:
  assumes inv: "logs_inv st ass" and i: "good_id log_id" and u: "in_use (log_at st log_id)"
    and c: "count \<noteq> 0 \<or> entries (log_at st log_id) = 0"
  obtains st' ass' where "log_set_lines_kept log_id count st = Some st'" "logs_inv st' ass'"
    "recent st' (nat log_id) = lastn (unat count) (recent st (nat log_id))"
    "\<And>j. j < LOG_MAXLOGS \<Longrightarrow> j \<noteq> nat log_id \<Longrightarrow> recent st' j = recent st j" "io st' = io st"
proof -
  let ?i = "nat log_id"
  let ?as = "ass ! ?i"
  let ?l = "(log_at st log_id)\<lparr>keep_entries := count\<rparr>"
  have i': "?i < LOG_MAXLOGS" using i by (simp add: good_id_nat)
  have ok: "log_ok (log_at st log_id) (eheap st) ?as" using logs_invD(1) [OF inv i'] by (simp add: log_at_def)
  have r: "ring0 ?l (eheap st) ?as" "unat (entries ?l) = length ?as" using ok by (auto simp: log_ok_def ring_def ring0_def)
  obtain l' h' where d: "drop_entries count ?l (eheap st) = Some (l', h')"
    "ring (l'\<lparr>keep_entries := count\<rparr>) h' (lastn (unat count) ?as)"
    "l' = ?l\<lparr>log_head := log_head l', total := total l', entries := entries l'\<rparr>"
    "\<And>x. x \<notin> set ?as \<Longrightarrow> h' x = eheap st x" "\<And>x. x \<in> set ?as \<Longrightarrow> h' x \<noteq> None \<longleftrightarrow> x \<in> set (lastn (unat count) ?as)"
    "chain_lines h' (lastn (unat count) ?as) = lastn (unat count) (chain_lines (eheap st) ?as)"
    using drop_lines_ok [OF r, of count] by blast
  have f: "in_use l' = in_use ?l" "filename l' = filename ?l" "logfile l' = logfile ?l" "log_tail l' = log_tail ?l" "keep_entries l' = count"
    by (subst d(3); simp)+
  have ne: "lastn (unat count) ?as = [] \<longleftrightarrow> ?as = []"
    using c r(2) unat_gt_0 [of count] by (auto simp: lastn_Nil_iff)
  have "last (lastn (unat count) ?as) = last ?as" if "?as \<noteq> []" using that ne by (simp add: lastn_def last_drop)
  then have t: "tail_ok l' (lastn (unat count) ?as)" using ok u f ne by (auto simp: log_ok_def tail_ok_def)
  have "ring l' h' (lastn (unat count) ?as)" using d(2) f(5) by (simp add: ring_def ring0_def)
  then have ok': "log_ok l' h' (lastn (unat count) ?as)" using t f ok u by (simp add: log_ok_def)
  note s = lines_update [OF inv i' ok' d(4-6), where ev = "io st @ []"]
  have "log_set_lines_kept log_id count st = Some (set_log_heap log_id l' h' [] st)"
    using i u d(1) by (simp add: log_set_lines_kept_def)
  then show ?thesis using that [OF _ s(1)] s(2,3) unfolding set_log_eq by simp
qed

lemma log_close_ok:
  assumes inv: "logs_inv st ass" and i: "good_id log_id" and u: "in_use (log_at st log_id)"
  obtains st' ass' where "log_close log_id st = Some st'" "logs_inv st' ass'" "recent st' (nat log_id) = []"
    "\<And>j. j < LOG_MAXLOGS \<Longrightarrow> j \<noteq> nat log_id \<Longrightarrow> recent st' j = recent st j" "\<not> in_use (log_at st' log_id)"
    "io st' = io st @ (case logfile (log_at st log_id) of None \<Rightarrow> [] | Some f \<Rightarrow> [Io_close f])"
proof -
  let ?i = "nat log_id"
  let ?as = "ass ! ?i"
  let ?n = "if filename (log_at st log_id) = F_null then F_null else F_freed"
  let ?l = "(log_at st log_id)\<lparr>in_use := False, level := 2, filename := ?n, logfile := None\<rparr>"
  let ?ev = "case logfile (log_at st log_id) of None \<Rightarrow> [] | Some f \<Rightarrow> [Io_close f]"
  have i': "?i < LOG_MAXLOGS" using i by (simp add: good_id_nat)
  have ok: "log_ok (log_at st log_id) (eheap st) ?as" using logs_invD(1) [OF inv i'] by (simp add: log_at_def)
  have r: "ring0 ?l (eheap st) ?as" "unat (entries ?l) = length ?as" using ok by (auto simp: log_ok_def ring_def ring0_def)
  obtain l' h' where d: "drop_entries 0 ?l (eheap st) = Some (l', h')"
    "ring (l'\<lparr>keep_entries := 0\<rparr>) h' (lastn (unat (0 :: uint)) ?as)"
    "l' = ?l\<lparr>log_head := log_head l', total := total l', entries := entries l'\<rparr>"
    "\<And>x. x \<notin> set ?as \<Longrightarrow> h' x = eheap st x" "\<And>x. x \<in> set ?as \<Longrightarrow> h' x \<noteq> None \<longleftrightarrow> x \<in> set (lastn (unat (0 :: uint)) ?as)"
    "chain_lines h' (lastn (unat (0 :: uint)) ?as) = lastn (unat (0 :: uint)) (chain_lines (eheap st) ?as)"
    using drop_lines_ok [OF r, of 0] by blast
  have f: "\<not> in_use l'" "logfile l' = None" by (subst d(3); simp)+
  have "ring l' h' []" using d(2) by (auto simp: ring_def ring0_def)
  then have ok': "log_ok l' h' (lastn (unat (0 :: uint)) ?as)" using f by (simp add: log_ok_def)
  note s = lines_update [OF inv i' ok' d(4-6), where ev = "io st @ ?ev"]
  have "filename (log_at st log_id) \<noteq> F_freed" using ok u by (simp add: log_ok_def)
  then have "log_close log_id st = Some (set_log_heap log_id l' h' ?ev st)"
    using i u d(1) by (cases "filename (log_at st log_id)") (simp_all add: log_close_def Let_def upd_null_name)
  moreover have "nat log_id < length (loglist st)" using i' inv by (simp add: logs_inv_def)
  ultimately show ?thesis using that [OF _ s(1)] s(2,3) f(1) unfolding set_log_eq by (simp add: lastn_def log_at_def)
qed

lemma free_slot_Some: "free_slot ls k = Some i \<Longrightarrow> k \<le> i \<and> i < k + length ls \<and> \<not> in_use (ls ! (i - k))"
proof (induction ls arbitrary: k)
  case (Cons l ls)
  show ?case
  proof (cases "in_use l")
    case True
    then have "Suc k \<le> i \<and> i < Suc k + length ls \<and> \<not> in_use (ls ! (i - Suc k))" using Cons.IH [of "Suc k"] Cons.prems by simp
    moreover from this have "i - k = Suc (i - Suc k)" using Suc_diff_Suc [of k i] by simp
    ultimately show ?thesis by simp
  qed (use Cons in simp)
qed simp

lemma log_open_file_ok:
  assumes inv: "logs_inv st ass"
    and s: "\<And>i. free_slot (loglist st) 0 = Some i \<Longrightarrow> log_tail (loglist st ! i) = Tail_head"
  shows "logs_inv (snd (log_open_file f st)) ass" "\<And>j. j < LOG_MAXLOGS \<Longrightarrow> recent (snd (log_open_file f st)) j = recent st j"
proof -
  have len: "length (loglist st) = LOG_MAXLOGS" using inv by (simp add: logs_inv_def)
  show "logs_inv (snd (log_open_file f st)) ass"
    and "\<And>j. j < LOG_MAXLOGS \<Longrightarrow> recent (snd (log_open_file f st)) j = recent st j"
  proof (atomize (full), cases "f = None \<or> free_slot (loglist st) 0 = None")
    case True
    then show "logs_inv (snd (log_open_file f st)) ass \<and> (\<forall>j. j < LOG_MAXLOGS \<longrightarrow> recent (snd (log_open_file f st)) j = recent st j)"
      using inv by (auto simp: log_open_file_def get_log_id_def)
  next
    case False
    then obtain i g where i: "free_slot (loglist st) 0 = Some i" and g: "f = Some g" by auto
    have b: "i < LOG_MAXLOGS" "\<not> in_use (loglist st ! i)" using free_slot_Some [OF i] len by auto
    let ?l = "(loglist st ! i)\<lparr>in_use := True, logfile := f, filename := F_null, fsize := 0\<rparr>"
    have "log_ok ?l (eheap st) (ass ! i)"
      using logs_invD(1) [OF inv b(1)] b(2) s [OF i] g by (auto simp: log_ok_def ring_def ring0_def tail_ok_def)
    note u = logs_inv_settings [OF inv b(1) this, where ev = "io st"]
    have "snd (log_open_file f st) = st\<lparr>loglist := (loglist st)[i := ?l], eheap := eheap st, io := io st\<rparr>"
      using i g b len by (simp add: log_open_file_def get_log_id_def set_log_def log_at_def)
    then show "logs_inv (snd (log_open_file f st)) ass \<and> (\<forall>j. j < LOG_MAXLOGS \<longrightarrow> recent (snd (log_open_file f st)) j = recent st j)"
      using u by simp
  qed
qed

lemma log_open_inv:
  assumes inv: "logs_inv st ass"
  shows "logs_inv (snd (log_open env name st)) ass \<and> (\<forall>j. j < LOG_MAXLOGS \<longrightarrow> recent (snd (log_open env name st)) j = recent st j)"
proof -
  have len: "length (loglist st) = LOG_MAXLOGS" using inv by (simp add: logs_inv_def)
  show ?thesis
  proof (cases "name = None \<or> name = Some '''' \<or> fopen_res env = None \<or> free_slot (loglist st) 0 = None")
    case True
    then show ?thesis using inv
      by (cases name) (auto simp: log_open_def Let_def log_open_file_def get_log_id_def LOG_EINSANE_def LOG_ENOMORELOGS_def)
  next
    case False
    then obtain i g n where i: "free_slot (loglist st) 0 = Some i" and g: "fopen_res env = Some g" and n: "name = Some n" "n \<noteq> ''''" by auto
    have b: "i < LOG_MAXLOGS" "\<not> in_use (loglist st ! i)" using free_slot_Some [OF i] len by auto
    let ?l = "(loglist st ! i)\<lparr>in_use := True, logfile := fopen_res env,
      fsize := (case stat_res env of None \<Rightarrow> 0 | Some sz \<Rightarrow> sz), filename := F_str n, entries := 0, log_head := NULL, log_tail := Tail_head\<rparr>"
    have as: "ass ! i = []" and r: "ring (loglist st ! i) (eheap st) []"
      using logs_invD(1) [OF inv b(1)] b(2) by (auto simp: log_ok_def)
    then have "log_ok ?l (eheap st) (ass ! i)"
      by (auto simp: log_ok_def ring_def ring0_def tail_ok_def)
    note u = logs_inv_settings [OF inv b(1) this, where ev = "io st @ [Io_open n (fopen_res env)]"]
    have "snd (log_open env name st) = st\<lparr>loglist := (loglist st)[i := ?l], eheap := eheap st, io := io st @ [Io_open n (fopen_res env)]\<rparr>"
      using i g n b len
      by (cases "stat_res env") (simp_all add: log_open_def Let_def log_open_file_def get_log_id_def set_log_def log_at_def upd_io_list upd_size_name)
    then show ?thesis using u by simp
  qed
qed

section \<open>Runs of the library\<close>

datatype log_op =
    L_open "string option"
  | L_open_file "stream option"
  | L_trigger int uint
  | L_filename int "string option"
  | L_archive int int
  | L_lines_kept int uint
  | L_level int uint
  | L_flush int
  | L_reopen int
  | L_close int
  | L_write int uint string string string "va list"
  | L_write_direct int string "va list"

text \<open>One call into the library.\<close>

fun log_step :: "log_env \<Rightarrow> log_op \<Rightarrow> log_state \<Rightarrow> log_state option" where
  "log_step env (L_open name) st = Some (snd (log_open env name st))"
| "log_step env (L_open_file f) st = Some (snd (log_open_file f st))"
| "log_step env (L_trigger log_id trigger) st = Some (log_set_trigger log_id trigger st)"
| "log_step env (L_filename log_id name) st = map_option snd (log_set_filename log_id name st)"
| "log_step env (L_archive log_id v) st = Some (snd (log_set_archive_timestamp log_id v st))"
| "log_step env (L_lines_kept log_id count) st = log_set_lines_kept log_id count st"
| "log_step env (L_level log_id lev) st = Some (log_set_level log_id lev st)"
| "log_step env (L_flush log_id) st = Some (log_flush log_id st)"
| "log_step env (L_reopen log_id) st = Some (log_reopen log_id st)"
| "log_step env (L_close log_id) st = log_close log_id st"
| "log_step env (L_write log_id priority cat func fmt ap) st = log_write env log_id priority cat func fmt ap st"
| "log_step env (L_write_direct log_id fmt ap) st = log_write_direct env log_id fmt ap st"

text \<open>What a caller has to observe: the arguments of a message match its format; a log whose lines are kept is not told to keep
  none; the name of a log is not taken away while it has no stream; and \<open>log_open_file\<close> does not get the slot of a log that had
  lines when it was closed.\<close>

fun safe_op :: "log_env \<Rightarrow> log_op \<Rightarrow> log_state \<Rightarrow> bool" where
  "safe_op env (L_open_file f) st \<longleftrightarrow>
     f = None \<or> (case free_slot (loglist st) 0 of None \<Rightarrow> True | Some i \<Rightarrow> log_tail (loglist st ! i) = Tail_head)"
| "safe_op env (L_filename log_id name) st \<longleftrightarrow>
     good_id log_id \<and> in_use (log_at st log_id) \<and> name = None \<longrightarrow> logfile (log_at st log_id) \<noteq> None"
| "safe_op env (L_lines_kept log_id count) st \<longleftrightarrow>
     good_id log_id \<and> in_use (log_at st log_id) \<and> count = 0 \<longrightarrow> entries (log_at st log_id) = 0"
| "safe_op env (L_write log_id priority cat func fmt ap) st \<longleftrightarrow> log_vsnprintf (ptr_text env) LOG_MAXLINELEN fmt ap \<noteq> None"
| "safe_op env (L_write_direct log_id fmt ap) st \<longleftrightarrow> log_vsnprintf (ptr_text env) LOG_MAXLINELEN fmt ap \<noteq> None"
| "safe_op env _ st \<longleftrightarrow> True"

inductive log_reach :: "log_state \<Rightarrow> bool" where
  start: "log_reach (log_initialize log_static)"
| step: "log_reach st \<Longrightarrow> env_ok env st \<Longrightarrow> safe_op env op st \<Longrightarrow> log_step env op st = Some st' \<Longrightarrow> log_reach st'"

section \<open>The invariant\<close>

lemma logs_inv_start: "logs_inv (log_initialize log_static) (replicate LOG_MAXLOGS [])"
  by (simp add: logs_inv_def log_initialize_def log_static_def log_reset_def log_zero_def log_ok_def ring_def ring0_def chain_total_def)

lemma log_ok_settings:
  assumes "log_ok l h as" "log_head l' = log_head l" "total l' = total l" "entries l' = entries l" "keep_entries l' = keep_entries l"
    "log_tail l' = log_tail l" "in_use l' = in_use l" "logfile l' = logfile l" "filename l' = filename l"
  shows "log_ok l' h as"
  using assms by (auto simp: log_ok_def ring_def ring0_def tail_ok_def split: if_splits)

lemma log_ok_files:
  assumes "log_ok l h as" "in_use l" "filename l' \<noteq> F_freed" "logfile l' \<noteq> None \<or> filename l' \<noteq> F_null"
    "l' = l\<lparr>logfile := logfile l', filename := filename l'\<rparr>"
  shows "log_ok l' h as"
proof -
  have "log_head l' = log_head l" "total l' = total l" "entries l' = entries l" "keep_entries l' = keep_entries l"
    "log_tail l' = log_tail l" "in_use l' = in_use l" by (subst assms(5); simp)+
  then show ?thesis using assms(1-4) by (simp add: log_ok_def ring_def ring0_def tail_ok_def)
qed

lemma log_prefix_length: "env_ok env st \<Longrightarrow> \<exists>pre. log_prefix env priority cat func = Some pre \<and> length pre \<le> 255"
  by (auto simp: log_prefix_def env_ok_def)

lemma set_log_keeps:
  assumes "logs_inv st ass" "good_id log_id" "log_ok l (eheap st) (ass ! nat log_id)"
  shows "logs_inv (set_log log_id l st) ass" "logs_inv (set_log_heap log_id l (eheap st) ev st) ass"
  unfolding set_log_eq by (rule logs_inv_settings [OF assms(1) _ assms(3)], use assms(2) in \<open>simp add: good_id_nat\<close>)+

lemma log_step_ok:
  assumes inv: "logs_inv st ass" and env: "env_ok env st" and safe: "safe_op env op st"
  shows "\<exists>st' ass'. log_step env op st = Some st' \<and> logs_inv st' ass'"
proof -
  have ok: "log_ok (log_at st log_id) (eheap st) (ass ! nat log_id)" if "good_id log_id" for log_id
    using that logs_invD(1) [OF inv, of "nat log_id"] by (simp add: good_id_nat log_at_def)
  note sets = set_log_keeps [OF inv _ log_ok_settings [OF ok]]
  have line: "length line < 1024" if "log_vsnprintf pt LOG_MAXLINELEN fmt ap = Some line" for pt fmt ap line
    using log_vsnprintf_length [OF that] by (simp add: LOG_MAXLINELEN_def)
  show ?thesis
  proof (cases op)
    case (L_open name)
    then show ?thesis using log_open_inv [OF inv] by auto
  next
    case (L_open_file f)
    show ?thesis
    proof (cases f)
      case None
      then show ?thesis using L_open_file inv by (auto simp: log_open_file_def)
    next
      case (Some g)
      then have "log_tail (loglist st ! i) = Tail_head" if "free_slot (loglist st) 0 = Some i" for i
        using that safe L_open_file by simp
      from log_open_file_ok(1) [OF inv this, of f] show ?thesis using L_open_file by auto
    qed
  next
    case (L_trigger log_id trigger)
    then show ?thesis using inv by (auto simp: log_set_trigger_def intro!: exI [of _ ass] sets(1))
  next
    case (L_filename log_id name)
    show ?thesis
    proof (cases "good_id log_id \<and> name \<noteq> Some '''' \<and> in_use (log_at st log_id)")
      case True
      then have "log_ok ((log_at st log_id)\<lparr>filename := (case name of None \<Rightarrow> F_null | Some n \<Rightarrow> F_str n)\<rparr>) (eheap st) (ass ! nat log_id)"
        using safe L_filename by (intro log_ok_files [OF ok]) (auto split: option.splits)
      then have "logs_inv (set_log log_id ((log_at st log_id)\<lparr>filename := (case name of None \<Rightarrow> F_null | Some n \<Rightarrow> F_str n)\<rparr>) st) ass"
        using set_log_keeps(1) [OF inv] True by blast
      moreover have "filename (log_at st log_id) \<noteq> F_freed" using ok True by (auto simp: log_ok_def)
      ultimately show ?thesis using True L_filename by (auto simp: log_set_filename_def)
    qed (use L_filename inv in \<open>auto simp: log_set_filename_def\<close>)
  next
    case (L_archive log_id v)
    then show ?thesis using inv by (auto simp: log_set_archive_timestamp_def intro!: exI [of _ ass] sets(1))
  next
    case (L_lines_kept log_id count)
    show ?thesis
    proof (cases "good_id log_id \<and> in_use (log_at st log_id)")
      case True
      then have "count \<noteq> 0 \<or> entries (log_at st log_id) = 0" using safe L_lines_kept by auto
      then show ?thesis using log_set_lines_kept_ok [OF inv, of log_id count] True L_lines_kept by (metis log_step.simps(6))
    qed (use L_lines_kept inv in \<open>auto simp: log_set_lines_kept_def\<close>)
  next
    case (L_level log_id lev)
    then show ?thesis using inv by (auto simp: log_set_level_def intro!: exI [of _ ass] sets(1))
  next
    case (L_flush log_id)
    then show ?thesis using inv by (auto simp: log_flush_def)
  next
    case (L_reopen log_id)
    show ?thesis
    proof (cases "good_id log_id \<and> filename (log_at st log_id) \<noteq> F_null \<and> logfile (log_at st log_id) \<noteq> None")
      case True
      then have "log_ok ((log_at st log_id)\<lparr>logfile := None\<rparr>) (eheap st) (ass ! nat log_id)"
        using ok [of log_id] by (intro log_ok_files [OF ok]) (auto simp: log_ok_def split: if_splits)
      then show ?thesis using True L_reopen
        by (auto simp: log_reopen_def Let_def intro!: exI [of _ ass] set_log_keeps(2) [OF inv])
    qed (use L_reopen inv in \<open>auto simp: log_reopen_def Let_def\<close>)
  next
    case (L_close log_id)
    show ?thesis
    proof (cases "good_id log_id \<and> in_use (log_at st log_id)")
      case True
      then show ?thesis using log_close_ok [OF inv, of log_id] L_close by (metis log_step.simps(10))
    qed (use L_close inv in \<open>auto simp: log_close_def\<close>)
  next
    case (L_write log_id priority cat func fmt ap)
    obtain line where l: "log_vsnprintf (ptr_text env) LOG_MAXLINELEN fmt ap = Some line" using safe L_write by auto
    obtain pre where p: "log_prefix env priority cat func = Some pre" "length pre \<le> 255" using log_prefix_length [OF env] by blast
    show ?thesis
    proof (cases "good_id log_id")
      case True
      have "length pre + length line + 2 < 2 ^ 31" using line [OF l] p(2) by simp
      then obtain st' ass' where "log_put env log_id pre line st = Some st'" "logs_inv st' ass'"
        using log_put_ok [OF inv True env] by metis
      then show ?thesis using L_write inv l p by (auto simp: log_write_def)
    qed (use L_write inv in \<open>auto simp: log_write_def\<close>)
  next
    case (L_write_direct log_id fmt ap)
    obtain line where l: "log_vsnprintf (ptr_text env) LOG_MAXLINELEN fmt ap = Some line" using safe L_write_direct by auto
    show ?thesis
    proof (cases "good_id log_id")
      case True
      have "length '''' + length line + 2 < 2 ^ 31" using line [OF l] by simp
      then obtain st' ass' where "log_put env log_id '''' line st = Some st'" "logs_inv st' ass'"
        using log_put_ok [OF inv True env] by metis
      then show ?thesis using L_write_direct inv l by (auto simp: log_write_direct_def)
    qed (use L_write_direct inv in \<open>auto simp: log_write_direct_def\<close>)
  qed
qed

lemma log_reach_inv: "log_reach st \<Longrightarrow> log_inv st"
proof (induction rule: log_reach.induct)
  case start
  show ?case using logs_inv_start by (auto simp: log_inv_def)
next
  case (step st env op st')
  then show ?case using log_step_ok unfolding log_inv_def by (metis option.inject)
qed

section \<open>Reading the lines back\<close>

lemma contents_loop_chain:
  "chain h p as \<Longrightarrow> int (length (concat (chain_lines h as))) < remain \<Longrightarrow>
    contents_loop p h out remain = Some (out @ concat (chain_lines h as))"
proof (induction as arbitrary: p out remain)
  case Nil
  then show ?case by (simp add: contents_loop.simps [of 0] chain_lines_def)
next
  case (Cons a as)
  then obtain e where e: "p = a" "a \<noteq> NULL" "h a = Some e" "chain h (enext e) as" by (auto split: option.splits)
  have "contents_loop (enext e) h (out @ eline e) (remain - int (length (eline e))) = Some ((out @ eline e) @ concat (chain_lines h as))"
    using Cons.prems e by (intro Cons.IH) (auto simp: chain_lines_def)
  then show ?case using Cons.prems e by (simp add: contents_loop.simps [of a] chain_lines_def)
qed

lemma array_loop_chain:
  "chain h p as \<Longrightarrow> \<forall>a\<in>set as. entry_ok (the (h a)) \<Longrightarrow> length as \<le> room \<Longrightarrow>
    array_loop p h out room = Some (out @ map (\<lambda>a. cut_newline (the (h a))) as)"
proof (induction as arbitrary: p out room)
  case Nil
  then show ?case by (simp add: array_loop.simps [of 0])
next
  case (Cons a as)
  then obtain e where e: "p = a" "a \<noteq> NULL" "h a = Some e" "chain h (enext e) as" by (auto split: option.splits)
  have "array_loop (enext e) h (out @ [cut_newline e]) (room - 1) = Some ((out @ [cut_newline e]) @ map (\<lambda>a. cut_newline (the (h a))) as)"
    using Cons.prems e by (intro Cons.IH) auto
  moreover have "\<not> elen e < 2"
    using Cons.prems e by (auto simp: entry_ok_def word_less_nat_alt)
  ultimately show ?case using Cons.prems e by (simp add: array_loop.simps [of a])
qed

definition strip_newline :: "string \<Rightarrow> string" where
  "strip_newline s = (if s \<noteq> [] \<and> last s = LF then butlast s else s)"

lemma cut_newline_ok: "entry_ok e \<Longrightarrow> cut_newline e = strip_newline (eline e)"
  by (auto simp: cut_newline_def strip_newline_def entry_ok_def Let_def last_conv_nth butlast_conv_take)

lemma chain_total_lines:
  assumes "\<forall>a\<in>set as. entry_ok (the (h a))"
  shows "chain_total h as = of_nat (length (concat (chain_lines h as)) + length as)"
  using assms
proof (induction as)
  case (Cons a as)
  have "(ucast (elen (the (h a))) :: ulong) = of_nat (unat (elen (the (h a))))" by simp
  also have "\<dots> = of_nat (length (eline (the (h a))) + 1)" using Cons.prems by (simp only: entry_ok_def list.set_intros)
  finally have "(ucast (elen (the (h a))) :: ulong) = of_nat (length (eline (the (h a))) + 1)" .
  then show ?case using Cons by (simp add: chain_total_def chain_lines_def)
qed (simp add: chain_total_def chain_lines_def)

lemma sint_of_size: "m < 2 ^ 31 \<Longrightarrow> sint (of_nat m :: uint) = int m"
  using sint_small [of "of_nat m"] unat_size [of m] by simp

lemma log_contents_ok:
  assumes inv: "logs_inv st ass" and i: "good_id log_id"
    and small: "length (concat (recent st (nat log_id))) + length (recent st (nat log_id)) + 1 < 2 ^ 31"
  shows "log_contents log_id st = Some (Some (concat (recent st (nat log_id)),
      of_nat (length (concat (recent st (nat log_id))) + length (recent st (nat log_id)))))"
    "mem (8 * (length (recent st (nat log_id)) + 1)) \<Longrightarrow>
      log_contents_array mem log_id st = Some (Some (map strip_newline (recent st (nat log_id))))"
proof -
  let ?as = "ass ! nat log_id"
  let ?l = "log_at st log_id"
  have i': "nat log_id < LOG_MAXLOGS" using i by (simp add: good_id_nat)
  have r: "ring ?l (eheap st) ?as" and ls: "recent st (nat log_id) = chain_lines (eheap st) ?as"
    using logs_invD [OF inv i'] by (auto simp: log_at_def)
  have c: "chain (eheap st) (log_head ?l) ?as" "total ?l = chain_total (eheap st) ?as" "\<forall>a\<in>set ?as. entry_ok (the (eheap st a))"
    "unat (entries ?l) = length ?as" using r by (auto simp: ring_def ring0_def)
  have ll: "length (recent st (nat log_id)) = length ?as" by (simp add: ls chain_lines_def)
  define n where "n = length (concat (recent st (nat log_id))) + length (recent st (nat log_id))"
  have t: "total ?l = of_nat n" using chain_total_lines [OF c(3)] c(2) unfolding n_def ll unfolding ls by simp
  have n: "n + 1 < 2 ^ 31" using small by (simp add: n_def)
  have cut: "(ucast (of_nat m :: ulong) :: uint) = of_nat m" for m by transfer simp
  have "total ?l + 1 = of_nat (n + 1)" using t by simp
  then have "(ucast (total ?l + 1) :: uint) = of_nat (n + 1)" using cut by metis
  then have rem: "sint (ucast (total ?l + 1) :: uint) = int (n + 1)"
    using sint_of_size [OF n] by (simp only:)
  have "contents_loop (log_head ?l) (eheap st) [] (int (n + 1)) = Some ([] @ concat (chain_lines (eheap st) ?as))"
    by (rule contents_loop_chain [OF c(1)]) (simp add: n_def ls)
  moreover have "(ucast (total ?l) :: uint) = of_nat n" unfolding t by (rule cut)
  ultimately show "log_contents log_id st = Some (Some (concat (recent st (nat log_id)),
      of_nat (length (concat (recent st (nat log_id))) + length (recent st (nat log_id)))))"
    using i unfolding log_contents_def n_def [symmetric] by (simp add: rem ls Let_def)
  assume m: "mem (8 * (length (recent st (nat log_id)) + 1))"
  have "map (\<lambda>a. cut_newline (the (eheap st a))) ?as = map strip_newline (recent st (nat log_id))"
    unfolding ls chain_lines_def using c(3) by (auto simp: cut_newline_ok)
  then show "log_contents_array mem log_id st = Some (Some (map strip_newline (recent st (nat log_id))))"
    using i m array_loop_chain [OF c(1,3), of "length ?as" "[]"] c(4) by (simp add: log_contents_array_def ll)
qed

section \<open>The dangling tail\<close>

lemma log_open_keeps:
  assumes "log_open' env l = Some (ok, ev, l')"
  shows "log_tail l' = log_tail l \<and> keep_entries l' = keep_entries l"
  using assms by (auto simp: log_open'_def Let_def split: if_splits log_name.splits)

lemma log_put_dangling:
  assumes t: "log_tail (log_at st log_id) = Tail_next a" and h: "eheap st a = None" and k: "keep_entries (log_at st log_id) \<noteq> 0"
    and w: "can_write env (log_at st log_id)" and n: "new_entry env \<noteq> a"
  shows "log_put env log_id pre line st = None"
proof (cases "log_open' env (log_at st log_id)")
  case None
  then show ?thesis by (simp add: log_put_def)
next
  case (Some r)
  obtain ok ev l where r: "r = (ok, ev, l)" by (cases r)
  have ok: "ok" using Some w unfolding r
    by (auto simp: log_open'_def can_write_def needs_open_def Let_def split: if_splits log_name.splits)
  have l: "log_tail l = Tail_next a" "keep_entries l \<noteq> 0" using log_open_keeps [OF Some [unfolded r]] t k by auto
  have "create_log_entry env pre line l (eheap st) = None"
    using l h n by (simp add: create_log_entry_def Let_def store_tail_def bind_eq_None_conv)
  then show ?thesis using Some ok r by (simp add: log_put_def)
qed

lemma lines_kept_dangling:
  assumes inv: "logs_inv st ass" and i: "good_id log_id" and u: "in_use (log_at st log_id)" and e: "entries (log_at st log_id) \<noteq> 0"
    and c: "count \<noteq> 0"
  obtains st1 st2 a where "log_set_lines_kept log_id 0 st = Some st1" "log_set_lines_kept log_id count st1 = Some st2"
    "log_tail (log_at st2 log_id) = Tail_next a" "log_tail (log_at st log_id) = Tail_next a" "eheap st2 a = None"
    "keep_entries (log_at st2 log_id) \<noteq> 0"
proof -
  let ?i = "nat log_id"
  let ?as = "ass ! ?i"
  let ?l = "(log_at st log_id)\<lparr>keep_entries := 0\<rparr>"
  have i': "?i < LOG_MAXLOGS" using i by (simp add: good_id_nat)
  have len: "?i < length (loglist st)" using i' inv by (simp add: logs_inv_def)
  have ok: "log_ok (log_at st log_id) (eheap st) ?as" using logs_invD(1) [OF inv i'] by (simp add: log_at_def)
  have r: "ring0 ?l (eheap st) ?as" "unat (entries ?l) = length ?as" using ok by (auto simp: log_ok_def ring_def ring0_def)
  then have ne: "?as \<noteq> []" using e by (auto simp: unat_eq_zero)
  then have t: "log_tail (log_at st log_id) = Tail_next (last ?as)" using ok u by (simp add: log_ok_def tail_ok_def)
  obtain l' h' where d: "drop_entries 0 ?l (eheap st) = Some (l', h')"
    "ring (l'\<lparr>keep_entries := 0\<rparr>) h' (lastn (unat (0 :: uint)) ?as)"
    "l' = ?l\<lparr>log_head := log_head l', total := total l', entries := entries l'\<rparr>"
    "\<And>x. x \<notin> set ?as \<Longrightarrow> h' x = eheap st x" "\<And>x. x \<in> set ?as \<Longrightarrow> h' x \<noteq> None \<longleftrightarrow> x \<in> set (lastn (unat (0 :: uint)) ?as)"
    "chain_lines h' (lastn (unat (0 :: uint)) ?as) = lastn (unat (0 :: uint)) (chain_lines (eheap st) ?as)"
    using drop_lines_ok [OF r, of 0] by blast
  have f: "in_use l'" "log_tail l' = Tail_next (last ?as)" using u t by (subst d(3); simp)+
  have z: "entries l' = 0" using d(2) by (simp add: ring_def unat_eq_zero)
  have gone: "h' (last ?as) = None" using d(5) [of "last ?as"] ne by auto
  let ?st1 = "set_log_heap log_id l' h' [] st"
  have at1: "log_at ?st1 log_id = l'" "eheap ?st1 = h'" using len by (simp_all add: set_log_heap_def log_at_def)
  have k1: "log_set_lines_kept log_id 0 st = Some ?st1" using i u d(1) by (simp add: log_set_lines_kept_def)
  let ?l2 = "l'\<lparr>keep_entries := count\<rparr>"
  let ?st2 = "set_log_heap log_id ?l2 h' [] ?st1"
  have "drop_entries count ?l2 h' = Some (?l2, h')" using z by (simp add: drop_entries.simps [of count])
  then have k2: "log_set_lines_kept log_id count ?st1 = Some ?st2" using i f by (simp add: log_set_lines_kept_def at1)
  have at2: "log_at ?st2 log_id = ?l2" "eheap ?st2 = h'" using len by (simp_all add: set_log_heap_def log_at_def)
  show ?thesis using that [OF k1 k2 _ t] at2 f gone c by simp
qed

text \<open>A log whose name is taken away after \<open>log_reopen\<close> has no stream to write to.\<close>

lemma log_put_no_stream:
  assumes "in_use (log_at st log_id)" "logfile (log_at st log_id) = None" "filename (log_at st log_id) = F_null"
  shows "log_put env log_id pre line st = None"
  using assms by (simp add: log_put_def log_open'_def create_log_entry_def Let_def)

section \<open>Properties\<close>

text \<open>A state with one log that keeps two lines, for the witnesses.\<close>

definition demo_log :: log_t where
  "demo_log = \<lparr>in_use = True, level = 3, filename = F_null, logfile = Some 5, fsize = 0, trigger_level = 0, archive_timestamp = 0,
     total = 6, entries = 2, keep_entries = 2, log_head = 1, log_tail = Tail_next 2\<rparr>"

definition demo_state :: log_state where
  "demo_state = \<lparr>initialized = True, loglist = demo_log # replicate 24 (log_reset log_zero),
     eheap = [1 \<mapsto> \<lparr>eline = [CHR ''a'', LF], elen = 3, enext = 2\<rparr>, 2 \<mapsto> \<lparr>eline = [CHR ''b'', LF], elen = 3, enext = NULL\<rparr>], io = []\<rparr>"

definition demo_env :: log_env where
  "demo_env = \<lparr>fopen_res = None, stat_res = None, fprintf_res = (\<lambda>s. int (length s)), timestamp = [], datetime = ''now'',
     new_entry = 9, ptr_text = (\<lambda>_. [])\<rparr>"

lemma demo_inv: "logs_inv demo_state ([1, 2] # replicate 24 [])"
proof -
  have z: "log_ok (log_reset log_zero) h []" for h
    by (simp add: log_reset_def log_zero_def log_ok_def ring_def ring0_def chain_total_def)
  have d: "log_ok demo_log (eheap demo_state) [1, 2]"
    by (simp add: demo_log_def demo_state_def log_ok_def ring_def ring0_def tail_ok_def chain_total_def entry_ok_def)
  have "log_ok (loglist demo_state ! i) (eheap demo_state) (([1, 2] # replicate 24 []) ! i)" if "i < 25" for i
    using that z d by (cases i) (auto simp: demo_state_def)
  moreover have "set (([1, 2] # replicate 24 []) ! i) = (if i = 0 then {1, 2 :: nat} else {})" if "i < 25" for i
    using that by (cases i) auto
  ultimately show ?thesis
    by (auto simp: logs_inv_def LOG_MAXLOGS_def demo_state_def split: if_splits)
qed

lemma demo_facts: "log_inv demo_state" "env_ok demo_env demo_state" "good_id 0" "log_at demo_state 0 = demo_log"
  "recent demo_state 0 = [[CHR ''a'', LF], [CHR ''b'', LF]]" "log_vsnprintf (ptr_text demo_env) LOG_MAXLINELEN ''x'' [] = Some ''x''"
proof -
  show "log_inv demo_state" using demo_inv by (auto simp: log_inv_def)
  show "recent demo_state 0 = [[CHR ''a'', LF], [CHR ''b'', LF]]"
    using logs_invD(3) [OF demo_inv, of 0] by (simp add: chain_lines_def demo_state_def LOG_MAXLOGS_def)
qed (simp_all add: env_ok_def demo_env_def demo_state_def good_id_def LOG_MAXLOGS_def log_at_def log_vsnprintf_def LOG_MAXLINELEN_def)

text \<open>C6: In every state that the library reaches from its initialisation through calls that observe the four rules of
  \<open>safe_op\<close>, the table of logs is well formed - lists of entries without cycles, sharing or leaks, with right counts, lengths
  and tails, never longer than what is to be kept - and every further such call is defined: it dereferences no NULL or
  freed entry, writes through no NULL stream, frees nothing twice and terminates.\<close>

theorem log_reach_safe:
  assumes "log_reach st"
  shows "log_inv st \<and> (\<forall>env op. env_ok env st \<and> safe_op env op st \<longrightarrow> (\<exists>st'. log_step env op st = Some st' \<and> log_reach st'))"
proof -
  have inv: "log_inv st" using assms by (rule log_reach_inv)
  then obtain ass where "logs_inv st ass" by (auto simp: log_inv_def)
  then show ?thesis using inv log_step_ok log_reach.step [OF assms] by metis
qed

theorem log_reach_safe_witness:
  "\<exists>st. log_step demo_env (L_open (Some ''a.log'')) (log_initialize log_static) = Some st \<and> log_inv st"
proof -
  have "env_ok demo_env (log_initialize log_static)" by (simp add: env_ok_def demo_env_def log_initialize_def log_static_def)
  then obtain st where s: "log_step demo_env (L_open (Some ''a.log'')) (log_initialize log_static) = Some st" "log_reach st"
    using log_reach_safe [OF log_reach.start] safe_op.simps(6) by blast
  with log_reach_safe [OF s(2)] show ?thesis by blast
qed

text \<open>C8: \<open>log_write\<close> implements an abstract log: a message whose level is enabled and whose log can be opened is written once, as
  one line with its prefix, to the stream that the log has afterwards, behind the calls that open or rotate the file, and is
  appended to the recent lines of its log, of which the last ones are kept; every other message changes no lines, and no
  other log is touched.\<close>

theorem log_write_recent:
  assumes "log_inv st" "env_ok env st" "good_id log_id" "log_vsnprintf (ptr_text env) LOG_MAXLINELEN fmt ap = Some line"
    "log_prefix env priority cat func = Some pre"
  shows "\<exists>st'. log_write env log_id priority cat func fmt ap st = Some st' \<and> log_inv st' \<and>
    (let l = log_at st log_id; wanted = (priority \<le> level l \<and> 1 \<le> priority \<and> priority \<le> 4); text = pre @ line @ [LF]
     in (\<forall>j<LOG_MAXLOGS. recent st' j =
           (if wanted \<and> can_write env l \<and> j = nat log_id then lastn (unat (keep_entries l)) (recent st j @ [text]) else recent st j)) \<and>
        io st' = io st @ (if wanted then open_events env l @
           (if can_write env l then [Io_write (the (logfile (log_at st' log_id))) text] else []) else []))"
proof -
  define wanted where "wanted = (priority \<le> level (log_at st log_id) \<and> 1 \<le> priority \<and> priority \<le> 4)"
  obtain ass where inv: "logs_inv st ass" using assms(1) by (auto simp: log_inv_def)
  have pre: "length pre \<le> 255" using log_prefix_length [OF assms(2), of priority cat func] assms(5) by auto
  have w: "level (log_at st log_id) < priority \<or> priority = 0 \<or> of_nat (length prior) < priority \<longleftrightarrow> \<not> wanted"
    by (auto simp: wanted_def prior_def not_le word_less_1 simp flip: not_less)
  show ?thesis
  proof (cases wanted)
    case False
    then have "log_write env log_id priority cat func fmt ap st = Some st" using w assms(3) by (auto simp: log_write_def)
    then show ?thesis using False assms(1) unfolding wanted_def [symmetric] Let_def by simp
  next
    case True
    have "length pre + length line + 2 < 2 ^ 31" using pre log_vsnprintf_length [OF assms(4)] by (simp add: LOG_MAXLINELEN_def)
    from log_put_ok [OF inv assms(3,2) this] obtain st' ass' where p: "log_put env log_id pre line st = Some st'" "logs_inv st' ass'"
      "recent st' (nat log_id) = (if can_write env (log_at st log_id)
         then lastn (unat (keep_entries (log_at st log_id))) (recent st (nat log_id) @ [pre @ line @ [LF]]) else recent st (nat log_id))"
      "\<And>j. j < LOG_MAXLOGS \<Longrightarrow> j \<noteq> nat log_id \<Longrightarrow> recent st' j = recent st j"
      "io st' = io st @ open_events env (log_at st log_id) @
         (if can_write env (log_at st log_id) then [Io_write (the (logfile (log_at st' log_id))) (pre @ line @ [LF])] else [])" by metis
    have "log_write env log_id priority cat func fmt ap st = Some st'"
      using True w assms p(1) by (auto simp: log_write_def)
    moreover have "log_inv st'" using p(2) by (auto simp: log_inv_def)
    moreover have "recent st' j = (if can_write env (log_at st log_id) \<and> j = nat log_id
        then lastn (unat (keep_entries (log_at st log_id))) (recent st j @ [pre @ line @ [LF]]) else recent st j)"
      if "j < LOG_MAXLOGS" for j using that p(3,4) by (cases "j = nat log_id") auto
    ultimately show ?thesis using True p(5) unfolding wanted_def [symmetric] Let_def by auto
  qed
qed

theorem log_write_recent_witness:
  "\<exists>st'. log_write demo_env 0 2 ''m/'' ''f'' ''x'' [] demo_state = Some st' \<and>
    recent st' 0 = [[CHR ''b'', LF], ''now WARN m/f x'' @ [LF]]"
proof -
  have p: "log_prefix demo_env 2 ''m/'' ''f'' = Some ''now WARN m/f ''"
    by (simp add: log_prefix_def demo_env_def prior_def)
  have w: "can_write demo_env demo_log" by (simp add: can_write_def needs_open_def demo_log_def)
  from log_write_recent [OF demo_facts(1-3,6) p] obtain st' where
    "log_write demo_env 0 2 ''m/'' ''f'' ''x'' [] demo_state = Some st'"
    "\<forall>j<LOG_MAXLOGS. recent st' j = (if (2 \<le> level demo_log \<and> 1 \<le> (2::uint) \<and> (2::uint) \<le> 4) \<and> can_write demo_env demo_log \<and> j = nat 0
       then lastn (unat (keep_entries demo_log)) (recent demo_state j @ [''now WARN m/f '' @ ''x'' @ [LF]]) else recent demo_state j)"
    unfolding demo_facts(4) Let_def by blast
  then show ?thesis using w demo_facts(5) by (intro exI [of _ st']) (simp add: LOG_MAXLOGS_def demo_log_def lastn_def)
qed

text \<open>\<open>log_contents\<close> yields the recent lines of a log, oldest first, in a buffer that is large enough (for less than 2 GiB), but
  reports as their length one byte more per line than it has stored; \<open>log_contents_array\<close> yields the lines one by one
  without their line feeds.\<close>

theorem log_contents_correct:
  assumes "log_inv st" "good_id log_id"
    "length (concat (recent st (nat log_id))) + length (recent st (nat log_id)) + 1 < 2 ^ 31"
    "mem (8 * (length (recent st (nat log_id)) + 1))"
  shows "log_contents log_id st = Some (Some (concat (recent st (nat log_id)),
      of_nat (length (concat (recent st (nat log_id))) + length (recent st (nat log_id))))) \<and>
    log_contents_array mem log_id st = Some (Some (map strip_newline (recent st (nat log_id))))"
  using assms log_contents_ok unfolding log_inv_def by metis

theorem log_contents_correct_witness:
  "log_contents 0 demo_state = Some (Some ([CHR ''a'', LF, CHR ''b'', LF], 6)) \<and>
   log_contents_array (\<lambda>_. True) 0 demo_state = Some (Some [''a'', ''b''])"
  using log_contents_correct [OF demo_facts(1,3), where mem = "\<lambda>_. True"] by (simp add: demo_facts(5) strip_newline_def)

text \<open>\<open>log_set_lines_kept\<close> with a positive number leaves the last lines up to that number, \<open>log_close\<close> leaves none; both keep the
  table well formed and leave the other logs alone.\<close>

theorem log_lines_kept_correct:
  assumes "log_inv st" "good_id log_id" "in_use (log_at st log_id)" "count \<noteq> 0"
  shows "(\<exists>st'. log_set_lines_kept log_id count st = Some st' \<and> log_inv st' \<and>
      (\<forall>j<LOG_MAXLOGS. recent st' j = (if j = nat log_id then lastn (unat count) (recent st j) else recent st j))) \<and>
    (\<exists>st'. log_close log_id st = Some st' \<and> log_inv st' \<and> \<not> in_use (log_at st' log_id) \<and>
      (\<forall>j<LOG_MAXLOGS. recent st' j = (if j = nat log_id then [] else recent st j)))"
proof -
  obtain ass where inv: "logs_inv st ass" using assms(1) by (auto simp: log_inv_def)
  show ?thesis
  proof
    from log_set_lines_kept_ok [OF inv assms(2,3)] assms(4) obtain st' ass' where
      "log_set_lines_kept log_id count st = Some st'" "logs_inv st' ass'"
      "recent st' (nat log_id) = lastn (unat count) (recent st (nat log_id))"
      "\<And>j. j < LOG_MAXLOGS \<Longrightarrow> j \<noteq> nat log_id \<Longrightarrow> recent st' j = recent st j" by metis
    then show "\<exists>st'. log_set_lines_kept log_id count st = Some st' \<and> log_inv st' \<and>
      (\<forall>j<LOG_MAXLOGS. recent st' j = (if j = nat log_id then lastn (unat count) (recent st j) else recent st j))"
      unfolding log_inv_def by (intro exI [of _ st']) auto
    from log_close_ok [OF inv assms(2,3)] obtain st2 ass2 where
      "log_close log_id st = Some st2" "logs_inv st2 ass2" "recent st2 (nat log_id) = []"
      "\<And>j. j < LOG_MAXLOGS \<Longrightarrow> j \<noteq> nat log_id \<Longrightarrow> recent st2 j = recent st j" "\<not> in_use (log_at st2 log_id)" by metis
    then show "\<exists>st'. log_close log_id st = Some st' \<and> log_inv st' \<and> \<not> in_use (log_at st' log_id) \<and>
      (\<forall>j<LOG_MAXLOGS. recent st' j = (if j = nat log_id then [] else recent st j))"
      unfolding log_inv_def by (intro exI [of _ st2]) auto
  qed
qed

theorem log_lines_kept_correct_witness:
  "\<exists>st'. log_set_lines_kept 0 1 demo_state = Some st' \<and> recent st' 0 = [[CHR ''b'', LF]]"
proof -
  have "in_use (log_at demo_state 0)" by (simp add: demo_facts demo_log_def)
  from log_lines_kept_correct [OF demo_facts(1,3) this, of 1] obtain st' where
    "log_set_lines_kept 0 1 demo_state = Some st'"
    "\<forall>j<LOG_MAXLOGS. recent st' j = (if j = nat 0 then lastn (unat (1 :: uint)) (recent demo_state j) else recent demo_state j)" by auto
  then show ?thesis using demo_facts(5) by (intro exI [of _ st']) (simp add: LOG_MAXLOGS_def lastn_def)
qed

text \<open>Telling a log that has lines to keep none, and later to keep some again, makes the next line that is written store
  through a pointer into an entry that has been freed: the first call does not reset the tail of the list.\<close>

theorem log_lines_kept_dangling:
  assumes "log_inv st" "good_id log_id" "in_use (log_at st log_id)" "entries (log_at st log_id) \<noteq> 0" "count \<noteq> 0"
  shows "\<exists>st1 st2. log_set_lines_kept log_id 0 st = Some st1 \<and> log_set_lines_kept log_id count st1 = Some st2 \<and>
    (\<forall>env fmt ap. can_write env (log_at st2 log_id) \<and> log_tail (log_at st log_id) \<noteq> Tail_next (new_entry env) \<longrightarrow>
      log_write_direct env log_id fmt ap st2 = None)"
proof -
  obtain ass where inv: "logs_inv st ass" using assms(1) by (auto simp: log_inv_def)
  from lines_kept_dangling [OF inv assms(2-5)] obtain st1 st2 a where
    d: "log_set_lines_kept log_id 0 st = Some st1" "log_set_lines_kept log_id count st1 = Some st2"
    "log_tail (log_at st2 log_id) = Tail_next a" "log_tail (log_at st log_id) = Tail_next a" "eheap st2 a = None"
    "keep_entries (log_at st2 log_id) \<noteq> 0" .
  have "log_write_direct env log_id fmt ap st2 = None"
    if "can_write env (log_at st2 log_id)" "log_tail (log_at st log_id) \<noteq> Tail_next (new_entry env)" for env fmt ap
  proof -
    have "new_entry env \<noteq> a" using that(2) d(4) by auto
    then have "log_put env log_id pre line st2 = None" for pre line by (rule log_put_dangling [OF d(3,5,6) that(1)])
    then show ?thesis using assms(2) by (simp add: log_write_direct_def bind_eq_None_conv)
  qed
  then show ?thesis using d(1,2) by blast
qed

theorem log_lines_kept_dangling_witness:
  "\<exists>st1 st2. log_set_lines_kept 0 0 demo_state = Some st1 \<and> log_set_lines_kept 0 1 st1 = Some st2 \<and>
    (\<forall>fmt ap. can_write demo_env (log_at st2 0) \<longrightarrow> log_write_direct demo_env 0 fmt ap st2 = None)"
proof -
  have "in_use (log_at demo_state 0)" "entries (log_at demo_state 0) \<noteq> 0"
    "log_tail (log_at demo_state 0) \<noteq> Tail_next (new_entry demo_env)" by (simp_all add: demo_facts demo_log_def demo_env_def)
  with log_lines_kept_dangling [OF demo_facts(1,3) this(1,2), of 1] show ?thesis by auto
qed

end
