(* ===== verification/Log_Threads_Defs.thy ===== *)
theory Log_Threads_Defs
  imports Log
begin

text \<open>
  Threads that share the logs of \<^verbatim>\<open>src/log/log.c\<close>: every call is cut where the code takes and releases its mutex.

  A call is up to five steps of its thread: what it does before \<open>_lock_logger\<close>, taking the mutex, the part under the mutex, giving
  it back, and what it does afterwards without it. The parts that read or write the table without the mutex - the tests in front
  of the lock, the assignments of \<open>log_set_level\<close> and \<open>log_set_trigger\<close>, the fields of a new log, the last \<open>fflush\<close> of
  \<open>log_write_direct\<close> - are steps of their own, so the steps of other threads come between them. A part under the mutex is one step. \<open>None\<close> as a result is undefined behaviour.
\<close>

section \<open>Where a thread is\<close>

text \<open>The parts under the mutex. The first one is \<open>_get_log_id\<close>, called for a stream and, by \<open>log_open\<close>, a name.\<close>

datatype log_section =
    S_get_id stream "string option"
  | S_filename int "string option"
  | S_archive int int
  | S_lines_kept int uint
  | S_flush int
  | S_reopen int
  | S_close int
  | S_write int string string
  | S_direct int string "va list"

text \<open>In the client's code, where the last call has returned a number (0 stands for nothing); at \<open>_lock_logger\<close>; behind it; at
  \<open>_unlock_logger\<close>, with what comes then; about to set the fields of a new log, first in \<open>log_open_file\<close>, then in \<open>log_open\<close>; about to
  set the level or the trigger; and reading and using the stream for the last \<open>fflush\<close> of \<open>log_write_direct\<close>.\<close>

datatype log_pc =
    Outside int
  | Locking log_section
  | Holding log_section
  | Unlocking log_pc
  | Filling int stream "string option"
  | Naming int string
  | Levelling int uint
  | Triggering int uint
  | Fetching int
  | Flushing int "stream option"

record log_sys =
  base :: log_state
  mutex :: "nat option"
  pcs :: "nat \<Rightarrow> log_pc"

section \<open>In front of the mutex\<close>

definition open_file_start :: "stream option \<Rightarrow> log_pc" where
  "open_file_start f = (case f of None \<Rightarrow> Outside LOG_EINSANE | Some g \<Rightarrow> Locking (S_get_id g None))"

definition open_start :: "log_env \<Rightarrow> string option \<Rightarrow> log_state \<Rightarrow> log_pc \<times> log_state" where
  "open_start env name st =
     (case name of None \<Rightarrow> (Outside LOG_EINSANE, st)
      | Some n \<Rightarrow>
         if n = '''' then (Outside LOG_EINSANE, st)
         else (case fopen_res env of None \<Rightarrow> Outside LOG_EINSANE | Some g \<Rightarrow> Locking (S_get_id g (Some n)),
               st\<lparr>io := io st @ [Io_open n (fopen_res env)]\<rparr>))"

definition set_filename_start :: "int \<Rightarrow> string option \<Rightarrow> log_state \<Rightarrow> log_pc" where
  "set_filename_start log_id name st =
     (if \<not> good_id log_id then Outside LOG_EINSANE
      else if name = Some '''' \<or> \<not> in_use (log_at st log_id) then Outside LOG_EINSANE
      else Locking (S_filename log_id name))"

definition set_archive_start :: "int \<Rightarrow> int \<Rightarrow> log_pc" where
  "set_archive_start log_id v = (if \<not> good_id log_id then Outside LOG_EINSANE else Locking (S_archive log_id v))"

definition lines_kept_start :: "int \<Rightarrow> uint \<Rightarrow> log_state \<Rightarrow> log_pc" where
  "lines_kept_start log_id count st =
     (if \<not> good_id log_id then Outside 0
      else if \<not> in_use (log_at st log_id) then Outside 0
      else Locking (S_lines_kept log_id count))"

definition flush_start :: "int \<Rightarrow> log_state \<Rightarrow> log_pc" where
  "flush_start log_id st =
     (if \<not> good_id log_id then Outside 0
      else if \<not> in_use (log_at st log_id) then Outside 0
      else Locking (S_flush log_id))"

definition reopen_start :: "int \<Rightarrow> log_state \<Rightarrow> log_pc" where
  "reopen_start log_id st =
     (if \<not> good_id log_id then Outside 0
      else if filename (log_at st log_id) \<noteq> F_null \<and> logfile (log_at st log_id) \<noteq> None then Locking (S_reopen log_id)
      else Outside 0)"

definition close_start :: "int \<Rightarrow> log_pc" where
  "close_start log_id = (if \<not> good_id log_id then Outside 0 else Locking (S_close log_id))"

definition write_start :: "log_env \<Rightarrow> int \<Rightarrow> uint \<Rightarrow> string \<Rightarrow> string \<Rightarrow> string \<Rightarrow> va list \<Rightarrow> log_state \<Rightarrow> log_pc option" where
  "write_start env log_id priority cat func fmt ap st =
     (if \<not> good_id log_id then Some (Outside 0)
      else if level (log_at st log_id) < priority then Some (Outside 0)
      else if priority = 0 \<or> priority > of_nat (length prior) then Some (Outside 0)
      else do {
        line \<leftarrow> log_vsnprintf (ptr_text env) LOG_MAXLINELEN fmt ap;
        pre \<leftarrow> log_prefix env priority cat func;
        Some (Locking (S_write log_id pre line)) })"

definition write_direct_start :: "int \<Rightarrow> string \<Rightarrow> va list \<Rightarrow> log_pc" where
  "write_direct_start log_id fmt ap = (if \<not> good_id log_id then Outside 0 else Locking (S_direct log_id fmt ap))"

text \<open>\<open>log_set_trigger\<close> and \<open>log_set_level\<close> never take the mutex.\<close>

definition set_trigger_start :: "int \<Rightarrow> uint \<Rightarrow> log_state \<Rightarrow> log_pc" where
  "set_trigger_start log_id trigger st =
     (if good_id log_id \<and> in_use (log_at st log_id) then Triggering log_id trigger else Outside 0)"

definition set_level_start :: "int \<Rightarrow> uint \<Rightarrow> log_state \<Rightarrow> log_pc" where
  "set_level_start log_id lev st =
     (if \<not> good_id log_id then Outside 0
      else if \<not> in_use (log_at st log_id) then Outside 0
      else Levelling log_id lev)"

text \<open>The first step of a call.\<close>

fun log_start :: "log_env \<Rightarrow> log_op \<Rightarrow> log_state \<Rightarrow> (log_pc \<times> log_state) option" where
  "log_start env (L_open name) st = Some (open_start env name st)"
| "log_start env (L_open_file f) st = Some (open_file_start f, st)"
| "log_start env (L_trigger log_id trigger) st = Some (set_trigger_start log_id trigger st, st)"
| "log_start env (L_filename log_id name) st = Some (set_filename_start log_id name st, st)"
| "log_start env (L_archive log_id v) st = Some (set_archive_start log_id v, st)"
| "log_start env (L_lines_kept log_id count) st = Some (lines_kept_start log_id count st, st)"
| "log_start env (L_level log_id lev) st = Some (set_level_start log_id lev st, st)"
| "log_start env (L_flush log_id) st = Some (flush_start log_id st, st)"
| "log_start env (L_reopen log_id) st = Some (reopen_start log_id st, st)"
| "log_start env (L_close log_id) st = Some (close_start log_id, st)"
| "log_start env (L_write log_id priority cat func fmt ap) st =
     map_option (\<lambda>c. (c, st)) (write_start env log_id priority cat func fmt ap st)"
| "log_start env (L_write_direct log_id fmt ap) st = Some (write_direct_start log_id fmt ap, st)"

section \<open>Under the mutex\<close>

text \<open>The part of each function between \<open>_lock_logger\<close> and \<open>_unlock_logger\<close>; that of \<open>log_write\<close> is \<open>log_put\<close>.\<close>

definition set_filename_body :: "int \<Rightarrow> string option \<Rightarrow> log_state \<Rightarrow> log_state option" where
  "set_filename_body log_id name st =
     (if filename (log_at st log_id) = F_freed then None
      else Some (set_log log_id ((log_at st log_id)\<lparr>filename := (case name of None \<Rightarrow> F_null | Some n \<Rightarrow> F_str n)\<rparr>) st))"

definition set_archive_body :: "int \<Rightarrow> int \<Rightarrow> log_state \<Rightarrow> log_state" where
  "set_archive_body log_id v st = set_log log_id ((log_at st log_id)\<lparr>archive_timestamp := v\<rparr>) st"

definition lines_kept_body :: "int \<Rightarrow> uint \<Rightarrow> log_state \<Rightarrow> log_state option" where
  "lines_kept_body log_id count st = do {
     (l, h) \<leftarrow> drop_entries count ((log_at st log_id)\<lparr>keep_entries := count\<rparr>) (eheap st);
     Some (set_log_heap log_id l h [] st) }"

definition flush_body :: "int \<Rightarrow> log_state \<Rightarrow> log_state" where
  "flush_body log_id st =
     (if logfile (log_at st log_id) \<noteq> None then st\<lparr>io := io st @ [Io_flush (logfile (log_at st log_id))]\<rparr> else st)"

text \<open>The stream is not tested again: \<open>fclose (NULL)\<close> is undefined.\<close>

definition reopen_body :: "int \<Rightarrow> log_state \<Rightarrow> log_state option" where
  "reopen_body log_id st = do {
     f \<leftarrow> logfile (log_at st log_id);
     Some (set_log_heap log_id ((log_at st log_id)\<lparr>logfile := None\<rparr>) (eheap st) [Io_close f] st) }"

definition close_body :: "int \<Rightarrow> log_state \<Rightarrow> log_state option" where
  "close_body log_id st =
     (if \<not> in_use (log_at st log_id) then Some st
      else do {
        let l = (log_at st log_id)\<lparr>in_use := False, level := 2\<rparr>;
        l \<leftarrow> (case filename l of F_null \<Rightarrow> Some l | F_str n \<Rightarrow> Some (l\<lparr>filename := F_freed\<rparr>) | F_freed \<Rightarrow> None);
        let ev = (case logfile l of None \<Rightarrow> [] | Some f \<Rightarrow> [Io_close f]);
        let l = l\<lparr>logfile := None\<rparr>;
        (l, h) \<leftarrow> drop_entries 0 l (eheap st);
        Some (set_log_heap log_id l h ev st) })"

definition write_direct_body :: "log_env \<Rightarrow> int \<Rightarrow> string \<Rightarrow> va list \<Rightarrow> log_state \<Rightarrow> log_state option" where
  "write_direct_body env log_id fmt ap st = do {
     line \<leftarrow> log_vsnprintf (ptr_text env) LOG_MAXLINELEN fmt ap;
     log_put env log_id '''' line st }"

text \<open>The state after the part, and where the thread goes when it has given back the mutex.\<close>

fun log_body :: "log_env \<Rightarrow> log_section \<Rightarrow> log_state \<Rightarrow> (log_pc \<times> log_state) option" where
  "log_body env (S_get_id f name) st =
     (let (log_id, st) = get_log_id st in Some (if log_id < 0 then Outside LOG_ENOMORELOGS else Filling log_id f name, st))"
| "log_body env (S_filename log_id name) st = map_option (Pair (Outside log_id)) (set_filename_body log_id name st)"
| "log_body env (S_archive log_id v) st = Some (Outside log_id, set_archive_body log_id v st)"
| "log_body env (S_lines_kept log_id count) st = map_option (Pair (Outside 0)) (lines_kept_body log_id count st)"
| "log_body env (S_flush log_id) st = Some (Outside 0, flush_body log_id st)"
| "log_body env (S_reopen log_id) st = map_option (Pair (Outside 0)) (reopen_body log_id st)"
| "log_body env (S_close log_id) st = map_option (Pair (Outside 0)) (close_body log_id st)"
| "log_body env (S_write log_id pre line) st = map_option (Pair (Outside 0)) (log_put env log_id pre line st)"
| "log_body env (S_direct log_id fmt ap) st = map_option (Pair (Fetching log_id)) (write_direct_body env log_id fmt ap st)"

section \<open>Without the mutex\<close>

text \<open>The assignments of \<open>log_set_trigger\<close> and \<open>log_set_level\<close>.\<close>

definition trigger_assign :: "int \<Rightarrow> uint \<Rightarrow> log_state \<Rightarrow> log_state" where
  "trigger_assign log_id trigger st = set_log log_id ((log_at st log_id)\<lparr>trigger_level := int (unat (trigger * 1024))\<rparr>) st"

definition level_assign :: "int \<Rightarrow> uint \<Rightarrow> log_state \<Rightarrow> log_state" where
  "level_assign log_id lev st = set_log log_id ((log_at st log_id)\<lparr>level := lev\<rparr>) st"

text \<open>The assignments of \<open>log_open_file\<close> and those of \<open>log_open\<close> to the fields of a new log.\<close>

definition open_file_fill :: "int \<Rightarrow> stream \<Rightarrow> log_state \<Rightarrow> log_state" where
  "open_file_fill log_id f st = set_log log_id ((log_at st log_id)\<lparr>logfile := Some f, filename := F_null, fsize := 0\<rparr>) st"

definition open_fill :: "log_env \<Rightarrow> int \<Rightarrow> string \<Rightarrow> log_state \<Rightarrow> log_state" where
  "open_fill env log_id n st =
     set_log log_id ((log_at st log_id)\<lparr>filename := F_str n,
       fsize := (case stat_res env of Some sz \<Rightarrow> sz | None \<Rightarrow> fsize (log_at st log_id)),
       entries := 0, log_head := NULL, log_tail := Tail_head\<rparr>) st"

definition direct_fetch :: "int \<Rightarrow> log_state \<Rightarrow> log_pc" where
  "direct_fetch log_id st = Flushing log_id (logfile (log_at st log_id))"

definition direct_flush :: "stream option \<Rightarrow> log_state \<Rightarrow> log_state" where
  "direct_flush f st = st\<lparr>io := io st @ [Io_flush f]\<rparr>"

section \<open>The system\<close>

definition lock_logger :: "nat \<Rightarrow> log_sys \<Rightarrow> log_sys" where
  "lock_logger t sys = sys\<lparr>mutex := Some t\<rparr>"

definition unlock_logger :: "log_sys \<Rightarrow> log_sys" where
  "unlock_logger sys = sys\<lparr>mutex := None\<rparr>"

definition at_log_pc :: "nat \<Rightarrow> log_pc \<Rightarrow> log_sys \<Rightarrow> log_sys" where
  "at_log_pc t c sys = sys\<lparr>pcs := (pcs sys)(t := c)\<rparr>"

definition move_to :: "nat \<Rightarrow> log_pc \<times> log_state \<Rightarrow> log_sys \<Rightarrow> log_sys" where
  "move_to t cs sys = at_log_pc t (fst cs) (sys\<lparr>base := snd cs\<rparr>)"

text \<open>A thread calls a function of the library; a thread in a call goes on. Only a thread that wants the mutex can be blocked.\<close>

definition log_begin :: "log_env \<Rightarrow> nat \<Rightarrow> log_op \<Rightarrow> log_sys \<Rightarrow> log_sys option" where
  "log_begin env t op sys = map_option (\<lambda>cs. move_to t cs sys) (log_start env op (base sys))"

definition blocked :: "log_sys \<Rightarrow> nat \<Rightarrow> bool" where
  "blocked sys t \<longleftrightarrow> (\<exists>s. pcs sys t = Locking s) \<and> mutex sys \<noteq> None"

definition log_turn :: "log_env \<Rightarrow> nat \<Rightarrow> log_sys \<Rightarrow> log_sys option" where
  "log_turn env t sys =
     (case pcs sys t of
        Outside r \<Rightarrow> Some sys
      | Locking s \<Rightarrow> Some (at_log_pc t (Holding s) (lock_logger t sys))
      | Holding s \<Rightarrow> map_option (\<lambda>cs. move_to t (Unlocking (fst cs), snd cs) sys) (log_body env s (base sys))
      | Unlocking c \<Rightarrow> Some (at_log_pc t c (unlock_logger sys))
      | Filling log_id f name \<Rightarrow>
          Some (move_to t (case name of None \<Rightarrow> Outside log_id | Some n \<Rightarrow> Naming log_id n, open_file_fill log_id f (base sys)) sys)
      | Naming log_id n \<Rightarrow> Some (move_to t (Outside log_id, open_fill env log_id n (base sys)) sys)
      | Levelling log_id lev \<Rightarrow> Some (move_to t (Outside 0, level_assign log_id lev (base sys)) sys)
      | Triggering log_id v \<Rightarrow> Some (move_to t (Outside 0, trigger_assign log_id v (base sys)) sys)
      | Fetching log_id \<Rightarrow> Some (at_log_pc t (direct_fetch log_id (base sys)) sys)
      | Flushing log_id f \<Rightarrow> Some (move_to t (Outside 0, direct_flush f (base sys)) sys))"

primrec log_turns :: "nat \<Rightarrow> log_env \<Rightarrow> nat \<Rightarrow> log_sys \<Rightarrow> log_sys option" where
  "log_turns 0 env t sys = Some sys"
| "log_turns (Suc n) env t sys = do { sys \<leftarrow> log_turn env t sys; log_turns n env t sys }"

section \<open>Streams\<close>

text \<open>The streams that have been closed and not been opened again after a list of events, and whether every use of a stream in
  the list came when it was not closed.\<close>

fun closed_by :: "stream set \<Rightarrow> io_event list \<Rightarrow> stream set" where
  "closed_by C [] = C"
| "closed_by C (Io_close f # es) = closed_by (insert f C) es"
| "closed_by C (Io_open n (Some f) # es) = closed_by (C - {f}) es"
| "closed_by C (_ # es) = closed_by C es"

fun io_ok :: "stream set \<Rightarrow> io_event list \<Rightarrow> bool" where
  "io_ok C [] \<longleftrightarrow> True"
| "io_ok C (Io_close f # es) \<longleftrightarrow> f \<notin> C \<and> io_ok (insert f C) es"
| "io_ok C (Io_open n (Some f) # es) \<longleftrightarrow> io_ok (C - {f}) es"
| "io_ok C (Io_write f s # es) \<longleftrightarrow> f \<notin> C \<and> io_ok C es"
| "io_ok C (Io_flush (Some f) # es) \<longleftrightarrow> f \<notin> C \<and> io_ok C es"
| "io_ok C (_ # es) \<longleftrightarrow> io_ok C es"

section \<open>What the callers observe\<close>

text \<open>What a call that is under way does, as far as it matters for other calls.\<close>

datatype log_use =
    Use_none
  | Use_open_file
  | Use_close int
  | Use_reopen int
  | Use_write int
  | Use_direct int
  | Use_filename int
  | Use_level int
  | Use_trigger int
  | Use_set int

fun use_id :: "log_use \<Rightarrow> int option" where
  "use_id Use_none = None"
| "use_id Use_open_file = None"
| "use_id (Use_close i) = Some i"
| "use_id (Use_reopen i) = Some i"
| "use_id (Use_write i) = Some i"
| "use_id (Use_direct i) = Some i"
| "use_id (Use_filename i) = Some i"
| "use_id (Use_level i) = Some i"
| "use_id (Use_trigger i) = Some i"
| "use_id (Use_set i) = Some i"

fun section_use :: "log_section \<Rightarrow> log_use" where
  "section_use (S_get_id f name) = (if name = None then Use_open_file else Use_none)"
| "section_use (S_close i) = Use_close i"
| "section_use (S_reopen i) = Use_reopen i"
| "section_use (S_write i pre line) = Use_write i"
| "section_use (S_direct i fmt ap) = Use_direct i"
| "section_use (S_filename i name) = Use_filename i"
| "section_use (S_archive i v) = Use_set i"
| "section_use (S_lines_kept i count) = Use_set i"
| "section_use (S_flush i) = Use_set i"

fun pc_use :: "log_pc \<Rightarrow> log_use" where
  "pc_use (Outside r) = Use_none"
| "pc_use (Locking s) = section_use s"
| "pc_use (Holding s) = section_use s"
| "pc_use (Unlocking c) = pc_use c"
| "pc_use (Filling i f name) = Use_none"
| "pc_use (Naming i n) = Use_none"
| "pc_use (Levelling i v) = Use_level i"
| "pc_use (Triggering i v) = Use_trigger i"
| "pc_use (Fetching i) = Use_direct i"
| "pc_use (Flushing i f) = Use_direct i"

fun op_use :: "log_op \<Rightarrow> log_use" where
  "op_use (L_open name) = Use_none"
| "op_use (L_open_file f) = Use_open_file"
| "op_use (L_trigger i v) = Use_trigger i"
| "op_use (L_filename i name) = Use_filename i"
| "op_use (L_archive i v) = Use_set i"
| "op_use (L_lines_kept i count) = Use_set i"
| "op_use (L_level i v) = Use_level i"
| "op_use (L_flush i) = Use_set i"
| "op_use (L_reopen i) = Use_reopen i"
| "op_use (L_close i) = Use_close i"
| "op_use (L_write i priority cat func fmt ap) = Use_write i"
| "op_use (L_write_direct i fmt ap) = Use_direct i"

text \<open>Which calls must not overlap: closing a log and any other call for it, or opening a log from a stream; reopening, or
  writing with \<open>log_write_direct\<close>, and any other call that can replace the stream of that log.\<close>

definition moves_stream :: "log_use \<Rightarrow> int \<Rightarrow> bool" where
  "moves_stream u i \<longleftrightarrow> u \<in> {Use_close i, Use_reopen i, Use_write i, Use_direct i}"

definition excludes :: "log_use \<Rightarrow> log_use \<Rightarrow> bool" where
  "excludes u v \<longleftrightarrow> (\<exists>i. u = Use_close i \<and> (use_id v = Some i \<or> v = Use_open_file)) \<or>
     (\<exists>i. (u = Use_reopen i \<or> u = Use_direct i) \<and> moves_stream v i)"

definition clash :: "log_use \<Rightarrow> log_use \<Rightarrow> bool" where
  "clash u v \<longleftrightarrow> excludes u v \<or> excludes v u"

text \<open>The slot that a thread is opening, and the stream that it is going to put there.\<close>

fun opens_slot :: "log_pc \<Rightarrow> int option" where
  "opens_slot (Unlocking c) = opens_slot c"
| "opens_slot (Filling i f name) = Some i"
| "opens_slot (Naming i n) = Some i"
| "opens_slot _ = None"

fun section_stream :: "log_section \<Rightarrow> stream option" where
  "section_stream (S_get_id f name) = Some f"
| "section_stream _ = None"

fun pc_stream :: "log_pc \<Rightarrow> stream option" where
  "pc_stream (Locking s) = section_stream s"
| "pc_stream (Holding s) = section_stream s"
| "pc_stream (Unlocking c) = pc_stream c"
| "pc_stream (Filling i f name) = Some f"
| "pc_stream _ = None"

definition openings :: "log_sys \<Rightarrow> int set" where
  "openings sys = {i. \<exists>t. opens_slot (pcs sys t) = Some i}"

text \<open>The unused slots were never used for a log with lines.\<close>

definition tails_reset :: "log_state \<Rightarrow> bool" where
  "tails_reset st \<longleftrightarrow> (\<forall>i<LOG_MAXLOGS. \<not> in_use (loglist st ! i) \<longrightarrow> log_tail (loglist st ! i) = Tail_head)"

text \<open>The rules for the arguments of a call: those of \<open>safe_op\<close>, as far as they do not depend on what other threads do.\<close>

fun args_ok :: "log_sys \<Rightarrow> log_op \<Rightarrow> bool" where
  "args_ok sys (L_open_file (Some f)) \<longleftrightarrow> tails_reset (base sys) \<and> f \<notin> closed_by {} (io (base sys)) \<and>
     (\<forall>i<LOG_MAXLOGS. logfile (loglist (base sys) ! i) \<noteq> Some f) \<and> (\<forall>u. pc_stream (pcs sys u) \<noteq> Some f)"
| "args_ok sys (L_filename i name) \<longleftrightarrow> name \<noteq> None"
| "args_ok sys (L_lines_kept i count) \<longleftrightarrow> count \<noteq> 0"
| "args_ok sys (L_write i priority cat func fmt ap) \<longleftrightarrow> (\<forall>pt. log_vsnprintf pt LOG_MAXLINELEN fmt ap \<noteq> None)"
| "args_ok sys (L_write_direct i fmt ap) \<longleftrightarrow> (\<forall>pt. log_vsnprintf pt LOG_MAXLINELEN fmt ap \<noteq> None)"
| "args_ok sys _ \<longleftrightarrow> True"

definition may_call :: "log_sys \<Rightarrow> nat \<Rightarrow> log_op \<Rightarrow> bool" where
  "may_call sys t op \<longleftrightarrow> (\<exists>r. pcs sys t = Outside r) \<and> args_ok sys op \<and> (\<forall>u. \<not> clash (op_use op) (pc_use (pcs sys u))) \<and>
     (\<forall>i. use_id (op_use op) = Some i \<and> good_id i \<longrightarrow> in_use (log_at (base sys) i) \<and> i \<notin> openings sys)"

text \<open>What the outside may answer: as in \<open>env_ok\<close>, and \<open>fopen\<close> does not yield a stream that is in use elsewhere.\<close>

definition env_fits :: "log_sys \<Rightarrow> nat \<Rightarrow> log_env \<Rightarrow> bool" where
  "env_fits sys t env \<longleftrightarrow> env_ok env (base sys) \<and>
     (\<forall>g. fopen_res env = Some g \<longrightarrow> (\<forall>u. pc_stream (pcs sys u) \<noteq> Some g) \<and>
        (\<forall>i<LOG_MAXLOGS. logfile (loglist (base sys) ! i) = Some g \<longrightarrow> moves_stream (pc_use (pcs sys t)) (int i)))"

definition log_sys_start :: log_sys where
  "log_sys_start = \<lparr>base = log_initialize log_static, mutex = None, pcs = (\<lambda>t. Outside 0)\<rparr>"

inductive log_runs :: "log_sys \<Rightarrow> bool" where
  start: "log_runs log_sys_start"
| call: "log_runs sys \<Longrightarrow> may_call sys t op \<Longrightarrow> env_fits sys t env \<Longrightarrow> log_begin env t op sys = Some sys' \<Longrightarrow> log_runs sys'"
| turn: "log_runs sys \<Longrightarrow> \<not> blocked sys t \<Longrightarrow> env_fits sys t env \<Longrightarrow> log_turn env t sys = Some sys' \<Longrightarrow> log_runs sys'"

end
