(* ===== verification/Log_Threads_Parts.thy ===== *)
theory Log_Threads_Parts
  imports Log_Threads_Defs
begin

text \<open>
  What the parts of a call do: a call that is not disturbed does what the function does as one step; the streams that a list of
  events closes and the holder of each stream; the table of logs without the slots that are being opened; and, for every part
  under the mutex, that it is defined, keeps the table well formed and moves at most the stream of its own log.
\<close>

section \<open>A call that is not disturbed\<close>

text \<open>A call of the library as one step, with its result (0 where it has none).\<close>

fun log_call :: "log_env \<Rightarrow> log_op \<Rightarrow> log_state \<Rightarrow> (int \<times> log_state) option" where
  "log_call env (L_open name) st = Some (log_open env name st)"
| "log_call env (L_open_file f) st = Some (log_open_file f st)"
| "log_call env (L_filename i name) st = log_set_filename i name st"
| "log_call env (L_archive i v) st = Some (log_set_archive_timestamp i v st)"
| "log_call env op st = map_option (Pair 0) (log_step env op st)"

lemma log_call_step: "map_option snd (log_call env op st) = log_step env op st"
  by (cases op) (simp_all add: option.map_comp comp_def option.map_ident)

lemma turn_simps:
  "p t = Outside r \<Longrightarrow> log_turn env t \<lparr>base = st, mutex = mu, pcs = p\<rparr> = Some \<lparr>base = st, mutex = mu, pcs = p\<rparr>"
  "p t = Locking s \<Longrightarrow> log_turn env t \<lparr>base = st, mutex = mu, pcs = p\<rparr> = Some \<lparr>base = st, mutex = Some t, pcs = p(t := Holding s)\<rparr>"
  "p t = Holding s \<Longrightarrow> log_turn env t \<lparr>base = st, mutex = mu, pcs = p\<rparr> =
     map_option (\<lambda>(c, st). \<lparr>base = st, mutex = mu, pcs = p(t := Unlocking c)\<rparr>) (log_body env s st)"
  "p t = Unlocking c \<Longrightarrow> log_turn env t \<lparr>base = st, mutex = mu, pcs = p\<rparr> = Some \<lparr>base = st, mutex = None, pcs = p(t := c)\<rparr>"
  "p t = Filling i f name \<Longrightarrow> log_turn env t \<lparr>base = st, mutex = mu, pcs = p\<rparr> =
     Some \<lparr>base = open_file_fill i f st, mutex = mu, pcs = p(t := (case name of None \<Rightarrow> Outside i | Some n \<Rightarrow> Naming i n))\<rparr>"
  "p t = Naming i n \<Longrightarrow> log_turn env t \<lparr>base = st, mutex = mu, pcs = p\<rparr> =
     Some \<lparr>base = open_fill env i n st, mutex = mu, pcs = p(t := Outside i)\<rparr>"
  "p t = Levelling i v \<Longrightarrow> log_turn env t \<lparr>base = st, mutex = mu, pcs = p\<rparr> =
     Some \<lparr>base = level_assign i v st, mutex = mu, pcs = p(t := Outside 0)\<rparr>"
  "p t = Triggering i v \<Longrightarrow> log_turn env t \<lparr>base = st, mutex = mu, pcs = p\<rparr> =
     Some \<lparr>base = trigger_assign i v st, mutex = mu, pcs = p(t := Outside 0)\<rparr>"
  "p t = Fetching i \<Longrightarrow> log_turn env t \<lparr>base = st, mutex = mu, pcs = p\<rparr> = Some \<lparr>base = st, mutex = mu, pcs = p(t := direct_fetch i st)\<rparr>"
  "p t = Flushing i g \<Longrightarrow> log_turn env t \<lparr>base = st, mutex = mu, pcs = p\<rparr> =
     Some \<lparr>base = direct_flush g st, mutex = mu, pcs = p(t := Outside 0)\<rparr>"
  by (auto simp: log_turn_def at_log_pc_def move_to_def lock_logger_def unlock_logger_def intro!: option.map_cong0)

lemma alone_locked:
  "log_turns 5 env t \<lparr>base = st, mutex = None, pcs = p(t := Locking s)\<rparr> =
    Option.bind (log_body env s st) (\<lambda>(c, st). log_turns 2 env t \<lparr>base = st, mutex = None, pcs = p(t := c)\<rparr>)"
  by (cases "log_body env s st") (auto simp: numeral_eq_Suc turn_simps)

lemma alone_outside: "log_turns n env t \<lparr>base = st, mutex = None, pcs = p(t := Outside r)\<rparr> = Some \<lparr>base = st, mutex = None, pcs = p(t := Outside r)\<rparr>"
  by (induction n) (simp_all add: turn_simps)

lemma alone_end:
  "log_turns 2 env t \<lparr>base = st, mutex = None, pcs = p(t := Filling i f None)\<rparr> =
     Some \<lparr>base = open_file_fill i f st, mutex = None, pcs = p(t := Outside i)\<rparr>"
  "log_turns 2 env t \<lparr>base = st, mutex = None, pcs = p(t := Filling i f (Some n))\<rparr> =
     Some \<lparr>base = open_fill env i n (open_file_fill i f st), mutex = None, pcs = p(t := Outside i)\<rparr>"
  "log_turns 2 env t \<lparr>base = st, mutex = None, pcs = p(t := Fetching i)\<rparr> =
     Some \<lparr>base = direct_flush (logfile (log_at st i)) st, mutex = None, pcs = p(t := Outside 0)\<rparr>"
  "log_turns 5 env t \<lparr>base = st, mutex = None, pcs = p(t := Levelling i v)\<rparr> =
     Some \<lparr>base = level_assign i v st, mutex = None, pcs = p(t := Outside 0)\<rparr>"
  "log_turns 5 env t \<lparr>base = st, mutex = None, pcs = p(t := Triggering i v)\<rparr> =
     Some \<lparr>base = trigger_assign i v st, mutex = None, pcs = p(t := Outside 0)\<rparr>"
  by (simp_all add: numeral_eq_Suc turn_simps direct_fetch_def)

lemma begin_simps: "log_begin env t op \<lparr>base = st, mutex = mu, pcs = p\<rparr> =
    map_option (\<lambda>(c, st). \<lparr>base = st, mutex = mu, pcs = p(t := c)\<rparr>) (log_start env op st)"
  by (auto simp: log_begin_def move_to_def at_log_pc_def intro!: option.map_cong0)

lemma call_alone:
  "do { sys \<leftarrow> log_begin env t op \<lparr>base = st, mutex = None, pcs = p\<rparr>; log_turns 5 env t sys } =
    map_option (\<lambda>(r, st). \<lparr>base = st, mutex = None, pcs = p(t := Outside r)\<rparr>) (log_call env op st)"
proof (cases op)
  case (L_open name)
  show ?thesis
  proof (cases "name = None \<or> name = Some '''' \<or> fopen_res env = None")
    case True
    then show ?thesis using L_open
      by (cases name) (auto simp: begin_simps open_start_def alone_outside log_open_def log_open_file_def LOG_EINSANE_def)
  next
    case False
    then obtain n f where n: "name = Some n" "n \<noteq> ''''" "fopen_res env = Some f" by auto
    obtain i st1 where g: "get_log_id (st\<lparr>io := io st @ [Io_open n (Some f)]\<rparr>) = (i, st1)" by force
    have "log_open env name st = (if i < 0 then (LOG_ENOMORELOGS, st1) else (i, open_fill env i n (open_file_fill i f st1)))"
      using n g by (auto simp: log_open_def log_open_file_def open_fill_def open_file_fill_def LOG_ENOMORELOGS_def)
    then show ?thesis using L_open n g
      by (simp add: begin_simps open_start_def alone_locked alone_outside alone_end)
  qed
next
  case (L_open_file f)
  obtain i st1 where g: "get_log_id st = (i, st1)" by force
  show ?thesis using L_open_file g
    by (cases f) (auto simp: begin_simps open_file_start_def alone_locked alone_outside alone_end log_open_file_def open_file_fill_def)
next
  case (L_write_direct i fmt ap)
  then show ?thesis
    by (cases "log_vsnprintf (ptr_text env) LOG_MAXLINELEN fmt ap"; cases "log_put env i '''' (the (log_vsnprintf (ptr_text env) LOG_MAXLINELEN fmt ap)) st")
      (auto simp: begin_simps write_direct_start_def alone_locked alone_outside alone_end log_write_direct_def write_direct_body_def direct_flush_def)
next
  case (L_write i priority cat func fmt ap)
  then show ?thesis
    by (cases "log_vsnprintf (ptr_text env) LOG_MAXLINELEN fmt ap"; cases "log_prefix env priority cat func";
        cases "log_put env i (the (log_prefix env priority cat func)) (the (log_vsnprintf (ptr_text env) LOG_MAXLINELEN fmt ap)) st")
      (auto simp: begin_simps write_start_def alone_locked alone_outside log_write_def)
next
  case (L_reopen i)
  then show ?thesis
    by (cases "logfile (log_at st i)") (auto simp: begin_simps reopen_start_def alone_locked alone_outside log_reopen_def reopen_body_def Let_def)
next
  case (L_close i)
  show ?thesis
  proof (cases "good_id i")
    case True
    then have "close_body i st = log_close i st" by (simp add: close_body_def log_close_def)
    then show ?thesis using L_close True
      by (cases "log_close i st") (auto simp: begin_simps close_start_def alone_locked alone_outside)
  qed (use L_close in \<open>simp add: begin_simps close_start_def alone_outside log_close_def\<close>)
next
  case (L_lines_kept i count)
  then show ?thesis
    by (cases "lines_kept_body i count st")
      (auto simp: begin_simps lines_kept_start_def alone_locked alone_outside log_set_lines_kept_def lines_kept_body_def)
qed (auto simp: begin_simps alone_outside alone_locked alone_end set_trigger_start_def set_level_start_def log_set_trigger_def
      log_set_level_def trigger_assign_def level_assign_def set_filename_start_def set_filename_body_def log_set_filename_def
      set_archive_start_def set_archive_body_def log_set_archive_timestamp_def flush_start_def flush_body_def log_flush_def)

section \<open>Streams that are held\<close>

lemma closed_by_append: "closed_by C (es @ es') = closed_by (closed_by C es) es'"
  by (induction C es rule: closed_by.induct) simp_all

lemma io_ok_append: "io_ok C (es @ es') \<longleftrightarrow> io_ok C es \<and> io_ok (closed_by C es) es'"
  by (induction C es rule: io_ok.induct) simp_all

text \<open>Every stream has at most one holder - a log, or a thread that is about to give it to a log - and is not closed.\<close>

definition held :: "log_state \<Rightarrow> (nat \<Rightarrow> log_pc) \<Rightarrow> nat + nat \<Rightarrow> stream option" where
  "held st p x = (case x of Inl j \<Rightarrow> if j < LOG_MAXLOGS then logfile (loglist st ! j) else None | Inr t \<Rightarrow> pc_stream (p t))"

definition one_holder :: "stream set \<Rightarrow> (nat + nat \<Rightarrow> stream option) \<Rightarrow> bool" where
  "one_holder C H \<longleftrightarrow> (\<forall>x f. H x = Some f \<longrightarrow> f \<notin> C \<and> (\<forall>y. y \<noteq> x \<longrightarrow> H y \<noteq> Some f))"

text \<open>A holder that has the stream \<open>a\<close> gets \<open>b\<close>, which is \<open>a\<close>, none, or the new stream \<open>N\<close>.\<close>

definition stream_step :: "stream option \<Rightarrow> stream option \<Rightarrow> stream option \<Rightarrow> stream set \<Rightarrow> io_event list \<Rightarrow> bool" where
  "stream_step a b N C ev \<longleftrightarrow> io_ok C ev \<and> (\<forall>g. b = Some g \<longrightarrow> g \<notin> closed_by C ev) \<and>
     (\<forall>f\<in>closed_by C ev. f \<in> C \<or> a = Some f) \<and> (b = a \<or> b = None \<or> b = N)"

lemma one_holder_step:
  assumes "one_holder C H" "stream_step (H x) b N C ev" "\<And>g y. N = Some g \<Longrightarrow> y \<noteq> x \<Longrightarrow> H y \<noteq> Some g"
  shows "one_holder (closed_by C ev) (H(x := b))"
proof -
  have fresh: "H y \<noteq> Some g" if "b = Some g" "y \<noteq> x" for y g
    using that assms unfolding stream_step_def one_holder_def by (metis option.distinct(1))
  have other: "f \<notin> closed_by C ev" if "H y = Some f" "y \<noteq> x" for y f
  proof
    assume "f \<in> closed_by C ev"
    then have "f \<in> C \<or> H x = Some f" using assms(2) by (auto simp: stream_step_def)
    then show False using assms(1) that unfolding one_holder_def by metis
  qed
  show ?thesis unfolding one_holder_def
  proof (intro allI impI conjI)
    fix y f assume h: "(H(x := b)) y = Some f"
    show "f \<notin> closed_by C ev"
      using h other [of y f] assms(2) by (cases "y = x") (auto simp: stream_step_def)
    fix z assume z: "z \<noteq> y"
    show "(H(x := b)) z \<noteq> Some f"
    proof (cases "y = x")
      case True
      then show ?thesis using h z fresh by auto
    next
      case False
      then show ?thesis using h z fresh [of f y] assms(1) unfolding one_holder_def by (cases "z = x") auto
    qed
  qed
qed

lemma one_holder_give:
  assumes "one_holder C H" "H x = Some f" "x \<noteq> y"
  shows "one_holder C (H(x := None, y := Some f))"
  using assms unfolding one_holder_def by (auto; metis)

lemma stream_step_refl:
  "(\<And>f. a = Some f \<Longrightarrow> f \<notin> C) \<Longrightarrow> stream_step a a N C []"
  "(\<And>f. a = Some f \<Longrightarrow> f \<notin> C) \<Longrightarrow> stream_step a a N C [Io_flush a]"
  "stream_step a None N C []"
  by (cases a; auto simp: stream_step_def)+

section \<open>The table without the logs that are being opened\<close>

definition hide_log :: "log_t \<Rightarrow> log_t" where
  "hide_log l = l\<lparr>in_use := False, logfile := None\<rparr>"

definition hide :: "int set \<Rightarrow> log_state \<Rightarrow> log_state" where
  "hide B st = st\<lparr>loglist := map (\<lambda>i. if int i \<in> B then hide_log (loglist st ! i) else loglist st ! i) [0..<length (loglist st)]\<rparr>"

lemma hide_simps [simp]: "eheap (hide B st) = eheap st" "io (hide B st) = io st" "length (loglist (hide B st)) = length (loglist st)"
  by (simp_all add: hide_def)

lemma hide_nth: "i < length (loglist st) \<Longrightarrow> loglist (hide B st) ! i = (if int i \<in> B then hide_log (loglist st ! i) else loglist st ! i)"
  by (simp add: hide_def)

lemma hide_at: "good_id i \<Longrightarrow> length (loglist st) = LOG_MAXLOGS \<Longrightarrow> i \<notin> B \<Longrightarrow> log_at (hide B st) i = log_at st i"
  by (simp add: log_at_def hide_nth good_id_nat)

lemma recent_hide: "i < length (loglist st) \<Longrightarrow> recent (hide B st) i = recent st i"
  by (simp add: recent_def hide_nth hide_log_def)

lemma hide_set:
  assumes "0 \<le> i" "\<And>j. j \<noteq> i \<Longrightarrow> j \<in> B' \<longleftrightarrow> j \<in> B"
  shows "hide B' (set_log_heap i l h ev st) = set_log_heap i (if i \<in> B' then hide_log l else l) h ev (hide B st)"
proof -
  have "loglist (hide B' (set_log_heap i l h ev st)) = loglist (set_log_heap i (if i \<in> B' then hide_log l else l) h ev (hide B st))"
  proof (rule nth_equalityI)
    fix j assume "j < length (loglist (hide B' (set_log_heap i l h ev st)))"
    then have j: "j < length (loglist st)" by (simp add: set_log_heap_def)
    show "loglist (hide B' (set_log_heap i l h ev st)) ! j = loglist (set_log_heap i (if i \<in> B' then hide_log l else l) h ev (hide B st)) ! j"
    proof (cases "j = nat i")
      case True
      then show ?thesis using j assms(1) by (simp add: set_log_heap_def hide_def)
    next
      case False
      then have "int j \<in> B' \<longleftrightarrow> int j \<in> B" by (intro assms(2)) auto
      then show ?thesis using j False by (simp add: set_log_heap_def hide_def)
    qed
  qed (simp add: set_log_heap_def)
  then show ?thesis by (simp add: set_log_heap_def hide_def)
qed

lemma set_log_heap_io: "set_log i l st = set_log_heap i l (eheap st) [] st"
  by (simp add: set_log_def set_log_heap_def)

lemma put_hide:
  assumes "good_id i" "length (loglist st) = LOG_MAXLOGS" "i \<notin> B"
  shows "log_put env i pre line (hide B st) = map_option (hide B) (log_put env i pre line st)"
proof -
  have *: "set_log_heap i l h ev (hide B st) = hide B (set_log_heap i l h ev st)" for l h ev
    using hide_set [of i B B l h ev st] assms by (simp add: good_id_def)
  show ?thesis
  proof (cases "log_open' env (log_at st i)")
    case (Some r)
    obtain ok ev l where r: "r = (ok, ev, l)" by (cases r)
    show ?thesis using Some r hide_at [OF assms]
      by (cases "create_log_entry env pre line l (eheap st)") (auto simp: log_put_def *)
  qed (use hide_at [OF assms] in \<open>simp add: log_put_def\<close>)
qed

lemma lines_hide:
  assumes "good_id i" "length (loglist st) = LOG_MAXLOGS" "i \<notin> B"
  shows "lines_kept_body i count (hide B st) = map_option (hide B) (lines_kept_body i count st)"
proof -
  have *: "set_log_heap i l h ev (hide B st) = hide B (set_log_heap i l h ev st)" for l h ev
    using hide_set [of i B B l h ev st] assms by (simp add: good_id_def)
  show ?thesis using hide_at [OF assms]
    by (cases "drop_entries count ((log_at st i)\<lparr>keep_entries := count\<rparr>) (eheap st)") (auto simp: lines_kept_body_def *)
qed

lemma close_hide:
  assumes "good_id i" "length (loglist st) = LOG_MAXLOGS" "i \<notin> B"
  shows "close_body i (hide B st) = map_option (hide B) (close_body i st)"
proof -
  have *: "set_log_heap i l h ev (hide B st) = hide B (set_log_heap i l h ev st)" for l h ev
    using hide_set [of i B B l h ev st] assms by (simp add: good_id_def)
  define l where "l = (log_at st i)\<lparr>in_use := False, level := 2\<rparr>"
  define n where "n = (case filename l of F_null \<Rightarrow> Some l | F_str n \<Rightarrow> Some (l\<lparr>filename := F_freed\<rparr>) | F_freed \<Rightarrow> None)"
  show ?thesis using hide_at [OF assms]
    by (cases n; cases "drop_entries 0 ((the n)\<lparr>logfile := None\<rparr>) (eheap st)")
      (auto simp: close_body_def Let_def * l_def [symmetric] n_def [symmetric])
qed

section \<open>What a part under the mutex does\<close>

lemma drop_head_keeps:
  "drop_head l h = Some (l', h') \<Longrightarrow> in_use l' = in_use l \<and> logfile l' = logfile l \<and> filename l' = filename l"
  by (auto simp: drop_head_def split: option.splits)

lemma store_tail_keeps:
  "store_tail a l h = Some (l', h') \<Longrightarrow> in_use l' = in_use l \<and> logfile l' = logfile l \<and> filename l' = filename l"
  by (auto simp: store_tail_def split: option.splits tail_ref.splits)

lemma create_log_entry_keeps:
  assumes "create_log_entry env pre line l h = Some (len, ev, l', h')"
  shows "in_use l' = in_use l \<and> logfile l' = logfile l \<and> filename l' = filename l"
  using assms
  by (auto simp: create_log_entry_def Let_def elim!: bind_SomeE split: if_splits dest!: drop_head_keeps store_tail_keeps)

lemma log_open'_keeps:
  assumes "log_open' env l = Some (ok, ev, l')"
  shows "in_use l' = in_use l \<and> filename l' = filename l \<and>
    logfile l' = (if in_use l \<and> needs_open l \<and> filename l \<noteq> F_null then fopen_res env else logfile l)"
  using assms by (auto simp: log_open'_def needs_open_def Let_def split: if_splits log_name.splits)

text \<open>\<open>st'\<close> is \<open>st\<close> after a part under the mutex for the log \<open>i\<close> in a call of kind \<open>u\<close>; \<open>N\<close> is what \<open>fopen\<close> would yield.\<close>

definition part_ok :: "int set \<Rightarrow> stream option \<Rightarrow> int \<Rightarrow> log_use \<Rightarrow> log_state \<Rightarrow> log_state \<Rightarrow> bool" where
  "part_ok B N i u st st' \<longleftrightarrow> log_inv (hide B st') \<and> (\<forall>j. j \<noteq> nat i \<longrightarrow> loglist st' ! j = loglist st ! j) \<and>
     (\<exists>ev. io st' = io st @ ev \<and> stream_step (logfile (log_at st i)) (logfile (log_at st' i)) N (closed_by {} (io st)) ev) \<and>
     (u \<noteq> Use_close i \<longrightarrow> in_use (log_at st' i) \<and> (filename (log_at st i) \<noteq> F_null \<longrightarrow> filename (log_at st' i) \<noteq> F_null)) \<and>
     (logfile (log_at st' i) = logfile (log_at st i) \<or> moves_stream u i)"

text \<open>What holds before.\<close>

definition part_pre :: "int set \<Rightarrow> int \<Rightarrow> log_state \<Rightarrow> bool" where
  "part_pre B i st \<longleftrightarrow> log_inv (hide B st) \<and> good_id i \<and> i \<notin> B \<and> in_use (log_at st i) \<and>
     (\<forall>f. logfile (log_at st i) = Some f \<longrightarrow> f \<notin> closed_by {} (io st))"

lemma part_preD:
  assumes "part_pre B i st"
  shows "length (loglist st) = LOG_MAXLOGS" "log_at (hide B st) i = log_at st i" "nat i < length (loglist st)"
    "hide B (set_log_heap i l h ev st) = set_log_heap i l h ev (hide B st)"
    "log_at (set_log_heap i l h ev st) i = l" "j \<noteq> nat i \<Longrightarrow> loglist (set_log_heap i l h ev st) ! j = loglist st ! j"
    "io (set_log_heap i l h ev st) = io st @ ev" "eheap (set_log_heap i l h ev st) = h"
    "length (loglist (set_log_heap i l h ev st)) = LOG_MAXLOGS"
proof -
  show len: "length (loglist st) = LOG_MAXLOGS" using assms by (auto simp: part_pre_def log_inv_def logs_inv_def)
  show "log_at (hide B st) i = log_at st i" using assms hide_at len by (auto simp: part_pre_def)
  show n: "nat i < length (loglist st)" using assms len by (simp add: part_pre_def good_id_nat)
  show "hide B (set_log_heap i l h ev st) = set_log_heap i l h ev (hide B st)"
    using hide_set [of i B B l h ev st] assms by (simp add: part_pre_def good_id_def)
  show "log_at (set_log_heap i l h ev st) i = l" using n by (simp add: set_log_heap_def log_at_def)
qed (use assms in \<open>auto simp: set_log_heap_def part_pre_def log_inv_def logs_inv_def\<close>)

lemma part_settings:
  assumes pre: "part_pre B i st" and ok: "\<And>as. log_ok (log_at st i) (eheap st) as \<Longrightarrow> log_ok l (eheap st) as"
    and u: "in_use l" "filename (log_at st i) \<noteq> F_null \<longrightarrow> filename l \<noteq> F_null"
    and s: "stream_step (logfile (log_at st i)) (logfile l) N (closed_by {} (io st)) ev"
    and m: "logfile l = logfile (log_at st i) \<or> moves_stream u i"
  shows "part_ok B N i u st (set_log_heap i l (eheap st) ev st)"
proof -
  obtain ass where a: "logs_inv (hide B st) ass" using pre by (auto simp: part_pre_def log_inv_def)
  have g: "good_id i" using pre by (simp add: part_pre_def)
  have "log_ok (log_at st i) (eheap st) (ass ! nat i)"
    using logs_invD(1) [OF a, of "nat i"] g part_preD(2) [OF pre] by (simp add: good_id_nat log_at_def)
  from set_log_keeps(2) [OF a g, where l = l and ev = ev] ok [OF this]
  have "log_inv (hide B (set_log_heap i l (eheap st) ev st))" unfolding part_preD(4) [OF pre] log_inv_def by auto
  then show ?thesis using u s m part_preD(5-7) [OF pre] by (auto simp: part_ok_def)
qed

lemma part_live: "part_pre B i st \<Longrightarrow> logfile (log_at st i) = Some f \<Longrightarrow> f \<notin> closed_by {} (io st)"
  by (simp add: part_pre_def)

lemma part_filename:
  assumes pre: "part_pre B i st" and n: "name = Some n"
  shows "\<exists>st'. set_filename_body i name st = Some st' \<and> part_ok B N i (Use_filename i) st st'"
proof -
  obtain ass where a: "logs_inv (hide B st) ass" using pre by (auto simp: part_pre_def log_inv_def)
  have "log_ok (log_at st i) (eheap st) (ass ! nat i)"
    using logs_invD(1) [OF a, of "nat i"] pre part_preD(2) [OF pre] by (simp add: part_pre_def good_id_nat log_at_def)
  then have "filename (log_at st i) \<noteq> F_freed" using pre by (simp add: log_ok_def part_pre_def)
  then have "set_filename_body i name st = Some (set_log_heap i ((log_at st i)\<lparr>filename := F_str n\<rparr>) (eheap st) [] st)"
    using n by (simp add: set_filename_body_def set_log_heap_io)
  moreover have "part_ok B N i (Use_filename i) st (set_log_heap i ((log_at st i)\<lparr>filename := F_str n\<rparr>) (eheap st) [] st)"
  proof (rule part_settings [OF pre])
    fix as assume "log_ok (log_at st i) (eheap st) as"
    then show "log_ok ((log_at st i)\<lparr>filename := F_str n\<rparr>) (eheap st) as"
      by (rule log_ok_files) (use pre in \<open>auto simp: part_pre_def\<close>)
  qed (use pre in \<open>auto simp: part_pre_def intro: stream_step_refl(1)\<close>)
  ultimately show ?thesis by blast
qed

lemma part_archive: "part_pre B i st \<Longrightarrow> part_ok B N i (Use_set i) st (set_archive_body i v st)"
  unfolding set_archive_body_def set_log_heap_io
  by (rule part_settings, assumption, erule log_ok_settings) (auto simp: part_pre_def intro: stream_step_refl(1))

lemma part_level: "part_pre B i st \<Longrightarrow> part_ok B N i (Use_level i) st (level_assign i v st)"
  unfolding level_assign_def set_log_heap_io
  by (rule part_settings, assumption, erule log_ok_settings) (auto simp: part_pre_def intro: stream_step_refl(1))

lemma part_trigger: "part_pre B i st \<Longrightarrow> part_ok B N i (Use_trigger i) st (trigger_assign i v st)"
  unfolding trigger_assign_def set_log_heap_io
  by (rule part_settings, assumption, erule log_ok_settings) (auto simp: part_pre_def intro: stream_step_refl(1))

lemma part_flush: "part_pre B i st \<Longrightarrow> part_ok B N i (Use_set i) st (flush_body i st)"
proof -
  assume pre: "part_pre B i st"
  have "set_log_heap i (log_at st i) (eheap st) ev st = st\<lparr>io := io st @ ev\<rparr>" for ev
    by (simp add: set_log_heap_def log_at_def)
  then have "flush_body i st = set_log_heap i (log_at st i) (eheap st) (if logfile (log_at st i) = None then [] else [Io_flush (logfile (log_at st i))]) st"
    by (simp add: flush_body_def)
  moreover have "part_ok B N i (Use_set i) st (set_log_heap i (log_at st i) (eheap st)
      (if logfile (log_at st i) = None then [] else [Io_flush (logfile (log_at st i))]) st)"
    using pre by (intro part_settings [OF pre]) (auto simp: part_pre_def intro: stream_step_refl(1,2))
  ultimately show ?thesis by simp
qed

lemma part_reopen:
  assumes pre: "part_pre B i st" and f: "logfile (log_at st i) \<noteq> None" "filename (log_at st i) \<noteq> F_null"
  shows "\<exists>st'. reopen_body i st = Some st' \<and> part_ok B N i (Use_reopen i) st st'"
proof -
  obtain g where g: "logfile (log_at st i) = Some g" using f by blast
  have "log_ok ((log_at st i)\<lparr>logfile := None\<rparr>) (eheap st) as" if "log_ok (log_at st i) (eheap st) as" for as
    using that f pre by (intro log_ok_files [OF that]) (auto simp: log_ok_def part_pre_def)
  then have "part_ok B N i (Use_reopen i) st (set_log_heap i ((log_at st i)\<lparr>logfile := None\<rparr>) (eheap st) [Io_close g] st)"
    using pre g f by (intro part_settings [OF pre]) (auto simp: part_pre_def stream_step_def moves_stream_def)
  then show ?thesis using g by (simp add: reopen_body_def)
qed

lemma drop_entries_keeps:
  "drop_entries count l h = Some (l', h') \<Longrightarrow> in_use l' = in_use l \<and> logfile l' = logfile l \<and> filename l' = filename l"
proof (induction count l h arbitrary: l' h' rule: drop_entries.induct)
  case (1 count l h)
  show ?case
  proof (cases "entries l > count")
    case True
    then obtain l1 h1 where d: "drop_head l h = Some (l1, h1)" "drop_entries count (l1\<lparr>entries := entries l - 1\<rparr>) h1 = Some (l', h')"
      using 1(2) by (auto simp: drop_entries.simps [of count l h] split: option.splits)
    then show ?thesis using 1(1) [OF True d(1) refl d(2)] drop_head_keeps [OF d(1)] by simp
  qed (use 1(2) in \<open>simp add: drop_entries.simps [of count l h]\<close>)
qed

lemma part_lines_kept:
  assumes pre: "part_pre B i st" and c: "count \<noteq> 0"
  shows "\<exists>st'. lines_kept_body i count st = Some st' \<and> part_ok B N i (Use_set i) st st' \<and>
    (\<forall>j<LOG_MAXLOGS. recent st' j = (if j = nat i then lastn (unat count) (recent st j) else recent st j))"
proof -
  obtain ass where a: "logs_inv (hide B st) ass" using pre by (auto simp: part_pre_def log_inv_def)
  have g: "good_id i" "i \<notin> B" "in_use (log_at (hide B st) i)" using pre part_preD(2) [OF pre] by (auto simp: part_pre_def)
  have same: "log_set_lines_kept i count (hide B st) = lines_kept_body i count (hide B st)"
    using g by (simp add: log_set_lines_kept_def lines_kept_body_def)
  obtain st2 ass2 where st2: "lines_kept_body i count (hide B st) = Some st2" "logs_inv st2 ass2"
    "recent st2 (nat i) = lastn (unat count) (recent (hide B st) (nat i))"
    "\<And>j. j < LOG_MAXLOGS \<Longrightarrow> j \<noteq> nat i \<Longrightarrow> recent st2 j = recent (hide B st) j"
    using log_set_lines_kept_ok [OF a g(1,3), of count] c same by metis
  then obtain st' where st': "lines_kept_body i count st = Some st'" "log_inv (hide B st')" "st2 = hide B st'"
    using lines_hide [OF g(1) part_preD(1) [OF pre] g(2), of count] by (auto simp: log_inv_def)
  then obtain l h where d: "drop_entries count ((log_at st i)\<lparr>keep_entries := count\<rparr>) (eheap st) = Some (l, h)"
    "st' = set_log_heap i l h [] st" by (auto simp: lines_kept_body_def elim!: bind_SomeE)
  have "part_ok B N i (Use_set i) st st'"
    using st'(2) drop_entries_keeps [OF d(1)] pre unfolding d(2) part_ok_def
    by (auto simp: part_preD [OF pre] part_pre_def intro: stream_step_refl(1))
  moreover have "length (loglist st') = LOG_MAXLOGS" using part_preD(9) [OF pre] d(2) by simp
  ultimately show ?thesis using st'(1) st2(3,4) part_preD(1,3) [OF pre] unfolding st'(3) by (simp add: recent_hide)
qed

lemma part_close:
  assumes pre: "part_pre B i st"
  shows "\<exists>st'. close_body i st = Some st' \<and> part_ok B N i (Use_close i) st st' \<and>
    (\<forall>j<LOG_MAXLOGS. recent st' j = (if j = nat i then [] else recent st j))"
proof -
  obtain ass where a: "logs_inv (hide B st) ass" using pre by (auto simp: part_pre_def log_inv_def)
  have g: "good_id i" "i \<notin> B" "in_use (log_at (hide B st) i)" using pre part_preD(2) [OF pre] by (auto simp: part_pre_def)
  have same: "log_close i (hide B st) = close_body i (hide B st)" using g by (simp add: log_close_def close_body_def)
  obtain st2 ass2 where st2: "close_body i (hide B st) = Some st2" "logs_inv st2 ass2" "recent st2 (nat i) = []"
    "\<And>j. j < LOG_MAXLOGS \<Longrightarrow> j \<noteq> nat i \<Longrightarrow> recent st2 j = recent (hide B st) j"
    using log_close_ok [OF a g(1,3)] same by metis
  then obtain st' where st': "close_body i st = Some st'" "log_inv (hide B st')" "st2 = hide B st'"
    using close_hide [OF g(1) part_preD(1) [OF pre] g(2)] by (auto simp: log_inv_def)
  let ?ev = "case logfile (log_at st i) of None \<Rightarrow> [] | Some f \<Rightarrow> [Io_close f]"
  obtain l h where d: "st' = set_log_heap i l h ?ev st" "logfile l = None"
    using st'(1) pre
    by (auto simp: close_body_def part_pre_def Let_def elim!: bind_SomeE dest!: drop_entries_keeps split: log_name.splits)
  have "part_ok B N i (Use_close i) st st'"
    using st'(2) pre d(2) unfolding d(1) part_ok_def
    by (auto simp: part_preD [OF pre] part_pre_def stream_step_def moves_stream_def split: option.splits)
  moreover have "length (loglist st') = LOG_MAXLOGS" using part_preD(9) [OF pre] d(1) by simp
  ultimately show ?thesis using st'(1) st2(3,4) part_preD(1,3) [OF pre] unfolding st'(3) by (simp add: recent_hide)
qed

lemma log_put_keeps:
  assumes "log_put env i pre line st = Some st'"
  obtains l h ev where "st' = set_log_heap i l h ev st" "in_use l = in_use (log_at st i)" "filename l = filename (log_at st i)"
    "logfile l = (if in_use (log_at st i) \<and> needs_open (log_at st i) \<and> filename (log_at st i) \<noteq> F_null then fopen_res env
       else logfile (log_at st i))"
proof -
  obtain ok ev l where o: "log_open' env (log_at st i) = Some (ok, ev, l)"
    and r: "(if ok then do { (len, ev', l, h) \<leftarrow> create_log_entry env pre line l (eheap st);
       Some (set_log_heap i (if len > 0 then l\<lparr>fsize := fsize l + len\<rparr> else l) h (ev @ ev') st) }
     else Some (set_log_heap i l (eheap st) ev st)) = Some st'"
    using assms by (auto simp: log_put_def elim!: bind_SomeE)
  show ?thesis
  proof (cases ok)
    case True
    then obtain len ev' l2 h where c: "create_log_entry env pre line l (eheap st) = Some (len, ev', l2, h)"
      "st' = set_log_heap i (if len > 0 then l2\<lparr>fsize := fsize l2 + len\<rparr> else l2) h (ev @ ev') st"
      using r by (auto elim!: bind_SomeE)
    show ?thesis
      by (rule that [OF c(2)]) (use log_open'_keeps [OF o] create_log_entry_keeps [OF c(1)] in auto)
  next
    case False
    then have "st' = set_log_heap i l (eheap st) ev st" using r by simp
    then show ?thesis by (rule that) (use log_open'_keeps [OF o] in auto)
  qed
qed

lemma put_streams:
  assumes "in_use l" "filename l \<noteq> F_freed" "\<And>f. logfile l = Some f \<Longrightarrow> f \<notin> C" "logfile l \<noteq> None \<or> filename l \<noteq> F_null"
    and b: "b = (if needs_open l \<and> filename l \<noteq> F_null then fopen_res env else logfile l)"
  shows "stream_step (logfile l) b (fopen_res env) C (open_events env l @ (if can_write env l then [Io_write (the b) s] else []))"
proof (cases "needs_open l \<and> filename l \<noteq> F_null")
  case True
  then obtain n where "filename l = F_str n" using assms by (cases "filename l") auto
  then show ?thesis using True assms
    by (cases "logfile l"; cases "fopen_res env") (auto simp: stream_step_def open_events_def can_write_def)
next
  case False
  then obtain f where "logfile l = Some f" using assms by (auto simp: needs_open_def)
  moreover have "open_events env l = []" using False by (auto simp: open_events_def split: log_name.splits)
  ultimately show ?thesis using False assms by (auto simp: stream_step_def)
qed

lemma part_put:
  assumes pre: "part_pre B i st" and env: "env_ok env st" and n: "length pr + length line + 2 < 2 ^ 31" and u: "moves_stream u i"
  shows "\<exists>st'. log_put env i pr line st = Some st' \<and> part_ok B (fopen_res env) i u st st' \<and>
    (\<forall>j<LOG_MAXLOGS. recent st' j = (if j = nat i \<and> can_write env (log_at st i)
       then lastn (unat (keep_entries (log_at st i))) (recent st j @ [pr @ line @ [LF]]) else recent st j))"
proof -
  obtain ass where a: "logs_inv (hide B st) ass" using pre by (auto simp: part_pre_def log_inv_def)
  have g: "good_id i" "i \<notin> B" using pre by (auto simp: part_pre_def)
  note at = part_preD(2) [OF pre]
  have "env_ok env (hide B st)" using env by (simp add: env_ok_def)
  from log_put_ok [OF a g(1) this n] obtain st2 ass2 where st2: "log_put env i pr line (hide B st) = Some st2" "logs_inv st2 ass2"
    "recent st2 (nat i) = (if can_write env (log_at st i)
       then lastn (unat (keep_entries (log_at st i))) (recent (hide B st) (nat i) @ [pr @ line @ [LF]]) else recent (hide B st) (nat i))"
    "\<And>j. j < LOG_MAXLOGS \<Longrightarrow> j \<noteq> nat i \<Longrightarrow> recent st2 j = recent (hide B st) j"
    "io st2 = io (hide B st) @ open_events env (log_at st i) @
       (if can_write env (log_at st i) then [Io_write (the (logfile (log_at st2 i))) (pr @ line @ [LF])] else [])"
    unfolding at by metis
  then obtain st' where st': "log_put env i pr line st = Some st'" "st2 = hide B st'"
    using put_hide [OF g(1) part_preD(1) [OF pre] g(2), of env pr line] by auto
  obtain l h ev where k: "st' = set_log_heap i l h ev st" "in_use l = in_use (log_at st i)" "filename l = filename (log_at st i)"
    "logfile l = (if in_use (log_at st i) \<and> needs_open (log_at st i) \<and> filename (log_at st i) \<noteq> F_null then fopen_res env
       else logfile (log_at st i))" using log_put_keeps [OF st'(1)] .
  have l: "log_at st' i = l" unfolding k(1) by (rule part_preD(5) [OF pre])
  have l2: "log_at st2 i = l"
    unfolding st'(2) l [symmetric] by (rule hide_at [OF g(1) _ g(2)]) (simp add: k(1) part_preD(9) [OF pre])
  have ok: "log_ok (log_at st i) (eheap st) (ass ! nat i)"
    using logs_invD(1) [OF a, of "nat i"] g at by (simp add: good_id_nat log_at_def)
  have used: "in_use (log_at st i)" using pre by (simp add: part_pre_def)
  have "stream_step (logfile (log_at st i)) (logfile l) (fopen_res env) (closed_by {} (io st)) (open_events env (log_at st i) @
      (if can_write env (log_at st i) then [Io_write (the (logfile l)) (pr @ line @ [LF])] else []))"
    by (rule put_streams) (use ok used k(4) part_live [OF pre] in \<open>auto simp: log_ok_def\<close>)
  moreover have "io st' = io st @ open_events env (log_at st i) @
      (if can_write env (log_at st i) then [Io_write (the (logfile l)) (pr @ line @ [LF])] else [])"
    using st2(5) unfolding l2 unfolding st'(2) by simp
  moreover have "loglist st' ! j = loglist st ! j" if "j \<noteq> nat i" for j
    unfolding k(1) using that by (rule part_preD(6) [OF pre])
  ultimately have "part_ok B (fopen_res env) i u st st'"
    unfolding part_ok_def l using st2(2) k(2,3) used u st'(2) by (auto simp: log_inv_def)
  moreover have "length (loglist st') = LOG_MAXLOGS" using part_preD(9) [OF pre] k(1) by simp
  moreover have "recent st' j = (if j = nat i \<and> can_write env (log_at st i)
       then lastn (unat (keep_entries (log_at st i))) (recent st j @ [pr @ line @ [LF]]) else recent st j)" if "j < LOG_MAXLOGS" for j
    using st2(3,4) that calculation(2) part_preD(1,3) [OF pre] unfolding st'(2) by (cases "j = nat i") (simp_all add: recent_hide)
  ultimately show ?thesis using st'(1) by blast
qed

end
