(* ===== verification/Log_Threads_Inv.thy ===== *)
theory Log_Threads_Inv
  imports Log_Threads_Parts
begin

text \<open>
  The invariant of the threads that share the logs, and that every step of every thread is defined and keeps it.
\<close>

section \<open>The invariant of the system\<close>

fun holds :: "log_pc \<Rightarrow> bool" where
  "holds (Holding s) \<longleftrightarrow> True"
| "holds (Unlocking c) \<longleftrightarrow> True"
| "holds _ \<longleftrightarrow> False"

definition busy :: "(nat \<Rightarrow> log_pc) \<Rightarrow> int set" where
  "busy p = {i. \<exists>t. opens_slot (p t) = Some i}"

text \<open>How many turns a thread needs to the end of its call.\<close>

fun log_rank :: "log_pc \<Rightarrow> nat" where
  "log_rank (Outside r) = 0"
| "log_rank (Locking s) = 5"
| "log_rank (Holding s) = 4"
| "log_rank (Unlocking c) = 3"
| "log_rank (Filling i f name) = (if name = None then 1 else 2)"
| "log_rank (Naming i n) = 1"
| "log_rank (Levelling i v) = 1"
| "log_rank (Triggering i v) = 1"
| "log_rank (Fetching i) = 2"
| "log_rank (Flushing i f) = 1"

text \<open>What a thread may rely on where it is.\<close>

fun section_ok :: "log_state \<Rightarrow> log_section \<Rightarrow> bool" where
  "section_ok st (S_get_id f name) \<longleftrightarrow> (name = None \<longrightarrow> tails_reset st)"
| "section_ok st (S_filename i name) \<longleftrightarrow> name \<noteq> None"
| "section_ok st (S_lines_kept i count) \<longleftrightarrow> count \<noteq> 0"
| "section_ok st (S_reopen i) \<longleftrightarrow> logfile (log_at st i) \<noteq> None \<and> filename (log_at st i) \<noteq> F_null"
| "section_ok st (S_write i pre line) \<longleftrightarrow> length pre + length line + 2 < 2 ^ 31"
| "section_ok st (S_direct i fmt ap) \<longleftrightarrow> (\<forall>pt. log_vsnprintf pt LOG_MAXLINELEN fmt ap \<noteq> None)"
| "section_ok st _ \<longleftrightarrow> True"

fun pc_ok :: "log_state \<Rightarrow> log_pc \<Rightarrow> bool" where
  "pc_ok st (Locking s) \<longleftrightarrow> section_ok st s"
| "pc_ok st (Holding s) \<longleftrightarrow> section_ok st s"
| "pc_ok st (Unlocking c) \<longleftrightarrow> pc_ok st c \<and> log_rank c \<le> 2"
| "pc_ok st (Filling i f name) \<longleftrightarrow> good_id i \<and> in_use (log_at st i) \<and> (name = None \<longrightarrow> log_tail (log_at st i) = Tail_head)"
| "pc_ok st (Naming i n) \<longleftrightarrow> good_id i \<and> in_use (log_at st i) \<and> logfile (log_at st i) \<noteq> None"
| "pc_ok st (Flushing i g) \<longleftrightarrow> g = logfile (log_at st i)"
| "pc_ok st _ \<longleftrightarrow> True"

definition named :: "int set \<Rightarrow> log_state \<Rightarrow> log_pc \<Rightarrow> bool" where
  "named B st c \<longleftrightarrow> (\<forall>i. use_id (pc_use c) = Some i \<longrightarrow> good_id i \<and> in_use (log_at st i) \<and> i \<notin> B)"

definition sys_inv :: "log_state \<Rightarrow> nat option \<Rightarrow> (nat \<Rightarrow> log_pc) \<Rightarrow> bool" where
  "sys_inv st mu p \<longleftrightarrow> log_inv (hide (busy p) st) \<and> (\<forall>t. holds (p t) \<longleftrightarrow> mu = Some t) \<and>
     (\<forall>t u. t \<noteq> u \<longrightarrow> \<not> clash (pc_use (p t)) (pc_use (p u))) \<and> (\<forall>t. pc_ok st (p t) \<and> named (busy p) st (p t)) \<and>
     (\<forall>t u i. opens_slot (p t) = Some i \<and> opens_slot (p u) = Some i \<longrightarrow> t = u) \<and>
     one_holder (closed_by {} (io st)) (held st p) \<and> io_ok {} (io st)"

lemma clash_sym: "clash u v \<Longrightarrow> clash v u"
  by (auto simp: clash_def)

lemma clash_none [simp]: "\<not> clash Use_none v" "\<not> clash v Use_none"
  by (auto simp: clash_def excludes_def moves_stream_def)

lemma rank_holds: "log_rank c \<le> 2 \<Longrightarrow> \<not> holds c"
  by (cases c) auto

lemma sys_invD:
  assumes "sys_inv st mu p"
  shows "log_inv (hide (busy p) st)" "holds (p t) \<longleftrightarrow> mu = Some t" "t \<noteq> u \<Longrightarrow> \<not> clash (pc_use (p t)) (pc_use (p u))"
    "pc_ok st (p t)" "named (busy p) st (p t)" "opens_slot (p t) = Some i \<Longrightarrow> opens_slot (p u) = Some i \<Longrightarrow> t = u"
    "one_holder (closed_by {} (io st)) (held st p)" "io_ok {} (io st)" "length (loglist st) = LOG_MAXLOGS"
proof -
  show "log_inv (hide (busy p) st)" using assms by (simp add: sys_inv_def)
  then show "length (loglist st) = LOG_MAXLOGS" by (auto simp: log_inv_def logs_inv_def)
  show "opens_slot (p t) = Some i \<Longrightarrow> opens_slot (p u) = Some i \<Longrightarrow> t = u" using assms unfolding sys_inv_def by blast
qed (use assms in \<open>auto simp: sys_inv_def\<close>)

lemma sys_inv_move:
  assumes inv: "sys_inv st mu p" and tab: "log_inv (hide (busy (p(t := c))) st')"
    and m: "holds c \<longleftrightarrow> mu' = Some t" "\<And>u. u \<noteq> t \<Longrightarrow> mu' = Some u \<longleftrightarrow> mu = Some u"
    and cl: "\<And>u. u \<noteq> t \<Longrightarrow> \<not> clash (pc_use c) (pc_use (p u))"
    and ok: "pc_ok st' c" "named (busy (p(t := c))) st' c"
    and others: "\<And>u. u \<noteq> t \<Longrightarrow> pc_ok st' (p u) \<and> named (busy (p(t := c))) st' (p u)"
    and slot: "\<And>u i. u \<noteq> t \<Longrightarrow> opens_slot c = Some i \<Longrightarrow> opens_slot (p u) \<noteq> Some i"
    and str: "one_holder (closed_by {} (io st')) (held st' (p(t := c)))" "io_ok {} (io st')"
  shows "sys_inv st' mu' (p(t := c))"
proof -
  have "\<not> clash (pc_use ((p(t := c)) v)) (pc_use ((p(t := c)) u))" if "v \<noteq> u" for v u
    using that cl [of u] cl [of v] clash_sym [of "pc_use (p v)" "pc_use c"] sys_invD(3) [OF inv, of v u]
    by (cases "v = t"; cases "u = t") auto
  moreover have "v = u" if "opens_slot ((p(t := c)) v) = Some i" "opens_slot ((p(t := c)) u) = Some i" for v u i
    using that slot [of v i] slot [of u i] sys_invD(6) [OF inv, of v i u] by (cases "v = t"; cases "u = t") auto
  moreover have "holds ((p(t := c)) v) \<longleftrightarrow> mu' = Some v" for v
    using m sys_invD(2) [OF inv, of v] by (cases "v = t") auto
  moreover have "pc_ok st' ((p(t := c)) v) \<and> named (busy (p(t := c))) st' ((p(t := c)) v)" for v
    using ok others [of v] by (cases "v = t") auto
  ultimately show ?thesis using tab str unfolding sys_inv_def by blast
qed

lemma busy_keep: "opens_slot c = opens_slot (p t) \<Longrightarrow> busy (p(t := c)) = busy p"
  unfolding busy_def by (auto split: if_splits)

lemma held_keep: "(\<And>j. logfile (loglist st' ! j) = logfile (loglist st ! j)) \<Longrightarrow> pc_stream c = pc_stream (p t) \<Longrightarrow> held st' (p(t := c)) = held st p"
  by (rule ext) (auto simp: held_def split: sum.splits)

lemma log_at_other: "0 \<le> i \<Longrightarrow> good_id j \<Longrightarrow> j \<noteq> i \<Longrightarrow> (\<And>k. k \<noteq> nat i \<Longrightarrow> loglist st' ! k = loglist st ! k) \<Longrightarrow> log_at st' j = log_at st j"
  by (auto simp: log_at_def good_id_nat eq_nat_nat_iff)

lemma others_keep:
  assumes "pc_ok st c" "named B st c" and same: "\<And>j. j \<noteq> nat i \<Longrightarrow> loglist st' ! j = loglist st ! j" "0 \<le> i"
    and o: "opens_slot c \<noteq> Some i"
    and use: "use_id (pc_use c) = Some i \<Longrightarrow> in_use (log_at st' i) \<and> (filename (log_at st i) \<noteq> F_null \<longrightarrow> filename (log_at st' i) \<noteq> F_null) \<and>
      (logfile (log_at st' i) = logfile (log_at st i) \<or> pc_use c \<noteq> Use_reopen i \<and> pc_use c \<noteq> Use_direct i)"
    and tr: "pc_use c = Use_open_file \<Longrightarrow> tails_reset st \<Longrightarrow> tails_reset st'"
    and B: "\<And>j. use_id (pc_use c) = Some j \<Longrightarrow> j \<in> B' \<Longrightarrow> j \<in> B"
  shows "pc_ok st' c \<and> named B' st' c"
proof
  have at: "log_at st' j = log_at st j" if "good_id j" "j \<noteq> i" for j
    using log_at_other [OF same(2) that same(1)] .
  show "named B' st' c"
    unfolding named_def
  proof (intro allI impI)
    fix j assume j: "use_id (pc_use c) = Some j"
    then show "good_id j \<and> in_use (log_at st' j) \<and> j \<notin> B'"
      using assms(2) use B [OF j] at [of j] by (cases "j = i") (auto simp: named_def)
  qed
  have g: "good_id j" if "use_id (pc_use c) = Some j" for j using assms(2) that by (simp add: named_def)
  have sec: "section_ok st' s" if "section_ok st s" "pc_use c = section_use s" for s
  proof (cases s)
    case (S_reopen j)
    then show ?thesis using that use at [of j] g [of j] by (cases "j = i") auto
  qed (use that tr in auto)
  have "pc_ok st d \<Longrightarrow> pc_use c = pc_use d \<Longrightarrow> opens_slot c = opens_slot d \<Longrightarrow> pc_ok st' d" for d
  proof (induction d)
    case (Filling j f name)
    then show ?case using at [of j] o by auto
  next
    case (Naming j n)
    then show ?case using at [of j] o by auto
  next
    case (Flushing j h)
    then show ?case using at [of j] g [of j] use by (cases "j = i") auto
  qed (use sec in auto)
  then show "pc_ok st' c" using assms(1) by blast
qed

section \<open>Every step keeps the invariant\<close>

lemma io_only [simp]:
  "log_at (st\<lparr>io := e\<rparr>) i = log_at st i" "tails_reset (st\<lparr>io := e\<rparr>) = tails_reset st" "hide B (st\<lparr>io := e\<rparr>) = (hide B st)\<lparr>io := e\<rparr>"
  "held (st\<lparr>io := e\<rparr>) p = held st p" "named B (st\<lparr>io := e\<rparr>) c = named B st c"
  by (auto simp: log_at_def tails_reset_def hide_def held_def named_def fun_eq_iff split: sum.splits)

lemma pc_ok_io [simp]: "pc_ok (st\<lparr>io := e\<rparr>) c = pc_ok st c"
proof -
  have "section_ok (st\<lparr>io := e\<rparr>) s = section_ok st s" for s by (cases s) simp_all
  then show ?thesis by (induction c) simp_all
qed

lemma log_inv_io [simp]: "log_inv (st\<lparr>io := e\<rparr>) = log_inv st"
  by (simp add: log_inv_def)

lemma held_upd: "pc_stream c = b \<Longrightarrow> held st (p(t := c)) = (held st p)(Inr t := b)"
  by (rule ext) (auto simp: held_def split: sum.splits)

lemma inv_quiet:
  assumes inv: "sys_inv st mu p" and slot: "opens_slot c = opens_slot (p t)"
    and m: "holds c \<longleftrightarrow> mu' = Some t" "\<And>u. u \<noteq> t \<Longrightarrow> mu' = Some u \<longleftrightarrow> mu = Some u"
    and cl: "\<And>u. u \<noteq> t \<Longrightarrow> \<not> clash (pc_use c) (pc_use (p u))" and ok: "pc_ok st c" "named (busy p) st c"
    and s: "stream_step (pc_stream (p t)) (pc_stream c) N (closed_by {} (io st)) ev"
    and N: "\<And>g x. N = Some g \<Longrightarrow> x \<noteq> Inr t \<Longrightarrow> held st p x \<noteq> Some g"
  shows "sys_inv (st\<lparr>io := io st @ ev\<rparr>) mu' (p(t := c))"
proof (rule sys_inv_move [OF inv _ m cl])
  have b: "busy (p(t := c)) = busy p" using slot by (rule busy_keep)
  show "log_inv (hide (busy (p(t := c))) (st\<lparr>io := io st @ ev\<rparr>))" using sys_invD(1) [OF inv] b by simp
  show "pc_ok (st\<lparr>io := io st @ ev\<rparr>) c" "named (busy (p(t := c))) (st\<lparr>io := io st @ ev\<rparr>) c" using ok b by simp_all
  show "pc_ok (st\<lparr>io := io st @ ev\<rparr>) (p u) \<and> named (busy (p(t := c))) (st\<lparr>io := io st @ ev\<rparr>) (p u)" for u
    using sys_invD(4,5) [OF inv] b by simp
  show "opens_slot (p u) \<noteq> Some i" if "u \<noteq> t" "opens_slot c = Some i" for u i
    using that slot sys_invD(6) [OF inv, of t i u] by auto
  have "held st p (Inr t) = pc_stream (p t)" by (simp add: held_def)
  then show "one_holder (closed_by {} (io (st\<lparr>io := io st @ ev\<rparr>))) (held (st\<lparr>io := io st @ ev\<rparr>) (p(t := c)))"
    using one_holder_step [OF sys_invD(7) [OF inv], of "Inr t" "pc_stream c" N ev] s N
    by (simp add: closed_by_append held_upd [OF refl])
  show "io_ok {} (io (st\<lparr>io := io st @ ev\<rparr>))" using sys_invD(8) [OF inv] s by (simp add: io_ok_append stream_step_def)
qed

lemma held_live: "sys_inv st mu p \<Longrightarrow> held st p x = Some f \<Longrightarrow> f \<notin> closed_by {} (io st)"
  using sys_invD(7) by (auto simp: one_holder_def)

lemma log_live: "sys_inv st mu p \<Longrightarrow> good_id i \<Longrightarrow> logfile (log_at st i) = Some f \<Longrightarrow> f \<notin> closed_by {} (io st)"
  using held_live [of st mu p "Inl (nat i)" f] by (simp add: held_def good_id_nat log_at_def)

lemma pc_live: "sys_inv st mu p \<Longrightarrow> pc_stream (p t) = Some f \<Longrightarrow> f \<notin> closed_by {} (io st)"
  using held_live [of st mu p "Inr t" f] by (simp add: held_def)

lemma inv_lock:
  assumes inv: "sys_inv st None p" and t: "p t = Locking s"
  shows "sys_inv st (Some t) (p(t := Holding s))"
proof -
  have "sys_inv (st\<lparr>io := io st @ []\<rparr>) (Some t) (p(t := Holding s))"
    by (rule inv_quiet [OF inv, where N = None])
      (use t sys_invD(3,4,5) [OF inv, of t] pc_live [OF inv, of t] in \<open>auto simp: named_def intro!: stream_step_refl(1)\<close>)
  then show ?thesis by simp
qed

lemma inv_unlock:
  assumes inv: "sys_inv st mu p" and t: "p t = Unlocking c"
  shows "sys_inv st None (p(t := c))"
proof -
  have mu: "mu = Some t" using sys_invD(2) [OF inv, of t] t by simp
  have "sys_inv (st\<lparr>io := io st @ []\<rparr>) None (p(t := c))"
    by (rule inv_quiet [OF inv, where N = None])
      (use mu t sys_invD(3,4,5) [OF inv, of t] pc_live [OF inv, of t] rank_holds in \<open>auto simp: named_def intro!: stream_step_refl(1)\<close>)
  then show ?thesis by simp
qed

lemma inv_fetch:
  assumes inv: "sys_inv st mu p" and t: "p t = Fetching i"
  shows "sys_inv st mu (p(t := direct_fetch i st))"
proof -
  have mu: "mu \<noteq> Some t" using sys_invD(2) [OF inv, of t] t by simp
  have "sys_inv (st\<lparr>io := io st @ []\<rparr>) mu (p(t := direct_fetch i st))"
    by (rule inv_quiet [OF inv, where N = None])
      (use mu t sys_invD(3,4,5) [OF inv, of t] in \<open>auto simp: direct_fetch_def named_def intro!: stream_step_refl(1)\<close>)
  then show ?thesis by simp
qed

lemma inv_flush:
  assumes inv: "sys_inv st mu p" and t: "p t = Flushing i g"
  shows "sys_inv (direct_flush g st) mu (p(t := Outside r))"
proof -
  have mu: "mu \<noteq> Some t" using sys_invD(2) [OF inv, of t] t by simp
  have "good_id i" "g = logfile (log_at st i)" using sys_invD(4,5) [OF inv, of t] t by (auto simp: named_def)
  then have g: "f \<notin> closed_by {} (io st)" if "g = Some f" for f using log_live [OF inv] that by metis
  show ?thesis unfolding direct_flush_def
    by (rule inv_quiet [OF inv, where N = None]) (use mu t g in \<open>cases g; auto simp: named_def stream_step_def\<close>)+
qed

text \<open>A step of the thread \<open>t\<close> that changes the log \<open>i\<close>, in a call of kind \<open>w\<close>.\<close>

lemma inv_part:
  assumes inv: "sys_inv st mu p" and i: "use_id w = Some i" and part: "part_ok (busy p) N i w st st'"
    and n: "good_id i" "i \<notin> busy p"
    and t: "opens_slot (p t) = None" "pc_stream (p t) = None" and c: "opens_slot c = None" "pc_stream c = None" "holds c = holds (p t)"
    and ok: "pc_ok st' c" "named (busy p) st' c"
    and N: "\<And>g u. N = Some g \<Longrightarrow> pc_stream (p u) \<noteq> Some g"
      "\<And>g j. N = Some g \<Longrightarrow> j < LOG_MAXLOGS \<Longrightarrow> logfile (loglist st ! j) = Some g \<Longrightarrow> moves_stream w (int j)"
    and cl: "\<And>u. u \<noteq> t \<Longrightarrow> \<not> clash w (pc_use (p u))" "\<And>u. u \<noteq> t \<Longrightarrow> \<not> clash (pc_use c) (pc_use (p u))"
  shows "sys_inv st' mu (p(t := c))"
proof -
  have b: "busy (p(t := c)) = busy p" using c t by (intro busy_keep) auto
  have same: "\<And>j. j \<noteq> nat i \<Longrightarrow> loglist st' ! j = loglist st ! j" and i0: "0 \<le> i"
    using part n by (auto simp: part_ok_def good_id_nat)
  obtain ev where ev: "io st' = io st @ ev" "stream_step (logfile (log_at st i)) (logfile (log_at st' i)) N (closed_by {} (io st)) ev"
    using part by (auto simp: part_ok_def)
  have H: "held st p (Inl (nat i)) = logfile (log_at st i)" "held st' (p(t := c)) = (held st p)(Inl (nat i) := logfile (log_at st' i))"
    using n(1) same c t by (auto simp: held_def log_at_def good_id_nat fun_eq_iff split: sum.splits)
  have fresh: "held st p x \<noteq> Some g" if "N = Some g" "x \<noteq> Inl (nat i)" for g x
  proof (cases x)
    case (Inl j)
    then have "j \<noteq> nat i" using that by simp
    then have "\<not> moves_stream w (int j)" using i i0 by (auto simp: moves_stream_def)
    then show ?thesis using N(2) [OF that(1)] Inl by (auto simp: held_def)
  qed (use N(1) that in \<open>simp add: held_def\<close>)
  have in_use': "in_use (log_at st' i) \<and> (filename (log_at st i) \<noteq> F_null \<longrightarrow> filename (log_at st' i) \<noteq> F_null)"
    if "w \<noteq> Use_close i" using part that by (simp add: part_ok_def)
  show ?thesis
  proof (rule sys_inv_move [OF inv])
    show "log_inv (hide (busy (p(t := c))) st')" using part b by (simp add: part_ok_def)
    show "holds c \<longleftrightarrow> mu = Some t" using c(3) sys_invD(2) [OF inv, of t] by simp
    show "named (busy (p(t := c))) st' c" using ok b by simp
    show "one_holder (closed_by {} (io st')) (held st' (p(t := c)))"
      unfolding H(2) ev(1) closed_by_append
      by (rule one_holder_step [OF sys_invD(7) [OF inv]]) (use ev(2) fresh H(1) in auto)
    show "io_ok {} (io st')" using ev sys_invD(8) [OF inv] by (simp add: io_ok_append stream_step_def)
    show "pc_ok st' (p u) \<and> named (busy (p(t := c))) st' (p u)" if u: "u \<noteq> t" for u
      unfolding b
    proof (rule others_keep [OF sys_invD(4,5) [OF inv] same i0])
      show "opens_slot (p u) \<noteq> Some i" using n(2) by (auto simp: busy_def)
      show "in_use (log_at st' i) \<and> (filename (log_at st i) \<noteq> F_null \<longrightarrow> filename (log_at st' i) \<noteq> F_null) \<and>
        (logfile (log_at st' i) = logfile (log_at st i) \<or> pc_use (p u) \<noteq> Use_reopen i \<and> pc_use (p u) \<noteq> Use_direct i)"
        if "use_id (pc_use (p u)) = Some i"
      proof -
        have "w \<noteq> Use_close i" using cl(1) [OF u] that by (auto simp: clash_def excludes_def)
        moreover have "pc_use (p u) \<noteq> Use_reopen i \<and> pc_use (p u) \<noteq> Use_direct i" if "moves_stream w i"
          using cl(1) [OF u] that by (auto simp: clash_def excludes_def)
        ultimately show ?thesis using in_use' part by (auto simp: part_ok_def)
      qed
      show "tails_reset st'" if "pc_use (p u) = Use_open_file" "tails_reset st"
      proof -
        have "w \<noteq> Use_close i" using cl(1) [OF u] that(1) by (auto simp: clash_def excludes_def)
        then have "in_use (loglist st' ! nat i)" using in_use' by (simp add: log_at_def)
        then show ?thesis using that(2) same unfolding tails_reset_def by metis
      qed
    qed simp_all
  qed (use c ok cl in auto)
qed

lemma part_move:
  assumes inv: "sys_inv st mu p" and t: "p t = Holding s" and i: "use_id (section_use s) = Some i"
    and part: "part_ok (busy p) N i (section_use s) st st'"
    and N: "\<And>g u. N = Some g \<Longrightarrow> pc_stream (p u) \<noteq> Some g"
      "\<And>g j. N = Some g \<Longrightarrow> j < LOG_MAXLOGS \<Longrightarrow> logfile (loglist st ! j) = Some g \<Longrightarrow> moves_stream (section_use s) (int j)"
    and c: "(\<exists>r. c = Outside r) \<or> c = Fetching i \<and> section_use s = Use_direct i"
  shows "sys_inv st' mu (p(t := Unlocking c))"
proof (rule inv_part [OF inv i part])
  have n: "good_id i" "in_use (log_at st i)" "i \<notin> busy p" using sys_invD(5) [OF inv, of t] t i by (auto simp: named_def)
  show "good_id i" "i \<notin> busy p" using n by auto
  show "named (busy p) st' (Unlocking c)"
    using c
  proof
    assume d: "c = Fetching i \<and> section_use s = Use_direct i"
    then have "in_use (log_at st' i)" using part by (simp add: part_ok_def)
    then show ?thesis using d n(1,3) by (simp add: named_def)
  qed (auto simp: named_def)
  show "\<not> clash (section_use s) (pc_use (p u))" "\<not> clash (pc_use (Unlocking c)) (pc_use (p u))" if "u \<noteq> t" for u
    using sys_invD(3) [OF inv, of t u] that c t by auto
  show "pc_stream (p t) = None" using i t by (cases s) (auto split: if_splits)
qed (use N c t in auto)

lemma busy_iff: "i \<in> busy p \<longleftrightarrow> opens_slot (p t) = Some i \<or> (\<exists>u. u \<noteq> t \<and> opens_slot (p u) = Some i)"
  "i \<in> busy (p(t := c)) \<longleftrightarrow> opens_slot c = Some i \<or> (\<exists>u. u \<noteq> t \<and> opens_slot (p u) = Some i)"
  by (auto simp: busy_def)

lemma get_id_cases:
  assumes "log_inv (hide B st)" "\<And>i. i \<in> B \<Longrightarrow> good_id i \<and> in_use (log_at st i)"
  obtains "get_log_id st = (-1, st)"
  | i where "get_log_id st = (int i, set_log_heap (int i) ((loglist st ! i)\<lparr>in_use := True\<rparr>) (eheap st) [] st)" "i < LOG_MAXLOGS"
      "\<not> in_use (loglist st ! i)" "logfile (loglist st ! i) = None" "int i \<notin> B"
proof (cases "free_slot (loglist st) 0")
  case None
  then show ?thesis using that(1) by (simp add: get_log_id_def)
next
  case (Some i)
  obtain ass where a: "logs_inv (hide B st) ass" using assms(1) by (auto simp: log_inv_def)
  then have len: "length (loglist st) = LOG_MAXLOGS" by (simp add: logs_inv_def)
  have i: "i < LOG_MAXLOGS" "\<not> in_use (loglist st ! i)" using free_slot_Some [OF Some] len by auto
  then have B: "int i \<notin> B" using assms(2) [of "int i"] by (auto simp: log_at_def)
  have "logfile (loglist st ! i) = None"
    using logs_invD(1) [OF a i(1)] i B len by (simp add: log_ok_def hide_nth)
  then show ?thesis using that(2) [OF _ i _ B] Some by (simp add: get_log_id_def set_log_heap_io log_at_def)
qed

lemma busy_good: "sys_inv st mu p \<Longrightarrow> i \<in> busy p \<Longrightarrow> good_id i \<and> in_use (log_at st i)"
proof -
  assume inv: "sys_inv st mu p" and "i \<in> busy p"
  then obtain t where t: "opens_slot (p t) = Some i" by (auto simp: busy_def)
  have "pc_ok st c \<Longrightarrow> opens_slot c = Some i \<Longrightarrow> good_id i \<and> in_use (log_at st i)" for c by (induction c) auto
  then show ?thesis using sys_invD(4) [OF inv] t by blast
qed

lemma inv_get_id:
  assumes inv: "sys_inv st mu p" and t: "p t = Holding (S_get_id f name)" and r: "log_body env (S_get_id f name) st = Some (c, st')"
  shows "sys_inv st' mu (p(t := Unlocking c))"
proof -
  have mu: "mu = Some t" using sys_invD(2) [OF inv, of t] t by simp
  note len = sys_invD(9) [OF inv]
  show ?thesis
  proof (rule get_id_cases [OF sys_invD(1) [OF inv] busy_good [OF inv]])
    assume "get_log_id st = (-1, st)"
    then have e: "c = Outside LOG_ENOMORELOGS" "st' = st\<lparr>io := io st @ []\<rparr>" using r by auto
    show ?thesis unfolding e(2)
      by (rule inv_quiet [OF inv, where N = None]) (use e mu t in \<open>auto simp: named_def intro: stream_step_refl(3)\<close>)
  next
    fix i
    let ?l = "(loglist st ! i)\<lparr>in_use := True\<rparr>"
    assume i: "get_log_id st = (int i, set_log_heap (int i) ?l (eheap st) [] st)" "i < LOG_MAXLOGS"
      "\<not> in_use (loglist st ! i)" "logfile (loglist st ! i) = None" "int i \<notin> busy p"
    have e: "c = Filling (int i) f name" "st' = set_log_heap (int i) ?l (eheap st) [] st" using r i(1) by auto
    have b: "busy (p(t := Unlocking c)) = insert (int i) (busy p)" 
      using t e(1) by (auto simp: set_eq_iff busy_iff(2) busy_iff(1) [where t = t])
    have st': "loglist st' = (loglist st)[i := ?l]" "io st' = io st" "eheap st' = eheap st"
      by (simp_all add: e(2) set_log_heap_def)
    have same: "\<And>j. j \<noteq> nat (int i) \<Longrightarrow> loglist st' ! j = loglist st ! j" by (simp add: st')
    have at: "log_at st' (int i) = ?l" using i(2) len by (simp add: log_at_def st')
    have "hide (insert (int i) (busy p)) st' = hide (busy p) st"
    proof -
      have "hide (insert (int i) (busy p)) st' = set_log_heap (int i) (hide_log ?l) (eheap st) [] (hide (busy p) st)"
        unfolding e(2) by (subst hide_set [where B = "busy p"]) auto
      also have "hide_log ?l = loglist (hide (busy p) st) ! i"
        using i len by (cases "loglist st ! i") (simp add: hide_log_def hide_nth)
      finally show ?thesis by (simp add: set_log_heap_def)
    qed
    then have tab: "log_inv (hide (busy (p(t := Unlocking c))) st')" using sys_invD(1) [OF inv] b by simp
    have H: "held st' (p(t := Unlocking c)) = held st p"
      using i t e(1) len by (auto simp: held_def st' fun_eq_iff nth_list_update split: sum.splits)
    have tails: "tails_reset st'" if "tails_reset st" using that i(2,3) len by (auto simp: tails_reset_def st' nth_list_update)
    show ?thesis
    proof (rule sys_inv_move [OF inv tab])
      show "holds (Unlocking c) \<longleftrightarrow> mu = Some t" using mu by simp
      show "pc_ok st' (Unlocking c)"
        using sys_invD(4) [OF inv, of t] t i e(1) at by (auto simp: good_id_def tails_reset_def)
      show "one_holder (closed_by {} (io st')) (held st' (p(t := Unlocking c)))" "io_ok {} (io st')"
        using sys_invD(7,8) [OF inv] H st'(2) by simp_all
      show "opens_slot (p u) \<noteq> Some j" if "u \<noteq> t" "opens_slot (Unlocking c) = Some j" for u j
        using that e(1) i(5) by (auto simp: busy_def)
      show "pc_ok st' (p u) \<and> named (busy (p(t := Unlocking c))) st' (p u)" if u: "u \<noteq> t" for u
        unfolding b
      proof (rule others_keep [OF sys_invD(4,5) [OF inv] same])
        have no: "use_id (pc_use (p u)) \<noteq> Some (int i)" using sys_invD(5) [OF inv, of u] i(3) by (auto simp: named_def log_at_def)
        show "opens_slot (p u) \<noteq> Some (int i)" using i(5) by (auto simp: busy_def)
        show "j \<in> busy p" if "use_id (pc_use (p u)) = Some j" "j \<in> insert (int i) (busy p)" for j using that no by auto
        show "in_use (log_at st' (int i)) \<and> (filename (log_at st (int i)) \<noteq> F_null \<longrightarrow> filename (log_at st' (int i)) \<noteq> F_null) \<and>
          (logfile (log_at st' (int i)) = logfile (log_at st (int i)) \<or> pc_use (p u) \<noteq> Use_reopen (int i) \<and> pc_use (p u) \<noteq> Use_direct (int i))"
          if "use_id (pc_use (p u)) = Some (int i)" using that no by simp
      qed (use tails in auto)
    qed (use e(1) in \<open>auto simp: named_def\<close>)
  qed
qed

text \<open>Setting the fields of a new log: the slot \<open>i\<close> that a thread has opened gets the contents \<open>l\<close>; afterwards it is open, or not yet.\<close>

lemma inv_slot:
  assumes inv: "sys_inv st mu p" and t: "opens_slot (p t) = Some i" "holds (p t) \<longleftrightarrow> holds c" and c: "pc_use c = Use_none" "pc_stream c = None"
    and l: "in_use l" and st': "st' = set_log i l st" and pc: "pc_ok st' c"
    and ok: "opens_slot c = None \<and> (\<forall>as. log_ok (hide_log (log_at st i)) (eheap st) as \<longrightarrow> log_ok l (eheap st) as) \<or>
      opens_slot c = Some i \<and> (\<forall>as. log_ok (hide_log (log_at st i)) (eheap st) as \<longrightarrow> log_ok (hide_log l) (eheap st) as)"
    and str: "pc_stream (p t) = None \<and> logfile l = logfile (log_at st i) \<or> (\<exists>f. pc_stream (p t) = Some f \<and> logfile l = Some f)"
  shows "sys_inv st' mu (p(t := c))"
proof -
  note len = sys_invD(9) [OF inv]
  have i: "good_id i" "in_use (log_at st i)" "i \<in> busy p" using busy_good [OF inv, of i] t(1) by (auto simp: busy_def)
  then have i0: "0 \<le> i" "nat i < LOG_MAXLOGS" by (auto simp: good_id_nat)
  define B' where "B' = busy (p(t := c))"
  have b: "j \<in> B' \<longleftrightarrow> j \<in> busy p" if "j \<noteq> i" for j
    using that t(1) ok by (auto simp: B'_def busy_iff(2) busy_iff(1) [where t = t])
  have iB: "i \<in> B' \<longleftrightarrow> opens_slot c = Some i"
    using sys_invD(6) [OF inv t(1)] by (auto simp: B'_def busy_iff(2))
  have e: "st' = set_log_heap i l (eheap st) [] st" unfolding st' by (rule set_log_heap_io)
  have same: "\<And>j. j \<noteq> nat i \<Longrightarrow> loglist st' ! j = loglist st ! j" by (simp add: e set_log_heap_def)
  have at: "log_at st' i = l" using i0 len by (simp add: log_at_def e set_log_heap_def)
  obtain ass where a: "logs_inv (hide (busy p) st) ass" using sys_invD(1) [OF inv] by (auto simp: log_inv_def)
  have "log_ok (hide_log (log_at st i)) (eheap st) (ass ! nat i)"
    using logs_invD(1) [OF a i0(2)] i(3) i0 len by (simp add: hide_nth log_at_def)
  then have "log_ok (if i \<in> B' then hide_log l else l) (eheap (hide (busy p) st)) (ass ! nat i)" using ok iB by auto
  from set_log_keeps(2) [OF a i(1) this, of "[]"] have tab: "log_inv (hide B' st')"
    unfolding e using hide_set [of i B' "busy p" l "eheap st" "[]" st] i0 b by (auto simp: log_inv_def simp del: split_paired_Ex)
  have str': "one_holder (closed_by {} (io st')) (held st' (p(t := c)))"
  proof -
    have io: "io st' = io st" by (simp add: e set_log_heap_def)
    have logs: "held st' (p(t := c)) = (held st p)(Inr t := None, Inl (nat i) := logfile l)"
      using at same i0 c by (auto simp: held_def log_at_def fun_eq_iff split: sum.splits)
    from str show ?thesis
    proof
      assume s: "pc_stream (p t) = None \<and> logfile l = logfile (log_at st i)"
      then have "held st' (p(t := c)) = held st p"
        unfolding logs using i0 by (auto simp: held_def log_at_def fun_eq_iff split: sum.splits)
      then show ?thesis using sys_invD(7) [OF inv] io by simp
    next
      assume "\<exists>f. pc_stream (p t) = Some f \<and> logfile l = Some f"
      then obtain f where "pc_stream (p t) = Some f" "logfile l = Some f" by blast
      then show ?thesis unfolding io logs using one_holder_give [OF sys_invD(7) [OF inv], of "Inr t" f "Inl (nat i)"]
        by (simp add: held_def)
    qed
  qed
  show ?thesis
  proof (rule sys_inv_move [OF inv])
    show "log_inv (hide (busy (p(t := c))) st')" using tab by (simp add: B'_def)
    show "holds c \<longleftrightarrow> mu = Some t" using t(2) sys_invD(2) [OF inv, of t] by simp
    show "io_ok {} (io st')" using sys_invD(8) [OF inv] by (simp add: e set_log_heap_def)
    show "opens_slot (p u) \<noteq> Some j" if "u \<noteq> t" "opens_slot c = Some j" for u j
      using that ok sys_invD(6) [OF inv t(1), of u] by auto
    show "pc_ok st' (p u) \<and> named (busy (p(t := c))) st' (p u)" if u: "u \<noteq> t" for u
      unfolding B'_def [symmetric]
    proof (rule others_keep [OF sys_invD(4,5) [OF inv] same i0(1)])
      have no: "use_id (pc_use (p u)) \<noteq> Some i" using sys_invD(5) [OF inv, of u] i(3) by (auto simp: named_def)
      show "opens_slot (p u) \<noteq> Some i" using sys_invD(6) [OF inv t(1), of u] u by auto
      show "j \<in> busy p" if "use_id (pc_use (p u)) = Some j" "j \<in> B'" for j using that no b by (cases "j = i") auto
      show "in_use (log_at st' i) \<and> (filename (log_at st i) \<noteq> F_null \<longrightarrow> filename (log_at st' i) \<noteq> F_null) \<and>
        (logfile (log_at st' i) = logfile (log_at st i) \<or> pc_use (p u) \<noteq> Use_reopen i \<and> pc_use (p u) \<noteq> Use_direct i)"
        if "use_id (pc_use (p u)) = Some i" using that no by simp
      show "tails_reset st'" if "tails_reset st"
      proof -
        have "in_use (loglist st' ! nat i)" using at l by (simp add: log_at_def)
        then show ?thesis using that same unfolding tails_reset_def by metis
      qed
    qed simp_all
  qed (use c pc str' in \<open>simp_all add: named_def\<close>)
qed

section \<open>Steps of a thread\<close>

lemma part_pre_holding:
  assumes "sys_inv st mu p" "use_id (pc_use (p t)) = Some i"
  shows "part_pre (busy p) i st"
  using assms sys_invD(1,5) [OF assms(1)] log_live [OF assms(1)] by (auto simp: named_def part_pre_def)

lemma body_ok:
  assumes inv: "sys_inv st mu p" and t: "p t = Holding s" and env: "env_fits \<lparr>base = st, mutex = mu, pcs = p\<rparr> t env"
  shows "\<exists>c st'. log_body env s st = Some (c, st') \<and> sys_inv st' mu (p(t := Unlocking c))"
proof (cases "\<exists>f name. s = S_get_id f name")
  case True
  then obtain f name where s: "s = S_get_id f name" by blast
  obtain c st' where "log_body env s st = Some (c, st')" using s by (cases "get_log_id st") auto
  then show ?thesis using inv_get_id [OF inv] t s by auto
next
  case False
  then obtain i where i: "use_id (section_use s) = Some i" by (cases s) auto
  have pre: "part_pre (busy p) i st" using part_pre_holding [OF inv, of t i] t i by simp
  have sec: "section_ok st s" using sys_invD(4) [OF inv, of t] t by simp
  have e: "env_ok env st" using env by (simp add: env_fits_def)
  have N: "\<And>g u. fopen_res env = Some g \<Longrightarrow> pc_stream (p u) \<noteq> Some g"
    "\<And>g j. fopen_res env = Some g \<Longrightarrow> j < LOG_MAXLOGS \<Longrightarrow> logfile (loglist st ! j) = Some g \<Longrightarrow> moves_stream (section_use s) (int j)"
    using env t by (auto simp: env_fits_def)
  have *: "\<exists>c st'. log_body env s st = Some (c, st') \<and> part_ok (busy p) (fopen_res env) i (section_use s) st st' \<and>
      ((\<exists>r. c = Outside r) \<or> c = Fetching i \<and> section_use s = Use_direct i)"
  proof (cases s)
    case (S_filename j name)
    then obtain n where "name = Some n" using sec by auto
    from part_filename [OF pre this, of "fopen_res env"] show ?thesis using S_filename i by auto
  next
    case (S_archive j v)
    then show ?thesis using part_archive [OF pre] i by simp
  next
    case (S_lines_kept j count)
    then show ?thesis using part_lines_kept [OF pre, of count "fopen_res env"] sec i by auto
  next
    case (S_flush j)
    then show ?thesis using part_flush [OF pre] i by simp
  next
    case (S_reopen j)
    then show ?thesis using part_reopen [OF pre, of "fopen_res env"] sec i by auto
  next
    case (S_close j)
    then show ?thesis using part_close [OF pre, of "fopen_res env"] i by auto
  next
    case (S_write j pr line)
    have "moves_stream (Use_write i) i" by (simp add: moves_stream_def)
    from part_put [OF pre e _ this, of pr line] show ?thesis using S_write sec i by auto
  next
    case (S_direct j fmt ap)
    obtain line where l: "log_vsnprintf (ptr_text env) LOG_MAXLINELEN fmt ap = Some line" using sec S_direct by auto
    have "moves_stream (Use_direct i) i" "length [] + length line + 2 < 2 ^ 31"
      using log_vsnprintf_length [OF l] by (simp_all add: moves_stream_def LOG_MAXLINELEN_def)
    from part_put [OF pre e this(2,1)] show ?thesis using S_direct l i by (auto simp: write_direct_body_def)
  qed (use False in auto)
  from * obtain c st' where d: "log_body env s st = Some (c, st')" "part_ok (busy p) (fopen_res env) i (section_use s) st st'"
    "(\<exists>r. c = Outside r) \<or> c = Fetching i \<and> section_use s = Use_direct i" by blast
  have "sys_inv st' mu (p(t := Unlocking c))" by (rule part_move [OF inv t i d(2) _ _ d(3)]) (use N in blast)+
  then show ?thesis using d(1) by blast
qed

lemma set_log_at: "good_id i \<Longrightarrow> length (loglist st) = LOG_MAXLOGS \<Longrightarrow> log_at (set_log i l st) i = l"
  by (simp add: log_at_def set_log_def good_id_nat)

lemma inv_fill:
  assumes inv: "sys_inv st mu p" and t: "p t = Filling i f name"
  shows "sys_inv (open_file_fill i f st) mu (p(t := (case name of None \<Rightarrow> Outside i | Some n \<Rightarrow> Naming i n)))"
proof -
  have o: "good_id i" "in_use (log_at st i)" "name = None \<longrightarrow> log_tail (log_at st i) = Tail_head"
    using sys_invD(4) [OF inv, of t] t by auto
  let ?l = "(log_at st i)\<lparr>logfile := Some f, filename := F_null, fsize := 0\<rparr>"
  show ?thesis
  proof (rule inv_slot [OF inv, of t i, where l = ?l])
    show "open_file_fill i f st = set_log i ?l st" by (simp add: open_file_fill_def)
    show "pc_ok (open_file_fill i f st) (case name of None \<Rightarrow> Outside i | Some n \<Rightarrow> Naming i n)"
      using o set_log_at [OF o(1) sys_invD(9) [OF inv]] by (auto simp: open_file_fill_def split: option.splits)
    have "log_ok ?l h as" if "log_ok (hide_log (log_at st i)) h as" "log_tail (log_at st i) = Tail_head" for h as
      using that o(2) by (auto simp: log_ok_def hide_log_def ring_def ring0_def tail_ok_def)
    moreover have "log_ok (hide_log ?l) h as" if "log_ok (hide_log (log_at st i)) h as" for h as
      using that by (auto simp: log_ok_def hide_log_def ring_def ring0_def)
    ultimately show "opens_slot (case name of None \<Rightarrow> Outside i | Some n \<Rightarrow> Naming i n) = None \<and>
        (\<forall>as. log_ok (hide_log (log_at st i)) (eheap st) as \<longrightarrow> log_ok ?l (eheap st) as) \<or>
      opens_slot (case name of None \<Rightarrow> Outside i | Some n \<Rightarrow> Naming i n) = Some i \<and>
        (\<forall>as. log_ok (hide_log (log_at st i)) (eheap st) as \<longrightarrow> log_ok (hide_log ?l) (eheap st) as)"
      using o(3) by (cases name) auto
  qed (use t o in \<open>auto split: option.splits\<close>)
qed

lemma inv_name:
  assumes inv: "sys_inv st mu p" and t: "p t = Naming i n"
  shows "sys_inv (open_fill env i n st) mu (p(t := Outside r))"
proof -
  have o: "good_id i" "in_use (log_at st i)" "logfile (log_at st i) \<noteq> None"
    using sys_invD(4) [OF inv, of t] t by auto
  let ?l = "(log_at st i)\<lparr>filename := F_str n, fsize := (case stat_res env of Some sz \<Rightarrow> sz | None \<Rightarrow> fsize (log_at st i)),
       entries := 0, log_head := NULL, log_tail := Tail_head\<rparr>"
  show ?thesis
  proof (rule inv_slot [OF inv, of t i, where l = ?l])
    show "open_fill env i n st = set_log i ?l st" by (simp add: open_fill_def)
    have "log_ok ?l h as" if "log_ok (hide_log (log_at st i)) h as" for h as
      using that o by (auto simp: log_ok_def hide_log_def ring_def ring0_def tail_ok_def)
    then show "opens_slot (Outside r) = None \<and> (\<forall>as. log_ok (hide_log (log_at st i)) (eheap st) as \<longrightarrow> log_ok ?l (eheap st) as) \<or>
      opens_slot (Outside r) = Some i \<and> (\<forall>as. log_ok (hide_log (log_at st i)) (eheap st) as \<longrightarrow> log_ok (hide_log ?l) (eheap st) as)"
      by simp
  qed (use t o in auto)
qed

text \<open>The assignment of a call that does not take the mutex.\<close>

lemma inv_assign:
  assumes inv: "sys_inv st mu p" and t: "p t = Levelling i v \<or> p t = Triggering i v" and part: "part_ok (busy p) None i (pc_use (p t)) st st'"
  shows "sys_inv st' mu (p(t := Outside r))"
proof -
  have w: "use_id (pc_use (p t)) = Some i" using t by auto
  have n: "good_id i" "i \<notin> busy p" using sys_invD(5) [OF inv, of t] w by (auto simp: named_def)
  show ?thesis
    by (rule inv_part [OF inv w part n]) (use t sys_invD(3) [OF inv, of t] in \<open>auto simp: named_def\<close>)
qed

lemma inv_level: "sys_inv st mu p \<Longrightarrow> p t = Levelling i v \<Longrightarrow> sys_inv (level_assign i v st) mu (p(t := Outside r))"
  by (rule inv_assign, assumption, blast) (use part_level [OF part_pre_holding, of st mu p t i None v] in auto)

lemma inv_trigger: "sys_inv st mu p \<Longrightarrow> p t = Triggering i v \<Longrightarrow> sys_inv (trigger_assign i v st) mu (p(t := Outside r))"
  by (rule inv_assign, assumption, blast) (use part_trigger [OF part_pre_holding, of st mu p t i None v] in auto)

lemma turn_ok:
  assumes inv: "sys_inv st mu p" and env: "env_fits \<lparr>base = st, mutex = mu, pcs = p\<rparr> t env"
    and b: "\<not> blocked \<lparr>base = st, mutex = mu, pcs = p\<rparr> t"
  shows "\<exists>st' mu' p'. log_turn env t \<lparr>base = st, mutex = mu, pcs = p\<rparr> = Some \<lparr>base = st', mutex = mu', pcs = p'\<rparr> \<and> sys_inv st' mu' p'"
proof (cases "p t")
  case (Locking s)
  then have "mu = None" using b by (simp add: blocked_def)
  then show ?thesis using inv_lock [of st p t s] inv Locking by (auto simp: turn_simps)
next
  case (Holding s)
  then show ?thesis using body_ok [OF inv Holding env] by (auto simp: turn_simps)
qed (use inv inv_unlock [OF inv] inv_fill [OF inv] inv_name [OF inv] inv_fetch [OF inv] inv_flush [OF inv] inv_level [OF inv] inv_trigger [OF inv] in \<open>auto simp: turn_simps\<close>)

section \<open>The first step of a call\<close>

lemma begin_quiet:
  assumes inv: "sys_inv st mu p" and t: "p t = Outside r" and cl: "\<And>u. \<not> clash w (pc_use (p u))"
    and n: "\<And>i. use_id w = Some i \<Longrightarrow> good_id i \<Longrightarrow> in_use (log_at st i) \<and> i \<notin> busy p"
    and c: "(\<exists>r. c = Outside r) \<or> (\<exists>s i. c = Locking s \<and> section_use s = w \<and> use_id w = Some i \<and> good_id i \<and> section_ok st s) \<or>
      (\<exists>i v. good_id i \<and> (c = Levelling i v \<and> w = Use_level i \<or> c = Triggering i v \<and> w = Use_trigger i))"
  shows "sys_inv st mu (p(t := c))"
proof -
  have mu: "mu \<noteq> Some t" using sys_invD(2) [OF inv, of t] t by simp
  have "section_stream s = None" if "use_id (section_use s) = Some i" for s i using that by (cases s) (auto split: if_splits)
  then have nf: "pc_stream c = None" using c by auto
  have "sys_inv (st\<lparr>io := io st @ []\<rparr>) mu (p(t := c))"
  proof (rule inv_quiet [OF inv, where N = None])
    show "\<not> clash (pc_use c) (pc_use (p u))" for u using c cl by auto
    show "named (busy p) st c" using c n by (auto simp: named_def)
    show "stream_step (pc_stream (p t)) (pc_stream c) None (closed_by {} (io st)) []"
      using nf t by (simp add: stream_step_def)
  qed (use c t mu in auto)
  then show ?thesis by simp
qed

lemma begin_stream:
  assumes inv: "sys_inv st mu p" and t: "p t = Outside r" and s: "stream_step None (Some g) (Some g) (closed_by {} (io st)) ev"
    and fresh: "\<And>u. pc_stream (p u) \<noteq> Some g" "\<And>i. i < LOG_MAXLOGS \<Longrightarrow> logfile (loglist st ! i) \<noteq> Some g"
    and c: "name = None \<Longrightarrow> tails_reset st" "\<And>u. name = None \<Longrightarrow> \<not> clash Use_open_file (pc_use (p u))"
  shows "sys_inv (st\<lparr>io := io st @ ev\<rparr>) mu (p(t := Locking (S_get_id g name)))"
proof -
  have mu: "mu \<noteq> Some t" using sys_invD(2) [OF inv, of t] t by simp
  show ?thesis
  proof (rule inv_quiet [OF inv, where N = "Some g"])
    show "held st p x \<noteq> Some h" if "Some g = Some h" for h x using that fresh by (cases x) (auto simp: held_def)
  qed (use mu t s c in \<open>auto simp: named_def\<close>)
qed

lemma begin_ok:
  assumes inv: "sys_inv st mu p" and env: "env_fits \<lparr>base = st, mutex = mu, pcs = p\<rparr> t env"
    and may: "may_call \<lparr>base = st, mutex = mu, pcs = p\<rparr> t op"
  shows "\<exists>st' p'. log_begin env t op \<lparr>base = st, mutex = mu, pcs = p\<rparr> = Some \<lparr>base = st', mutex = mu, pcs = p'\<rparr> \<and> sys_inv st' mu p'"
proof -
  obtain r where t: "p t = Outside r" using may by (auto simp: may_call_def)
  have args: "args_ok \<lparr>base = st, mutex = mu, pcs = p\<rparr> op" using may by (simp add: may_call_def)
  have cl: "\<not> clash (op_use op) (pc_use (p u))" for u using may by (simp add: may_call_def)
  have n: "use_id (op_use op) = Some i \<Longrightarrow> good_id i \<Longrightarrow> in_use (log_at st i) \<and> i \<notin> busy p" for i
    using may by (simp add: may_call_def openings_def busy_def)
  note quiet = begin_quiet [OF inv t cl n]
  have out: "sys_inv st mu (p(t := Outside r'))" for r' using quiet by blast
  show ?thesis
  proof (cases op)
    case (L_open name)
    show ?thesis
    proof (cases "name = None \<or> name = Some ''''")
      case True
      then show ?thesis using L_open out by (auto simp: begin_simps open_start_def)
    next
      case False
      then obtain nm where nm: "name = Some nm" "nm \<noteq> ''''" by auto
      show ?thesis
      proof (cases "fopen_res env")
        case None
        have "sys_inv (st\<lparr>io := io st @ [Io_open nm None]\<rparr>) mu (p(t := Outside LOG_EINSANE))"
          by (rule inv_quiet [OF inv, where N = None])
            (use t sys_invD(2) [OF inv, of t] in \<open>auto simp: named_def stream_step_def\<close>)
        then show ?thesis using L_open nm None by (simp add: begin_simps open_start_def)
      next
        case (Some g)
        have "sys_inv (st\<lparr>io := io st @ [Io_open nm (Some g)]\<rparr>) mu (p(t := Locking (S_get_id g (Some nm))))"
          by (rule begin_stream [OF inv t])
            (use Some env t in \<open>auto simp: stream_step_def env_fits_def moves_stream_def\<close>)
        then show ?thesis using L_open nm Some by (simp add: begin_simps open_start_def)
      qed
    qed
  next
    case (L_open_file f)
    show ?thesis
    proof (cases f)
      case None
      then show ?thesis using L_open_file out by (simp add: begin_simps open_file_start_def)
    next
      case (Some g)
      have "sys_inv (st\<lparr>io := io st @ []\<rparr>) mu (p(t := Locking (S_get_id g None)))"
        by (rule begin_stream [OF inv t]) (use L_open_file Some args cl in \<open>auto simp: stream_step_def\<close>)
      then show ?thesis using L_open_file Some by (simp add: begin_simps open_file_start_def)
    qed
  next
    case (L_trigger i v)
    have "sys_inv st mu (p(t := set_trigger_start i v st))"
      by (rule quiet) (use L_trigger in \<open>auto simp: set_trigger_start_def\<close>)
    then show ?thesis using L_trigger by (simp add: begin_simps)
  next
    case (L_level i v)
    have "sys_inv st mu (p(t := set_level_start i v st))"
      by (rule quiet) (use L_level in \<open>auto simp: set_level_start_def\<close>)
    then show ?thesis using L_level by (simp add: begin_simps)
  next
    case (L_filename i name)
    have "sys_inv st mu (p(t := set_filename_start i name st))"
      by (rule quiet) (use L_filename args in \<open>auto simp: set_filename_start_def\<close>)
    then show ?thesis using L_filename by (simp add: begin_simps)
  next
    case (L_archive i v)
    have "sys_inv st mu (p(t := set_archive_start i v))"
      by (rule quiet) (use L_archive in \<open>auto simp: set_archive_start_def\<close>)
    then show ?thesis using L_archive by (simp add: begin_simps)
  next
    case (L_lines_kept i count)
    have "sys_inv st mu (p(t := lines_kept_start i count st))"
      by (rule quiet) (use L_lines_kept args in \<open>auto simp: lines_kept_start_def\<close>)
    then show ?thesis using L_lines_kept by (simp add: begin_simps)
  next
    case (L_flush i)
    have "sys_inv st mu (p(t := flush_start i st))"
      by (rule quiet) (use L_flush in \<open>auto simp: flush_start_def\<close>)
    then show ?thesis using L_flush by (simp add: begin_simps)
  next
    case (L_reopen i)
    have "sys_inv st mu (p(t := reopen_start i st))"
      by (rule quiet) (use L_reopen in \<open>auto simp: reopen_start_def\<close>)
    then show ?thesis using L_reopen by (simp add: begin_simps)
  next
    case (L_close i)
    have "sys_inv st mu (p(t := close_start i))"
      by (rule quiet) (use L_close in \<open>auto simp: close_start_def\<close>)
    then show ?thesis using L_close by (simp add: begin_simps)
  next
    case (L_write i priority cat func fmt ap)
    obtain pr where pr: "log_prefix env priority cat func = Some pr" "length pr \<le> 255"
      using env log_prefix_length [of env st priority cat func] by (auto simp: env_fits_def)
    obtain line where l: "log_vsnprintf (ptr_text env) LOG_MAXLINELEN fmt ap = Some line" using args L_write by auto
    have "length pr + length line + 2 < 2 ^ 31" using pr(2) log_vsnprintf_length [OF l] by (simp add: LOG_MAXLINELEN_def)
    then have "sys_inv st mu (p(t := Locking (S_write i pr line)))" if "good_id i"
      by (intro quiet) (use that L_write in auto)
    then show ?thesis using L_write out pr(1) l by (auto simp: begin_simps write_start_def)
  next
    case (L_write_direct i fmt ap)
    have "sys_inv st mu (p(t := write_direct_start i fmt ap))"
      by (rule quiet) (use L_write_direct args in \<open>auto simp: write_direct_start_def\<close>)
    then show ?thesis using L_write_direct by (simp add: begin_simps)
  qed
qed

lemma log_runs_inv: "log_runs sys \<Longrightarrow> sys_inv (base sys) (mutex sys) (pcs sys)"
proof (induction rule: log_runs.induct)
  case start
  have "closed_by {} (io (log_initialize log_static)) = {}" by (simp add: log_initialize_def log_static_def)
  moreover have "hide {} st = st" for st by (simp add: hide_def map_nth)
  moreover have "held (log_initialize log_static) (\<lambda>t. Outside 0) x = None" for x
    by (auto simp: held_def log_initialize_def log_static_def log_reset_def split: sum.splits)
  ultimately show ?case using logs_inv_start
    by (auto simp: log_sys_start_def sys_inv_def busy_def named_def one_holder_def log_inv_def log_initialize_def log_static_def)
next
  case (call sys t op env sys')
  then show ?case using begin_ok [of "base sys" "mutex sys" "pcs sys" t env op] by (cases sys rule: log_sys.cases) auto
next
  case (turn sys t env sys')
  then show ?case using turn_ok [of "base sys" "mutex sys" "pcs sys" t env] by (cases sys rule: log_sys.cases) auto
qed

end
