(* ===== verification/Log_Threads_Races.thy ===== *)
theory Log_Threads_Races
  imports Log_Threads_Inv
begin

text \<open>
  Data races on the table of logs. The steps of \<open>Log_Threads_Defs\<close> are atomic; here every step is given the fields that it
  reads and writes, with or without the mutex, and two steps that may come next race when they access the same field of the
  same log, one of them writing, and do not both hold the mutex. The rules of \<open>may_call\<close> leave three such pairs of calls; when
  these do not overlap either, there is no data race.
\<close>

section \<open>Accesses\<close>

text \<open>The fields of \<open>log_t\<close>: \<open>Fd_name\<close> is the file name, \<open>Fd_file\<close> the stream, \<open>Fd_lines\<close> the ring of recent lines with its counters.\<close>

datatype log_field = Fd_in_use | Fd_level | Fd_name | Fd_file | Fd_size | Fd_trigger | Fd_archive | Fd_lines

text \<open>What a part under the mutex may access of the log \<open>i\<close>, to write it or to read it. \<open>_get_log_id\<close> reads \<open>in_use\<close> of all logs and
  writes that of an unused one; \<open>_log_open\<close> may open the file again, and \<open>create_log_entry\<close> adds to the lines and the size.\<close>

fun section_access :: "log_state \<Rightarrow> log_section \<Rightarrow> int \<Rightarrow> log_field \<Rightarrow> bool \<Rightarrow> bool" where
  "section_access st (S_get_id f name) i fd w \<longleftrightarrow> fd = Fd_in_use \<and> (w \<longrightarrow> \<not> in_use (log_at st i))"
| "section_access st (S_filename k name) i fd w \<longleftrightarrow> k = i \<and> fd = Fd_name"
| "section_access st (S_archive k v) i fd w \<longleftrightarrow> k = i \<and> fd = Fd_archive"
| "section_access st (S_lines_kept k count) i fd w \<longleftrightarrow> k = i \<and> fd = Fd_lines"
| "section_access st (S_flush k) i fd w \<longleftrightarrow> k = i \<and> fd = Fd_file \<and> \<not> w"
| "section_access st (S_reopen k) i fd w \<longleftrightarrow> k = i \<and> fd = Fd_file"
| "section_access st (S_close k) i fd w \<longleftrightarrow> k = i \<and> fd \<in> {Fd_in_use, Fd_level, Fd_name, Fd_file, Fd_lines}"
| "section_access st (S_write k pre line) i fd w \<longleftrightarrow> k = i \<and>
     (fd \<in> {Fd_file, Fd_size, Fd_lines} \<or> \<not> w \<and> fd \<in> {Fd_in_use, Fd_name, Fd_trigger, Fd_archive})"
| "section_access st (S_direct k fmt ap) i fd w \<longleftrightarrow> k = i \<and>
     (fd \<in> {Fd_file, Fd_size, Fd_lines} \<or> \<not> w \<and> fd \<in> {Fd_in_use, Fd_name, Fd_trigger, Fd_archive})"

text \<open>What the next turn of a thread may access without the mutex.\<close>

fun plain_access :: "log_pc \<Rightarrow> int \<Rightarrow> log_field \<Rightarrow> bool \<Rightarrow> bool" where
  "plain_access (Filling k f name) i fd w \<longleftrightarrow> k = i \<and> w \<and> fd \<in> {Fd_file, Fd_name, Fd_size}"
| "plain_access (Naming k n) i fd w \<longleftrightarrow> k = i \<and> (fd \<in> {Fd_name, Fd_size, Fd_lines} \<or> fd = Fd_file \<and> \<not> w)"
| "plain_access (Levelling k v) i fd w \<longleftrightarrow> k = i \<and> w \<and> fd = Fd_level"
| "plain_access (Triggering k v) i fd w \<longleftrightarrow> k = i \<and> w \<and> fd = Fd_trigger"
| "plain_access (Fetching k) i fd w \<longleftrightarrow> k = i \<and> \<not> w \<and> fd = Fd_file"
| "plain_access c i fd w \<longleftrightarrow> False"

text \<open>What the first step of a call, in front of the mutex, may read.\<close>

fun start_reads :: "log_op \<Rightarrow> int \<Rightarrow> log_field \<Rightarrow> bool" where
  "start_reads (L_trigger k v) i fd \<longleftrightarrow> k = i \<and> good_id k \<and> fd = Fd_in_use"
| "start_reads (L_filename k name) i fd \<longleftrightarrow> k = i \<and> good_id k \<and> fd = Fd_in_use"
| "start_reads (L_lines_kept k count) i fd \<longleftrightarrow> k = i \<and> good_id k \<and> fd = Fd_in_use"
| "start_reads (L_level k v) i fd \<longleftrightarrow> k = i \<and> good_id k \<and> fd = Fd_in_use"
| "start_reads (L_flush k) i fd \<longleftrightarrow> k = i \<and> good_id k \<and> fd = Fd_in_use"
| "start_reads (L_reopen k) i fd \<longleftrightarrow> k = i \<and> good_id k \<and> fd \<in> {Fd_name, Fd_file}"
| "start_reads (L_write k priority cat func fmt ap) i fd \<longleftrightarrow> k = i \<and> good_id k \<and> fd = Fd_level"
| "start_reads op i fd \<longleftrightarrow> False"

section \<open>Order\<close>

text \<open>Calls for one log that \<open>may_call\<close> lets overlap and that access it in conflict: changing the level and writing or changing
  it; changing the trigger and writing or changing it; renaming and reopening.\<close>

definition disturbs :: "log_use \<Rightarrow> log_use \<Rightarrow> bool" where
  "disturbs u v \<longleftrightarrow> (\<exists>i. u = Use_level i \<and> v \<in> {Use_level i, Use_write i}) \<or>
     (\<exists>i. u = Use_trigger i \<and> v \<in> {Use_trigger i, Use_write i, Use_direct i}) \<or> (\<exists>i. u = Use_filename i \<and> v = Use_reopen i)"

definition in_order :: "log_use \<Rightarrow> log_use \<Rightarrow> bool" where
  "in_order u v \<longleftrightarrow> \<not> disturbs u v \<and> \<not> disturbs v u"

text \<open>No two calls under way are of that kind, and a call that does not disturb those under way.\<close>

definition orderly :: "log_sys \<Rightarrow> bool" where
  "orderly sys \<longleftrightarrow> (\<forall>t u. t \<noteq> u \<longrightarrow> in_order (pc_use (pcs sys t)) (pc_use (pcs sys u)))"

definition orderly_call :: "log_sys \<Rightarrow> nat \<Rightarrow> log_op \<Rightarrow> bool" where
  "orderly_call sys t op \<longleftrightarrow> may_call sys t op \<and> (\<forall>u. in_order (op_use op) (pc_use (pcs sys u)))"

text \<open>The accesses of a thread that may come next: its turn under the mutex, its turn without it, or the start of a call.\<close>

inductive next_access :: "log_sys \<Rightarrow> nat \<Rightarrow> bool \<Rightarrow> int \<Rightarrow> log_field \<Rightarrow> bool \<Rightarrow> bool" for sys t where
  under_mutex: "pcs sys t = Holding s \<Longrightarrow> section_access (base sys) s i fd w \<Longrightarrow> next_access sys t True i fd w"
| plain: "plain_access (pcs sys t) i fd w \<Longrightarrow> next_access sys t False i fd w"
| at_start: "orderly_call sys t op \<Longrightarrow> start_reads op i fd \<Longrightarrow> next_access sys t False i fd False"

definition data_race :: "log_sys \<Rightarrow> nat \<Rightarrow> nat \<Rightarrow> int \<Rightarrow> log_field \<Rightarrow> bool" where
  "data_race sys t u i fd \<longleftrightarrow> t \<noteq> u \<and>
     (\<exists>m m' w. next_access sys t m i fd w \<and> next_access sys u m' i fd True \<and> \<not> (m \<and> m'))"

section \<open>No data race\<close>

text \<open>A part under the mutex accesses the log that the call names, or is \<open>_get_log_id\<close>.\<close>

lemma section_access_use:
  "section_access st s i fd w \<Longrightarrow> use_id (section_use s) = Some i \<or> fd = Fd_in_use \<and> (w \<longrightarrow> \<not> in_use (log_at st i))"
  by (cases s) auto

lemma plain_access_use:
  "plain_access c i fd w \<Longrightarrow> opens_slot c = Some i \<and> fd \<noteq> Fd_in_use \<or> use_id (pc_use c) = Some i \<and> opens_slot c = None \<and>
    (c = Fetching i \<and> fd = Fd_file \<and> \<not> w \<or> (\<exists>v. c = Levelling i v) \<and> fd = Fd_level \<or> (\<exists>v. c = Triggering i v) \<and> fd = Fd_trigger)"
  by (cases c) auto

lemma start_reads_use: "start_reads op i fd \<Longrightarrow> use_id (op_use op) = Some i \<and> good_id i"
  by (cases op) auto

text \<open>A turn without the mutex against another turn.\<close>

lemma plain_turn:
  assumes inv: "sys_inv st mu p" and ne: "t \<noteq> u" and o: "in_order (pc_use (p t)) (pc_use (p u))"
    and a: "plain_access (p t) i fd w" and b: "(\<exists>s. p u = Holding s \<and> section_access st s i fd w') \<or> plain_access (p u) i fd w'" and ww: "w \<or> w'"
  shows False
proof -
  have busy: "i \<notin> busy p" if "use_id (pc_use (p v)) = Some i" for v using sys_invD(5) [OF inv, of v] that by (auto simp: named_def)
  have cl: "\<not> clash (pc_use (p t)) (pc_use (p u))" using sys_invD(3) [OF inv ne] .
  show False
  proof (cases "opens_slot (p t) = Some i")
    case True
    then have "i \<in> busy p" by (auto simp: busy_def)
    then have nu: "use_id (pc_use (p u)) \<noteq> Some i" using busy by blast
    have "opens_slot (p u) \<noteq> Some i" using sys_invD(6) [OF inv True] ne by blast
    moreover have "fd \<noteq> Fd_in_use" using plain_access_use [OF a] True by auto
    ultimately show False using b nu section_access_use plain_access_use by fastforce
  next
    case False
    then have pa: "use_id (pc_use (p t)) = Some i" "p t = Fetching i \<and> fd = Fd_file \<and> \<not> w \<or> (\<exists>v. p t = Levelling i v) \<and> fd = Fd_level \<or>
        (\<exists>v. p t = Triggering i v) \<and> fd = Fd_trigger"
      using plain_access_use [OF a] by auto
    have "opens_slot (p u) \<noteq> Some i" using busy [OF pa(1)] by (auto simp: busy_def)
    then have pb: "(\<exists>s. p u = Holding s \<and> section_access st s i fd w') \<or>
        (p u = Fetching i \<and> fd = Fd_file \<and> \<not> w' \<or> (\<exists>v. p u = Levelling i v) \<and> fd = Fd_level \<or> (\<exists>v. p u = Triggering i v) \<and> fd = Fd_trigger)"
      using b plain_access_use by blast
    have "\<not> section_access st s i fd w'" if "p u = Holding s" for s
      using pa(2) cl o that ww by (cases s) (auto simp: clash_def excludes_def moves_stream_def in_order_def disturbs_def)
    with pb pa(2) cl o ww show False by (auto simp: in_order_def disturbs_def)
  qed
qed

text \<open>The start of a call against the turn of another thread.\<close>

lemma start_turn:
  assumes inv: "sys_inv (base sys) (mutex sys) (pcs sys)" and c: "orderly_call sys t op" and a: "start_reads op i fd"
    and b: "(\<exists>s. pcs sys u = Holding s \<and> section_access (base sys) s i fd True) \<or> plain_access (pcs sys u) i fd True"
  shows False
proof -
  note use = start_reads_use [OF a]
  have n: "in_use (log_at (base sys) i)" "i \<notin> openings sys" and cl: "\<not> clash (op_use op) (pc_use (pcs sys u))"
    and o: "in_order (op_use op) (pc_use (pcs sys u))"
    using c use by (auto simp: orderly_call_def may_call_def)
  from b show False
  proof
    assume "\<exists>s. pcs sys u = Holding s \<and> section_access (base sys) s i fd True"
    then obtain s where s: "pcs sys u = Holding s" "section_access (base sys) s i fd True" by blast
    show False
    proof (cases "use_id (section_use s) = Some i")
      case True
      with s a cl o use show False
        by (cases op; cases s) (auto simp: clash_def excludes_def moves_stream_def in_order_def disturbs_def split: if_splits)
    next
      case False
      with section_access_use [OF s(2)] n show False by auto
    qed
  next
    assume pa: "plain_access (pcs sys u) i fd True"
    have "opens_slot (pcs sys u) \<noteq> Some i" using n(2) by (auto simp: openings_def)
    with plain_access_use [OF pa] a cl o show False
      by (cases op) (auto simp: clash_def excludes_def moves_stream_def in_order_def disturbs_def)
  qed
qed

lemma no_data_race:
  assumes inv: "sys_inv (base sys) (mutex sys) (pcs sys)" and o: "orderly sys"
  shows "\<not> data_race sys t u i fd"
proof
  assume "data_race sys t u i fd"
  then obtain m m' w where ne: "t \<noteq> u" and a: "next_access sys t m i fd w" and b: "next_access sys u m' i fd True" and mm: "\<not> (m \<and> m')"
    by (auto simp: data_race_def)
  have ord: "in_order (pc_use (pcs sys t)) (pc_use (pcs sys u))" "in_order (pc_use (pcs sys u)) (pc_use (pcs sys t))"
    using o ne by (auto simp: orderly_def)
  have bt: "(\<exists>s. pcs sys u = Holding s \<and> section_access (base sys) s i fd True \<and> m') \<or> plain_access (pcs sys u) i fd True \<and> \<not> m'"
    using b by cases auto
  from a show False
  proof cases
    case (under_mutex s)
    then show False using plain_turn [OF inv not_sym [OF ne] ord(2), of i fd True w] bt mm by blast
  next
    case plain
    then show False using plain_turn [OF inv ne ord(1), of i fd w True] bt by blast
  next
    case (at_start op)
    then show False using start_turn [OF inv, of t op i fd u] bt by blast
  qed
qed

end
