(* ===== verification/Log_Threads.thy ===== *)
theory Log_Threads
  imports Log_Threads_Races
begin

text \<open>
  The properties of the threads that share the logs: no interleaving that observes the callers' rules is undefined, has a data
  race or uses a stream that is closed, the lines of every log are those of the parts under the mutex in their order, every call ends, a call
  that is not disturbed does what the function does as one step, and what goes wrong when the rules are broken.
\<close>

section \<open>What the steps do to the lines\<close>

text \<open>The recent lines after a part under the mutex.\<close>

fun lines_after :: "log_env \<Rightarrow> log_section \<Rightarrow> log_state \<Rightarrow> nat \<Rightarrow> string list" where
  "lines_after env (S_write i pre line) st =
     (if can_write env (log_at st i)
      then (recent st)(nat i := lastn (unat (keep_entries (log_at st i))) (recent st (nat i) @ [pre @ line @ [LF]])) else recent st)"
| "lines_after env (S_direct i fmt ap) st =
     (if can_write env (log_at st i)
      then (recent st)(nat i := lastn (unat (keep_entries (log_at st i)))
        (recent st (nat i) @ [the (log_vsnprintf (ptr_text env) LOG_MAXLINELEN fmt ap) @ [LF]])) else recent st)"
| "lines_after env (S_lines_kept i count) st = (recent st)(nat i := lastn (unat count) (recent st (nat i)))"
| "lines_after env (S_close i) st = (recent st)(nat i := [])"
| "lines_after env _ st = recent st"

definition turn_lines :: "log_env \<Rightarrow> nat \<Rightarrow> log_sys \<Rightarrow> nat \<Rightarrow> string list" where
  "turn_lines env t sys = (case pcs sys t of Holding s \<Rightarrow> lines_after env s (base sys) | _ \<Rightarrow> recent (base sys))"

lemma recent_set_log:
  assumes "log_head l = log_head (log_at st i)" "entries l = entries (log_at st i)" "good_id i" "j < length (loglist st)"
  shows "recent (set_log i l st) j = recent st j" "recent (set_log_heap i l (eheap st) ev st) j = recent st j"
  using assms by (cases "j = nat i"; simp add: recent_def set_log_def set_log_heap_def log_at_def)+

lemma recent_get_id:
  assumes "log_inv (hide B st)" "\<And>i. i \<in> B \<Longrightarrow> good_id i \<and> in_use (log_at st i)" "j < LOG_MAXLOGS"
  shows "recent (snd (get_log_id st)) j = recent st j"
proof (rule get_id_cases [OF assms(1,2)])
  have len: "length (loglist st) = LOG_MAXLOGS" using assms(1) by (auto simp: log_inv_def logs_inv_def)
  fix i assume i: "get_log_id st = (int i, set_log_heap (int i) ((loglist st ! i)\<lparr>in_use := True\<rparr>) (eheap st) [] st)" "i < LOG_MAXLOGS"
  have "recent (set_log_heap (int i) ((loglist st ! i)\<lparr>in_use := True\<rparr>) (eheap st) [] st) j = recent st j"
    by (rule recent_set_log) (use i(2) assms(3) len in \<open>simp_all add: log_at_def good_id_def\<close>)
  then show ?thesis using i(1) by simp
qed simp_all

lemma lines_body:
  assumes inv: "sys_inv st mu p" and t: "p t = Holding s" and env: "env_ok env st" and r: "log_body env s st = Some (c, st')"
    and j: "j < LOG_MAXLOGS"
  shows "recent st' j = lines_after env s st j"
proof (cases "\<exists>f name. s = S_get_id f name")
  case True
  then show ?thesis using r recent_get_id [OF sys_invD(1) [OF inv] busy_good [OF inv] j] by (auto split: prod.splits)
next
  case False
  then obtain i where i: "use_id (section_use s) = Some i" by (cases s) auto
  have pre: "part_pre (busy p) i st" using part_pre_holding [OF inv, of t i] t i by simp
  have sec: "section_ok st s" using sys_invD(4) [OF inv, of t] t by simp
  have g: "good_id i" "j < length (loglist st)" using pre j part_preD(1) [OF pre] by (auto simp: part_pre_def)
  note keep = recent_set_log [OF _ _ g]
  show ?thesis
  proof (cases s)
    case (S_filename k name)
    then show ?thesis using r i by (auto simp: set_filename_body_def keep split: if_splits)
  next
    case (S_archive k v)
    then show ?thesis using r i by (auto simp: set_archive_body_def keep)
  next
    case (S_lines_kept k count)
    then show ?thesis using part_lines_kept [OF pre, of count None] sec r i j by auto
  next
    case (S_flush k)
    then show ?thesis using r by (auto simp: flush_body_def)
  next
    case (S_reopen k)
    then show ?thesis using r i by (auto simp: reopen_body_def keep elim!: bind_SomeE)
  next
    case (S_close k)
    then show ?thesis using part_close [OF pre, of None] r i j by auto
  next
    case (S_write k pr line)
    have "moves_stream (Use_write i) i" by (simp add: moves_stream_def)
    from part_put [OF pre env _ this, of pr line] show ?thesis using S_write sec r i j by auto
  next
    case (S_direct k fmt ap)
    obtain line where l: "log_vsnprintf (ptr_text env) LOG_MAXLINELEN fmt ap = Some line" using sec S_direct by auto
    have "moves_stream (Use_direct i) i" "length [] + length line + 2 < 2 ^ 31"
      using log_vsnprintf_length [OF l] by (simp_all add: moves_stream_def LOG_MAXLINELEN_def)
    from part_put [OF pre env this(2,1)] show ?thesis using S_direct l r i j by (auto simp: write_direct_body_def)
  qed (use False in auto)
qed

lemma lines_fill:
  assumes inv: "sys_inv st mu p" and t: "opens_slot (p t) = Some i" and j: "j < LOG_MAXLOGS"
  shows "recent (open_file_fill i f st) j = recent st j" "recent (open_fill env i n st) j = recent st j"
proof -
  have g: "good_id i" "i \<in> busy p" using busy_good [OF inv, of i] t by (auto simp: busy_def)
  note len = sys_invD(9) [OF inv]
  show "recent (open_file_fill i f st) j = recent st j"
    unfolding open_file_fill_def by (rule recent_set_log) (use g j len in simp_all)
  obtain ass where "logs_inv (hide (busy p) st) ass" using sys_invD(1) [OF inv] by (auto simp: log_inv_def)
  from logs_invD(1) [OF this, of "nat i"] have "log_ok (hide_log (log_at st i)) (eheap st) (ass ! nat i)"
    using g len by (simp add: hide_nth good_id_nat log_at_def)
  then have "unat (entries (log_at st i)) = 0" by (simp add: log_ok_def hide_log_def ring_def)
  then show "recent (open_fill env i n st) j = recent st j"
    using j len g(1) by (cases "j = nat i") (simp_all add: recent_def open_fill_def set_log_def log_at_def)
qed

lemma lines_assign:
  assumes "good_id i" "j < length (loglist st)"
  shows "recent (level_assign i v st) j = recent st j" "recent (trigger_assign i v st) j = recent st j"
  unfolding level_assign_def trigger_assign_def by (rule recent_set_log [OF _ _ assms], simp, simp)+

lemma lines_turn:
  assumes inv: "sys_inv st mu p" and env: "env_ok env st" and j: "j < LOG_MAXLOGS"
    and r: "log_turn env t \<lparr>base = st, mutex = mu, pcs = p\<rparr> = Some sys'"
  shows "recent (base sys') j = turn_lines env t \<lparr>base = st, mutex = mu, pcs = p\<rparr> j"
proof (cases "p t")
  case (Holding s)
  then show ?thesis using lines_body [OF inv Holding env _ j] r by (auto simp: turn_simps turn_lines_def)
next
  case (Filling i f name)
  then show ?thesis using lines_fill(1) [OF inv, of t i j f] j r by (auto simp: turn_simps turn_lines_def)
next
  case (Naming i n)
  then show ?thesis using lines_fill(2) [OF inv, of t i j env n] j r by (auto simp: turn_simps turn_lines_def)
next
  case (Levelling i v)
  then have "good_id i" using sys_invD(5) [OF inv, of t] by (simp add: named_def)
  then show ?thesis using Levelling r j sys_invD(9) [OF inv] by (auto simp: turn_simps turn_lines_def lines_assign)
next
  case (Triggering i v)
  then have "good_id i" using sys_invD(5) [OF inv, of t] by (simp add: named_def)
  then show ?thesis using Triggering r j sys_invD(9) [OF inv] by (auto simp: turn_simps turn_lines_def lines_assign)
qed (use r in \<open>auto simp: turn_simps turn_lines_def direct_flush_def\<close>)

lemma lines_begin:
  assumes "log_start env op st = Some (c, st')" "j < length (loglist st)"
  shows "recent st' j = recent st j"
  using assms by (cases op) (auto simp: open_start_def split: option.splits if_splits)

section \<open>Calls that must not overlap\<close>

lemma set_log_heap_at:
  "log_inv st \<Longrightarrow> good_id i \<Longrightarrow> log_at (set_log_heap i l h ev st) i = l"
  "io (set_log_heap i l h ev st) = io st @ ev" "eheap (set_log_heap i l h ev st) = h"
  by (auto simp: log_inv_def logs_inv_def log_at_def set_log_heap_def good_id_nat)

lemma race_reopen:
  assumes inv: "log_inv st" and i: "good_id i" and n: "filename (log_at st i) = F_str n" and f: "logfile (log_at st i) = Some f" and t: "t \<noteq> u"
  shows "\<exists>sys. do { s \<leftarrow> log_begin env t (L_reopen i) \<lparr>base = st, mutex = None, pcs = p\<rparr>; s \<leftarrow> log_begin env u (L_reopen i) s;
      s \<leftarrow> log_turns 3 env t s; log_turns 1 env u s } = Some sys \<and> log_turn env u sys = None"
  using i n f t by (auto simp: begin_simps reopen_start_def numeral_eq_Suc turn_simps reopen_body_def set_log_heap_at(1) [OF inv i])

lemma race_close:
  assumes inv: "log_inv st" and i: "good_id i" and l: "in_use (log_at st i)" "filename (log_at st i) = F_str n" and t: "t \<noteq> u"
  shows "\<exists>sys. do { s \<leftarrow> log_begin env t (L_filename i (Some ''x'')) \<lparr>base = st, mutex = None, pcs = p\<rparr>; s \<leftarrow> log_begin env u (L_close i) s;
      s \<leftarrow> log_turns 3 env u s; log_turns 1 env t s } = Some sys \<and> log_turn env t sys = None"
proof -
  obtain ass where "logs_inv st ass" using inv by (auto simp: log_inv_def)
  then obtain st' where "log_close i st = Some st'" using log_close_ok [OF _ i l(1)] by metis
  then have c: "close_body i st = Some st'" using i by (simp add: log_close_def close_body_def)
  then obtain k h ev where k: "st' = set_log_heap i k h ev st" "filename k = F_freed"
    using l by (auto simp: close_body_def Let_def elim!: bind_SomeE dest!: drop_entries_keeps)
  have "set_filename_body i name st' = None" for name
    using k set_log_heap_at(1) [OF inv i] by (simp add: set_filename_body_def)
  then show ?thesis using i l t c
    by (auto simp: begin_simps set_filename_start_def close_start_def numeral_eq_Suc turn_simps)
qed

text \<open>A line that \<open>log_write_direct\<close> writes makes the log large enough to be rotated, and its file cannot be opened again.\<close>

definition rotates_after :: "log_env \<Rightarrow> log_state \<Rightarrow> int \<Rightarrow> string \<Rightarrow> va list \<Rightarrow> bool" where
  "rotates_after env st i fmt ap \<longleftrightarrow>
     (let l = log_at st i in keep_entries l = 0 \<and> trigger_level l \<noteq> 0 \<and> fsize l \<le> trigger_level l \<and> fopen_res env = None \<and>
       (case log_vsnprintf (ptr_text env) LOG_MAXLINELEN fmt ap of None \<Rightarrow> False
        | Some line \<Rightarrow> fprintf_res env (line @ [LF]) > 0 \<and> fsize l + fprintf_res env (line @ [LF]) > trigger_level l))"

lemma closed_flush: "\<not> io_ok C (es @ [Io_close f, Io_rename a b, Io_open a None, Io_flush (Some f)])"
  by (auto simp: io_ok_append)

lemma race_direct:
  assumes inv: "log_inv st" and i: "good_id i" and l: "in_use (log_at st i)" "filename (log_at st i) = F_str n" "logfile (log_at st i) = Some f"
    and t: "t \<noteq> u" and r: "rotates_after env st i fmt ap"
    and w: "write_start env i priority cat func fmt' ap' st = Some (Locking (S_write i pre line'))"
  shows "\<exists>sys. do { s \<leftarrow> log_begin env t (L_write_direct i fmt ap) \<lparr>base = st, mutex = None, pcs = p\<rparr>; s \<leftarrow> log_turns 4 env t s;
      s \<leftarrow> log_begin env u (L_write i priority cat func fmt' ap') s; s \<leftarrow> log_turns 3 env u s; log_turn env t s } = Some sys \<and>
    \<not> io_ok {} (io (base sys))"
proof -
  let ?l = "log_at st i"
  obtain line where v: "log_vsnprintf (ptr_text env) LOG_MAXLINELEN fmt ap = Some line"
    and fp: "fprintf_res env (line @ [LF]) > 0" "fsize ?l + fprintf_res env (line @ [LF]) > trigger_level ?l"
    and k: "keep_entries ?l = 0" "trigger_level ?l \<noteq> 0" "fsize ?l \<le> trigger_level ?l" "fopen_res env = None"
    using r by (auto simp: rotates_after_def Let_def split: option.splits)
  define l1 where "l1 = ?l\<lparr>fsize := fsize ?l + fprintf_res env (line @ [LF])\<rparr>"
  define st1 where "st1 = set_log_heap i l1 (eheap st) [Io_write f (line @ [LF])] st"
  have at1: "log_at st1 i = l1" unfolding st1_def by (rule set_log_heap_at(1) [OF inv i])
  have b1: "write_direct_body env i fmt ap st = Some st1"
    using v k l fp by (simp add: write_direct_body_def log_put_def log_open'_def create_log_entry_def st1_def l1_def)
  have w1: "write_start env i priority cat func fmt' ap' st1 = Some (Locking (S_write i pre line'))"
    unfolding w [symmetric] write_start_def at1 by (simp add: l1_def)
  define st2 where "st2 = set_log_heap i (l1\<lparr>logfile := None\<rparr>) (eheap st1) [Io_close f, Io_rename n (archive_name env l1 n), Io_open n None] st1"
  have b2: "log_put env i pre line' st1 = Some st2"
    unfolding log_put_def at1 using l k fp by (simp add: log_open'_def l1_def st2_def)
  have "io (direct_flush (Some f) st2) =
      (io st @ [Io_write f (line @ [LF])]) @ [Io_close f, Io_rename n (archive_name env l1 n), Io_open n None, Io_flush (Some f)]"
    by (simp add: direct_flush_def st2_def st1_def set_log_heap_at)
  then have bad: "\<not> io_ok {} (io (direct_flush (Some f) st2))" using closed_flush by metis
  have fetch: "direct_fetch i st1 = Flushing i (Some f)" using at1 l by (simp add: direct_fetch_def l1_def)
  show ?thesis using i t b1 w1 b2 bad fetch
    by (auto simp: begin_simps write_direct_start_def numeral_eq_Suc turn_simps)
qed

section \<open>A run for the witnesses\<close>

text \<open>A thread has opened a log for the stream 5 and wants to keep five lines.\<close>

definition open_log :: log_state where
  "open_log = open_file_fill 0 5 (set_log 0 ((log_reset log_zero)\<lparr>in_use := True\<rparr>) (log_initialize log_static))"

definition one_log :: log_state where
  "one_log = set_log_heap 0 ((log_at open_log 0)\<lparr>keep_entries := 5\<rparr>) (eheap open_log) [] open_log"

lemma init_facts:
  "loglist (log_initialize log_static) = replicate 25 (log_reset log_zero)" "io (log_initialize log_static) = []"
  "eheap (log_initialize log_static) = Map.empty" "log_reset log_zero = log_zero\<lparr>level := 2, trigger_level := 1000000000, log_tail := Tail_head\<rparr>"
  "get_log_id (log_initialize log_static) = (0, set_log 0 ((log_reset log_zero)\<lparr>in_use := True\<rparr>) (log_initialize log_static))"
  by (simp_all add: log_initialize_def log_static_def log_reset_def log_zero_def LOG_MAXLOGS_def get_log_id_def log_at_def numeral_eq_Suc)

lemma open_log_facts:
  "io open_log = []" "eheap open_log = Map.empty" "length (loglist open_log) = LOG_MAXLOGS"
  "log_at open_log 0 = (log_reset log_zero)\<lparr>in_use := True, logfile := Some 5\<rparr>"
  by (simp_all add: open_log_def open_file_fill_def set_log_def log_at_def init_facts LOG_MAXLOGS_def log_reset_def log_zero_def)

lemma one_log_facts:
  "io one_log = []" "eheap one_log = Map.empty" "length (loglist one_log) = LOG_MAXLOGS"
  "log_at one_log 0 = (log_reset log_zero)\<lparr>in_use := True, logfile := Some 5, keep_entries := 5\<rparr>"
  "lines_kept_body 0 5 open_log = Some one_log"
proof -
  show "log_at one_log 0 = (log_reset log_zero)\<lparr>in_use := True, logfile := Some 5, keep_entries := 5\<rparr>"
    using open_log_facts by (simp add: one_log_def set_log_heap_def log_at_def LOG_MAXLOGS_def)
  have "drop_entries 5 ((log_at open_log 0)\<lparr>keep_entries := 5\<rparr>) (eheap open_log) =
      Some ((log_at open_log 0)\<lparr>keep_entries := 5\<rparr>, eheap open_log)"
    by (subst drop_entries.simps) (simp add: open_log_facts log_reset_def)
  then show "lines_kept_body 0 5 open_log = Some one_log" by (simp add: lines_kept_body_def one_log_def)
qed (simp_all add: one_log_def set_log_heap_def open_log_facts)

lemma demo_fits: "eheap (base sys) = Map.empty \<Longrightarrow> env_fits sys t demo_env"
  by (simp add: env_fits_def env_ok_def demo_env_def)

lemma demo_run_open: "log_runs \<lparr>base = one_log, mutex = None, pcs = (\<lambda>u. Outside 0)\<rparr>"
proof -
  let ?st = "log_initialize log_static"
  let ?st1 = "set_log 0 ((log_reset log_zero)\<lparr>in_use := True\<rparr>) ?st"
  let ?p = "(\<lambda>u. Outside 0) :: nat \<Rightarrow> log_pc"
  have e: "eheap ?st1 = Map.empty" by (simp add: set_log_def init_facts)
  have off: "\<not> in_use (log_reset log_zero)" "log_tail (log_reset log_zero) = Tail_head" "logfile (log_reset log_zero) = None"
    by (simp_all add: log_reset_def)
  have may: "may_call log_sys_start 0 (L_open_file (Some 5))"
    using off by (simp add: may_call_def log_sys_start_def tails_reset_def init_facts LOG_MAXLOGS_def)
  have "log_runs \<lparr>base = ?st, mutex = None, pcs = ?p(0 := Locking (S_get_id 5 None))\<rparr>"
    by (rule log_runs.call [OF log_runs.start may demo_fits])
      (simp_all add: log_sys_start_def begin_simps open_file_start_def init_facts(3))
  then have "log_runs \<lparr>base = ?st, mutex = Some 0, pcs = ?p(0 := Holding (S_get_id 5 None))\<rparr>"
    by (rule log_runs.turn [where t = 0 and env = demo_env])
      (simp_all add: blocked_def turn_simps demo_fits init_facts(3))
  then have "log_runs \<lparr>base = ?st1, mutex = Some 0, pcs = ?p(0 := Unlocking (Filling 0 5 None))\<rparr>"
    by (rule log_runs.turn [where t = 0 and env = demo_env])
      (simp_all add: blocked_def turn_simps demo_fits init_facts(3,5))
  then have "log_runs \<lparr>base = ?st1, mutex = None, pcs = ?p(0 := Filling 0 5 None)\<rparr>"
    by (rule log_runs.turn [where t = 0 and env = demo_env])
      (simp_all add: blocked_def turn_simps demo_fits e)
  then have "log_runs \<lparr>base = open_log, mutex = None, pcs = ?p(0 := Outside 0)\<rparr>"
    by (rule log_runs.turn [where t = 0 and env = demo_env])
      (simp_all add: blocked_def turn_simps demo_fits e open_log_def)
  then have "log_runs \<lparr>base = open_log, mutex = None, pcs = ?p(0 := Locking (S_lines_kept 0 5))\<rparr>"
    by (rule log_runs.call [where t = 0 and op = "L_lines_kept 0 5" and env = demo_env])
      (auto simp: may_call_def openings_def demo_fits begin_simps lines_kept_start_def open_log_facts good_id_def LOG_MAXLOGS_def split: if_splits)
  then have "log_runs \<lparr>base = open_log, mutex = Some 0, pcs = ?p(0 := Holding (S_lines_kept 0 5))\<rparr>"
    by (rule log_runs.turn [where t = 0 and env = demo_env]) (simp_all add: blocked_def turn_simps demo_fits open_log_facts(2))
  then have "log_runs \<lparr>base = one_log, mutex = Some 0, pcs = ?p(0 := Unlocking (Outside 0))\<rparr>"
    by (rule log_runs.turn [where t = 0 and env = demo_env])
      (simp_all add: blocked_def turn_simps demo_fits open_log_facts(2) one_log_facts(5))
  then have "log_runs \<lparr>base = one_log, mutex = None, pcs = ?p(0 := Outside 0)\<rparr>"
    by (rule log_runs.turn [where t = 0 and env = demo_env]) (simp_all add: blocked_def turn_simps demo_fits one_log_facts(2))
  then show ?thesis by (simp add: fun_upd_idem)
qed

text \<open>Thread 1 is writing to it and holds the mutex; thread 2 waits.\<close>

definition two_writers :: log_sys where
  "two_writers = \<lparr>base = one_log, mutex = Some 1,
     pcs = (\<lambda>u. Outside 0)(1 := Holding (S_write 0 ''now EROR  '' ''x''), 2 := Locking (S_write 0 ''now EROR  '' ''y''))\<rparr>"

lemma demo_run_write: "log_runs two_writers"
proof -
  let ?p = "(\<lambda>u. Outside 0) :: nat \<Rightarrow> log_pc"
  let ?w1 = "S_write 0 ''now EROR  '' ''x''" and ?w2 = "S_write 0 ''now EROR  '' ''y''"
  have at: "in_use (log_at one_log 0)" "level (log_at one_log 0) = 2" by (simp_all add: one_log_facts log_reset_def)
  have fmt: "log_vsnprintf pt LOG_MAXLINELEN ''x'' [] = Some ''x''" "log_vsnprintf pt LOG_MAXLINELEN ''y'' [] = Some ''y''" for pt
    by (simp_all add: log_vsnprintf_def LOG_MAXLINELEN_def)
  have pre: "log_prefix demo_env 1 [] [] = Some ''now EROR  ''" by (simp add: log_prefix_def demo_env_def prior_def)
  have start: "write_start demo_env 0 1 [] [] ''x'' [] one_log = Some (Locking ?w1)"
    "write_start demo_env 0 1 [] [] ''y'' [] one_log = Some (Locking ?w2)"
    using at by (simp_all add: write_start_def good_id_def LOG_MAXLOGS_def prior_def fmt pre)
  have "log_runs \<lparr>base = one_log, mutex = None, pcs = ?p(1 := Locking ?w1)\<rparr>"
    by (rule log_runs.call [OF demo_run_open, where t = 1 and op = "L_write 0 1 [] [] ''x'' []" and env = demo_env])
      (simp_all add: may_call_def openings_def at fmt demo_fits one_log_facts(2) begin_simps start)
  then have "log_runs \<lparr>base = one_log, mutex = None, pcs = ?p(1 := Locking ?w1, 2 := Locking ?w2)\<rparr>"
    by (rule log_runs.call [where t = 2 and op = "L_write 0 1 [] [] ''y'' []" and env = demo_env])
      (auto simp: may_call_def openings_def at fmt demo_fits one_log_facts(2) begin_simps start clash_def excludes_def split: if_splits)
  then have "log_runs \<lparr>base = one_log, mutex = Some 1, pcs = ?p(1 := Locking ?w1, 2 := Locking ?w2, 1 := Holding ?w1)\<rparr>"
    by (rule log_runs.turn [where t = 1 and env = demo_env]) (simp_all add: blocked_def turn_simps demo_fits one_log_facts(2))
  then show ?thesis by (simp add: two_writers_def fun_upd_twist)
qed

section \<open>Properties\<close>



text \<open>Such a race: a thread is about to set the level without the mutex when another one begins to write to the log, and reads it.\<close>

theorem log_level_race:
  "\<exists>sys op. log_runs sys \<and> may_call sys 2 op \<and> plain_access (pcs sys 1) 0 Fd_level True \<and> start_reads op 0 Fd_level"
proof -
  let ?p = "(\<lambda>u. Outside 0) :: nat \<Rightarrow> log_pc"
  let ?sys = "\<lparr>base = one_log, mutex = None, pcs = ?p(1 := Levelling 0 4)\<rparr>" and ?op = "L_write 0 1 [] [] ''x'' []"
  have at: "in_use (log_at one_log 0)" by (simp add: one_log_facts)
  have "set_level_start 0 4 one_log = Levelling 0 4" by (simp add: set_level_start_def at good_id_def LOG_MAXLOGS_def)
  then have "log_runs ?sys"
    by (intro log_runs.call [OF demo_run_open, where t = 1 and op = "L_level 0 4" and env = demo_env])
      (simp_all add: may_call_def openings_def at demo_fits one_log_facts(2) begin_simps)
  moreover have "log_vsnprintf pt LOG_MAXLINELEN ''x'' [] = Some ''x''" for pt by (simp add: log_vsnprintf_def LOG_MAXLINELEN_def)
  then have "may_call ?sys 2 ?op" by (auto simp: may_call_def openings_def at clash_def excludes_def moves_stream_def split: if_splits)
  moreover have "plain_access (pcs ?sys 1) 0 Fd_level True" "start_reads ?op 0 Fd_level" by (simp_all add: good_id_def LOG_MAXLOGS_def)
  ultimately show ?thesis by blast
qed

text \<open>C11: the lines of the logs are what the parts under the mutex make them, one after the other: in every run, the step of a thread
  that holds the mutex to write a line to a log that can be written appends exactly this line to the recent lines of that log and
  drops the oldest beyond the number to keep, the parts of \<open>log_set_lines_kept\<close> and \<open>log_close\<close> cut or empty the lines of their log,
  and no other step of any thread changes any line.\<close>

theorem log_threads_lines:
  assumes "log_runs sys" "j < LOG_MAXLOGS"
  shows "(\<forall>t env. \<not> blocked sys t \<and> env_fits sys t env \<longrightarrow>
      (\<exists>sys'. log_turn env t sys = Some sys' \<and> recent (base sys') j = turn_lines env t sys j)) \<and>
    (\<forall>t op env sys'. log_begin env t op sys = Some sys' \<longrightarrow> recent (base sys') j = recent (base sys) j)"
proof -
  have inv: "sys_inv (base sys) (mutex sys) (pcs sys)" using assms(1) by (rule log_runs_inv)
  have eq: "\<lparr>base = base sys, mutex = mutex sys, pcs = pcs sys\<rparr> = sys" by simp
  have "\<exists>sys'. log_turn env t sys = Some sys' \<and> recent (base sys') j = turn_lines env t sys j"
    if "\<not> blocked sys t" "env_fits sys t env" for t env
  proof -
    have "env_ok env (base sys)" using that(2) by (simp add: env_fits_def)
    then show ?thesis using turn_ok [OF inv, of t env] lines_turn [OF inv _ assms(2), of env t] that unfolding eq by blast
  qed
  moreover have "recent (base sys') j = recent (base sys) j" if b: "log_begin env t op sys = Some sys'" for t op env sys'
  proof -
    obtain c st where "log_start env op (base sys) = Some (c, st)" "base sys' = st"
      using b by (auto simp: log_begin_def move_to_def at_log_pc_def)
    then show ?thesis using lines_begin sys_invD(9) [OF inv] assms(2) by metis
  qed
  ultimately show ?thesis by blast
qed

theorem log_threads_lines_witness:
  "\<exists>sys. log_turn demo_env 1 two_writers = Some sys \<and> recent (base sys) 0 = [''now EROR  x'' @ [LF]]"
proof -
  have "\<not> blocked two_writers 1" "env_fits two_writers 1 demo_env"
    by (simp_all add: two_writers_def blocked_def demo_fits one_log_facts(2))
  moreover have "(0 :: nat) < LOG_MAXLOGS" by (simp add: LOG_MAXLOGS_def)
  ultimately obtain sys where s: "log_turn demo_env 1 two_writers = Some sys" "recent (base sys) 0 = turn_lines demo_env 1 two_writers 0"
    using log_threads_lines [OF demo_run_write] by blast
  have "recent one_log 0 = []" using one_log_facts(4) by (simp add: recent_def log_at_def log_reset_def)
  moreover have "can_write demo_env (log_at one_log 0)" by (simp add: one_log_facts(4) can_write_def needs_open_def log_reset_def)
  ultimately have "turn_lines demo_env 1 two_writers 0 = [''now EROR  x'' @ [LF]]"
    by (simp add: turn_lines_def two_writers_def one_log_facts(4) lastn_def)
  then show ?thesis using s by auto
qed

text \<open>C17: no call waits for ever: in every run a thread in a call is at most five turns away from its end and every turn takes it
  nearer; a thread that waits for the mutex waits for another one that is not blocked and gives the mutex back within two turns.\<close>

theorem log_threads_progress:
  assumes "log_runs sys"
  shows "log_rank (pcs sys t) \<le> 5 \<and>
    (\<not> blocked sys t \<and> log_rank (pcs sys t) \<noteq> 0 \<longrightarrow> (\<forall>env. env_fits sys t env \<longrightarrow>
      (\<exists>sys'. log_turn env t sys = Some sys' \<and> log_rank (pcs sys' t) < log_rank (pcs sys t) \<and> (\<forall>u. u \<noteq> t \<longrightarrow> pcs sys' u = pcs sys u)))) \<and>
    (blocked sys t \<longrightarrow> (\<exists>u. u \<noteq> t \<and> mutex sys = Some u \<and> \<not> blocked sys u \<and> (\<forall>env. env_fits sys u env \<longrightarrow>
      (\<exists>sys1. log_turn env u sys = Some sys1 \<and> (mutex sys1 = None \<or> (\<forall>env'. \<exists>sys2. log_turn env' u sys1 = Some sys2 \<and> mutex sys2 = None))))))"
proof -
  have inv: "sys_inv (base sys) (mutex sys) (pcs sys)" using assms by (rule log_runs_inv)
  obtain st mu p where sys: "sys = \<lparr>base = st, mutex = mu, pcs = p\<rparr>" by (cases sys rule: log_sys.cases)
  have inv: "sys_inv st mu p" using inv sys by simp
  have "log_rank c \<le> 5" for c by (cases c) auto
  moreover have "\<exists>sys'. log_turn env t sys = Some sys' \<and> log_rank (pcs sys' t) < log_rank (pcs sys t) \<and> (\<forall>u. u \<noteq> t \<longrightarrow> pcs sys' u = pcs sys u)"
    if "log_rank (pcs sys t) \<noteq> 0" and env: "env_fits sys t env" for env
  proof (cases "p t")
    case (Holding s)
    then show ?thesis using body_ok [OF inv Holding env [unfolded sys]] sys by (auto simp: turn_simps)
  next
    case (Unlocking c)
    then show ?thesis using sys_invD(4) [OF inv, of t] sys by (auto simp: turn_simps)
  qed (use that sys in \<open>auto simp: turn_simps direct_fetch_def split: option.splits\<close>)
  moreover have "\<exists>u. u \<noteq> t \<and> mutex sys = Some u \<and> \<not> blocked sys u \<and> (\<forall>env. env_fits sys u env \<longrightarrow>
      (\<exists>sys1. log_turn env u sys = Some sys1 \<and> (mutex sys1 = None \<or> (\<forall>env'. \<exists>sys2. log_turn env' u sys1 = Some sys2 \<and> mutex sys2 = None))))"
    if b: "blocked sys t"
  proof -
    obtain u where u: "mu = Some u" using b sys by (auto simp: blocked_def)
    then have h: "holds (p u)" using sys_invD(2) [OF inv, of u] by simp
    then have ne: "u \<noteq> t" "\<not> blocked sys u" using b sys by (auto simp: blocked_def)
    have "\<exists>sys1. log_turn env u sys = Some sys1 \<and> (mutex sys1 = None \<or> (\<forall>env'. \<exists>sys2. log_turn env' u sys1 = Some sys2 \<and> mutex sys2 = None))"
      if env: "env_fits sys u env" for env
    proof (cases "p u")
      case (Holding s)
      then show ?thesis using body_ok [OF inv Holding env [unfolded sys]] sys by (auto simp: turn_simps)
    next
      case (Unlocking c)
      then show ?thesis using sys by (simp add: turn_simps)
    qed (use h in auto)
    then show ?thesis using u ne sys by auto
  qed
  ultimately show ?thesis by blast
qed

theorem log_threads_progress_witness:
  "\<exists>u. u \<noteq> 2 \<and> mutex two_writers = Some u \<and> (\<exists>sys. log_turn demo_env u two_writers = Some sys \<and>
    (mutex sys = None \<or> (\<exists>sys2. log_turn demo_env u sys = Some sys2 \<and> mutex sys2 = None)))"
proof -
  have "blocked two_writers 2" "env_fits two_writers u demo_env" for u
    by (simp_all add: two_writers_def blocked_def demo_fits one_log_facts(2))
  then show ?thesis using log_threads_progress [OF demo_run_write, of 2] by blast
qed

text \<open>A call that is not disturbed, made while nobody holds the mutex, does in its steps exactly what the function does as one step,
  undefined behaviour included, with the same result and the mutex free again.\<close>

theorem log_call_alone:
  assumes "mutex sys = None"
  shows "do { sys' \<leftarrow> log_begin env t op sys; log_turns 5 env t sys' } =
      map_option (\<lambda>(r, st). sys\<lparr>base := st, pcs := (pcs sys)(t := Outside r)\<rparr>) (log_call env op (base sys)) \<and>
    map_option snd (log_call env op (base sys)) = log_step env op (base sys)"
proof -
  obtain st p where "sys = \<lparr>base = st, mutex = None, pcs = p\<rparr>" using assms by (cases sys rule: log_sys.cases) auto
  then show ?thesis using call_alone [of env t op st p] log_call_step by simp
qed

theorem log_call_alone_witness:
  "do { sys \<leftarrow> log_begin demo_env 3 (L_flush 0) \<lparr>base = one_log, mutex = None, pcs = (\<lambda>t. Outside 0)\<rparr>; log_turns 5 demo_env 3 sys } =
    Some \<lparr>base = log_flush 0 one_log, mutex = None, pcs = (\<lambda>t. Outside 0)\<rparr>"
  using log_call_alone [of "\<lparr>base = one_log, mutex = None, pcs = (\<lambda>t. Outside 0)\<rparr>" demo_env 3 "L_flush 0"] by (simp add: fun_upd_idem)

text \<open>C27: what goes wrong when calls that exclude each other overlap: of two threads that reopen a log the second one passes
  NULL to \<open>fclose\<close>; a thread that renames a log while another one closes it frees the name twice; and a thread in
  \<open>log_write_direct\<close> flushes a stream that another one has closed in the meantime because the log had to be rotated.\<close>

theorem log_threads_races:
  assumes "log_inv st" "good_id i" "in_use (log_at st i)" "filename (log_at st i) = F_str n" "logfile (log_at st i) = Some f" "t \<noteq> u"
  shows "(\<exists>sys. do { s \<leftarrow> log_begin env t (L_reopen i) \<lparr>base = st, mutex = None, pcs = p\<rparr>; s \<leftarrow> log_begin env u (L_reopen i) s;
      s \<leftarrow> log_turns 3 env t s; log_turns 1 env u s } = Some sys \<and> log_turn env u sys = None) \<and>
    (\<exists>sys. do { s \<leftarrow> log_begin env t (L_filename i (Some ''x'')) \<lparr>base = st, mutex = None, pcs = p\<rparr>; s \<leftarrow> log_begin env u (L_close i) s;
      s \<leftarrow> log_turns 3 env u s; log_turns 1 env t s } = Some sys \<and> log_turn env t sys = None) \<and>
    (rotates_after env st i fmt ap \<and> write_start env i priority cat func fmt' ap' st = Some (Locking (S_write i pre line')) \<longrightarrow>
      (\<exists>sys. do { s \<leftarrow> log_begin env t (L_write_direct i fmt ap) \<lparr>base = st, mutex = None, pcs = p\<rparr>; s \<leftarrow> log_turns 4 env t s;
        s \<leftarrow> log_begin env u (L_write i priority cat func fmt' ap') s; s \<leftarrow> log_turns 3 env u s; log_turn env t s } = Some sys \<and>
        \<not> io_ok {} (io (base sys))))"
  using race_reopen [OF assms(1,2,4,5,6)] race_close [OF assms(1-4,6)] race_direct [OF assms] by blast

theorem log_threads_races_witness:
  "\<exists>st sys. in_use (log_at st 0) \<and> do { s \<leftarrow> log_begin demo_env 1 (L_reopen 0) \<lparr>base = st, mutex = None, pcs = (\<lambda>t. Outside 0)\<rparr>;
      s \<leftarrow> log_begin demo_env 2 (L_reopen 0) s; s \<leftarrow> log_turns 3 demo_env 1 s; log_turns 1 demo_env 2 s } = Some sys \<and>
    log_turn demo_env 2 sys = None"
proof -
  obtain ass where a: "logs_inv demo_state ass" using demo_facts(1) by (auto simp: log_inv_def)
  let ?l = "demo_log\<lparr>filename := F_str ''a.log''\<rparr>"
  have "log_ok demo_log (eheap demo_state) (ass ! 0)"
    using logs_invD(1) [OF a, of 0] demo_facts(4) by (simp add: LOG_MAXLOGS_def log_at_def)
  then have "log_ok ?l (eheap demo_state) (ass ! nat 0)" 
    unfolding nat_zero_as_int [symmetric] by (simp add: log_ok_def ring_def ring0_def tail_ok_def demo_log_def split: if_splits)
  from set_log_keeps(1) [OF a demo_facts(3) this] have inv: "log_inv (set_log 0 ?l demo_state)" by (auto simp: log_inv_def)
  have at: "log_at (set_log 0 ?l demo_state) 0 = ?l" by (simp add: set_log_def log_at_def demo_state_def)
  have "in_use ?l" "filename ?l = F_str ''a.log''" "logfile ?l = Some 5" by (simp_all add: demo_log_def)
  then show ?thesis
    using log_threads_races [OF inv demo_facts(3), where t = 1 and u = 2 and env = demo_env and p = "\<lambda>t. Outside 0"] unfolding at
    by (intro exI [of _ "set_log 0 ?l demo_state"]) (simp add: at)
qed

end
