(* ===== verification/Sock_Defs.thy ===== *)
theory Sock_Defs
  imports Log_Format
begin

text \<open>
  The parts of \<^verbatim>\<open>src/net/sock.c\<close> that have logic of their own: error classification, reading a line, formatted writing, waiting for a
  connection, connecting and binding. The variant with \<open>getaddrinfo\<close>, \<open>poll\<close> and a standard \<open>vsnprintf\<close> is modelled, with the
  error numbers of Linux.

  The calls of the operating system are the fields of a record; they act on a state of any type. Next to that state the model
  keeps what the program must account for: the descriptors it has open, those that are in non-blocking mode, and the number of
  address lists that it has not freed.
\<close>

section \<open>The operating system\<close>

datatype family = AF_UNSPEC | AF_UNIX | AF_INET | AF_INET6 | AF_DECnet | AF_other

record addrinfo =
  ai_family :: family
  ai_addr :: string

record 'u os =
  os_errno :: "'u \<Rightarrow> int"
  os_set_errno :: "int \<Rightarrow> 'u \<Rightarrow> 'u"
  os_getaddrinfo :: "string option \<Rightarrow> string option \<Rightarrow> 'u \<Rightarrow> addrinfo list option \<times> 'u"
  os_socket :: "addrinfo \<Rightarrow> 'u \<Rightarrow> int \<times> 'u"
  os_close :: "int \<Rightarrow> 'u \<Rightarrow> int \<times> 'u"
  os_sotype :: "int \<Rightarrow> 'u \<Rightarrow> bool"
  os_fcntl :: "int \<Rightarrow> bool \<Rightarrow> 'u \<Rightarrow> int \<times> 'u"
  os_bind :: "int \<Rightarrow> addrinfo \<Rightarrow> 'u \<Rightarrow> int \<times> 'u"
  os_connect :: "int \<Rightarrow> addrinfo \<Rightarrow> 'u \<Rightarrow> int \<times> 'u"
  os_poll :: "int \<Rightarrow> int \<Rightarrow> 'u \<Rightarrow> int \<times> 'u"
  os_soerror :: "int \<Rightarrow> 'u \<Rightarrow> (int \<times> int) \<times> 'u"
  os_setsockopt :: "int \<Rightarrow> string \<Rightarrow> 'u \<Rightarrow> int \<times> 'u"
  os_recv :: "int \<Rightarrow> nat \<Rightarrow> 'u \<Rightarrow> int \<times> string \<times> 'u"
  os_send :: "int \<Rightarrow> string \<Rightarrow> 'u \<Rightarrow> int \<times> 'u"

record 'u net =
  opened :: "int set"
  nonblocking :: "int set"
  ai_lists :: nat
  world :: 'u

definition SOCK_ERROR :: int where "SOCK_ERROR = -1"
definition SOCK_TIMEOUT :: int where "SOCK_TIMEOUT = -2"

lemmas sock_consts = SOCK_ERROR_def SOCK_TIMEOUT_def

definition net_socket :: "'u os \<Rightarrow> addrinfo \<Rightarrow> 'u net \<Rightarrow> int \<times> 'u net" where
  "net_socket os ai s =
     (let (fd, u) = os_socket os ai (world s)
      in if fd < 0 then (fd, s\<lparr>world := u\<rparr>)
         else (fd, s\<lparr>opened := insert fd (opened s), nonblocking := nonblocking s - {fd}, world := u\<rparr>))"

definition net_bind :: "'u os \<Rightarrow> int \<Rightarrow> addrinfo \<Rightarrow> 'u net \<Rightarrow> int \<times> 'u net" where
  "net_bind os fd ai s = (let (r, u) = os_bind os fd ai (world s) in (r, s\<lparr>world := u\<rparr>))"

definition net_connect :: "'u os \<Rightarrow> int \<Rightarrow> addrinfo \<Rightarrow> 'u net \<Rightarrow> int \<times> 'u net" where
  "net_connect os fd ai s = (let (r, u) = os_connect os fd ai (world s) in (r, s\<lparr>world := u\<rparr>))"

definition net_getaddrinfo :: "'u os \<Rightarrow> string option \<Rightarrow> string option \<Rightarrow> 'u net \<Rightarrow> addrinfo list option \<times> 'u net" where
  "net_getaddrinfo os host service s =
     (let (r, u) = os_getaddrinfo os host service (world s)
      in (r, s\<lparr>ai_lists := (if r = None then ai_lists s else ai_lists s + 1), world := u\<rparr>))"

definition net_freeaddrinfo :: "'u net \<Rightarrow> 'u net" where
  "net_freeaddrinfo s = s\<lparr>ai_lists := ai_lists s - 1\<rparr>"

definition net_setsockopt :: "'u os \<Rightarrow> int \<Rightarrow> string \<Rightarrow> 'u net \<Rightarrow> int \<times> 'u net" where
  "net_setsockopt os fd opt s = (let (r, u) = os_setsockopt os fd opt (world s) in (r, s\<lparr>world := u\<rparr>))"

section \<open>Errors and options\<close>

definition sock_error :: "'u os \<Rightarrow> 'u net \<Rightarrow> int" where
  "sock_error os s = os_errno os (world s)"

definition sock_set_error :: "'u os \<Rightarrow> int \<Rightarrow> 'u net \<Rightarrow> 'u net" where
  "sock_set_error os val s = s\<lparr>world := os_set_errno os val (world s)\<rparr>"

definition EAGAIN :: int where "EAGAIN = 11"
definition EINTR :: int where "EINTR = 4"
definition EINPROGRESS :: int where "EINPROGRESS = 115"
definition EALREADY :: int where "EALREADY = 114"
definition ERESTART :: int where "ERESTART = 85"

lemmas errnos = EAGAIN_def EINTR_def EINPROGRESS_def EALREADY_def ERESTART_def

definition sock_recoverable :: "int \<Rightarrow> bool" where
  "sock_recoverable err \<longleftrightarrow> err = 0 \<or> err = EAGAIN \<or> err = EINTR \<or> err = EINPROGRESS \<or> err = ERESTART"

definition sock_connect_pending :: "int \<Rightarrow> bool" where
  "sock_connect_pending err \<longleftrightarrow> err = EINPROGRESS \<or> err = EALREADY"

definition sock_valid_socket :: "'u os \<Rightarrow> int \<Rightarrow> 'u net \<Rightarrow> bool" where
  "sock_valid_socket os sock s = os_sotype os sock (world s)"

definition sock_set_blocking :: "'u os \<Rightarrow> int \<Rightarrow> int \<Rightarrow> 'u net \<Rightarrow> int \<times> 'u net" where
  "sock_set_blocking os sock block s =
     (if \<not> sock_valid_socket os sock s \<or> block < 0 \<or> block > 1 then (SOCK_ERROR, s)
      else
        (let (r, u) = os_fcntl os sock (block = 0) (world s)
         in (r, s\<lparr>nonblocking := (if r < 0 then nonblocking s else if block = 0 then insert sock (nonblocking s) else nonblocking s - {sock}),
                world := u\<rparr>)))"

definition sock_close :: "'u os \<Rightarrow> int \<Rightarrow> 'u net \<Rightarrow> int \<times> 'u net" where
  "sock_close os sock s =
     (let (r, u) = os_close os sock (world s)
      in (r, s\<lparr>opened := opened s - {sock}, nonblocking := nonblocking s - {sock}, world := u\<rparr>))"

definition sock_set_nolinger :: "'u os \<Rightarrow> int \<Rightarrow> 'u net \<Rightarrow> int \<times> 'u net" where
  "sock_set_nolinger os sock s = net_setsockopt os sock ''SO_LINGER'' s"

definition sock_set_keepalive :: "'u os \<Rightarrow> int \<Rightarrow> 'u net \<Rightarrow> int \<times> 'u net" where
  "sock_set_keepalive os sock s = net_setsockopt os sock ''SO_KEEPALIVE'' s"

definition sock_set_nodelay :: "'u os \<Rightarrow> int \<Rightarrow> 'u net \<Rightarrow> int \<times> 'u net" where
  "sock_set_nodelay os sock s = net_setsockopt os sock ''TCP_NODELAY'' s"

section \<open>Reading and writing\<close>

text \<open>\<open>recv (sock, &c, 1, 0)\<close>: the result and \<open>c\<close>, which keeps its value when nothing has been read.\<close>

definition recv_char :: "'u os \<Rightarrow> int \<Rightarrow> char \<Rightarrow> 'u net \<Rightarrow> int \<times> char \<times> 'u net" where
  "recv_char os sock c s =
     (let (r, bs, u) = os_recv os sock 1 (world s) in (r, (if r = 1 \<and> bs \<noteq> [] then hd bs else c), s\<lparr>world := u\<rparr>))"

text \<open>The loop of \<open>sock_read_line\<close>: what has been stored (\<open>pos\<close> is its length), the last character and the last result.\<close>

partial_function (option) read_line_loop ::
  "'u os \<Rightarrow> int \<Rightarrow> nat \<Rightarrow> char \<Rightarrow> int \<Rightarrow> string \<Rightarrow> 'u net \<Rightarrow> (string \<times> int \<times> 'u net) option" where
  "read_line_loop os sock len c read_bytes buff s =
     (if c \<noteq> LF \<and> length buff < len \<and> read_bytes = 1 then
        (let buff = (if c \<noteq> CR then buff @ [c] else buff);
             (read_bytes, c, s) = recv_char os sock c s
         in read_line_loop os sock len c read_bytes buff s)
      else Some (buff, read_bytes, s))"

text \<open>The result, the bytes stored at \<open>buff\<close> (the terminating zero included) and the state. \<open>buff\<close> says whether the pointer is not
  NULL. How large the caller's buffer is, is not known here: the bytes are all that is stored.\<close>

definition sock_read_line :: "'u os \<Rightarrow> int \<Rightarrow> bool \<Rightarrow> int \<Rightarrow> 'u net \<Rightarrow> (int \<times> string \<times> 'u net) option" where
  "sock_read_line os sock buff len s =
     (if \<not> buff then Some (0, [], s)
      else if len \<le> 0 then Some (0, [], s)
      else
        (let (read_bytes, c, s) = recv_char os sock NUL s
         in if read_bytes < 0 then Some (0, [], s)
            else do {
              (line, read_bytes, s) \<leftarrow> read_line_loop os sock (nat len) c read_bytes [] s;
              if read_bytes = 1 then Some (1, line @ [NUL], s) else Some (0, line, s) }))"

definition sock_write_bytes :: "'u os \<Rightarrow> int \<Rightarrow> string option \<Rightarrow> 'u net \<Rightarrow> int \<times> 'u net" where
  "sock_write_bytes os sock buff s =
     (case buff of None \<Rightarrow> (SOCK_ERROR, s)
      | Some b \<Rightarrow> if b = [] then (SOCK_ERROR, s)
         else (let (r, u) = os_send os sock b (world s) in (r, s\<lparr>world := u\<rparr>)))"

text \<open>\<open>text\<close> is what the format and its arguments print (\<open>None\<close>: \<open>vsnprintf\<close> reports an error).\<close>

definition sock_write_fmt :: "(nat \<Rightarrow> bool) \<Rightarrow> 'u os \<Rightarrow> int \<Rightarrow> string option \<Rightarrow> 'u net \<Rightarrow> int \<times> 'u net" where
  "sock_write_fmt mem os sock text s =
     (case text of None \<Rightarrow> (SOCK_ERROR, s)
      | Some t \<Rightarrow>
         if length t > 0 then
           (if length t < 1024 then sock_write_bytes os sock (Some t) s
            else if mem (length t + 1) then sock_write_bytes os sock (Some t) s else (SOCK_ERROR, s))
         else (SOCK_ERROR, s))"

definition sock_read_bytes :: "'u os \<Rightarrow> int \<Rightarrow> bool \<Rightarrow> nat \<Rightarrow> 'u net \<Rightarrow> int \<times> string \<times> 'u net" where
  "sock_read_bytes os sock buff len s =
     (if \<not> buff then (0, [], s)
      else if len = 0 then (0, [], s)
      else (let (r, bs, u) = os_recv os sock len (world s) in (r, bs, s\<lparr>world := u\<rparr>)))"

section \<open>Connecting\<close>

text \<open>\<open>timeout*1000\<close> overflows for more than 2147483 seconds.\<close>

definition sock_connected :: "'u os \<Rightarrow> int \<Rightarrow> int \<Rightarrow> 'u net \<Rightarrow> (int \<times> 'u net) option" where
  "sock_connected os sock timeout s =
     (if timeout * 1000 < - (2 ^ 31) \<or> timeout * 1000 \<ge> 2 ^ 31 then None
      else
        (let (p, u) = os_poll os sock (timeout * 1000) (world s);
             s = s\<lparr>world := u\<rparr>;
             failed = (\<lambda>s. if sock_recoverable (sock_error os s) then (0, s) else (SOCK_ERROR, s))
         in if p = 0 then Some (SOCK_TIMEOUT, s)
            else if p = -1 then Some (failed s)
            else
              (let ((r, val), u) = os_soerror os sock (world s);
                   s = s\<lparr>world := u\<rparr>
               in if r = 0 then (if val = 0 then Some (1, s) else Some (failed (sock_set_error os val s)))
                  else Some (failed s))))"

text \<open>The loop around it in \<open>sock_connect_wto_bind\<close>.\<close>

partial_function (option) connect_wait :: "'u os \<Rightarrow> int \<Rightarrow> int \<Rightarrow> 'u net \<Rightarrow> (int \<times> 'u net) option" where
  "connect_wait os sock timeout s =
     (if sock_recoverable (sock_error os s) then do {
        (connected, s) \<leftarrow> sock_connected os sock timeout s;
        if connected = 0 then connect_wait os sock timeout s
        else if connected = 1 then
          Some (sock, if timeout \<ge> 0 then snd (sock_set_blocking os sock 1 s) else s)
        else Some (SOCK_ERROR, snd (sock_close os sock s)) }
      else Some (SOCK_ERROR, snd (sock_close os sock s)))"

text \<open>Binding to the local address \<open>bnd\<close>: whether the loop can go on, and \<open>b_head\<close>. An empty list of addresses would be
  dereferenced.\<close>

definition bind_local :: "'u os \<Rightarrow> int \<Rightarrow> string option \<Rightarrow> bool \<Rightarrow> 'u net \<Rightarrow> (bool \<times> bool \<times> 'u net) option" where
  "bind_local os sock bnd bhead s =
     (case bnd of None \<Rightarrow> Some (True, bhead, s)
      | Some b \<Rightarrow>
          (let (res, s) = net_getaddrinfo os (Some b) None s
           in case res of None \<Rightarrow> Some (False, bhead, s)
              | Some [] \<Rightarrow> None
              | Some (b_ai # _) \<Rightarrow> (let (r, s) = net_bind os sock b_ai s in Some (\<not> r < 0, True, s))))"

text \<open>The loop over the addresses; \<open>bhead\<close> says whether \<open>b_head\<close> is set. It is overwritten without being freed.\<close>

fun connect_loop :: "'u os \<Rightarrow> addrinfo list \<Rightarrow> string option \<Rightarrow> int \<Rightarrow> int \<Rightarrow> bool \<Rightarrow> 'u net \<Rightarrow> (int \<times> bool \<times> 'u net) option" where
  "connect_loop os [] bnd timeout sock bhead s = Some (sock, bhead, s)"
| "connect_loop os (ai # rest) bnd timeout sock bhead s =
     (let (sock, s) = net_socket os ai s
      in if sock \<ge> 0 then
           (let s = (if timeout > 0 then snd (sock_set_blocking os sock 0 s) else s)
            in case bind_local os sock bnd bhead s of None \<Rightarrow> None
               | Some (bound, bhead, s) \<Rightarrow>
                   if \<not> bound then Some (SOCK_ERROR, bhead, snd (sock_close os sock s))
                   else
                     (let (c, s) = net_connect os sock ai s
                      in if c = 0 then Some (sock, bhead, s)
                         else
                           (case connect_wait os sock timeout s of None \<Rightarrow> None
                            | Some (sock, s) \<Rightarrow>
                                if sock \<noteq> SOCK_ERROR then Some (sock, bhead, s)
                                else connect_loop os rest bnd timeout sock bhead s)))
         else connect_loop os rest bnd timeout sock bhead s)"

text \<open>\<open>snprintf (service, sizeof (service), "%u", port)\<close> with \<open>char service[8]\<close>.\<close>

definition port_service :: "uint \<Rightarrow> string" where
  "port_service port = take 7 (print_dec (unat port))"

definition sock_connect_wto_bind :: "'u os \<Rightarrow> string \<Rightarrow> int \<Rightarrow> string option \<Rightarrow> int \<Rightarrow> 'u net \<Rightarrow> (int \<times> 'u net) option" where
  "sock_connect_wto_bind os hostname port bnd timeout s =
     (case net_getaddrinfo os (Some hostname) (Some (port_service (word_of_int port))) s of
        (None, s) \<Rightarrow> Some (SOCK_ERROR, s)
      | (Some ais, s) \<Rightarrow> do {
          (sock, bhead, s) \<leftarrow> connect_loop os ais bnd timeout SOCK_ERROR False s;
          Some (sock, net_freeaddrinfo (if bhead then net_freeaddrinfo s else s)) })"

definition sock_connect_wto :: "'u os \<Rightarrow> string \<Rightarrow> int \<Rightarrow> int \<Rightarrow> 'u net \<Rightarrow> (int \<times> 'u net) option" where
  "sock_connect_wto os hostname port timeout s = sock_connect_wto_bind os hostname port None timeout s"

fun nonblock_loop :: "'u os \<Rightarrow> addrinfo list \<Rightarrow> int \<Rightarrow> 'u net \<Rightarrow> int \<times> 'u net" where
  "nonblock_loop os [] sock s = (sock, s)"
| "nonblock_loop os (ai # rest) sock s =
     (let (sock, s) = net_socket os ai s
      in if sock > -1 then
           (let s = snd (sock_set_blocking os sock 0 s);
                (c, s) = net_connect os sock ai s
            in if c < 0 \<and> \<not> sock_connect_pending (sock_error os s)
               then nonblock_loop os rest SOCK_ERROR (snd (sock_close os sock s))
               else (sock, s))
         else nonblock_loop os rest sock s)"

definition sock_connect_non_blocking :: "'u os \<Rightarrow> string \<Rightarrow> uint \<Rightarrow> 'u net \<Rightarrow> int \<times> 'u net" where
  "sock_connect_non_blocking os hostname port s =
     (case net_getaddrinfo os (Some hostname) (Some (port_service port)) s of
        (None, s) \<Rightarrow> (SOCK_ERROR, s)
      | (Some ais, s) \<Rightarrow> (let (sock, s) = nonblock_loop os ais SOCK_ERROR s in (sock, net_freeaddrinfo s)))"

section \<open>Server sockets\<close>

fun server_loop :: "'u os \<Rightarrow> addrinfo list \<Rightarrow> bool \<Rightarrow> 'u net \<Rightarrow> int option \<times> 'u net" where
  "server_loop os [] prefer_inet6 s = (None, s)"
| "server_loop os (ai # rest) prefer_inet6 s =
     (if prefer_inet6 \<and> ai_family ai \<noteq> AF_INET6 then server_loop os rest prefer_inet6 s
      else
        (let (sock, s) = net_socket os ai s
         in if sock < 0 then server_loop os rest prefer_inet6 s
            else
              (let s = snd (net_setsockopt os sock ''SO_REUSEADDR'' s);
                   s = snd (net_setsockopt os sock ''IPV6_V6ONLY'' s);
                   (r, s) = net_bind os sock ai s
               in if r < 0 then server_loop os rest prefer_inet6 (snd (sock_close os sock s))
                  else (Some sock, s))))"

text \<open>\<open>snprintf (service, 16, "%d", port)\<close>; an \<open>int\<close> fits.\<close>

definition sock_get_server_socket :: "'u os \<Rightarrow> int \<Rightarrow> string option \<Rightarrow> bool \<Rightarrow> 'u net \<Rightarrow> int \<times> 'u net" where
  "sock_get_server_socket os port sinterface prefer_inet6 s =
     (if port < 0 then (SOCK_ERROR, s)
      else
        (case net_getaddrinfo os sinterface (Some (take 15 (print_int port))) s of
           (None, s) \<Rightarrow> (SOCK_ERROR, s)
         | (Some res, s) \<Rightarrow>
             (case server_loop os res prefer_inet6 s of
                (Some sock, s) \<Rightarrow> (sock, net_freeaddrinfo s)
              | (None, s) \<Rightarrow>
                  if \<not> prefer_inet6 then (SOCK_ERROR, net_freeaddrinfo s)
                  else
                    (case server_loop os res False s of
                       (Some sock, s) \<Rightarrow> (sock, net_freeaddrinfo s)
                     | (None, s) \<Rightarrow> (SOCK_ERROR, net_freeaddrinfo s)))))"

section \<open>Families\<close>

datatype sock_family = SOCK_FAMILY__ERROR | SOCK_FAMILY_UNSPEC | SOCK_FAMILY_UNIX | SOCK_FAMILY_INET4 | SOCK_FAMILY_INET6 | SOCK_FAMILY_DECnet

text \<open>\<open>getsockname\<close> yields a family or fails.\<close>

definition sock_get_family :: "family option \<Rightarrow> sock_family" where
  "sock_get_family addr =
     (case addr of None \<Rightarrow> SOCK_FAMILY__ERROR
      | Some AF_UNSPEC \<Rightarrow> SOCK_FAMILY_UNSPEC
      | Some AF_UNIX \<Rightarrow> SOCK_FAMILY_UNIX
      | Some AF_INET \<Rightarrow> SOCK_FAMILY_INET4
      | Some AF_INET6 \<Rightarrow> SOCK_FAMILY_INET6
      | Some AF_DECnet \<Rightarrow> SOCK_FAMILY_DECnet
      | Some AF_other \<Rightarrow> SOCK_FAMILY__ERROR)"

fun sock_family_to_string :: "sock_family \<Rightarrow> string" where
  "sock_family_to_string SOCK_FAMILY__ERROR = ''<error>''"
| "sock_family_to_string SOCK_FAMILY_UNSPEC = ''UNSPEC''"
| "sock_family_to_string SOCK_FAMILY_UNIX = ''UNIX''"
| "sock_family_to_string SOCK_FAMILY_INET4 = ''INET4''"
| "sock_family_to_string SOCK_FAMILY_INET6 = ''INET6''"
| "sock_family_to_string SOCK_FAMILY_DECnet = ''DECnet''"

end
