(* ===== verification/Sock.thy ===== *)
theory Sock
  imports Sock_Defs
begin

text \<open>
  The correctness of the modelled part of \<^verbatim>\<open>src/net/sock.c\<close>: reading lines, and the descriptors and address lists that connecting and
  binding use up, for every operating system that keeps its books on descriptors.
\<close>

section \<open>Reading a line\<close>

text \<open>A peer whose data arrive in order: \<open>data\<close> is what has not been read yet.\<close>

definition delivers_data :: "'u os \<Rightarrow> int \<Rightarrow> ('u \<Rightarrow> string) \<Rightarrow> bool" where
  "delivers_data os sock data \<longleftrightarrow>
     (\<forall>u. case data u of [] \<Rightarrow> fst (os_recv os sock 1 u) \<le> 0
        | c # cs \<Rightarrow> (\<exists>u'. os_recv os sock 1 u = (1, [c], u') \<and> data u' = cs))"

lemma recv_char_data:
  assumes "delivers_data os sock data" "data (world s) = d # ds"
  obtains s' where "recv_char os sock c s = (1, d, s')" "data (world s') = ds"
  using assms unfolding delivers_data_def recv_char_def by (fastforce split: list.splits dest: spec [of _ "world s"])

abbreviation stored_chars :: "string \<Rightarrow> string" where
  "stored_chars l \<equiv> filter (\<lambda>c. c \<noteq> CR) l"

lemma read_line_step:
  assumes "c \<noteq> LF" "length buff < len" "recv_char os sock c s = (1, e, s1)"
  shows "read_line_loop os sock len c 1 buff s = read_line_loop os sock len e 1 (if c \<noteq> CR then buff @ [c] else buff) s1"
  using assms by (simp add: read_line_loop.simps [of os sock len c 1 buff s])

lemma read_line_loop_fits:
  assumes d: "delivers_data os sock data"
  shows "c # data (world s) = l @ LF # rest \<Longrightarrow> LF \<notin> set l \<Longrightarrow> length buff + length (stored_chars l) < len \<Longrightarrow>
    \<exists>s'. read_line_loop os sock len c 1 buff s = Some (buff @ stored_chars l, 1, s') \<and> data (world s') = rest"
proof (induction l arbitrary: c buff s)
  case Nil
  then show ?case by (simp add: read_line_loop.simps [of _ _ _ LF])
next
  case (Cons a l)
  then have c: "c = a" "c \<noteq> LF" and w: "data (world s) = l @ LF # rest" by auto
  then obtain e es where e: "l @ LF # rest = e # es" by (cases l) auto
  obtain s1 where s1: "recv_char os sock c s = (1, e, s1)" "data (world s1) = es"
    using recv_char_data [OF d w [unfolded e]] .
  have "\<exists>s'. read_line_loop os sock len e 1 (if c \<noteq> CR then buff @ [c] else buff) s1 =
      Some ((if c \<noteq> CR then buff @ [c] else buff) @ stored_chars l, 1, s') \<and> data (world s') = rest"
    by (rule Cons.IH) (use Cons.prems c e s1 in auto)
  moreover have "length buff < len" using Cons.prems by auto
  ultimately show ?case using read_line_step [OF c(2) _ s1(1), of buff len] c(1) by (cases "c = CR") auto
qed

lemma read_line_loop_full:
  assumes d: "delivers_data os sock data"
  shows "c # data (world s) = l @ LF # rest \<Longrightarrow> LF \<notin> set l \<Longrightarrow> length buff \<le> len \<Longrightarrow> len \<le> length buff + length (stored_chars l) \<Longrightarrow>
    \<exists>b s'. read_line_loop os sock len c 1 buff s = Some (b, 1, s') \<and> length b = len"
proof (induction l arbitrary: c buff s)
  case Nil
  then show ?case by (simp add: read_line_loop.simps [of _ _ _ LF])
next
  case (Cons a l)
  show ?case
  proof (cases "length buff = len")
    case True
    then show ?thesis by (simp add: read_line_loop.simps [of _ _ _ c])
  next
    case False
    from Cons have c: "c = a" "c \<noteq> LF" and w: "data (world s) = l @ LF # rest" by auto
    then obtain e es where e: "l @ LF # rest = e # es" by (cases l) auto
    obtain s1 where s1: "recv_char os sock c s = (1, e, s1)" "data (world s1) = es"
      using recv_char_data [OF d w [unfolded e]] .
    have "\<exists>b s'. read_line_loop os sock len e 1 (if c \<noteq> CR then buff @ [c] else buff) s1 = Some (b, 1, s') \<and> length b = len"
      by (rule Cons.IH) (use Cons.prems c e s1 False in auto)
    moreover have "length buff < len" using False Cons.prems(3) by simp
    ultimately show ?thesis using read_line_step [OF c(2) _ s1(1), of buff len] by simp
  qed
qed

lemma sock_read_line_ok:
  assumes "delivers_data os sock data" "data (world s) = line @ LF # rest" "LF \<notin> set line" "0 < len"
  shows "\<exists>buf s'. sock_read_line os sock True len s = Some (1, buf, s') \<and>
    (if length (stored_chars line) < nat len then buf = stored_chars line @ [NUL] \<and> data (world s') = rest
     else length buf = nat len + 1)"
proof -
  obtain e es where e: "line @ LF # rest = e # es" by (cases line) auto
  obtain s1 where s1: "recv_char os sock NUL s = (1, e, s1)" "data (world s1) = es"
    using recv_char_data [OF assms(1,2) [unfolded e]] .
  have w: "e # data (world s1) = line @ LF # rest" using e s1 by simp
  have step: "sock_read_line os sock True len s = do {
      (line, read_bytes, s) \<leftarrow> read_line_loop os sock (nat len) e 1 [] s1;
      if read_bytes = 1 then Some (1, line @ [NUL], s) else Some (0, line, s) }"
    using assms(4) by (simp add: sock_read_line_def s1)
  show ?thesis
  proof (cases "length (stored_chars line) < nat len")
    case True
    then show ?thesis using read_line_loop_fits [OF assms(1) w assms(3), of "[]" "nat len"] by (auto simp: step)
  next
    case False
    then show ?thesis using read_line_loop_full [OF assms(1) w assms(3), of "[]" "nat len"] by (auto simp: step)
  qed
qed

section \<open>Descriptors\<close>

text \<open>What is relied on of the operating system: \<open>fds u\<close> are the descriptors that the process has open; a new socket gets one
  that is free, closing gives it back, and no other call changes the set.\<close>

definition os_ok :: "'u os \<Rightarrow> ('u \<Rightarrow> int set) \<Rightarrow> bool" where
  "os_ok os fds \<longleftrightarrow>
     (\<forall>ai u. let (fd, u') = os_socket os ai u
        in if fd < 0 then fds u' = fds u else fd \<notin> fds u \<and> fds u' = insert fd (fds u)) \<and>
     (\<forall>fd u. fds (snd (os_close os fd u)) = fds u - {fd}) \<and>
     (\<forall>fd ai u. fds (snd (os_bind os fd ai u)) = fds u) \<and> (\<forall>fd ai u. fds (snd (os_connect os fd ai u)) = fds u) \<and>
     (\<forall>fd t u. fds (snd (os_poll os fd t u)) = fds u) \<and> (\<forall>fd u. fds (snd (os_soerror os fd u)) = fds u) \<and>
     (\<forall>fd b u. fds (snd (os_fcntl os fd b u)) = fds u) \<and> (\<forall>fd n u. fds (snd (os_setsockopt os fd n u)) = fds u) \<and>
     (\<forall>v u. fds (os_set_errno os v u) = fds u) \<and> (\<forall>h n u. fds (snd (os_getaddrinfo os h n u)) = fds u)"

text \<open>Waiting is interrupted only finitely often.\<close>

definition waits_end :: "'u os \<Rightarrow> ('u \<Rightarrow> nat) \<Rightarrow> bool" where
  "waits_end os m \<longleftrightarrow> (\<forall>fd t s s'. sock_connected os fd t s = Some (0, s') \<longrightarrow> m (world s') < m (world s))"

definition owns :: "('u \<Rightarrow> int set) \<Rightarrow> 'u net \<Rightarrow> bool" where
  "owns fds s \<longleftrightarrow> opened s \<subseteq> fds (world s)"

text \<open>Nothing has been opened, closed or freed between two states.\<close>

definition same_fds :: "('u \<Rightarrow> int set) \<Rightarrow> 'u net \<Rightarrow> 'u net \<Rightarrow> bool" where
  "same_fds fds s s' \<longleftrightarrow> opened s' = opened s \<and> fds (world s') = fds (world s) \<and> ai_lists s' = ai_lists s"

lemma same_refl [simp]: "same_fds fds s s"
  by (simp add: same_fds_def)

lemma same_trans: "same_fds fds s s1 \<Longrightarrow> same_fds fds s1 s2 \<Longrightarrow> same_fds fds s s2"
  by (simp add: same_fds_def)

lemma same_ops:
  assumes "os_ok os fds"
  shows "same_fds fds s (snd (net_bind os fd ai s))" "same_fds fds s (snd (net_connect os fd ai s))"
    "same_fds fds s (snd (net_setsockopt os fd opt s))" "same_fds fds s (snd (sock_set_blocking os fd b s))"
    "same_fds fds s (sock_set_error os v s)"
proof -
  have f: "fds (snd (os_fcntl os fd c u)) = fds u" for c u using assms by (simp add: os_ok_def)
  show "same_fds fds s (snd (sock_set_blocking os fd b s))"
    using f [of "b = 0" "world s"]
    by (cases "os_fcntl os fd (b = 0) (world s)") (simp add: sock_set_blocking_def same_fds_def)
qed (use assms in \<open>simp_all add: os_ok_def same_fds_def net_bind_def net_connect_def net_setsockopt_def sock_set_error_def split_beta\<close>)

lemma connected_same:
  assumes "os_ok os fds" "sock_connected os fd t s = Some (r, s')"
  shows "same_fds fds s s'"
proof -
  obtain p u where p: "os_poll os fd (t * 1000) (world s) = (p, u)" by fastforce
  obtain r1 v u1 where e: "os_soerror os fd u = ((r1, v), u1)" by (metis surj_pair)
  have "fds u = fds (world s)" "fds u1 = fds u" "fds (os_set_errno os v u1) = fds u1"
    using assms(1) p e unfolding os_ok_def by (metis snd_conv)+
  then show ?thesis
    using assms(2) p e by (auto simp: sock_connected_def Let_def same_fds_def sock_set_error_def split: if_splits)
qed

lemma connected_defined:
  assumes "- 2147483 \<le> t" "t \<le> 2147483"
  shows "\<exists>r s'. sock_connected os fd t s = Some (r, s')"
  using assms by (auto simp: sock_connected_def Let_def split_beta)

lemma close_fds:
  assumes "os_ok os fds"
  shows "opened (snd (sock_close os fd s)) = opened s - {fd}" "fds (world (snd (sock_close os fd s))) = fds (world s) - {fd}"
    "ai_lists (snd (sock_close os fd s)) = ai_lists s"
  using assms by (simp_all add: sock_close_def os_ok_def split_beta)

text \<open>What may become of a descriptor that has just been opened: it is returned, or it is closed and an error returned.\<close>

definition settled :: "('u \<Rightarrow> int set) \<Rightarrow> int \<Rightarrow> 'u net \<Rightarrow> int \<Rightarrow> 'u net \<Rightarrow> bool" where
  "settled fds sock s r s' \<longleftrightarrow> r = sock \<and> same_fds fds s s' \<or>
     r = SOCK_ERROR \<and> opened s' = opened s - {sock} \<and> fds (world s') = fds (world s) - {sock} \<and> ai_lists s' = ai_lists s"

lemma settled_same: "same_fds fds s s1 \<Longrightarrow> settled fds sock s1 r s' \<Longrightarrow> settled fds sock s r s'"
  by (auto simp: settled_def same_fds_def)

lemma connect_wait_settles:
  assumes ok: "os_ok os fds" and w: "waits_end os m" and t: "- 2147483 \<le> timeout" "timeout \<le> 2147483"
  shows "\<exists>r s'. connect_wait os sock timeout s = Some (r, s') \<and> settled fds sock s r s'"
proof (induction "m (world s)" arbitrary: s rule: less_induct)
  case less
  have close: "settled fds sock s SOCK_ERROR (snd (sock_close os sock s))" for s
    using close_fds [OF ok, of sock s] by (simp add: settled_def)
  show ?case
  proof (cases "sock_recoverable (sock_error os s)")
    case False
    then show ?thesis using close by (simp add: connect_wait.simps [of os sock timeout s])
  next
    case True
    obtain c s1 where c: "sock_connected os sock timeout s = Some (c, s1)" using connected_defined [OF t] by blast
    have same: "same_fds fds s s1" using connected_same [OF ok c] .
    show ?thesis
    proof (cases "c = 0")
      case z: True
      have "m (world s1) < m (world s)" using w c z by (auto simp: waits_end_def)
      from less [OF this] obtain r s' where "connect_wait os sock timeout s1 = Some (r, s')" "settled fds sock s1 r s'" by blast
      then show ?thesis using True c z settled_same [OF same] by (simp add: connect_wait.simps [of os sock timeout s])
    next
      case nz: False
      show ?thesis
      proof (cases "c = 1")
        case one: True
        have "same_fds fds s (if timeout \<ge> 0 then snd (sock_set_blocking os sock 1 s1) else s1)"
          using same same_trans [OF same same_ops(4) [OF ok]] by simp
        then show ?thesis using True c one by (simp add: connect_wait.simps [of os sock timeout s] settled_def)
      next
        case False
        then show ?thesis using True c nz settled_same [OF same close] by (simp add: connect_wait.simps [of os sock timeout s])
      qed
    qed
  qed
qed

text \<open>The result of a function that opens at most the descriptor that it returns.\<close>

definition opens_result :: "('u \<Rightarrow> int set) \<Rightarrow> 'u net \<Rightarrow> int \<Rightarrow> 'u net \<Rightarrow> bool" where
  "opens_result fds s r s' \<longleftrightarrow> owns fds s' \<and>
     (if r < 0 then opened s' = opened s else r \<notin> opened s \<and> opened s' = insert r (opened s))"

lemma opens_same: "same_fds fds s s1 \<Longrightarrow> opens_result fds s1 r s' \<Longrightarrow> opens_result fds s r s'"
  by (auto simp: opens_result_def same_fds_def)

lemma opens_cong:
  assumes "opens_result fds s1 r s'" "opened s1 = opened s" "opened s2 = opened s'" "world s2 = world s'"
  shows "opens_result fds s r s2"
  using assms by (auto simp: opens_result_def owns_def split: if_splits)

lemma socket_fds:
  assumes "os_ok os fds" "net_socket os ai s = (fd, s')" "owns fds s"
  shows "fd < 0 \<Longrightarrow> same_fds fds s s'"
    "\<not> fd < 0 \<Longrightarrow> fd \<notin> fds (world s) \<and> fd \<notin> opened s \<and> opened s' = insert fd (opened s) \<and> fds (world s') = insert fd (fds (world s)) \<and> ai_lists s' = ai_lists s"
proof -
  obtain f u where f: "os_socket os ai (world s) = (f, u)" by fastforce
  have "if f < 0 then fds u = fds (world s) else f \<notin> fds (world s) \<and> fds u = insert f (fds (world s))"
    using assms(1) f unfolding os_ok_def by (metis (mono_tags, lifting) case_prod_conv)
  then show "fd < 0 \<Longrightarrow> same_fds fds s s'"
    "\<not> fd < 0 \<Longrightarrow> fd \<notin> fds (world s) \<and> fd \<notin> opened s \<and> opened s' = insert fd (opened s) \<and> fds (world s') = insert fd (fds (world s)) \<and> ai_lists s' = ai_lists s"
    using assms(2,3) f by (auto simp: net_socket_def same_fds_def owns_def split: if_splits)
qed

lemma settled_opens:
  assumes "fd \<notin> opened s" "fd \<notin> fds (world s)" "owns fds s" "opened s1 = insert fd (opened s)"
    "fds (world s1) = insert fd (fds (world s))" "settled fds fd s1 r s'" "\<not> fd < 0"
  shows "opens_result fds s r s'" "r = SOCK_ERROR \<Longrightarrow> opened s' = opened s \<and> fds (world s') = fds (world s) \<and> owns fds s'"
  using assms by (auto simp: settled_def opens_result_def same_fds_def owns_def SOCK_ERROR_def)

lemma connect_loop_opens:
  assumes ok: "os_ok os fds" and w: "waits_end os m" and t: "- 2147483 \<le> timeout" "timeout \<le> 2147483"
  shows "owns fds s \<Longrightarrow> sock < 0 \<Longrightarrow>
    \<exists>r s'. connect_loop os ais None timeout sock bhead s = Some (r, bhead, s') \<and> opens_result fds s r s' \<and> ai_lists s' = ai_lists s"
proof (induction ais arbitrary: sock s)
  case Nil
  then show ?case by (simp add: opens_result_def)
next
  case (Cons ai ais)
  obtain fd s1 where fd: "net_socket os ai s = (fd, s1)" by fastforce
  show ?case
  proof (cases "fd < 0")
    case True
    have same: "same_fds fds s s1" using socket_fds(1) [OF ok fd Cons.prems(1) True] .
    then have "owns fds s1" using Cons.prems(1) by (simp add: owns_def same_fds_def)
    from Cons.IH [OF this True] obtain r s' where
      "connect_loop os ais None timeout fd bhead s1 = Some (r, bhead, s')" "opens_result fds s1 r s'" "ai_lists s' = ai_lists s1" by blast
    then show ?thesis using fd True opens_same [OF same] same by (simp add: same_fds_def)
  next
    case False
    note f = socket_fds(2) [OF ok fd Cons.prems(1) False]
    define s2 where "s2 = (if timeout > 0 then snd (sock_set_blocking os fd 0 s1) else s1)"
    obtain c s3 where c: "net_connect os fd ai s2 = (c, s3)" by fastforce
    have "same_fds fds s1 s2" using same_ops(4) [OF ok] by (simp add: s2_def)
    then have same: "same_fds fds s1 s3" using same_trans same_ops(2) [OF ok, of s2 fd ai] c by fastforce
    obtain r s4 where r: "connect_wait os fd timeout s3 = Some (r, s4)" "settled fds fd s3 r s4"
      using connect_wait_settles [OF ok w t] by blast
    have step: "connect_loop os (ai # ais) None timeout sock bhead s =
        (if c = 0 then Some (fd, bhead, s3) else if r \<noteq> SOCK_ERROR then Some (r, bhead, s4)
         else connect_loop os ais None timeout r bhead s4)"
      using fd False c r(1) by (simp add: bind_local_def s2_def [symmetric] Let_def)
    have o3: "opened s3 = insert fd (opened s)" "fds (world s3) = insert fd (fds (world s))" "ai_lists s3 = ai_lists s"
      using same f by (auto simp: same_fds_def)
    have a4: "ai_lists s4 = ai_lists s" using r(2) o3(3) by (auto simp: settled_def same_fds_def)
    note S = settled_opens [OF _ _ Cons.prems(1) o3(1,2)]
    show ?thesis
    proof (cases "c = 0")
      case True
      have "settled fds fd s3 fd s3" by (simp add: settled_def)
      then show ?thesis using step True S(1) [of fd s3] f False o3 by auto
    next
      case nc: False
      show ?thesis
      proof (cases "r = SOCK_ERROR")
        case re: True
        have s4: "opened s4 = opened s" "owns fds s4" using S(2) [OF _ _ r(2) False re] f by auto
        have "r < 0" using re by (simp add: SOCK_ERROR_def)
        from Cons.IH [OF s4(2) this] obtain r' s' where
          "connect_loop os ais None timeout r bhead s4 = Some (r', bhead, s')" "opens_result fds s4 r' s'" "ai_lists s' = ai_lists s4" by blast
        moreover have "opens_result fds s r' s'" by (rule opens_cong [OF calculation(2) s4(1)]) simp_all
        ultimately show ?thesis using step nc re a4 by simp
      next
        case nre: False
        then show ?thesis using step nc S(1) [OF _ _ r(2) False] f a4 by auto
      qed
    qed
  qed
qed

lemma server_loop_opens:
  assumes ok: "os_ok os fds"
  shows "owns fds s \<Longrightarrow> \<exists>r s'. server_loop os ais p s = (r, s') \<and>
    opens_result fds s (case r of None \<Rightarrow> SOCK_ERROR | Some fd \<Rightarrow> fd) s' \<and> ai_lists s' = ai_lists s \<and> (\<forall>fd. r = Some fd \<longrightarrow> 0 \<le> fd)"
proof (induction ais arbitrary: s)
  case Nil
  then show ?case by (simp add: opens_result_def SOCK_ERROR_def)
next
  case (Cons ai ais)
  show ?case
  proof (cases "p \<and> ai_family ai \<noteq> AF_INET6")
    case True
    then show ?thesis using Cons by simp
  next
    case np: False
    obtain fd s1 where fd: "net_socket os ai s = (fd, s1)" by fastforce
    show ?thesis
    proof (cases "fd < 0")
      case True
      have same: "same_fds fds s s1" using socket_fds(1) [OF ok fd Cons.prems True] .
      then have "owns fds s1" using Cons.prems by (simp add: owns_def same_fds_def)
      from Cons.IH [OF this] show ?thesis using fd True np opens_same [OF same] same by (auto simp: same_fds_def)
    next
      case False
      note f = socket_fds(2) [OF ok fd Cons.prems False]
      define s2 where "s2 = snd (net_setsockopt os fd ''IPV6_V6ONLY'' (snd (net_setsockopt os fd ''SO_REUSEADDR'' s1)))"
      obtain b s3 where b: "net_bind os fd ai s2 = (b, s3)" by fastforce
      have "same_fds fds s1 s2" unfolding s2_def by (rule same_trans [OF same_ops(3) [OF ok] same_ops(3) [OF ok]])
      then have same: "same_fds fds s1 s3" using same_trans same_ops(1) [OF ok, of s2 fd ai] b by fastforce
      have step: "server_loop os (ai # ais) p s =
          (if b < 0 then server_loop os ais p (snd (sock_close os fd s3)) else (Some fd, s3))"
        using fd False np b by (cases p) (simp_all add: s2_def Let_def)
      have o3: "opened s3 = insert fd (opened s)" "fds (world s3) = insert fd (fds (world s))" "ai_lists s3 = ai_lists s"
        using same f by (auto simp: same_fds_def)
      note c = close_fds [OF ok, of fd s3]
      have o4: "opened (snd (sock_close os fd s3)) = opened s" "owns fds (snd (sock_close os fd s3))"
        "ai_lists (snd (sock_close os fd s3)) = ai_lists s"
        using c o3 f Cons.prems by (auto simp: owns_def)
      show ?thesis
      proof (cases "b < 0")
        case True
        from Cons.IH [OF o4(2)] obtain r s' where h: "server_loop os ais p (snd (sock_close os fd s3)) = (r, s')"
          "opens_result fds (snd (sock_close os fd s3)) (case r of None \<Rightarrow> SOCK_ERROR | Some fd \<Rightarrow> fd) s'"
          "ai_lists s' = ai_lists (snd (sock_close os fd s3))" "\<forall>fd. r = Some fd \<longrightarrow> 0 \<le> fd" by blast
        have "opens_result fds s (case r of None \<Rightarrow> SOCK_ERROR | Some fd \<Rightarrow> fd) s'"
          by (rule opens_cong [OF h(2) o4(1)]) simp_all
        then show ?thesis using step True h o4(3) by (simp del: server_loop.simps)
      next
        case nb: False
        have "settled fds fd s3 fd s3" by (simp add: settled_def)
        then have "opens_result fds s fd s3" using settled_opens(1) [OF _ _ Cons.prems o3(1,2)] f False by blast
        then show ?thesis using step nb o3(3) False by simp
      qed
    qed
  qed
qed

section \<open>Whole calls\<close>

lemma getaddrinfo_fds:
  assumes "os_ok os fds" "net_getaddrinfo os h n s = (r, s')"
  shows "opened s' = opened s" "fds (world s') = fds (world s)" "ai_lists s' = (if r = None then ai_lists s else ai_lists s + 1)"
proof -
  obtain q u where q: "os_getaddrinfo os h n (world s) = (q, u)" by fastforce
  have "fds (snd (os_getaddrinfo os h n (world s))) = fds (world s)" using assms(1) by (simp add: os_ok_def)
  with q have u: "fds u = fds (world s)" by simp
  have s': "r = q" "s' = s\<lparr>ai_lists := (if q = None then ai_lists s else ai_lists s + 1), world := u\<rparr>"
    using assms(2) unfolding net_getaddrinfo_def q Let_def prod.case by (metis prod.inject)+
  show "opened s' = opened s" "ai_lists s' = (if r = None then ai_lists s else ai_lists s + 1)" unfolding s' by simp_all
  show "fds (world s') = fds (world s)" unfolding s' using u by simp
qed

lemma sock_connect_ok:
  assumes ok: "os_ok os fds" and w: "waits_end os m" and t: "- 2147483 \<le> timeout" "timeout \<le> 2147483" and o: "owns fds s"
  shows "\<exists>r s'. sock_connect_wto_bind os host port None timeout s = Some (r, s') \<and> opens_result fds s r s' \<and> ai_lists s' = ai_lists s"
proof -
  obtain res s1 where g: "net_getaddrinfo os (Some host) (Some (port_service (word_of_int port))) s = (res, s1)" by fastforce
  note f = getaddrinfo_fds [OF ok g]
  have o1: "owns fds s1" using o f by (simp add: owns_def)
  show ?thesis
  proof (cases res)
    case None
    then show ?thesis using g f o1 by (simp add: sock_connect_wto_bind_def opens_result_def SOCK_ERROR_def)
  next
    case (Some ais)
    have neg: "SOCK_ERROR < 0" by (simp add: SOCK_ERROR_def)
    obtain r s2 where r: "connect_loop os ais None timeout SOCK_ERROR False s1 = Some (r, False, s2)" "opens_result fds s1 r s2"
      "ai_lists s2 = ai_lists s1" using connect_loop_opens [OF ok w t o1 neg] by blast
    have "opens_result fds s r (net_freeaddrinfo s2)"
      by (rule opens_cong [OF r(2) f(1)]) (simp_all add: net_freeaddrinfo_def)
    then show ?thesis using g Some r f(3) by (simp add: sock_connect_wto_bind_def net_freeaddrinfo_def)
  qed
qed

lemma sock_server_ok:
  assumes ok: "os_ok os fds" and o: "owns fds s"
  shows "\<exists>r s'. sock_get_server_socket os port sinterface pref s = (r, s') \<and> opens_result fds s r s' \<and> ai_lists s' = ai_lists s"
proof (cases "port < 0")
  case True
  then show ?thesis using o by (simp add: sock_get_server_socket_def opens_result_def SOCK_ERROR_def)
next
  case port: False
  obtain res s1 where g: "net_getaddrinfo os sinterface (Some (take 15 (print_int port))) s = (res, s1)" by fastforce
  note f = getaddrinfo_fds [OF ok g]
  have o1: "owns fds s1" using o f by (simp add: owns_def)
  have free: "opens_result fds s r (net_freeaddrinfo s') \<and> ai_lists (net_freeaddrinfo s') = ai_lists s"
    if "opens_result fds s1 r s'" "ai_lists s' = ai_lists s1" "res \<noteq> None" for r s'
    using opens_cong [OF that(1) f(1), of "net_freeaddrinfo s'"] that f(3) by (simp add: net_freeaddrinfo_def)
  show ?thesis
  proof (cases res)
    case None
    then show ?thesis using port g f o1 by (simp add: sock_get_server_socket_def opens_result_def SOCK_ERROR_def)
  next
    case (Some ais)
    from server_loop_opens [OF ok o1, of ais pref] obtain r s2 where
      A: "server_loop os ais pref s1 = (r, s2)" "opens_result fds s1 (case r of None \<Rightarrow> SOCK_ERROR | Some fd \<Rightarrow> fd) s2"
        "ai_lists s2 = ai_lists s1" by blast
    have "owns fds s2" using A(2) by (simp add: opens_result_def)
    from server_loop_opens [OF ok this, of ais False] obtain r' s3 where
      B: "server_loop os ais False s2 = (r', s3)" "opens_result fds s2 (case r' of None \<Rightarrow> SOCK_ERROR | Some fd \<Rightarrow> fd) s3"
        "ai_lists s3 = ai_lists s2" by blast
    show ?thesis
    proof (cases r)
      case r: (Some fd)
      then show ?thesis using port g Some A free [of fd s2] by (simp add: sock_get_server_socket_def)
    next
      case None
      then have s2: "opened s2 = opened s1" using A(2) by (simp add: opens_result_def SOCK_ERROR_def)
      have "opens_result fds s1 (case r' of None \<Rightarrow> SOCK_ERROR | Some fd \<Rightarrow> fd) s3"
        by (rule opens_cong [OF B(2) s2]) simp_all
      then show ?thesis
        using port g Some A B None free [of SOCK_ERROR s2] free [of "case r' of None \<Rightarrow> SOCK_ERROR | Some fd \<Rightarrow> fd" s3]
        by (cases r') (simp_all add: sock_get_server_socket_def)
    qed
  qed
qed

lemma connect_immediate:
  assumes "0 < timeout" "net_getaddrinfo os (Some host) (Some (port_service (word_of_int port))) s = (Some (ai # ais), s1)"
    "net_socket os ai s1 = (fd, s2)" "0 \<le> fd" "sock_valid_socket os fd s2" "os_fcntl os fd True (world s2) = (0, u)"
    "fst (net_connect os fd ai (s2\<lparr>nonblocking := insert fd (nonblocking s2), world := u\<rparr>)) = 0"
  shows "\<exists>s'. sock_connect_wto_bind os host port None timeout s = Some (fd, s') \<and> fd \<in> nonblocking s'"
proof -
  let ?s3 = "s2\<lparr>nonblocking := insert fd (nonblocking s2), world := u\<rparr>"
  have b: "snd (sock_set_blocking os fd 0 s2) = ?s3" using assms(5,6) by (simp add: sock_set_blocking_def)
  obtain s4 where c: "net_connect os fd ai ?s3 = (0, s4)" using assms(7) by (metis prod.collapse)
  then have nb: "nonblocking s4 = insert fd (nonblocking s2)" by (auto simp: net_connect_def split: prod.splits)
  have "connect_loop os (ai # ais) None timeout SOCK_ERROR False s1 = Some (fd, False, s4)"
    using assms(1,3,4) b c by (simp add: bind_local_def)
  then show ?thesis using assms(2) nb by (simp add: sock_connect_wto_bind_def net_freeaddrinfo_def del: connect_loop.simps)
qed

section \<open>Properties\<close>

text \<open>An operating system for the witnesses: its state is the data to be read and the list of open descriptors; every call
  succeeds.\<close>

definition demo_os :: "(string \<times> int list) os" where
  "demo_os = \<lparr>os_errno = (\<lambda>u. 115), os_set_errno = (\<lambda>v u. u),
     os_getaddrinfo = (\<lambda>h n u. (Some [\<lparr>ai_family = AF_INET, ai_addr = ''127.0.0.1''\<rparr>], u)),
     os_socket = (\<lambda>ai u. let fd = foldr max (snd u) 2 + 1 in (fd, (fst u, fd # snd u))),
     os_close = (\<lambda>fd u. (0, (fst u, filter (\<lambda>x. x \<noteq> fd) (snd u)))), os_sotype = (\<lambda>fd u. True), os_fcntl = (\<lambda>fd b u. (0, u)),
     os_bind = (\<lambda>fd ai u. (0, u)), os_connect = (\<lambda>fd ai u. (0, u)), os_poll = (\<lambda>fd t u. (1, u)), os_soerror = (\<lambda>fd u. ((0, 0), u)),
     os_setsockopt = (\<lambda>fd opt u. (0, u)),
     os_recv = (\<lambda>fd n u. case fst u of [] \<Rightarrow> (0, [], u) | c # cs \<Rightarrow> (1, [c], (cs, snd u))), os_send = (\<lambda>fd b u. (int (length b), u))\<rparr>"

definition demo_net :: "string \<Rightarrow> (string \<times> int list) net" where
  "demo_net d = \<lparr>opened = {}, nonblocking = {}, ai_lists = 0, world = (d, [])\<rparr>"

lemma foldr_max_ge: "x \<in> set xs \<Longrightarrow> x \<le> foldr max xs (2 :: int)"
  by (induction xs) auto

lemma demo_os_ok: "os_ok demo_os (\<lambda>u. set (snd u))" "waits_end demo_os (\<lambda>u. 0)" "owns (\<lambda>u. set (snd u)) (demo_net d)"
  "delivers_data demo_os fd fst"
proof -
  have "foldr max xs 2 + 1 \<notin> set xs" "\<not> foldr max xs 2 + 1 < (0 :: int)" for xs :: "int list"
  proof -
    show "foldr max xs 2 + 1 \<notin> set xs" using foldr_max_ge [of "foldr max xs 2 + 1" xs] by auto
    have "(2 :: int) \<le> foldr max xs 2" by (induction xs) auto
    then show "\<not> foldr max xs 2 + 1 < (0 :: int)" by simp
  qed
  then show "os_ok demo_os (\<lambda>u. set (snd u))" by (auto simp: os_ok_def demo_os_def Let_def)
qed (auto simp: waits_end_def demo_os_def sock_connected_def owns_def demo_net_def delivers_data_def split: list.splits if_splits)

text \<open>C26: Whatever the addresses of a host do - sockets that cannot be opened, connections that fail, are refused later, time out or
  are interrupted - connecting without a local address ends, and the only descriptor that is open afterwards and was not before is
  the one returned; the same holds for opening a server socket. All address lists are freed.\<close>

theorem sock_no_leak:
  assumes "os_ok os fds" "waits_end os m" "- 2147483 \<le> timeout" "timeout \<le> 2147483" "owns fds s"
  shows "(\<exists>r s'. sock_connect_wto os host port timeout s = Some (r, s') \<and> opens_result fds s r s' \<and> ai_lists s' = ai_lists s) \<and>
    (\<exists>r s'. sock_get_server_socket os port sinterface prefer_inet6 s = (r, s') \<and> opens_result fds s r s' \<and> ai_lists s' = ai_lists s)"
  using sock_connect_ok [OF assms] sock_server_ok [OF assms(1,5)] by (simp add: sock_connect_wto_def)

theorem sock_no_leak_witness:
  "\<exists>r s'. sock_connect_wto demo_os ''localhost'' 8000 5 (demo_net []) = Some (r, s') \<and>
    opened s' = (if r < 0 then {} else {r}) \<and> ai_lists s' = 0"
proof -
  have t: "- 2147483 \<le> (5 :: int)" "(5 :: int) \<le> 2147483" by simp_all
  from sock_no_leak [OF demo_os_ok(1,2) t demo_os_ok(3) [of "[]"], of "''localhost''" 8000 None False] obtain r s' where
    r: "sock_connect_wto demo_os ''localhost'' 8000 5 (demo_net []) = Some (r, s')" "opens_result (\<lambda>u. set (snd u)) (demo_net []) r s'"
    "ai_lists s' = ai_lists (demo_net [])" by blast
  moreover have "opened (demo_net []) = {}" "ai_lists (demo_net []) = 0" by (simp_all add: demo_net_def)
  ultimately show ?thesis by (intro exI [of _ r] exI [of _ s']) (auto simp: opens_result_def split: if_splits)
qed

text \<open>\<open>sock_read_line\<close> stores a line without its line end and without carriage returns, terminated by a zero, and leaves what
  follows unread; but when the line has as many characters as fit in the buffer or more, it stores one byte behind the buffer.\<close>

theorem sock_read_line_correct:
  assumes "delivers_data os sock data" "data (world s) = line @ LF # rest" "LF \<notin> set line" "0 < len"
  shows "\<exists>buf s'. sock_read_line os sock True len s = Some (1, buf, s') \<and>
    (if length (stored_chars line) < nat len then buf = stored_chars line @ [NUL] \<and> data (world s') = rest
     else length buf = nat len + 1)"
  using assms by (rule sock_read_line_ok)

theorem sock_read_line_correct_witness:
  "(\<exists>s'. sock_read_line demo_os 3 True 8 (demo_net (''abc'' @ [CR, LF] @ ''d'')) = Some (1, ''abc'' @ [NUL], s') \<and> fst (world s') = ''d'') \<and>
   (\<exists>buf s'. sock_read_line demo_os 3 True 2 (demo_net (''abc'' @ [CR, LF] @ ''d'')) = Some (1, buf, s') \<and> length buf = 3)"
proof -
  have d: "fst (world (demo_net (''abc'' @ [CR, LF] @ ''d''))) = (''abc'' @ [CR]) @ LF # ''d''" by (simp add: demo_net_def)
  have n: "LF \<notin> set (''abc'' @ [CR])" by simp
  show ?thesis
    using sock_read_line_correct [OF demo_os_ok(4) d n, of 8 3] sock_read_line_correct [OF demo_os_ok(4) d n, of 2 3] by simp
qed

text \<open>When a connection with a positive timeout succeeds at once, the socket that is returned is still in non-blocking mode,
  into which it has been put for the attempt; it is only switched back when the connection has to be waited for.\<close>

theorem sock_connect_left_nonblocking:
  assumes "0 < timeout" "net_getaddrinfo os (Some host) (Some (port_service (word_of_int port))) s = (Some (ai # ais), s1)"
    "net_socket os ai s1 = (fd, s2)" "0 \<le> fd" "sock_valid_socket os fd s2" "os_fcntl os fd True (world s2) = (0, u)"
    "fst (net_connect os fd ai (s2\<lparr>nonblocking := insert fd (nonblocking s2), world := u\<rparr>)) = 0"
  shows "\<exists>s'. sock_connect_wto os host port timeout s = Some (fd, s') \<and> fd \<in> nonblocking s'"
  unfolding sock_connect_wto_def using assms by (rule connect_immediate)

theorem sock_connect_left_nonblocking_witness:
  "\<exists>s'. sock_connect_wto demo_os ''localhost'' 8000 5 (demo_net []) = Some (3, s') \<and> 3 \<in> nonblocking s'"
  by (rule sock_connect_left_nonblocking [where ai = "\<lparr>ai_family = AF_INET, ai_addr = ''127.0.0.1''\<rparr>" and ais = "[]" and u = "([], [3])"
        and ?s1.0 = "(demo_net [])\<lparr>ai_lists := 1\<rparr>" and ?s2.0 = "(demo_net [])\<lparr>opened := {3}, ai_lists := 1, world := ([], [3])\<rparr>"])
    (simp_all add: demo_os_def demo_net_def net_getaddrinfo_def net_socket_def net_connect_def sock_valid_socket_def Let_def)

end
