(* ===== verification/Server_Defs.thy ===== *)
theory Server_Defs
  imports Sock_Defs
begin

text \<open>
  Name resolution (src/net/resolver.c) and the rest of src/net/sock.c: accepting and listening, the test for mapped
  addresses, and the variants for systems without \<open>getaddrinfo\<close>, \<open>poll\<close> or a standard \<open>vsnprintf\<close>.

  A buffer of the caller is a list of bytes of its size. A function that writes into it returns the new content; \<open>None\<close> is
  a write outside it.
\<close>

section \<open>More of the operating system\<close>

text \<open>\<open>os_getnameinfo numeric a n\<close>: the name or the address of \<open>a\<close>, when it fits into \<open>n\<close> bytes with its terminator. The older
  calls yield the name of a host, or its address as text.\<close>

record 'u srv =
  base :: "'u os"
  os_inet_pton4 :: "string \<Rightarrow> int"
  os_inet_pton6 :: "string \<Rightarrow> int"
  os_inet_aton :: "string \<Rightarrow> addrinfo option"
  os_getnameinfo :: "bool \<Rightarrow> addrinfo \<Rightarrow> nat \<Rightarrow> 'u \<Rightarrow> string option \<times> 'u"
  os_gethostbyaddr :: "addrinfo \<Rightarrow> 'u \<Rightarrow> string option \<times> 'u"
  os_gethostbyname :: "string \<Rightarrow> 'u \<Rightarrow> string option \<times> 'u"
  os_listen :: "int \<Rightarrow> int \<Rightarrow> 'u \<Rightarrow> int \<times> 'u"
  os_accept :: "int \<Rightarrow> 'u \<Rightarrow> int \<times> addrinfo \<times> 'u"
  os_getsockname :: "int \<Rightarrow> 'u \<Rightarrow> (family \<times> nat \<times> nat) option"
  os_select :: "int \<Rightarrow> int option \<Rightarrow> 'u \<Rightarrow> int \<times> 'u"
  os_recv_peek :: "int \<Rightarrow> 'u \<Rightarrow> int \<times> 'u"

section \<open>Strings in buffers\<close>

text \<open>The bytes that \<open>strncpy\<close> writes, and a write of bytes to the start of a buffer.\<close>

definition strncpy :: "string \<Rightarrow> nat \<Rightarrow> string" where
  "strncpy src n = take n (cstr src) @ replicate (n - length (cstr src)) NUL"

definition write_start :: "string \<Rightarrow> string \<Rightarrow> string option" where
  "write_start bytes buff = (if length bytes \<le> length buff then Some (bytes @ drop (length bytes) buff) else None)"

text \<open>\<open>strncpy (buff, src, len); buff [len-1] = '\0';\<close>. The \<open>int\<close> becomes a \<open>size_t\<close> for \<open>strncpy\<close>, so a negative one is huge.\<close>

definition copy_name :: "string \<Rightarrow> int \<Rightarrow> string \<Rightarrow> string option" where
  "copy_name src len buff =
     (if len \<le> 0 then None
      else do {
        b \<leftarrow> write_start (strncpy src (nat len)) buff;
        Some (b[nat len - 1 := NUL]) })"

text \<open>\<open>getnameinfo\<close> into a buffer of which it is told that it has \<open>n\<close> bytes: whether it succeeded, and the buffer.\<close>

definition net_getnameinfo :: "'u srv \<Rightarrow> bool \<Rightarrow> addrinfo \<Rightarrow> nat \<Rightarrow> string \<Rightarrow> 'u net \<Rightarrow> (bool \<times> string \<times> 'u net) option" where
  "net_getnameinfo srv numeric a n buff s =
     (let (r, u) = os_getnameinfo srv numeric a n (world s); s = s\<lparr>world := u\<rparr>
      in case r of None \<Rightarrow> Some (False, buff, s)
         | Some name \<Rightarrow> do { b \<leftarrow> write_start (name @ [NUL]) buff; Some (True, b, s) })"

section \<open>The resolver\<close>

definition isip :: "'u srv \<Rightarrow> string \<Rightarrow> bool" where
  "isip srv what = (if os_inet_pton4 srv what \<le> 0 then os_inet_pton6 srv what > 0 else True)"

definition isip_aton :: "'u srv \<Rightarrow> string \<Rightarrow> bool" where
  "isip_aton srv what = (os_inet_aton srv what \<noteq> None)"

text \<open>\<open>len\<close> becomes an unsigned \<open>socklen_t\<close>.\<close>

definition socklen :: "int \<Rightarrow> nat" where
  "socklen len = unat (word_of_int len :: uint)"

text \<open>The results: whether \<open>buff\<close> is returned (otherwise NULL), the buffer, and the state.\<close>

definition resolver_getname :: "'u srv \<Rightarrow> string \<Rightarrow> string \<Rightarrow> int \<Rightarrow> 'u net \<Rightarrow> (bool \<times> string \<times> 'u net) option" where
  "resolver_getname srv ip buff len s =
     (if \<not> isip srv ip then do { b \<leftarrow> copy_name ip len buff; Some (True, b, s) }
      else
        (case net_getaddrinfo (base srv) (Some ip) None s of
           (None, s) \<Rightarrow> Some (False, buff, s)
         | (Some [], s) \<Rightarrow> Some (False, buff, s)
         | (Some (head # _), s) \<Rightarrow> do {
             (ok, b, s) \<leftarrow> net_getnameinfo srv False head (socklen len) buff s;
             Some (ok, b, net_freeaddrinfo s) }))"

definition resolver_getip :: "'u srv \<Rightarrow> string \<Rightarrow> string \<Rightarrow> int \<Rightarrow> 'u net \<Rightarrow> (bool \<times> string \<times> 'u net) option" where
  "resolver_getip srv name buff len s =
     (if isip srv name then do { b \<leftarrow> copy_name name len buff; Some (True, b, s) }
      else
        (case net_getaddrinfo (base srv) (Some name) None s of
           (None, s) \<Rightarrow> Some (False, buff, s)
         | (Some [], s) \<Rightarrow> Some (False, buff, s)
         | (Some (head # _), s) \<Rightarrow> do {
             (ok, b, s) \<leftarrow> net_getnameinfo srv True head (socklen len) buff s;
             Some (ok, b, net_freeaddrinfo s) }))"

text \<open>The variants with \<open>gethostbyaddr\<close> and \<open>gethostbyname\<close>.\<close>

definition resolver_getname_old :: "'u srv \<Rightarrow> string \<Rightarrow> string \<Rightarrow> int \<Rightarrow> 'u net \<Rightarrow> (bool \<times> string \<times> 'u net) option" where
  "resolver_getname_old srv ip buff len s =
     (if \<not> isip_aton srv ip then do { b \<leftarrow> copy_name ip len buff; Some (True, b, s) }
      else
        (case os_inet_aton srv ip of None \<Rightarrow> Some (False, buff, s)
         | Some a \<Rightarrow>
             (case os_gethostbyaddr srv a (world s) of
                (None, u) \<Rightarrow> Some (False, buff, s\<lparr>world := u\<rparr>)
              | (Some h_name, u) \<Rightarrow> do { b \<leftarrow> copy_name h_name len buff; Some (True, b, s\<lparr>world := u\<rparr>) })))"

definition resolver_getip_old :: "'u srv \<Rightarrow> string \<Rightarrow> string \<Rightarrow> int \<Rightarrow> 'u net \<Rightarrow> (bool \<times> string \<times> 'u net) option" where
  "resolver_getip_old srv name buff len s =
     (if isip_aton srv name then do { b \<leftarrow> copy_name name len buff; Some (True, b, s) }
      else
        (case os_gethostbyname srv name (world s) of
           (None, u) \<Rightarrow> Some (False, buff, s\<lparr>world := u\<rparr>)
         | (Some temp, u) \<Rightarrow> do { b \<leftarrow> copy_name temp len buff; Some (True, b, s\<lparr>world := u\<rparr>) }))"

text \<open>The variables of resolver.c: \<open>_initialized\<close>, whether \<open>_resolver_mutex\<close> exists, and whether the connection to the name
  server is kept open.\<close>

record resolver =
  res_initialized :: int
  res_mutex :: bool
  res_keep_open :: bool

definition resolver_initialize :: "resolver \<Rightarrow> resolver" where
  "resolver_initialize r =
     (if res_initialized r = 0 then r\<lparr>res_initialized := 1, res_mutex := True, res_keep_open := True\<rparr> else r)"

definition resolver_shutdown :: "resolver \<Rightarrow> resolver" where
  "resolver_shutdown r =
     (if res_initialized r \<noteq> 0 then r\<lparr>res_mutex := False, res_initialized := 0, res_keep_open := False\<rparr> else r)"

definition sock_initialize :: "resolver \<Rightarrow> resolver" where
  "sock_initialize r = resolver_initialize r"

definition sock_shutdown :: "resolver \<Rightarrow> resolver" where
  "sock_shutdown r = resolver_shutdown r"

section \<open>More socket functions\<close>

definition sock_active :: "'u srv \<Rightarrow> int \<Rightarrow> 'u net \<Rightarrow> bool \<times> 'u net" where
  "sock_active srv sock s =
     (let (l, u) = os_recv_peek srv sock (world s); s = s\<lparr>world := u\<rparr>
      in if l = 0 then (False, s)
         else if l = SOCK_ERROR \<and> sock_recoverable (sock_error (base srv) s) then (True, s)
         else (False, s))"

definition sock_set_send_buffer :: "'u os \<Rightarrow> int \<Rightarrow> 'u net \<Rightarrow> 'u net" where
  "sock_set_send_buffer os sock s = snd (net_setsockopt os sock ''SO_SNDBUF'' s)"

definition net_listen :: "'u srv \<Rightarrow> int \<Rightarrow> int \<Rightarrow> 'u net \<Rightarrow> int \<times> 'u net" where
  "net_listen srv sock backlog s = (let (r, u) = os_listen srv sock backlog (world s) in (r, s\<lparr>world := u\<rparr>))"

definition sock_listen :: "'u srv \<Rightarrow> int \<Rightarrow> int \<Rightarrow> 'u net \<Rightarrow> bool \<times> 'u net" where
  "sock_listen srv serversock backlog s =
     (if \<not> sock_valid_socket (base srv) serversock s then (False, s)
      else (let (r, s) = net_listen srv serversock (if backlog \<le> 0 then 10 else backlog) s in (r = 0, s)))"

definition net_accept :: "'u srv \<Rightarrow> int \<Rightarrow> 'u net \<Rightarrow> int \<times> addrinfo \<times> 'u net" where
  "net_accept srv sock s =
     (let (fd, sa, u) = os_accept srv sock (world s)
      in (fd, sa, if fd < 0 then s\<lparr>world := u\<rparr>
                  else s\<lparr>opened := insert fd (opened s), nonblocking := nonblocking s - {fd}, world := u\<rparr>))"

text \<open>\<open>ip\<close> is NULL or a buffer; \<open>len\<close> is its size as the caller gives it. \<open>snprintf\<close> writes at most \<open>len\<close> bytes.\<close>

definition sock_accept :: "'u srv \<Rightarrow> int \<Rightarrow> string option \<Rightarrow> nat \<Rightarrow> 'u net \<Rightarrow> (int \<times> string option \<times> 'u net) option" where
  "sock_accept srv serversock ip len s =
     (case ip of None \<Rightarrow> Some (SOCK_ERROR, ip, s)
      | Some buff \<Rightarrow>
          if len = 0 \<or> \<not> sock_valid_socket (base srv) serversock s then Some (SOCK_ERROR, ip, s)
          else
            (let (ret, sa, s) = net_accept srv serversock s
             in if ret \<noteq> SOCK_ERROR then do {
                  (ok, b, s) \<leftarrow> net_getnameinfo srv True sa (len mod 2 ^ 32) buff s;
                  b \<leftarrow> (if ok then Some b else write_start (take (len - 1) ''unknown'' @ [NUL]) b);
                  let s = snd (sock_set_nolinger (base srv) ret s);
                  let s = snd (sock_set_keepalive (base srv) ret s);
                  Some (ret, Some b, s) }
                else Some (ret, ip, s)))"

text \<open>The variant without \<open>getnameinfo\<close>; \<open>ai_addr\<close> is what \<open>inet_ntoa\<close> prints.\<close>

definition sock_accept_old :: "'u srv \<Rightarrow> int \<Rightarrow> string option \<Rightarrow> nat \<Rightarrow> 'u net \<Rightarrow> (int \<times> string option \<times> 'u net) option" where
  "sock_accept_old srv serversock ip len s =
     (case ip of None \<Rightarrow> Some (SOCK_ERROR, ip, s)
      | Some buff \<Rightarrow>
          if len = 0 \<or> \<not> sock_valid_socket (base srv) serversock s then Some (SOCK_ERROR, ip, s)
          else
            (let (ret, sa, s) = net_accept srv serversock s
             in if ret \<noteq> SOCK_ERROR then do {
                  b \<leftarrow> write_start (strncpy (ai_addr sa) len) buff;
                  let s = snd (sock_set_nolinger (base srv) ret s);
                  let s = snd (sock_set_keepalive (base srv) ret s);
                  Some (ret, Some b, s) }
                else Some (ret, ip, s)))"

definition MAX_ADDR_LEN :: nat where "MAX_ADDR_LEN = 46"

text \<open>\<open>sizeof (struct sockaddr_in6)\<close> is 28. \<open>getsockname\<close> yields the family, the port and the length of the address.\<close>

definition sock_is_ipv4_mapped_supported :: "'u srv \<Rightarrow> 'u net \<Rightarrow> (bool \<times> 'u net) option" where
  "sock_is_ipv4_mapped_supported srv s =
     (let os = base srv;
          close = (\<lambda>fd s. snd (sock_close os fd s));
          (ssock, s) = sock_get_server_socket os 0 (Some ''::'') True s
      in if ssock = SOCK_ERROR then Some (False, s)
         else
           (let (r, s) = net_listen srv ssock 1 s
            in if r \<noteq> 0 then Some (False, close ssock s)
               else
                 (case os_getsockname srv ssock (world s) of
                    None \<Rightarrow> Some (False, close ssock s)
                  | Some (fam, port, alen) \<Rightarrow>
                      if alen < 28 \<or> fam \<noteq> AF_INET6 then Some (False, close ssock s)
                      else do {
                        (csock, s) \<leftarrow> sock_connect_wto os ''127.0.0.1'' (int port) 0 s;
                        if csock = SOCK_ERROR then Some (False, close ssock s)
                        else do {
                          let s = close csock s;
                          (csock, ip, s) \<leftarrow> sock_accept srv ssock (Some (replicate (MAX_ADDR_LEN + 1) NUL)) (MAX_ADDR_LEN + 1) s;
                          if csock = SOCK_ERROR then Some (False, close ssock s)
                          else do {
                            let s = close csock s;
                            let s = close ssock s;
                            ip \<leftarrow> ip;
                            Some (strcmp ip ''::ffff:127.0.0.1'' = 0, s) } } })))"

section \<open>Variants for older systems\<close>

text \<open>\<open>sock_connected\<close> with \<open>select\<close>. A descriptor outside of an \<open>fd_set\<close> (1024 bits) cannot be set.\<close>

definition sock_connected_select :: "'u srv \<Rightarrow> int \<Rightarrow> int \<Rightarrow> 'u net \<Rightarrow> (int \<times> 'u net) option" where
  "sock_connected_select srv sock timeout s =
     (if sock < 0 \<or> sock \<ge> 1024 then None
      else
        (let os = base srv;
             (p, u) = os_select srv (sock + 1) (if timeout \<ge> 0 then Some timeout else None) (world s);
             s = s\<lparr>world := u\<rparr>;
             failed = (\<lambda>s. if sock_recoverable (sock_error os s) then (0, s) else (SOCK_ERROR, s))
         in if p = 0 then Some (SOCK_TIMEOUT, s)
            else if p = -1 then Some (failed s)
            else
              (let ((r, val), u) = os_soerror os sock (world s);
                   s = s\<lparr>world := u\<rparr>
               in if r = 0 then (if val = 0 then Some (1, s) else Some (failed (sock_set_error os val s)))
                  else Some (failed s))))"

text \<open>\<open>sock_write_fmt\<close> with a \<open>vsnprintf\<close> that is only known to return a positive number when it has printed the text:
  \<open>vsn len\<close> is what it returns for a buffer of \<open>len\<close> bytes, and the bytes that it stores there. \<open>mem\<close> says whether \<open>realloc\<close>
  succeeds. \<open>None\<close>: \<open>sock_write_bytes\<close> reads bytes that have not been stored.\<close>

function write_fmt_loop :: "(nat \<Rightarrow> bool) \<Rightarrow> (nat \<Rightarrow> int \<times> string) \<Rightarrow> 'u os \<Rightarrow> int \<Rightarrow> nat \<Rightarrow> int \<Rightarrow> 'u net \<Rightarrow> (int \<times> 'u net) option" where
  "write_fmt_loop mem vsn os sock len ret s =
     (if len < 2 * 1024 * 1024 then
        if \<not> mem len then Some (-1, s)
        else
          (case vsn len of (ret, buff) \<Rightarrow>
             if ret > 0 then
               (if nat ret > length buff then None
                else Some (sock_write_bytes os sock (Some (take (nat ret) buff)) s))
             else write_fmt_loop mem vsn os sock (len + 8192) ret s)
      else Some (ret, s))"
  by pat_completeness auto
termination
  by (relation "measure (\<lambda>(mem, vsn, os, sock, len, ret, s). 2 * 1024 * 1024 - len)") auto

declare write_fmt_loop.simps [simp del]

definition sock_write_fmt_old :: "(nat \<Rightarrow> bool) \<Rightarrow> (nat \<Rightarrow> int \<times> string) \<Rightarrow> 'u os \<Rightarrow> int \<Rightarrow> 'u net \<Rightarrow> (int \<times> 'u net) option" where
  "sock_write_fmt_old mem vsn os sock s = write_fmt_loop mem vsn os sock 1024 (-1) s"

definition sock_write :: "(nat \<Rightarrow> bool) \<Rightarrow> 'u os \<Rightarrow> int \<Rightarrow> string option \<Rightarrow> 'u net \<Rightarrow> int \<times> 'u net" where
  "sock_write mem os sock text s = sock_write_fmt mem os sock text s"

text \<open>\<open>memcpy\<close> of \<open>n\<close> bytes to the offset \<open>dst\<close> of one object and from the offset \<open>src\<close> of another, both of 16 bytes
  (\<open>struct sockaddr_in\<close>; \<open>sin_addr\<close> is at offset 4).\<close>

definition memcpy_sockaddr :: "nat \<Rightarrow> nat \<Rightarrow> nat \<Rightarrow> unit option" where
  "memcpy_sockaddr dst src n = (if dst + n \<le> 16 \<and> src + n \<le> 16 then Some () else None)"

text \<open>Hosts may be NULL. The result of \<open>connect\<close>, or -1.\<close>

definition sock_try_connection :: "'u srv \<Rightarrow> int \<Rightarrow> string option \<Rightarrow> uint \<Rightarrow> 'u net \<Rightarrow> (int \<times> 'u net) option" where
  "sock_try_connection srv sock hostname port s =
     (case hostname of None \<Rightarrow> Some (-1, s)
      | Some host \<Rightarrow>
          if cstr host = [] \<or> port = 0 then Some (-1, s)
          else do {
            (ok, ip, s) \<leftarrow> resolver_getip_old srv host (replicate MAX_ADDR_LEN NUL) (int MAX_ADDR_LEN) s;
            if \<not> ok then Some (-1, snd (sock_close (base srv) sock s))
            else
              (case os_inet_aton srv (cstr ip) of
                 None \<Rightarrow> Some (-1, snd (sock_close (base srv) sock s))
               | Some server \<Rightarrow> do {
                   _ \<leftarrow> memcpy_sockaddr 4 4 16;
                   Some (net_connect (base srv) sock server s) }) })"

text \<open>The address family of \<open>socket (AF_INET, SOCK_STREAM, 0)\<close>, and the address that binds to every interface.\<close>

definition inet_any :: addrinfo where
  "inet_any = \<lparr>ai_family = AF_INET, ai_addr = ''0.0.0.0''\<rparr>"

definition sock_connect_non_blocking_old :: "'u srv \<Rightarrow> string option \<Rightarrow> uint \<Rightarrow> 'u net \<Rightarrow> (int \<times> 'u net) option" where
  "sock_connect_non_blocking_old srv hostname port s =
     (let (sock, s) = net_socket (base srv) inet_any s
      in if sock = SOCK_ERROR then Some (SOCK_ERROR, s)
         else do {
           let s = snd (sock_set_blocking (base srv) sock 0 s);
           (_, s) \<leftarrow> sock_try_connection srv sock hostname port s;
           Some (sock, s) })"

definition sock_connect_wto_bind_old ::
  "'u srv \<Rightarrow> string option \<Rightarrow> int \<Rightarrow> string option \<Rightarrow> int \<Rightarrow> 'u net \<Rightarrow> (int \<times> 'u net) option" where
  "sock_connect_wto_bind_old srv hostname port bnd timeout s =
     (let os = base srv; (sock, s) = net_socket os inet_any s
      in if sock = SOCK_ERROR then Some (SOCK_ERROR, s)
         else
           (let (bound, s) =
              (case bnd of None \<Rightarrow> (True, s)
               | Some b \<Rightarrow>
                   (case os_inet_aton srv b of None \<Rightarrow> (False, s)
                    | Some sa \<Rightarrow> (let (r, s) = net_bind os sock sa s in (\<not> r < 0, s))))
            in if \<not> bound then Some (SOCK_ERROR, snd (sock_close os sock s))
               else if timeout \<noteq> 0 then do {
                 let s = snd (sock_set_blocking os sock 0 s);
                 (c, s) \<leftarrow> sock_try_connection srv sock hostname (word_of_int port) s;
                 (ok, s) \<leftarrow> (if c < 0 then do {
                               (ret, s) \<leftarrow> sock_connected_select srv sock timeout s;
                               Some (ret > 0, s) }
                             else Some (True, s));
                 if \<not> ok then Some (SOCK_ERROR, snd (sock_close os sock s))
                 else Some (sock, snd (sock_set_blocking os sock 1 s)) }
               else do {
                 (c, s) \<leftarrow> sock_try_connection srv sock hostname (word_of_int port) s;
                 if c < 0 then Some (SOCK_ERROR, snd (sock_close os sock s)) else Some (sock, s) }))"

definition sock_get_server_socket_old :: "'u srv \<Rightarrow> int \<Rightarrow> string option \<Rightarrow> 'u net \<Rightarrow> (int \<times> 'u net) option" where
  "sock_get_server_socket_old srv port sinterface s =
     (if port < 0 then Some (SOCK_ERROR, s)
      else do {
        (sa, s) \<leftarrow> (case sinterface of None \<Rightarrow> Some (Some inet_any, s)
          | Some name \<Rightarrow> do {
              (ok, ip, s) \<leftarrow> resolver_getip_old srv name (replicate MAX_ADDR_LEN NUL) (int MAX_ADDR_LEN) s;
              Some (if ok then os_inet_aton srv (cstr ip) else None, s) });
        case sa of None \<Rightarrow> Some (SOCK_ERROR, s)
        | Some sa \<Rightarrow>
            (let (sock, s) = net_socket (base srv) sa s
             in if sock = -1 then Some (SOCK_ERROR, s)
                else
                  (let s = snd (net_setsockopt (base srv) sock ''SO_REUSEADDR'' s);
                       (r, s) = net_bind (base srv) sock sa s
                   in Some (if r = -1 then SOCK_ERROR else sock, s))) })"

end
