(* ===== verification/Server.thy ===== *)
theory Server
  imports Server_Defs Sock
begin

text \<open>
  The correctness of name resolution, of accepting connections and of the test for mapped addresses, and what the variants
  for older systems have in common with the others and where they fail.
\<close>

section \<open>What is relied on\<close>

text \<open>Next to the book on descriptors: accepting opens one descriptor, \<open>getaddrinfo\<close> never succeeds without an address, and
  \<open>getnameinfo\<close> yields a string that fits with its terminator.\<close>

definition srv_ok :: "'u srv \<Rightarrow> ('u \<Rightarrow> int set) \<Rightarrow> bool" where
  "srv_ok srv fds \<longleftrightarrow> os_ok (base srv) fds \<and>
     (\<forall>fd u. let (r, _, u') = os_accept srv fd u in if r < 0 then fds u' = fds u else r \<notin> fds u \<and> fds u' = insert r (fds u)) \<and>
     (\<forall>fd n u. fds (snd (os_listen srv fd n u)) = fds u) \<and>
     (\<forall>numeric a n u. fds (snd (os_getnameinfo srv numeric a n u)) = fds u) \<and>
     (\<forall>h n u. fst (os_getaddrinfo (base srv) h n u) \<noteq> Some []) \<and>
     (\<forall>numeric a n u name. fst (os_getnameinfo srv numeric a n u) = Some name \<longrightarrow> length name < n \<and> NUL \<notin> set name)"

lemma srv_okD:
  assumes "srv_ok srv fds"
  shows "os_ok (base srv) fds" "fds (snd (os_listen srv fd k u)) = fds u"
    "fds (snd (os_getnameinfo srv numeric a n u)) = fds u"
    "fst (os_getaddrinfo (base srv) h service u) \<noteq> Some []"
    "fst (os_getnameinfo srv numeric a n u) = Some name \<Longrightarrow> length name < n \<and> NUL \<notin> set name"
  using assms by (simp_all add: srv_ok_def)

lemma srv_ok_accept:
  assumes "srv_ok srv fds" "os_accept srv fd u = (r, sa, u')"
  shows "if r < 0 then fds u' = fds u else r \<notin> fds u \<and> fds u' = insert r (fds u)"
proof -
  have "\<forall>fd u. let (r, _, u') = os_accept srv fd u in if r < 0 then fds u' = fds u else r \<notin> fds u \<and> fds u' = insert r (fds u)"
    using assms(1) by (simp add: srv_ok_def)
  from this [THEN spec, of fd, THEN spec, of u] show ?thesis using assms(2) by simp
qed

section \<open>Strings in buffers\<close>

lemma length_strncpy [simp]: "length (strncpy src n) = n"
  by (simp add: strncpy_def)

lemma write_start_fits:
  assumes "length bytes \<le> length buff"
  shows "write_start bytes buff = Some (bytes @ drop (length bytes) buff)"
    "length (bytes @ drop (length bytes) buff) = length buff"
  using assms by (simp_all add: write_start_def)

text \<open>What is in a buffer of \<open>n\<close> bytes that holds the string \<open>text\<close>.\<close>

definition holds_string :: "nat \<Rightarrow> string \<Rightarrow> string \<Rightarrow> bool" where
  "holds_string n str b \<longleftrightarrow> NUL \<in> set (take n b) \<and> cstr b = str"

lemma holds_stringI:
  assumes "NUL \<notin> set str" "length str < n"
  shows "holds_string n str (str @ NUL # rest)"
proof -
  have "take n (str @ NUL # rest) = str @ take (n - length str) (NUL # rest)" using assms(2) by simp
  then show ?thesis using assms by (cases "n - length str") (auto simp: holds_string_def cstr_stop)
qed

lemma copy_name_ok:
  assumes "0 < len" "nat len \<le> length buff"
  obtains b where "copy_name src len buff = Some b" "length b = length buff"
    "holds_string (nat len) (take (nat len - 1) (cstr src)) b" "drop (nat len) b = drop (nat len) buff"
proof -
  define n where "n = nat len"
  have n: "0 < n" "n \<le> length buff" using assms by (simp_all add: n_def)
  define b where "b = (strncpy src n @ drop n buff)[n - 1 := NUL]"
  have c: "copy_name src len buff = Some b"
    using assms n by (simp add: copy_name_def write_start_fits n_def [symmetric] b_def)
  define k where "k = min (n - 1) (length (cstr src))"
  have k: "k < n" "length (take (n - 1) (cstr src)) = k" using n by (auto simp: k_def)
  have t: "take k b = take (n - 1) (cstr src)"
    using n by (auto simp: b_def k_def strncpy_def take_update_swap intro!: nth_equalityI)
  have z: "b ! k = NUL"
    using n by (auto simp: b_def k_def strncpy_def nth_list_update nth_append)
  have "k < length b" using k n by (simp add: b_def)
  then have "b = take (n - 1) (cstr src) @ NUL # drop (Suc k) b" using id_take_nth_drop [of k b] t z by simp
  moreover have "NUL \<notin> set (take (n - 1) (cstr src))" using in_set_takeD cstr_no_NUL by metis
  ultimately have "holds_string n (take (n - 1) (cstr src)) b"
    using holds_stringI [of "take (n - 1) (cstr src)" n "drop (Suc k) b"] k by metis
  moreover have "length b = length buff" "drop n b = drop n buff" using n by (simp_all add: b_def)
  ultimately show thesis using that c by (simp add: n_def)
qed

section \<open>Looking up names and addresses\<close>

lemma getnameinfo_ok:
  assumes "srv_ok srv fds" "n \<le> length buff"
  obtains ok b s' where "net_getnameinfo srv numeric a n buff s = Some (ok, b, s')" "same_fds fds s s'" "length b = length buff" "drop n b = drop n buff"
    "ok \<longrightarrow> (\<exists>str u. os_getnameinfo srv numeric a n (world s) = (Some str, u) \<and> holds_string n str b)"
    "\<not> ok \<longrightarrow> b = buff"
proof -
  obtain r u where r: "os_getnameinfo srv numeric a n (world s) = (r, u)" by fastforce
  have u: "fds u = fds (world s)" using srv_okD(3) [OF assms(1), of numeric a n "world s"] r by simp
  then have same: "same_fds fds s (s\<lparr>world := u\<rparr>)" by (simp add: same_fds_def)
  show thesis
  proof (cases r)
    case None
    then show thesis using that [of False buff] r same by (simp add: net_getnameinfo_def)
  next
    case (Some str)
    have t: "length str < n" "NUL \<notin> set str" using srv_okD(5) [OF assms(1), of numeric a n "world s" str] r Some by simp_all
    have f: "length (str @ [NUL]) \<le> length buff" using t(1) assms(2) by simp
    let ?b = "str @ NUL # drop (Suc (length str)) buff"
    have "net_getnameinfo srv numeric a n buff s = Some (True, ?b, s\<lparr>world := u\<rparr>)"
      using r Some write_start_fits [OF f] by (simp add: net_getnameinfo_def)
    moreover have "length ?b = length buff" using f by simp
    moreover have "drop n ?b = drop n buff"
    proof -
      obtain k where "n = Suc (length str + k)" using t(1) less_iff_Suc_add by blast
      then show ?thesis by (simp add: add.commute)
    qed
    ultimately show thesis using that [of True ?b] same r Some holds_stringI [OF t(2,1)] by blast
  qed
qed

text \<open>The shared part of \<open>resolver_getname\<close> and \<open>resolver_getip\<close>.\<close>

definition lookup_addr :: "'u srv \<Rightarrow> bool \<Rightarrow> string \<Rightarrow> string \<Rightarrow> int \<Rightarrow> 'u net \<Rightarrow> (bool \<times> string \<times> 'u net) option" where
  "lookup_addr srv numeric name buff len s =
     (case net_getaddrinfo (base srv) (Some name) None s of
        (None, s) \<Rightarrow> Some (False, buff, s)
      | (Some [], s) \<Rightarrow> Some (False, buff, s)
      | (Some (head # _), s) \<Rightarrow> do {
          (ok, b, s) \<leftarrow> net_getnameinfo srv numeric head (socklen len) buff s;
          Some (ok, b, net_freeaddrinfo s) })"

lemma resolver_lookup:
  "resolver_getip srv name buff len s =
     (if isip srv name then do { b \<leftarrow> copy_name name len buff; Some (True, b, s) } else lookup_addr srv True name buff len s)"
  "resolver_getname srv name buff len s =
     (if \<not> isip srv name then do { b \<leftarrow> copy_name name len buff; Some (True, b, s) } else lookup_addr srv False name buff len s)"
  by (simp_all add: resolver_getip_def resolver_getname_def lookup_addr_def)

lemma socklen_id: "0 < len \<Longrightarrow> len < 2 ^ 31 \<Longrightarrow> socklen len = nat len"
  by (simp add: socklen_def unat_eq_nat_uint uint_word_of_int)

definition lookup_answer :: "'u srv \<Rightarrow> bool \<Rightarrow> string \<Rightarrow> int \<Rightarrow> 'u \<Rightarrow> string \<Rightarrow> bool" where
  "lookup_answer srv numeric name len u str \<longleftrightarrow>
     (\<exists>head rest u1. os_getaddrinfo (base srv) (Some name) None u = (Some (head # rest), u1) \<and>
        fst (os_getnameinfo srv numeric head (nat len) u1) = Some str)"

lemma lookup_addr_ok:
  assumes ok: "srv_ok srv fds" and l: "0 < len" "len < 2 ^ 31" "nat len \<le> length buff"
  shows "\<exists>ret b s'. lookup_addr srv numeric name buff len s = Some (ret, b, s') \<and> same_fds fds s s' \<and> length b = length buff \<and>
    drop (nat len) b = drop (nat len) buff \<and> (ret \<longrightarrow> (\<exists>str. holds_string (nat len) str b \<and> lookup_answer srv numeric name len (world s) str))"
proof -
  obtain r s1 where g: "net_getaddrinfo (base srv) (Some name) None s = (r, s1)" by fastforce
  obtain q u where q: "os_getaddrinfo (base srv) (Some name) None (world s) = (q, u)" by fastforce
  then have r: "r = q" "world s1 = u" using g by (auto simp: net_getaddrinfo_def)
  note f = getaddrinfo_fds [OF srv_okD(1) [OF ok] g]
  have ne: "r \<noteq> Some []" using srv_okD(4) [OF ok, of "Some name" None "world s"] q r by simp
  show ?thesis
  proof (cases r)
    case None
    then show ?thesis using g f by (auto simp: lookup_addr_def same_fds_def)
  next
    case (Some ais)
    then obtain head rest where ais: "r = Some (head # rest)" using ne by (cases ais) auto
    obtain ret b s2 where n: "net_getnameinfo srv numeric head (nat len) buff s1 = Some (ret, b, s2)" "same_fds fds s1 s2"
      "length b = length buff" "drop (nat len) b = drop (nat len) buff" "ret \<longrightarrow> (\<exists>str u. os_getnameinfo srv numeric head (nat len) (world s1) = (Some str, u) \<and> holds_string (nat len) str b)"
      "\<not> ret \<longrightarrow> b = buff"
      by (rule getnameinfo_ok [OF ok l(3), of numeric head s1])
    have "same_fds fds s (net_freeaddrinfo s2)" using n(2) f ais by (auto simp: same_fds_def net_freeaddrinfo_def)
    moreover have "\<exists>str. holds_string (nat len) str b \<and> lookup_answer srv numeric name len (world s) str" if ret
      using n(5) that q r ais unfolding lookup_answer_def by fastforce
    ultimately show ?thesis using g ais n(1,3,4) by (simp add: lookup_addr_def socklen_id [OF l(1,2)])
  qed
qed


section \<open>Accepting\<close>

lemma net_accept_fds:
  assumes "srv_ok srv fds" "net_accept srv fd s = (r, sa, s')" "owns fds s"
  shows "opens_result fds s r s'" "ai_lists s' = ai_lists s"
proof -
  obtain q a u where q: "os_accept srv fd (world s) = (q, a, u)" by (metis prod_cases3)
  have f: "if q < 0 then fds u = fds (world s) else q \<notin> fds (world s) \<and> fds u = insert q (fds (world s))"
    by (rule srv_ok_accept [OF assms(1) q])
  have s': "r = q" "s' = (if q < 0 then s\<lparr>world := u\<rparr>
      else s\<lparr>opened := insert q (opened s), nonblocking := nonblocking s - {q}, world := u\<rparr>)"
    using assms(2) q by (auto simp: net_accept_def)
  show "opens_result fds s r s'" using f assms(3) s' by (auto simp: opens_result_def owns_def)
  show "ai_lists s' = ai_lists s" using s' by simp
qed

lemma opens_opened:
  "opens_result fds s r s1 \<Longrightarrow> opened s2 = opened s1 \<Longrightarrow> owns fds s2 \<Longrightarrow> opens_result fds s r s2"
  by (simp add: opens_result_def)

lemma same_owns: "same_fds fds s s' \<Longrightarrow> owns fds s \<Longrightarrow> owns fds s'"
  by (simp add: same_fds_def owns_def)

lemma opens_then_same: "opens_result fds s r s1 \<Longrightarrow> same_fds fds s1 s2 \<Longrightarrow> opens_result fds s r s2"
  by (auto simp: opens_result_def same_fds_def owns_def)

text \<open>\<open>ip\<close> after a successful call is a string in the buffer.\<close>

lemma sock_accept_ok:
  assumes ok: "srv_ok srv fds" and o: "owns fds s" and len: "0 < len" "len < 2 ^ 32" "length buff = len"
  shows "\<exists>r b s'. sock_accept srv fd (Some buff) len s = Some (r, Some b, s') \<and> opens_result fds s r s' \<and>
    ai_lists s' = ai_lists s \<and> length b = len \<and> (r \<noteq> SOCK_ERROR \<longrightarrow> NUL \<in> set b)"
proof (cases "sock_valid_socket (base srv) fd s")
  case False
  then show ?thesis using o len by (simp add: sock_accept_def opens_result_def SOCK_ERROR_def)
next
  case valid: True
  obtain r sa s1 where a: "net_accept srv fd s = (r, sa, s1)" by (metis prod_cases3)
  note f = net_accept_fds [OF ok a o]
  show ?thesis
  proof (cases "r = SOCK_ERROR")
    case True
    then show ?thesis using valid a f len by (simp add: sock_accept_def)
  next
    case False
    have l: "len mod 2 ^ 32 = len" "len \<le> length buff" using len by simp_all
    obtain ret b s2 where n: "net_getnameinfo srv True sa len buff s1 = Some (ret, b, s2)" "same_fds fds s1 s2" "length b = length buff"
      "drop len b = drop len buff" "ret \<longrightarrow> (\<exists>str u. os_getnameinfo srv True sa len (world s1) = (Some str, u) \<and> holds_string len str b)"
      "\<not> ret \<longrightarrow> b = buff"
      by (rule getnameinfo_ok [OF ok l(2), of True sa s1])
    define b' where "b' = (if ret then b else take (len - 1) ''unknown'' @ [NUL] @ drop (length (take (len - 1) ''unknown'' @ [NUL])) b)"
    have u: "length (take (len - 1) ''unknown'' @ [NUL]) \<le> length b" using len n(3) by simp
    have w: "(if ret then Some b else write_start (take (len - 1) ''unknown'' @ [NUL]) b) = Some b'"
      using write_start_fits(1) [OF u] by (simp add: b'_def)
    have lb: "length b' = len" using write_start_fits(2) [OF u] n(3) len by (simp add: b'_def)
    have z: "NUL \<in> set b'"
      using n(3,5) len by (auto simp: b'_def holds_string_def dest: in_set_takeD)
    define s3 where "s3 = snd (sock_set_keepalive (base srv) r (snd (sock_set_nolinger (base srv) r s2)))"
    have "same_fds fds s2 s3"
      unfolding s3_def sock_set_keepalive_def sock_set_nolinger_def
      by (rule same_trans [OF same_ops(3) [OF srv_okD(1) [OF ok]] same_ops(3) [OF srv_okD(1) [OF ok]]])
    then have same: "same_fds fds s1 s3" using n(2) same_trans by blast
    have "sock_accept srv fd (Some buff) len s = Some (r, Some b', s3)"
      using valid a False len(1) l(1) n(1) w by (simp add: sock_accept_def s3_def Let_def)
    moreover have "opens_result fds s r s3" "ai_lists s3 = ai_lists s"
      using opens_then_same [OF f(1) same] same f(2) by (simp_all add: same_fds_def)
    ultimately show ?thesis using lb z by blast
  qed
qed


section \<open>The test for mapped addresses\<close>

text \<open>Closing what a function has returned, be it a descriptor or an error, leaves open what was open before.\<close>

lemma close_result:
  assumes "os_ok os fds" "opens_result fds s r s'" "opened s \<subseteq> {0..}"
  shows "opened (snd (sock_close os r s')) = opened s" "owns fds (snd (sock_close os r s'))"
    "ai_lists (snd (sock_close os r s')) = ai_lists s'"
proof -
  note c = close_fds [OF assms(1), of r s']
  have "opened s' - {r} = opened s" using assms(2,3) by (auto simp: opens_result_def split: if_splits)
  then show "opened (snd (sock_close os r s')) = opened s" using c(1) by simp
  show "owns fds (snd (sock_close os r s'))" using assms(2) c(1,2) by (auto simp: owns_def opens_result_def)
  show "ai_lists (snd (sock_close os r s')) = ai_lists s'" by (rule c(3))
qed

lemma opens_nonneg: "opens_result fds s r s' \<Longrightarrow> opened s \<subseteq> {0..} \<Longrightarrow> opened s' \<subseteq> {0..}"
  by (auto simp: opens_result_def split: if_splits)

text \<open>Nothing is left behind between two states.\<close>

definition nothing_left :: "('u \<Rightarrow> int set) \<Rightarrow> 'u net \<Rightarrow> 'u net \<Rightarrow> bool" where
  "nothing_left fds s s' \<longleftrightarrow> opened s' = opened s \<and> ai_lists s' = ai_lists s \<and> owns fds s'"

lemma close_nothing_left:
  assumes "os_ok os fds" "opens_result fds s r s1" "opened s \<subseteq> {0..}" "opened s2 = opened s1" "owns fds s2" "ai_lists s2 = ai_lists s"
  shows "nothing_left fds s (snd (sock_close os r s2))"
  using close_result [OF assms(1) opens_opened [OF assms(2,4,5)] assms(3)] assms(6) by (simp add: nothing_left_def)

lemma sock_connect_wto_ok:
  assumes "os_ok os fds" "waits_end os m" "owns fds s"
  obtains r s' where "sock_connect_wto os host port 0 s = Some (r, s')" "opens_result fds s r s'" "ai_lists s' = ai_lists s"
proof -
  have t: "- 2147483 \<le> (0 :: int)" "(0 :: int) \<le> 2147483" by simp_all
  show thesis using sock_connect_ok [OF assms(1,2) t assms(3), of host port] that by (auto simp: sock_connect_wto_def)
qed

lemma net_listen_same:
  assumes "srv_ok srv fds" "net_listen srv fd n s = (r, s')"
  shows "same_fds fds s s'"
proof -
  obtain q u where q: "os_listen srv fd n (world s) = (q, u)" by fastforce
  then have "fds u = fds (world s)" using srv_okD(2) [OF assms(1), of fd n "world s"] by simp
  moreover have "s' = s\<lparr>world := u\<rparr>" using assms(2) q by (simp add: net_listen_def)
  ultimately show ?thesis by (simp add: same_fds_def)
qed

text \<open>From the connection on.\<close>

lemma mapped_connected:
  assumes ok: "srv_ok srv fds" and m: "waits_end (base srv) m" and o: "owns fds s" and n: "opened s \<subseteq> {0..}"
  obtains c s1 r ip s3 where "sock_connect_wto (base srv) ''127.0.0.1'' (int port) 0 s = Some (c, s1)"
    "c = SOCK_ERROR \<longrightarrow> nothing_left fds s s1"
    "sock_accept srv ssock (Some (replicate (MAX_ADDR_LEN + 1) NUL)) (MAX_ADDR_LEN + 1) (snd (sock_close (base srv) c s1)) = Some (r, Some ip, s3)"
    "r = SOCK_ERROR \<longrightarrow> nothing_left fds s s3" "nothing_left fds s (snd (sock_close (base srv) r s3))"
proof -
  note os = srv_okD(1) [OF ok]
  obtain c s1 where c: "sock_connect_wto (base srv) ''127.0.0.1'' (int port) 0 s = Some (c, s1)" "opens_result fds s c s1"
    "ai_lists s1 = ai_lists s" by (rule sock_connect_wto_ok [OF os m o])
  define s2 where "s2 = snd (sock_close (base srv) c s1)"
  have l2: "nothing_left fds s s2" unfolding s2_def
    by (rule close_nothing_left [OF os c(2) n refl _ c(3)]) (use c(2) in \<open>simp add: opens_result_def\<close>)
  have n2: "opened s2 \<subseteq> {0..}" using l2 n by (simp add: nothing_left_def)
  have len: "0 < MAX_ADDR_LEN + 1" "MAX_ADDR_LEN + 1 < 2 ^ 32" "length (replicate (MAX_ADDR_LEN + 1) NUL) = MAX_ADDR_LEN + 1"
    by (simp_all add: MAX_ADDR_LEN_def)
  have o2: "owns fds s2" using l2 by (simp add: nothing_left_def)
  obtain r ip s3 where a: "sock_accept srv ssock (Some (replicate (MAX_ADDR_LEN + 1) NUL)) (MAX_ADDR_LEN + 1) s2 = Some (r, Some ip, s3)"
    "opens_result fds s2 r s3" "ai_lists s3 = ai_lists s2" using sock_accept_ok [OF ok o2 len] by blast
  have o3: "owns fds s3" using a(2) by (simp add: opens_result_def)
  have "nothing_left fds s2 (snd (sock_close (base srv) r s3))" by (rule close_nothing_left [OF os a(2) n2 refl o3 a(3)])
  then have l3: "nothing_left fds s (snd (sock_close (base srv) r s3))" using l2 by (simp add: nothing_left_def)
  have e1: "c = SOCK_ERROR \<longrightarrow> nothing_left fds s s1" using c by (simp add: nothing_left_def opens_result_def SOCK_ERROR_def)
  have e3: "r = SOCK_ERROR \<longrightarrow> nothing_left fds s s3"
    using a l2 by (simp add: nothing_left_def opens_result_def SOCK_ERROR_def)
  show thesis by (rule that [OF c(1) e1 a(1) [unfolded s2_def] e3 l3])
qed

lemma mapped_no_leak:
  assumes ok: "srv_ok srv fds" and m: "waits_end (base srv) m" and o: "owns fds s" and n: "opened s \<subseteq> {0..}"
  shows "\<exists>b s'. sock_is_ipv4_mapped_supported srv s = Some (b, s') \<and> nothing_left fds s s'"
proof -
  note os = srv_okD(1) [OF ok]
  obtain ss s1 where ss: "sock_get_server_socket (base srv) 0 (Some ''::'') True s = (ss, s1)" "opens_result fds s ss s1" "ai_lists s1 = ai_lists s"
    using sock_server_ok [OF os o, of 0 "Some ''::''" True] by blast
  have n1: "opened s1 \<subseteq> {0..}" by (rule opens_nonneg [OF ss(2) n])
  obtain l s2 where l: "net_listen srv ss 1 s1 = (l, s2)" by fastforce
  have same: "same_fds fds s1 s2" by (rule net_listen_same [OF ok l])
  have o2: "owns fds s2" using same_owns [OF same] ss(2) by (simp add: opens_result_def)
  have n2: "opened s2 \<subseteq> {0..}" using n1 same by (simp add: same_fds_def)
  have done_left: "nothing_left fds s (snd (sock_close (base srv) ss s4))" if q: "nothing_left fds s2 s4" for s4
    by (rule close_nothing_left [OF os ss(2) n]) (use q same ss(3) in \<open>simp_all add: nothing_left_def same_fds_def\<close>)
  have b2: "nothing_left fds s2 s2" using o2 by (simp add: nothing_left_def)
  note d = sock_is_ipv4_mapped_supported_def [of srv s] Let_def ss(1) l
  show ?thesis
  proof (cases "ss = SOCK_ERROR")
    case True
    then have "sock_is_ipv4_mapped_supported srv s = Some (False, s1)" by (simp add: d)
    moreover have "nothing_left fds s s1" using ss(2,3) True by (simp add: nothing_left_def opens_result_def SOCK_ERROR_def)
    ultimately show ?thesis by blast
  next
    case f1: False
    show ?thesis
    proof (cases "l = 0 \<and> os_getsockname srv ss (world s2) \<noteq> None \<and>
        (\<forall>fam port alen. os_getsockname srv ss (world s2) = Some (fam, port, alen) \<longrightarrow> \<not> (alen < 28 \<or> fam \<noteq> AF_INET6))")
      case False
      then have "sock_is_ipv4_mapped_supported srv s = Some (False, snd (sock_close (base srv) ss s2))"
        using f1 by (auto simp: d split: option.splits)
      then show ?thesis using done_left [OF b2] by blast
    next
      case True
      then obtain fam port alen where g: "l = 0" "os_getsockname srv ss (world s2) = Some (fam, port, alen)" "\<not> (alen < 28 \<or> fam \<noteq> AF_INET6)"
        by auto
      obtain c s3 r ip s4 where c: "sock_connect_wto (base srv) ''127.0.0.1'' (int port) 0 s2 = Some (c, s3)"
        "c = SOCK_ERROR \<longrightarrow> nothing_left fds s2 s3"
        "sock_accept srv ss (Some (replicate (MAX_ADDR_LEN + 1) NUL)) (MAX_ADDR_LEN + 1) (snd (sock_close (base srv) c s3)) = Some (r, Some ip, s4)"
        "r = SOCK_ERROR \<longrightarrow> nothing_left fds s2 s4" "nothing_left fds s2 (snd (sock_close (base srv) r s4))"
        by (rule mapped_connected [OF ok m o2 n2])
      show ?thesis
      proof (cases "c = SOCK_ERROR")
        case True
        then show ?thesis using f1 g c(1) done_left [of s3] c(2) by (auto simp: d)
      next
        case f2: False
        show ?thesis
        proof (cases "r = SOCK_ERROR")
          case True
          then show ?thesis using f1 f2 g c(1,3) done_left [of s4] c(4) by (auto simp: d)
        next
          case False
          then show ?thesis using f1 f2 g c(1,3) done_left [OF c(5)] by (simp add: d)
        qed
      qed
    qed
  qed
qed


section \<open>The variants for older systems\<close>

text \<open>The old \<open>vsnprintf\<close>: -1 when the text and its terminator do not fit.\<close>

definition old_vsnprintf :: "string \<Rightarrow> nat \<Rightarrow> int \<times> string" where
  "old_vsnprintf str len = (if length str < len then (int (length str), str @ [NUL]) else (-1, take len str))"

lemma write_fmt_loop_fits:
  assumes "\<And>n. mem n" "str \<noteq> []"
  shows "length str < len + 8192 * k \<Longrightarrow> len + 8192 * k < 2097152 \<Longrightarrow>
    write_fmt_loop mem (old_vsnprintf str) os sock len ret s = Some (sock_write_bytes os sock (Some str) s)"
proof (induction k arbitrary: len ret)
  case 0
  then show ?case using assms by (simp add: write_fmt_loop.simps [of _ _ _ _ len] old_vsnprintf_def)
next
  case (Suc k)
  then show ?case using assms Suc.IH [of "len + 8192" "-1"]
    by (simp add: write_fmt_loop.simps [of _ _ _ _ len] old_vsnprintf_def)
qed

lemma write_fmt_loop_never:
  assumes "\<And>n. mem n" "\<And>j. 1024 + 8192 * j < 2097152 \<Longrightarrow> fst (vsn (1024 + 8192 * j)) = r" "r \<le> 0"
  shows "j + k = 256 \<Longrightarrow> (j = 256 \<Longrightarrow> ret = r) \<Longrightarrow> write_fmt_loop mem vsn os sock (1024 + 8192 * j) ret s = Some (r, s)"
proof (induction k arbitrary: j ret)
  case 0
  then have "j = 256" "ret = r" by simp_all
  then show ?case by (subst write_fmt_loop.simps) simp
next
  case (Suc k)
  then have j: "1024 + 8192 * j < 2097152" by simp
  obtain b where v: "vsn (1024 + 8192 * j) = (r, b)" using assms(2) [OF j] by (metis prod.collapse)
  have "write_fmt_loop mem vsn os sock (1024 + 8192 * Suc j) r s = Some (r, s)" by (rule Suc.IH) (use Suc.prems in simp_all)
  moreover have "write_fmt_loop mem vsn os sock (1024 + 8192 * j) ret s = write_fmt_loop mem vsn os sock (1024 + 8192 * Suc j) r s"
    using assms(1,3) j v by (subst write_fmt_loop.simps) (simp add: add.commute)
  ultimately show ?case by simp
qed

lemma write_fmt_variants:
  assumes mem: "\<And>n. mem n"
  shows "sock_write_fmt_old mem (old_vsnprintf str) os sock s =
    Some (if str = [] then (0, s) else if length str < 2089984 then sock_write_fmt mem os sock (Some str) s else (-1, s))"
proof -
  consider "str = []" | "str \<noteq> []" "length str < 2089984" | "str \<noteq> []" "2089984 \<le> length str" by linarith
  then show ?thesis
  proof cases
    case 1
    have "write_fmt_loop mem (old_vsnprintf []) os sock (1024 + 8192 * 0) (-1) s = Some (0, s)"
      by (rule write_fmt_loop_never [OF mem, of _ 0 0 256]) (simp_all add: old_vsnprintf_def)
    then show ?thesis using 1 by (simp add: sock_write_fmt_old_def)
  next
    case 2
    have "write_fmt_loop mem (old_vsnprintf str) os sock 1024 (-1) s = Some (sock_write_bytes os sock (Some str) s)"
      by (rule write_fmt_loop_fits [OF mem 2(1), of _ 255]) (use 2(2) in simp_all)
    then show ?thesis using 2 mem by (simp add: sock_write_fmt_old_def sock_write_fmt_def)
  next
    case 3
    have "fst (old_vsnprintf str (1024 + 8192 * j)) = -1" if q: "1024 + 8192 * j < 2097152" for j
    proof -
      have "j \<le> 255" using q by linarith
      then show ?thesis using 3(2) by (simp add: old_vsnprintf_def)
    qed
    then have "write_fmt_loop mem (old_vsnprintf str) os sock (1024 + 8192 * 0) (-1) s = Some (-1, s)"
      by (intro write_fmt_loop_never [OF mem, of _ "-1" 0 256]) simp_all
    then show ?thesis using 3 by (simp add: sock_write_fmt_old_def)
  qed
qed


lemma try_connection_old:
  assumes "\<not> isip_aton srv host" "cstr host \<noteq> []" "port \<noteq> 0" "os_gethostbyname srv host (world s) = (r, u)"
  shows "r = None \<Longrightarrow> sock_try_connection srv sock (Some host) port s = Some (-1, snd (sock_close (base srv) sock (s\<lparr>world := u\<rparr>)))"
    "r = Some h \<Longrightarrow> os_inet_aton srv (take 45 (cstr h)) \<noteq> None \<Longrightarrow> sock_try_connection srv sock (Some host) port s = None"
proof -
  show "sock_try_connection srv sock (Some host) port s = Some (-1, snd (sock_close (base srv) sock (s\<lparr>world := u\<rparr>)))" if "r = None"
    using assms that by (simp add: sock_try_connection_def resolver_getip_old_def)
  have l: "0 < int MAX_ADDR_LEN" "nat (int MAX_ADDR_LEN) \<le> length (replicate MAX_ADDR_LEN NUL)" by (simp_all add: MAX_ADDR_LEN_def)
  obtain b where b: "copy_name h (int MAX_ADDR_LEN) (replicate MAX_ADDR_LEN NUL) = Some b"
    "holds_string (nat (int MAX_ADDR_LEN)) (take (nat (int MAX_ADDR_LEN) - 1) (cstr h)) b"
    "drop (nat (int MAX_ADDR_LEN)) b = drop (nat (int MAX_ADDR_LEN)) (replicate MAX_ADDR_LEN NUL)" by (rule copy_name_ok [OF l, of h])
  then have c: "cstr b = take 45 (cstr h)" by (simp add: holds_string_def MAX_ADDR_LEN_def)
  show "sock_try_connection srv sock (Some host) port s = None" if "r = Some h" "os_inet_aton srv (take 45 (cstr h)) \<noteq> None"
    using assms that b(1) c by (auto simp: sock_try_connection_def resolver_getip_old_def memcpy_sockaddr_def)
qed

lemma connect_old:
  assumes os: "os_ok (base srv) fds" and n: "\<not> isip_aton srv host" "cstr host \<noteq> []" "port \<noteq> 0"
    and f: "net_socket (base srv) inet_any s = (fd, s1)" "0 \<le> fd"
    and g: "os_gethostbyname srv host (world (snd (sock_set_blocking (base srv) fd 0 s1))) = (r, u)"
  shows "case r of
      None \<Rightarrow> \<exists>s'. sock_connect_non_blocking_old srv (Some host) port s = Some (fd, s') \<and> fd \<notin> opened s'
    | Some h \<Rightarrow> os_inet_aton srv (take 45 (cstr h)) \<noteq> None \<longrightarrow> sock_connect_non_blocking_old srv (Some host) port s = None"
proof -
  have ne: "fd \<noteq> SOCK_ERROR" using f(2) by (simp add: SOCK_ERROR_def)
  note t = try_connection_old [OF n g]
  show ?thesis
  proof (cases r)
    case None
    then show ?thesis using t(1) f(1) ne close_fds(1) [OF os] by (simp add: sock_connect_non_blocking_old_def)
  next
    case (Some h)
    then show ?thesis using t(2) [OF Some] f(1) ne by (simp add: sock_connect_non_blocking_old_def)
  qed
qed

section \<open>Properties\<close>

text \<open>The operating system of the witnesses, with a name server.\<close>

definition demo_srv :: "(string \<times> int list) srv" where
  "demo_srv = \<lparr>base = demo_os, os_inet_pton4 = (\<lambda>t. if t = ''127.0.0.1'' then 1 else 0), os_inet_pton6 = (\<lambda>t. 0),
     os_inet_aton = (\<lambda>t. if t = ''127.0.0.1'' then Some \<lparr>ai_family = AF_INET, ai_addr = t\<rparr> else None),
     os_getnameinfo = (\<lambda>numeric a n u. let t = (if numeric then cstr (ai_addr a) else ''localhost'')
       in (if length t < n then Some t else None, u)),
     os_gethostbyaddr = (\<lambda>a u. (Some ''localhost'', u)), os_gethostbyname = (\<lambda>h u. (Some ''127.0.0.1'', u)),
     os_listen = (\<lambda>fd n u. (0, u)),
     os_accept = (\<lambda>fd u. let r = foldr max (snd u) 2 + 1 in (r, \<lparr>ai_family = AF_INET6, ai_addr = ''::ffff:127.0.0.1''\<rparr>, (fst u, r # snd u))),
     os_getsockname = (\<lambda>fd u. Some (AF_INET6, 8000, 28)), os_select = (\<lambda>n t u. (1, u)), os_recv_peek = (\<lambda>fd u. (1, u))\<rparr>"

lemma base_demo [simp]: "base demo_srv = demo_os"
  by (simp add: demo_srv_def)

lemma demo_srv_ok: "srv_ok demo_srv (\<lambda>u. set (snd u))"
proof -
  have o: "os_ok (base demo_srv) (\<lambda>u. set (snd u))" using demo_os_ok(1) by simp
  have m: "foldr max xs 2 + 1 \<notin> set xs \<and> \<not> foldr max xs 2 + 1 < (0 :: int)" for xs :: "int list"
  proof
    show "foldr max xs 2 + 1 \<notin> set xs" using foldr_max_ge [of "foldr max xs 2 + 1" xs] by auto
    have "(2 :: int) \<le> foldr max xs 2" by (induction xs) auto
    then show "\<not> foldr max xs 2 + 1 < (0 :: int)" by simp
  qed
  have "fst (os_getaddrinfo demo_os h n u) \<noteq> Some []" for h n u by (simp add: demo_os_def)
  then show ?thesis using o m unfolding srv_ok_def by (auto simp: demo_srv_def Let_def)
qed

text \<open>C21: Looking up the address or the name of a host returns at most once what the system says: the buffer holds a terminated
  string, which is the argument itself (cut to the buffer) when there is nothing to look up, and otherwise what the name service
  reports for the first address; every address list is freed, and nothing is written behind the \<open>len\<close> bytes of the caller.\<close>

theorem resolver_correct:
  assumes "srv_ok srv fds" "0 < len" "len < 2 ^ 31" "nat len \<le> length buff"
  shows "(\<exists>ret b s'. resolver_getip srv name buff len s = Some (ret, b, s') \<and> same_fds fds s s' \<and> length b = length buff \<and>
      drop (nat len) b = drop (nat len) buff \<and> (ret \<longrightarrow> (\<exists>str. holds_string (nat len) str b \<and>
        (if isip srv name then str = take (nat len - 1) (cstr name) else lookup_answer srv True name len (world s) str)))) \<and>
    (\<exists>ret b s'. resolver_getname srv name buff len s = Some (ret, b, s') \<and> same_fds fds s s' \<and> length b = length buff \<and>
      drop (nat len) b = drop (nat len) buff \<and> (ret \<longrightarrow> (\<exists>str. holds_string (nat len) str b \<and>
        (if isip srv name then lookup_answer srv False name len (world s) str else str = take (nat len - 1) (cstr name)))))"
proof -
  obtain b where b: "copy_name name len buff = Some b" "length b = length buff"
    "holds_string (nat len) (take (nat len - 1) (cstr name)) b" "drop (nat len) b = drop (nat len) buff"
    by (rule copy_name_ok [OF assms(2,4), of name])
  show ?thesis
    using b lookup_addr_ok [OF assms, of True name s] lookup_addr_ok [OF assms, of False name s]
    by (cases "isip srv name") (auto simp: resolver_lookup)
qed

theorem resolver_correct_witness:
  "\<exists>ret b s'. resolver_getip demo_srv ''127.0.0.1'' (replicate 46 NUL) 46 (demo_net []) = Some (ret, b, s') \<and> length b = 46 \<and>
    (ret \<longrightarrow> cstr b = ''127.0.0.1'')"
proof -
  have l: "0 < (46 :: int)" "(46 :: int) < 2 ^ 31" "nat 46 \<le> length (replicate 46 NUL)" by simp_all
  have "isip demo_srv ''127.0.0.1''" "cstr ''127.0.0.1'' = ''127.0.0.1''" by (simp_all add: isip_def demo_srv_def cstr_def)
  then show ?thesis
    using conjunct1 [OF resolver_correct [OF demo_srv_ok l, of "''127.0.0.1''" "demo_net []"]] by (auto simp: holds_string_def)
qed


text \<open>C33: The test for mapped addresses is defined and leaves nothing behind: whatever fails on the way, no descriptor that it has
  opened stays open and every address list is freed.\<close>

theorem sock_is_ipv4_mapped_supported_leaves_nothing:
  assumes "srv_ok srv fds" "waits_end (base srv) m" "owns fds s" "opened s \<subseteq> {0..}"
  shows "\<exists>b s'. sock_is_ipv4_mapped_supported srv s = Some (b, s') \<and> opened s' = opened s \<and> ai_lists s' = ai_lists s"
  using mapped_no_leak [OF assms] by (auto simp: nothing_left_def)

theorem sock_is_ipv4_mapped_supported_leaves_nothing_witness:
  "\<exists>b s'. sock_is_ipv4_mapped_supported demo_srv (demo_net []) = Some (b, s') \<and> opened s' = {}"
proof -
  have w: "waits_end (base demo_srv) (\<lambda>u. 0)" "opened (demo_net []) \<subseteq> {0..}" using demo_os_ok(2) by (simp_all add: demo_net_def)
  show ?thesis
    using sock_is_ipv4_mapped_supported_leaves_nothing [OF demo_srv_ok w(1) demo_os_ok(3) w(2)] by (fastforce simp: demo_net_def)
qed

text \<open>Accepting yields at most one new descriptor, and with it a terminated string in the caller's buffer; without
  \<open>getnameinfo\<close> the buffer has no terminator as soon as the address has as many characters as the buffer.\<close>

theorem sock_accept_string:
  assumes "srv_ok srv fds" "owns fds s" "0 < len" "len < 2 ^ 32" "length buff = len"
  shows "(\<exists>r b s'. sock_accept srv fd (Some buff) len s = Some (r, Some b, s') \<and> opens_result fds s r s' \<and>
      ai_lists s' = ai_lists s \<and> length b = len \<and> (r \<noteq> SOCK_ERROR \<longrightarrow> NUL \<in> set b)) \<and>
    (sock_valid_socket (base srv) fd s \<and> net_accept srv fd s = (r, sa, s1) \<and> r \<noteq> SOCK_ERROR \<and> len \<le> length (cstr (ai_addr sa)) \<longrightarrow>
      (\<exists>b s'. sock_accept_old srv fd (Some buff) len s = Some (r, Some b, s') \<and> NUL \<notin> set b))"
proof -
  have "NUL \<notin> set (take len (cstr (ai_addr sa)))" using in_set_takeD cstr_no_NUL by metis
  then have "\<exists>b s'. sock_accept_old srv fd (Some buff) len s = Some (r, Some b, s') \<and> NUL \<notin> set b"
    if "sock_valid_socket (base srv) fd s \<and> net_accept srv fd s = (r, sa, s1) \<and> r \<noteq> SOCK_ERROR \<and> len \<le> length (cstr (ai_addr sa))"
    using that assms(3,5) by (simp add: sock_accept_old_def write_start_def strncpy_def)
  then show ?thesis using sock_accept_ok [OF assms, of fd] by blast
qed

theorem sock_accept_string_witness:
  "\<exists>b s'. sock_accept_old demo_srv 3 (Some (replicate 16 NUL)) 16 (demo_net []) = Some (3, Some b, s') \<and> NUL \<notin> set b"
proof -
  have l: "0 < (16 :: nat)" "(16 :: nat) < 2 ^ 32" "length (replicate 16 NUL) = 16" by simp_all
  have "sock_valid_socket (base demo_srv) 3 (demo_net [])" "16 \<le> length (cstr ''::ffff:127.0.0.1'')"
    by (simp_all add: sock_valid_socket_def demo_os_def cstr_def)
  moreover have "net_accept demo_srv 3 (demo_net []) = (3, \<lparr>ai_family = AF_INET6, ai_addr = ''::ffff:127.0.0.1''\<rparr>, snd (snd (net_accept demo_srv 3 (demo_net []))))"
    by (simp add: net_accept_def demo_srv_def demo_net_def)
  moreover have "(3 :: int) \<noteq> SOCK_ERROR" by (simp add: SOCK_ERROR_def)
  ultimately show ?thesis
    using conjunct2 [OF sock_accept_string [OF demo_srv_ok demo_os_ok(3) l, of 3 "[]" 3 "\<lparr>ai_family = AF_INET6, ai_addr = ''::ffff:127.0.0.1''\<rparr>"]]
    by simp
qed

text \<open>\<open>sock_write_fmt\<close> with an old \<open>vsnprintf\<close> tries ever larger buffers, and ends. It does what the other variant does for
  every text of less than 2089984 characters, sends nothing for longer ones, and nothing, without an error, for the empty text.\<close>

theorem sock_write_fmt_variants:
  assumes "\<And>n. mem n"
  shows "sock_write_fmt_old mem (old_vsnprintf str) os sock s =
    Some (if str = [] then (0, s) else if length str < 2089984 then sock_write_fmt mem os sock (Some str) s else (-1, s))"
  using assms by (rule write_fmt_variants)

theorem sock_write_fmt_variants_witness:
  "sock_write_fmt_old (\<lambda>n. True) (old_vsnprintf ''HTTP'') demo_os 3 (demo_net []) = Some (4, demo_net [])"
  by (subst sock_write_fmt_variants) (simp_all add: sock_write_fmt_def sock_write_bytes_def demo_os_def demo_net_def)

text \<open>Without \<open>getaddrinfo\<close> no connection is ever attempted: when the host is resolved, the copy of its address runs over the
  end of a structure; when it is not, the descriptor that \<open>sock_connect_non_blocking\<close> returns has been closed.\<close>

theorem sock_connect_old_fails:
  assumes "os_ok (base srv) fds" "\<not> isip_aton srv host" "cstr host \<noteq> []" "port \<noteq> 0"
    "net_socket (base srv) inet_any s = (fd, s1)" "0 \<le> fd"
    "os_gethostbyname srv host (world (snd (sock_set_blocking (base srv) fd 0 s1))) = (r, u)"
  shows "case r of
      None \<Rightarrow> \<exists>s'. sock_connect_non_blocking_old srv (Some host) port s = Some (fd, s') \<and> fd \<notin> opened s'
    | Some h \<Rightarrow> os_inet_aton srv (take 45 (cstr h)) \<noteq> None \<longrightarrow> sock_connect_non_blocking_old srv (Some host) port s = None"
  using assms by (rule connect_old)

theorem sock_connect_old_fails_witness:
  "sock_connect_non_blocking_old demo_srv (Some ''localhost'') 8000 (demo_net []) = None"
proof -
  have f: "net_socket (base demo_srv) inet_any (demo_net []) = (3, (demo_net [])\<lparr>opened := {3}, world := ([], [3])\<rparr>)"
    by (simp add: net_socket_def demo_os_def demo_net_def)
  have o: "os_ok (base demo_srv) (\<lambda>u. set (snd u))" using demo_os_ok(1) by simp
  have h: "\<not> isip_aton demo_srv ''localhost''" "cstr ''localhost'' \<noteq> []" "(8000 :: uint) \<noteq> 0" "(0 :: int) \<le> 3"
    by (simp_all add: isip_aton_def demo_srv_def cstr_def)
  have "os_inet_aton demo_srv (take 45 (cstr ''127.0.0.1'')) \<noteq> None" by (simp add: demo_srv_def cstr_def)
  moreover have "os_gethostbyname demo_srv ''localhost'' u = (Some ''127.0.0.1'', u)" for u by (simp add: demo_srv_def)
  ultimately show ?thesis using sock_connect_old_fails [OF o h(1-3) f h(4)] by fastforce
qed

text \<open>Without \<open>getaddrinfo\<close>, a server socket that cannot be bound is reported as an error and left open.\<close>

theorem sock_server_socket_old_leaks:
  assumes "0 \<le> port" "net_socket (base srv) inet_any s = (fd, s1)" "0 \<le> fd"
    "fst (net_bind (base srv) fd inet_any (snd (net_setsockopt (base srv) fd ''SO_REUSEADDR'' s1))) = -1"
  shows "\<exists>s'. sock_get_server_socket_old srv port None s = Some (SOCK_ERROR, s') \<and> fd \<in> opened s'"
proof -
  obtain s2 where b: "net_bind (base srv) fd inet_any (snd (net_setsockopt (base srv) fd ''SO_REUSEADDR'' s1)) = (-1, s2)"
    using assms(4) by (metis prod.collapse)
  have "fd \<in> opened s1" using assms(2,3) by (auto simp: net_socket_def split: prod.splits if_splits)
  moreover have "opened s2 = opened s1" using b by (auto simp: net_bind_def net_setsockopt_def split: prod.splits)
  ultimately show ?thesis using assms(1-3) b by (simp add: sock_get_server_socket_old_def)
qed

theorem sock_server_socket_old_leaks_witness:
  "\<exists>s'. sock_get_server_socket_old (demo_srv\<lparr>base := demo_os\<lparr>os_bind := \<lambda>fd ai u. (-1, u)\<rparr>\<rparr>) 8000 None (demo_net []) = Some (SOCK_ERROR, s') \<and>
    3 \<in> opened s'"
proof (rule sock_server_socket_old_leaks)
  show "net_socket (base (demo_srv\<lparr>base := demo_os\<lparr>os_bind := \<lambda>fd ai u. (-1, u)\<rparr>\<rparr>)) inet_any (demo_net []) =
      (3, (demo_net [])\<lparr>opened := {3}, world := ([], [3])\<rparr>)"
    by (simp add: net_socket_def demo_os_def demo_net_def)
qed (simp_all add: net_bind_def net_setsockopt_def demo_os_def demo_net_def)

text \<open>Waiting for a connection with \<open>select\<close> is waiting with \<open>poll\<close>, when the two calls of the system agree, for the
  descriptors that fit into an \<open>fd_set\<close>; for others it is undefined.\<close>

theorem sock_connected_variants:
  assumes "- 2147483 \<le> timeout" "timeout \<le> 2147483"
    "\<And>u. os_select srv (sock + 1) (if timeout \<ge> 0 then Some timeout else None) u = os_poll (base srv) sock (timeout * 1000) u"
  shows "sock_connected_select srv sock timeout s =
    (if 0 \<le> sock \<and> sock < 1024 then sock_connected (base srv) sock timeout s else None)"
  using assms by (auto simp: sock_connected_select_def sock_connected_def Let_def split_beta)

theorem sock_connected_variants_witness:
  "sock_connected_select demo_srv 3 5 (demo_net []) = Some (1, demo_net []) \<and> sock_connected_select demo_srv 1024 5 (demo_net []) = None"
proof -
  have "sock_connected demo_os 3 5 (demo_net []) = Some (1, demo_net [])" by (simp add: sock_connected_def demo_os_def demo_net_def)
  then show ?thesis
    using sock_connected_variants [of 5 demo_srv 3 "demo_net []"] sock_connected_variants [of 5 demo_srv 1024 "demo_net []"]
    by (simp add: demo_srv_def demo_os_def)
qed

end
