(* ===== verification/Thread_Defs.thy ===== *)
theory Thread_Defs
  imports Avl
begin

text \<open>
  The thread library (src/thread/thread.c): the registry of threads, an AVL tree of \<open>thread_type\<close> records in the
  order of their ids under \<open>_threadtree_mutex\<close>, and the functions that create, name, look up, end and join threads.

  Every critical section is one definition, from the moment the mutex is held to its unlock. The system is a step relation
  \<open>tstep\<close>: any thread that can move makes the next step, so its runs are all interleavings. A step whose outcome is \<open>None\<close> is
  undefined behaviour (an access to a freed record or to NULL, or the unlock of a mutex that the caller does not hold).
  POSIX threads are modelled as documented: a mutex has one owner, a joinable thread that has ended waits for
  \<open>pthread_join\<close>, its system id may be given to another thread after that, and \<open>pthread_create\<close> stores the id before it returns,
  which may be before or after the new thread starts. Each step is labelled with the accidents (\<open>mishap\<close>) in it that the
  code is not prepared for, and \<open>treach\<close> collects those of a run.
\<close>

section \<open>Records\<close>

text \<open>\<open>thread_type\<close>; a string that \<open>strdup\<close> could not copy is NULL (\<open>None\<close>). \<open>sys_thread\<close> is the \<open>pthread_t\<close>.\<close>

record thread_type =
  thread_id :: int
  th_name :: "string option"
  create_time :: int
  th_file :: "string option"
  th_line :: int
  detached :: int
  sys_thread :: nat

text \<open>The block that hands the record to the new thread (\<open>thread_start_t\<close>, without the client's routine and argument).\<close>

record thread_start =
  start_thread :: addr

text \<open>A key of the registry: the pointer to the record and the record's id. The id is written once, before the
  record is inserted, so a key can carry it.\<close>

record tkey =
  kptr :: addr
  kid :: int

definition compare_tkeys :: "tkey \<Rightarrow> tkey \<Rightarrow> int" where
  "compare_tkeys t1 t2 = (if kid t2 < kid t1 then 1 else if kid t1 < kid t2 then -1 else 0)"

definition compare_threads :: "unit \<Rightarrow> tkey option \<Rightarrow> tkey option \<Rightarrow> int" where
  "compare_threads arg a b = (case (a, b) of (Some t1, Some t2) \<Rightarrow> compare_tkeys t1 t2 | _ \<Rightarrow> 0)"

section \<open>The state\<close>

text \<open>What \<open>thread_self\<close> is called for: by the client, by \<open>thread_rename\<close> (with the copy of the new name), by
  \<open>thread_exit_c\<close>. What follows a removal: the caller of \<open>thread_join\<close> goes on, or the thread ends.\<close>

datatype purpose = ForClient | ForRename "string option" | ForExit
datatype continuation = ThenClient | ThenEnd

text \<open>The arguments of \<open>thread_create_c\<close>, with the results of \<open>strdup\<close> and \<open>time\<close>.\<close>

record create_args =
  arg_name :: "string option"
  arg_file :: "string option"
  arg_line :: int
  arg_detached :: int
  arg_time :: int

text \<open>The critical sections under \<open>_threadtree_mutex\<close>.\<close>

datatype critical =
    TakeId create_args addr addr
  | Register addr
  | FindSelf purpose
  | Remove addr continuation

text \<open>Where a thread is: in client code, waiting for the mutex, inside a section, between the id and
  \<open>pthread_create\<close>, inside \<open>pthread_create\<close> when the new thread exists and its id has not been stored yet, between
  \<open>pthread_create\<close> and the end of \<open>thread_create_c\<close>, after \<open>thread_self\<close> in \<open>thread_rename\<close> or
  \<open>thread_exit_c\<close>, in \<open>pthread_join\<close>, ended but not joined, or gone.\<close>

datatype tpc =
    Client
  | Wanting critical
  | Inside critical
  | Numbered create_args addr addr
  | Storing create_args addr nat
  | Created addr
  | Renaming "addr option" "string option"
  | Exiting "addr option"
  | Joining addr nat
  | Zombie
  | Gone

text \<open>A system thread: the variable \<open>thread\<close> of its \<open>_start_routine\<close> (none in the main thread), its place, and whether
  it was created joinable.\<close>

record tproc =
  own :: "addr option"
  pc :: tpc
  joinable :: bool

text \<open>The variables of thread.c (\<open>tree_at\<close> is the address in \<open>_threadtree\<close>, \<open>threadtree\<close> what is stored there), the heap, the owner
  of \<open>_threadtree_mutex\<close> and the system threads. \<open>handles\<close> are the
  pointers that \<open>thread_create_c\<close> has returned for joinable threads and that no \<open>thread_join\<close> was called on yet.\<close>

record tstate =
  next_thread_id :: int
  initialized :: int
  threadtree :: "(tkey, unit) avl_tree option"
  tree_at :: addr
  trees :: tree_store
  tnodes :: "tkey heap"
  recs :: "addr \<rightharpoonup> thread_type"
  starts :: "addr \<rightharpoonup> thread_start"
  owner :: "nat option"
  threads :: "nat \<rightharpoonup> tproc"
  handles :: "addr set"

definition at_pc :: "tstate \<Rightarrow> nat \<Rightarrow> tpc \<Rightarrow> bool" where
  "at_pc s t c \<longleftrightarrow> map_option pc (threads s t) = Some c"

definition set_pc :: "nat \<Rightarrow> tpc \<Rightarrow> tstate \<Rightarrow> tstate" where
  "set_pc t c s = s\<lparr>threads := (threads s)(t := map_option (\<lambda>P. P\<lparr>pc := c\<rparr>) (threads s t))\<rparr>"

text \<open>The end of a system thread.\<close>

definition thread_end :: "nat \<Rightarrow> tstate \<Rightarrow> tstate" where
  "thread_end t s = set_pc t (if \<exists>P. threads s t = Some P \<and> joinable P then Zombie else Gone) s"

definition wr_rec :: "addr \<Rightarrow> (thread_type \<Rightarrow> thread_type) \<Rightarrow> tstate \<Rightarrow> tstate option" where
  "wr_rec p f s = (case recs s p of None \<Rightarrow> None | Some r \<Rightarrow> Some (s\<lparr>recs := (recs s)(p \<mapsto> f r)\<rparr>))"

text \<open>\<open>_mutex_unlock (&_threadtree_mutex)\<close> by thread \<open>t\<close>.\<close>

definition tree_unlock :: "nat \<Rightarrow> tstate \<Rightarrow> tstate option" where
  "tree_unlock t s = (if owner s = Some t then Some (s\<lparr>owner := None\<rparr>) else None)"

text \<open>\<open>_next_thread_id++\<close> on a \<open>long\<close>.\<close>

definition long_succ :: "int \<Rightarrow> int option" where
  "long_succ i = (if i < 2 ^ 63 - 1 then Some (i + 1) else None)"

section \<open>Initialisation and shutdown\<close>

text \<open>\<open>mt\<close>, \<open>mr\<close>, \<open>m\<close>, \<open>p\<close>: results of the allocations of the tree, its sentinel, the node and the record; \<open>junk\<close>: the
  content of the field \<open>detached\<close>, which comes from \<open>malloc\<close> and is not written.\<close>

definition thread_initialize ::
  "addr \<Rightarrow> addr \<Rightarrow> addr \<Rightarrow> addr \<Rightarrow> int \<Rightarrow> nat \<Rightarrow> int \<Rightarrow> string option \<Rightarrow> string option \<Rightarrow> tstate \<Rightarrow> tstate option" where
  "thread_initialize mt mr m p junk self now fname mname s = do {
     let (tree, h, T) = avl_tree_new compare_threads () mt mr (tnodes s) (trees s);
     if p = NULL then None
     else do {
       let i = next_thread_id s;
       nx \<leftarrow> long_succ i;
       let r = \<lparr>thread_id = i, th_name = mname, create_time = now, th_file = fname, th_line = 0, detached = junk,
         sys_thread = self\<rparr>;
       ob \<leftarrow> tree;
       (_, ob, h) \<leftarrow> avl_insert m ob (Some \<lparr>kptr = p, kid = i\<rparr>) h;
       Some (s\<lparr>next_thread_id := nx, initialized := 1, threadtree := Some ob, tree_at := mt, trees := T, tnodes := h,
         recs := (recs s)(p \<mapsto> r), owner := None\<rparr>) } }"

text \<open>\<open>_free_thread\<close> on the heap of records; freeing a record twice makes the heap \<open>None\<close>.\<close>

definition free_thread :: "tkey option \<Rightarrow> (addr \<rightharpoonup> thread_type) option \<Rightarrow> (addr \<rightharpoonup> thread_type) option" where
  "free_thread k R = do {
     k \<leftarrow> k;
     R \<leftarrow> R;
     _ \<leftarrow> R (kptr k);
     Some (R(kptr k := None)) }"

text \<open>To destroy a mutex that a thread holds is undefined.\<close>

definition thread_shutdown :: "tstate \<Rightarrow> tstate option" where
  "thread_shutdown s =
     (if initialized s = 1 then do {
        _ \<leftarrow> (if owner s = None then Some () else None);
        ob \<leftarrow> threadtree s;
        (R, h, T) \<leftarrow> avl_tree_free (tree_at s) ob (Some free_thread) (Some (recs s)) (tnodes s) (trees s);
        R \<leftarrow> R;
        Some (s\<lparr>threadtree := None, tree_at := NULL, trees := T, tnodes := h, recs := R\<rparr>) }
      else Some s)"

section \<open>The parts of the functions\<close>

text \<open>\<open>thread_create_c\<close> up to the lock: the two \<open>calloc\<close> results and the result of \<open>pthread_attr_init\<close>. The second
  component says whether it goes on; otherwise what was allocated has been freed and it returns NULL.\<close>

definition thread_create_alloc :: "create_args \<Rightarrow> addr \<Rightarrow> addr \<Rightarrow> int \<Rightarrow> tstate \<Rightarrow> tstate \<times> bool" where
  "thread_create_alloc a p st attr_rc s =
     (if p = NULL \<or> st = NULL \<or> attr_rc < 0 then (s, False)
      else (s\<lparr>recs := (recs s)(p \<mapsto> \<lparr>thread_id = 0, th_name = None, create_time = 0, th_file = arg_file a,
                th_line = arg_line a, detached = 0, sys_thread = 0\<rparr>),
              starts := (starts s)(st \<mapsto> \<lparr>start_thread = NULL\<rparr>)\<rparr>, True))"

definition take_id :: "nat \<Rightarrow> addr \<Rightarrow> tstate \<Rightarrow> tstate option" where
  "take_id t p s = do {
     nx \<leftarrow> long_succ (next_thread_id s);
     s' \<leftarrow> wr_rec p (\<lambda>r. r\<lparr>thread_id := next_thread_id s\<rparr>) s;
     tree_unlock t (s'\<lparr>next_thread_id := nx\<rparr>) }"

text \<open>From the unlock to \<open>pthread_create\<close>.\<close>

definition thread_create_fill :: "create_args \<Rightarrow> addr \<Rightarrow> addr \<Rightarrow> tstate \<Rightarrow> tstate option" where
  "thread_create_fill a p st s = do {
     s \<leftarrow> wr_rec p (\<lambda>r. r\<lparr>th_name := arg_name a, create_time := arg_time a\<rparr>) s;
     _ \<leftarrow> starts s st;
     let s = s\<lparr>starts := (starts s)(st \<mapsto> \<lparr>start_thread = p\<rparr>)\<rparr>;
     if arg_detached a \<noteq> 0 then wr_rec p (\<lambda>r. r\<lparr>detached := 1\<rparr>) s else Some s }"

text \<open>\<open>pthread_create\<close> succeeds with the new system thread \<open>u\<close>, which starts in \<open>_start_routine\<close>, and stores its id in
  the record (\<open>store_id\<close>): before the new thread starts (\<open>thread_spawn\<close>) or later.\<close>

definition new_thread :: "create_args \<Rightarrow> addr \<Rightarrow> nat \<Rightarrow> tstate \<Rightarrow> tstate" where
  "new_thread a st u s =
     s\<lparr>threads := (threads s)(u \<mapsto> \<lparr>own = None, pc = Wanting (Register st), joinable = (arg_detached a = 0)\<rparr>)\<rparr>"

definition store_id :: "addr \<Rightarrow> nat \<Rightarrow> tstate \<Rightarrow> tstate option" where
  "store_id p u s = wr_rec p (\<lambda>r. r\<lparr>sys_thread := u\<rparr>) s"

definition thread_spawn :: "create_args \<Rightarrow> addr \<Rightarrow> addr \<Rightarrow> nat \<Rightarrow> tstate \<Rightarrow> tstate option" where
  "thread_spawn a p st u s = do {
     s \<leftarrow> thread_create_fill a p st s;
     s \<leftarrow> store_id p u s;
     Some (new_thread a st u s) }"

definition thread_spawn_early :: "nat \<Rightarrow> create_args \<Rightarrow> addr \<Rightarrow> addr \<Rightarrow> nat \<Rightarrow> tstate \<Rightarrow> tstate option" where
  "thread_spawn_early t a p st u s = do {
     s \<leftarrow> thread_create_fill a p st s;
     Some (set_pc t (Storing a p u) (new_thread a st u s)) }"

text \<open>\<open>pthread_create\<close> fails: both blocks are freed, NULL is returned.\<close>

definition thread_create_fail :: "create_args \<Rightarrow> addr \<Rightarrow> addr \<Rightarrow> tstate \<Rightarrow> tstate option" where
  "thread_create_fail a p st s = do {
     s \<leftarrow> thread_create_fill a p st s;
     _ \<leftarrow> starts s st;
     _ \<leftarrow> recs s p;
     Some (s\<lparr>starts := (starts s)(st := None), recs := (recs s)(p := None)\<rparr>) }"

text \<open>\<open>thread_create_c\<close> returns the record; its client may join it unless it is detached. With \<open>pthread_setname_np\<close> it names the
  thread before.\<close>

definition thread_create_return :: "nat \<Rightarrow> addr \<Rightarrow> bool \<Rightarrow> tstate \<Rightarrow> tstate" where
  "thread_create_return t p det s =
     set_pc t Client (if det then s else s\<lparr>handles := insert p (handles s)\<rparr>)"

definition after_create :: "bool \<Rightarrow> nat \<Rightarrow> addr \<Rightarrow> create_args \<Rightarrow> tstate \<Rightarrow> tstate" where
  "after_create setname t p a s =
     (if setname then set_pc t (Created p) s else thread_create_return t p (arg_detached a \<noteq> 0) s)"

definition key_of :: "addr \<Rightarrow> tstate \<Rightarrow> tkey option" where
  "key_of p s = do { r \<leftarrow> recs s p; Some \<lparr>kptr = p, kid = thread_id r\<rparr> }"

text \<open>\<open>_start_routine\<close> up to the client's routine; \<open>m\<close> is the memory for the node. The result of \<open>avl_insert\<close> is ignored.\<close>

definition start_register :: "addr \<Rightarrow> nat \<Rightarrow> addr \<Rightarrow> tstate \<Rightarrow> (addr \<times> tstate) option" where
  "start_register m t st s = do {
     x \<leftarrow> starts s st;
     let p = start_thread x;
     s \<leftarrow> wr_rec p (\<lambda>r. r\<lparr>sys_thread := t\<rparr>) s;
     ob \<leftarrow> threadtree s;
     k \<leftarrow> key_of p s;
     (_, ob, h) \<leftarrow> avl_insert m ob (Some k) (tnodes s);
     s \<leftarrow> tree_unlock t (s\<lparr>threadtree := Some ob, tnodes := h\<rparr>);
     _ \<leftarrow> starts s st;
     Some (p, s\<lparr>starts := (starts s)(st := None)\<rparr>) }"

text \<open>\<open>avl_delete (_threadtree, thread, _free_thread)\<close>, in \<open>_start_routine\<close>, \<open>thread_exit_c\<close> and \<open>thread_join\<close>.\<close>

definition remove_thread :: "nat \<Rightarrow> addr \<Rightarrow> tstate \<Rightarrow> tstate option" where
  "remove_thread t p s = do {
     ob \<leftarrow> threadtree s;
     k \<leftarrow> key_of p s;
     (_, ob, R, h) \<leftarrow> avl_delete ob (Some k) (Some free_thread) (Some (recs s)) (tnodes s);
     R \<leftarrow> R;
     tree_unlock t (s\<lparr>threadtree := Some ob, tnodes := h, recs := R\<rparr>) }"

text \<open>The loop of \<open>thread_self\<close> and its result for the calling system thread, which unlocks the mutex on each of its ways out.\<close>

partial_function (option) self_loop :: "nat \<Rightarrow> tstate \<Rightarrow> addr \<Rightarrow> (addr option \<times> tstate) option" where
  "self_loop sys s node =
     (if node = NULL then do { s \<leftarrow> tree_unlock sys s; Some (None, s) }
      else do {
        k \<leftarrow> rd key (tnodes s) node;
        found \<leftarrow> (case k of None \<Rightarrow> Some None
                  | Some k \<Rightarrow> do { th \<leftarrow> recs s (kptr k); Some (if sys_thread th = sys then Some (kptr k) else None) });
        if Option.is_none found then do {
          n \<leftarrow> avl_get_next node (tnodes s);
          self_loop sys s n }
        else do { s \<leftarrow> tree_unlock sys s; Some (found, s) } })"

definition thread_self :: "nat \<Rightarrow> tstate \<Rightarrow> (addr option \<times> tstate) option" where
  "thread_self sys s =
     (case threadtree s of None \<Rightarrow> do { s \<leftarrow> tree_unlock sys s; Some (None, s) }
      | Some ob \<Rightarrow> do {
          n \<leftarrow> avl_get_first ob (tnodes s);
          self_loop sys s n })"

text \<open>\<open>thread_rename\<close> after \<open>thread_self\<close>: the result is used without a check.\<close>

definition thread_rename_tail :: "addr option \<Rightarrow> string option \<Rightarrow> tstate \<Rightarrow> tstate option" where
  "thread_rename_tail th new s = do { p \<leftarrow> th; wr_rec p (\<lambda>r. r\<lparr>th_name := new\<rparr>) s }"

text \<open>\<open>thread_exit_c\<close> after \<open>thread_self\<close>: a detached thread removes its record, any other ends at once.\<close>

definition thread_exit_tail :: "nat \<Rightarrow> addr option \<Rightarrow> tstate \<Rightarrow> tstate option" where
  "thread_exit_tail t th s =
     (case th of None \<Rightarrow> Some (thread_end t s)
      | Some p \<Rightarrow> do {
          r \<leftarrow> recs s p;
          Some (if detached r \<noteq> 0 then set_pc t (Wanting (Remove p ThenEnd)) s else thread_end t s) })"

text \<open>The client's routine returns to \<open>_start_routine\<close>.\<close>

definition start_return :: "nat \<Rightarrow> addr \<Rightarrow> tstate \<Rightarrow> tstate option" where
  "start_return t p s = do {
     r \<leftarrow> recs s p;
     Some (if detached r \<noteq> 0 then set_pc t (Wanting (Remove p ThenEnd)) s else thread_end t s) }"

text \<open>\<open>thread_join\<close> reads the system id and enters \<open>pthread_join\<close>.\<close>

definition thread_join_begin :: "nat \<Rightarrow> addr \<Rightarrow> tstate \<Rightarrow> tstate option" where
  "thread_join_begin t p s = do {
     r \<leftarrow> recs s p;
     Some (set_pc t (Joining p (sys_thread r)) (s\<lparr>handles := handles s - {p}\<rparr>)) }"

section \<open>The steps of the system\<close>

text \<open>What a thread does inside a critical section, its unlock included, and where it goes then.\<close>

fun run_critical :: "addr \<Rightarrow> nat \<Rightarrow> critical \<Rightarrow> tstate \<Rightarrow> tstate option" where
  "run_critical m t (TakeId a p st) s = do { s \<leftarrow> take_id t p s; Some (set_pc t (Numbered a p st) s) }"
| "run_critical m t (Register st) s = do {
     (p, s) \<leftarrow> start_register m t st s;
     Some (s\<lparr>threads := (threads s)(t := map_option (\<lambda>P. P\<lparr>own := Some p, pc := Client\<rparr>) (threads s t))\<rparr>) }"
| "run_critical m t (FindSelf w) s = do {
     (r, s) \<leftarrow> thread_self t s;
     Some (set_pc t (case w of ForClient \<Rightarrow> Client | ForRename n \<Rightarrow> Renaming r n | ForExit \<Rightarrow> Exiting r) s) }"
| "run_critical m t (Remove p c) s = do {
     s \<leftarrow> remove_thread t p s;
     Some (case c of ThenClient \<Rightarrow> set_pc t Client s | ThenEnd \<Rightarrow> thread_end t s) }"

text \<open>The accidents: \<open>avl_insert\<close> gets no memory for the node of a new thread; the system gives a new thread the id of a thread that
  has been joined and whose record the joining thread has not removed yet; \<open>pthread_create\<close> stores the id only after the
  new thread may have started.\<close>

datatype mishap = No_node | Stale_id | Late_store

definition stale :: "tstate \<Rightarrow> nat \<Rightarrow> bool" where
  "stale s u \<longleftrightarrow> (\<exists>j p r. (at_pc s j (Wanting (Remove p ThenClient)) \<or> at_pc s j (Inside (Remove p ThenClient))) \<and>
     recs s p = Some r \<and> sys_thread r = u)"

definition spawn_mishaps :: "tstate \<Rightarrow> nat \<Rightarrow> mishap set" where
  "spawn_mishaps s u = (if stale s u then {Stale_id} else {})"

definition node_mishaps :: "addr \<Rightarrow> mishap set" where
  "node_mishaps m = (if m = NULL then {No_node} else {})"

fun critical_mishaps :: "addr \<Rightarrow> critical \<Rightarrow> mishap set" where
  "critical_mishaps m (Register st) = node_mishaps m"
| "critical_mishaps m k = {}"

text \<open>What \<open>malloc\<close> can return for a node, and a system id for a new thread: one that was never given out, or that of a thread that
  is gone.\<close>

definition node_ok :: "tstate \<Rightarrow> addr \<Rightarrow> bool" where
  "node_ok s m \<longleftrightarrow> m = NULL \<or> tnodes s m = None"

definition id_free :: "tstate \<Rightarrow> nat \<Rightarrow> bool" where
  "id_free s u \<longleftrightarrow> threads s u = None \<or> at_pc s u Gone"

text \<open>Records are bounded in number, as memory is: fewer than \<open>2 ^ 30\<close> are live at a time.\<close>

definition rec_room :: "tstate \<Rightarrow> bool" where
  "rec_room s \<longleftrightarrow> card (dom (recs s)) + 1 < 2 ^ 30"

text \<open>One step with its accidents; \<open>setname\<close> says whether the build uses \<open>pthread_setname_np\<close>.\<close>

inductive tstep :: "bool \<Rightarrow> mishap set \<Rightarrow> tstate \<Rightarrow> tstate option \<Rightarrow> bool" for setname where
  lock: "at_pc s t (Wanting k) \<Longrightarrow> owner s = None \<Longrightarrow> tstep setname {} s (Some (set_pc t (Inside k) (s\<lparr>owner := Some t\<rparr>)))"
| critical: "at_pc s t (Inside k) \<Longrightarrow> node_ok s m \<Longrightarrow> tstep setname (critical_mishaps m k) s (run_critical m t k s)"
| create: "at_pc s t Client \<Longrightarrow> p \<noteq> NULL \<Longrightarrow> st \<noteq> NULL \<Longrightarrow> recs s p = None \<Longrightarrow> starts s st = None \<Longrightarrow> rec_room s \<Longrightarrow>
    thread_create_alloc a p st rc s = (s', True) \<Longrightarrow> tstep setname {} s (Some (set_pc t (Wanting (TakeId a p st)) s'))"
| create_no_memory: "at_pc s t Client \<Longrightarrow> thread_create_alloc a p st rc s = (s', False) \<Longrightarrow> tstep setname {} s (Some s')"
| spawn: "at_pc s t (Numbered a p st) \<Longrightarrow> id_free s u \<Longrightarrow>
    tstep setname (spawn_mishaps s u) s (map_option (after_create setname t p a) (thread_spawn a p st u s))"
| spawn_early: "at_pc s t (Numbered a p st) \<Longrightarrow> id_free s u \<Longrightarrow>
    tstep setname (insert Late_store (spawn_mishaps s u)) s (thread_spawn_early t a p st u s)"
| store: "at_pc s t (Storing a p u) \<Longrightarrow> tstep setname {} s (map_option (after_create setname t p a) (store_id p u s))"
| spawn_fails: "at_pc s t (Numbered a p st) \<Longrightarrow> tstep setname {} s (map_option (set_pc t Client) (thread_create_fail a p st s))"
| setname: "at_pc s t (Created p) \<Longrightarrow>
    tstep setname {} s (map_option (\<lambda>r. thread_create_return t p (detached r \<noteq> 0) s) (recs s p))"
| self: "at_pc s t Client \<Longrightarrow> tstep setname {} s (Some (set_pc t (Wanting (FindSelf w)) s))"
| rename: "at_pc s t (Renaming r n) \<Longrightarrow> tstep setname {} s (map_option (set_pc t Client) (thread_rename_tail r n s))"
| exit: "at_pc s t (Exiting r) \<Longrightarrow> tstep setname {} s (thread_exit_tail t r s)"
| return: "at_pc s t Client \<Longrightarrow> threads s t = Some P \<Longrightarrow> own P = Some p \<Longrightarrow> tstep setname {} s (start_return t p s)"
| join: "at_pc s t Client \<Longrightarrow> p \<in> handles s \<Longrightarrow> tstep setname {} s (thread_join_begin t p s)"
| joined: "at_pc s t (Joining p u) \<Longrightarrow> at_pc s u Zombie \<Longrightarrow>
    tstep setname {} s (Some (set_pc t (Wanting (Remove p ThenClient)) (set_pc u Gone s)))"

text \<open>The states that a program can reach from the state in which \<open>main\<close> runs after \<open>thread_initialize\<close>, with the accidents on the
  way.\<close>

definition zero_state :: tstate where
  "zero_state = \<lparr>next_thread_id = 0, initialized = 0, threadtree = None, tree_at = NULL, trees = (\<lambda>_. None), tnodes = (\<lambda>_. None),
     recs = (\<lambda>_. None), starts = (\<lambda>_. None), owner = None, threads = (\<lambda>_. None), handles = {}\<rparr>"

definition main_state :: "nat \<Rightarrow> tstate" where
  "main_state main = zero_state\<lparr>threads := [main \<mapsto> \<lparr>own = None, pc = Client, joinable = True\<rparr>]\<rparr>"

inductive treach :: "bool \<Rightarrow> mishap set \<Rightarrow> tstate \<Rightarrow> bool" for setname where
  init: "thread_initialize mt mr m p junk main now fname mname (main_state main) = Some s \<Longrightarrow> m \<noteq> mr \<Longrightarrow>
    treach setname (node_mishaps m) s"
| step: "treach setname E s \<Longrightarrow> tstep setname L s (Some s') \<Longrightarrow> treach setname (E \<union> L) s'"

end
