(* ===== verification/Thread_Registry.thy ===== *)
theory Thread_Registry
  imports Thread_Defs
begin

text \<open>
  The thread registry as a container: the compare function of thread.c meets the contract of the AVL library, so
  the registry holds a list of keys with ascending ids. \<open>thread_self\<close> is a search in that list, \<open>start_register\<close> adds a
  key and \<open>remove_thread\<close> removes one and frees its record.
\<close>

interpretation tk: key_order compare_tkeys
  by unfold_locales (auto simp: compare_tkeys_def split: if_splits)

lemma compare_tkeys_eq [simp]: "compare_tkeys a b = 0 \<longleftrightarrow> kid a = kid b"
  by (auto simp: compare_tkeys_def)

lemma compare_tkeys_less: "compare_tkeys a b < 0 \<longleftrightarrow> kid a < kid b"
  by (auto simp: compare_tkeys_def)

lemma uniq_ids: "uniq compare_tkeys xs \<longleftrightarrow> sorted_wrt (<) (map kid xs)"
  by (simp add: compare_tkeys_less sorted_wrt_map)

text \<open>The registry of a state: the list of its keys.\<close>

definition registry :: "tstate \<Rightarrow> tkey list \<Rightarrow> bool" where
  "registry s xs \<longleftrightarrow> (\<exists>ob. threadtree s = Some ob \<and> avl_holds compare_tkeys (ob, tnodes s) xs) \<and> uniq compare_tkeys xs"

lemma registry_distinct: "registry s xs \<Longrightarrow> distinct xs"
  by (auto simp: registry_def uniq_ids strict_sorted_iff distinct_map)

lemma registry_cong: "threadtree s' = threadtree s \<Longrightarrow> tnodes s' = tnodes s \<Longrightarrow> registry s' xs = registry s xs"
  by (simp add: registry_def)

section \<open>The search of \<open>thread_self\<close>\<close>

definition is_sys :: "tstate \<Rightarrow> nat \<Rightarrow> tkey \<Rightarrow> bool" where
  "is_sys s t k \<longleftrightarrow> (\<exists>r. recs s (kptr k) = Some r \<and> sys_thread r = t)"

lemma addr_at_cell:
  assumes "avl_at h rt t" "i < length (nodes t)"
  shows "rd key h (addr_at t i) = Some (Some (keys t ! i))" "addr_at t i \<noteq> NULL"
proof -
  obtain C l a x w r where C: "t = fill C (Node l a x w r)" "nodes t ! i = (a, x)" using split_at_index [OF assms(2)] by blast
  have sp: "rep h (cpar rt C) (Node l a x w r)" using assms(1) unfolding C(1) avl_at_split by auto
  have a: "addr_at t i = a" "keys t ! i = x" using assms(2) C(2) by (simp_all add: addr_at_def addrs_def keys_def)
  then show "rd key h (addr_at t i) = Some (Some (keys t ! i))" using sp by (auto simp: mem_simps)
  have "a \<in> set (addrs t)" using assms(2) a(1) by (auto simp: addr_at_def length_addrs)
  with a(1) assms(1) show "addr_at t i \<noteq> NULL" by (metis avl_at_def)
qed

lemma tree_unlock_owner [simp]: "owner s = Some t \<Longrightarrow> tree_unlock t s = Some (s\<lparr>owner := None\<rparr>)"
  by (simp add: tree_unlock_def)

lemma self_loop_at:
  assumes "avl_at (tnodes s) rt t" "\<And>k. k \<in> set (keys t) \<Longrightarrow> recs s (kptr k) \<noteq> None" "owner s = Some sys"
  shows "self_loop sys s (addr_at t i) = Some (map_option kptr (List.find (is_sys s sys) (drop i (keys t))), s\<lparr>owner := None\<rparr>)"
proof (induction "length (keys t) - i" arbitrary: i)
  case 0
  then show ?case using assms(3) by (subst self_loop.simps) (simp add: addr_at_def length_keys)
next
  case (Suc n)
  then have i: "i < length (nodes t)" by (simp add: length_keys)
  have IH: "self_loop sys s (addr_at t (Suc i)) =
      Some (map_option kptr (List.find (is_sys s sys) (drop (Suc i) (keys t))), s\<lparr>owner := None\<rparr>)"
    using Suc by simp
  have k: "keys t ! i \<in> set (keys t)" using i by (simp add: length_keys)
  obtain r where r: "recs s (kptr (keys t ! i)) = Some r" using assms(2) [OF k] by auto
  have d: "drop i (keys t) = keys t ! i # drop (Suc i) (keys t)" using i by (simp add: length_keys Cons_nth_drop_Suc)
  show ?case
    unfolding d using addr_at_cell [OF assms(1) i] get_next_at [OF assms(1) i] IH r assms(3)
    by (subst self_loop.simps) (simp add: is_sys_def)
qed

lemma thread_self_find:
  assumes "registry s xs" "\<forall>k\<in>set xs. recs s (kptr k) \<noteq> None" "owner s = Some t"
  shows "thread_self t s = Some (map_option kptr (List.find (is_sys s t) xs), s\<lparr>owner := None\<rparr>)"
proof -
  obtain ob u where ob: "threadtree s = Some ob" "avl_at (tnodes s) (root ob) u" "keys u = xs"
    using assms(1) by (auto simp: registry_def avl_holds_def avl_repr_def)
  show ?thesis
    using get_first_at [OF ob(2)] self_loop_at [OF ob(2), where sys = t and i = 0] assms(2,3) ob(1,3)
    by (simp add: thread_self_def)
qed

section \<open>Registration and removal\<close>

lemma ins_key_set [simp]: "set (ins_key cmp k xs) = insert k (set xs)"
  by (induction xs) auto

lemma register_law:
  assumes "registry s xs" "starts s st = Some x" "start_thread x = p" "recs s p = Some r"
    "m \<noteq> NULL" "tnodes s m = None" "length xs + 1 < 2 ^ 30" "\<forall>k\<in>set xs. kid k \<noteq> thread_id r" "owner s = Some t"
  shows "\<exists>s'. start_register m t st s = Some (p, s') \<and>
    registry s' (ins_key compare_tkeys \<lparr>kptr = p, kid = thread_id r\<rparr> xs) \<and>
    recs s' = (recs s)(p \<mapsto> r\<lparr>sys_thread := t\<rparr>) \<and> starts s' = (starts s)(st := None) \<and> threads s' = threads s \<and>
    next_thread_id s' = next_thread_id s \<and> handles s' = handles s \<and> owner s' = None"
proof -
  let ?k = "\<lparr>kptr = p, kid = thread_id r\<rparr>"
  obtain ob where ob: "threadtree s = Some ob" "avl_holds compare_tkeys (ob, tnodes s) xs" "uniq compare_tkeys xs"
    using assms(1) by (auto simp: registry_def)
  have len: "unat (len ob) = length xs" using ob(2) by (auto simp: avl_holds_def avl_repr_def avl_wf_def)
  have room: "avl_room (ob, tnodes s) m" using assms(5,6,7) len by (simp add: avl_room_def)
  obtain ob' h' where i: "avl_insert m ob (Some ?k) (tnodes s) = Some (0, ob', h')"
    "avl_holds compare_tkeys (ob', h') (ins_key compare_tkeys ?k xs)"
    using tk.avl.ins_law [OF ob(2) room, of ?k] by (auto simp: avl_ins_op_def)
  have u: "uniq compare_tkeys (ins_key compare_tkeys ?k xs)"
    by (rule tk.uniq_ins_key [OF ob(3)]) (use assms(8) in auto)
  show ?thesis
    using i u assms(2,3,4,9) ob(1)
    by (simp add: start_register_def wr_rec_def key_of_def registry_def)
qed

lemma remove_law:
  assumes "registry s xs" "recs s p = Some r" "\<lparr>kptr = p, kid = thread_id r\<rparr> \<in> set xs" "owner s = Some t"
  shows "\<exists>s' ys. remove_thread t p s = Some s' \<and> registry s' ys \<and> set ys = set xs - {\<lparr>kptr = p, kid = thread_id r\<rparr>} \<and>
    recs s' = (recs s)(p := None) \<and> starts s' = starts s \<and> threads s' = threads s \<and>
    next_thread_id s' = next_thread_id s \<and> handles s' = handles s \<and> owner s' = None"
proof -
  let ?k = "\<lparr>kptr = p, kid = thread_id r\<rparr>"
  obtain ob where ob: "threadtree s = Some ob" "avl_repr (tnodes s) ob xs" "uniq compare_tkeys xs"
      "tcmp ob = compare_tkeys"
    using assms(1) by (auto simp: registry_def avl_holds_def)
  have c: "tcmp ob a b = compare_tkeys a b" for a b using fun_cong [OF fun_cong [OF ob(4)]] .
  have ko: "key_order (tcmp ob)" unfolding ob(4) by (rule tk.key_order_axioms)
  have ex: "\<exists>x\<in>set xs. tcmp ob ?k x = 0" using assms(3) unfolding c by (intro bexI [of _ ?k]) simp_all
  obtain us x vs h' ob' where d: "xs = us @ x # vs" "tcmp ob ?k x = 0"
    "avl_delete ob (Some ?k) (Some free_thread) (Some (recs s)) (tnodes s) =
       Some (0, ob', free_key (Some free_thread) (Some x) (Some (recs s)), h')"
    "avl_repr h' ob' (us @ vs)" "tcmp ob' = tcmp ob" "root ob' = root ob"
    using delete_repr [OF ko ob(2) ex, of "Some free_thread" "Some (recs s)"]
    by (elim exE conjE) (rule that, assumption+)
  have x: "x \<in> set xs" unfolding d(1) by simp
  have "kid x = thread_id r" using d(2) unfolding c by simp
  then have "compare_tkeys x ?k = 0" by simp
  then have "x = ?k" by (rule tk.uniq_eq [OF ob(3) x assms(3)])
  moreover have "distinct xs" using assms(1) by (rule registry_distinct)
  moreover have "uniq compare_tkeys (us @ vs)" using ob(3) d(1) by (auto simp: sorted_wrt_append)
  ultimately show ?thesis
    using d(1,3-5) assms(2,4) ob(1,4)
    by (intro exI [of _ "s\<lparr>threadtree := Some ob', tnodes := h', recs := (recs s)(p := None), owner := None\<rparr>"] exI [of _ "us @ vs"])
      (auto simp: remove_thread_def key_of_def free_key_def free_thread_def registry_def avl_holds_def)
qed

lemma registry_ob: "registry s xs \<Longrightarrow> threadtree s \<noteq> None"
  by (auto simp: registry_def)

end
