(* ===== verification/Thread_Inv.thy ===== *)
theory Thread_Inv
  imports Thread_Registry
begin

text \<open>
  The invariant of the thread library: it is stated with an auxiliary map that gives every thread record the phase of its
  life and the thread that is responsible for it. The map is existentially quantified, so the model has no ghost state.
\<close>

section \<open>Phases of a record\<close>

text \<open>Allocated by \<open>t\<close> with its start block; with its id; handed to the new thread \<open>t\<close>; registered for the running thread
  \<open>t\<close>; registered for the joinable thread \<open>t\<close> that has ended; registered for \<open>t\<close>, which thread \<open>j\<close> has joined.\<close>

datatype phase = PFresh nat addr | PNumbered nat addr | PStarting nat addr | PActive nat | PEnded nat | PJoined nat nat

fun agent :: "phase \<Rightarrow> nat" where
  "agent (PFresh t st) = t" | "agent (PNumbered t st) = t" | "agent (PStarting t st) = t"
| "agent (PActive t) = t" | "agent (PEnded t) = t" | "agent (PJoined j t) = j"

definition involved :: "phase \<Rightarrow> nat \<Rightarrow> bool" where
  "involved ph t \<longleftrightarrow> agent ph = t \<or> (\<exists>j. ph = PJoined j t)"

fun block_of :: "phase \<Rightarrow> addr option" where
  "block_of (PFresh t st) = Some st" | "block_of (PNumbered t st) = Some st" | "block_of (PStarting t st) = Some st"
| "block_of _ = None"

text \<open>The thread whose registered record this is, until it is joined.\<close>

fun lives :: "phase \<Rightarrow> nat option" where
  "lives (PActive t) = Some t" | "lives (PEnded t) = Some t" | "lives _ = None"

fun has_id :: "phase \<Rightarrow> bool" where
  "has_id (PFresh t st) = False" | "has_id _ = True"

fun registered :: "phase \<Rightarrow> bool" where
  "registered (PActive t) = True" | "registered (PEnded t) = True" | "registered (PJoined j t) = True"
| "registered _ = False"

fun running :: "tpc \<Rightarrow> bool" where
  "running (Wanting (Register st)) = False" | "running (Inside (Register st)) = False"
| "running Zombie = False" | "running Gone = False" | "running _ = True"

type_synonym phases = "addr \<rightharpoonup> phase"

section \<open>Local invariants\<close>

definition mine :: "phases \<Rightarrow> nat \<Rightarrow> tproc \<Rightarrow> bool" where
  "mine \<sigma> t P \<longleftrightarrow> (\<exists>p. \<sigma> p = Some (PActive t) \<and> (own P = None \<or> own P = Some p))"

text \<open>A record that may be joined.\<close>

definition can_join :: "tstate \<Rightarrow> phases \<Rightarrow> addr \<Rightarrow> nat \<Rightarrow> bool" where
  "can_join s \<sigma> p u \<longleftrightarrow> ((\<exists>st. \<sigma> p = Some (PStarting u st)) \<or> \<sigma> p = Some (PActive u) \<or> \<sigma> p = Some (PEnded u)) \<and>
     (\<exists>r. recs s p = Some r \<and> sys_thread r = u \<and> detached r = 0)"

fun crit_inv :: "tstate \<Rightarrow> phases \<Rightarrow> nat \<Rightarrow> tproc \<Rightarrow> critical \<Rightarrow> bool" where
  "crit_inv s \<sigma> t P (TakeId a p st) \<longleftrightarrow> mine \<sigma> t P \<and> \<sigma> p = Some (PFresh t st)"
| "crit_inv s \<sigma> t P (Register st) \<longleftrightarrow> own P = None \<and> (\<exists>p. \<sigma> p = Some (PStarting t st))"
| "crit_inv s \<sigma> t P (FindSelf w) \<longleftrightarrow> mine \<sigma> t P"
| "crit_inv s \<sigma> t P (Remove p ThenClient) \<longleftrightarrow> mine \<sigma> t P \<and> (\<exists>u. \<sigma> p = Some (PJoined t u))"
| "crit_inv s \<sigma> t P (Remove p ThenEnd) \<longleftrightarrow> mine \<sigma> t P \<and> \<sigma> p = Some (PActive t) \<and>
     (\<exists>r. recs s p = Some r \<and> detached r \<noteq> 0)"

fun pc_inv :: "tstate \<Rightarrow> phases \<Rightarrow> nat \<Rightarrow> tproc \<Rightarrow> tpc \<Rightarrow> bool" where
  "pc_inv s \<sigma> t P Client \<longleftrightarrow> mine \<sigma> t P"
| "pc_inv s \<sigma> t P (Wanting k) \<longleftrightarrow> crit_inv s \<sigma> t P k"
| "pc_inv s \<sigma> t P (Inside k) \<longleftrightarrow> crit_inv s \<sigma> t P k"
| "pc_inv s \<sigma> t P (Numbered a p st) \<longleftrightarrow> mine \<sigma> t P \<and> \<sigma> p = Some (PNumbered t st)"
| "pc_inv s \<sigma> t P (Storing a p u) \<longleftrightarrow> False"
| "pc_inv s \<sigma> t P (Created p) \<longleftrightarrow> False"
| "pc_inv s \<sigma> t P (Renaming r n) \<longleftrightarrow> mine \<sigma> t P \<and> (\<exists>p. r = Some p \<and> \<sigma> p = Some (PActive t))"
| "pc_inv s \<sigma> t P (Exiting r) \<longleftrightarrow> mine \<sigma> t P \<and> (\<exists>p. r = Some p \<and> \<sigma> p = Some (PActive t))"
| "pc_inv s \<sigma> t P (Joining p u) \<longleftrightarrow> mine \<sigma> t P \<and> can_join s \<sigma> p u"
| "pc_inv s \<sigma> t P Zombie \<longleftrightarrow> True"
| "pc_inv s \<sigma> t P Gone \<longleftrightarrow> True"

fun phase_inv :: "tstate \<Rightarrow> addr \<Rightarrow> thread_type \<Rightarrow> phase \<Rightarrow> bool" where
  "phase_inv s p r (PFresh t st) \<longleftrightarrow> (\<exists>P a. threads s t = Some P \<and> pc P \<in> {Wanting (TakeId a p st), Inside (TakeId a p st)}) \<and>
     starts s st \<noteq> None \<and> detached r = 0"
| "phase_inv s p r (PNumbered t st) \<longleftrightarrow> (\<exists>P a. threads s t = Some P \<and> pc P = Numbered a p st) \<and> starts s st \<noteq> None \<and>
     detached r = 0"
| "phase_inv s p r (PStarting t st) \<longleftrightarrow> (\<exists>P. threads s t = Some P \<and> pc P \<in> {Wanting (Register st), Inside (Register st)} \<and>
     joinable P = (detached r = 0)) \<and> starts s st = Some \<lparr>start_thread = p\<rparr> \<and> sys_thread r = t"
| "phase_inv s p r (PActive t) \<longleftrightarrow> (\<exists>P. threads s t = Some P \<and> running (pc P) \<and>
     (own P = None \<longrightarrow> joinable P) \<and> (own P \<noteq> None \<longrightarrow> joinable P = (detached r = 0))) \<and> sys_thread r = t"
| "phase_inv s p r (PEnded t) \<longleftrightarrow> (\<exists>P. threads s t = Some P \<and> pc P = Zombie) \<and> sys_thread r = t"
| "phase_inv s p r (PJoined j t) \<longleftrightarrow> (\<exists>P. threads s t = Some P \<and> pc P = Gone) \<and> sys_thread r = t \<and>
     (\<exists>P. threads s j = Some P \<and> pc P \<in> {Wanting (Remove p ThenClient), Inside (Remove p ThenClient)})"

definition rec_inv :: "tstate \<Rightarrow> phases \<Rightarrow> addr \<Rightarrow> bool" where
  "rec_inv s \<sigma> p \<longleftrightarrow> (case \<sigma> p of None \<Rightarrow> recs s p = None | Some ph \<Rightarrow> \<exists>r. recs s p = Some r \<and> phase_inv s p r ph)"

section \<open>Global invariants\<close>

definition ids_inv :: "tstate \<Rightarrow> phases \<Rightarrow> bool" where
  "ids_inv s \<sigma> \<longleftrightarrow> (\<forall>p ph r. \<sigma> p = Some ph \<longrightarrow> recs s p = Some r \<longrightarrow> has_id ph \<longrightarrow> thread_id r < next_thread_id s \<and>
     (\<forall>q ph' r'. \<sigma> q = Some ph' \<longrightarrow> recs s q = Some r' \<longrightarrow> has_id ph' \<longrightarrow> thread_id r = thread_id r' \<longrightarrow> p = q))"

lemma ids_invD:
  assumes "ids_inv s \<sigma>" "\<sigma> p = Some ph" "recs s p = Some r" "has_id ph"
  shows "thread_id r < next_thread_id s"
    "\<sigma> q = Some ph' \<Longrightarrow> recs s q = Some r' \<Longrightarrow> has_id ph' \<Longrightarrow> thread_id r = thread_id r' \<Longrightarrow> p = q"
  using assms unfolding ids_inv_def by blast+

lemma ids_invI:
  assumes "\<And>p ph r. \<sigma> p = Some ph \<Longrightarrow> recs s p = Some r \<Longrightarrow> has_id ph \<Longrightarrow> thread_id r < next_thread_id s"
    "\<And>p ph r q ph' r'. \<sigma> p = Some ph \<Longrightarrow> recs s p = Some r \<Longrightarrow> has_id ph \<Longrightarrow> \<sigma> q = Some ph' \<Longrightarrow> recs s q = Some r' \<Longrightarrow>
       has_id ph' \<Longrightarrow> thread_id r = thread_id r' \<Longrightarrow> p = q"
  shows "ids_inv s \<sigma>"
  using assms unfolding ids_inv_def by blast

definition uniq_inv :: "phases \<Rightarrow> bool" where
  "uniq_inv \<sigma> \<longleftrightarrow> (\<forall>p q x y t. \<sigma> p = Some x \<longrightarrow> \<sigma> q = Some y \<longrightarrow> lives x = Some t \<longrightarrow> lives y = Some t \<longrightarrow> p = q) \<and>
     (\<forall>p q x y st. \<sigma> p = Some x \<longrightarrow> \<sigma> q = Some y \<longrightarrow> block_of x = Some st \<longrightarrow> block_of y = Some st \<longrightarrow> p = q)"

definition join_inv :: "tstate \<Rightarrow> phases \<Rightarrow> bool" where
  "join_inv s \<sigma> \<longleftrightarrow> (\<forall>p\<in>handles s. \<exists>u. can_join s \<sigma> p u) \<and>
     (\<forall>t P p u. threads s t = Some P \<longrightarrow> pc P = Joining p u \<longrightarrow> p \<notin> handles s) \<and>
     (\<forall>t P t' P' p u u'. threads s t = Some P \<longrightarrow> threads s t' = Some P' \<longrightarrow> pc P = Joining p u \<longrightarrow> pc P' = Joining p u' \<longrightarrow> t = t')"

definition reg_inv :: "tstate \<Rightarrow> phases \<Rightarrow> bool" where
  "reg_inv s \<sigma> \<longleftrightarrow> (\<exists>xs. registry s xs \<and>
     (\<forall>k. k \<in> set xs \<longleftrightarrow> (\<exists>ph r. \<sigma> (kptr k) = Some ph \<and> registered ph \<and> recs s (kptr k) = Some r \<and> kid k = thread_id r)))"

definition lock_inv :: "tstate \<Rightarrow> bool" where
  "lock_inv s \<longleftrightarrow> (\<forall>t. owner s = Some t \<longleftrightarrow> (\<exists>P k. threads s t = Some P \<and> pc P = Inside k))"

definition tinv :: "tstate \<Rightarrow> phases \<Rightarrow> bool" where
  "tinv s \<sigma> \<longleftrightarrow> (\<forall>t P. threads s t = Some P \<longrightarrow> pc_inv s \<sigma> t P (pc P)) \<and> (\<forall>p. rec_inv s \<sigma> p) \<and> ids_inv s \<sigma> \<and>
     uniq_inv \<sigma> \<and> join_inv s \<sigma> \<and> reg_inv s \<sigma> \<and> lock_inv s \<and> finite (dom (recs s)) \<and> card (dom (recs s)) < 2 ^ 30"

lemma tinvI:
  assumes "\<And>t P. threads s t = Some P \<Longrightarrow> pc_inv s \<sigma> t P (pc P)" "\<And>p. rec_inv s \<sigma> p" "ids_inv s \<sigma>"
    "uniq_inv \<sigma>" "join_inv s \<sigma>" "reg_inv s \<sigma>" "lock_inv s" "finite (dom (recs s)) \<and> card (dom (recs s)) < 2 ^ 30"
  shows "tinv s \<sigma>"
  using assms by (simp add: tinv_def)

lemma tinv_localI:
  assumes "(\<forall>v Q. threads s v = Some Q \<longrightarrow> pc_inv s \<sigma> v Q (pc Q)) \<and> (\<forall>q. rec_inv s \<sigma> q)" "ids_inv s \<sigma>"
    "uniq_inv \<sigma>" "join_inv s \<sigma>" "reg_inv s \<sigma>" "lock_inv s" "finite (dom (recs s)) \<and> card (dom (recs s)) < 2 ^ 30"
  shows "tinv s \<sigma>"
  using assms by (simp add: tinv_def)

lemma tinvD:
  assumes "tinv s \<sigma>"
  shows "threads s t = Some P \<Longrightarrow> pc_inv s \<sigma> t P (pc P)" "rec_inv s \<sigma> p" "ids_inv s \<sigma>"
    "uniq_inv \<sigma>" "join_inv s \<sigma>" "reg_inv s \<sigma>" "lock_inv s" "finite (dom (recs s))" "card (dom (recs s)) < 2 ^ 30"
  using assms by (auto simp: tinv_def)

lemma inside_owner: "tinv s \<sigma> \<Longrightarrow> threads s t = Some P \<Longrightarrow> pc P = Inside k \<Longrightarrow> owner s = Some t"
  using tinvD(7) [of s \<sigma>] by (auto simp: lock_inv_def)

lemma rec_inv_phase:
  assumes "rec_inv s \<sigma> p" "\<sigma> p = Some ph"
  obtains r where "recs s p = Some r" "phase_inv s p r ph"
  using assms by (auto simp: rec_inv_def)

lemma pc_inv_frame:
  assumes "pc_inv s \<sigma> t P c"
    "\<And>p ph. \<sigma> p = Some ph \<Longrightarrow> agent ph = t \<Longrightarrow> \<sigma>' p = Some ph \<and> map_option detached (recs s' p) = map_option detached (recs s p)"
    "\<And>p u. c = Joining p u \<Longrightarrow> can_join s \<sigma> p u \<Longrightarrow> can_join s' \<sigma>' p u" "own P' = own P"
  shows "pc_inv s' \<sigma>' t P' c"
proof -
  have m: "mine \<sigma> t P \<Longrightarrow> mine \<sigma>' t P'" using assms(2,4) by (fastforce simp: mine_def)
  have cr: "crit_inv s \<sigma> t P k \<Longrightarrow> crit_inv s' \<sigma>' t P' k" for k
  proof (cases k)
    case (Remove p cont)
    assume "crit_inv s \<sigma> t P k"
    with Remove m assms(2) [of p] show ?thesis by (cases cont) (auto simp: map_option_eq_Some)
  qed (use assms(2,4) m in fastforce)+
  show ?thesis using assms(1) m cr assms(2,3) by (cases c) fastforce+
qed

text \<open>Records that differ only in what the library does not decide on.\<close>

definition same_recs :: "tstate \<Rightarrow> tstate \<Rightarrow> bool" where
  "same_recs s s' \<longleftrightarrow> (\<forall>p. rel_option (\<lambda>r r'. thread_id r' = thread_id r \<and> detached r' = detached r \<and>
     sys_thread r' = sys_thread r) (recs s p) (recs s' p))"

lemma same_recs_refl: "recs s' = recs s \<Longrightarrow> same_recs s s'"
  by (simp add: same_recs_def option.rel_refl)

lemma same_recsD:
  assumes "same_recs s s'"
  shows "recs s' p = None \<longleftrightarrow> recs s p = None"
    "recs s p = Some r \<Longrightarrow> \<exists>r'. recs s' p = Some r' \<and> thread_id r' = thread_id r \<and> detached r' = detached r \<and> sys_thread r' = sys_thread r"
    "recs s' p = Some r' \<Longrightarrow> \<exists>r. recs s p = Some r \<and> thread_id r' = thread_id r \<and> detached r' = detached r \<and> sys_thread r' = sys_thread r"
proof -
  have r: "rel_option (\<lambda>r r'. thread_id r' = thread_id r \<and> detached r' = detached r \<and>
     sys_thread r' = sys_thread r) (recs s p) (recs s' p)" using assms by (simp add: same_recs_def)
  then show "recs s' p = None \<longleftrightarrow> recs s p = None" by (cases "recs s p"; cases "recs s' p") auto
  from r show "recs s p = Some r \<Longrightarrow> \<exists>r'. recs s' p = Some r' \<and> thread_id r' = thread_id r \<and> detached r' = detached r \<and> sys_thread r' = sys_thread r"
    by (cases "recs s' p") auto
  from r show "recs s' p = Some r' \<Longrightarrow> \<exists>r. recs s p = Some r \<and> thread_id r' = thread_id r \<and> detached r' = detached r \<and> sys_thread r' = sys_thread r"
    by (cases "recs s p") auto
qed

lemma same_recs_dom: "same_recs s s' \<Longrightarrow> dom (recs s') = dom (recs s)"
  using same_recsD(1) by (auto simp: dom_def)

lemma can_join_same:
  "same_recs s s' \<Longrightarrow> can_join s \<sigma> p u \<Longrightarrow> can_join s' \<sigma> p u"
  using same_recsD(2) [of s s' p] by (fastforce simp: can_join_def)

lemma ids_inv_same:
  assumes "same_recs s s'" "next_thread_id s' = next_thread_id s" "ids_inv s \<sigma>"
  shows "ids_inv s' \<sigma>"
proof (rule ids_invI)
  fix p ph r
  assume p: "\<sigma> p = Some ph" "recs s' p = Some r" "has_id ph"
  obtain r0 where r0: "recs s p = Some r0" "thread_id r = thread_id r0" using same_recsD(3) [OF assms(1) p(2)] by blast
  show "thread_id r < next_thread_id s'" using ids_invD(1) [OF assms(3) p(1) r0(1) p(3)] r0(2) assms(2) by simp
  fix q ph' r'
  assume q: "\<sigma> q = Some ph'" "recs s' q = Some r'" "has_id ph'" "thread_id r = thread_id r'"
  obtain r1 where r1: "recs s q = Some r1" "thread_id r' = thread_id r1" using same_recsD(3) [OF assms(1) q(2)] by blast
  show "p = q" using ids_invD(2) [OF assms(3) p(1) r0(1) p(3) q(1) r1(1) q(3)] r0(2) r1(2) q(4) by simp
qed

lemma reg_inv_same:
  assumes "same_recs s s'" "threadtree s' = threadtree s" "tnodes s' = tnodes s" "reg_inv s \<sigma>"
  shows "reg_inv s' \<sigma>"
proof -
  have "(\<exists>r. recs s' p = Some r \<and> i = thread_id r) \<longleftrightarrow> (\<exists>r. recs s p = Some r \<and> i = thread_id r)" for p i
    using same_recsD(2,3) [OF assms(1)] by metis
  then have "(\<exists>ph r. \<sigma> p = Some ph \<and> registered ph \<and> recs s' p = Some r \<and> i = thread_id r) \<longleftrightarrow>
      (\<exists>ph r. \<sigma> p = Some ph \<and> registered ph \<and> recs s p = Some r \<and> i = thread_id r)" for p i by blast
  with assms(4) registry_cong [OF assms(2,3)] show ?thesis unfolding reg_inv_def by presburger
qed

lemma running_lock: "running (Wanting k) \<longleftrightarrow> running (Inside k)"
  by (cases k) auto

lemma phase_frame:
  assumes "phase_inv s p r ph" "\<And>st. block_of ph = Some st \<Longrightarrow> starts s' st = starts s st"
    "detached r' = detached r" "sys_thread r' = sys_thread r"
    "\<And>t P. threads s t = Some P \<Longrightarrow> involved ph t \<Longrightarrow> \<exists>P'. threads s' t = Some P' \<and> own P' = own P \<and> joinable P' = joinable P \<and>
       (pc P' = pc P \<or> (\<exists>k. pc P = Wanting k \<and> pc P' = Inside k) \<or>
        running (pc P) \<and> running (pc P') \<and> (agent ph = t \<longrightarrow> ph = PActive t))"
  shows "phase_inv s' p r' ph"
proof (cases ph)
  case (PFresh t st)
  then obtain P a where P: "threads s t = Some P" "pc P = Wanting (TakeId a p st) \<or> pc P = Inside (TakeId a p st)"
    using assms(1) by auto
  with assms(5) [OF P(1), unfolded involved_def] assms(1-4) PFresh show ?thesis by fastforce
next
  case (PNumbered t st)
  then obtain P a where P: "threads s t = Some P" "pc P = Numbered a p st" using assms(1) by auto
  with assms(5) [OF P(1), unfolded involved_def] assms(1-4) PNumbered show ?thesis by fastforce
next
  case (PStarting t st)
  then obtain P where P: "threads s t = Some P" "pc P = Wanting (Register st) \<or> pc P = Inside (Register st)" using assms(1) by auto
  with assms(5) [OF P(1), unfolded involved_def] assms(1-4) PStarting show ?thesis by fastforce
next
  case (PActive t)
  then obtain P where P: "threads s t = Some P" "running (pc P)" using assms(1) by auto
  obtain P' where P': "threads s' t = Some P'" "own P' = own P" "joinable P' = joinable P" "running (pc P')"
    using assms(5) [OF P(1), unfolded involved_def] P(2) PActive by (auto simp: running_lock)
  with P assms(1-4) PActive show ?thesis by fastforce
next
  case (PEnded t)
  then obtain P where P: "threads s t = Some P" "pc P = Zombie" using assms(1) by auto
  with assms(5) [OF P(1), unfolded involved_def] assms(1-4) PEnded show ?thesis by fastforce
next
  case (PJoined j t)
  then obtain P Q where P: "threads s t = Some P" "pc P = Gone" and
    Q: "threads s j = Some Q" "pc Q = Wanting (Remove p ThenClient) \<or> pc Q = Inside (Remove p ThenClient)"
    using assms(1) by auto
  with assms(5) [OF P(1), unfolded involved_def] assms(5) [OF Q(1), unfolded involved_def] assms(1-4) PJoined show ?thesis by fastforce
qed

section \<open>Steps that keep the phases\<close>

text \<open>Places at which a thread is responsible for no record but its own.\<close>

fun only_own :: "tpc \<Rightarrow> bool" where
  "only_own Client = True" | "only_own (Wanting (FindSelf w)) = True" | "only_own (Inside (FindSelf w)) = True"
| "only_own (Wanting (Remove p ThenEnd)) = True" | "only_own (Inside (Remove p ThenEnd)) = True"
| "only_own (Renaming r n) = True" | "only_own (Exiting r) = True" | "only_own (Joining p u) = True" | "only_own _ = False"

lemma only_own_running: "only_own c \<Longrightarrow> running c"
  by (cases c rule: only_own.cases) auto

lemma only_own_agent:
  assumes "tinv s \<sigma>" "threads s t = Some P" "only_own (pc P)" "\<sigma> p = Some ph" "agent ph = t"
  shows "ph = PActive t"
proof -
  obtain r where r: "phase_inv s p r ph" using rec_inv_phase [OF tinvD(2) [OF assms(1)] assms(4)] by metis
  show ?thesis using r assms(2,3,5) by (cases ph) auto
qed

lemma set_pc_eq: "threads s t = Some P \<Longrightarrow> set_pc t c s = s\<lparr>threads := (threads s)(t \<mapsto> P\<lparr>pc := c\<rparr>)\<rparr>"
  by (simp add: set_pc_def)

lemma at_pcD: "at_pc s t c \<Longrightarrow> \<exists>P. threads s t = Some P \<and> pc P = c"
  by (auto simp: at_pc_def)

lemma lock_inv_same:
  assumes "lock_inv s" "threads s t = Some P" "threads s' = (threads s)(t \<mapsto> P')"
    "owner s' = owner s" "\<And>k. pc P \<noteq> Inside k" "\<And>k. pc P' \<noteq> Inside k"
  shows "lock_inv s'"
  using assms by (auto simp: lock_inv_def)

lemma lock_inv_release:
  assumes "lock_inv s" "threads s t = Some P" "pc P = Inside k" "threads s' = (threads s)(t \<mapsto> P')" "owner s' = None"
    "\<And>k. pc P' \<noteq> Inside k"
  shows "lock_inv s'"
  using assms unfolding lock_inv_def by (metis fun_upd_apply option.distinct(1) option.inject)

lemma lock_inv_acquire:
  assumes "lock_inv s" "threads s t = Some P" "owner s = None" "threads s' = (threads s)(t \<mapsto> P')" "owner s' = Some t"
    "pc P' = Inside k"
  shows "lock_inv s'"
  using assms unfolding lock_inv_def by (metis fun_upd_apply option.distinct(1) option.inject)

lemma join_inv_move:
  assumes "join_inv s \<sigma>" "same_recs s s'" "handles s' = handles s" "threads s t = Some P" "threads s' = (threads s)(t \<mapsto> P\<lparr>pc := c\<rparr>)"
    "\<And>p u. c \<noteq> Joining p u"
  shows "join_inv s' \<sigma>"
proof -
  have th: "threads s u = Some Q" if "threads s' u = Some Q" "pc Q = Joining p v" for u Q p v
    using that assms(4-6) by (auto split: if_splits)
  show ?thesis using assms(1) can_join_same [OF assms(2)] th unfolding join_inv_def assms(3) by meson
qed

text \<open>A step of \<open>t\<close> that only moves it, or takes the mutex.\<close>

lemma tinv_move:
  assumes inv: "tinv s \<sigma>" and P: "threads s t = Some P" "threads s' = (threads s)(t \<mapsto> P\<lparr>pc := c\<rparr>)"
    and s': "same_recs s s'" "starts s' = starts s" "threadtree s' = threadtree s" "tnodes s' = tnodes s"
      "next_thread_id s' = next_thread_id s" "lock_inv s'" "join_inv s' \<sigma>"
    and c: "(\<exists>k. pc P = Wanting k \<and> c = Inside k) \<or> only_own (pc P) \<and> running c"
      "pc_inv s \<sigma> t P c"
  shows "tinv s' \<sigma>"
proof (rule tinvI)
  show "pc_inv s' \<sigma> u Q (pc Q)" if Q: "threads s' u = Some Q" for u Q
  proof -
    obtain Q0 where Q0: "threads s u = Some Q0" "own Q = own Q0" "pc_inv s \<sigma> u Q0 (pc Q)"
      using Q P c(2) tinvD(1) [OF inv, of u] by (cases "u = t") auto
    show ?thesis
    proof (rule pc_inv_frame [OF Q0(3)])
      show "\<sigma> p = Some ph \<and> map_option detached (recs s' p) = map_option detached (recs s p)" if "\<sigma> p = Some ph" for p ph
        using that same_recsD [OF s'(1), of p] by (cases "recs s p"; cases "recs s' p") auto
      show "can_join s' \<sigma> p v" if "can_join s \<sigma> p v" for p v using can_join_same [OF s'(1) that] .
    qed (rule Q0(2))
  qed
  show "rec_inv s' \<sigma> p" for p
  proof (cases "\<sigma> p")
    case None
    then show ?thesis using tinvD(2) [OF inv, of p] same_recsD(1) [OF s'(1), of p] by (simp add: rec_inv_def)
  next
    case (Some ph)
    obtain r where r: "recs s p = Some r" "phase_inv s p r ph" by (rule rec_inv_phase [OF tinvD(2) [OF inv] Some])
    obtain r' where r': "recs s' p = Some r'" "detached r' = detached r" "sys_thread r' = sys_thread r"
      using same_recsD(2) [OF s'(1) r(1)] by blast
    have a: "ph = PActive t" if "only_own (pc P)" "agent ph = t" using only_own_agent [OF inv P(1) that(1) Some that(2)] .
    have "phase_inv s' p r' ph"
    proof (rule phase_frame [OF r(2) _ r'(2,3)])
      fix u Q assume Q: "threads s u = Some Q"
      show "\<exists>Q'. threads s' u = Some Q' \<and> own Q' = own Q \<and> joinable Q' = joinable Q \<and> (pc Q' = pc Q \<or>
        (\<exists>k. pc Q = Wanting k \<and> pc Q' = Inside k) \<or> running (pc Q) \<and> running (pc Q') \<and> (agent ph = u \<longrightarrow> ph = PActive u))"
        using Q P c(1) a only_own_running by (cases "u = t") auto
    qed (simp add: s'(2))
    with Some r'(1) show ?thesis by (simp add: rec_inv_def)
  qed
  show "ids_inv s' \<sigma>" by (rule ids_inv_same [OF s'(1,5) tinvD(3) [OF inv]])
  show "uniq_inv \<sigma>" by (rule tinvD(4) [OF inv])
  show "reg_inv s' \<sigma>" by (rule reg_inv_same [OF s'(1,3,4) tinvD(6) [OF inv]])
  show "finite (dom (recs s')) \<and> card (dom (recs s')) < 2 ^ 30"
    using tinvD(8,9) [OF inv] same_recs_dom [OF s'(1)] by simp
qed (rule s'(6,7))+

lemma same_recs_upd: "recs s p = Some r \<Longrightarrow> recs s' = (recs s)(p \<mapsto> r\<lparr>th_name := n\<rparr>) \<Longrightarrow> same_recs s s'"
  by (auto simp: same_recs_def option.rel_refl)

section \<open>Steps that change the phase of one record\<close>

text \<open>Only the record \<open>p\<close> and the threads \<open>T\<close> change. The local invariants of everything else follow.\<close>

lemma local_frame:
  assumes inv: "tinv s \<sigma>" and \<sigma>': "\<And>q. q \<noteq> p \<Longrightarrow> \<sigma>' q = \<sigma> q"
    and old: "\<And>ph. \<sigma> p = Some ph \<Longrightarrow> agent ph \<in> T"
    and thr: "\<And>v. v \<notin> T \<Longrightarrow> threads s' v = threads s v"
    and here: "\<And>v Q. v \<in> T \<Longrightarrow> threads s' v = Some Q \<Longrightarrow> pc_inv s' \<sigma>' v Q (pc Q)"
    and recs: "\<And>q. q \<noteq> p \<Longrightarrow> recs s' q = recs s q"
    and other: "\<And>q ph v. q \<noteq> p \<Longrightarrow> \<sigma> q = Some ph \<Longrightarrow> v \<in> T \<Longrightarrow> involved ph v \<Longrightarrow> ph = PActive v \<and>
      (\<exists>P P'. threads s v = Some P \<and> threads s' v = Some P' \<and> own P' = own P \<and> joinable P' = joinable P \<and> running (pc P) \<and> running (pc P'))"
    and starts: "\<And>q ph st. q \<noteq> p \<Longrightarrow> \<sigma> q = Some ph \<Longrightarrow> block_of ph = Some st \<Longrightarrow> starts s' st = starts s st"
    and join: "\<And>v P w. v \<notin> T \<Longrightarrow> threads s v = Some P \<Longrightarrow> pc P = Joining p w \<Longrightarrow> can_join s \<sigma> p w \<Longrightarrow> can_join s' \<sigma>' p w"
    and at_p: "rec_inv s' \<sigma>' p"
  shows "(\<forall>v Q. threads s' v = Some Q \<longrightarrow> pc_inv s' \<sigma>' v Q (pc Q)) \<and> (\<forall>q. rec_inv s' \<sigma>' q)"
proof (intro conjI allI impI)
  fix v Q assume Q: "threads s' v = Some Q"
  show "pc_inv s' \<sigma>' v Q (pc Q)"
  proof (cases "v \<in> T")
    case False
    then have Q0: "threads s v = Some Q" using Q thr by simp
    show ?thesis
    proof (rule pc_inv_frame [OF tinvD(1) [OF inv Q0]])
      fix q ph assume q: "\<sigma> q = Some ph" "agent ph = v"
      with old False have "q \<noteq> p" by auto
      with q(1) show "\<sigma>' q = Some ph \<and> map_option detached (recs s' q) = map_option detached (recs s q)"
        using \<sigma>' recs by simp
    next
      fix q w assume j: "pc Q = Joining q w" "can_join s \<sigma> q w"
      show "can_join s' \<sigma>' q w"
      proof (cases "q = p")
        case True
        with join [OF False Q0] j show ?thesis by simp
      next
        case False
        with j(2) \<sigma>' recs show ?thesis by (simp add: can_join_def)
      qed
    qed simp
  qed (rule here [OF _ Q])
next
  fix q
  show "rec_inv s' \<sigma>' q"
  proof (cases "q = p")
    case False
    show ?thesis
    proof (cases "\<sigma> q")
      case None
      then show ?thesis using tinvD(2) [OF inv, of q] \<sigma>' [OF False] recs [OF False] by (simp add: rec_inv_def)
    next
      case (Some ph)
      obtain r where r: "recs s q = Some r" "phase_inv s q r ph" by (rule rec_inv_phase [OF tinvD(2) [OF inv] Some])
      have "phase_inv s' q r ph"
      proof (rule phase_frame [OF r(2)])
        fix u R assume R: "threads s u = Some R" "involved ph u"
        show "\<exists>R'. threads s' u = Some R' \<and> own R' = own R \<and> joinable R' = joinable R \<and> (pc R' = pc R \<or>
          (\<exists>k. pc R = Wanting k \<and> pc R' = Inside k) \<or> running (pc R) \<and> running (pc R') \<and> (agent ph = u \<longrightarrow> ph = PActive u))"
        proof (cases "u \<in> T")
          case True
          from other [OF \<open>q \<noteq> p\<close> Some True R(2)] R(1) show ?thesis by auto
        qed (use R thr in simp)
      qed (use starts [OF False Some] in simp_all)
      then show ?thesis using Some \<sigma>' [OF False] recs [OF False] r(1) by (simp add: rec_inv_def)
    qed
  qed (use at_p in simp)
qed

text \<open>A thread that is busy with the record \<open>p\<close> is responsible for \<open>p\<close> and its own record only.\<close>

fun busy :: "addr \<Rightarrow> tpc \<Rightarrow> bool" where
  "busy p (Wanting (TakeId a q st)) \<longleftrightarrow> q = p" | "busy p (Inside (TakeId a q st)) \<longleftrightarrow> q = p"
| "busy p (Wanting (Remove q ThenClient)) \<longleftrightarrow> q = p" | "busy p (Inside (Remove q ThenClient)) \<longleftrightarrow> q = p"
| "busy p (Numbered a q st) \<longleftrightarrow> q = p" | "busy p c \<longleftrightarrow> only_own c"

lemma busy_other:
  assumes "tinv s \<sigma>" "threads s t = Some P" "busy p (pc P)" "q \<noteq> p" "\<sigma> q = Some ph" "involved ph t"
  shows "ph = PActive t \<and> running (pc P)"
proof -
  obtain r where r: "phase_inv s q r ph" using rec_inv_phase [OF tinvD(2) [OF assms(1)] assms(5)] by metis
  show ?thesis using r assms(2-4,6) by (cases ph) (auto simp: involved_def)
qed

lemma ids_upd:
  assumes "ids_inv s \<sigma>" "\<And>q. q \<noteq> p \<Longrightarrow> recs s' q = recs s q" "next_thread_id s' = next_thread_id s"
    "\<And>q. q \<noteq> p \<Longrightarrow> \<sigma>' q = \<sigma> q"
    "\<And>ph r'. \<sigma>' p = Some ph \<Longrightarrow> recs s' p = Some r' \<Longrightarrow> has_id ph \<Longrightarrow>
       \<exists>r ph0. recs s p = Some r \<and> thread_id r' = thread_id r \<and> \<sigma> p = Some ph0 \<and> has_id ph0"
  shows "ids_inv s' \<sigma>'"
proof (rule ids_invI)
  have *: "\<exists>r ph0. recs s q = Some r \<and> thread_id r' = thread_id r \<and> \<sigma> q = Some ph0 \<and> has_id ph0"
    if "\<sigma>' q = Some ph" "recs s' q = Some r'" "has_id ph" for q ph r'
    using that assms(2,4) [of q] assms(5) [of ph r'] by (cases "q = p") auto
  fix q ph r assume q: "\<sigma>' q = Some ph" "recs s' q = Some r" "has_id ph"
  from * [OF q] obtain r1 ph1 where r1: "recs s q = Some r1" "thread_id r = thread_id r1" "\<sigma> q = Some ph1" "has_id ph1" by blast
  show "thread_id r < next_thread_id s'" using ids_invD(1) [OF assms(1) r1(3,1,4)] r1(2) assms(3) by simp
  fix q' ph' r' assume q': "\<sigma>' q' = Some ph'" "recs s' q' = Some r'" "has_id ph'" and e: "thread_id r = thread_id r'"
  from * [OF q'] obtain r2 ph2 where r2: "recs s q' = Some r2" "thread_id r' = thread_id r2" "\<sigma> q' = Some ph2" "has_id ph2" by blast
  show "q = q'" by (rule ids_invD(2) [OF assms(1) r1(3,1,4) r2(3,1,4)]) (use r1(2) r2(2) e in simp)
qed

lemma reg_upd:
  assumes "reg_inv s \<sigma>" "\<And>q. q \<noteq> p \<Longrightarrow> recs s' q = recs s q" "threadtree s' = threadtree s" "tnodes s' = tnodes s"
    "\<And>q. q \<noteq> p \<Longrightarrow> \<sigma>' q = \<sigma> q"
    "\<And>i. (\<exists>ph r. \<sigma>' p = Some ph \<and> registered ph \<and> recs s' p = Some r \<and> i = thread_id r) \<longleftrightarrow>
      (\<exists>ph r. \<sigma> p = Some ph \<and> registered ph \<and> recs s p = Some r \<and> i = thread_id r)"
  shows "reg_inv s' \<sigma>'"
proof -
  have "(\<exists>ph r. \<sigma>' q = Some ph \<and> registered ph \<and> recs s' q = Some r \<and> i = thread_id r) \<longleftrightarrow>
      (\<exists>ph r. \<sigma> q = Some ph \<and> registered ph \<and> recs s q = Some r \<and> i = thread_id r)" for q i
    using assms(2,5) [of q] assms(6) by (cases "q = p") auto
  with assms(1) registry_cong [OF assms(3,4)] show ?thesis unfolding reg_inv_def by presburger
qed

lemma block_live:
  assumes "tinv s \<sigma>" "\<sigma> q = Some ph" "block_of ph = Some st"
  shows "starts s st \<noteq> None"
proof -
  obtain r where "phase_inv s q r ph" using rec_inv_phase [OF tinvD(2) [OF assms(1)] assms(2)] by metis
  with assms(3) show ?thesis by (cases ph) auto
qed

lemma involved_thread:
  assumes "tinv s \<sigma>" "\<sigma> q = Some ph" "involved ph v"
  shows "threads s v \<noteq> None"
proof -
  obtain r where "phase_inv s q r ph" using rec_inv_phase [OF tinvD(2) [OF assms(1)] assms(2)] by metis
  with assms(3) show ?thesis by (cases ph) (auto simp: involved_def)
qed

end
