(* ===== verification/Thread_Steps.thy ===== *)
theory Thread_Steps
  imports Thread_Inv
begin

text \<open>
  Every step of the thread library without an accident is defined where the invariant holds, and keeps it, when the thread
  is not named after its creation.
\<close>

section \<open>Updates of one phase\<close>

lemma mine_upd:
  assumes "mine \<sigma> t P" "\<sigma> p \<noteq> Some (PActive t)" "\<And>q. q \<noteq> p \<Longrightarrow> \<sigma>' q = \<sigma> q" "own P' = own P"
  shows "mine \<sigma>' t P'"
  using assms unfolding mine_def by metis

lemma uniq_upd:
  assumes "uniq_inv \<sigma>" "\<And>ph q ph' u. x = Some ph \<Longrightarrow> lives ph = Some u \<Longrightarrow> \<sigma> q = Some ph' \<Longrightarrow> lives ph' = Some u \<Longrightarrow> q = p"
    "\<And>ph q ph' st. x = Some ph \<Longrightarrow> block_of ph = Some st \<Longrightarrow> \<sigma> q = Some ph' \<Longrightarrow> block_of ph' = Some st \<Longrightarrow> q = p"
  shows "uniq_inv (\<sigma>(p := x))"
  using assms unfolding uniq_inv_def fun_upd_apply by (auto split: if_splits; metis)

lemma uniq_block: "uniq_inv \<sigma> \<Longrightarrow> \<sigma> p = Some x \<Longrightarrow> \<sigma> q = Some y \<Longrightarrow> block_of x = Some st \<Longrightarrow> block_of y = Some st \<Longrightarrow> p = q"
  unfolding uniq_inv_def by metis

lemma uniq_lives: "uniq_inv \<sigma> \<Longrightarrow> \<sigma> p = Some x \<Longrightarrow> \<sigma> q = Some y \<Longrightarrow> lives x = Some t \<Longrightarrow> lives y = Some t \<Longrightarrow> p = q"
  unfolding uniq_inv_def by metis

lemma uniq_active: "uniq_inv \<sigma> \<Longrightarrow> \<sigma> p = Some (PActive t) \<Longrightarrow> \<sigma> q = Some (PActive t) \<Longrightarrow> p = q"
  by (erule uniq_lives) auto

lemma join_upd:
  assumes "join_inv s \<sigma>" "handles s' = handles s" "\<And>q. q \<noteq> p \<Longrightarrow> \<sigma>' q = \<sigma> q" "\<And>q. q \<noteq> p \<Longrightarrow> recs s' q = recs s q"
    "\<And>u. p \<in> handles s \<Longrightarrow> can_join s \<sigma> p u \<Longrightarrow> can_join s' \<sigma>' p u"
    "\<And>v Q q w. threads s' v = Some Q \<Longrightarrow> pc Q = Joining q w \<Longrightarrow> threads s v = Some Q"
  shows "join_inv s' \<sigma>'"
proof -
  have cj: "\<exists>u. can_join s' \<sigma>' q u" if "q \<in> handles s" for q
  proof -
    obtain u where "can_join s \<sigma> q u" using assms(1) \<open>q \<in> handles s\<close> unfolding join_inv_def by blast
    with assms(3-5) \<open>q \<in> handles s\<close> have "can_join s' \<sigma>' q u" by (cases "q = p") (auto simp: can_join_def)
    then show ?thesis ..
  qed
  show ?thesis using assms(1) cj assms(6) unfolding join_inv_def assms(2) by meson
qed

lemma join_invD:
  assumes "join_inv s \<sigma>"
  shows "p \<in> handles s \<Longrightarrow> \<exists>u. can_join s \<sigma> p u"
    "threads s t = Some P \<Longrightarrow> pc P = Joining p u \<Longrightarrow> p \<notin> handles s"
    "threads s t = Some P \<Longrightarrow> threads s t' = Some P' \<Longrightarrow> pc P = Joining p u \<Longrightarrow> pc P' = Joining p u' \<Longrightarrow> t = t'"
  using assms unfolding join_inv_def by blast+

lemma dom_le:
  assumes "finite (dom R)" "card (dom R) < 2 ^ 30" "dom R' \<subseteq> dom R"
  shows "finite (dom R') \<and> card (dom R') < 2 ^ 30"
  using assms finite_subset card_mono le_less_trans by metis

section \<open>Taking an id\<close>

lemma step_take_id:
  assumes inv: "tinv s \<sigma>" and P: "threads s t = Some P" "pc P = Inside (TakeId a p st)"
    and nx: "next_thread_id s < 2 ^ 63 - 1"
  shows "\<exists>s'. run_critical m t (TakeId a p st) s = Some s' \<and> (\<exists>\<sigma>'. tinv s' \<sigma>')"
proof -
  have ci: "mine \<sigma> t P" "\<sigma> p = Some (PFresh t st)" using tinvD(1) [OF inv P(1)] P(2) by auto
  obtain r where r: "recs s p = Some r" "phase_inv s p r (PFresh t st)" by (rule rec_inv_phase [OF tinvD(2) [OF inv] ci(2)])
  let ?r = "r\<lparr>thread_id := next_thread_id s\<rparr>" and ?P = "P\<lparr>pc := Numbered a p st\<rparr>"
  let ?\<sigma> = "\<sigma>(p \<mapsto> PNumbered t st)"
  let ?s = "s\<lparr>recs := (recs s)(p \<mapsto> ?r), next_thread_id := next_thread_id s + 1, threads := (threads s)(t \<mapsto> ?P), owner := None\<rparr>"
  have busy: "busy p (pc P)" using P(2) by simp
  have run: "\<exists>s'. run_critical m t (TakeId a p st) s = Some s' \<and> s' = ?s"
    using nx r(1) P(1) inside_owner [OF inv P] by (simp add: take_id_def long_succ_def wr_rec_def set_pc_eq)
  have "(\<forall>v Q. threads ?s v = Some Q \<longrightarrow> pc_inv ?s ?\<sigma> v Q (pc Q)) \<and> (\<forall>q. rec_inv ?s ?\<sigma> q)"
  proof (rule local_frame [OF inv, where p = p and T = "{t}"])
    have "mine ?\<sigma> t ?P" by (rule mine_upd [OF ci(1), of p]) (use ci(2) in auto)
    then show "pc_inv ?s ?\<sigma> v Q (pc Q)" if "v \<in> {t}" "threads ?s v = Some Q" for v Q using that by auto
    show "ph = PActive v \<and> (\<exists>R R'. threads s v = Some R \<and> threads ?s v = Some R' \<and> own R' = own R \<and>
        joinable R' = joinable R \<and> running (pc R) \<and> running (pc R'))"
      if "q \<noteq> p" "\<sigma> q = Some ph" "v \<in> {t}" "involved ph v" for q ph v
      using busy_other [OF inv P(1) busy that(1,2)] that(3,4) P by auto
    show "rec_inv ?s ?\<sigma> p" using r by (auto simp: rec_inv_def)
  qed (use ci(2) in \<open>auto simp: can_join_def\<close>)
  then have "tinv ?s ?\<sigma>"
  proof (rule tinv_localI)
    show "ids_inv ?s ?\<sigma>"
    proof (rule ids_invI)
      have lt: "thread_id r1 < next_thread_id s" if "\<sigma> q = Some ph" "recs s q = Some r1" "has_id ph" for q ph r1
        using ids_invD(1) [OF tinvD(3) [OF inv] that] .
      fix q ph r1 q' ph' r2
      assume q: "?\<sigma> q = Some ph" "recs ?s q = Some r1" "has_id ph"
      show "thread_id r1 < next_thread_id ?s" using q lt [of q ph r1] by (cases "q = p") auto
      assume q': "?\<sigma> q' = Some ph'" "recs ?s q' = Some r2" "has_id ph'" and e: "thread_id r1 = thread_id r2"
      show "q = q'"
      proof (cases "q = p \<or> q' = p")
        case True
        then show ?thesis using q q' e lt [of q ph r1] lt [of q' ph' r2] by (auto split: if_splits)
      next
        case False
        then show ?thesis using q q' e ids_invD(2) [OF tinvD(3) [OF inv], of q ph r1 q' ph' r2] by auto
      qed
    qed
    show "uniq_inv ?\<sigma>"
      by (rule uniq_upd [OF tinvD(4) [OF inv]]) (use uniq_block [OF tinvD(4) [OF inv] _ ci(2)] in auto)
    show "join_inv ?s ?\<sigma>"
      by (rule join_upd [OF tinvD(5) [OF inv], of _ p]) (use ci(2) in \<open>auto simp: can_join_def split: if_splits\<close>)
    show "reg_inv ?s ?\<sigma>" by (rule reg_upd [OF tinvD(6) [OF inv], of p]) (use ci(2) in auto)
    show "lock_inv ?s" by (rule lock_inv_release [OF tinvD(7) [OF inv] P(1,2), of _ ?P]) auto
    have "dom (recs ?s) = dom (recs s)" using r(1) by auto
    then show "finite (dom (recs ?s)) \<and> card (dom (recs ?s)) < 2 ^ 30" using tinvD(8,9) [OF inv] by simp
  qed
  with run show ?thesis by metis
qed

section \<open>Registration\<close>

lemma tkey_eq: "k = \<lparr>kptr = p, kid = i\<rparr> \<longleftrightarrow> kptr k = p \<and> kid k = i"
  by (cases k) auto

lemma reg_invE:
  assumes "reg_inv s \<sigma>"
  obtains xs where "registry s xs"
    "\<And>k. k \<in> set xs \<longleftrightarrow> (\<exists>ph r. \<sigma> (kptr k) = Some ph \<and> registered ph \<and> recs s (kptr k) = Some r \<and> kid k = thread_id r)"
  using assms unfolding reg_inv_def by blast

lemma registered_id: "registered ph \<Longrightarrow> has_id ph"
  by (cases ph) auto

lemma registry_room:
  assumes "tinv s \<sigma>" "registry s xs"
    "\<And>k. k \<in> set xs \<longleftrightarrow> (\<exists>ph r. \<sigma> (kptr k) = Some ph \<and> registered ph \<and> recs s (kptr k) = Some r \<and> kid k = thread_id r)"
    "\<sigma> p = Some ph" "\<not> registered ph"
  shows "length xs + 1 < 2 ^ 30"
proof -
  have inj: "inj_on kptr (set xs)" by (rule inj_onI) (use assms(3) in \<open>auto intro!: tkey.equality\<close>)
  have sub: "kptr ` set xs \<subseteq> dom (recs s) - {p}" using assms(3-5) by auto
  have p: "p \<in> dom (recs s)" using rec_inv_phase [OF tinvD(2) [OF assms(1)] assms(4)] by blast
  have "length xs = card (kptr ` set xs)" using registry_distinct [OF assms(2)] inj by (simp add: card_image distinct_card)
  also have "\<dots> \<le> card (dom (recs s) - {p})" using sub tinvD(8) [OF assms(1)] by (intro card_mono) auto
  also have "\<dots> < card (dom (recs s))" using p tinvD(8) [OF assms(1)] by (intro psubset_card_mono) auto
  finally show ?thesis using tinvD(9) [OF assms(1)] by simp
qed

lemma step_register:
  assumes inv: "tinv s \<sigma>" and P: "threads s t = Some P" "pc P = Inside (Register st)"
    and m: "m \<noteq> NULL" "tnodes s m = None"
  shows "\<exists>s'. run_critical m t (Register st) s = Some s' \<and> (\<exists>\<sigma>'. tinv s' \<sigma>')"
proof -
  obtain p where ci: "own P = None" "\<sigma> p = Some (PStarting t st)" using tinvD(1) [OF inv P(1)] P(2) by auto
  obtain r where r: "recs s p = Some r" "phase_inv s p r (PStarting t st)" by (rule rec_inv_phase [OF tinvD(2) [OF inv] ci(2)])
  obtain xs where xs: "registry s xs"
    "\<And>k. k \<in> set xs \<longleftrightarrow> (\<exists>ph r. \<sigma> (kptr k) = Some ph \<and> registered ph \<and> recs s (kptr k) = Some r \<and> kid k = thread_id r)"
    by (rule reg_invE [OF tinvD(6) [OF inv]]) (rule that)
  let ?k = "\<lparr>kptr = p, kid = thread_id r\<rparr>"
  have fresh: "\<forall>k\<in>set xs. kid k \<noteq> thread_id r"
  proof
    fix k assume "k \<in> set xs"
    then obtain ph r' where k: "\<sigma> (kptr k) = Some ph" "registered ph" "recs s (kptr k) = Some r'" "kid k = thread_id r'"
      using xs(2) by blast
    have "kptr k \<noteq> p" using k(1,2) ci(2) by auto
    then show "kid k \<noteq> thread_id r"
      using ids_invD(2) [OF tinvD(3) [OF inv] ci(2) r(1) _ k(1,3) registered_id [OF k(2)]] k(4) by auto
  qed
  have st: "starts s st = Some \<lparr>start_thread = p\<rparr>" using r(2) by simp
  have room: "length xs + 1 < 2 ^ 30" by (rule registry_room [OF inv xs ci(2)]) simp
  obtain s1 where s1: "start_register m t st s = Some (p, s1)" "registry s1 (ins_key compare_tkeys ?k xs)"
      "recs s1 = (recs s)(p \<mapsto> r\<lparr>sys_thread := t\<rparr>)" "starts s1 = (starts s)(st := None)" "threads s1 = threads s"
      "next_thread_id s1 = next_thread_id s" "handles s1 = handles s" "owner s1 = None"
    using register_law [OF xs(1) st _ r(1) m room fresh inside_owner [OF inv P]] by auto
  let ?P = "P\<lparr>own := Some p, pc := Client\<rparr>" and ?\<sigma> = "\<sigma>(p \<mapsto> PActive t)"
  define s2 where "s2 = s1\<lparr>threads := (threads s)(t \<mapsto> ?P)\<rparr>"
  note f = s1(3-8)
  have s2: "recs s2 = (recs s)(p \<mapsto> r\<lparr>sys_thread := t\<rparr>)" "starts s2 = (starts s)(st := None)" "threads s2 = (threads s)(t \<mapsto> ?P)"
    "next_thread_id s2 = next_thread_id s" "handles s2 = handles s" "owner s2 = None"
    by (simp_all add: s2_def f)
  have run: "\<exists>s'. run_critical m t (Register st) s = Some s' \<and> s' = s2"
    using s1(1) P(1) by (simp add: s2_def f)
  have none: "agent ph \<noteq> t" "\<not> involved ph t" if ne: "q \<noteq> p" and q: "\<sigma> q = Some ph" for q ph
  proof -
    obtain r' where r': "phase_inv s q r' ph" using rec_inv_phase [OF tinvD(2) [OF inv] q] by metis
    have "ph \<noteq> PStarting t st" using uniq_block [OF tinvD(4) [OF inv] q ci(2)] ne by auto
    then show "agent ph \<noteq> t" "\<not> involved ph t" using r' P by (cases ph; auto simp: involved_def)+
  qed
  have "(\<forall>v Q. threads s2 v = Some Q \<longrightarrow> pc_inv s2 ?\<sigma> v Q (pc Q)) \<and> (\<forall>q. rec_inv s2 ?\<sigma> q)"
  proof (rule local_frame [OF inv, where p = p and T = "{t}"])
    show "pc_inv s2 ?\<sigma> v Q (pc Q)" if "v \<in> {t}" "threads s2 v = Some Q" for v Q using that by (auto simp: s2 mine_def)
    show "starts s2 st' = starts s st'" if "q \<noteq> p" "\<sigma> q = Some ph" "block_of ph = Some st'" for q ph st'
      using uniq_block [OF tinvD(4) [OF inv] that(2) ci(2) that(3)] that(1) by (auto simp: s2)
    show "rec_inv s2 ?\<sigma> p" using r P by (auto simp: rec_inv_def s2)
    show "can_join s2 ?\<sigma> p w" if "can_join s \<sigma> p w" for w using that r ci(2) by (auto simp: can_join_def s2)
  qed (use none ci(2) in \<open>auto simp: s2\<close>)
  then have "tinv s2 ?\<sigma>"
  proof (rule tinv_localI)
    show "ids_inv s2 ?\<sigma>" by (rule ids_upd [OF tinvD(3) [OF inv], of p]) (use r(1) ci(2) in \<open>auto simp: s2\<close>)
    have "q = p" if "\<sigma> q = Some ph" "lives ph = Some t" for q ph
      using none(1) [of q ph] that by (cases ph) auto
    then show "uniq_inv ?\<sigma>" by (intro uniq_upd [OF tinvD(4) [OF inv]]) auto
    show "join_inv s2 ?\<sigma>"
      by (rule join_upd [OF tinvD(5) [OF inv], of _ p]) (use ci(2) r in \<open>auto simp: s2 can_join_def split: if_splits\<close>)
    show "reg_inv s2 ?\<sigma>"
      unfolding reg_inv_def
    proof (intro exI conjI allI)
      show "registry s2 (ins_key compare_tkeys ?k xs)"
        using s1(2) registry_cong [of s2 s1] by (simp add: s2_def)
      show "k \<in> set (ins_key compare_tkeys ?k xs) \<longleftrightarrow> (\<exists>ph r. ?\<sigma> (kptr k) = Some ph \<and> registered ph \<and>
          recs s2 (kptr k) = Some r \<and> kid k = thread_id r)" for k
        using xs(2) [of k] ci(2) by (cases "kptr k = p") (auto simp: s2 tkey_eq)
    qed
    show "lock_inv s2" by (rule lock_inv_release [OF tinvD(7) [OF inv] P s2(3)]) (simp_all add: s2)
    have "dom (recs s2) = dom (recs s)" using r(1) by (auto simp: s2)
    then show "finite (dom (recs s2)) \<and> card (dom (recs s2)) < 2 ^ 30" using tinvD(8,9) [OF inv] by simp
  qed
  with run show ?thesis by metis
qed

section \<open>Removal\<close>

lemma step_remove:
  assumes inv: "tinv s \<sigma>" and P: "threads s t = Some P" "pc P = Inside (Remove p c)"
  shows "\<exists>s'. run_critical m t (Remove p c) s = Some s' \<and> (\<exists>\<sigma>'. tinv s' \<sigma>')"
proof -
  have ci: "crit_inv s \<sigma> t P (Remove p c)" using tinvD(1) [OF inv P(1)] P(2) by simp
  then obtain ph where ph: "\<sigma> p = Some ph" "registered ph" "c = ThenEnd \<longrightarrow> ph = PActive t" "c = ThenClient \<longrightarrow> (\<exists>u. ph = PJoined t u)"
    and mine: "mine \<sigma> t P" and nj: "\<And>w. \<not> can_join s \<sigma> p w"
    by (cases c) (auto simp: can_join_def)
  obtain r where r: "recs s p = Some r" "phase_inv s p r ph" by (rule rec_inv_phase [OF tinvD(2) [OF inv] ph(1)])
  obtain xs where xs: "registry s xs"
    "\<And>k. k \<in> set xs \<longleftrightarrow> (\<exists>ph r. \<sigma> (kptr k) = Some ph \<and> registered ph \<and> recs s (kptr k) = Some r \<and> kid k = thread_id r)"
    by (rule reg_invE [OF tinvD(6) [OF inv]]) (rule that)
  let ?k = "\<lparr>kptr = p, kid = thread_id r\<rparr>"
  have k: "?k \<in> set xs" using xs(2) [of ?k] ph r(1) by simp
  obtain s1 ys where s1: "remove_thread t p s = Some s1" "registry s1 ys" "set ys = set xs - {?k}" "recs s1 = (recs s)(p := None)"
      "starts s1 = starts s" "threads s1 = threads s" "next_thread_id s1 = next_thread_id s" "handles s1 = handles s" "owner s1 = None"
    using remove_law [OF xs(1) r(1) k inside_owner [OF inv P]] by auto
  let ?c = "case c of ThenClient \<Rightarrow> Client | ThenEnd \<Rightarrow> if joinable P then Zombie else Gone"
  let ?P = "P\<lparr>pc := ?c\<rparr>" and ?\<sigma> = "\<sigma>(p := None)"
  define s2 where "s2 = s1\<lparr>threads := (threads s)(t \<mapsto> ?P)\<rparr>"
  have s2: "recs s2 = (recs s)(p := None)" "starts s2 = starts s" "threads s2 = (threads s)(t \<mapsto> ?P)"
    "next_thread_id s2 = next_thread_id s" "handles s2 = handles s" "owner s2 = None"
    by (simp_all add: s2_def s1)
  have run: "\<exists>s'. run_critical m t (Remove p c) s = Some s' \<and> s' = s2"
    using s1(1) P(1) by (cases c) (simp_all add: s2_def s1(6) thread_end_def set_pc_def)
  have other: "ph' = PActive t \<and> c = ThenClient" if q: "q \<noteq> p" "\<sigma> q = Some ph'" "involved ph' t" for q ph'
  proof (cases c)
    case ThenClient
    then show ?thesis using busy_other [OF inv P(1) _ q, unfolded P(2)] by simp
  next
    case ThenEnd
    obtain r' where r': "phase_inv s q r' ph'" using rec_inv_phase [OF tinvD(2) [OF inv] q(2)] by metis
    have "ph' \<noteq> PActive t" using uniq_active [OF tinvD(4) [OF inv], of p t q] ph(1,3) q(1,2) ThenEnd by auto
    with r' P ThenEnd q(3) show ?thesis by (cases ph') (auto simp: involved_def)
  qed
  have "(\<forall>v Q. threads s2 v = Some Q \<longrightarrow> pc_inv s2 ?\<sigma> v Q (pc Q)) \<and> (\<forall>q. rec_inv s2 ?\<sigma> q)"
  proof (rule local_frame [OF inv, where p = p and T = "{t}"])
    have "mine ?\<sigma> t ?P" if "c = ThenClient" by (rule mine_upd [OF mine, of p]) (use ph that in auto)
    then show "pc_inv s2 ?\<sigma> v Q (pc Q)" if "v \<in> {t}" "threads s2 v = Some Q" for v Q
      using that by (cases c) (auto simp: s2)
    show "agent ph' \<in> {t}" if "\<sigma> p = Some ph'" for ph' using that ph by (cases c) auto
    show "ph' = PActive v \<and> (\<exists>R R'. threads s v = Some R \<and> threads s2 v = Some R' \<and> own R' = own R \<and>
        joinable R' = joinable R \<and> running (pc R) \<and> running (pc R'))"
      if "q \<noteq> p" "\<sigma> q = Some ph'" "v \<in> {t}" "involved ph' v" for q ph' v
      using other [OF that(1,2)] that(3,4) P by (auto simp: s2)
    show "rec_inv s2 ?\<sigma> p" by (simp add: rec_inv_def s2)
  qed (use nj in \<open>auto simp: s2\<close>)
  then have "tinv s2 ?\<sigma>"
  proof (rule tinv_localI)
    show "ids_inv s2 ?\<sigma>" by (rule ids_upd [OF tinvD(3) [OF inv], of p]) (auto simp: s2)
    show "uniq_inv ?\<sigma>" by (rule uniq_upd [OF tinvD(4) [OF inv]]) auto
    show "join_inv s2 ?\<sigma>"
      by (rule join_upd [OF tinvD(5) [OF inv], of _ p]) (use nj in \<open>auto simp: s2 split: if_splits continuation.splits\<close>)
    show "reg_inv s2 ?\<sigma>"
      unfolding reg_inv_def
    proof (intro exI conjI allI)
      show "registry s2 ys" using s1(2) registry_cong [of s2 s1] by (simp add: s2_def)
      show "k \<in> set ys \<longleftrightarrow> (\<exists>ph r. ?\<sigma> (kptr k) = Some ph \<and> registered ph \<and> recs s2 (kptr k) = Some r \<and> kid k = thread_id r)" for k
        using xs(2) [of k] r(1) by (cases "kptr k = p") (auto simp: s2 s1(3) tkey_eq)
    qed
    show "lock_inv s2" by (rule lock_inv_release [OF tinvD(7) [OF inv] P s2(3)]) (simp_all add: s2 split: continuation.split)
    show "finite (dom (recs s2)) \<and> card (dom (recs s2)) < 2 ^ 30"
      by (rule dom_le [OF tinvD(8,9) [OF inv]]) (auto simp: s2)
  qed
  with run show ?thesis by metis
qed

section \<open>The end of a thread\<close>

lemma step_end:
  assumes inv: "tinv s \<sigma>" and P: "threads s t = Some P" "only_own (pc P)" "\<And>k. pc P \<noteq> Inside k"
    and p: "\<sigma> p = Some (PActive t)" "recs s p = Some r" "detached r = 0"
  shows "tinv (thread_end t s) (\<sigma>(p \<mapsto> PEnded t))"
proof -
  have r: "phase_inv s p r (PActive t)" using rec_inv_phase [OF tinvD(2) [OF inv] p(1)] p(2) by auto
  have j: "joinable P" using r P(1) p(3) by auto
  let ?P = "P\<lparr>pc := Zombie\<rparr>" and ?\<sigma> = "\<sigma>(p \<mapsto> PEnded t)"
  let ?s = "s\<lparr>threads := (threads s)(t \<mapsto> ?P)\<rparr>"
  have s': "thread_end t s = ?s" using P(1) j by (simp add: thread_end_def set_pc_def)
  have none: "\<not> involved ph t" if "q \<noteq> p" and q: "\<sigma> q = Some ph" for q ph
  proof -
    obtain r' where r': "phase_inv s q r' ph" using rec_inv_phase [OF tinvD(2) [OF inv] q] by metis
    have "ph \<noteq> PActive t" using uniq_active [OF tinvD(4) [OF inv] p(1), of q] q that by auto
    with r' P(1,2) show ?thesis by (cases ph) (auto simp: involved_def)
  qed
  have "(\<forall>v Q. threads ?s v = Some Q \<longrightarrow> pc_inv ?s ?\<sigma> v Q (pc Q)) \<and> (\<forall>q. rec_inv ?s ?\<sigma> q)"
  proof (rule local_frame [OF inv, where p = p and T = "{t}"])
    show "rec_inv ?s ?\<sigma> p" using r p by (simp add: rec_inv_def)
  qed (use none p in \<open>auto simp: can_join_def\<close>)
  then have "tinv ?s ?\<sigma>"
  proof (rule tinv_localI)
    show "ids_inv ?s ?\<sigma>" by (rule ids_upd [OF tinvD(3) [OF inv], of p]) (use p in auto)
    show "uniq_inv ?\<sigma>" by (rule uniq_upd [OF tinvD(4) [OF inv]]) (use uniq_lives [OF tinvD(4) [OF inv] _ p(1)] in auto)
    show "join_inv ?s ?\<sigma>"
      by (rule join_upd [OF tinvD(5) [OF inv], of _ p]) (use p in \<open>auto simp: can_join_def split: if_splits\<close>)
    show "reg_inv ?s ?\<sigma>" by (rule reg_upd [OF tinvD(6) [OF inv], of p]) (use p in auto)
    show "lock_inv ?s" by (rule lock_inv_same [OF tinvD(7) [OF inv] P(1), of _ ?P]) (use P in auto)
    show "finite (dom (recs ?s)) \<and> card (dom (recs ?s)) < 2 ^ 30" using tinvD(8,9) [OF inv] by simp
  qed
  with s' show ?thesis by simp
qed

section \<open>Creation\<close>

lemma step_create:
  assumes inv: "tinv s \<sigma>" and P: "threads s t = Some P" "pc P = Client"
    and fresh: "recs s p = None" "starts s st = None" "rec_room s" and s1: "thread_create_alloc a p st rc s = (s1, True)"
  shows "tinv (set_pc t (Wanting (TakeId a p st)) s1) (\<sigma>(p \<mapsto> PFresh t st))"
proof -
  let ?\<sigma> = "\<sigma>(p \<mapsto> PFresh t st)" and ?P = "P\<lparr>pc := Wanting (TakeId a p st)\<rparr>"
  define s2 where "s2 = set_pc t (Wanting (TakeId a p st)) s1"
  obtain r where r: "recs s2 = (recs s)(p \<mapsto> r)" "detached r = 0"
    and s2: "starts s2 = (starts s)(st \<mapsto> \<lparr>start_thread = NULL\<rparr>)" "threads s2 = (threads s)(t \<mapsto> ?P)"
      "next_thread_id s2 = next_thread_id s" "handles s2 = handles s" "owner s2 = owner s" "threadtree s2 = threadtree s" "tnodes s2 = tnodes s"
    using s1 P(1) by (auto simp: thread_create_alloc_def s2_def set_pc_def split: if_splits)
  note s2 = s2 r(1)
  have none: "\<sigma> p = None" using tinvD(2) [OF inv, of p] fresh(1) by (auto simp: rec_inv_def split: option.splits)
  have nb: "block_of ph \<noteq> Some st" if "\<sigma> q = Some ph" for q ph using block_live [OF inv that] fresh(2) by auto
  have busy: "busy p (pc P)" using P(2) by simp
  have "(\<forall>v Q. threads s2 v = Some Q \<longrightarrow> pc_inv s2 ?\<sigma> v Q (pc Q)) \<and> (\<forall>q. rec_inv s2 ?\<sigma> q)"
  proof (rule local_frame [OF inv, where p = p and T = "{t}"])
    have "mine ?\<sigma> t ?P" by (rule mine_upd [of \<sigma> t P p]) (use none tinvD(1) [OF inv P(1)] P(2) in auto)
    then show "pc_inv s2 ?\<sigma> v Q (pc Q)" if "v \<in> {t}" "threads s2 v = Some Q" for v Q using that by (auto simp: s2)
    show "ph = PActive v \<and> (\<exists>R R'. threads s v = Some R \<and> threads s2 v = Some R' \<and> own R' = own R \<and>
        joinable R' = joinable R \<and> running (pc R) \<and> running (pc R'))"
      if "q \<noteq> p" "\<sigma> q = Some ph" "v \<in> {t}" "involved ph v" for q ph v
      using busy_other [OF inv P(1) busy that(1,2)] that(3,4) P by (auto simp: s2)
    show "starts s2 st' = starts s st'" if "\<sigma> q = Some ph" "block_of ph = Some st'" for q ph st'
      using nb [OF that(1)] that(2) by (auto simp: s2)
    show "rec_inv s2 ?\<sigma> p" using r by (auto simp: rec_inv_def s2)
  qed (use none in \<open>auto simp: s2 can_join_def\<close>)
  then have "tinv s2 ?\<sigma>"
  proof (rule tinv_localI)
    show "ids_inv s2 ?\<sigma>" by (rule ids_upd [OF tinvD(3) [OF inv], of p]) (auto simp: s2)
    show "uniq_inv ?\<sigma>" by (rule uniq_upd [OF tinvD(4) [OF inv]]) (use nb in auto)
    show "join_inv s2 ?\<sigma>"
      by (rule join_upd [OF tinvD(5) [OF inv], of _ p]) (use none in \<open>auto simp: s2 can_join_def split: if_splits\<close>)
    show "reg_inv s2 ?\<sigma>" by (rule reg_upd [OF tinvD(6) [OF inv], of p]) (use none in \<open>auto simp: s2\<close>)
    show "lock_inv s2" by (rule lock_inv_same [OF tinvD(7) [OF inv] P(1) s2(2,5)]) (use P in auto)
    have "dom (recs s2) = insert p (dom (recs s))" by (auto simp: s2)
    then show "finite (dom (recs s2)) \<and> card (dom (recs s2)) < 2 ^ 30"
      using tinvD(8) [OF inv] fresh(1,3) by (auto simp: rec_room_def card_insert_if)
  qed
  then show ?thesis by (simp add: s2_def)
qed

lemma numbered_inv:
  assumes "tinv s \<sigma>" "threads s t = Some P" "pc P = Numbered a p st"
  shows "\<exists>r. mine \<sigma> t P \<and> \<sigma> p = Some (PNumbered t st) \<and> recs s p = Some r \<and> detached r = 0 \<and> starts s st \<noteq> None"
proof -
  have ci: "mine \<sigma> t P" "\<sigma> p = Some (PNumbered t st)" using tinvD(1) [OF assms(1,2)] assms(3) by auto
  obtain r where "recs s p = Some r" "phase_inv s p r (PNumbered t st)" by (rule rec_inv_phase [OF tinvD(2) [OF assms(1)] ci(2)])
  with ci show ?thesis by auto
qed

lemma step_spawn_fails:
  assumes inv: "tinv s \<sigma>" and P: "threads s t = Some P" "pc P = Numbered a p st"
  shows "\<exists>s'. thread_create_fail a p st s = Some s' \<and> tinv (set_pc t Client s') (\<sigma>(p := None))"
proof -
  obtain r where ci: "mine \<sigma> t P" "\<sigma> p = Some (PNumbered t st)" "recs s p = Some r" "starts s st \<noteq> None"
    using numbered_inv [OF inv P] by blast
  obtain x where x: "starts s st = Some x" using ci(4) by auto
  let ?\<sigma> = "\<sigma>(p := None)" and ?P = "P\<lparr>pc := Client\<rparr>"
  let ?s = "s\<lparr>starts := (starts s)(st := None), recs := (recs s)(p := None), threads := (threads s)(t \<mapsto> ?P)\<rparr>"
  have run: "\<exists>s'. thread_create_fail a p st s = Some s' \<and> set_pc t Client s' = ?s"
    using ci(3) x P(1)
    by (cases "arg_detached a = 0") (simp_all add: thread_create_fail_def thread_create_fill_def wr_rec_def set_pc_def Let_def)
  have busy: "busy p (pc P)" using P(2) by simp
  have "(\<forall>v Q. threads ?s v = Some Q \<longrightarrow> pc_inv ?s ?\<sigma> v Q (pc Q)) \<and> (\<forall>q. rec_inv ?s ?\<sigma> q)"
  proof (rule local_frame [OF inv, where p = p and T = "{t}"])
    have "mine ?\<sigma> t ?P" by (rule mine_upd [OF ci(1), of p]) (use ci(2) in auto)
    then show "pc_inv ?s ?\<sigma> v Q (pc Q)" if "v \<in> {t}" "threads ?s v = Some Q" for v Q using that by auto
    show "ph = PActive v \<and> (\<exists>R R'. threads s v = Some R \<and> threads ?s v = Some R' \<and> own R' = own R \<and>
        joinable R' = joinable R \<and> running (pc R) \<and> running (pc R'))"
      if "q \<noteq> p" "\<sigma> q = Some ph" "v \<in> {t}" "involved ph v" for q ph v
      using busy_other [OF inv P(1) busy that(1,2)] that(3,4) P by auto
    show "starts ?s st' = starts s st'" if "q \<noteq> p" "\<sigma> q = Some ph" "block_of ph = Some st'" for q ph st'
      using uniq_block [OF tinvD(4) [OF inv] that(2) ci(2) that(3)] that(1) by auto
  qed (use ci(2) in \<open>auto simp: can_join_def rec_inv_def\<close>)
  then have "tinv ?s ?\<sigma>"
  proof (rule tinv_localI)
    show "ids_inv ?s ?\<sigma>" by (rule ids_upd [OF tinvD(3) [OF inv], of p]) auto
    show "uniq_inv ?\<sigma>" by (rule uniq_upd [OF tinvD(4) [OF inv]]) auto
    show "join_inv ?s ?\<sigma>"
      by (rule join_upd [OF tinvD(5) [OF inv], of _ p]) (use ci(2) in \<open>auto simp: can_join_def split: if_splits\<close>)
    show "reg_inv ?s ?\<sigma>" by (rule reg_upd [OF tinvD(6) [OF inv], of p]) (use ci(2) in auto)
    show "lock_inv ?s" by (rule lock_inv_same [OF tinvD(7) [OF inv] P(1), of _ ?P]) (use P in auto)
    show "finite (dom (recs ?s)) \<and> card (dom (recs ?s)) < 2 ^ 30" by (rule dom_le [OF tinvD(8,9) [OF inv]]) auto
  qed
  with run show ?thesis by metis
qed

text \<open>No record belongs to a system id that is free and not stale.\<close>

lemma fresh_id:
  assumes "tinv s \<sigma>" "id_free s u" "\<not> stale s u" "\<sigma> q = Some ph"
  shows "\<not> involved ph u"
proof
  assume i: "involved ph u"
  obtain r where r: "recs s q = Some r" "phase_inv s q r ph" by (rule rec_inv_phase [OF tinvD(2) [OF assms(1)] assms(4)])
  have g: "pc P = Gone" if "threads s u = Some P" for P using assms(2) that by (auto simp: id_free_def at_pc_def)
  show False
  proof (cases "\<exists>j. ph = PJoined j u")
    case True
    then obtain j where j: "ph = PJoined j u" by blast
    with r(2) have u: "sys_thread r = u"
      and "at_pc s j (Wanting (Remove q ThenClient)) \<or> at_pc s j (Inside (Remove q ThenClient))"
      by (auto simp: at_pc_def)
    with r(1) have "stale s u" unfolding stale_def by blast
    with assms(3) show False ..
  next
    case False
    with i have "agent ph = u" by (simp add: involved_def)
    with r(2) g show False by (cases ph) auto
  qed
qed

lemma step_spawn:
  assumes inv: "tinv s \<sigma>" and P: "threads s t = Some P" "pc P = Numbered a p st" and u: "id_free s u" "\<not> stale s u"
  shows "\<exists>s'. thread_spawn a p st u s = Some s' \<and> (\<exists>\<sigma>'. tinv (after_create False t p a s') \<sigma>')"
proof -
  obtain r where ci: "mine \<sigma> t P" "\<sigma> p = Some (PNumbered t st)" "recs s p = Some r" "detached r = 0" "starts s st \<noteq> None"
    using numbered_inv [OF inv P] by blast
  obtain x where x: "starts s st = Some x" using ci(5) by auto
  have gone: "pc Q = Gone" if "threads s u = Some Q" for Q using u(1) that by (auto simp: id_free_def at_pc_def)
  have ut: "u \<noteq> t" using gone [of P] P by auto
  let ?\<sigma> = "\<sigma>(p \<mapsto> PStarting u st)" and ?P = "P\<lparr>pc := Client\<rparr>"
  let ?U = "\<lparr>own = None, pc = Wanting (Register st), joinable = (arg_detached a = 0)\<rparr>"
  let ?r = "r\<lparr>th_name := arg_name a, create_time := arg_time a, detached := (if arg_detached a = 0 then 0 else 1), sys_thread := u\<rparr>"
  obtain s1 where s1: "thread_spawn a p st u s = Some s1" "threads s1 = (threads s)(u \<mapsto> ?U)" "recs s1 = (recs s)(p \<mapsto> ?r)"
    "starts s1 = (starts s)(st \<mapsto> \<lparr>start_thread = p\<rparr>)" "next_thread_id s1 = next_thread_id s" "handles s1 = handles s"
    "owner s1 = owner s" "threadtree s1 = threadtree s" "tnodes s1 = tnodes s"
    using ci(3,4) x
    by (cases r; cases "arg_detached a = 0") (simp_all add: thread_spawn_def thread_create_fill_def wr_rec_def store_id_def new_thread_def Let_def)
  define s2 where "s2 = after_create False t p a s1"
  have s2: "threads s2 = (threads s)(u \<mapsto> ?U, t \<mapsto> ?P)" "recs s2 = (recs s)(p \<mapsto> ?r)"
    "starts s2 = (starts s)(st \<mapsto> \<lparr>start_thread = p\<rparr>)" "next_thread_id s2 = next_thread_id s"
    "handles s2 = (if arg_detached a = 0 then insert p (handles s) else handles s)"
    "owner s2 = owner s" "threadtree s2 = threadtree s" "tnodes s2 = tnodes s"
    using s1 P(1) ut by (auto simp: s2_def after_create_def thread_create_return_def set_pc_def)
  have busy: "busy p (pc P)" using P(2) by simp
  have "(\<forall>v Q. threads s2 v = Some Q \<longrightarrow> pc_inv s2 ?\<sigma> v Q (pc Q)) \<and> (\<forall>q. rec_inv s2 ?\<sigma> q)"
  proof (rule local_frame [OF inv, where p = p and T = "{t, u}"])
    have "mine ?\<sigma> t ?P" by (rule mine_upd [OF ci(1), of p]) (use ci(2) in auto)
    then show "pc_inv s2 ?\<sigma> v Q (pc Q)" if "v \<in> {t, u}" "threads s2 v = Some Q" for v Q
      using that by (auto simp: s2 split: if_splits)
    show "ph = PActive v \<and> (\<exists>R R'. threads s v = Some R \<and> threads s2 v = Some R' \<and> own R' = own R \<and>
        joinable R' = joinable R \<and> running (pc R) \<and> running (pc R'))"
      if "q \<noteq> p" "\<sigma> q = Some ph" "v \<in> {t, u}" "involved ph v" for q ph v
      using busy_other [OF inv P(1) busy that(1,2)] fresh_id [OF inv u that(2)] that(3,4) P by (auto simp: s2)
    show "starts s2 st' = starts s st'" if "q \<noteq> p" "\<sigma> q = Some ph" "block_of ph = Some st'" for q ph st'
      using uniq_block [OF tinvD(4) [OF inv] that(2) ci(2) that(3)] that(1) by (auto simp: s2)
    show "rec_inv s2 ?\<sigma> p" using ut by (simp add: rec_inv_def s2)
  qed (use ci(2) in \<open>auto simp: s2 can_join_def\<close>)
  then have "tinv s2 ?\<sigma>"
  proof (rule tinv_localI)
    show "ids_inv s2 ?\<sigma>" by (rule ids_upd [OF tinvD(3) [OF inv], of p]) (use ci in \<open>auto simp: s2\<close>)
    show "uniq_inv ?\<sigma>" by (rule uniq_upd [OF tinvD(4) [OF inv]]) (use uniq_block [OF tinvD(4) [OF inv] _ ci(2)] in auto)
    have nj: "\<not> can_join s \<sigma> p w" for w using ci(2) by (simp add: can_join_def)
    have th: "threads s v = Some Q \<and> q \<noteq> p" if Q: "threads s2 v = Some Q" "pc Q = Joining q w" for v Q q w
    proof -
      have *: "threads s v = Some Q" using Q by (auto simp: s2 split: if_splits)
      with Q(2) tinvD(1) [OF inv *] nj show ?thesis by auto
    qed
    have "\<exists>w. can_join s2 ?\<sigma> q w" if "q \<in> handles s2" for q
    proof (cases "q = p")
      case True
      have "p \<notin> handles s" using join_invD(1) [OF tinvD(5) [OF inv]] nj by blast
      with that True show ?thesis by (auto simp: can_join_def s2 split: if_splits)
    next
      case False
      with that have "q \<in> handles s" by (auto simp: s2 split: if_splits)
      with join_invD(1) [OF tinvD(5) [OF inv]] obtain w where "can_join s \<sigma> q w" by blast
      with False show ?thesis by (auto simp: can_join_def s2)
    qed
    moreover have "q \<notin> handles s2" if "threads s2 v = Some Q" "pc Q = Joining q w" for v Q q w
      using th [OF that] join_invD(2) [OF tinvD(5) [OF inv], of v Q q w] that(2) by (auto simp: s2)
    moreover have "v = v'" if "threads s2 v = Some Q" "threads s2 v' = Some Q'" "pc Q = Joining q w" "pc Q' = Joining q w'" for v Q v' Q' q w w'
      using join_invD(3) [OF tinvD(5) [OF inv] _ _ that(3,4)] th [OF that(1,3)] th [OF that(2,4)] by blast
    ultimately show "join_inv s2 ?\<sigma>" unfolding join_inv_def by blast
    show "reg_inv s2 ?\<sigma>" by (rule reg_upd [OF tinvD(6) [OF inv], of p]) (use ci(2) in \<open>auto simp: s2\<close>)
    show "lock_inv s2" using tinvD(7) [OF inv] P gone ut by (auto simp: lock_inv_def s2)
    have "dom (recs s2) = dom (recs s)" using ci(3) by (auto simp: s2)
    then show "finite (dom (recs s2)) \<and> card (dom (recs s2)) < 2 ^ 30" using tinvD(8,9) [OF inv] by simp
  qed
  with s1(1) show ?thesis by (auto simp: s2_def)
qed

section \<open>Looking up the calling thread\<close>

lemma registered_own:
  assumes inv: "tinv s \<sigma>" and p: "\<sigma> p = Some (PActive t)"
    and ph: "\<sigma> (kptr k) = Some ph" "registered ph" "recs s (kptr k) = Some r" "sys_thread r = t"
  shows "kptr k = p"
proof -
  obtain r' P where P: "threads s t = Some P" "running (pc P)" using rec_inv_phase [OF tinvD(2) [OF inv] p] by auto
  have "phase_inv s (kptr k) r ph" using rec_inv_phase [OF tinvD(2) [OF inv] ph(1)] ph(3) by auto
  with ph(2,4) P have "ph = PActive t" by (cases ph) auto
  with ph(1) uniq_active [OF tinvD(4) [OF inv] _ p] show ?thesis by blast
qed

lemma thread_self_own:
  assumes inv: "tinv s \<sigma>" and p: "\<sigma> p = Some (PActive t)"
  shows "thread_self t (s\<lparr>owner := Some t\<rparr>) = Some (Some p, s\<lparr>owner := None\<rparr>)"
proof -
  obtain r where r: "recs s p = Some r" "phase_inv s p r (PActive t)" by (rule rec_inv_phase [OF tinvD(2) [OF inv] p])
  obtain xs where xs: "registry s xs"
    "\<And>k. k \<in> set xs \<longleftrightarrow> (\<exists>ph r. \<sigma> (kptr k) = Some ph \<and> registered ph \<and> recs s (kptr k) = Some r \<and> kid k = thread_id r)"
    by (rule reg_invE [OF tinvD(6) [OF inv]]) (rule that)
  have k: "\<lparr>kptr = p, kid = thread_id r\<rparr> \<in> set xs" using xs(2) p r(1) by simp
  have only: "kptr k = p" if "k \<in> set xs" "is_sys s t k" for k
    using that xs(2) [of k] registered_own [OF inv p, of k] by (auto simp: is_sys_def)
  have "is_sys s t \<lparr>kptr = p, kid = thread_id r\<rparr>" using r by (auto simp: is_sys_def)
  with k have "List.find (is_sys s t) xs \<noteq> None" by (auto simp: find_None_iff)
  then obtain k' where k': "List.find (is_sys s t) xs = Some k'" by auto
  then have "k' \<in> set xs \<and> is_sys s t k'" unfolding find_Some_iff by auto
  with only have "kptr k' = p" by blast
  moreover have "registry (s\<lparr>owner := Some t\<rparr>) xs" using xs(1) by (simp add: registry_def)
  moreover have "is_sys (s\<lparr>owner := Some t\<rparr>) t = is_sys s t" by (simp add: is_sys_def fun_eq_iff)
  ultimately show ?thesis using k' thread_self_find [of "s\<lparr>owner := Some t\<rparr>" xs t] xs(2) by fastforce
qed

lemma step_find:
  assumes inv: "tinv s \<sigma>" and P: "threads s t = Some P" "pc P = Inside (FindSelf w)"
  shows "\<exists>s'. run_critical m t (FindSelf w) s = Some s' \<and> tinv s' \<sigma>"
proof -
  have "mine \<sigma> t P" using tinvD(1) [OF inv P(1)] P(2) by simp
  then obtain p where p: "\<sigma> p = Some (PActive t)" by (auto simp: mine_def)
  let ?c = "case w of ForClient \<Rightarrow> Client | ForRename n \<Rightarrow> Renaming (Some p) n | ForExit \<Rightarrow> Exiting (Some p)"
  let ?s = "s\<lparr>threads := (threads s)(t \<mapsto> P\<lparr>pc := ?c\<rparr>), owner := None\<rparr>"
  have "tinv ?s \<sigma>"
  proof (rule tinv_move [OF inv P(1), where c = ?c])
    show "join_inv ?s \<sigma>"
      by (rule join_inv_move [OF tinvD(5) [OF inv], of _ t P ?c]) (use P in \<open>auto simp: same_recs_refl split: purpose.split\<close>)
    show "lock_inv ?s" by (rule lock_inv_release [OF tinvD(7) [OF inv] P, of _ "P\<lparr>pc := ?c\<rparr>"]) (simp_all split: purpose.split)
    show "pc_inv s \<sigma> t P ?c" using \<open>mine \<sigma> t P\<close> p by (auto split: purpose.split)
  qed (use P in \<open>auto simp: same_recs_refl split: purpose.split\<close>)
  moreover have "s\<lparr>owner := Some t\<rparr> = s" using inside_owner [OF inv P] by (cases s) simp
  then have "\<exists>s'. run_critical m t (FindSelf w) s = Some s' \<and> s' = ?s"
    using thread_self_own [OF inv p] P(1) by (cases w) (simp_all add: set_pc_def)
  ultimately show ?thesis by metis
qed

section \<open>Moves\<close>

lemma step_move:
  assumes inv: "tinv s \<sigma>" and P: "threads s t = Some P" "only_own (pc P)" "\<And>k. pc P \<noteq> Inside k"
    and c: "running c" "\<And>k. c \<noteq> Inside k" "\<And>p u. c \<noteq> Joining p u" "pc_inv s \<sigma> t P c"
  shows "tinv (set_pc t c s) \<sigma>"
proof -
  let ?s = "s\<lparr>threads := (threads s)(t \<mapsto> P\<lparr>pc := c\<rparr>)\<rparr>"
  have "tinv ?s \<sigma>"
  proof (rule tinv_move [OF inv P(1), where c = c])
    show "join_inv ?s \<sigma>"
      by (rule join_inv_move [OF tinvD(5) [OF inv], of _ t P c]) (use P c in \<open>auto simp: same_recs_refl\<close>)
    show "lock_inv ?s" by (rule lock_inv_same [OF tinvD(7) [OF inv] P(1), of _ "P\<lparr>pc := c\<rparr>"]) (use P c in auto)
  qed (use P c in \<open>auto simp: same_recs_refl\<close>)
  then show ?thesis by (simp add: set_pc_eq [OF P(1)])
qed

lemma step_lock:
  assumes inv: "tinv s \<sigma>" and P: "threads s t = Some P" "pc P = Wanting k" and o: "owner s = None"
  shows "tinv (set_pc t (Inside k) (s\<lparr>owner := Some t\<rparr>)) \<sigma>"
proof -
  let ?s = "s\<lparr>threads := (threads s)(t \<mapsto> P\<lparr>pc := Inside k\<rparr>), owner := Some t\<rparr>"
  have "tinv ?s \<sigma>"
  proof (rule tinv_move [OF inv P(1), where c = "Inside k"])
    show "join_inv ?s \<sigma>"
      by (rule join_inv_move [OF tinvD(5) [OF inv], of _ t P "Inside k"]) (use P in \<open>auto simp: same_recs_refl\<close>)
    show "lock_inv ?s" by (rule lock_inv_acquire [OF tinvD(7) [OF inv] P(1) o, of _ "P\<lparr>pc := Inside k\<rparr>"]) auto
    show "pc_inv s \<sigma> t P (Inside k)" using tinvD(1) [OF inv P(1)] P(2) by simp
  qed (use P in \<open>auto simp: same_recs_refl\<close>)
  moreover have "set_pc t (Inside k) (s\<lparr>owner := Some t\<rparr>) = ?s" using P(1) by (simp add: set_pc_def)
  ultimately show ?thesis by simp
qed

lemma step_rename:
  assumes inv: "tinv s \<sigma>" and P: "threads s t = Some P" "pc P = Renaming th n"
  shows "\<exists>s'. thread_rename_tail th n s = Some s' \<and> tinv (set_pc t Client s') \<sigma>"
proof -
  obtain p where p: "th = Some p" "\<sigma> p = Some (PActive t)" "mine \<sigma> t P" using tinvD(1) [OF inv P(1)] P(2) by auto
  obtain r where r: "recs s p = Some r" using rec_inv_phase [OF tinvD(2) [OF inv] p(2)] by metis
  let ?s = "s\<lparr>recs := (recs s)(p \<mapsto> r\<lparr>th_name := n\<rparr>), threads := (threads s)(t \<mapsto> P\<lparr>pc := Client\<rparr>)\<rparr>"
  have sr: "same_recs s ?s" by (rule same_recs_upd [OF r]) simp
  have "tinv ?s \<sigma>"
  proof (rule tinv_move [OF inv P(1) _ sr, where c = Client])
    show "join_inv ?s \<sigma>"
      by (rule join_inv_move [OF tinvD(5) [OF inv] sr, of t P Client]) (use P in auto)
    show "lock_inv ?s" by (rule lock_inv_same [OF tinvD(7) [OF inv] P(1), of _ "P\<lparr>pc := Client\<rparr>"]) (use P in auto)
  qed (use P p in auto)
  moreover have "\<exists>s'. thread_rename_tail th n s = Some s' \<and> set_pc t Client s' = ?s"
    using p(1) r P(1) by (simp add: thread_rename_tail_def wr_rec_def set_pc_def)
  ultimately show ?thesis by metis
qed

text \<open>The common end of \<open>thread_exit_c\<close> and of \<open>_start_routine\<close>.\<close>

lemma step_leave:
  assumes inv: "tinv s \<sigma>" and P: "threads s t = Some P" "only_own (pc P)" "\<And>k. pc P \<noteq> Inside k" "mine \<sigma> t P"
    and p: "\<sigma> p = Some (PActive t)"
  shows "\<exists>r. recs s p = Some r \<and>
    (\<exists>\<sigma>'. tinv (if detached r \<noteq> 0 then set_pc t (Wanting (Remove p ThenEnd)) s else thread_end t s) \<sigma>')"
proof -
  obtain r where r: "recs s p = Some r" using rec_inv_phase [OF tinvD(2) [OF inv] p] by metis
  show ?thesis
  proof (cases "detached r = 0")
    case True
    with r step_end [OF inv P(1-3) p r] show ?thesis by auto
  next
    case False
    have "tinv (set_pc t (Wanting (Remove p ThenEnd)) s) \<sigma>"
      by (rule step_move [OF inv P(1-3)]) (use P(4) p r False in auto)
    with r False show ?thesis by auto
  qed
qed

section \<open>Joining\<close>

lemma step_join:
  assumes inv: "tinv s \<sigma>" and P: "threads s t = Some P" "pc P = Client" and p: "p \<in> handles s"
  shows "\<exists>s'. thread_join_begin t p s = Some s' \<and> tinv s' \<sigma>"
proof -
  obtain u where u: "can_join s \<sigma> p u" using join_invD(1) [OF tinvD(5) [OF inv] p] by blast
  then obtain r where r: "recs s p = Some r" "sys_thread r = u" by (auto simp: can_join_def)
  let ?s = "s\<lparr>handles := handles s - {p}, threads := (threads s)(t \<mapsto> P\<lparr>pc := Joining p u\<rparr>)\<rparr>"
  have "tinv ?s \<sigma>"
  proof (rule tinv_move [OF inv P(1), where c = "Joining p u"])
    have "can_join ?s \<sigma> q w \<longleftrightarrow> can_join s \<sigma> q w" for q w by (simp add: can_join_def)
    then show "join_inv ?s \<sigma>"
      using tinvD(5) [OF inv] p P unfolding join_inv_def by (auto split: if_splits)
    show "lock_inv ?s" by (rule lock_inv_same [OF tinvD(7) [OF inv] P(1), of _ "P\<lparr>pc := Joining p u\<rparr>"]) (use P in auto)
    show "pc_inv s \<sigma> t P (Joining p u)" using u tinvD(1) [OF inv P(1)] P(2) by simp
  qed (use P in \<open>auto simp: same_recs_refl\<close>)
  moreover have "thread_join_begin t p s = Some ?s" using r P(1) by (simp add: thread_join_begin_def set_pc_def)
  ultimately show ?thesis by metis
qed

lemma step_joined:
  assumes inv: "tinv s \<sigma>" and P: "threads s t = Some P" "pc P = Joining p u" and U: "threads s u = Some U" "pc U = Zombie"
  shows "tinv (set_pc t (Wanting (Remove p ThenClient)) (set_pc u Gone s)) (\<sigma>(p \<mapsto> PJoined t u))"
proof -
  have ci: "mine \<sigma> t P" "can_join s \<sigma> p u" using tinvD(1) [OF inv P(1)] P(2) by auto
  then obtain r ph where r: "recs s p = Some r" "sys_thread r = u" and "\<sigma> p = Some ph" "\<exists>st. ph \<in> {PStarting u st, PActive u, PEnded u}"
    by (auto simp: can_join_def)
  moreover from this have "phase_inv s p r ph" using rec_inv_phase [OF tinvD(2) [OF inv], of p] by auto
  ultimately have p: "\<sigma> p = Some (PEnded u)" using U by auto
  have tu: "t \<noteq> u" using P U by auto
  let ?P = "P\<lparr>pc := Wanting (Remove p ThenClient)\<rparr>" and ?U = "U\<lparr>pc := Gone\<rparr>" and ?\<sigma> = "\<sigma>(p \<mapsto> PJoined t u)"
  let ?s = "s\<lparr>threads := (threads s)(u \<mapsto> ?U, t \<mapsto> ?P)\<rparr>"
  have s': "set_pc t (Wanting (Remove p ThenClient)) (set_pc u Gone s) = ?s" using P(1) U(1) tu by (simp add: set_pc_def)
  have nj: "\<not> can_join s \<sigma> p w" if "threads s v = Some Q" "pc Q = Joining p w" "v \<noteq> t" for v Q w
    using join_invD(3) [OF tinvD(5) [OF inv] that(1) P(1) that(2) P(2)] that(3) by simp
  have "(\<forall>v Q. threads ?s v = Some Q \<longrightarrow> pc_inv ?s ?\<sigma> v Q (pc Q)) \<and> (\<forall>q. rec_inv ?s ?\<sigma> q)"
  proof (rule local_frame [OF inv, where p = p and T = "{t, u}"])
    have "mine ?\<sigma> t ?P" by (rule mine_upd [OF ci(1), of p]) (use p in auto)
    then show "pc_inv ?s ?\<sigma> v Q (pc Q)" if "v \<in> {t, u}" "threads ?s v = Some Q" for v Q
      using that tu by (auto split: if_splits)
    show "ph = PActive v \<and> (\<exists>R R'. threads s v = Some R \<and> threads ?s v = Some R' \<and> own R' = own R \<and>
        joinable R' = joinable R \<and> running (pc R) \<and> running (pc R'))"
      if q: "q \<noteq> p" "\<sigma> q = Some ph" "v \<in> {t, u}" "involved ph v" for q ph v
    proof -
      obtain r' where r': "phase_inv s q r' ph" using rec_inv_phase [OF tinvD(2) [OF inv] q(2)] by metis
      have "ph \<noteq> PEnded u" using uniq_lives [OF tinvD(4) [OF inv] q(2) p, of u] q(1) by auto
      with r' P U q(3,4) tu show ?thesis by (cases ph) (auto simp: involved_def)
    qed
    show "rec_inv ?s ?\<sigma> p" using r tu by (simp add: rec_inv_def)
  qed (use p nj in \<open>auto simp: can_join_def\<close>)
  then have "tinv ?s ?\<sigma>"
  proof (rule tinv_localI)
    show "ids_inv ?s ?\<sigma>" by (rule ids_upd [OF tinvD(3) [OF inv], of p]) (use p in auto)
    show "uniq_inv ?\<sigma>" by (rule uniq_upd [OF tinvD(4) [OF inv]]) auto
    have "p \<notin> handles s" by (rule join_invD(2) [OF tinvD(5) [OF inv] P])
    then show "join_inv ?s ?\<sigma>"
      by (intro join_upd [OF tinvD(5) [OF inv], of _ p]) (auto split: if_splits)
    show "reg_inv ?s ?\<sigma>" by (rule reg_upd [OF tinvD(6) [OF inv], of p]) (use p in auto)
    show "lock_inv ?s" using tinvD(7) [OF inv] P U tu by (auto simp: lock_inv_def)
    show "finite (dom (recs ?s)) \<and> card (dom (recs ?s)) < 2 ^ 30" using tinvD(8,9) [OF inv] by simp
  qed
  with s' show ?thesis by simp
qed

end
