(* ===== verification/Thread_Reach.thy ===== *)
theory Thread_Reach
  imports Thread_Steps
begin

text \<open>
  The initialisation establishes the invariant of the thread library and every step without an accident keeps it, so it
  holds after all runs without one, and there no step is undefined. The part about the mutex holds after all runs.
\<close>

section \<open>Initialisation\<close>

lemma new_tree_holds:
  assumes "mt \<noteq> NULL" "mr \<noteq> NULL"
  shows "\<exists>ob h'. avl_tree_new compare_threads () mt mr h T = (Some ob, h', T(mt \<mapsto> Live rw_free)) \<and>
    avl_holds compare_tkeys (ob, h') [] \<and> len ob = 0 \<and> h' = h(mr \<mapsto> \<lparr>key = None, left = NULL, right = NULL, parent = NULL,
      rank_and_balance = AVL_SET_RANK (AVL_SET_BALANCE 0 0) 1\<rparr>)"
proof -
  let ?n = "\<lparr>key = None, left = NULL, right = NULL, parent = NULL, rank_and_balance = AVL_SET_RANK (AVL_SET_BALANCE 0 0) 1\<rparr>"
  let ?ob = "\<lparr>root = mr, height = 0, len = 0, compare_fun = compare_threads, compare_arg = ()\<rparr>"
  have "avl_at (h(mr \<mapsto> ?n)) mr Leaf" using assms(2) by (simp add: avl_at_def addrs_def)
  then have "avl_holds compare_tkeys (?ob, h(mr \<mapsto> ?n)) []"
    by (auto simp: avl_holds_def avl_repr_def avl_wf_def keys_def fun_eq_iff compare_threads_def intro!: exI [of _ Leaf])
  then show ?thesis using assms by (simp add: avl_tree_new_def avl_node_new_def thread_rwlock_create_c_def pthread_init_def)
qed

lemma initialize_law:
  assumes "mt \<noteq> NULL" "mr \<noteq> NULL" "m \<noteq> NULL" "m \<noteq> mr" "p \<noteq> NULL" "tnodes s m = None" "next_thread_id s < 2 ^ 63 - 1"
  shows "\<exists>s'. thread_initialize mt mr m p junk self now fname mname s = Some s' \<and>
    registry s' [\<lparr>kptr = p, kid = next_thread_id s\<rparr>] \<and> next_thread_id s' = next_thread_id s + 1 \<and> initialized s' = 1 \<and>
    recs s' = (recs s)(p \<mapsto> \<lparr>thread_id = next_thread_id s, th_name = mname, create_time = now, th_file = fname, th_line = 0,
      detached = junk, sys_thread = self\<rparr>) \<and>
    starts s' = starts s \<and> threads s' = threads s \<and> handles s' = handles s \<and> owner s' = None \<and>
    tree_at s' = mt \<and> trees s' = (trees s)(mt \<mapsto> Live rw_free)"
proof -
  obtain ob h where ob: "avl_tree_new compare_threads () mt mr (tnodes s) (trees s) = (Some ob, h, (trees s)(mt \<mapsto> Live rw_free))"
    "avl_holds compare_tkeys (ob, h) []"
    "len ob = 0" "h m = None"
    using new_tree_holds [OF assms(1,2), of "tnodes s" "trees s"] assms(4,6) by auto
  let ?k = "\<lparr>kptr = p, kid = next_thread_id s\<rparr>"
  have "avl_room (ob, h) m" using assms(3) ob(3,4) by (simp add: avl_room_def)
  then obtain ob' h' where i: "avl_insert m ob (Some ?k) h = Some (0, ob', h')" "avl_holds compare_tkeys (ob', h') [?k]"
    using tk.avl.ins_law [OF ob(2), of m ?k] by (auto simp: avl_ins_op_def)
  show ?thesis using ob i assms(5,7) by (simp add: thread_initialize_def long_succ_def registry_def Let_def)
qed

lemma initialize_inv:
  assumes "thread_initialize mt mr m p junk main now fname mname (main_state main) = Some s" "m \<noteq> NULL" "m \<noteq> mr"
  shows "tinv s [p \<mapsto> PActive main]"
proof -
  have nn: "mt \<noteq> NULL" "mr \<noteq> NULL" "p \<noteq> NULL"
    using assms(1) by (auto simp: thread_initialize_def avl_tree_new_def avl_node_new_def long_succ_def Let_def
      split: if_splits prod.splits option.splits)
  have s: "registry s [\<lparr>kptr = p, kid = 0\<rparr>]" "next_thread_id s = 1" "starts s = (\<lambda>_. None)" "handles s = {}" "owner s = None"
    "recs s = [p \<mapsto> \<lparr>thread_id = 0, th_name = mname, create_time = now, th_file = fname, th_line = 0,
      detached = junk, sys_thread = main\<rparr>]" "threads s = [main \<mapsto> \<lparr>own = None, pc = Client, joinable = True\<rparr>]"
    using initialize_law [OF nn(1,2) assms(2,3) nn(3), of "main_state main" junk main now fname mname] assms(1)
    by (auto simp: main_state_def zero_state_def)
  show ?thesis
  proof (rule tinvI)
    show "pc_inv s [p \<mapsto> PActive main] t P (pc P)" if "threads s t = Some P" for t P
      using that by (auto simp: s mine_def split: if_splits)
    show "rec_inv s [p \<mapsto> PActive main] q" for q by (simp add: rec_inv_def s)
    show "ids_inv s [p \<mapsto> PActive main]" by (auto simp: ids_inv_def s split: if_splits)
    show "uniq_inv [p \<mapsto> PActive main]" by (auto simp: uniq_inv_def split: if_splits)
    show "join_inv s [p \<mapsto> PActive main]" by (auto simp: join_inv_def s split: if_splits)
    show "reg_inv s [p \<mapsto> PActive main]"
      unfolding reg_inv_def by (rule exI [of _ "[\<lparr>kptr = p, kid = 0\<rparr>]"]) (auto simp: s(1,6) tkey_eq)
    show "lock_inv s" by (auto simp: lock_inv_def s split: if_splits)
  qed (simp add: s)
qed

section \<open>All steps\<close>

text \<open>A critical section without an accident: defined unless an id overflows, and it keeps the invariant.\<close>

lemma critical_inv:
  assumes inv: "tinv s \<sigma>" and t: "at_pc s t (Inside k)" and m: "node_ok s m" "critical_mishaps m k = {}"
  shows "(next_thread_id s < 2 ^ 63 - 1 \<longrightarrow> run_critical m t k s \<noteq> None) \<and>
    (\<forall>s'. run_critical m t k s = Some s' \<longrightarrow> (\<exists>\<sigma>'. tinv s' \<sigma>'))"
proof -
  obtain P where P: "threads s t = Some P" "pc P = Inside k" using at_pcD [OF t] by blast
  show ?thesis
  proof (cases k)
    case (TakeId a p st)
    have "next_thread_id s < 2 ^ 63 - 1" if "run_critical m t k s = Some s'" for s'
      using that TakeId by (auto simp: take_id_def long_succ_def split: if_splits)
    with TakeId step_take_id [OF inv P(1) P(2) [unfolded TakeId], of m] show ?thesis by force
  next
    case (Register st)
    have "m \<noteq> NULL" "tnodes s m = None" using m Register by (auto simp: node_ok_def node_mishaps_def split: if_splits)
    with Register step_register [OF inv P(1) P(2) [unfolded Register], of m] show ?thesis by force
  next
    case FindSelf
    with step_find [OF inv P(1) P(2) [unfolded FindSelf], of m] show ?thesis by force
  next
    case Remove
    with step_remove [OF inv P(1) P(2) [unfolded Remove], of m] show ?thesis by force
  qed
qed

text \<open>A step keeps the invariant, and it is defined unless an id overflows.\<close>

lemma tstep_inv:
  assumes "tstep False {} s res" and inv: "tinv s \<sigma>"
  shows "(\<forall>s'. res = Some s' \<longrightarrow> (\<exists>\<sigma>'. tinv s' \<sigma>')) \<and> (next_thread_id s < 2 ^ 63 - 1 \<longrightarrow> res \<noteq> None)"
  using assms(1)
proof cases
  case (lock t k)
  then show ?thesis using step_lock [OF inv] at_pcD [OF lock(2)] by blast
next
  case (critical t k m)
  show ?thesis using critical_inv [OF inv critical(3,4) critical(1) [symmetric]] critical(2) by auto
next
  case (create t p st a rc s')
  then show ?thesis using step_create [OF inv] at_pcD [OF create(2)] by blast
next
  case (create_no_memory t a p st rc s')
  then show ?thesis using inv by (auto simp: thread_create_alloc_def split: if_splits)
next
  case (spawn t a p st u)
  obtain P where P: "threads s t = Some P" "pc P = Numbered a p st" using at_pcD [OF spawn(3)] by blast
  have "\<not> stale s u" using spawn(1) by (auto simp: spawn_mishaps_def split: if_splits)
  with step_spawn [OF inv P spawn(4)] spawn(2) show ?thesis by auto
next
  case (spawn_early t a p st u)
  then show ?thesis by simp
next
  case (store t a p u)
  then show ?thesis using tinvD(1) [OF inv] at_pcD [OF store(2)] by force
next
  case (spawn_fails t a p st)
  then show ?thesis using step_spawn_fails [OF inv] at_pcD [OF spawn_fails(2)] by force
next
  case (setname t p)
  then show ?thesis using tinvD(1) [OF inv] at_pcD [OF setname(2)] by force
next
  case (self t w)
  obtain P where P: "threads s t = Some P" "pc P = Client" using at_pcD [OF self(2)] by blast
  have "pc_inv s \<sigma> t P Client" using tinvD(1) [OF inv P(1)] P(2) by simp
  then have "tinv (set_pc t (Wanting (FindSelf w)) s) \<sigma>" by (intro step_move [OF inv P(1)]) (use P(2) in auto)
  then show ?thesis using self(1) by blast
next
  case (rename t r n)
  then show ?thesis using step_rename [OF inv] at_pcD [OF rename(2)] by force
next
  case (exit t r)
  obtain P where P: "threads s t = Some P" "pc P = Exiting r" using at_pcD [OF exit(2)] by blast
  obtain p where p: "r = Some p" "\<sigma> p = Some (PActive t)" "mine \<sigma> t P" using tinvD(1) [OF inv P(1)] P(2) by auto
  show ?thesis using step_leave [OF inv P(1) _ _ p(3,2)] P(2) exit(1) p(1) by (auto simp: thread_exit_tail_def)
next
  case (return t P p)
  have c: "pc P = Client" using at_pcD [OF return(2)] return(3) by auto
  have mine: "mine \<sigma> t P" using tinvD(1) [OF inv return(3)] c by simp
  then have p: "\<sigma> p = Some (PActive t)" using return(4) by (auto simp: mine_def)
  show ?thesis using step_leave [OF inv return(3) _ _ mine p] c return(1) by (auto simp: start_return_def)
next
  case (join t p)
  then show ?thesis using step_join [OF inv] at_pcD [OF join(2)] by force
next
  case (joined t p u)
  then show ?thesis using step_joined [OF inv] at_pcD [OF joined(2)] at_pcD [OF joined(3)] by blast
qed

text \<open>The mutex in all runs, whatever accidents happen on them.\<close>

lemma wr_rec_same: "wr_rec p f s = Some s' \<Longrightarrow> owner s' = owner s \<and> threads s' = threads s"
  by (auto simp: wr_rec_def split: option.splits)

lemma tree_unlock_same: "tree_unlock t s = Some s' \<Longrightarrow> owner s = Some t \<and> owner s' = None \<and> threads s' = threads s"
  by (auto simp: tree_unlock_def split: if_splits)

lemma self_loop_same:
  assumes "self_loop t s n = Some y"
  shows "owner s = Some t \<and> owner (snd y) = None \<and> threads (snd y) = threads s"
proof (rule self_loop.raw_induct [OF _ assms, where P = "\<lambda>t s n y. owner s = Some t \<and> owner (snd y) = None \<and> threads (snd y) = threads s"])
  fix loop t s n y
  assume IH: "\<And>t s n y. loop t s n = Some y \<Longrightarrow> owner s = Some t \<and> owner (snd y) = None \<and> threads (snd y) = threads s"
    and "(if n = NULL then do { s \<leftarrow> tree_unlock t s; Some (None, s) }
      else do {
        k \<leftarrow> rd key (tnodes s) n;
        found \<leftarrow> (case k of None \<Rightarrow> Some None
                  | Some k \<Rightarrow> do { th \<leftarrow> recs s (kptr k); Some (if sys_thread th = t then Some (kptr k) else None) });
        if Option.is_none found then do {
          n \<leftarrow> avl_get_next n (tnodes s);
          loop t s n }
        else do { s \<leftarrow> tree_unlock t s; Some (found, s) } }) = Some y"
  then show "owner s = Some t \<and> owner (snd y) = None \<and> threads (snd y) = threads s"
    by (cases y) (auto simp: tree_unlock_def split: if_splits elim!: bind_SomeE dest!: IH)
qed

lemma thread_self_same: "thread_self t s = Some (r, s') \<Longrightarrow> owner s = Some t \<and> owner s' = None \<and> threads s' = threads s"
  by (auto simp: thread_self_def split: option.splits elim!: bind_SomeE dest: tree_unlock_same self_loop_same)

lemma start_register_same:
  assumes "start_register m t st s = Some (p, s')"
  shows "owner s = Some t \<and> owner s' = None \<and> threads s' = threads s"
  using assms by (auto simp: start_register_def Let_def elim!: bind_SomeE dest!: wr_rec_same tree_unlock_same)

lemma critical_unlocks:
  assumes "run_critical m t k s = Some s'"
  shows "owner s = Some t \<and> owner s' = None \<and>
    (\<exists>f. threads s' = (threads s)(t := map_option f (threads s t)) \<and> (\<forall>P k. pc (f P) \<noteq> Inside k))"
proof (cases k)
  case (TakeId a p st)
  with assms show ?thesis by (fastforce simp: take_id_def set_pc_def elim!: bind_SomeE dest!: wr_rec_same tree_unlock_same)
next
  case (Register st)
  with assms show ?thesis by (fastforce elim!: bind_SomeE dest!: start_register_same)
next
  case (FindSelf w)
  with assms show ?thesis by (fastforce simp: set_pc_def split: purpose.splits elim!: bind_SomeE dest!: thread_self_same)
next
  case (Remove p c)
  with assms show ?thesis
    by (fastforce simp: remove_thread_def thread_end_def set_pc_def split: continuation.splits elim!: bind_SomeE
      dest!: tree_unlock_same)
qed

definition insiders :: "tstate \<Rightarrow> nat set" where
  "insiders s = {t. \<exists>k. at_pc s t (Inside k)}"

lemma lock_inv_insiders: "lock_inv s \<longleftrightarrow> (\<forall>t. owner s = Some t \<longleftrightarrow> t \<in> insiders s)"
proof -
  have "t \<in> insiders s \<longleftrightarrow> (\<exists>P k. threads s t = Some P \<and> pc P = Inside k)" for t
    by (auto simp: insiders_def at_pc_def)
  then show ?thesis by (simp add: lock_inv_def)
qed

lemma lock_inv_keep: "lock_inv s \<Longrightarrow> owner s' = owner s \<Longrightarrow> insiders s' = insiders s \<Longrightarrow> lock_inv s'"
  by (simp add: lock_inv_insiders)

lemma insiders_same: "threads s' = threads s \<Longrightarrow> insiders s' = insiders s"
  by (simp add: insiders_def at_pc_def)

lemma at_pc_set_pc: "at_pc (set_pc t c s) v d \<longleftrightarrow> (if v = t then threads s t \<noteq> None \<and> c = d else at_pc s v d)"
  by (cases "threads s t") (auto simp: at_pc_def set_pc_def)

lemma insiders_set_pc: "(\<And>k. c \<noteq> Inside k) \<Longrightarrow> insiders (set_pc t c s) = insiders s - {t}"
  by (auto simp: insiders_def at_pc_set_pc split: if_splits)

lemma not_inside: "at_pc s t c \<Longrightarrow> (\<And>k. c \<noteq> Inside k) \<Longrightarrow> insiders s - {t} = insiders s"
  by (auto simp: insiders_def at_pc_def)

lemma owner_set_pc [simp]: "owner (set_pc t c s) = owner s"
  by (simp add: set_pc_def)

text \<open>Every part of a function outside the mutex leaves it alone.\<close>

lemma fill_same: "thread_create_fill a p st s = Some s' \<Longrightarrow> owner s' = owner s \<and> threads s' = threads s"
  by (auto simp: thread_create_fill_def Let_def split: if_splits elim!: bind_SomeE dest!: wr_rec_same)

lemma at_pc_new: "id_free s u \<Longrightarrow> at_pc (new_thread a st u s) v (Inside k) \<longleftrightarrow> at_pc s v (Inside k)"
  by (auto simp: new_thread_def at_pc_def id_free_def)

lemma insiders_new: "id_free s u \<Longrightarrow> insiders (new_thread a st u s) = insiders s"
  by (simp add: insiders_def at_pc_new)

lemma owner_new [simp]: "owner (new_thread a st u s) = owner s"
  by (simp add: new_thread_def)

lemma id_free_same: "threads s' = threads s \<Longrightarrow> id_free s' u = id_free s u"
  by (simp add: id_free_def at_pc_def)

lemma spawn_same:
  assumes "thread_spawn a p st u s = Some s'" "id_free s u"
  shows "owner s' = owner s \<and> insiders s' = insiders s"
proof -
  obtain s1 s2 where s: "thread_create_fill a p st s = Some s1" "wr_rec p (\<lambda>r. r\<lparr>sys_thread := u\<rparr>) s1 = Some s2" "s' = new_thread a st u s2"
    using assms(1) by (auto simp: thread_spawn_def store_id_def elim!: bind_SomeE)
  have t: "owner s2 = owner s" "threads s2 = threads s" using fill_same [OF s(1)] wr_rec_same [OF s(2)] by simp_all
  then show ?thesis using assms(2) by (simp add: s(3) insiders_new id_free_same [OF t(2)] insiders_same [OF t(2)])
qed

lemma spawn_early_same:
  assumes "thread_spawn_early t a p st u s = Some s'" "id_free s u"
  shows "owner s' = owner s \<and> insiders s' = insiders s - {t}"
proof -
  obtain s1 where s: "thread_create_fill a p st s = Some s1" "s' = set_pc t (Storing a p u) (new_thread a st u s1)"
    using assms(1) by (auto simp: thread_spawn_early_def elim!: bind_SomeE)
  have t: "owner s1 = owner s" "threads s1 = threads s" using fill_same [OF s(1)] by simp_all
  then show ?thesis using assms(2) by (simp add: s(2) insiders_set_pc insiders_new id_free_same [OF t(2)] insiders_same [OF t(2)])
qed

lemma owner_return [simp]: "owner (thread_create_return t p det s) = owner s"
  by (simp add: thread_create_return_def)

lemma insiders_return: "insiders (thread_create_return t p det s) = insiders s - {t}"
proof -
  have "insiders (if det then s else s\<lparr>handles := insert p (handles s)\<rparr>) = insiders s" by (rule insiders_same) simp
  then show ?thesis by (simp add: thread_create_return_def insiders_set_pc)
qed

lemma after_create_same: "owner (after_create setname t p a s) = owner s" "insiders (after_create setname t p a s) = insiders s - {t}"
  by (simp_all add: after_create_def insiders_set_pc insiders_return)

lemma end_same: "owner (thread_end t s) = owner s" "insiders (thread_end t s) = insiders s - {t}"
  by (simp_all add: thread_end_def insiders_set_pc)

lemma move_keeps: "lock_inv s \<Longrightarrow> at_pc s t c \<Longrightarrow> (\<And>k. c \<noteq> Inside k) \<Longrightarrow> owner s' = owner s \<Longrightarrow> insiders s' = insiders s - {t} \<Longrightarrow> lock_inv s'"
  using not_inside [of s t c] by (auto intro: lock_inv_keep)

lemma Some_eq_map_option: "Some y = map_option f x \<longleftrightarrow> (\<exists>z. x = Some z \<and> y = f z)"
  by (cases x) auto

lemma tstep_lock_inv:
  assumes "tstep setname L s res" and inv: "lock_inv s" and s': "res = Some s'"
  shows "lock_inv s'"
  using assms(1)
proof cases
  case (lock t k)
  have "insiders s' = insert t (insiders s)" "insiders s = {}" "owner s' = Some t"
    using lock(2-4) s' inv at_pcD [OF lock(3)] by (auto simp: insiders_def at_pc_set_pc lock_inv_insiders at_pc_def set_pc_def)
  then show ?thesis by (auto simp: lock_inv_insiders)
next
  case (critical t k m)
  obtain f where f: "owner s = Some t" "owner s' = None" "threads s' = (threads s)(t := map_option f (threads s t))" "\<forall>P k. pc (f P) \<noteq> Inside k"
    using critical_unlocks critical(2) s' by metis
  then have "insiders s' = insiders s - {t}" by (auto simp: insiders_def at_pc_def split: if_splits)
  with f(1,2) inv show ?thesis by (auto simp: lock_inv_insiders)
next
  case (create t p st a rc s1)
  have "threads s1 = threads s" "owner s1 = owner s" using create by (auto simp: thread_create_alloc_def split: if_splits)
  then show ?thesis using create(2) s' insiders_same [of s1 s] by (intro move_keeps [OF inv create(3)]) (auto simp: insiders_set_pc)
next
  case (create_no_memory t a p st rc s1)
  then have "s1 = s" by (auto simp: thread_create_alloc_def split: if_splits)
  with create_no_memory(2) s' inv show ?thesis by simp
next
  case (spawn t a p st u)
  then obtain s1 where s1: "thread_spawn a p st u s = Some s1" "s' = after_create setname t p a s1"
    using s' by (auto simp: Some_eq_map_option)
  then show ?thesis using spawn_same [OF s1(1) spawn(4)] by (intro move_keeps [OF inv spawn(3)]) (simp_all add: after_create_same)
next
  case (spawn_early t a p st u)
  then show ?thesis using spawn_early_same [of t a p st u s s'] s' by (intro move_keeps [OF inv spawn_early(3)]) simp_all
next
  case (store t a p u)
  then obtain s1 where s1: "wr_rec p (\<lambda>r. r\<lparr>sys_thread := u\<rparr>) s = Some s1" "s' = after_create setname t p a s1"
    using s' by (auto simp: store_id_def Some_eq_map_option)
  then show ?thesis using wr_rec_same [OF s1(1)] insiders_same [of s1 s] by (intro move_keeps [OF inv store(3)]) (simp_all add: after_create_same)
next
  case (spawn_fails t a p st)
  then obtain s1 where s1: "thread_create_fail a p st s = Some s1" "s' = set_pc t Client s1" using s' by (auto simp: Some_eq_map_option)
  then have "owner s1 = owner s \<and> threads s1 = threads s" by (auto simp: thread_create_fail_def elim!: bind_SomeE dest!: fill_same)
  then show ?thesis using s1(2) insiders_same [of s1 s] by (intro move_keeps [OF inv spawn_fails(3)]) (simp_all add: insiders_set_pc)
next
  case (setname t p)
  then obtain d where "s' = thread_create_return t p d s" using s' by (auto simp: Some_eq_map_option)
  then show ?thesis by (intro move_keeps [OF inv setname(3)]) (simp_all add: insiders_return)
next
  case (self t w)
  then show ?thesis using s' by (intro move_keeps [OF inv self(3)]) (simp_all add: insiders_set_pc)
next
  case (rename t r n)
  then obtain s1 p where s1: "wr_rec p (\<lambda>r. r\<lparr>th_name := n\<rparr>) s = Some s1" "s' = set_pc t Client s1"
    using s' by (auto simp: thread_rename_tail_def Some_eq_map_option elim!: bind_SomeE)
  then show ?thesis using wr_rec_same [OF s1(1)] insiders_same [of s1 s] by (intro move_keeps [OF inv rename(3)]) (simp_all add: insiders_set_pc)
next
  case (exit t r)
  then have "thread_exit_tail t r s = Some s'" using s' by simp
  then have "owner s' = owner s \<and> insiders s' = insiders s - {t}"
    by (auto simp: thread_exit_tail_def end_same insiders_set_pc split: option.splits if_splits elim!: bind_SomeE)
  then show ?thesis by (intro move_keeps [OF inv exit(3)]) simp_all
next
  case (return t P p)
  then have "start_return t p s = Some s'" using s' by simp
  then have "owner s' = owner s \<and> insiders s' = insiders s - {t}"
    by (auto simp: start_return_def end_same insiders_set_pc split: if_splits elim!: bind_SomeE)
  then show ?thesis by (intro move_keeps [OF inv return(3)]) simp_all
next
  case (join t p)
  then have "thread_join_begin t p s = Some s'" using s' by simp
  then obtain u where "s' = set_pc t (Joining p u) (s\<lparr>handles := handles s - {p}\<rparr>)"
    by (auto simp: thread_join_begin_def elim!: bind_SomeE)
  then show ?thesis using insiders_same [of "s\<lparr>handles := handles s - {p}\<rparr>" s]
    by (intro move_keeps [OF inv join(3)]) (simp_all add: insiders_set_pc)
next
  case (joined t p u)
  then have "insiders s' = insiders s - {u} - {t}" using s' by (simp add: insiders_set_pc)
  then have "insiders s' = insiders s - {t}" using not_inside [OF joined(4)] by simp
  then show ?thesis using joined(2) s' by (intro move_keeps [OF inv joined(3)]) simp_all
qed

lemma treach_lock_inv: "treach setname E s \<Longrightarrow> lock_inv s"
proof (induction rule: treach.induct)
  case (init mt mr m p junk main now fname mname s)
  then have "owner s = None" "threads s = threads (main_state main)"
    by (auto simp: thread_initialize_def Let_def elim!: bind_SomeE split: prod.splits if_splits)
  then show ?case by (auto simp: lock_inv_def main_state_def split: if_splits)
next
  case (step E s L s')
  then show ?case using tstep_lock_inv by blast
qed

lemma treach_inv: "treach False {} s \<Longrightarrow> \<exists>\<sigma>. tinv s \<sigma>"
proof (induction "{} :: mishap set" s rule: treach.induct)
  case (init mt mr m p junk main now fname mname s)
  then have "m \<noteq> NULL" by (auto simp: node_mishaps_def split: if_splits)
  with initialize_inv [OF init(1)] init(2) show ?case by blast
next
  case (step E s L s')
  then show ?case using tstep_inv by auto
qed

end
