(* ===== verification/Thread_Runs.thy ===== *)
theory Thread_Runs
  imports Thread_Reach
begin

text \<open>
  Runs of the thread library: the start of \<open>main\<close>, the creation of a thread as a whole and a call of \<open>thread_rename\<close>, each
  with the accidents on its way. The runs that end badly in \<open>Thread\<close> are put together from them.
\<close>

section \<open>Creating a thread\<close>

definition new_args :: "int \<Rightarrow> create_args" where
  "new_args det = \<lparr>arg_name = Some ''worker'', arg_file = Some ''main.c'', arg_line = 1, arg_detached = det, arg_time = 0\<rparr>"

text \<open>No thread is between \<open>pthread_join\<close> and the removal of the record, so no system id is stale.\<close>

definition no_remover :: "tstate \<Rightarrow> bool" where
  "no_remover s \<longleftrightarrow> (\<forall>j q. \<not> at_pc s j (Wanting (Remove q ThenClient)) \<and> \<not> at_pc s j (Inside (Remove q ThenClient)))"

lemma no_remover_spawn: "no_remover s \<Longrightarrow> spawn_mishaps s u = {}"
  by (simp add: no_remover_def spawn_mishaps_def stale_def)

lemma treach_move: "treach setname E s \<Longrightarrow> tstep setname {} s (Some s') \<Longrightarrow> treach setname E s'"
  using treach.step [of setname E s "{}" s'] by simp

lemma at_pcI: "threads s t = Some P \<Longrightarrow> pc P = c \<Longrightarrow> at_pc s t c"
  by (simp add: at_pc_def)

text \<open>From the call of \<open>thread_create_c\<close> to the point where the new thread holds the mutex to register itself.\<close>

lemma spawn_run:
  fixes det :: int
  assumes reach: "treach setname E s" and P: "threads s t = Some P" "pc P = Client" and o: "owner s = None"
    and fresh: "p \<noteq> NULL" "st \<noteq> NULL" "recs s p = None" "starts s st = None" "rec_room s"
    and u: "id_free s u" "u \<noteq> t" and nx: "next_thread_id s < 2 ^ 63 - 1"
  shows "\<exists>L s'. treach setname (E \<union> L) s' \<and> L \<subseteq> {Stale_id} \<and> (no_remover s \<longrightarrow> L = {}) \<and> owner s' = Some u \<and>
    recs s' = (recs s)(p \<mapsto> \<lparr>thread_id = next_thread_id s, th_name = Some ''worker'', create_time = 0, th_file = Some ''main.c'',
      th_line = 1, detached = (if det = 0 then 0 else 1), sys_thread = u\<rparr>) \<and>
    starts s' = (starts s)(st \<mapsto> \<lparr>start_thread = p\<rparr>) \<and> next_thread_id s' = next_thread_id s + 1 \<and>
    threads s' = (threads s)(t \<mapsto> P\<lparr>pc := if setname then Created p else Client\<rparr>,
      u \<mapsto> \<lparr>own = None, pc = Inside (Register st), joinable = (det = 0)\<rparr>) \<and>
    handles s' = (if setname \<or> det \<noteq> 0 then handles s else insert p (handles s)) \<and>
    threadtree s' = threadtree s \<and> tnodes s' = tnodes s"
proof -
  let ?a = "new_args det"
  let ?zero = "\<lparr>thread_id = 0, th_name = None, create_time = 0, th_file = Some ''main.c'', th_line = 1, detached = 0, sys_thread = 0\<rparr>"
  let ?r = "\<lparr>thread_id = next_thread_id s, th_name = Some ''worker'', create_time = 0, th_file = Some ''main.c'',
      th_line = 1, detached = (if det = 0 then 0 else 1), sys_thread = u\<rparr>"
  let ?U = "\<lparr>own = None, pc = Wanting (Register st), joinable = (det = 0)\<rparr>"
  define s1 where "s1 = set_pc t (Wanting (TakeId ?a p st)) (fst (thread_create_alloc ?a p st 0 s))"
  have a: "thread_create_alloc ?a p st 0 s = (fst (thread_create_alloc ?a p st 0 s), True)"
    using fresh(1,2) by (simp add: thread_create_alloc_def)
  have r1: "treach setname E s1"
    using treach.step [OF reach tstep.create [OF at_pcI [OF P] fresh a]] by (simp add: s1_def)
  have f1: "recs s1 = (recs s)(p \<mapsto> ?zero)" "starts s1 = (starts s)(st \<mapsto> \<lparr>start_thread = NULL\<rparr>)"
    "threads s1 = (threads s)(t \<mapsto> P\<lparr>pc := Wanting (TakeId ?a p st)\<rparr>)" "owner s1 = None" "next_thread_id s1 = next_thread_id s"
    "handles s1 = handles s" "threadtree s1 = threadtree s" "tnodes s1 = tnodes s"
    using fresh(1,2) P o by (simp_all add: s1_def thread_create_alloc_def set_pc_def new_args_def)
  define s2 where "s2 = set_pc t (Inside (TakeId ?a p st)) (s1\<lparr>owner := Some t\<rparr>)"
  have i1: "at_pc s1 t (Wanting (TakeId ?a p st))" by (simp add: at_pc_def f1)
  have r2: "treach setname E s2" using treach.step [OF r1 tstep.lock [OF i1 f1(4)]] by (simp add: s2_def)
  have f2: "recs s2 = recs s1" "starts s2 = starts s1" "threads s2 = (threads s)(t \<mapsto> P\<lparr>pc := Inside (TakeId ?a p st)\<rparr>)"
    "next_thread_id s2 = next_thread_id s" "handles s2 = handles s" "threadtree s2 = threadtree s" "tnodes s2 = tnodes s"
    "owner s2 = Some t"
    by (simp_all add: s2_def set_pc_def f1)
  have i2: "at_pc s2 t (Inside (TakeId ?a p st))" by (simp add: at_pc_def f2)
  obtain s3 where s3: "run_critical NULL t (TakeId ?a p st) s2 = Some s3"
    and f3: "recs s3 = (recs s)(p \<mapsto> ?zero\<lparr>thread_id := next_thread_id s\<rparr>)" "starts s3 = starts s1"
    "threads s3 = (threads s)(t \<mapsto> P\<lparr>pc := Numbered ?a p st\<rparr>)" "owner s3 = None" "next_thread_id s3 = next_thread_id s + 1"
    "handles s3 = handles s" "threadtree s3 = threadtree s" "tnodes s3 = tnodes s"
    using nx by (simp add: take_id_def wr_rec_def long_succ_def set_pc_def f1 f2)
  have "tstep setname {} s2 (Some s3)"
    using tstep.critical [OF i2, of NULL setname] by (simp add: s3 node_ok_def del: run_critical.simps)
  with r2 have r3: "treach setname E s3" by (rule treach_move)
  have i3: "at_pc s3 t (Numbered ?a p st)" by (simp add: at_pc_def f3)
  have u3: "id_free s3 u" using u by (simp add: id_free_def at_pc_def f3)
  obtain s4 where s4: "map_option (after_create setname t p ?a) (thread_spawn ?a p st u s3) = Some s4"
    and f4: "recs s4 = (recs s)(p \<mapsto> ?r)" "starts s4 = (starts s)(st \<mapsto> \<lparr>start_thread = p\<rparr>)"
    "threads s4 = (threads s)(t \<mapsto> P\<lparr>pc := if setname then Created p else Client\<rparr>, u \<mapsto> ?U)"
    "owner s4 = None" "next_thread_id s4 = next_thread_id s + 1"
    "handles s4 = (if setname \<or> det \<noteq> 0 then handles s else insert p (handles s))"
    "threadtree s4 = threadtree s" "tnodes s4 = tnodes s"
    using u(2) by (cases "det = 0") (simp_all add: thread_spawn_def thread_create_fill_def wr_rec_def Let_def set_pc_def
      store_id_def new_thread_def after_create_def thread_create_return_def new_args_def f1 f3 fun_upd_twist)
  let ?L = "spawn_mishaps s3 u"
  have "tstep setname ?L s3 (Some s4)" unfolding s4 [symmetric] by (rule tstep.spawn [OF i3 u3])
  with r3 have r4: "treach setname (E \<union> ?L) s4" by (rule treach.step)
  have L: "?L \<subseteq> {Stale_id}" "no_remover s \<longrightarrow> ?L = {}"
    using no_remover_spawn [of s3 u] P(1) by (auto simp: spawn_mishaps_def no_remover_def at_pc_def f3)
  define s5 where "s5 = set_pc u (Inside (Register st)) (s4\<lparr>owner := Some u\<rparr>)"
  have i4: "at_pc s4 u (Wanting (Register st))" by (simp add: at_pc_def f4)
  have "treach setname (E \<union> ?L) s5" using treach.step [OF r4 tstep.lock [OF i4 f4(4)]] by (simp add: s5_def)
  with L show ?thesis by (intro exI [of _ ?L] exI [of _ s5]) (simp add: s5_def set_pc_def f4)
qed

lemma insert_finite:
  assumes "avl_holds compare_tkeys (ob, h) xs" "avl_room (ob, h) m" "finite (dom h)" "avl_insert m ob (Some k) h = Some (r, ob', h')"
  shows "finite (dom h')"
proof -
  obtain t where t: "avl_at h (root ob) t" "avl_wf ob t" "keys t = xs" "tcmp ob = compare_tkeys"
    using assms(1) by (auto simp: avl_holds_def avl_repr_def)
  have ko: "key_order (tcmp ob)" unfolding t(4) by (rule tk.key_order_axioms)
  have p: "m \<noteq> NULL" "m \<notin> dom h" "length (keys t) + 1 < 2 ^ 30" using assms(2) t(2) by (auto simp: avl_room_def avl_wf_def)
  have "\<forall>b. b \<notin> insert (root ob) (insert m (set (addrs t))) \<longrightarrow> h' b = h b"
    using avl_insert_at_repr [OF ko t(1,2) p, of k] assms(4) by auto
  then have "dom h' \<subseteq> dom h \<union> insert (root ob) (insert m (set (addrs t)))"
    by (metis (mono_tags, lifting) UnCI domIff subsetI)
  then show ?thesis using assms(3) finite_subset by blast
qed

text \<open>The new thread registers itself and enters its client's routine.\<close>

lemma register_run:
  assumes reach: "treach setname E s" and U: "threads s u = Some U" "pc U = Inside (Register st)" and o: "owner s = Some u"
    and p: "starts s st = Some \<lparr>start_thread = p\<rparr>" "recs s p = Some r" "sys_thread r = u"
    and xs: "registry s xs" "finite (dom (tnodes s))" "length xs + 1 < 2 ^ 30" "\<forall>k\<in>set xs. kid k \<noteq> thread_id r"
  shows "\<exists>s'. treach setname E s' \<and> owner s' = None \<and> threads s' = (threads s)(u \<mapsto> U\<lparr>own := Some p, pc := Client\<rparr>) \<and>
    recs s' = recs s \<and> starts s' = (starts s)(st := None) \<and> registry s' (ins_key compare_tkeys \<lparr>kptr = p, kid = thread_id r\<rparr> xs) \<and>
    next_thread_id s' = next_thread_id s \<and> handles s' = handles s \<and> finite (dom (tnodes s'))"
proof -
  have "finite (insert NULL (dom (tnodes s)))" using xs(2) by simp
  then obtain m where m: "m \<noteq> NULL" "tnodes s m = None" using ex_new_if_finite [OF infinite_UNIV_nat] by (metis domIff insertCI)
  obtain s1 where s1: "start_register m u st s = Some (p, s1)" "registry s1 (ins_key compare_tkeys \<lparr>kptr = p, kid = thread_id r\<rparr> xs)"
      "recs s1 = (recs s)(p \<mapsto> r\<lparr>sys_thread := u\<rparr>)" "starts s1 = (starts s)(st := None)" "threads s1 = threads s"
      "next_thread_id s1 = next_thread_id s" "handles s1 = handles s" "owner s1 = None"
    using register_law [OF xs(1) p(1) _ p(2) m xs(3,4) o] by auto
  have rs: "recs s1 = recs s" using s1(3) p(2,3) by auto
  obtain ob where ob: "threadtree s = Some ob" "avl_holds compare_tkeys (ob, tnodes s) xs" using xs(1) by (auto simp: registry_def)
  have room: "avl_room (ob, tnodes s) m"
    using m xs(3) ob(2) by (auto simp: avl_room_def avl_holds_def avl_repr_def avl_wf_def)
  obtain r1 ob1 where i: "avl_insert m ob (Some \<lparr>kptr = p, kid = thread_id r\<rparr>) (tnodes s) = Some (r1, ob1, tnodes s1)"
    using s1(1) p ob(1) o by (auto simp: start_register_def wr_rec_def key_of_def elim!: bind_SomeE)
  define s2 where "s2 = s1\<lparr>threads := (threads s)(u \<mapsto> U\<lparr>own := Some p, pc := Client\<rparr>)\<rparr>"
  have c: "run_critical m u (Register st) s = Some s2"
    using s1(1) U(1) by (simp add: s2_def s1(5))
  have "node_ok s m" "critical_mishaps m (Register st) = {}" using m by (simp_all add: node_ok_def node_mishaps_def)
  then have "tstep setname {} s (Some s2)"
    using tstep.critical [OF at_pcI [OF U], of m setname] by (simp only: c)
  with reach have "treach setname E s2" by (rule treach_move)
  then show ?thesis
    using s1(2) registry_cong [of s2 s1] insert_finite [OF ob(2) room xs(2) i]
    by (intro exI [of _ s2]) (simp add: s2_def s1(2,4-8) rs)
qed

lemma ins_key_last: "\<forall>k'\<in>set xs. kid k' < kid k \<Longrightarrow> ins_key compare_tkeys k xs = xs @ [k]"
  by (induction xs) (auto simp: compare_tkeys_def)

text \<open>The whole creation: the id is the next one, the record is the last of the registry.\<close>

definition fresh_state :: "tstate \<Rightarrow> tkey list \<Rightarrow> bool" where
  "fresh_state s xs \<longleftrightarrow> owner s = None \<and> registry s xs \<and> (\<forall>k\<in>set xs. kid k < next_thread_id s) \<and> finite (dom (tnodes s))"

lemma create_run:
  fixes det :: int
  assumes reach: "treach setname E s" and P: "threads s t = Some P" "pc P = Client" and f: "fresh_state s xs" "length xs + 1 < 2 ^ 30"
    and fresh: "p \<noteq> NULL" "st \<noteq> NULL" "recs s p = None" "starts s st = None" "rec_room s"
    and u: "id_free s u" "u \<noteq> t" and nx: "next_thread_id s < 2 ^ 63 - 1"
  shows "\<exists>L s'. treach setname (E \<union> L) s' \<and> L \<subseteq> {Stale_id} \<and> (no_remover s \<longrightarrow> L = {}) \<and> fresh_state s' (xs @ [\<lparr>kptr = p, kid = next_thread_id s\<rparr>]) \<and>
    recs s' = (recs s)(p \<mapsto> \<lparr>thread_id = next_thread_id s, th_name = Some ''worker'', create_time = 0, th_file = Some ''main.c'',
      th_line = 1, detached = (if det = 0 then 0 else 1), sys_thread = u\<rparr>) \<and>
    starts s' = starts s \<and> next_thread_id s' = next_thread_id s + 1 \<and>
    threads s' = (threads s)(t \<mapsto> P\<lparr>pc := if setname then Created p else Client\<rparr>,
      u \<mapsto> \<lparr>own = Some p, pc = Client, joinable = (det = 0)\<rparr>) \<and>
    handles s' = (if setname \<or> det \<noteq> 0 then handles s else insert p (handles s))"
proof -
  let ?r = "\<lparr>thread_id = next_thread_id s, th_name = Some ''worker'', create_time = 0, th_file = Some ''main.c'',
      th_line = 1, detached = (if det = 0 then 0 else 1), sys_thread = u\<rparr>"
  have o: "owner s = None" and xs: "registry s xs" "\<forall>k\<in>set xs. kid k < next_thread_id s" "finite (dom (tnodes s))"
    using f(1) by (simp_all add: fresh_state_def)
  obtain L s1 where L: "L \<subseteq> {Stale_id}" "no_remover s \<longrightarrow> L = {}"
    and s1: "treach setname (E \<union> L) s1" "owner s1 = Some u" "recs s1 = (recs s)(p \<mapsto> ?r)"
    "starts s1 = (starts s)(st \<mapsto> \<lparr>start_thread = p\<rparr>)" "next_thread_id s1 = next_thread_id s + 1"
    "threads s1 = (threads s)(t \<mapsto> P\<lparr>pc := if setname then Created p else Client\<rparr>,
      u \<mapsto> \<lparr>own = None, pc = Inside (Register st), joinable = (det = 0)\<rparr>)"
    "handles s1 = (if setname \<or> det \<noteq> 0 then handles s else insert p (handles s))"
    "threadtree s1 = threadtree s" "tnodes s1 = tnodes s"
    using spawn_run [OF reach P o fresh u nx, of det] by (elim exE conjE) (rule that, assumption+)
  have k: "ins_key compare_tkeys \<lparr>kptr = p, kid = thread_id ?r\<rparr> xs = xs @ [\<lparr>kptr = p, kid = next_thread_id s\<rparr>]"
    using xs(2) by (simp add: ins_key_last)
  have "\<exists>s'. treach setname (E \<union> L) s' \<and> owner s' = None \<and> threads s' = (threads s1)(u \<mapsto>
        \<lparr>own = None, pc = Inside (Register st), joinable = (det = 0)\<rparr>\<lparr>own := Some p, pc := Client\<rparr>) \<and> recs s' = recs s1 \<and>
      starts s' = (starts s1)(st := None) \<and> registry s' (ins_key compare_tkeys \<lparr>kptr = p, kid = thread_id ?r\<rparr> xs) \<and>
      next_thread_id s' = next_thread_id s1 \<and> handles s' = handles s1 \<and> finite (dom (tnodes s'))"
  proof (rule register_run [OF s1(1)])
    show "registry s1 xs" using xs(1) registry_cong [OF s1(8,9)] by simp
    show "\<forall>k\<in>set xs. kid k \<noteq> thread_id ?r" using xs(2) by auto
  qed (use s1 f(2) xs(3) in auto)
  then obtain s2 where s2: "treach setname (E \<union> L) s2" "owner s2 = None" "threads s2 = (threads s1)(u \<mapsto>
        \<lparr>own = None, pc = Inside (Register st), joinable = (det = 0)\<rparr>\<lparr>own := Some p, pc := Client\<rparr>)" "recs s2 = recs s1"
      "starts s2 = (starts s1)(st := None)" "registry s2 (xs @ [\<lparr>kptr = p, kid = next_thread_id s\<rparr>])"
      "next_thread_id s2 = next_thread_id s1" "handles s2 = handles s1" "finite (dom (tnodes s2))"
    unfolding k by blast
  have "starts s2 = starts s" using s2(5) s1(4) fresh(4) by auto
  moreover have "fresh_state s2 (xs @ [\<lparr>kptr = p, kid = next_thread_id s\<rparr>])"
    using s2 s1(5) xs(2) by (auto simp: fresh_state_def)
  ultimately show ?thesis using L s2 s1 by (intro exI [of _ L] exI [of _ s2]) simp
qed

text \<open>The state in which \<open>main\<close>, system thread 1, starts: its record is at address 10.\<close>

definition main_record :: thread_type where
  "main_record = \<lparr>thread_id = 0, th_name = Some ''Main Thread'', create_time = 0, th_file = Some ''main.c'', th_line = 0,
     detached = 0, sys_thread = 1\<rparr>"

lemma init_run:
  "\<exists>s. treach setname {} s \<and> fresh_state s [\<lparr>kptr = 10, kid = 0\<rparr>] \<and> recs s = [10 \<mapsto> main_record] \<and> starts s = (\<lambda>_. None) \<and>
    next_thread_id s = 1 \<and> threads s = [1 \<mapsto> \<lparr>own = None, pc = Client, joinable = True\<rparr>] \<and> handles s = {} \<and> initialized s = 1 \<and>
    trees s = [tree_at s \<mapsto> Live rw_free]"
proof -
  obtain s where s: "thread_initialize 1 2 3 10 0 1 0 (Some ''main.c'') (Some ''Main Thread'') (main_state 1) = Some s"
    "registry s [\<lparr>kptr = 10, kid = 0\<rparr>]" "next_thread_id s = 1" "recs s = [10 \<mapsto> main_record]" "starts s = (\<lambda>_. None)"
    "threads s = [1 \<mapsto> \<lparr>own = None, pc = Client, joinable = True\<rparr>]" "handles s = {}" "owner s = None" "initialized s = 1" "trees s = [tree_at s \<mapsto> Live rw_free]"
    using initialize_law [of 1 2 3 10 "main_state 1" 0 1 0 "Some ''main.c''" "Some ''Main Thread''"]
    by (auto simp: main_state_def zero_state_def main_record_def)
  have "treach setname {} s" using treach.init [OF s(1), of setname] by (simp add: node_mishaps_def)
  moreover have "finite (dom (tnodes s))"
  proof -
    obtain ob h where ob: "avl_tree_new compare_threads () 1 2 (\<lambda>_. None) (\<lambda>_. None) = (Some ob, h, [1 \<mapsto> Live rw_free])"
      "avl_holds compare_tkeys (ob, h) []" "len ob = 0"
      "h = [2 \<mapsto> \<lparr>key = None, left = NULL, right = NULL, parent = NULL, rank_and_balance = AVL_SET_RANK (AVL_SET_BALANCE 0 0) 1\<rparr>]"
      using new_tree_holds [of 1 2 "\<lambda>_. None" "\<lambda>_. None"] by auto
    have room: "avl_room (ob, h) 3" using ob(3,4) by (simp add: avl_room_def)
    obtain r ob' where "avl_insert 3 ob (Some \<lparr>kptr = 10, kid = 0\<rparr>) h = Some (r, ob', tnodes s)"
      using s(1) ob(1) by (auto simp: thread_initialize_def main_state_def zero_state_def long_succ_def Let_def elim!: bind_SomeE)
    from insert_finite [OF ob(2) room _ this] show ?thesis using ob(4) by simp
  qed
  ultimately show ?thesis using s by (auto simp: fresh_state_def)
qed

text \<open>A call of \<open>thread_rename\<close> up to its use of the result of \<open>thread_self\<close>.\<close>

lemma rename_run:
  assumes reach: "treach setname E s" and P: "threads s t = Some P" "pc P = Client" and o: "owner s = None"
    and xs: "registry s xs" "\<forall>k\<in>set xs. recs s (kptr k) \<noteq> None"
  shows "\<exists>s'. treach setname E s' \<and> at_pc s' t (Renaming (map_option kptr (List.find (is_sys s t) xs)) n)"
proof -
  let ?w = "FindSelf (ForRename n)"
  define s1 where "s1 = set_pc t (Wanting ?w) s"
  have "tstep setname {} s (Some s1)" unfolding s1_def by (rule tstep.self [OF at_pcI [OF P]])
  with reach have r1: "treach setname E s1" by (rule treach_move)
  define s2 where "s2 = set_pc t (Inside ?w) (s1\<lparr>owner := Some t\<rparr>)"
  have w: "at_pc s1 t (Wanting ?w)" "owner s1 = None" using P o by (simp_all add: s1_def at_pc_def set_pc_def)
  have "tstep setname {} s1 (Some s2)" unfolding s2_def by (rule tstep.lock [OF w])
  with r1 have r2: "treach setname E s2" by (rule treach_move)
  have f: "recs s2 = recs s" "threadtree s2 = threadtree s" "tnodes s2 = tnodes s" "at_pc s2 t (Inside ?w)" "owner s2 = Some t"
    using P by (simp_all add: s2_def s1_def set_pc_def at_pc_def)
  have "registry s2 xs" using xs(1) registry_cong [OF f(2,3)] by simp
  moreover have "is_sys s2 t = is_sys s t" using f(1) by (auto simp: is_sys_def)
  ultimately have self: "thread_self t s2 = Some (map_option kptr (List.find (is_sys s t) xs), s2\<lparr>owner := None\<rparr>)"
    using thread_self_find [of s2 xs t] xs(2) f(1,5) by simp
  let ?s3 = "set_pc t (Renaming (map_option kptr (List.find (is_sys s t) xs)) n) (s2\<lparr>owner := None\<rparr>)"
  have "tstep setname {} s2 (Some ?s3)" using tstep.critical [OF f(4), of NULL setname] by (simp add: self node_ok_def)
  with r2 have "treach setname E ?s3" by (rule treach_move)
  moreover have "at_pc ?s3 t (Renaming (map_option kptr (List.find (is_sys s t) xs)) n)"
    using at_pcD [OF f(4)] by (auto simp: at_pc_def set_pc_def)
  ultimately show ?thesis by blast
qed

end
