(* ===== verification/Thread_Races.thy ===== *)
theory Thread_Races
  imports Thread_Runs
begin

text \<open>
  Data races on the thread records. The steps of the system are atomic; where a step accesses a record without the mutex, and
  another thread may access the same field of the same record next, one of them writing, the program has a data race.
  Creating, joining and the mutex order the accesses of different threads; the invariant shows that they do, up to one race.
\<close>

section \<open>Accesses\<close>

text \<open>The fields that are accessed after a record was allocated (\<open>Rec_name\<close> for those that only the thread itself uses).\<close>

datatype rec_field = Rec_id | Rec_name | Rec_detached | Rec_sys

text \<open>A record in the tree: every search and insertion may compare its id, and \<open>thread_self\<close> reads its system id.\<close>

definition keyed :: "tstate \<Rightarrow> addr \<Rightarrow> bool" where
  "keyed s p \<longleftrightarrow> (\<forall>xs. registry s xs \<longrightarrow> (\<exists>k\<in>set xs. kptr k = p))"

definition started_with :: "tstate \<Rightarrow> addr \<Rightarrow> addr \<Rightarrow> bool" where
  "started_with s st p \<longleftrightarrow> starts s st = Some \<lparr>start_thread = p\<rparr>"

text \<open>What the next step of a thread (with its variable \<open>thread\<close>, at its place) may access: the field \<open>f\<close> of record \<open>p\<close>, to write
  it or to read it. To free a record counts as writing all of it. A client may join what it has a handle of, or return.\<close>

fun touches :: "tstate \<Rightarrow> addr option \<Rightarrow> tpc \<Rightarrow> addr \<Rightarrow> rec_field \<Rightarrow> bool \<Rightarrow> bool" where
  "touches s th Client p f w \<longleftrightarrow> \<not> w \<and> (p \<in> handles s \<and> f = Rec_sys \<or> th = Some p \<and> f = Rec_detached)"
| "touches s th (Inside (TakeId a q st)) p f w \<longleftrightarrow> q = p \<and> f = Rec_id \<and> w"
| "touches s th (Inside (Register st)) p f w \<longleftrightarrow>
     started_with s st p \<and> (f = Rec_sys \<and> w \<or> f = Rec_id \<and> \<not> w) \<or> keyed s p \<and> f = Rec_id \<and> \<not> w"
| "touches s th (Inside (FindSelf v)) p f w \<longleftrightarrow> keyed s p \<and> f = Rec_sys \<and> \<not> w"
| "touches s th (Inside (Remove q c)) p f w \<longleftrightarrow> q = p \<and> w \<or> keyed s p \<and> f = Rec_id \<and> \<not> w"
| "touches s th (Numbered a q st) p f w \<longleftrightarrow> q = p \<and> w"
| "touches s th (Storing a q u) p f w \<longleftrightarrow> q = p \<and> f = Rec_sys \<and> w"
| "touches s th (Created q) p f w \<longleftrightarrow> q = p \<and> f = Rec_sys \<and> \<not> w"
| "touches s th (Renaming r n) p f w \<longleftrightarrow> r = Some p \<and> f = Rec_name \<and> w"
| "touches s th (Exiting r) p f w \<longleftrightarrow> r = Some p \<and> f = Rec_detached \<and> \<not> w"
| "touches s th c p f w \<longleftrightarrow> False"

definition in_section :: "tpc \<Rightarrow> bool" where
  "in_section c \<longleftrightarrow> (case c of Inside k \<Rightarrow> True | _ \<Rightarrow> False)"

text \<open>Threads \<open>t\<close> and \<open>u\<close> race for a field: both may access it next, \<open>u\<close> writes it, and they do not both hold the mutex.\<close>

definition record_race :: "tstate \<Rightarrow> nat \<Rightarrow> nat \<Rightarrow> addr \<Rightarrow> rec_field \<Rightarrow> bool" where
  "record_race s t u p f \<longleftrightarrow> t \<noteq> u \<and> (\<exists>P Q w. threads s t = Some P \<and> threads s u = Some Q \<and>
     touches s (own P) (pc P) p f w \<and> touches s (own Q) (pc Q) p f True \<and> \<not> (in_section (pc P) \<and> in_section (pc Q)))"

section \<open>The only race\<close>

lemma keyed_registered:
  assumes "tinv s \<sigma>" "keyed s p"
  shows "\<exists>ph. \<sigma> p = Some ph \<and> registered ph"
proof -
  obtain xs where xs: "registry s xs"
    "\<And>k. k \<in> set xs \<longleftrightarrow> (\<exists>ph r. \<sigma> (kptr k) = Some ph \<and> registered ph \<and> recs s (kptr k) = Some r \<and> kid k = thread_id r)"
    by (rule reg_invE [OF tinvD(6) [OF assms(1)]]) (rule that)
  then obtain k where "k \<in> set xs" "kptr k = p" using assms(2) by (auto simp: keyed_def)
  with xs(2) show ?thesis by blast
qed

lemma starting_phase:
  assumes inv: "tinv s \<sigma>" and P: "threads s t = Some P" "pc P = Inside (Register st)" and p: "started_with s st p"
  shows "\<sigma> p = Some (PStarting t st)"
proof -
  obtain q where q: "\<sigma> q = Some (PStarting t st)" using tinvD(1) [OF inv P(1)] P(2) by auto
  obtain r where "phase_inv s q r (PStarting t st)" using rec_inv_phase [OF tinvD(2) [OF inv] q] by metis
  with p q show ?thesis by (simp add: started_with_def)
qed

text \<open>Who accesses a record is responsible for it, or holds the mutex and it is registered, or joins it.\<close>

lemma toucher:
  assumes inv: "tinv s \<sigma>" and P: "threads s t = Some P" and t: "touches s (own P) (pc P) p f w"
  shows "(\<exists>ph. \<sigma> p = Some ph \<and> agent ph = t) \<or>
    (\<exists>ph. \<sigma> p = Some ph \<and> registered ph \<and> in_section (pc P) \<and> f \<in> {Rec_id, Rec_sys}) \<or>
    (pc P = Client \<and> p \<in> handles s \<and> f = Rec_sys \<and> (\<exists>v. can_join s \<sigma> p v))"
proof -
  have pi: "pc_inv s \<sigma> t P (pc P)" by (rule tinvD(1) [OF inv P])
  have key: "keyed s p \<Longrightarrow> \<exists>ph. \<sigma> p = Some ph \<and> registered ph" by (rule keyed_registered [OF inv])
  show ?thesis
  proof (cases "pc P")
    case Client
    with pi t show ?thesis using join_invD(1) [OF tinvD(5) [OF inv], of p] by (auto simp: mine_def)
  next
    case (Inside k)
    show ?thesis
    proof (cases k)
      case (Register st)
      with t Inside show ?thesis using starting_phase [OF inv P, of st p] key by (auto simp: in_section_def)
    next
      case (Remove q c)
      with pi t Inside key show ?thesis by (cases c) (auto simp: in_section_def)
    qed (use pi t Inside key in \<open>auto simp: in_section_def\<close>)
  qed (use pi t in auto)
qed

lemma writer:
  assumes inv: "tinv s \<sigma>" and Q: "threads s u = Some Q" and t: "touches s (own Q) (pc Q) p f True"
  shows "\<exists>ph. \<sigma> p = Some ph \<and> agent ph = u \<and> (registered ph \<longrightarrow> in_section (pc Q) \<or> f = Rec_name) \<and>
    (\<forall>v. can_join s \<sigma> p v \<longrightarrow> f = Rec_name \<or> (\<exists>st. pc Q = Inside (Register st) \<and> started_with s st p))"
proof -
  have pi: "pc_inv s \<sigma> u Q (pc Q)" by (rule tinvD(1) [OF inv Q])
  show ?thesis
  proof (cases "pc Q")
    case (Inside k)
    show ?thesis
    proof (cases k)
      case (Register st)
      with t Inside show ?thesis using starting_phase [OF inv Q, of st p] by (auto simp: in_section_def)
    next
      case (Remove q c)
      with pi t Inside show ?thesis by (cases c) (auto simp: in_section_def can_join_def)
    qed (use pi t Inside in \<open>auto simp: in_section_def can_join_def\<close>)
  qed (use pi t in \<open>auto simp: can_join_def\<close>)
qed

lemma race_only_join:
  assumes inv: "tinv s \<sigma>" and race: "record_race s t u p f"
  shows "f = Rec_sys \<and> at_pc s t Client \<and> p \<in> handles s \<and> (\<exists>st. at_pc s u (Inside (Register st)) \<and> started_with s st p)"
proof -
  obtain P Q w where P: "threads s t = Some P" and Q: "threads s u = Some Q" and r: "touches s (own P) (pc P) p f w"
    "touches s (own Q) (pc Q) p f True" "\<not> (in_section (pc P) \<and> in_section (pc Q))" "t \<noteq> u"
    using race by (auto simp: record_race_def)
  obtain ph where ph: "\<sigma> p = Some ph" "agent ph = u" "registered ph \<longrightarrow> in_section (pc Q) \<or> f = Rec_name"
    "\<forall>v. can_join s \<sigma> p v \<longrightarrow> f = Rec_name \<or> (\<exists>st. pc Q = Inside (Register st) \<and> started_with s st p)"
    using writer [OF inv Q r(2)] by blast
  have "pc P = Client \<and> p \<in> handles s \<and> f = Rec_sys \<and> (\<exists>v. can_join s \<sigma> p v)"
    using toucher [OF inv P r(1)] ph(1-3) r(3,4) by auto
  with ph(4) P Q show ?thesis by (auto simp: at_pc_def)
qed

end
