(* ===== verification/Thread.thy ===== *)
theory Thread
  imports Thread_Races
begin

text \<open>
  The properties of the thread library: no step is undefined, the registry holds what it should, a thread finds its own
  record, the mutex is exclusive and is always released, records are not lost, and shutting down frees what is
  registered. Most of them are about runs without an accident (\<open>treach False {}\<close>): every registration had memory for its tree
  node, no system id was given to a new thread while the record of its former, joined thread was still registered, and
  \<open>pthread_create\<close> stored the id before the new thread started. The runs at the end show what can happen without memory for a
  node, with a stale id, and in builds that use \<open>pthread_setname_np\<close>.
\<close>

section \<open>Example states\<close>

text \<open>The state after \<open>main\<close> has created a thread with record 11 and system id 2.\<close>

definition worker_record :: "int \<Rightarrow> thread_type" where
  "worker_record det = \<lparr>thread_id = 1, th_name = Some ''worker'', create_time = 0, th_file = Some ''main.c'', th_line = 1,
     detached = (if det = 0 then 0 else 1), sys_thread = 2\<rparr>"

lemma two_threads:
  "\<exists>s. treach setname {} s \<and> fresh_state s [\<lparr>kptr = 10, kid = 0\<rparr>, \<lparr>kptr = 11, kid = 1\<rparr>] \<and>
    recs s = [10 \<mapsto> main_record, 11 \<mapsto> worker_record det] \<and> next_thread_id s = 2 \<and> starts s = (\<lambda>_. None) \<and>
    threads s = [1 \<mapsto> \<lparr>own = None, pc = if setname then Created 11 else Client, joinable = True\<rparr>,
      2 \<mapsto> \<lparr>own = Some 11, pc = Client, joinable = (det = 0)\<rparr>] \<and>
    handles s = (if setname \<or> det \<noteq> 0 then {} else {11})"
proof -
  obtain s where s: "treach setname {} s" "fresh_state s [\<lparr>kptr = 10, kid = 0\<rparr>]" "recs s = [10 \<mapsto> main_record]" "starts s = (\<lambda>_. None)"
    "next_thread_id s = 1" "threads s = [1 \<mapsto> \<lparr>own = None, pc = Client, joinable = True\<rparr>]" "handles s = {}"
    using init_run [of setname] by blast
  have p: "threads s 1 = Some \<lparr>own = None, pc = Client, joinable = True\<rparr>" "recs s 11 = None" "starts s 20 = None" "rec_room s"
    "id_free s 2" "next_thread_id s < 2 ^ 63 - 1" "no_remover s"
    using s by (auto simp: rec_room_def id_free_def no_remover_def at_pc_def)
  show ?thesis
    using create_run [OF s(1) p(1) _ s(2) _ _ _ p(2-5) _ p(6), of det] s(3-7) p(7) by (auto simp: worker_record_def)
qed

section \<open>Reachable states\<close>

text \<open>C12: no step of the thread library goes wrong. After every run without an accident, whatever the threads do and however
  their steps interleave, the next step, if it has none either, is defined: every access is to a live record, no record
  is freed twice, and the mutex is unlocked by its owner. And the only data race on a record is that of \<open>thread_join\<close>, which reads
  the system id while the thread to be joined may be writing it. The other conditions: the build does not name threads with
  \<open>pthread_setname_np\<close>, fewer than \<open>2 ^ 63 - 1\<close> ids were given out, and clients join each joinable thread at most once.\<close>

theorem thread_steps_defined:
  assumes "treach False {} s" and "next_thread_id s < 2 ^ 63 - 1"
  shows "(\<forall>res. tstep False {} s res \<longrightarrow> res \<noteq> None) \<and>
    (\<forall>t u p f. record_race s t u p f \<longrightarrow> f = Rec_sys \<and> at_pc s t Client \<and> p \<in> handles s \<and>
       (\<exists>st. at_pc s u (Inside (Register st)) \<and> started_with s st p))"
proof -
  obtain \<sigma> where inv: "tinv s \<sigma>" using treach_inv [OF assms(1)] by blast
  show ?thesis using tstep_inv [OF _ inv] race_only_join [OF inv] assms(2) by blast
qed

theorem thread_steps_defined_witness:
  "\<exists>s. treach False {} s \<and> next_thread_id s < 2 ^ 63 - 1 \<and> 11 \<in> handles s \<and>
     tstep False {} s (thread_join_begin 1 11 s) \<and> thread_join_begin 1 11 s \<noteq> None"
proof -
  obtain s where s: "treach False {} s" "next_thread_id s = 2" "handles s = {11}" "at_pc s 1 Client"
    using two_threads [of False 0] by (auto simp: at_pc_def)
  have j: "tstep False {} s (thread_join_begin 1 11 s)" by (rule tstep.join [OF s(4)]) (simp add: s(3))
  have "next_thread_id s < 2 ^ 63 - 1" using s(2) by simp
  with thread_steps_defined [OF s(1)] s j show ?thesis by blast
qed

text \<open>That race exists: \<open>main\<close> may join a thread that is about to write its own system id under the mutex.\<close>

theorem thread_join_race:
  "\<exists>s. treach False {} s \<and> record_race s 1 2 11 Rec_sys"
proof -
  let ?P = "\<lparr>own = None, pc = Client, joinable = True\<rparr>"
  obtain s where s: "treach False {} s" "owner s = None" "recs s = [10 \<mapsto> main_record]" "starts s = (\<lambda>_. None)"
    "next_thread_id s = 1" "threads s = [1 \<mapsto> ?P]"
    using init_run [of False] by (auto simp: fresh_state_def)
  have f: "threads s 1 = Some ?P" "recs s 11 = None" "starts s 20 = None" "rec_room s" "id_free s 2" "next_thread_id s < 2 ^ 63 - 1"
    "no_remover s"
    using s by (auto simp: rec_room_def id_free_def no_remover_def at_pc_def)
  obtain s1 where s1: "treach False {} s1" "starts s1 20 = Some \<lparr>start_thread = 11\<rparr>" "handles s1 = insert 11 (handles s)"
    "threads s1 = [1 \<mapsto> ?P, 2 \<mapsto> \<lparr>own = None, pc = Inside (Register 20), joinable = True\<rparr>]"
    using spawn_run [OF s(1) f(1) _ s(2) _ _ f(2-5) _ f(6), of 0] s(3-6) f(7) by auto
  then have "touches s1 None Client 11 Rec_sys False" by simp
  then have "record_race s1 1 2 11 Rec_sys"
    using s1(2,4) by (auto simp: record_race_def started_with_def in_section_def simp del: touches.simps(1))
  with s1(1) show ?thesis by blast
qed

text \<open>C13: the registry. After every run without an accident the tree is a well-formed search tree whose ids ascend and are below the
  next one; every key points to a live record with its id, of a thread that exists; and every thread in client code has
  exactly one record in the tree that carries its system id.\<close>

theorem thread_registry_invariant:
  assumes "treach False {} s"
  shows "\<exists>xs. registry s xs \<and> sorted_wrt (<) (map kid xs) \<and> distinct (map kptr xs) \<and>
    (\<forall>k\<in>set xs. \<exists>r. recs s (kptr k) = Some r \<and> thread_id r = kid k \<and> kid k < next_thread_id s \<and>
       threads s (sys_thread r) \<noteq> None) \<and>
    (\<forall>t. at_pc s t Client \<longrightarrow> (\<exists>!k. k \<in> set xs \<and> is_sys s t k))"
proof -
  obtain \<sigma> where inv: "tinv s \<sigma>" using treach_inv [OF assms] by blast
  obtain xs where xs: "registry s xs"
    "\<And>k. k \<in> set xs \<longleftrightarrow> (\<exists>ph r. \<sigma> (kptr k) = Some ph \<and> registered ph \<and> recs s (kptr k) = Some r \<and> kid k = thread_id r)"
    by (rule reg_invE [OF tinvD(6) [OF inv]]) (rule that)
  have "inj_on kptr (set xs)" by (rule inj_onI) (use xs(2) in \<open>auto intro!: tkey.equality\<close>)
  then have d: "distinct (map kptr xs)" using registry_distinct [OF xs(1)] by (simp add: distinct_map)
  have k: "\<exists>r. recs s (kptr k) = Some r \<and> thread_id r = kid k \<and> kid k < next_thread_id s \<and> threads s (sys_thread r) \<noteq> None"
    if k: "k \<in> set xs" for k
  proof -
    obtain ph r where ph: "\<sigma> (kptr k) = Some ph" "registered ph" "recs s (kptr k) = Some r" "kid k = thread_id r"
      using xs(2) k by blast
    have "phase_inv s (kptr k) r ph" using rec_inv_phase [OF tinvD(2) [OF inv] ph(1)] ph(3) by auto
    then have "threads s (sys_thread r) \<noteq> None" using ph(2) by (cases ph) auto
    with ids_invD(1) [OF tinvD(3) [OF inv] ph(1,3) registered_id [OF ph(2)]] ph(3,4) show ?thesis by simp
  qed
  have c: "\<exists>!k. k \<in> set xs \<and> is_sys s t k" if t: "at_pc s t Client" for t
  proof -
    obtain P where P: "threads s t = Some P" "pc P = Client" using at_pcD [OF t] by blast
    then obtain p where p: "\<sigma> p = Some (PActive t)" using tinvD(1) [OF inv P(1)] by (auto simp: mine_def)
    obtain r where r: "recs s p = Some r" "phase_inv s p r (PActive t)" by (rule rec_inv_phase [OF tinvD(2) [OF inv] p])
    have "k = \<lparr>kptr = p, kid = thread_id r\<rparr>" if "k \<in> set xs" "is_sys s t k" for k
      using registered_own [OF inv p, of k] xs(2) that r(1) by (auto simp: is_sys_def tkey_eq)
    moreover have "\<lparr>kptr = p, kid = thread_id r\<rparr> \<in> set xs" "is_sys s t \<lparr>kptr = p, kid = thread_id r\<rparr>"
      using xs(2) p r by (auto simp: is_sys_def)
    ultimately show ?thesis by blast
  qed
  show ?thesis using xs(1) d k c by (intro exI [of _ xs]) (simp add: registry_def uniq_ids)
qed

theorem thread_registry_invariant_witness:
  "\<exists>s. treach False {} s \<and> at_pc s 2 Client \<and>
     (\<exists>xs. registry s xs \<and> sorted_wrt (<) (map kid xs) \<and> (\<exists>!k. k \<in> set xs \<and> is_sys s 2 k))"
proof -
  obtain s where s: "treach False {} s" "at_pc s 2 Client"
    using two_threads [of False 0] by (auto simp: at_pc_def)
  with thread_registry_invariant [OF s(1)] show ?thesis by blast
qed

text \<open>C20: \<open>thread_self\<close> is right: after every run without an accident a thread that has started and has not ended finds, when it
  has the mutex, a record with its own system id, this is the record that its \<open>_start_routine\<close> was given, and the mutex is free
  afterwards.\<close>

theorem thread_self_correct:
  assumes "treach False {} s" and "threads s t = Some P" and "running (pc P)"
  shows "\<exists>p r. thread_self t (s\<lparr>owner := Some t\<rparr>) = Some (Some p, s\<lparr>owner := None\<rparr>) \<and> recs s p = Some r \<and> sys_thread r = t \<and>
    (\<forall>q. own P = Some q \<longrightarrow> q = p)"
proof -
  obtain \<sigma> where inv: "tinv s \<sigma>" using treach_inv [OF assms(1)] by blast
  have "pc_inv s \<sigma> t P (pc P)" by (rule tinvD(1) [OF inv assms(2)])
  then have "mine \<sigma> t P" using assms(3) by (cases "pc P" rule: running.cases) (auto elim: crit_inv.elims)
  then obtain p where p: "\<sigma> p = Some (PActive t)" "own P = None \<or> own P = Some p" by (auto simp: mine_def)
  obtain r where "recs s p = Some r" "phase_inv s p r (PActive t)" by (rule rec_inv_phase [OF tinvD(2) [OF inv] p(1)])
  with thread_self_own [OF inv p(1)] p(2) show ?thesis by auto
qed

theorem thread_self_correct_witness:
  "\<exists>s P. treach False {} s \<and> threads s 2 = Some P \<and> running (pc P) \<and>
     own P = Some 11 \<and> thread_self 2 (s\<lparr>owner := Some 2\<rparr>) = Some (Some 11, s\<lparr>owner := None\<rparr>)"
proof -
  obtain s where s: "treach False {} s" "threads s 2 = Some \<lparr>own = Some 11, pc = Client, joinable = True\<rparr>"
    using two_threads [of False 0] by auto
  with thread_self_correct [OF s(1,2)] show ?thesis by auto
qed

text \<open>The loop of \<open>thread_self\<close> over the tree nodes ends and is a linear search in the list of registered keys, in the
  order of the ids, for the first record with the system id of the caller.\<close>

theorem thread_self_search:
  assumes "registry s xs" and "\<forall>k\<in>set xs. recs s (kptr k) \<noteq> None" and "owner s = Some t"
  shows "thread_self t s = Some (map_option kptr (List.find (is_sys s t) xs), s\<lparr>owner := None\<rparr>)"
  by (rule thread_self_find [OF assms])

theorem thread_self_search_witness:
  "\<exists>s. registry s [\<lparr>kptr = 10, kid = 0\<rparr>, \<lparr>kptr = 11, kid = 1\<rparr>] \<and> recs s 10 \<noteq> None \<and> recs s 11 \<noteq> None \<and> owner s = Some 2 \<and>
     thread_self 2 s = Some (Some 11, s\<lparr>owner := None\<rparr>)"
proof -
  obtain s where s: "registry s [\<lparr>kptr = 10, kid = 0\<rparr>, \<lparr>kptr = 11, kid = 1\<rparr>]" "recs s = [10 \<mapsto> main_record, 11 \<mapsto> worker_record 0]"
    using two_threads [of False 0] by (auto simp: fresh_state_def)
  let ?s = "s\<lparr>owner := Some 2\<rparr>"
  have r: "registry ?s [\<lparr>kptr = 10, kid = 0\<rparr>, \<lparr>kptr = 11, kid = 1\<rparr>]" using s(1) by (simp add: registry_def)
  show ?thesis
    using thread_self_search [OF r, of 2] r s(2)
    by (intro exI [of _ ?s]) (simp add: is_sys_def main_record_def worker_record_def)
qed

text \<open>C28: the mutex of the registry. After every run, whatever accidents happened on it, it is exclusive: at most one thread is
  in a critical section. If it is free, a thread that waits for it can take it; otherwise its owner is in a section, and when
  the section ends, on whichever way, it has unlocked the mutex. After a run without an accident the owner can end its
  section: its code is defined, so no thread that waits is stuck.\<close>

theorem thread_lock_progress:
  assumes "treach setname E s" and "m \<noteq> NULL" and "tnodes s m = None" and "at_pc s t (Wanting k)"
  shows "(\<forall>u v c d. at_pc s u (Inside c) \<longrightarrow> at_pc s v (Inside d) \<longrightarrow> u = v) \<and>
    (case owner s of None \<Rightarrow> \<exists>s'. tstep setname {} s (Some s') \<and> at_pc s' t (Inside k)
     | Some u \<Rightarrow> \<exists>c. at_pc s u (Inside c) \<and> (\<forall>n s'. run_critical n u c s = Some s' \<longrightarrow> owner s' = None) \<and>
         (\<not> setname \<and> E = {} \<and> next_thread_id s < 2 ^ 63 - 1 \<longrightarrow>
            (\<exists>s'. run_critical m u c s = Some s' \<and> tstep False {} s (Some s'))))"
proof -
  have lock: "owner s = Some u \<longleftrightarrow> (\<exists>k. at_pc s u (Inside k))" for u
    using treach_lock_inv [OF assms(1)] by (auto simp: lock_inv_insiders insiders_def)
  then have ex: "\<forall>u v c d. at_pc s u (Inside c) \<longrightarrow> at_pc s v (Inside d) \<longrightarrow> u = v" by (metis option.inject)
  show ?thesis
  proof (cases "owner s")
    case None
    have "at_pc (set_pc t (Inside k) (s\<lparr>owner := Some t\<rparr>)) t (Inside k)" using at_pcD [OF assms(4)] by (auto simp: at_pc_set_pc)
    with ex None tstep.lock [OF assms(4) None, of setname] show ?thesis by auto
  next
    case (Some u)
    then obtain c where c: "at_pc s u (Inside c)" using lock by blast
    have m: "node_ok s m" "critical_mishaps m c = {}" using assms(2,3) by (cases c; simp add: node_ok_def node_mishaps_def)+
    have st: "tstep False {} s (run_critical m u c s)" using tstep.critical [OF c m(1), of False] m(2) by simp
    have "\<exists>s'. run_critical m u c s = Some s' \<and> tstep False {} s (Some s')" if "\<not> setname" "E = {}" "next_thread_id s < 2 ^ 63 - 1"
    proof -
      have "run_critical m u c s \<noteq> None" using treach_inv [of s] tstep_inv [OF st] assms(1) that by auto
      with st show ?thesis by auto
    qed
    moreover have "owner s' = None" if "run_critical n u c s = Some s'" for n s' using critical_unlocks [OF that] by simp
    ultimately show ?thesis using ex Some c by (simp del: run_critical.simps) blast
  qed
qed

theorem thread_lock_progress_witness:
  "\<exists>s m. treach False {} s \<and> next_thread_id s < 2 ^ 63 - 1 \<and> m \<noteq> NULL \<and> tnodes s m = None \<and>
     at_pc s 2 (Wanting (FindSelf ForExit)) \<and> owner s = None \<and> (\<exists>s'. tstep False {} s (Some s') \<and> at_pc s' 2 (Inside (FindSelf ForExit)))"
proof -
  obtain s where s: "treach False {} s" "next_thread_id s = 2" "at_pc s 2 Client" "owner s = None" "finite (dom (tnodes s))"
    using two_threads [of False 0] by (auto simp: at_pc_def fresh_state_def)
  let ?s = "set_pc 2 (Wanting (FindSelf ForExit)) s"
  have "tstep False {} s (Some ?s)" by (rule tstep.self [OF s(3)])
  with s(1) have r: "treach False {} ?s" using treach.step by fastforce
  have f: "next_thread_id ?s < 2 ^ 63 - 1" "owner ?s = None" "tnodes ?s = tnodes s" using s by (simp_all add: set_pc_def)
  have w: "at_pc ?s 2 (Wanting (FindSelf ForExit))" using at_pcD [OF s(3)] by (auto simp: at_pc_def set_pc_def)
  have "finite (insert NULL (dom (tnodes s)))" using s(5) by simp
  then obtain m where m: "m \<noteq> NULL" "tnodes s m = None" using ex_new_if_finite [OF infinite_UNIV_nat] by (metis domIff insertCI)
  then have m': "tnodes ?s m = None" using f(3) by simp
  show ?thesis
    using thread_lock_progress [OF r m(1) m' w] r f(1,2) m(1) m' w
    by (intro exI [of _ ?s] exI [of _ m]) simp
qed

text \<open>The record that a thread is creating or removing.\<close>

fun names_record :: "addr \<Rightarrow> tpc \<Rightarrow> bool" where
  "names_record p (Wanting (TakeId a q st)) \<longleftrightarrow> q = p" | "names_record p (Inside (TakeId a q st)) \<longleftrightarrow> q = p"
| "names_record p (Wanting (Remove q c)) \<longleftrightarrow> q = p" | "names_record p (Inside (Remove q c)) \<longleftrightarrow> q = p"
| "names_record p (Numbered a q st) \<longleftrightarrow> q = p"
| "names_record p c \<longleftrightarrow> False"

text \<open>C29: no record is lost: after every run without an accident each live record belongs to a system thread that is not gone: its
  own thread (running, or ended and waiting to be joined), the thread that is creating it, or the one that is removing it
  after a join. So when all threads are gone there is no record left.\<close>

theorem thread_no_record_lost:
  assumes "treach False {} s" and "recs s p = Some r"
  shows "\<exists>t P. threads s t = Some P \<and> pc P \<noteq> Gone \<and> (sys_thread r = t \<or> names_record p (pc P))"
proof -
  obtain \<sigma> where inv: "tinv s \<sigma>" using treach_inv [OF assms(1)] by blast
  obtain ph where "phase_inv s p r ph" using tinvD(2) [OF inv, of p] assms(2) by (auto simp: rec_inv_def split: option.splits)
  then show ?thesis by (cases ph) fastforce+
qed

theorem thread_no_record_lost_witness:
  "\<exists>s r. treach False {} s \<and> recs s 11 = Some r \<and>
     (\<exists>t P. threads s t = Some P \<and> pc P \<noteq> Gone \<and> (sys_thread r = t \<or> names_record 11 (pc P)))"
proof -
  obtain s where s: "treach False {} s" "recs s 11 = Some (worker_record 0)"
    using two_threads [of False 0] by auto
  with thread_no_record_lost [OF s] show ?thesis by blast
qed

section \<open>Shutdown\<close>

lemma free_threads:
  assumes "distinct (map kptr ks)" "\<forall>k\<in>set ks. R (kptr k) \<noteq> None"
  shows "free_keys (Some free_thread) ks (Some R) = Some (R |` (- kptr ` set ks))"
  using assms
proof (induction ks arbitrary: R)
  case (Cons k ks)
  have "free_keys (Some free_thread) (k # ks) (Some R) = free_keys (Some free_thread) ks (Some (R(kptr k := None)))"
    using Cons.prems(2) by (auto simp: free_key_def free_thread_def)
  also have "\<dots> = Some ((R(kptr k := None)) |` (- kptr ` set ks))"
    by (rule Cons.IH) (use Cons.prems in \<open>auto simp: rev_image_eqI\<close>)
  also have "(R(kptr k := None)) |` (- kptr ` set ks) = R |` (- kptr ` set (k # ks))" by (auto simp: restrict_map_def)
  finally show ?case .
qed (simp add: restrict_map_def)

text \<open>\<open>thread_shutdown\<close> frees every registered record exactly once and nothing else, and the tree with its nodes and its structure. It does not
  reset \<open>_initialized\<close>: a second call reads through the NULL pointer that it has left.\<close>

theorem thread_shutdown_frees:
  assumes "initialized s = 1" and "registry s xs" and "distinct (map kptr xs)" and "\<forall>k\<in>set xs. recs s (kptr k) \<noteq> None"
    and "owner s = None" and "trees s (tree_at s) = Some (Live rw_free)"
  shows "\<exists>s'. thread_shutdown s = Some s' \<and> recs s' = recs s |` (- kptr ` set xs) \<and> threadtree s' = None \<and>
    trees s' = (trees s)(tree_at s := None) \<and>
    card (dom (tnodes s) - dom (tnodes s')) = length xs + 1 \<and> thread_shutdown s' = None"
proof -
  obtain ob t where ob: "threadtree s = Some ob" "avl_at (tnodes s) (root ob) t" "keys t = xs" "unat (len ob) = length xs"
    using assms(2) by (auto simp: registry_def avl_holds_def avl_repr_def avl_wf_def)
  have len: "unat (len ob) = length (addrs t)" using ob(3,4) by (auto simp: length_addrs length_keys)
  define h' where "h' = (\<lambda>b. if b = root ob \<or> b \<in> set (addrs t) then None else tnodes s b)"
  have "avl_tree_free (tree_at s) ob (Some free_thread) (Some (recs s)) (tnodes s) (trees s) =
      Some (Some (recs s |` (- kptr ` set xs)), h', (trees s)(tree_at s := None))"
    unfolding tree_free_repr [OF ob(2) len] ob(3) free_threads [OF assms(3,4)] h'_def by (simp add: assms(6))
  moreover have "dom (tnodes s) - dom h' = insert (root ob) (set (addrs t))"
    using ob(2) rep_in_dom [of "tnodes s" "root ob" t] by (auto simp: h'_def avl_at_def split: if_splits)
  moreover have "card (insert (root ob) (set (addrs t))) = length xs + 1"
    using ob(2) len ob(4) by (auto simp: avl_at_def distinct_card)
  ultimately show ?thesis using ob(1) assms(1,5) by (simp add: thread_shutdown_def)
qed

theorem thread_shutdown_frees_witness:
  "\<exists>s s'. initialized s = 1 \<and> registry s [\<lparr>kptr = 10, kid = 0\<rparr>] \<and> recs s = [10 \<mapsto> main_record] \<and>
     trees s (tree_at s) = Some (Live rw_free) \<and>
     thread_shutdown s = Some s' \<and> recs s' = (\<lambda>_. None) \<and> trees s' = (\<lambda>_. None) \<and> thread_shutdown s' = None"
proof -
  obtain s where s: "initialized s = 1" "registry s [\<lparr>kptr = 10, kid = 0\<rparr>]" "recs s = [10 \<mapsto> main_record]"
    "owner s = None" "trees s = [tree_at s \<mapsto> Live rw_free]"
    using init_run [of False] by (auto simp: fresh_state_def)
  have "[10 \<mapsto> main_record] |` (- {10}) = (\<lambda>_. None)" by (simp add: restrict_map_def fun_eq_iff)
  with thread_shutdown_frees [OF s(1,2) _ _ s(4)] s show ?thesis by auto
qed

section \<open>Runs with accidents\<close>

text \<open>C40: the use of \<open>pthread_setname_np\<close> is a race. \<open>thread_create_c\<close> reads the system id from the record of the thread that
  it has just created; a detached thread may have ended by then and freed the record.\<close>

theorem thread_setname_use_after_free:
  "\<exists>s. treach True {} s \<and> next_thread_id s = 2 \<and> at_pc s 1 (Created 11) \<and> recs s 11 = None \<and> tstep True {} s None"
proof -
  let ?U = "\<lparr>own = Some 11, pc = Client, joinable = False\<rparr>"
  obtain s where s: "treach True {} s" "registry s [\<lparr>kptr = 10, kid = 0\<rparr>, \<lparr>kptr = 11, kid = 1\<rparr>]" "owner s = None"
    "next_thread_id s = 2"
    "recs s 11 = Some (worker_record 1)" "threads s 2 = Some ?U" "at_pc s 1 (Created 11)"
    using two_threads [of True 1] by (auto simp: fresh_state_def at_pc_def)
  define s1 where "s1 = set_pc 2 (Wanting (Remove 11 ThenEnd)) s"
  have "tstep True {} s (start_return 2 11 s)" by (rule tstep.return [OF _ s(6)]) (simp_all add: at_pc_def s(6))
  moreover have "start_return 2 11 s = Some s1" by (simp add: start_return_def s(5) worker_record_def s1_def)
  ultimately have r1: "treach True {} s1" using treach_move [OF s(1)] by metis
  define s2 where "s2 = set_pc 2 (Inside (Remove 11 ThenEnd)) (s1\<lparr>owner := Some 2\<rparr>)"
  have "at_pc s1 2 (Wanting (Remove 11 ThenEnd))" "owner s1 = None" by (simp_all add: s1_def at_pc_def set_pc_def s(3,6))
  then have "tstep True {} s1 (Some s2)" unfolding s2_def by (rule tstep.lock)
  with r1 have r2: "treach True {} s2" by (rule treach_move)
  have f2: "recs s2 = recs s" "threadtree s2 = threadtree s" "tnodes s2 = tnodes s"
      "threads s2 = (threads s)(2 \<mapsto> ?U\<lparr>pc := Inside (Remove 11 ThenEnd)\<rparr>)"
      "owner s2 = Some 2" "next_thread_id s2 = 2"
    by (simp_all add: s2_def s1_def set_pc_def s(4,6))
  have "registry s2 [\<lparr>kptr = 10, kid = 0\<rparr>, \<lparr>kptr = 11, kid = 1\<rparr>]" using s(2) registry_cong [OF f2(2,3)] by simp
  moreover have "recs s2 11 = Some (worker_record 1)" using f2(1) s(5) by simp
  ultimately obtain s3 where s3: "remove_thread 2 11 s2 = Some s3" "recs s3 = (recs s2)(11 := None)" "threads s3 = threads s2"
      "next_thread_id s3 = next_thread_id s2"
    using remove_law [of s2 "[\<lparr>kptr = 10, kid = 0\<rparr>, \<lparr>kptr = 11, kid = 1\<rparr>]" 11 "worker_record 1" 2] f2(5) by (auto simp: worker_record_def)
  define s4 where "s4 = thread_end 2 s3"
  have c: "run_critical NULL 2 (Remove 11 ThenEnd) s2 = Some s4" by (simp add: s3(1) s4_def)
  have "at_pc s2 2 (Inside (Remove 11 ThenEnd))" by (simp add: at_pc_def f2(4))
  then have "tstep True {} s2 (Some s4)" using tstep.critical [of s2 2 _ NULL True] by (metis c critical_mishaps.simps(4) node_ok_def)
  with r2 have r4: "treach True {} s4" by (rule treach_move)
  have n: "recs s4 11 = None" by (simp add: s4_def thread_end_def set_pc_def s3(2))
  have p: "at_pc s4 1 (Created 11)" using s(7) by (simp add: s4_def thread_end_def set_pc_def s3(3) f2(4) at_pc_def)
  have "tstep True {} s4 None" using tstep.setname [OF p] n by simp
  moreover have "next_thread_id s4 = 2" by (simp add: s4_def thread_end_def set_pc_def s3(4) f2(6))
  ultimately show ?thesis using r4 n p by blast
qed

lemma insert_no_memory:
  assumes "avl_at h (root ob) (Node Leaf a x w Leaf)" "tcmp ob k x \<ge> 1"
  shows "avl_insert NULL ob (Some k) h = Some (-1, ob, h)"
  using assms by (auto simp: avl_insert_def avl_at_def mem_simps avl_node_new_def addrs_def avl_insert_descend.simps Let_def)

text \<open>\<open>_start_routine\<close> ignores a failure of \<open>avl_insert\<close>. The thread then runs without being registered, \<open>thread_self\<close>
  finds nothing for it, and \<open>thread_rename\<close>, which does not check the result, reads through NULL.\<close>

theorem thread_rename_unregistered:
  "\<exists>s n. treach False {No_node} s \<and> at_pc s 2 (Renaming None n) \<and> tstep False {} s None"
proof -
  let ?k = "\<lparr>kptr = 10, kid = 0\<rparr>"
  let ?P = "\<lparr>own = None, pc = Client, joinable = True\<rparr>"
  obtain s where s: "treach False {} s" "owner s = None" "registry s [?k]" "recs s = [10 \<mapsto> main_record]" "starts s = (\<lambda>_. None)"
    "next_thread_id s = 1" "threads s = [1 \<mapsto> ?P]" "handles s = {}"
    using init_run [of False] by (auto simp: fresh_state_def)
  have f: "threads s 1 = Some ?P" "recs s 11 = None" "starts s 20 = None" "rec_room s" "id_free s 2" "next_thread_id s < 2 ^ 63 - 1"
    "no_remover s"
    using s by (auto simp: rec_room_def id_free_def no_remover_def at_pc_def)
  obtain s1 where s1: "treach False {} s1" "owner s1 = Some 2" "recs s1 = [10 \<mapsto> main_record, 11 \<mapsto> worker_record 0]"
    "starts s1 = [20 \<mapsto> \<lparr>start_thread = 11\<rparr>]" "threads s1 = [1 \<mapsto> ?P, 2 \<mapsto> \<lparr>own = None, pc = Inside (Register 20), joinable = True\<rparr>]"
    "threadtree s1 = threadtree s" "tnodes s1 = tnodes s"
    using spawn_run [OF s(1) f(1) _ s(2) _ _ f(2-5) _ f(6), of 0] s(4-8) f(7) by (auto simp: worker_record_def)
  obtain ob a x w where ob: "threadtree s = Some ob" "avl_at (tnodes s) (root ob) (Node Leaf a ?k w Leaf)" "tcmp ob = compare_tkeys"
  proof -
    obtain ob t where "threadtree s = Some ob" "avl_at (tnodes s) (root ob) t" "keys t = [?k]" "tcmp ob = compare_tkeys"
      using s(3) by (auto simp: registry_def avl_holds_def avl_repr_def)
    moreover then obtain a w where "t = Node Leaf a ?k w Leaf"
      by (cases t) (auto simp: keys_def append_eq_Cons_conv elim: nodes.elims)
    ultimately show thesis using that by blast
  qed
  define s2 where "s2 = s1\<lparr>owner := None, starts := (\<lambda>_. None),
    threads := [1 \<mapsto> ?P, 2 \<mapsto> \<lparr>own = Some 11, pc = Client, joinable = True\<rparr>]\<rparr>"
  have "tcmp ob \<lparr>kptr = 11, kid = 1\<rparr> ?k \<ge> 1"
    using fun_cong [OF fun_cong [OF ob(3)], of "\<lparr>kptr = 11, kid = 1\<rparr>" ?k] by (simp add: compare_tkeys_def)
  note ins = insert_no_memory [OF ob(2) this]
  have h: "s1\<lparr>threadtree := Some ob, recs := recs s1, tnodes := tnodes s\<rparr> = s1" using s1(6,7) ob(1) by (cases s1) simp
  have "start_register NULL 2 20 s1 = Some (11, s1\<lparr>owner := None, starts := (\<lambda>_. None)\<rparr>)"
    using s1 ob(1) ins by (simp add: start_register_def wr_rec_def key_of_def worker_record_def)
  then have c: "run_critical NULL 2 (Register 20) s1 = Some s2"
    using s1(5) by (simp add: s2_def)
  have "at_pc s1 2 (Inside (Register 20))" by (simp add: at_pc_def s1(5))
  then have "tstep False {No_node} s1 (Some s2)"
    using tstep.critical [of s1 2 "Register 20" NULL False] by (simp only: c node_ok_def critical_mishaps.simps node_mishaps_def simp_thms if_True)
  with s1(1) have r2: "treach False {No_node} s2" using treach.step by fastforce
  have f2: "threadtree s2 = threadtree s" "tnodes s2 = tnodes s" "recs s2 = recs s1" "owner s2 = None"
    "threads s2 2 = Some \<lparr>own = Some 11, pc = Client, joinable = True\<rparr>"
    using s1 by (simp_all add: s2_def)
  have "registry s2 [?k]" using s(3) registry_cong [OF f2(1,2)] by simp
  moreover have "\<not> is_sys s2 2 ?k" by (simp add: is_sys_def f2(3) s1(3) main_record_def)
  ultimately obtain s3 where s3: "treach False {No_node} s3" "at_pc s3 2 (Renaming None None)"
    using rename_run [OF r2 f2(5) _ f2(4), of "[?k]" None] f2(3) s1(3) by auto
  have "tstep False {} s3 None" using tstep.rename [OF s3(2), of False] by (simp add: thread_rename_tail_def)
  with s3 show ?thesis by blast
qed

text \<open>\<open>thread_join\<close> removes the record only after \<open>pthread_join\<close> has returned, when the system may already give the id to a
  new thread. If it does, \<open>thread_self\<close> in the new thread finds the old record, which has the smaller id, and not its own.\<close>

theorem thread_self_stale:
  "\<exists>E s. E \<subseteq> {Stale_id} \<and> treach False E s \<and> threads s 2 = Some \<lparr>own = Some 13, pc = Client, joinable = True\<rparr> \<and>
     thread_self 2 (s\<lparr>owner := Some 2\<rparr>) = Some (Some 11, s\<lparr>owner := None\<rparr>)"
proof -
  let ?P = "\<lambda>p. \<lparr>own = p, pc = Client, joinable = True\<rparr>"
  obtain s where s: "treach False {} s" "fresh_state s [\<lparr>kptr = 10, kid = 0\<rparr>, \<lparr>kptr = 11, kid = 1\<rparr>]"
    "recs s = [10 \<mapsto> main_record, 11 \<mapsto> worker_record 0]" "next_thread_id s = 2" "starts s = (\<lambda>_. None)"
    "threads s = [1 \<mapsto> ?P None, 2 \<mapsto> ?P (Some 11)]" "handles s = {11}"
    using two_threads [of False 0] by auto
  have f: "threads s 1 = Some (?P None)" "recs s 12 = None" "starts s 20 = None" "rec_room s" "id_free s 3" "next_thread_id s < 2 ^ 63 - 1"
    "no_remover s"
    using s by (auto simp: rec_room_def id_free_def no_remover_def at_pc_def)
  let ?r = "\<lambda>i u. \<lparr>thread_id = i, th_name = Some ''worker'', create_time = 0, th_file = Some ''main.c'', th_line = 1,
    detached = 0, sys_thread = u\<rparr>"
  obtain s1 where s1: "treach False {} s1" "fresh_state s1 [\<lparr>kptr = 10, kid = 0\<rparr>, \<lparr>kptr = 11, kid = 1\<rparr>, \<lparr>kptr = 12, kid = 2\<rparr>]"
    "recs s1 = [10 \<mapsto> main_record, 11 \<mapsto> worker_record 0, 12 \<mapsto> ?r 2 3]" "starts s1 = (\<lambda>_. None)" "next_thread_id s1 = 3"
    "threads s1 = [2 \<mapsto> ?P (Some 11), 1 \<mapsto> ?P None, 3 \<mapsto> ?P (Some 12)]" "handles s1 = {12, 11}"
    using create_run [OF s(1) f(1) _ s(2) _ _ _ f(2-5) _ f(6), of 0] s(3-7) f(7) by auto
  define s2 where "s2 = thread_end 2 s1"
  have "tstep False {} s1 (start_return 2 11 s1)" by (rule tstep.return [where P = "?P (Some 11)"]) (simp_all add: at_pc_def s1(6))
  moreover have "start_return 2 11 s1 = Some s2" by (simp add: start_return_def s1(3) worker_record_def s2_def)
  ultimately have r2: "treach False {} s2" using treach_move [OF s1(1)] by metis
  have f2: "threads s2 = [1 \<mapsto> ?P None, 2 \<mapsto> (?P (Some 11))\<lparr>pc := Zombie\<rparr>, 3 \<mapsto> ?P (Some 12)]"
    by (auto simp: s2_def thread_end_def set_pc_def s1(6))
  have g2: "recs s2 = recs s1" "starts s2 = starts s1" "next_thread_id s2 = 3" "handles s2 = {12, 11}" "owner s2 = owner s1"
      "threadtree s2 = threadtree s1" "tnodes s2 = tnodes s1"
    by (simp_all add: s2_def thread_end_def set_pc_def s1(5,7))
  define s3 where "s3 = set_pc 3 (Joining 11 2) (s2\<lparr>handles := handles s2 - {11}\<rparr>)"
  have "tstep False {} s2 (thread_join_begin 3 11 s2)" by (rule tstep.join) (simp_all add: at_pc_def f2 g2)
  moreover have "thread_join_begin 3 11 s2 = Some s3" by (simp add: thread_join_begin_def g2 s1(3) worker_record_def s3_def)
  ultimately have r3: "treach False {} s3" using treach_move [OF r2] by metis
  define s4 where "s4 = set_pc 3 (Wanting (Remove 11 ThenClient)) (set_pc 2 Gone s3)"
  have "tstep False {} s3 (Some s4)" unfolding s4_def by (rule tstep.joined) (simp_all add: at_pc_def s3_def set_pc_def f2)
  with r3 have r4: "treach False {} s4" by (rule treach_move)
  have f4: "threads s4 = [1 \<mapsto> ?P None, 2 \<mapsto> (?P (Some 11))\<lparr>pc := Gone\<rparr>, 3 \<mapsto> (?P (Some 12))\<lparr>pc := Wanting (Remove 11 ThenClient)\<rparr>]"
    by (auto simp: s4_def s3_def set_pc_def f2)
  have g4: "recs s4 = recs s1" "starts s4 = starts s1" "next_thread_id s4 = 3" "owner s4 = owner s1"
      "threadtree s4 = threadtree s1" "tnodes s4 = tnodes s1"
    by (simp_all add: s4_def s3_def set_pc_def g2)
  have h4: "fresh_state s4 [\<lparr>kptr = 10, kid = 0\<rparr>, \<lparr>kptr = 11, kid = 1\<rparr>, \<lparr>kptr = 12, kid = 2\<rparr>]"
    using s1(2) registry_cong [OF g4(5,6)] by (simp add: fresh_state_def g4)
  have h: "threads s4 1 = Some (?P None)" "recs s4 13 = None" "starts s4 20 = None" "rec_room s4" "id_free s4 2" "next_thread_id s4 < 2 ^ 63 - 1"
    by (simp_all add: f4 g4 s1(3,4) rec_room_def id_free_def at_pc_def)
  let ?ks = "[\<lparr>kptr = 10, kid = 0\<rparr>, \<lparr>kptr = 11, kid = 1\<rparr>, \<lparr>kptr = 12, kid = 2\<rparr>, \<lparr>kptr = 13, kid = 3\<rparr>]"
  obtain E s5 where s5: "treach False E s5" "fresh_state s5 ?ks" "recs s5 = (recs s1)(13 \<mapsto> ?r 3 2)" "threads s5 2 = Some (?P (Some 13))" "E \<subseteq> {Stale_id}"
    using create_run [OF r4 h(1) _ h4 _ _ _ h(2-5) _ h(6), of 0] by (auto simp: g4)
  have "registry (s5\<lparr>owner := Some 2\<rparr>) ?ks" using s5(2) by (simp add: fresh_state_def registry_def)
  moreover have "List.find (is_sys (s5\<lparr>owner := Some 2\<rparr>) 2) ?ks = Some \<lparr>kptr = 11, kid = 1\<rparr>"
    by (simp add: is_sys_def s5(3) s1(3) main_record_def worker_record_def)
  ultimately have "thread_self 2 (s5\<lparr>owner := Some 2\<rparr>) = Some (Some 11, s5\<lparr>owner := None\<rparr>)"
    using thread_self_find [of "s5\<lparr>owner := Some 2\<rparr>" ?ks 2] s5(3) s1(3) by simp
  with s5 show ?thesis by blast
qed

end
