(* ===== verification/Timing.thy ===== *)
theory Timing
  imports Prelude
begin

text \<open>
  Time: src/timing/timing.c, and the functions of src/thread/thread.c that convert times. The clock and the sleeping calls
  of the system are arguments. Signed C integers are \<open>int\<close> with their range checked where the code computes with them
  (\<open>None\<close>: overflow, which is undefined); \<open>uint64_t\<close> and \<open>unsigned long\<close> are words.
\<close>

section \<open>The clock\<close>

record timeval =
  tv_sec :: int
  tv_usec :: int

record timespec =
  ts_sec :: int
  ts_nsec :: int

text \<open>The variant with \<open>gettimeofday\<close>, and the one with \<open>ftime\<close> (\<open>time\<close> and \<open>millitm\<close>).\<close>

definition timing_get_time :: "timeval \<Rightarrow> ulong" where
  "timing_get_time mtv = word_of_int (tv_sec mtv) * 1000 + word_of_int (tv_usec mtv) div 1000"

definition timing_get_time_ftime :: "int \<Rightarrow> int \<Rightarrow> ulong option" where
  "timing_get_time_ftime time millitm =
     (let r = time * 1000 + millitm in if - (2 ^ 63) \<le> r \<and> r < 2 ^ 63 then Some (word_of_int r) else None)"

section \<open>Sleeping\<close>

text \<open>The time that \<open>timing_sleep\<close> hands to \<open>select\<close>.\<close>

definition timing_sleep :: "ulong \<Rightarrow> timeval" where
  "timing_sleep sleeptime = \<lparr>tv_sec = uint (sleeptime div 1000), tv_usec = uint ((sleeptime mod 1000) * 1000)\<rparr>"

text \<open>\<open>thread_sleep\<close> without \<open>nanosleep\<close>: the time that it hands to \<open>select\<close>.\<close>

definition thread_sleep_select :: "ulong \<Rightarrow> timeval" where
  "thread_sleep_select len = \<lparr>tv_sec = uint (len div 1000000), tv_usec = uint (len mod 1000000)\<rparr>"

text \<open>\<open>thread_sleep\<close> with \<open>nanosleep\<close>. The call returns 0, or fails and then sets \<open>errno\<close> and, when it was interrupted
  (\<open>EINTR\<close> is 4), the remaining time.\<close>

partial_function (option) nanosleep_loop ::
  "(timespec \<Rightarrow> 'u \<Rightarrow> int \<times> int \<times> timespec \<times> 'u) \<Rightarrow> timespec \<Rightarrow> 'u \<Rightarrow> 'u option" where
  "nanosleep_loop nanosleep time_sleep u =
     (let (ret, errno, time_remaining, u) = nanosleep time_sleep u
      in if ret \<noteq> 0 \<and> errno = 4 then nanosleep_loop nanosleep time_remaining u else Some u)"

definition thread_sleep :: "(timespec \<Rightarrow> 'u \<Rightarrow> int \<times> int \<times> timespec \<times> 'u) \<Rightarrow> ulong \<Rightarrow> 'u \<Rightarrow> 'u option" where
  "thread_sleep nanosleep len u =
     nanosleep_loop nanosleep \<lparr>ts_sec = uint (len div 1000000), ts_nsec = uint ((len mod 1000000) * 1000)\<rparr> u"

section \<open>Deadlines\<close>

text \<open>The deadline that \<open>thread_cond_timedwait_c\<close> computes from the monotonic clock; \<open>millis\<close> is an \<open>int\<close>, and so is
  \<open>millis*1000000\<close>.\<close>

definition thread_cond_deadline :: "timespec \<Rightarrow> int \<Rightarrow> timespec option" where
  "thread_cond_deadline now millis =
     (if millis * 1000000 < - (2 ^ 31) \<or> millis * 1000000 \<ge> 2 ^ 31 then None
      else
        (let time = now\<lparr>ts_nsec := ts_nsec now + millis * 1000000\<rparr>
         in Some (if ts_nsec time \<ge> 1000000000 then
               (let extra = ts_nsec time div 1000000000
                in time\<lparr>ts_nsec := ts_nsec time - extra * 1000000000, ts_sec := ts_sec time + extra\<rparr>)
             else time)))"

section \<open>Properties\<close>

definition nsec_total :: "timespec \<Rightarrow> int" where
  "nsec_total t = ts_sec t * 1000000000 + ts_nsec t"

definition usec_total :: "timeval \<Rightarrow> int" where
  "usec_total t = tv_sec t * 1000000 + tv_usec t"

lemma split_scale:
  fixes a :: int
  shows "a div 1000 * 1000000 + a mod 1000 * 1000 = a * 1000" "a div 1000000 * 1000000000 + a mod 1000000 * 1000 = a * 1000"
  using div_mult_mod_eq [of a 1000] div_mult_mod_eq [of a 1000000] by linarith+

lemma uint_mult_small: "uint (a :: ulong) * k < 2 ^ 64 \<Longrightarrow> 0 \<le> k \<Longrightarrow> uint (a * word_of_int k) = uint a * k"
  by (simp add: uint_word_ariths uint_word_of_int mod_mult_right_eq)

text \<open>The clock. For every time from 1970 on, up to \<open>2 ^ 53\<close> seconds after it, \<open>timing_get_time\<close> is the number of
  milliseconds, rounded down, and the two variants agree.\<close>

theorem timing_get_time_variants:
  assumes "0 \<le> tv_sec t" and "tv_sec t < 2 ^ 53" and "0 \<le> tv_usec t" and "tv_usec t < 1000000"
  shows "uint (timing_get_time t) = usec_total t div 1000 \<and>
    timing_get_time_ftime (tv_sec t) (tv_usec t div 1000) = Some (timing_get_time t)"
proof -
  have u: "uint (word_of_int (tv_usec t) div 1000 :: ulong) = tv_usec t div 1000"
    using assms(3,4) by (simp add: uint_div uint_word_of_int)
  have s: "uint (word_of_int (tv_sec t) * 1000 :: ulong) = tv_sec t * 1000"
    using uint_mult_small [of "word_of_int (tv_sec t)" 1000] assms(1,2) by (simp add: uint_word_of_int)
  have sum: "tv_sec t * 1000 + tv_usec t div 1000 < 2 ^ 63" "0 \<le> tv_sec t * 1000 + tv_usec t div 1000" using assms by simp_all
  have g: "uint (timing_get_time t) = tv_sec t * 1000 + tv_usec t div 1000"
    using sum by (simp add: timing_get_time_def uint_word_ariths(1) s u)
  moreover have "usec_total t div 1000 = tv_sec t * 1000 + tv_usec t div 1000" by (simp add: usec_total_def)
  moreover have "word_of_int (tv_sec t * 1000 + tv_usec t div 1000) = timing_get_time t"
    unfolding g [symmetric] by simp
  ultimately show ?thesis using sum by (simp add: timing_get_time_ftime_def)
qed

theorem timing_get_time_variants_witness:
  "timing_get_time_ftime 1700000000 123 = Some (timing_get_time \<lparr>tv_sec = 1700000000, tv_usec = 123456\<rparr>) \<and>
   uint (timing_get_time \<lparr>tv_sec = 1700000000, tv_usec = 123456\<rparr>) = 1700000000123"
  using timing_get_time_variants [of "\<lparr>tv_sec = 1700000000, tv_usec = 123456\<rparr>"] by (simp add: usec_total_def)

text \<open>Every duration is split without loss into valid parts: \<open>timing_sleep\<close> (milliseconds) and the \<open>select\<close> variant of
  \<open>thread_sleep\<close> (microseconds) hand the exact duration to the system, with microseconds below a million.\<close>

theorem sleep_split:
  "usec_total (timing_sleep ms) = uint ms * 1000 \<and> 0 \<le> tv_usec (timing_sleep ms) \<and> tv_usec (timing_sleep ms) < 1000000 \<and>
   usec_total (thread_sleep_select us) = uint us \<and> 0 \<le> tv_usec (thread_sleep_select us) \<and> tv_usec (thread_sleep_select us) < 1000000"
proof -
  have m: "uint (ms mod 1000) = uint ms mod 1000" "uint (ms div 1000) = uint ms div 1000"
    by (simp_all add: uint_mod uint_div)
  have "uint ((ms mod 1000) * 1000) = (uint ms mod 1000) * 1000"
    using uint_mult_small [of "ms mod 1000" 1000] pos_mod_bound [of 1000 "uint ms"] by (simp add: m)
  moreover have "uint us mod 1000000 < 1000000" "uint ms mod 1000 < 1000" by simp_all
  moreover have "uint (us mod 1000000) = uint us mod 1000000" "uint (us div 1000000) = uint us div 1000000"
    by (simp_all add: uint_mod uint_div)
  ultimately show ?thesis
    by (simp add: timing_sleep_def thread_sleep_select_def usec_total_def m split_scale)
qed

text \<open>What \<open>nanosleep\<close> promises. A time whose nanoseconds are not below a second (or that is negative) is refused with
  \<open>EINVAL\<close> (22), and nothing is slept. For a valid time the call returns 0 when the time is over, or is interrupted by a signal
  (in finitely many calls) and fails with \<open>EINTR\<close> (4) and a valid remaining time: the time asked for less the time slept.
  \<open>slept\<close> is the account of the time slept; the system may wake the thread later than it was told, by an
  amount that \<open>late\<close> accounts for, never earlier.\<close>

definition timespec_valid :: "timespec \<Rightarrow> bool" where
  "timespec_valid ts \<longleftrightarrow> 0 \<le> ts_sec ts \<and> 0 \<le> ts_nsec ts \<and> ts_nsec ts < 1000000000"

definition honest_nanosleep ::
  "(timespec \<Rightarrow> 'u \<Rightarrow> int \<times> int \<times> timespec \<times> 'u) \<Rightarrow> ('u \<Rightarrow> int) \<Rightarrow> ('u \<Rightarrow> int) \<Rightarrow> ('u \<Rightarrow> nat) \<Rightarrow> bool" where
  "honest_nanosleep f slept late interrupts \<longleftrightarrow> (\<forall>ts u. case f ts u of (ret, errno, rest, u') \<Rightarrow>
     (if \<not> timespec_valid ts then ret \<noteq> 0 \<and> errno = 22 \<and> slept u' = slept u
      else late u \<le> late u' \<and>
        (if ret = 0 then slept u' = slept u + nsec_total ts + (late u' - late u)
         else errno = 4 \<and> timespec_valid rest \<and> interrupts u' < interrupts u \<and>
           slept u' + nsec_total rest = slept u + nsec_total ts + (late u' - late u))))"

lemma nanosleep_loop_sleeps:
  assumes "honest_nanosleep f slept late interrupts" "timespec_valid ts"
  shows "\<exists>u'. nanosleep_loop f ts u = Some u' \<and> slept u' = slept u + nsec_total ts + (late u' - late u) \<and> late u \<le> late u'"
  using assms(2)
proof (induction "interrupts u" arbitrary: ts u rule: less_induct)
  case less
  obtain ret errno rest u1 where f: "f ts u = (ret, errno, rest, u1)" by (metis surj_pair)
  have h: "late u \<le> late u1" "ret = 0 \<longrightarrow> slept u1 = slept u + nsec_total ts + (late u1 - late u)"
    "ret \<noteq> 0 \<longrightarrow> errno = 4 \<and> timespec_valid rest \<and> interrupts u1 < interrupts u \<and>
       slept u1 + nsec_total rest = slept u + nsec_total ts + (late u1 - late u)"
    using assms(1) [unfolded honest_nanosleep_def, THEN spec, of ts, THEN spec, of u] f less.prems by (simp_all split: if_splits)
  show ?case
  proof (cases "ret = 0")
    case True
    then show ?thesis using f h(1,2) by (simp add: nanosleep_loop.simps [of f ts u])
  next
    case False
    then obtain u' where "nanosleep_loop f rest u1 = Some u'" "slept u' = slept u1 + nsec_total rest + (late u' - late u1)"
      "late u1 \<le> late u'" using h(3) less(1) [of u1 rest] by blast
    with h(1,3) False f show ?thesis by (auto simp: nanosleep_loop.simps [of f ts u])
  qed
qed

text \<open>C34: \<open>thread_sleep\<close> ends, and however often it is interrupted it sleeps the microseconds it was told, plus only
  what the system woke it too late: the times it hands to \<open>nanosleep\<close> are always valid and always what is left.\<close>

theorem thread_sleep_sleeps:
  assumes "honest_nanosleep f slept late interrupts"
  shows "\<exists>u'. thread_sleep f len u = Some u' \<and> slept u' = slept u + uint len * 1000 + (late u' - late u) \<and> late u \<le> late u'"
proof -
  have m: "uint (len mod 1000000) = uint len mod 1000000" "uint (len div 1000000) = uint len div 1000000"
    by (simp_all add: uint_mod uint_div)
  have n: "uint ((len mod 1000000) * 1000) = (uint len mod 1000000) * 1000"
    using uint_mult_small [of "len mod 1000000" 1000] pos_mod_bound [of 1000000 "uint len"] by (simp add: m)
  then have "nsec_total \<lparr>ts_sec = uint (len div 1000000), ts_nsec = uint ((len mod 1000000) * 1000)\<rparr> = uint len * 1000"
    by (simp add: nsec_total_def m split_scale)
  moreover have "timespec_valid \<lparr>ts_sec = uint (len div 1000000), ts_nsec = uint ((len mod 1000000) * 1000)\<rparr>"
    using pos_mod_bound [of 1000000 "uint len"] by (simp add: timespec_valid_def n m pos_imp_zdiv_nonneg_iff)
  ultimately show ?thesis using nanosleep_loop_sleeps [OF assms] unfolding thread_sleep_def by metis
qed

text \<open>A call that is interrupted after a quarter of the time, and that returns 50 nanoseconds too late otherwise; the state is the
  time slept, the interruptions left and the delay so far.\<close>

definition demo_nanosleep :: "timespec \<Rightarrow> int \<times> nat \<times> int \<Rightarrow> int \<times> int \<times> timespec \<times> int \<times> nat \<times> int" where
  "demo_nanosleep ts u =
     (case u of (slept, interrupts, late) \<Rightarrow>
        if \<not> timespec_valid ts then (-1, 22, ts, u)
        else if interrupts = 0 then (0, 0, ts, slept + nsec_total ts + 50, 0, late + 50)
        else let x = nsec_total ts - nsec_total ts div 4
          in (-1, 4, \<lparr>ts_sec = x div 1000000000, ts_nsec = x mod 1000000000\<rparr>, slept + nsec_total ts div 4, interrupts - 1, late))"

lemma demo_nanosleep_honest: "honest_nanosleep demo_nanosleep fst (snd \<circ> snd) (fst \<circ> snd)"
proof -
  have r: "timespec_valid \<lparr>ts_sec = x div 1000000000, ts_nsec = x mod 1000000000\<rparr>" if "0 \<le> x" for x
    using that by (simp add: timespec_valid_def pos_imp_zdiv_nonneg_iff)
  have t: "nsec_total \<lparr>ts_sec = x div 1000000000, ts_nsec = x mod 1000000000\<rparr> = x" for x
    by (simp add: nsec_total_def)
  have "0 \<le> nsec_total ts - nsec_total ts div 4" if "timespec_valid ts" for ts
    using that by (simp add: timespec_valid_def nsec_total_def) linarith
  then show ?thesis by (auto simp: honest_nanosleep_def demo_nanosleep_def Let_def r t)
qed

theorem thread_sleep_sleeps_witness:
  "honest_nanosleep demo_nanosleep fst (snd \<circ> snd) (fst \<circ> snd) \<and>
   (\<exists>u'. thread_sleep demo_nanosleep 2500000 (0, 3, 0) = Some u' \<and> fst u' = 2500000000 + snd (snd u') \<and> 0 \<le> snd (snd u'))"
  using thread_sleep_sleeps [OF demo_nanosleep_honest, of 2500000 "(0, 3, 0)"] demo_nanosleep_honest by simp

text \<open>C35: the deadline of \<open>thread_cond_timedwait_c\<close> is the current time plus the timeout, with a valid number of nanoseconds,
  for timeouts below 2148 milliseconds; longer ones overflow in \<open>millis*1000000\<close>.\<close>

theorem thread_cond_deadline_correct:
  assumes "0 \<le> ts_nsec now" and "ts_nsec now < 1000000000" and "0 \<le> millis"
  shows "if millis < 2148
    then \<exists>t. thread_cond_deadline now millis = Some t \<and> nsec_total t = nsec_total now + millis * 1000000 \<and>
      0 \<le> ts_nsec t \<and> ts_nsec t < 1000000000 \<and> ts_sec now \<le> ts_sec t
    else thread_cond_deadline now millis = None"
proof -
  let ?n = "ts_nsec now + millis * 1000000"
  have "?n - ?n div 1000000000 * 1000000000 = ?n mod 1000000000" by (simp add: minus_div_mult_eq_mod)
  moreover have "0 \<le> ?n mod 1000000000" "?n mod 1000000000 < 1000000000" by simp_all
  moreover have "0 \<le> ?n div 1000000000" using assms by (simp add: pos_imp_zdiv_nonneg_iff)
  ultimately show ?thesis
    using assms by (auto simp: thread_cond_deadline_def nsec_total_def Let_def algebra_simps)
qed

theorem thread_cond_deadline_correct_witness:
  "\<exists>t. thread_cond_deadline \<lparr>ts_sec = 10, ts_nsec = 900000000\<rparr> 1500 = Some t \<and> nsec_total t = 12400000000 \<and>
     thread_cond_deadline \<lparr>ts_sec = 10, ts_nsec = 900000000\<rparr> 2148 = None"
  using thread_cond_deadline_correct [of "\<lparr>ts_sec = 10, ts_nsec = 900000000\<rparr>" 1500]
    thread_cond_deadline_correct [of "\<lparr>ts_sec = 10, ts_nsec = 900000000\<rparr>" 2148] by (auto simp: nsec_total_def)

end
