(* ===== verification/Signals.thy ===== *)
theory Signals
  imports Prelude
begin

text \<open>
  Which thread receives which signal (\<open>_block_signals\<close> and \<open>_catch_signals\<close> of src/thread/thread.c): the signal mask of a
  thread is a set of signal numbers, those of Linux. A new thread inherits the mask of its creator.
\<close>

definition SIGHUP :: int where "SIGHUP = 1"
definition SIGINT :: int where "SIGINT = 2"
definition SIGBUS :: int where "SIGBUS = 7"
definition SIGKILL :: int where "SIGKILL = 9"
definition SIGSEGV :: int where "SIGSEGV = 11"
definition SIGPIPE :: int where "SIGPIPE = 13"
definition SIGTERM :: int where "SIGTERM = 15"
definition SIGCHLD :: int where "SIGCHLD = 17"
definition SIGSTOP :: int where "SIGSTOP = 19"

lemmas signal_numbers = SIGHUP_def SIGINT_def SIGBUS_def SIGKILL_def SIGSEGV_def SIGPIPE_def SIGTERM_def SIGCHLD_def SIGSTOP_def

text \<open>\<open>sigfillset\<close>: the signals 1 to 64.\<close>

definition sigfillset :: "int set" where
  "sigfillset = set [1..64]"

text \<open>The masks after the two functions; \<open>ok\<close> says whether \<open>pthread_sigmask\<close> succeeds.\<close>

definition block_signals :: "bool \<Rightarrow> int set \<Rightarrow> int set" where
  "block_signals ok blocked = (if ok then blocked \<union> (sigfillset - {SIGKILL, SIGSTOP, SIGSEGV, SIGCHLD, SIGBUS}) else blocked)"

definition catch_signals :: "bool \<Rightarrow> int set \<Rightarrow> int set" where
  "catch_signals ok blocked = (if ok then blocked - {SIGHUP, SIGCHLD, SIGINT, SIGPIPE, SIGTERM} else blocked)"

text \<open>A worker created by the main thread after \<open>thread_initialize\<close>. Of the five signals that are meant for the main thread only,
  four cannot reach the worker. The fifth, \<open>SIGCHLD\<close>, can: it is taken out of the set that workers block.\<close>

theorem worker_signals:
  "{s \<in> {SIGHUP, SIGCHLD, SIGINT, SIGPIPE, SIGTERM}. s \<notin> catch_signals True blocked} = {SIGHUP, SIGCHLD, SIGINT, SIGPIPE, SIGTERM}"
  "{s \<in> {SIGHUP, SIGCHLD, SIGINT, SIGPIPE, SIGTERM}. s \<notin> block_signals True (catch_signals True blocked)} = {SIGCHLD}"
  by (auto simp: catch_signals_def block_signals_def sigfillset_def signal_numbers)

end
