(* ===== verification/Spec2Isabelle.thy ===== *)
theory Spec2Isabelle
  imports Avl Avl_Print Avl_Shared Encoding Httpp Httpp_Api Release Lock_Sections Log Log_Threads Sock Server Thread Timing Signals
begin

text \<open>
  Verification of the Icecast common library (\<^verbatim>\<open>src/\<close>): the AVL tree, the HTTP transfer encodings, the HTTP parser, the
  logging framework, the socket functions with name resolution, the thread library and the clock.

  \<^bold>\<open>The program and its parts.\<close> The library consists of independent C modules that a server links together.
  \<^verbatim>\<open>avl/avl.c\<close> is a container (trees of void pointers with parent links, ranks and balance factors,
  which a callback compares and frees). \<^verbatim>\<open>httpp/httpp.c\<close> parses HTTP requests and responses and keeps what it finds in three AVL trees of variables;
  \<^verbatim>\<open>httpp/encoding.c\<close> sits between a stream backend (two callbacks) and its user and codes the payload (identity or chunked).
  \<^verbatim>\<open>log/log.c\<close> formats messages, writes and rotates log files and keeps the most recent lines of every log in memory.
  \<^verbatim>\<open>net/sock.c\<close> and \<^verbatim>\<open>net/resolver.c\<close> wrap the calls of the operating system in loops and fallbacks of their own. \<^verbatim>\<open>thread/thread.c\<close> wraps
  POSIX threads and keeps a registry of all threads in an AVL tree under a mutex; \<^verbatim>\<open>timing/timing.c\<close> reads the clock.

  \<^bold>\<open>Conventions.\<close> A C function that touches memory is a function into \<open>option\<close>; \<open>None\<close> is undefined behaviour (NULL or freed
  memory, a double free, an access outside a block, a mismatch of variable arguments, an overflow of a signed counter) or a loop
  that does not end. So every theorem that a result is \<open>Some r\<close> includes memory safety and termination. Loops whose end
  depends on the shape of the heap are \<open>partial_function (option)\<close>, with termination proved under the invariant; all other
  loops are total functions. There is no fuel. What the allocator, a callback, the file system or the clock answer is an
  argument: \<open>mem n\<close> says whether an allocation of \<open>n\<close> bytes succeeds; where the code does not test a result, the
  allocation succeeds. Machine integers whose wrap-around matters are words (ranks and balance of a node share one 32 bit
  word; indices of trees, lengths and totals have 64 bits).

  \<^bold>\<open>Theories.\<close>

  \<^item> \<open>Prelude\<close>, \<open>Cstring\<close>: addresses, words, collections of rules; characters, C strings, \<open>strcmp\<close>, \<open>strchr\<close>, \<open>atoi\<close>.

  \<^item> \<open>Avl_Defs\<close> models \<^verbatim>\<open>avl.c\<close> function by function on a heap of nodes; the large functions are split at their loops
    (\<open>avl_insert_descend\<close>, \<open>avl_insert_balance\<close>, \<open>avl_delete_find\<close>, \<open>avl_delete_climb\<close>, ...). \<open>Avl_Tree\<close> relates a heap to an
    abstract tree and defines the invariant (search order, ranks that count the left subtree, balance factors that are the
    difference of heights). \<open>Avl_Insert\<close>, \<open>Avl_Lookup\<close> and \<open>Avl_Delete\<close> show that insertion and deletion keep the invariant and
    refine insertion into and deletion from a sorted list, that lookups by key, by index and by neighbouring key, the walks, the
    iterations and the spans compute what the list says, that \<open>avl_tree_free\<close> frees everything once, and that \<open>avl_verify\<close> detects
    wrong ranks. Trees have fewer than \<open>2 ^ 30\<close> nodes, so that a rank fits its field. \<open>Avl\<close> states the contract of the
    container as the locales \<open>key_order\<close> and \<open>sorted_store\<close> and interprets them on the heap operations.

  \<^item> \<open>Encoding_Defs\<close> models \<^verbatim>\<open>encoding.c\<close>: the object, its buffers, \<open>enc_chunked_read\<close> with its search for the end of a chunk
    header, the chunk extensions, the writer and the buffered flush. Lengths are natural numbers; a chunk size saturates as
    \<open>strtoull\<close> does and one write takes at most 1048576 bytes. \<open>Encoding_Stream\<close> and \<open>Encoding\<close> show that reading hands out
    the payload for every way in which the backend cuts the stream into pieces, that writing neither loses nor reorders bytes
    for every backend that accepts only a part, the round trip of the two, the round trip and the size of extensions, and where the code fails:
    a leading line feed, chunks that are stuck behind the first of a delivery, the surplus line end of the last chunk.

  \<^item> \<open>Httpp_Defs\<close> models \<^verbatim>\<open>httpp.c\<close>: a tree of variables is the sorted list that the container contract promises, lookups
    and updates are those of the contract; the copy of the input is a list of bytes into which the parsers store zeros and
    offsets stand for pointers. \<open>Httpp_Parse\<close> and \<open>Httpp\<close> show that \<open>httpp_parse\<close> and \<open>httpp_parse_response\<close> are defined for every input (at
    most 32 lines are recorded), what they do for well-formed requests, what lookups find afterwards, and the
    correctness of query strings, URL escapes, variables and key enumeration. \<open>httpp_setvar_avl\<close> runs
    \<open>httpp_setvar\<close> on the AVL tree in the heap and refines the version on lists: the composition of the two modules.

  \<^item> \<open>Log_Format\<close> models the formatter of \<^verbatim>\<open>log.c\<close> (\<open>__vsnprintf\<close>) and proves it against formats given as lists of
    directives; escaped text cannot forge lines. \<open>Log_Defs\<close> models the table of 25 logs, the linked rings of recent
    lines, opening, rotation and writing; \<open>Log_Ring\<close> has the proofs about one ring and \<open>Log\<close> those about
    the table: the invariant of all reachable states (\<open>log_reach\<close>, a step relation over all calls), the refinement of \<open>log_write\<close>
    to a bounded list of lines and one line of output, and the calls after which the code uses freed memory.

  \<^item> \<open>Sock_Defs\<close> models \<^verbatim>\<open>sock.c\<close> against an operating system that is a record of functions, and keeps the books on
    descriptors and address lists; \<open>Sock\<close> shows that connecting and binding end and leak nothing, for every system that
    meets \<open>os_ok\<close> (descriptors are unique) and \<open>waits_end\<close> (waits are interrupted finitely often), what a line that is read
    consists of, and two mistakes of the code.

  \<^item> \<open>Server_Defs\<close> adds the rest of \<^verbatim>\<open>sock.c\<close> and \<^verbatim>\<open>resolver.c\<close>: accepting, listening, the test for mapped addresses, lookups, and
    the variants for systems without \<open>getaddrinfo\<close>, \<open>getnameinfo\<close>, \<open>poll\<close> or a standard \<open>vsnprintf\<close> (suffix \<open>_old\<close> or \<open>_select\<close>). A
    buffer of the caller is a list of bytes. \<open>Server\<close> shows what a lookup leaves in the buffer, that the test for mapped
    addresses leaves no descriptor open, where the variants agree (formatted writing for texts below 2089984 bytes, the
    largest buffer that is tried; waiting for descriptors below 1024), and where the old ones fail.

  \<^item> \<open>Thread_Defs\<close> models the registry of \<^verbatim>\<open>thread.c\<close>. A record of a thread lives in a heap; the registry is a tree of
    \<open>Avl_Defs\<close> whose keys are pointers to records; every critical section is a function, and \<open>tstep\<close> is the relation of the
    steps that the threads of a program can make, in any order. \<open>Thread_Registry\<close> interprets the container contract on the
    registry; \<open>Thread_Inv\<close> has the invariant (which phase of its life a record is in), \<open>Thread_Steps\<close> and \<open>Thread_Reach\<close> show that
    each step keeps it, \<open>Thread_Runs\<close> builds runs for the examples, and \<open>Thread\<close> has the theorems: no reachable step is
    undefined, the registry holds exactly one live record for each running thread, \<open>thread_self\<close> finds it, no record is lost,
    the owner of the mutex can always leave its section. They hold for builds without \<open>pthread_setname_np\<close>, when tree nodes can be
    allocated and system ids are not reused, below \<open>2 ^ 63 - 1\<close> threads in all and \<open>2 ^ 30\<close> at a time, and for clients that join
    each thread at most once; three runs show what happens otherwise.

  \<^item> \<open>Timing\<close> models \<^verbatim>\<open>timing.c\<close>, \<open>thread_sleep\<close> and the deadline of \<open>thread_cond_timedwait_c\<close>; \<open>Signals\<close> the signal masks that \<^verbatim>\<open>thread.c\<close> sets.

  \<^item> \<open>Avl_Print\<close> models the printing of trees and shows that its lines are the nodes in descending order, aligned with
    their parents. \<open>Release\<close> models on the level of memory blocks what \<open>httpp_release\<close>, \<open>httpp_encoding_release\<close> and the functions under them
    hand to \<open>free\<close>, and shows that every block of the object is freed once.

  \<^item> \<open>Httpp_Api\<close> runs any sequence of calls on one parser object and shows that each of them is defined and keeps the type of
    the object, reference count included.

  \<^item> \<open>Log_Threads_Defs\<close> cuts every function of \<^verbatim>\<open>log.c\<close> where it takes and gives back \<open>_logger_mutex\<close> and lets any number of threads
    run the pieces in any order (\<open>log_runs\<close>). \<open>Log_Threads_Parts\<close> has the lemmas about single pieces, \<open>Log_Threads_Inv\<close> the invariant
    of the whole, \<open>Log_Threads\<close> the theorems: under the rules for callers (\<open>may_call\<close>) no step is undefined and no closed stream
    is used; the recent lines are those of the pieces under the mutex in their order; every call ends; an undisturbed call
    does what \<open>Log_Defs\<close> says; and what happens when calls overlap that the rules keep apart.

  \<^item> \<open>Locks\<close> models the locks and conditions of \<^verbatim>\<open>thread.c\<close> and the locking functions of \<^verbatim>\<open>avl.c\<close> on the state of a pthread object
    (who holds it), and shows which sleepers a broadcast wakes. \<open>Lock_Sections\<close> states the contract of an exclusive lock as a
    locale, proves critical sections safe under it, and interprets it on the mutexes, the spin locks and the write locks. \<open>Avl_Shared\<close>
    runs threads that share a tree under its read-write lock: no data race, and the same results as one call after the other on a sorted list, by the container contract.

  \<^bold>\<open>Not modelled.\<close> Threads that share a parser or an encoding, which have no locks, are outside the model, and so is the lock of
  the resolver, which guards the static tables of the C library. A call of a locked operation on a tree is taken as atomic when
  it is free of races. The code of \<^verbatim>\<open>thread.c\<close> under \<open>DEBUG_MUTEXES\<close> and \<open>CHECK_MUTEXES\<close> does not compile or link (it uses a variable that
  is declared nowhere and a macro with the wrong number of arguments; \<^verbatim>\<open>src/thread/TODO\<close> lists it as work to be done), so there is no
  behaviour to model. Of the preprocessor variants those of a current Linux (LP64, signed \<open>char\<close>) are modelled, with the
  older POSIX variants named above; Windows is left out, as are the values of socket options and the ports in the
  addresses of the old variants. The test programs are not part of the library.
\<close>

end
